(* ===== verification/Prelude.thy ===== *)
theory Prelude
  imports Main "HOL-Library.Word"
begin

text \<open>
  What every component shares: the widths of the C integer types of
  \<^verbatim>\<open>fnet_user_config.h\<close> and \<^verbatim>\<open>stdint.h\<close>, the byte order conversions of a
  little-endian CPU, the collections of rewrite rules the component proofs use, and a few facts
  on lists, words and modular arithmetic that the library theories do not have.
\<close>

section \<open>Machine types\<close>

type_synonym u8 = "8 word"
type_synonym u16 = "16 word"
type_synonym u32 = "32 word"
type_synonym u64 = "64 word"

text \<open>
  Addresses and sizes (\<^verbatim>\<open>void *\<close>, \<^verbatim>\<open>fnet_size_t\<close>) are 32 bits wide on the target.
  Where an overflow decides what the code does they are natural numbers with the
  reduction \<open>w32\<close> written at the operation.
\<close>

abbreviation w32 :: "nat \<Rightarrow> nat" where
  "w32 n \<equiv> n mod 4294967296"

text \<open>Unsigned subtraction that does not wrap, as the code has it and as the model writes it.\<close>

lemma w32_sub: "b \<le> a \<Longrightarrow> a < 4294967296 \<Longrightarrow> w32 (a + 4294967296 - b) = a - b"
  by (simp add: mod_if)

text \<open>
  The conversion to \<^verbatim>\<open>fnet_int32_t\<close>: values from \<^verbatim>\<open>2^31\<close> on become negative.
\<close>

definition i32 :: "int \<Rightarrow> int" where
  "i32 k = (k + 2147483648) mod 4294967296 - 2147483648"

lemma i32_id: "- 2147483648 \<le> k \<Longrightarrow> k < 2147483648 \<Longrightarrow> i32 k = k"
  by (simp add: i32_def)

lemma i32_nat [simp]: "n < 2147483648 \<Longrightarrow> i32 (int n) = int n" "n < 2147483648 \<Longrightarrow> i32 (- int n) = - int n"
  by (simp_all add: i32_id)

lemma i32_add [simp]: "a + b < 2147483648 \<Longrightarrow> i32 (int a + int b) = int a + int b"
  by (simp add: i32_id)

lemma i32_diff: "a < 2147483648 \<Longrightarrow> b < 2147483648 \<Longrightarrow> i32 (int a - int b) = int a - int b"
  by (simp add: i32_id)

text \<open>The time passed, read from a counter that wraps around at \<open>m\<close>.\<close>

lemma mod_elapsed:
  fixes m :: nat
  assumes "d < m"
  shows "((start + d) mod m + m - start mod m) mod m = d"
proof (cases "start mod m + d < m")
  case True
  then have "(start + d) mod m = start mod m + d" by (metis mod_add_left_eq mod_less)
  then show ?thesis using assms by simp
next
  case False
  have less: "start mod m < m" using assms by simp
  have "(start + d) mod m = (start mod m + d) mod m" by (simp add: mod_simps)
  also have "\<dots> = (start mod m + d - m) mod m" using False by (metis le_mod_geq linorder_not_less)
  also have "\<dots> = start mod m + d - m" using False less assms by (intro mod_less) linarith
  finally show ?thesis using False less assms by simp
qed

section \<open>Rule collections\<close>

named_theorems cstring_simps \<open>evaluation and shape of C strings\<close>
named_theorems frame_simps \<open>what an operation leaves unchanged\<close>

section \<open>Lists\<close>

lemma list_update_append_mid [simp]:
  "(xs @ y # ys)[length xs := z] = xs @ z # ys"
  by (induction xs) auto

lemma takeWhile_append_stop:
  "\<lbrakk>\<forall>x\<in>set xs. P x; \<not> P y\<rbrakk> \<Longrightarrow> takeWhile P (xs @ y # ys) = xs"
  by (induction xs) auto

lemma dropWhile_append_stop:
  "\<lbrakk>\<forall>x\<in>set xs. P x; \<not> P y\<rbrakk> \<Longrightarrow> dropWhile P (xs @ y # ys) = y # ys"
  by (induction xs) auto

lemma split_at_zero:
  assumes "(0::u8) \<in> set s"
  obtains xs ys where "s = xs @ 0 # ys" "0 \<notin> set xs"
  using split_list_first [OF assms] by blast

lemma nth_append_exact [simp]: "(xs @ y # ys) ! length xs = y"
  by (simp add: nth_append)

section \<open>Words\<close>

lemma word8_lt_256 [simp]: "unat (x :: u8) < 256"
proof -
  have "unat x < 2 ^ LENGTH(8)" by (rule unsigned_less)
  then show ?thesis by simp
qed

lemma word8_le_255: "unat (x :: u8) \<le> 255"
  using word8_lt_256 [of x] by linarith

lemma word16_lt_65536 [simp]: "unat (x :: u16) < 65536"
proof -
  have "unat x < 2 ^ LENGTH(16)" by (rule unsigned_less)
  then show ?thesis by simp
qed

lemma word32_lt [simp]: "unat (x :: u32) < 4294967296"
proof -
  have "unat x < 2 ^ LENGTH(32)" by (rule unsigned_less)
  then show ?thesis by simp
qed

lemma unat_add_u32: "unat (a + b :: u32) = w32 (unat a + unat b)"
  by (simp add: unat_word_ariths)

lemma unat_sub_u32: "unat (a - b :: u32) = w32 (unat a + (4294967296 - unat b))"
proof (cases "unat b \<le> unat a")
  case True
  then have "unat (a - b) = unat a - unat b"
    by (simp add: unat_sub_if' word_le_nat_alt)
  moreover have "unat a + (4294967296 - unat b) = (unat a - unat b) + 4294967296"
    using True word32_lt [of b] by linarith
  moreover have "unat a - unat b < 4294967296" using word32_lt [of a] by linarith
  ultimately show ?thesis by simp
next
  case False
  then have "unat (a - b) = unat a + 4294967296 - unat b"
    by (simp add: unat_sub_if' word_le_nat_alt)
  moreover have "unat a + 4294967296 - unat b < 4294967296" using False by linarith
  moreover have "unat a + (4294967296 - unat b) = unat a + 4294967296 - unat b"
    using word32_lt [of b] by linarith
  ultimately show ?thesis by simp
qed

section \<open>Byte order\<close>

text \<open>
  The CPU is little endian (\<^verbatim>\<open>FNET_CFG_CPU_LITTLE_ENDIAN\<close> is 1 in
  \<^verbatim>\<open>fnet_mimxrt_config.h\<close>): a 16-bit load takes the byte at the lower address as the
  low half, and the host/network conversions swap the bytes.
\<close>

unbundle bit_operations_syntax

definition load16 :: "u8 \<Rightarrow> u8 \<Rightarrow> u16" where
  "load16 lo hi = ucast lo OR push_bit 8 (ucast hi)"

definition fnet_htons :: "u16 \<Rightarrow> u16" where
  "fnet_htons v = push_bit 8 (v AND 0x00FF) OR drop_bit 8 (v AND 0xFF00)"

lemma unat_ucast_8_16 [simp]: "unat (ucast (x :: u8) :: u16) = unat x"
  by (simp add: unsigned_ucast_eq take_bit_nat_eq_self_iff order.strict_trans [OF word8_lt_256])

lemma unat_ucast_8_32 [simp]: "unat (ucast (x :: u8) :: u32) = unat x"
  by (simp add: unsigned_ucast_eq take_bit_nat_eq_self_iff order.strict_trans [OF word8_lt_256])

lemma unat_ucast_16_32 [simp]: "unat (ucast (x :: u16) :: u32) = unat x"
  by (simp add: unsigned_ucast_eq take_bit_nat_eq_self_iff order.strict_trans [OF word16_lt_65536])

lemma unat_load16: "unat (load16 lo hi) = unat lo + 256 * unat hi"
proof -
  have disj: "ucast lo AND push_bit 8 (ucast hi :: u16) = 0"
    by (rule bit_word_eqI) (auto simp: bit_simps dest: bit_imp_le_length)
  have "load16 lo hi = ucast lo + push_bit 8 (ucast hi)"
    unfolding load16_def by (rule disjunctive_add_eq_or [OF disj, symmetric])
  moreover have "unat (push_bit 8 (ucast hi :: u16)) = 256 * unat hi"
  proof -
    have "256 * unat hi < 65536" using word8_lt_256 [of hi] by linarith
    then show ?thesis by (simp add: push_bit_eq_mult unat_word_ariths mult.commute)
  qed
  moreover have "unat lo + 256 * unat hi < 65536"
    using word8_lt_256 [of lo] word8_lt_256 [of hi] by linarith
  ultimately show ?thesis by (simp add: unat_word_ariths)
qed

lemma unat_drop_bit_div: "unat (drop_bit n (w :: 'a::len word)) = unat w div 2 ^ n"
proof -
  have "unat (drop_bit n w) = drop_bit n (unat w)"
    by (simp only: unsigned_drop_bit_eq take_bit_nat_eq_self [OF unsigned_less])
  also have "\<dots> = unat w div 2 ^ n" by (rule drop_bit_eq_div)
  finally show ?thesis .
qed

lemma unat_and_low16: "unat (w AND 0xffff :: u32) = unat w mod 65536"
proof -
  have "w AND 0xffff = take_bit 16 w" by (subst take_bit_eq_mask) (simp add: mask_numeral)
  then have "unat (w AND 0xffff) = take_bit 16 (unat w)" by (simp only: unsigned_take_bit_eq)
  also have "\<dots> = unat w mod 2 ^ 16" by (rule take_bit_eq_mod)
  finally show ?thesis by simp
qed

end
