(* ===== verification/Fnet_Memcpy.thy ===== *)
theory Fnet_Memcpy
  imports Prelude
begin

text \<open>
  \<^verbatim>\<open>fnet_memcpy\<close> of \<^verbatim>\<open>FNET/src/stack/fnet_stdlib.c\<close>, which the whole stack
  uses in place of the C library's. It works by address and alignment, so the model is over a
  flat memory.
\<close>

section \<open>Block copies over a flat memory\<close>

type_synonym mem = "nat \<Rightarrow> u8"

text \<open>One load of \<open>k\<close> bytes from \<open>from\<close> followed by one store of them to \<open>to\<close>.\<close>

definition blk :: "mem \<Rightarrow> nat \<Rightarrow> nat \<Rightarrow> nat \<Rightarrow> mem" where
  "blk m to frm k = (\<lambda>i. if to \<le> i \<and> i < to + k then m (frm + (i - to)) else m i)"

type_synonym cpy_state = "mem \<times> nat \<times> nat"

text \<open>\<^verbatim>\<open>*to_ptr++ = *from_ptr++\<close> with pointers to \<open>k\<close>-byte values.\<close>

definition cpy :: "nat \<Rightarrow> cpy_state \<Rightarrow> cpy_state" where
  "cpy k = (\<lambda>(m, to, frm). (blk m to frm k, to + k, frm + k))"

definition cpy16longs :: "cpy_state \<Rightarrow> cpy_state" where
  "cpy16longs st =
     cpy 4 (cpy 4 (cpy 4 (cpy 4 (cpy 4 (cpy 4 (cpy 4 (cpy 4
       (cpy 4 (cpy 4 (cpy 4 (cpy 4 (cpy 4 (cpy 4 (cpy 4 (cpy 4 st)))))))))))))))"

fun cpy_loop :: "(cpy_state \<Rightarrow> cpy_state) \<Rightarrow> nat \<Rightarrow> cpy_state \<Rightarrow> cpy_state" where
  "cpy_loop body 0 st = st"
| "cpy_loop body (Suc loops) st = cpy_loop body loops (body st)"

definition fnet_memcpy :: "mem \<Rightarrow> nat \<Rightarrow> nat \<Rightarrow> nat \<Rightarrow> mem" where
  "fnet_memcpy m to frm n =
     (let (st, n) =
        (if n > 3 then
           let (st, n) = (if frm mod 2 \<noteq> 0 then (cpy 1 (m, to, frm), n - 1) else ((m, to, frm), n));
               (st, n) = (if (snd (snd st) div 2) mod 2 \<noteq> 0 then (cpy 2 st, n - 2) else (st, n));
               st = cpy_loop cpy16longs (n div 64) st;
               st = cpy_loop (cpy 4) ((n div 4) mod 16) st
           in (st, n)
         else ((m, to, frm), n));
       st = (if (n div 2) mod 2 \<noteq> 0 then cpy 2 st else st);
       st = (if n mod 2 \<noteq> 0 then cpy 1 st else st)
      in fst st)"

text \<open>How far a copy has come: the first \<open>c\<close> bytes are in place.\<close>

definition copied :: "mem \<Rightarrow> nat \<Rightarrow> nat \<Rightarrow> nat \<Rightarrow> cpy_state" where
  "copied m to frm c = (blk m to frm c, to + c, frm + c)"

text \<open>The regions may overlap when the bytes move down.\<close>

definition clobber_free :: "nat \<Rightarrow> nat \<Rightarrow> nat \<Rightarrow> bool" where
  "clobber_free to frm n \<longleftrightarrow> to \<le> frm \<or> frm + n \<le> to"

lemma blk_blk:
  assumes "clobber_free to frm (a + b)"
  shows "blk (blk m to frm a) (to + a) (frm + a) b = blk m to frm (a + b)"
proof
  fix i
  show "blk (blk m to frm a) (to + a) (frm + a) b i = blk m to frm (a + b) i"
  proof (cases "to + a \<le> i \<and> i < to + (a + b)")
    case True
    let ?s = "frm + a + (i - (to + a))"
    have eq: "?s = frm + (i - to)" using True by linarith
    have "\<not> (to \<le> ?s \<and> ?s < to + a)"
      using assms True unfolding clobber_free_def by linarith
    then have "blk m to frm a ?s = m ?s" by (auto simp: blk_def)
    with True eq show ?thesis by (auto simp: blk_def)
  next
    case False
    then show ?thesis by (auto simp: blk_def)
  qed
qed

lemma cpy_copied:
  "clobber_free to frm (c + k) \<Longrightarrow> cpy k (copied m to frm c) = copied m to frm (c + k)"
  by (simp add: cpy_def copied_def blk_blk add.assoc)

lemma clobber_free_mono: "clobber_free to frm n \<Longrightarrow> k \<le> n \<Longrightarrow> clobber_free to frm k"
  by (auto simp: clobber_free_def)

lemma cpy16longs_copied:
  assumes "clobber_free to frm (c + 64)"
  shows "cpy16longs (copied m to frm c) = copied m to frm (c + 64)"
proof -
  have "cpy 4 (copied m to frm (c + k)) = copied m to frm (c + k + 4)" if "k \<le> 60" for k
    using that by (intro cpy_copied clobber_free_mono [OF assms]) simp
  from this [of 0] this [of 4] this [of 8] this [of 12] this [of 16] this [of 20] this [of 24]
    this [of 28] this [of 32] this [of 36] this [of 40] this [of 44] this [of 48] this [of 52]
    this [of 56] this [of 60]
  show ?thesis by (simp add: cpy16longs_def add.assoc)
qed

lemma cpy_loop_copied:
  assumes "\<And>c. clobber_free to frm (c + k) \<Longrightarrow> body (copied m to frm c) = copied m to frm (c + k)"
    and "clobber_free to frm (c + loops * k)"
  shows "cpy_loop body loops (copied m to frm c) = copied m to frm (c + loops * k)"
  using assms(2)
proof (induction loops arbitrary: c)
  case 0
  then show ?case by simp
next
  case (Suc loops)
  have "body (copied m to frm c) = copied m to frm (c + k)"
    by (rule assms(1), rule clobber_free_mono [OF Suc.prems]) simp
  with Suc.IH [of "c + k"] Suc.prems show ?case by (simp add: algebra_simps)
qed

lemma mod_div_split: "n div 64 * 64 + n div 4 mod 16 * 4 + (n div 2 mod 2) * 2 + n mod 2 = (n::nat)"
proof -
  have "n = 64 * (n div 64) + n mod 64" by simp
  moreover have "n mod 64 = 4 * (n div 4 mod 16) + n mod 4"
    using mod_mult2_eq [of n 4 16] by simp
  moreover have "n mod 4 = 2 * (n div 2 mod 2) + n mod 2"
    using mod_mult2_eq [of n 2 2] by simp
  ultimately show ?thesis by linarith
qed

lemma copied_0: "copied m to frm 0 = (m, to, frm)"
  by (auto simp: copied_def blk_def fun_eq_iff)

lemma copied_src [simp]: "snd (snd (copied m to frm c)) = frm + c"
  by (simp add: copied_def)

text \<open>The last two bytes: what follows both the word loops and the short copies.\<close>

lemma memcpy_tail:
  assumes "clobber_free to frm (c + (n div 2 mod 2) * 2 + n mod 2)"
    and "st = copied m to frm c"
    and "st' = (if n div 2 mod 2 \<noteq> 0 then cpy 2 st else st)"
  shows "fst (if n mod 2 \<noteq> 0 then cpy 1 st' else st')
         = blk m to frm (c + (n div 2 mod 2) * 2 + n mod 2)"
proof -
  have "st' = copied m to frm (c + (n div 2 mod 2) * 2)"
    using assms(2,3) cpy_copied [OF clobber_free_mono [OF assms(1)], of c 2] by auto
  then show ?thesis
    using cpy_copied [OF clobber_free_mono [OF assms(1)], of "c + (n div 2 mod 2) * 2" 1]
    by (auto simp: copied_def)
qed

lemma fnet_memcpy_blk:
  assumes ok: "clobber_free to frm n"
  shows "fnet_memcpy m to frm n = blk m to frm n"
proof (cases "n > 3")
  case False
  have e: "0 + n div 2 mod 2 * 2 + n mod 2 = n" using False by presburger
  show ?thesis
    unfolding fnet_memcpy_def Let_def if_not_P [OF False] split
    using memcpy_tail [of to frm 0 n "(m, to, frm)" m, OF _ _ refl, unfolded e copied_0, OF ok refl] .
next
  case True
  define c1 where "c1 = (if frm mod 2 \<noteq> 0 then 1 else (0::nat))"
  define c2 where "c2 = (if (frm + c1) div 2 mod 2 \<noteq> 0 then 2 else (0::nat))"
  define r where "r = n - (c1 + c2)"
  define c3 where "c3 = c1 + c2 + r div 64 * 64"
  define c4 where "c4 = c3 + (r div 4 mod 16) * 4"
  have sum: "c4 + (r div 2 mod 2) * 2 + r mod 2 = n"
  proof -
    have "c1 \<le> 1" "c2 \<le> 2" by (simp_all add: c1_def c2_def)
    with True have "c1 + c2 + r = n" unfolding r_def by linarith
    with mod_div_split [of r] show ?thesis unfolding c4_def c3_def by linarith
  qed
  note ok' = clobber_free_mono [OF ok]
  have a1: "(if frm mod 2 \<noteq> 0 then (cpy 1 (m, to, frm), n - 1) else ((m, to, frm), n))
      = (copied m to frm c1, n - c1)"
    using cpy_copied [OF ok', of 0 1 m] True by (simp add: c1_def copied_0)
  have a2: "(if snd (snd (copied m to frm c1)) div 2 mod 2 \<noteq> 0
              then (cpy 2 (copied m to frm c1), n - c1 - 2) else (copied m to frm c1, n - c1))
      = (copied m to frm (c1 + c2), r)"
    using cpy_copied [OF ok', of c1 2 m] True by (auto simp: c2_def r_def c1_def)
  have a3: "cpy_loop cpy16longs (r div 64) (copied m to frm (c1 + c2)) = copied m to frm c3"
    unfolding c3_def by (rule cpy_loop_copied [OF cpy16longs_copied], assumption, rule ok')
      (use sum in \<open>simp add: c4_def c3_def\<close>)
  have a4: "cpy_loop (cpy 4) (r div 4 mod 16) (copied m to frm c3) = copied m to frm c4"
    unfolding c4_def by (rule cpy_loop_copied [OF cpy_copied], assumption, rule ok')
      (use sum in \<open>simp add: c4_def\<close>)
  show ?thesis
    unfolding fnet_memcpy_def Let_def a1 split a2 a3 a4 if_P [OF True]
    using memcpy_tail [of to frm c4 r, OF _ refl refl] ok sum by simp
qed

text \<open>
  C1. The optimised copy, which first aligns the source, then moves 64 and 4 bytes at a time and
  finishes with the odd bytes, is one block copy: it writes exactly \<open>n\<close> bytes, every byte gets
  the value its source had at the call, and the regions may even overlap as long as the bytes
  move down (as when a buffer is closed up after a cut).
\<close>

theorem fnet_memcpy_block:
  assumes "clobber_free to frm n"
  shows "fnet_memcpy m to frm n = blk m to frm n"
  by (rule fnet_memcpy_blk [OF assms])

lemma fnet_memcpy_block_witness:
  "fnet_memcpy (\<lambda>i. of_nat i) 10 201 71 80 = (15 :: u8)"
  by (subst fnet_memcpy_block) (simp_all add: clobber_free_def blk_def)

end
