(* ===== verification/Fnet_String.thy ===== *)
theory Fnet_String
  imports Prelude
begin

text \<open>
  The string routines of \<^verbatim>\<open>FNET/src/stack/fnet_stdlib.c\<close>, which the whole stack uses
  in place of the C library, and its random number generator.

  A character pointer into an object is the list of bytes from the pointed-to byte to the end
  of the object (\<^verbatim>\<open>char\<close> is an unsigned byte on the target). A read or a write past
  the end of the object is \<open>None\<close>: a result \<open>Some _\<close> says that the routine stayed
  inside the objects it was given. A pointer that the code compares with 0 is an \<open>option\<close>.
\<close>

section \<open>Strings\<close>

text \<open>The bytes of a C string: what precedes the first NUL of the object.\<close>

definition cstr :: "u8 list \<Rightarrow> u8 list" where
  "cstr s = takeWhile (\<lambda>c. c \<noteq> 0) s"

definition terminated :: "u8 list \<Rightarrow> bool" where
  "terminated s \<longleftrightarrow> 0 \<in> set s"

lemma terminated_simps [simp]:
  "\<not> terminated []" "terminated (c # s) \<longleftrightarrow> c = 0 \<or> terminated s"
  by (auto simp: terminated_def)

lemma cstr_simps [simp]:
  "cstr [] = []" "cstr (c # s) = (if c = 0 then [] else c # cstr s)"
  by (auto simp: cstr_def)

lemma cstr_nonzero [simp]: "0 \<notin> set (cstr s)"
  by (auto simp: cstr_def dest: set_takeWhileD)

lemma cstr_append [simp]: "0 \<notin> set xs \<Longrightarrow> cstr (xs @ s) = xs @ cstr s"
  by (induction xs) auto

lemma terminated_append [simp]: "terminated (xs @ s) \<longleftrightarrow> 0 \<in> set xs \<or> terminated s"
  by (auto simp: terminated_def)

lemma terminated_split: "terminated s \<Longrightarrow> \<exists>t. s = cstr s @ 0 # t"
  by (induction s) auto

lemma cstr_length_less: "terminated s \<Longrightarrow> length (cstr s) < length s"
  by (induction s) auto

subsection \<open>Filling and comparing\<close>

fun fnet_memset :: "u8 list \<Rightarrow> u8 \<Rightarrow> nat \<Rightarrow> u8 list option" where
  "fnet_memset sp value 0 = Some sp"
| "fnet_memset [] value (Suc n) = None"
| "fnet_memset (c # sp) value (Suc n) = map_option ((#) value) (fnet_memset sp value n)"

fun fnet_memset_zero :: "u8 list \<Rightarrow> nat \<Rightarrow> u8 list option" where
  "fnet_memset_zero sp 0 = Some sp"
| "fnet_memset_zero [] (Suc n) = None"
| "fnet_memset_zero (c # sp) (Suc n) = map_option ((#) 0) (fnet_memset_zero sp n)"

fun fnet_memcmp :: "u8 list \<Rightarrow> u8 list \<Rightarrow> nat \<Rightarrow> int option" where
  "fnet_memcmp p1 p2 0 = Some 0"
| "fnet_memcmp (c1 # p1) (c2 # p2) (Suc count) =
     (let result = int (unat c1) - int (unat c2)
      in if result \<noteq> 0 then Some result else fnet_memcmp p1 p2 count)"
| "fnet_memcmp _ _ (Suc count) = None"

fun fnet_strcmp :: "u8 list \<Rightarrow> u8 list \<Rightarrow> int option" where
  "fnet_strcmp (c1 # s1) (c2 # s2) =
     (if c2 \<noteq> 0 \<and> c1 = c2 then fnet_strcmp s1 s2 else Some (int (unat c1) - int (unat c2)))"
| "fnet_strcmp _ _ = None"

fun strncmp_loop :: "nat \<Rightarrow> u8 list \<Rightarrow> u8 list \<Rightarrow> int option" where
  "strncmp_loop n [] p2 = (if w32 (n + 4294967295) = 0 then Some 0 else None)"
| "strncmp_loop n (c1 # p1) p2 =
     (let n = w32 (n + 4294967295)   \<comment> \<open>\<open>--n\<close>\<close>
      in if n = 0 then Some 0
         else case p2 of [] \<Rightarrow> None
              | c2 # p2 \<Rightarrow>
                  if c1 \<noteq> c2 then Some (int (unat c1) - int (unat c2))
                  else if c1 = 0 then Some 0
                  else strncmp_loop n p1 p2)"

definition fnet_strncmp :: "u8 list \<Rightarrow> u8 list \<Rightarrow> nat \<Rightarrow> int option" where
  "fnet_strncmp str1 str2 n = strncmp_loop (w32 (n + 1)) str1 str2"

definition fnet_tolower :: "u8 \<Rightarrow> u8" where
  "fnet_tolower c = (if c \<ge> 65 \<and> c \<le> 90 then c + 0x20 else c)"

fun fnet_strcasecmp :: "u8 list \<Rightarrow> u8 list \<Rightarrow> int option" where
  "fnet_strcasecmp (x # str1) (y # str2) =
     (let c1 = fnet_tolower x; c2 = fnet_tolower y
      in if c1 < c2 then Some (- 1)
         else if c1 > c2 then Some 1
         else if c1 = 0 then Some 0
         else fnet_strcasecmp str1 str2)"
| "fnet_strcasecmp _ _ = None"

subsection \<open>Lengths\<close>

fun strlen_loop :: "u8 list \<Rightarrow> nat \<Rightarrow> nat option" where
  "strlen_loop [] len = None"
| "strlen_loop (c # s) len = (if c \<noteq> 0 then strlen_loop s (len + 1) else Some len)"

definition fnet_strlen :: "u8 list option \<Rightarrow> nat option" where
  "fnet_strlen str = (case str of None \<Rightarrow> Some 0 | Some s \<Rightarrow> strlen_loop s 0)"

fun strnlen_loop :: "u8 list \<Rightarrow> nat \<Rightarrow> nat \<Rightarrow> nat option" where
  "strnlen_loop [] max_len len = None"
| "strnlen_loop (c # s) max_len len =
     (if c \<noteq> 0 then (if max_len = len then Some len else strnlen_loop s max_len (len + 1))
      else Some len)"

definition fnet_strnlen :: "u8 list option \<Rightarrow> nat \<Rightarrow> nat option" where
  "fnet_strnlen str max_len = (case str of None \<Rightarrow> Some 0 | Some s \<Rightarrow> strnlen_loop s max_len 0)"

lemma strlen_loop_eq:
  "strlen_loop s len = (if terminated s then Some (len + length (cstr s)) else None)"
  by (induction s arbitrary: len) auto

lemma strnlen_loop_eq:
  "len \<le> max_len \<Longrightarrow> strnlen_loop s max_len len =
     (if terminated s \<and> length (cstr s) \<le> max_len - len then Some (len + length (cstr s))
      else if max_len - len < length s then Some max_len else None)"
proof (induction s arbitrary: len)
  case Nil
  then show ?case by simp
next
  case (Cons c s)
  show ?case
  proof (cases "c = 0 \<or> max_len = len")
    case True
    then show ?thesis by auto
  next
    case False
    with Cons.prems have "len + 1 \<le> max_len" by simp
    with Cons.IH [OF this] False show ?thesis by auto
  qed
qed

lemma strlen_ret [cstring_simps]:
  "terminated s \<Longrightarrow> fnet_strlen (Some s) = Some (length (cstr s))"
  by (simp add: fnet_strlen_def strlen_loop_eq)

text \<open>
  \<^verbatim>\<open>fnet_strnlen\<close> reads the byte before it compares the count with the maximum, so an
  unterminated field of exactly \<open>max_len\<close> bytes is over-read by one byte.
\<close>

lemma fnet_strnlen_eq:
  "fnet_strnlen (Some s) max_len =
     (if terminated s \<and> length (cstr s) \<le> max_len then Some (length (cstr s))
      else if max_len < length s then Some max_len else None)"
  by (simp add: fnet_strnlen_def strnlen_loop_eq)

subsection \<open>Copying and appending\<close>

text \<open>
  The destination is the whole object and the index of \<open>dp\<close> in it; a store past its end is
  \<open>None\<close>.
\<close>

fun put :: "u8 list \<Rightarrow> nat \<Rightarrow> u8 \<Rightarrow> u8 list option" where
  "put dest i c = (if i < length dest then Some (dest[i := c]) else None)"

fun strcpy_loop :: "u8 list \<Rightarrow> nat \<Rightarrow> u8 list \<Rightarrow> u8 list option" where
  "strcpy_loop dest dp [] = None"
| "strcpy_loop dest dp (c # sp) =
     (if c \<noteq> 0 then Option.bind (put dest dp c) (\<lambda>dest. strcpy_loop dest (dp + 1) sp)
      else put dest dp 0)"

text \<open>\<open>n-- > 0\<close> in the loop guard: \<open>n\<close> more characters, then the NUL.\<close>

fun strncpy_loop :: "u8 list \<Rightarrow> nat \<Rightarrow> u8 list \<Rightarrow> nat \<Rightarrow> u8 list option" where
  "strncpy_loop dest dp [] n = None"
| "strncpy_loop dest dp (c # sp) n =
     (if c \<noteq> 0 \<and> n > 0
      then Option.bind (put dest dp c) (\<lambda>dest. strncpy_loop dest (dp + 1) sp (n - 1))
      else put dest dp 0)"

definition fnet_strcpy :: "u8 list option \<Rightarrow> u8 list option \<Rightarrow> u8 list option option" where
  "fnet_strcpy dest src =
     (case (dest, src) of
        (Some d, Some s) \<Rightarrow> map_option Some (strcpy_loop d 0 s)
      | _ \<Rightarrow> Some dest)"

definition fnet_strlcpy :: "u8 list option \<Rightarrow> u8 list option \<Rightarrow> nat \<Rightarrow> u8 list option option" where
  "fnet_strlcpy dest src n =
     (case (dest, src) of
        (Some d, Some s) \<Rightarrow> if n > 0 then map_option Some (strncpy_loop d 0 s n) else Some dest
      | _ \<Rightarrow> Some dest)"

definition fnet_strcat :: "u8 list option \<Rightarrow> u8 list option \<Rightarrow> u8 list option option" where
  "fnet_strcat dest src =
     (case (dest, src) of
        (Some d, Some s) \<Rightarrow>
          Option.bind (fnet_strlen dest) (\<lambda>dp. map_option Some (strcpy_loop d dp s))
      | _ \<Rightarrow> Some dest)"

definition fnet_strlcat :: "u8 list option \<Rightarrow> u8 list option \<Rightarrow> nat \<Rightarrow> u8 list option option" where
  "fnet_strlcat dest src n =
     (case (dest, src) of
        (Some d, Some s) \<Rightarrow>
          if n > 0
          then Option.bind (fnet_strlen dest) (\<lambda>dp. map_option Some (strncpy_loop d dp s n))
          else Some dest
      | _ \<Rightarrow> Some dest)"

text \<open>What the copy loops leave: the text \<open>t\<close> and a NUL from index \<open>dp\<close> on.\<close>

definition store_at :: "u8 list \<Rightarrow> nat \<Rightarrow> u8 list \<Rightarrow> u8 list" where
  "store_at dest dp t = take dp dest @ t @ drop (dp + length t) dest"

lemma store_at_step:
  "dp < length dest \<Longrightarrow> store_at (dest[dp := c]) (Suc dp) t = store_at dest dp (c # t)"
  by (simp add: store_at_def take_Suc_conv_app_nth)

lemma store_at_1: "dp < length dest \<Longrightarrow> store_at dest dp [c] = dest[dp := c]"
  by (simp add: store_at_def upd_conv_take_nth_drop)

lemma strncpy_loop_eq:
  assumes "terminated s"
  shows "strncpy_loop dest dp s n =
     (if dp + min n (length (cstr s)) < length dest
      then Some (store_at dest dp (take n (cstr s) @ [0])) else None)"
  using assms
proof (induction s arbitrary: dest dp n)
  case Nil
  then show ?case by simp
next
  case (Cons c s)
  show ?case
  proof (cases "c \<noteq> 0 \<and> n > 0")
    case False
    then show ?thesis by (auto simp: store_at_1)
  next
    case True
    then obtain k where k: "n = Suc k" by (cases n) auto
    with True Cons.prems Cons.IH [of "dest[dp := c]" "dp + 1" k] show ?thesis
      by (auto simp: store_at_step)
  qed
qed

lemma strcpy_loop_eq:
  assumes "terminated s"
  shows "strcpy_loop dest dp s =
     (if dp + length (cstr s) < length dest
      then Some (store_at dest dp (cstr s @ [0])) else None)"
  using assms
proof (induction s arbitrary: dest dp)
  case Nil
  then show ?case by simp
next
  case (Cons c s)
  show ?case
  proof (cases "c = 0")
    case True
    then show ?thesis by (auto simp: store_at_1)
  next
    case False
    with Cons.prems Cons.IH [of "dest[dp := c]" "dp + 1"] show ?thesis
      by (auto simp: store_at_step)
  qed
qed

lemma store_at_cstr:
  assumes "dp + length t < length dest" "0 \<notin> set (take dp dest)" "0 \<notin> set t"
  shows "cstr (store_at dest dp (t @ [0])) = take dp dest @ t"
  using assms by (simp add: store_at_def)

text \<open>
  \<^verbatim>\<open>fnet_strlcpy\<close> writes the first \<open>n\<close> characters of the source and then a NUL, so
  it needs room for \<open>min n (strlen src) + 1\<close> bytes and stays inside the destination exactly
  when that room is there. The result is a C string with the characters promised and the rest of
  the destination is untouched. (Unlike BSD's \<^verbatim>\<open>strlcpy\<close> the bound does not count the NUL:
  with the size of the buffer as \<open>n\<close> a longer source overruns the buffer by one byte.)
\<close>

lemma fnet_strlcpy_bound:
  assumes "terminated s" "n > 0"
  shows "fnet_strlcpy (Some d) (Some s) n =
           (if min n (length (cstr s)) + 1 \<le> length d
            then Some (Some (take n (cstr s) @ 0 # drop (min n (length (cstr s)) + 1) d))
            else None)"
  using assms by (auto simp: fnet_strlcpy_def strncpy_loop_eq store_at_def min.commute)

lemma fnet_strlcpy_bound_sample:
  "fnet_strlcpy (Some [7, 7, 7]) (Some [97, 98, 99, 100, 0]) 3 = None \<and>
   fnet_strlcpy (Some [7, 7, 7, 7]) (Some [97, 98, 99, 100, 0]) 3 = Some (Some [97, 98, 99, 0])"
  by (subst (1 2) fnet_strlcpy_bound) simp_all

text \<open>Appending: the string in the destination, then the text, if it fits.\<close>

lemma fnet_strcat_ret:
  assumes "terminated d" "terminated s" "length (cstr d) + length (cstr s) < length d"
  shows "\<exists>d'. fnet_strcat (Some d) (Some s) = Some (Some d') \<and> length d' = length d
           \<and> cstr d' = cstr d @ cstr s"
proof -
  have "take (length (cstr d)) d = cstr d"
    by (metis append_eq_conv_conj assms(1) terminated_split)
  then have "cstr (store_at d (length (cstr d)) (cstr s @ [0])) = cstr d @ cstr s"
    using store_at_cstr [OF assms(3)] by simp
  moreover have "length (store_at d (length (cstr d)) (cstr s @ [0])) = length d"
    using assms(3) by (simp add: store_at_def)
  ultimately show ?thesis
    using assms by (simp add: fnet_strcat_def strlen_ret strcpy_loop_eq)
qed

subsection \<open>Searching\<close>

text \<open>
  Results are indices into the string; the outer option is a read past the object, the inner one
  the code's \<^verbatim>\<open>FNET_NULL\<close>.
\<close>

fun strchr_loop :: "u8 list \<Rightarrow> nat \<Rightarrow> u8 \<Rightarrow> nat option option" where
  "strchr_loop [] i c = None"
| "strchr_loop (ch # p) i c =
     (if ch \<noteq> 0 then (if ch = c then Some (Some i) else strchr_loop p (i + 1) c)
      else Some (if c \<noteq> 0 then None else Some i))"

definition fnet_strchr :: "u8 list \<Rightarrow> u8 \<Rightarrow> nat option option" where
  "fnet_strchr str chr = strchr_loop str 0 chr"

fun strrchr_loop :: "u8 list \<Rightarrow> nat \<Rightarrow> u8 \<Rightarrow> nat option \<Rightarrow> nat option option" where
  "strrchr_loop [] i c q = None"
| "strrchr_loop (ch # p) i c q =
     (if ch \<noteq> 0 then strrchr_loop p (i + 1) c (if ch = c then Some i else q)
      else Some (case q of Some j \<Rightarrow> Some j | None \<Rightarrow> (if c \<noteq> 0 then None else Some i)))"

definition fnet_strrchr :: "u8 list \<Rightarrow> u8 \<Rightarrow> nat option option" where
  "fnet_strrchr str chr = strrchr_loop str 0 chr None"

text \<open>The inner comparison of \<^verbatim>\<open>fnet_strstr\<close>; its result is the last \<open>c2\<close> read.\<close>

fun strstr_inner :: "u8 list \<Rightarrow> u8 list \<Rightarrow> u8 option" where
  "strstr_inner (c1 # s2) (c2 # p2) =
     (if c1 = c2 \<and> c1 \<noteq> 0 then strstr_inner s2 p2 else Some c2)"
| "strstr_inner _ _ = None"

fun strstr_loop :: "u8 \<Rightarrow> u8 list \<Rightarrow> u8 list \<Rightarrow> nat \<Rightarrow> nat option option" where
  "strstr_loop firstc p1 [] i = None"
| "strstr_loop firstc p1 (c1 # s1) i =
     (if c1 = 0 then Some None
      else if c1 = firstc
      then (case strstr_inner s1 p1 of
              None \<Rightarrow> None
            | Some c2 \<Rightarrow> if c2 = 0 then Some (Some i) else strstr_loop firstc p1 s1 (i + 1))
      else strstr_loop firstc p1 s1 (i + 1))"

definition fnet_strstr :: "u8 list \<Rightarrow> u8 list option \<Rightarrow> nat option option" where
  "fnet_strstr str substr =
     (case substr of
        None \<Rightarrow> Some (Some 0)
      | Some [] \<Rightarrow> None
      | Some (firstc # p1) \<Rightarrow>
          if firstc = 0 then Some (Some 0) else strstr_loop firstc p1 str 0)"

text \<open>The specification: the first position at which the pattern starts.\<close>

fun occurs_at :: "u8 list \<Rightarrow> u8 list \<Rightarrow> nat \<Rightarrow> bool" where
  "occurs_at pat txt i \<longleftrightarrow> i \<le> length txt \<and> take (length pat) (drop i txt) = pat"

definition first_occurrence :: "u8 list \<Rightarrow> u8 list \<Rightarrow> nat option" where
  "first_occurrence pat txt = List.find (occurs_at pat txt) [0..<length txt + 1]"

lemma strstr_inner_eq:
  assumes "terminated s" "terminated p"
  shows "\<exists>c. strstr_inner s p = Some c \<and>
             (c = 0 \<longleftrightarrow> take (length (cstr p)) (cstr s) = cstr p)"
  using assms
proof (induction s p rule: strstr_inner.induct)
  case (1 c1 s2 c2 p2)
  then show ?case by (cases "c1 = c2 \<and> c1 \<noteq> 0") auto
qed auto

lemma find_first_cons:
  assumes "P 0 \<longleftrightarrow> Q"
  shows "List.find P [0..<Suc n] = (if Q then Some 0 else map_option Suc (List.find (P \<circ> Suc) [0..<n]))"
proof -
  have "[0..<Suc n] = 0 # map Suc [0..<n]" by (simp add: map_Suc_upt upt_conv_Cons)
  moreover have "List.find P (map Suc xs) = map_option Suc (List.find (P \<circ> Suc) xs)" for xs
    by (induction xs) auto
  ultimately show ?thesis using assms by simp
qed

lemma first_occurrence_Nil: "pat \<noteq> [] \<Longrightarrow> first_occurrence pat [] = None"
  by (simp add: first_occurrence_def)

lemma first_occurrence_Cons:
  "first_occurrence pat (c # txt) =
     (if take (length pat) (c # txt) = pat then Some 0
      else map_option Suc (first_occurrence pat txt))"
proof -
  have "occurs_at pat (c # txt) \<circ> Suc = occurs_at pat txt" by (auto simp: fun_eq_iff)
  then show ?thesis
    using find_first_cons [of "occurs_at pat (c # txt)" _ "length txt + 1", OF refl]
    by (simp add: first_occurrence_def)
qed

lemma strstr_loop_eq:
  assumes "terminated s" "terminated p1" "firstc \<noteq> 0"
  shows "strstr_loop firstc p1 s i =
         Some (map_option (\<lambda>k. i + k) (first_occurrence (firstc # cstr p1) (cstr s)))"
  using assms(1)
proof (induction s arbitrary: i)
  case Nil
  then show ?case by simp
next
  case (Cons c s)
  show ?case
  proof (cases "c = 0")
    case True
    then show ?thesis by (simp add: first_occurrence_Nil)
  next
    case False
    with Cons.prems have t: "terminated s" by simp
    obtain c2 where c2: "strstr_inner s p1 = Some c2"
      "c2 = 0 \<longleftrightarrow> take (length (cstr p1)) (cstr s) = cstr p1"
      using strstr_inner_eq [OF t assms(2)] by blast
    have shift: "map_option (\<lambda>k. Suc i + k) x = map_option (\<lambda>k. i + k) (map_option Suc x)" for x
      by (simp add: option.map_comp comp_def)
    show ?thesis
      using False c2 Cons.IH [OF t, of "i + 1"]
      by (auto simp: first_occurrence_Cons option.map_comp comp_def)
  qed
qed

text \<open>
  \<^verbatim>\<open>fnet_strstr\<close> returns the position of the first occurrence of the pattern in the
  text and \<^verbatim>\<open>FNET_NULL\<close> when there is none, the empty pattern being found at the start;
  on terminated strings it never reads past either object.
\<close>

lemma fnet_strstr_first:
  assumes "terminated str" "terminated sub"
  shows "fnet_strstr str (Some sub) = Some (first_occurrence (cstr sub) (cstr str))"
proof (cases sub)
  case Nil
  with assms show ?thesis by simp
next
  case (Cons c p1)
  have e: "first_occurrence [] t = Some 0" for t
    by (simp add: first_occurrence_def upt_conv_Cons del: upt_Suc)
  show ?thesis
  proof (cases "c = 0")
    case True
    with Cons show ?thesis by (simp add: fnet_strstr_def e)
  next
    case False
    with assms Cons show ?thesis
      by (simp add: fnet_strstr_def strstr_loop_eq option.map_ident)
  qed
qed

lemma fnet_strstr_first_sample:
  "fnet_strstr [97, 97, 98, 99, 0] (Some [97, 98, 0]) = Some (Some 1)"
  by (subst fnet_strstr_first) (simp_all add: first_occurrence_def upt_conv_Cons)

text \<open>\<^verbatim>\<open>fnet_strchr\<close> finds the first occurrence of a byte, the terminator included.\<close>

lemma strchr_loop_eq:
  "terminated s \<Longrightarrow> strchr_loop s i c =
     Some (if c = 0 then Some (i + length (cstr s))
           else if c \<in> set (cstr s) then Some (i + length (takeWhile (\<lambda>x. x \<noteq> c) (cstr s)))
           else None)"
  by (induction s arbitrary: i) auto

lemma fnet_strchr_ret [cstring_simps]:
  "terminated s \<Longrightarrow> fnet_strchr s c =
     Some (if c = 0 then Some (length (cstr s))
           else if c \<in> set (cstr s) then Some (length (takeWhile (\<lambda>x. x \<noteq> c) (cstr s)))
           else None)"
  by (simp add: fnet_strchr_def strchr_loop_eq)

section \<open>Numbers\<close>

definition is_blank :: "u8 \<Rightarrow> bool" where
  "is_blank c \<longleftrightarrow> c = 32 \<or> c = 9"

definition is_alnum :: "u8 \<Rightarrow> bool" where
  "is_alnum c \<longleftrightarrow> (48 \<le> c \<and> c \<le> 57) \<or> (65 \<le> c \<and> c \<le> 90) \<or> (97 \<le> c \<and> c \<le> 122)"

text \<open>\<^verbatim>\<open>Convert fnet_char_t to num in 0..36\<close>\<close>

definition digit_val :: "u8 \<Rightarrow> u8" where
  "digit_val c = (if 48 \<le> c \<and> c \<le> 57 then c - 48
                  else if 65 \<le> c \<and> c \<le> 90 then c - 65 + 10
                  else c - 97 + 10)"

fun skip_blanks :: "u8 list \<Rightarrow> nat \<Rightarrow> (u8 list \<times> nat) option" where
  "skip_blanks [] i = None"
| "skip_blanks (c # s) i = (if is_blank c then skip_blanks s (i + 1) else Some (c # s, i))"

text \<open>The conversion loop: the value so far, the index of \<^verbatim>\<open>endp\<close>, and \<^verbatim>\<open>err\<close>.\<close>

fun strtoul_loop :: "u8 list \<Rightarrow> nat \<Rightarrow> nat \<Rightarrow> bool \<Rightarrow> u32 \<Rightarrow> (u32 \<times> nat \<times> bool) option" where
  "strtoul_loop [] i base neg rvalue = None"
| "strtoul_loop (c # s) i base neg rvalue =
     (if c = 0 \<or> is_blank c then Some (rvalue, i, False)
      else if \<not> is_alnum c then Some (rvalue, i + 1, True)
      else if unat (digit_val c) \<ge> base then Some (rvalue, i + 1, True)
      else strtoul_loop s (i + 1) base neg
             (if neg then rvalue * of_nat base - ucast (digit_val c)
              else rvalue * of_nat base + ucast (digit_val c)))"

text \<open>The \<^verbatim>\<open>switch\<close> on the first character: base, sign and where the digits start.\<close>

definition strtoul_notation :: "u8 list \<Rightarrow> nat \<Rightarrow> nat \<Rightarrow> (u8 list \<times> nat \<times> nat \<times> bool) option" where
  "strtoul_notation startp i base =
     (case startp of
        [] \<Rightarrow> None
      | c0 # s \<Rightarrow>
          if c0 = 48
          then (case s of
                  [] \<Rightarrow> None
                | c1 # s' \<Rightarrow>
                    if (c1 = 120 \<or> c1 = 88) \<and> (base = 0 \<or> base = 16)
                    then Some (s', i + 2, 16, False)
                    else Some (startp, i, base, False))
          else if c0 = 45 then Some (s, i + 1, base, True)
          else Some (startp, i, base, False))"

text \<open>The value returned and the index stored through \<^verbatim>\<open>ptr\<close>.\<close>

definition fnet_strtoul :: "u8 list option \<Rightarrow> nat \<Rightarrow> (u32 \<times> nat) option" where
  "fnet_strtoul str base =
     (case str of
        None \<Rightarrow> Some (0, 0)
      | Some s \<Rightarrow>
          if base = 1 \<or> base > 36 then Some (0, 0)
          else
            Option.bind (skip_blanks s 0) (\<lambda>(startp, i).
            Option.bind (strtoul_notation startp i base) (\<lambda>(startp, i, base, neg).
              let base = (if base = 0 then 10 else base)
              in map_option (\<lambda>(rvalue, endp, err). if err then (0, 0) else (rvalue, endp))
                   (strtoul_loop startp i base neg 0))))"

text \<open>Digits in print, and the number they stand for.\<close>

definition digit_char :: "nat \<Rightarrow> u8" where
  "digit_char d = (if d < 10 then of_nat (48 + d) else of_nat (87 + d))"

definition number_of :: "nat \<Rightarrow> nat list \<Rightarrow> nat" where
  "number_of base ds = foldl (\<lambda>a d. a * base + d) 0 ds"

lemma digit_char_facts:
  assumes "d < 36"
  shows "is_alnum (digit_char d)" "unat (digit_val (digit_char d)) = d"
    "digit_char d \<noteq> 0" "\<not> is_blank (digit_char d)" "digit_char d \<noteq> 45"
    "digit_char d = 120 \<longleftrightarrow> d = 33" "digit_char d \<noteq> 88"
proof -
  have "d \<in> set [0..<36]" using assms by simp
  then have "is_alnum (digit_char d) \<and> unat (digit_val (digit_char d)) = d \<and> digit_char d \<noteq> 0
    \<and> \<not> is_blank (digit_char d) \<and> digit_char d \<noteq> 45 \<and> (digit_char d = 120 \<longleftrightarrow> d = 33)
    \<and> digit_char d \<noteq> 88"
    by (simp add: upt_rec numeral_eq_Suc [symmetric]) 
      (elim disjE; simp add: digit_char_def is_alnum_def digit_val_def is_blank_def)
  then show "is_alnum (digit_char d)" "unat (digit_val (digit_char d)) = d"
    "digit_char d \<noteq> 0" "\<not> is_blank (digit_char d)" "digit_char d \<noteq> 45"
    "digit_char d = 120 \<longleftrightarrow> d = 33" "digit_char d \<noteq> 88" by blast+
qed

lemma ucast_digit: "d < 36 \<Longrightarrow> (ucast (digit_val (digit_char d)) :: u32) = of_nat d"
  using digit_char_facts(2) [of d] by (metis of_nat_unat)

lemma strtoul_loop_digits:
  assumes "\<forall>d\<in>set ds. d < base" "base \<le> 36" "stop = 0 \<or> is_blank stop"
  shows "strtoul_loop (map digit_char ds @ stop # rest) i base False v
         = Some (foldl (\<lambda>a d. a * of_nat base + of_nat d) v ds, i + length ds, False)"
  using assms(1)
proof (induction ds arbitrary: i v)
  case Nil
  with assms show ?case by auto
next
  case (Cons d ds)
  then have d: "d < base" "d < 36" using assms(2) by auto
  have step: "strtoul_loop (digit_char d # s) i base False v
      = strtoul_loop s (i + 1) base False (v * of_nat base + of_nat d)" for s
    using d(1) digit_char_facts(1,2,3,4) [OF d(2)] ucast_digit [OF d(2)] by simp
  show ?case
    using Cons.IH [of "i + 1" "v * of_nat base + of_nat d"] Cons.prems by (simp add: step del: strtoul_loop.simps)
qed

lemma of_nat_foldl_number:
  "(of_nat (foldl (\<lambda>a d. a * base + d) v ds) :: u32)
   = foldl (\<lambda>a d. a * of_nat base + of_nat d) (of_nat v) ds"
  by (induction ds arbitrary: v) simp_all

lemma skip_blanks_eq:
  "\<lbrakk>\<forall>c\<in>set ws. is_blank c; s \<noteq> []; \<not> is_blank (hd s)\<rbrakk>
   \<Longrightarrow> skip_blanks (ws @ s) i = Some (s, i + length ws)"
proof (induction ws arbitrary: i)
  case Nil
  then show ?case by (cases s) auto
qed auto

lemma strtoul_notation_plain:
  assumes "ds \<noteq> []" "\<forall>d\<in>set ds. d < base" "base \<le> 36" "stop = 0 \<or> is_blank stop"
  shows "strtoul_notation (map digit_char ds @ stop # rest) i base
         = Some (map digit_char ds @ stop # rest, i, base, False)"
proof -
  obtain d ds' where ds: "ds = d # ds'" using assms(1) by (cases ds) auto
  then have d: "d < 36" using assms(2,3) by auto
  define c1 where "c1 = hd (map digit_char ds' @ [stop])"
  have c1: "(c1 = 120 \<longrightarrow> base \<noteq> 0 \<and> base \<noteq> 16) \<and> c1 \<noteq> 88"
  proof (cases ds')
    case Nil
    with assms(4) show ?thesis by (auto simp: c1_def is_blank_def)
  next
    case (Cons e es)
    with ds assms(2,3) have "e < base" "e < 36" by auto
    with Cons digit_char_facts(6,7) [of e] show ?thesis by (auto simp: c1_def)
  qed
  obtain t where tail: "map digit_char ds' @ stop # rest = c1 # t"
    by (cases ds') (simp_all add: c1_def)
  show ?thesis
    using c1 digit_char_facts(5) [OF d]
    by (auto simp: strtoul_notation_def ds tail)
qed



section \<open>Path components and tokens\<close>

fun skip_char :: "u8 \<Rightarrow> u8 list \<Rightarrow> u8 list option" where
  "skip_char x [] = None"
| "skip_char x (c # s) = (if c = x then skip_char x s else Some (c # s))"

fun splitter_loop :: "u8 list \<Rightarrow> u8 list \<Rightarrow> u8 \<Rightarrow> (u8 list \<times> u8 list) option" where
  "splitter_loop (c1 # s1) (c2 # s2) splitter =
     (if c2 \<noteq> 0 \<and> c1 = c2
      then (case s1 of [] \<Rightarrow> None
            | d # _ \<Rightarrow> if d = splitter then Some (s1, s2) else splitter_loop s1 s2 splitter)
      else Some (c1 # s1, c2 # s2))"
| "splitter_loop _ _ splitter = None"

definition fnet_strcmp_splitter :: "u8 list \<Rightarrow> u8 list \<Rightarrow> u8 \<Rightarrow> int option" where
  "fnet_strcmp_splitter in_str name splitter =
     Option.bind (skip_char 32 name) (\<lambda>s2.
     Option.bind (skip_char splitter s2) (\<lambda>s2.
     Option.bind (skip_char 32 in_str) (\<lambda>s1.
       if hd s2 = 0 \<and> hd s1 = splitter then Some 0
       else
         Option.bind (skip_char splitter s1) (\<lambda>s1.
         Option.bind (splitter_loop s1 s2 splitter) (\<lambda>(s1, s2).
           case (s1, s2) of
             (c1 # _, c2 # _) \<Rightarrow>
               if c1 = splitter then Some 0 else Some (int (unat c1) - int (unat c2))
           | _ \<Rightarrow> None)))))"

lemma skip_char_id: "s \<noteq> [] \<Longrightarrow> hd s \<noteq> x \<Longrightarrow> skip_char x s = Some s"
  by (cases s) auto

lemma splitter_loop_prefix:
  assumes "c \<noteq> []" "0 \<notin> set c" "sp \<notin> set c" "0 \<notin> set nm" "sp \<noteq> 0"
  shows "\<exists>c1 t1 c2 t2. splitter_loop (c @ sp # r) (nm @ 0 # r') sp = Some (c1 # t1, c2 # t2)
           \<and> (c1 = sp \<or> c1 = c2 \<longleftrightarrow> take (length c) nm = c)"
  using assms(1-4)
proof (induction c arbitrary: nm)
  case Nil
  then show ?case by simp
next
  case (Cons x c)
  show ?case
  proof (cases nm)
    case Nil
    with Cons.prems assms(5) show ?thesis by auto
  next
    case nm: (Cons y nm')
    show ?thesis
    proof (cases "x = y")
      case False
      with Cons.prems nm show ?thesis by auto
    next
      case True
      show ?thesis
      proof (cases c)
        case Nil
        with True Cons.prems nm show ?thesis by (cases nm') auto
      next
        case (Cons z c')
        have "\<exists>c1 t1 c2 t2. splitter_loop (c @ sp # r) (nm' @ 0 # r') sp = Some (c1 # t1, c2 # t2)
           \<and> (c1 = sp \<or> c1 = c2 \<longleftrightarrow> take (length c) nm' = c)"
          using Cons.IH [of nm'] Cons.prems Cons nm by auto
        with True Cons.prems Cons nm show ?thesis by auto
      qed
    qed
  qed
qed

text \<open>
  Where the compared path has a further component, \<^verbatim>\<open>fnet_strcmp_splitter\<close> returns 0
  exactly when the first component is a \<^emph>\<open>prefix\<close> of the name. The header file promises 0 only
  when the two match: \<^verbatim>\<open>"ab/x"\<close> compares equal to the name \<^verbatim>\<open>"abc"\<close>, because the
  loop leaves at the splitter without looking at what remains of the name.
\<close>

lemma fnet_strcmp_splitter_prefix:
  assumes "c \<noteq> []" "0 \<notin> set c" "sp \<notin> set c" "hd c \<noteq> 32" "sp \<noteq> 0"
    and "0 \<notin> set nm" "nm = [] \<or> hd nm \<noteq> 32 \<and> hd nm \<noteq> sp"
  shows "\<exists>x. fnet_strcmp_splitter (c @ sp # r) (nm @ 0 # r') sp = Some x
           \<and> (x = 0 \<longleftrightarrow> take (length c) nm = c)"
proof -
  obtain c1 t1 c2 t2 where
    loop: "splitter_loop (c @ sp # r) (nm @ 0 # r') sp = Some (c1 # t1, c2 # t2)"
    and eq: "c1 = sp \<or> c1 = c2 \<longleftrightarrow> take (length c) nm = c"
    using splitter_loop_prefix [OF assms(1-3,6,5)] by blast
  have h: "hd (c @ sp # r) \<noteq> 32" "hd (c @ sp # r) \<noteq> sp"
    using assms(1,3,4) by (cases c; auto)+
  have n: "hd (nm @ 0 # r') \<noteq> 32" "hd (nm @ 0 # r') \<noteq> sp"
    using assms(5,7) by (cases nm; auto)+
  have z: "int (unat c1) - int (unat c2) = 0 \<longleftrightarrow> c1 = c2"
    by (auto simp: word_uint_eq_iff)
  show ?thesis
    using eq z by (auto simp: fnet_strcmp_splitter_def skip_char_id h n loop)
qed

lemma fnet_strcmp_splitter_prefix_sample:
  "\<exists>x. fnet_strcmp_splitter ([71] @ 32 # [47, 0]) ([71, 69, 84] @ 0 # []) 32 = Some x
     \<and> (x = 0 \<longleftrightarrow> take (length [71 :: u8]) [71, 69, 84 :: u8] = [71])"
  by (rule fnet_strcmp_splitter_prefix) simp_all

subsection \<open>Tokens\<close>

text \<open>The two scans of the delimiter string, for a leading delimiter and for the end of a token.\<close>

fun span_has :: "u8 list \<Rightarrow> u8 \<Rightarrow> bool option" where
  "span_has [] c = None"
| "span_has (sc # spanp) c =
     (if sc \<noteq> 0 then (if c = sc then Some True else span_has spanp c) else Some False)"

fun span_end :: "u8 list \<Rightarrow> u8 \<Rightarrow> bool option" where
  "span_end [] c = None"
| "span_end (sc # spanp) c =
     (if sc = c then Some True else if sc \<noteq> 0 then span_end spanp c else Some False)"

fun tok_start :: "u8 list \<Rightarrow> nat \<Rightarrow> u8 list \<Rightarrow> (u8 \<times> nat \<times> u8 list) option" where
  "tok_start [] i delimiter = None"
| "tok_start (c # s) i delimiter =
     (case span_has delimiter c of
        None \<Rightarrow> None
      | Some True \<Rightarrow> tok_start s (i + 1) delimiter
      | Some False \<Rightarrow> Some (c, i, s))"

fun tok_end :: "u8 list \<Rightarrow> nat \<Rightarrow> u8 list \<Rightarrow> (u8 \<times> nat) option" where
  "tok_end [] i delimiter = None"
| "tok_end (c # s) i delimiter =
     (case span_end delimiter c of
        None \<Rightarrow> None
      | Some True \<Rightarrow> Some (c, i)
      | Some False \<Rightarrow> tok_end s (i + 1) delimiter)"

text \<open>
  \<open>obj\<close> is the object the string lies in; \<open>str\<close> and \<open>last\<close> are indices into it or NULL. The result
  is the token, the object with the delimiter overwritten, and the new \<open>*last\<close>.
\<close>

definition fnet_strtok_r ::
    "u8 list \<Rightarrow> nat option \<Rightarrow> u8 list \<Rightarrow> nat option \<Rightarrow> (nat option \<times> u8 list \<times> nat option) option" where
  "fnet_strtok_r obj str delimiter lst =
     (case (case str of None \<Rightarrow> lst | Some i \<Rightarrow> Some i) of
        None \<Rightarrow> Some (None, obj, lst)
      | Some i \<Rightarrow>
          Option.bind (tok_start (drop i obj) i delimiter) (\<lambda>(c, tok, s).
            if c = 0 then Some (None, obj, None)
            else
              map_option (\<lambda>(c, k).
                  if c = 0 then (Some tok, obj, None)
                  else (Some tok, obj[k := 0], Some (k + 1)))
                (tok_end s (tok + 1) delimiter)))"

lemma span_has_eq: "terminated d \<Longrightarrow> span_has d c = Some (c \<in> set (cstr d))"
  by (induction d) auto

lemma span_end_eq: "terminated d \<Longrightarrow> span_end d c = Some (c = 0 \<or> c \<in> set (cstr d))"
  by (induction d) auto

lemma tok_start_eq:
  assumes "terminated d" "set ds \<subseteq> set (cstr d)" "c \<notin> set (cstr d)"
  shows "tok_start (ds @ c # s) i d = Some (c, i + length ds, s)"
  using assms(2)
proof (induction ds arbitrary: i)
  case Nil
  with assms show ?case by (simp add: span_has_eq)
next
  case (Cons x ds)
  with assms(1) show ?case by (simp add: span_has_eq)
qed

lemma tok_end_eq:
  assumes "terminated d" "set tok \<inter> insert 0 (set (cstr d)) = {}" "e = 0 \<or> e \<in> set (cstr d)"
  shows "tok_end (tok @ e # s) i d = Some (e, i + length tok)"
  using assms(2)
proof (induction tok arbitrary: i)
  case Nil
  with assms show ?case by (simp add: span_end_eq)
next
  case (Cons x tok)
  with assms(1) show ?case by (simp add: span_end_eq)
qed

text \<open>
  \<^verbatim>\<open>fnet_strtok_r\<close> skips the leading delimiters, returns the start of the next maximal
  run of other characters, ends that token in place with a NUL, changes no other byte, and
  leaves in \<^verbatim>\<open>*last\<close> the position after the delimiter, or NULL at the end of the string.
\<close>

lemma fnet_strtok_r_next:
  assumes "terminated d" "set ds \<subseteq> set (cstr d)"
    and "tok \<noteq> []" "set tok \<inter> insert 0 (set (cstr d)) = {}" "e = 0 \<or> e \<in> set (cstr d)"
  shows "fnet_strtok_r (pre @ ds @ tok @ e # rest) (Some (length pre)) d lst =
           Some (Some (length pre + length ds), pre @ ds @ tok @ 0 # rest,
                 if e = 0 then None else Some (length pre + length ds + length tok + 1))"
proof -
  obtain c t where tok: "tok = c # t" using assms(3) by (cases tok) auto
  with assms(4) have c: "c \<notin> set (cstr d)" "c \<noteq> 0" "set t \<inter> insert 0 (set (cstr d)) = {}" by auto
  have st: "tok_start (ds @ tok @ e # rest) i d = Some (c, i + length ds, t @ e # rest)" for i
    using tok_start_eq [OF assms(1,2) c(1)] tok by simp
  have upd: "(pre @ ds @ tok @ e # rest)[length pre + (length ds + length tok) := 0]
      = pre @ ds @ tok @ 0 # rest"
    using list_update_append_mid [of "pre @ ds @ tok" e rest 0] by simp
  have eq: "length pre + length ds + 1 + length t = length pre + (length ds + length tok)"
    using tok by simp
  show ?thesis
    using c(2) tok_end_eq [OF assms(1) c(3) assms(5), of rest "length pre + length ds + 1"]
      upd unfolding eq
    by (simp add: fnet_strtok_r_def st)
qed

lemma fnet_strtok_r_next_sample:
  "fnet_strtok_r ([1] @ [32, 32] @ [97, 98] @ 32 # [99, 0]) (Some (length [1 :: u8])) [32, 0] None
   = Some (Some (length [1 :: u8] + length [32, 32 :: u8]), [1] @ [32, 32] @ [97, 98] @ 0 # [99, 0],
       if (32 :: u8) = 0 then None
       else Some (length [1 :: u8] + length [32, 32 :: u8] + length [97, 98 :: u8] + 1))"
  by (rule fnet_strtok_r_next) simp_all

section \<open>Pseudo-random numbers\<close>

text \<open>The seed is the static \<^verbatim>\<open>fnet_rand_seed\<close>; the product is taken in 64 bits.\<close>

definition fnet_rand :: "u32 \<Rightarrow> u32 \<times> u32" where
  "fnet_rand seed =
     (let a = 16807 :: u64; m = 2147483647 :: u64;
          tmp = ucast seed * a;
          seed = ucast (tmp mod m)
      in (seed, seed))"

definition fnet_srand :: "u32 \<Rightarrow> u32 \<Rightarrow> u32" where
  "fnet_srand fnet_rand_seed seed = fnet_rand_seed + seed"

lemma unat_fnet_rand: "unat (fst (fnet_rand s)) = unat s * 16807 mod 2147483647"
proof -
  have s: "unat (ucast s :: u64) = unat s"
    using word32_lt [of s]
    by (simp add: unsigned_ucast_eq take_bit_nat_eq_self_iff order.strict_trans [OF word32_lt])
  have "unat s * 16807 < 18446744073709551616" using word32_lt [of s] by linarith
  then have p: "unat (ucast s * 16807 :: u64) = unat s * 16807"
    by (simp add: unat_word_ariths s)
  have "unat (ucast s * 16807 mod 2147483647 :: u64) = unat s * 16807 mod 2147483647"
    by (simp add: unat_mod_distrib p)
  moreover have "unat s * 16807 mod 2147483647 < 4294967296"
    by (rule order.strict_trans [of _ 2147483647]) simp_all
  ultimately show ?thesis
    by (simp add: fnet_rand_def Let_def unsigned_ucast_eq take_bit_nat_eq_self_iff)
qed

lemma coprime_multiplier: "coprime (16807 :: nat) 2147483647"
  by (simp add: coprime_iff_gcd_eq_1 gcd_non_0_nat)

lemma mult_mod_inj:
  fixes a b k m :: nat
  assumes "coprime k m" "a * k mod m = b * k mod m" "a < m" "b < m"
  shows "a = b"
proof -
  have "int m dvd int a * int k - int b * int k"
    using assms(2) by (metis mod_eq_dvd_iff of_nat_mod of_nat_mult)
  then have "int m dvd (int a - int b) * int k" by (simp add: left_diff_distrib)
  moreover have "coprime (int m) (int k)"
    using assms(1) by (simp add: coprime_commute)
  ultimately have "int m dvd int a - int b" by (simp add: coprime_dvd_mult_left_iff)
  then have "int a mod int m = int b mod int m" by (simp add: mod_eq_dvd_iff)
  with assms(3,4) show ?thesis by simp
qed

text \<open>
  On its range \<open>1 .. 2^31 - 2\<close> the generator is a permutation: it never leaves the range, in
  particular never falls into the fixed point 0, and no two seeds have the same successor.
\<close>

lemma fnet_rand_permutation:
  assumes "unat s \<in> {1..<2147483647}" "unat t \<in> {1..<2147483647}"
  shows "unat (fst (fnet_rand s)) \<in> {1..<2147483647}
         \<and> (fst (fnet_rand s) = fst (fnet_rand t) \<longrightarrow> s = t)"
proof
  have "\<not> 2147483647 dvd unat s * 16807"
    using assms(1) coprime_multiplier
    by (auto simp: coprime_dvd_mult_left_iff coprime_commute dest: dvd_imp_le)
  then have "unat s * 16807 mod 2147483647 \<noteq> 0" by (simp add: dvd_eq_mod_eq_0)
  then show "unat (fst (fnet_rand s)) \<in> {1..<2147483647}"
    unfolding unat_fnet_rand by (simp only: atLeastLessThan_iff) simp
  show "fst (fnet_rand s) = fst (fnet_rand t) \<longrightarrow> s = t"
  proof
    assume "fst (fnet_rand s) = fst (fnet_rand t)"
    then have "unat s * 16807 mod 2147483647 = unat t * 16807 mod 2147483647"
      using unat_fnet_rand [of s] unat_fnet_rand [of t] by metis
    then have "unat s = unat t"
      by (rule mult_mod_inj [OF coprime_multiplier]) (use assms in simp_all)
    then show "s = t" by (rule unsigned_word_eqI)
  qed
qed

lemma fnet_rand_permutation_sample:
  "unat (fst (fnet_rand 1)) \<in> {1..<2147483647} \<and>
   fst (fnet_rand 1) \<noteq> fst (fnet_rand 2)"
  using fnet_rand_permutation [of 1 2] by simp

end
