(* ===== verification/Fnet_Checksum.thy ===== *)
theory Fnet_Checksum
  imports Prelude
begin

text \<open>
  The Internet checksum of \<^verbatim>\<open>FNET/src/stack/fnet_checksum.c\<close>: the unrolled summing
  loop, the walk over a chain of net buffers with odd fragments, the carry fold, and the
  checksums with and without the pseudo header.

  A chain is the list of the data of its net buffers. The code loads 16 bits at a time and may
  load one byte behind the data; \<open>pad\<close> is whatever lies there, and no result depends on it.
\<close>

unbundle bit_operations_syntax

section \<open>The code\<close>

definition rd :: "u8 \<Rightarrow> u8 list \<Rightarrow> nat \<Rightarrow> u8" where
  "rd pad d i = (if i < length d then d ! i else pad)"

definition load_at :: "u8 \<Rightarrow> u8 list \<Rightarrow> u16" where
  "load_at pad d = load16 (rd pad d 0) (rd pad d 1)"

text \<open>\<^verbatim>\<open>sum += *d_ptr++\<close>, \<open>w\<close> times.\<close>

fun sum_words :: "u8 \<Rightarrow> nat \<Rightarrow> u32 \<times> u8 list \<Rightarrow> u32 \<times> u8 list" where
  "sum_words pad 0 st = st"
| "sum_words pad (Suc w) (acc, d) = sum_words pad w (acc + ucast (load_at pad d), drop 2 d)"

text \<open>
  \<^verbatim>\<open>while((current_length -= 2w) >= 0) {...} current_length += 2w\<close>, the body summing \<open>w\<close>
  words.
\<close>

function low_loop :: "u8 \<Rightarrow> nat \<Rightarrow> int \<times> u32 \<times> u8 list \<Rightarrow> int \<times> u32 \<times> u8 list" where
  "low_loop pad w (cl, acc, d) =
     (if w > 0 \<and> cl - 2 * int w \<ge> 0
      then let (acc, d) = sum_words pad w (acc, d) in low_loop pad w (cl - 2 * int w, acc, d)
      else (cl, acc, d))"
  by pat_completeness auto
termination
  by (relation "measure (\<lambda>(pad, w, cl, acc, d). nat cl)") auto

declare low_loop.simps [simp del]

definition checksum32_low :: "u8 \<Rightarrow> u32 \<Rightarrow> int \<Rightarrow> u8 list \<Rightarrow> u32" where
  "checksum32_low pad acc len d =
     (let (cl, acc, d) = low_loop pad 1 (low_loop pad 4 (low_loop pad 16 (len, acc, d)))
      in if cl \<noteq> 0 then acc + ucast (load_at pad d AND fnet_htons 0xFF00) else acc)"

text \<open>
  The walk over the chain: \<open>rest\<close> are the net buffers after the current one, \<open>d\<close> is
  \<^verbatim>\<open>d_ptr\<close>. \<open>None\<close> is the read through a NULL \<^verbatim>\<open>next\<close> of a chain that is too short.
\<close>

fun nb_loop :: "u8 \<Rightarrow> u8 list list \<Rightarrow> u8 list \<Rightarrow> int \<Rightarrow> int \<Rightarrow> u32 \<Rightarrow> u32 option" where
  "nb_loop pad [] d len cl acc =
     (if len = 0 then Some acc
      else if len - cl \<noteq> 0 then None
      else Some (checksum32_low pad acc cl d))"
| "nb_loop pad (s # rest) d len cl acc =
     (if len = 0 then Some acc
      else
        let len = len - cl; acc = checksum32_low pad acc cl d
        in if len \<noteq> 0 then
             let (d, acc, len, cl) =
               (if odd cl
                then (drop 1 s, acc + ucast (fnet_htons (ucast (rd pad s 0) AND 0x00FF)), len - 1, - 1)
                else (s, acc, len, 0));
               cl = (if int (length s) > len then len else cl + int (length s))
             in nb_loop pad rest d len cl acc
           else Some acc)"

definition checksum32_nb :: "u8 \<Rightarrow> u8 list list \<Rightarrow> nat \<Rightarrow> u32 option" where
  "checksum32_nb pad nb len =
     (case nb of
        [] \<Rightarrow> None
      | d # rest \<Rightarrow>
          let cl = (if length d > len then len else length d)
          in nb_loop pad rest d (int len) (int cl) 0)"

function fold_carries :: "u32 \<Rightarrow> u32" where
  "fold_carries acc =
     (if drop_bit 16 acc \<noteq> 0 then fold_carries ((acc AND 0xffff) + drop_bit 16 acc) else acc)"
  by pat_completeness auto

lemma unat_fold_step:
  "unat ((s AND 0xffff) + drop_bit 16 s :: u32) = unat s mod 65536 + unat s div 65536"
proof -
  have m: "unat (s AND 0xffff) = unat s mod 65536"
    by (rule unat_and_low16)
  have d: "unat (drop_bit 16 s) = unat s div 65536"
    by (simp add: unat_drop_bit_div)
  have "unat s div 65536 < 65536" using word32_lt [of s] by linarith
  then have "unat s mod 65536 + unat s div 65536 < 4294967296"
    using mod_less_divisor [of 65536 "unat s"] by linarith
  then show ?thesis by (simp add: unat_word_ariths m d)
qed

lemma drop_bit_16_zero: "drop_bit 16 s = (0 :: u32) \<longleftrightarrow> unat s < 65536"
proof -
  have "unat (drop_bit 16 s) = unat s div 65536"
    by (simp add: unat_drop_bit_div)
  then show ?thesis by (metis div_eq_0_iff unat_eq_zero zero_neq_numeral)
qed

termination fold_carries
proof (relation "measure unat")
  fix s :: u32
  assume "drop_bit 16 s \<noteq> 0"
  then have "65536 \<le> unat s" by (simp add: drop_bit_16_zero)
  then have "0 < unat s div 65536" by (simp add: div_greater_zero_iff)
  moreover have "unat s = unat s div 65536 * 65536 + unat s mod 65536" by simp
  ultimately have "unat s mod 65536 + unat s div 65536 < unat s" by linarith
  then show "((s AND 0xffff) + drop_bit 16 s, s) \<in> measure unat"
    by (simp only: in_measure unat_fold_step)
qed simp

declare fold_carries.simps [simp del]

definition complement16 :: "u32 \<Rightarrow> u16" where
  "complement16 acc = ucast (0xffff AND NOT acc)"

definition fnet_checksum :: "u8 \<Rightarrow> u8 list \<Rightarrow> u16" where
  "fnet_checksum pad buf =
     complement16 (fold_carries (checksum32_low pad 0 (int (length buf)) buf + 0xffff))"

definition fnet_checksum_netbuf :: "u8 \<Rightarrow> u8 list list \<Rightarrow> nat \<Rightarrow> u16 option" where
  "fnet_checksum_netbuf pad nb len =
     map_option (\<lambda>acc. complement16 (fold_carries (acc + 0xffff))) (checksum32_nb pad nb len)"

definition fnet_checksum_pseudo :: "u8 \<Rightarrow> u8 list \<Rightarrow> u16 \<Rightarrow> u8 list \<Rightarrow> u8 list \<Rightarrow> nat \<Rightarrow> u16" where
  "fnet_checksum_pseudo pad buf protocol ip_src ip_dest addr_size =
     (let acc = checksum32_low pad 0 (int (length buf)) buf;
          acc = acc + (ucast protocol + ucast (fnet_htons (of_nat (length buf))));
          acc = checksum32_low pad acc (int addr_size) ip_src;
          acc = checksum32_low pad acc (int addr_size) ip_dest
      in complement16 (fold_carries acc))"

definition fnet_checksum_pseudo_netbuf_start :: "u8 \<Rightarrow> u8 list list \<Rightarrow> u16 \<Rightarrow> u16 \<Rightarrow> u16 option" where
  "fnet_checksum_pseudo_netbuf_start pad nb protocol protocol_len =
     map_option
       (\<lambda>acc. ucast (fold_carries (acc + (ucast protocol + ucast (fnet_htons protocol_len)) + 0xffff)))
       (checksum32_nb pad nb (unat protocol_len))"

definition fnet_checksum_pseudo_netbuf_end :: "u8 \<Rightarrow> u16 \<Rightarrow> u8 list \<Rightarrow> u8 list \<Rightarrow> nat \<Rightarrow> u16" where
  "fnet_checksum_pseudo_netbuf_end pad sum_s ip_src ip_dest addr_size =
     (let acc = checksum32_low pad (ucast sum_s) (int addr_size) ip_src;
          acc = checksum32_low pad acc (int addr_size) ip_dest
      in complement16 (fold_carries (acc + 0xffff)))"

section \<open>What the sum is\<close>

text \<open>The 16-bit words of a byte sequence in memory order, an odd last byte padded with zero.\<close>

fun word_sum :: "u8 list \<Rightarrow> nat" where
  "word_sum [] = 0"
| "word_sum [a] = unat a"
| "word_sum (a # b # r) = unat a + 256 * unat b + word_sum r"

lemma word_sum_append: "even (length xs) \<Longrightarrow> word_sum (xs @ ys) = word_sum xs + word_sum ys"
  by (induction xs rule: word_sum.induct) auto

lemma word_sum_append_odd:
  "odd (length xs) \<Longrightarrow> word_sum (xs @ c # ys) = word_sum xs + 256 * unat c + word_sum ys"
  by (induction xs rule: word_sum.induct) auto

lemma word_sum_bound: "word_sum xs \<le> 65535 * ((length xs + 1) div 2)"
proof (induction xs rule: word_sum.induct)
  case (2 a)
  have "unat a \<le> 65535" using word8_le_255 [of a] by linarith
  then show ?case by simp
next
  case (3 a b r)
  have "(length (a # b # r) + 1) div 2 = (length r + 1) div 2 + 1" by simp
  moreover define m where "m = (length r + 1) div 2"
  ultimately show ?case
    using 3 word8_le_255 [of a] word8_le_255 [of b] by simp
qed simp

lemma sum_words_eq:
  "2 * w \<le> length d \<Longrightarrow>
   sum_words pad w (acc, d) = (acc + of_nat (word_sum (take (2 * w) d)), drop (2 * w) d)"
proof (induction w arbitrary: acc d)
  case 0
  then show ?case by simp
next
  case (Suc w)
  then obtain a b r where d: "d = a # b # r" by (cases d; cases "tl d") auto
  have "unat (load_at pad d) = unat a + 256 * unat b"
    by (simp add: d load_at_def rd_def unat_load16)
  then have l: "(ucast (load_at pad d) :: u32) = of_nat (unat a + 256 * unat b)"
    by (metis of_nat_unat)
  show ?case
    using Suc.IH [of r] Suc.prems unfolding d by (simp add: l [unfolded d] add.assoc)
qed

text \<open>One of the three loops: it sums a whole number of words and leaves less than its stride.\<close>

lemma low_loop_eq:
  assumes "w > 0" "len \<le> length d"
  shows "\<exists>k. even k \<and> k \<le> len \<and> len - k < 2 * w \<and>
    low_loop pad w (int len, acc, d)
      = (int (len - k), acc + of_nat (word_sum (take k d)), drop k d)"
  using assms(2)
proof (induction len arbitrary: acc d rule: less_induct)
  case (less len)
  show ?case
  proof (cases "2 * w \<le> len")
    case False
    then have "\<not> (w > 0 \<and> int len - 2 * int w \<ge> 0)" by linarith
    then have "low_loop pad w (int len, acc, d) = (int len, acc, d)"
      by (subst low_loop.simps) (simp only: if_False)
    with False show ?thesis by (intro exI [of _ 0]) simp
  next
    case True
    let ?acc = "acc + of_nat (word_sum (take (2 * w) d))" and ?d = "drop (2 * w) d"
    have eq: "int len - 2 * int w = int (len - 2 * w)" using True by linarith
    have step: "low_loop pad w (int len, acc, d) = low_loop pad w (int (len - 2 * w), ?acc, ?d)"
      using True assms(1) less.prems eq
      by (subst low_loop.simps) (simp add: sum_words_eq del: of_nat_diff)
    have "len - 2 * w < len" using True assms(1) by linarith
    moreover have "len - 2 * w \<le> length ?d" using less.prems by simp
    ultimately obtain k where k:
      "even k" "k \<le> len - 2 * w" "len - 2 * w - k < 2 * w"
      "low_loop pad w (int (len - 2 * w), ?acc, ?d)
       = (int (len - 2 * w - k), ?acc + of_nat (word_sum (take k ?d)), drop k ?d)"
      using less.IH [of "len - 2 * w" ?d ?acc] by blast
    have "word_sum (take (2 * w + k) d) = word_sum (take (2 * w) d) + word_sum (take k ?d)"
      using True less.prems by (simp add: take_add word_sum_append min_absorb2)
    then show ?thesis
      using k True by (intro exI [of _ "2 * w + k"]) (simp add: step add.commute)
  qed
qed

lemma load_masked: "load16 lo hi AND fnet_htons 0xFF00 = ucast lo"
proof -
  have "fnet_htons 0xFF00 = 0x00FF" by (simp add: fnet_htons_def)
  moreover have "load16 lo hi AND 0x00FF = ucast lo"
  proof -
    have "load16 lo hi AND mask 8 = ucast lo"
      unfolding load16_def
      by (rule bit_word_eqI) (auto simp: bit_simps dest: bit_imp_le_length)
    then show ?thesis by (simp add: mask_numeral)
  qed
  ultimately show ?thesis by simp
qed

lemma ucast_ucast_8: "(ucast (ucast (x :: u8) :: u16) :: u32) = of_nat (unat x)"
  by (metis of_nat_unat unat_ucast_16_32 unat_ucast_8_16)

text \<open>The unrolled loops compute the word sum; the byte behind an odd tail is masked away.\<close>

lemma checksum32_low_eq:
  assumes "len \<le> length d"
  shows "checksum32_low pad acc (int len) d = acc + of_nat (word_sum (take len d))"
proof -
  obtain k1 where k1: "even k1" "k1 \<le> len" "low_loop pad 16 (int len, acc, d)
      = (int (len - k1), acc + of_nat (word_sum (take k1 d)), drop k1 d)"
    using low_loop_eq [of 16 len d pad acc, OF zero_less_numeral assms] by (elim exE conjE) (rule that)
  let ?a1 = "acc + of_nat (word_sum (take k1 d))"
  have le1: "len - k1 \<le> length (drop k1 d)" using assms by simp
  obtain k2 where k2: "even k2" "k2 \<le> len - k1" "low_loop pad 4 (int (len - k1), ?a1, drop k1 d)
      = (int (len - k1 - k2), ?a1 + of_nat (word_sum (take k2 (drop k1 d))), drop k2 (drop k1 d))"
    using low_loop_eq [of 4 "len - k1" "drop k1 d" pad ?a1, OF zero_less_numeral le1]
    by (elim exE conjE) (rule that)
  let ?a2 = "?a1 + of_nat (word_sum (take k2 (drop k1 d)))"
  have le2: "len - k1 - k2 \<le> length (drop k2 (drop k1 d))" using assms by simp
  obtain k3 where k3: "even k3" "k3 \<le> len - k1 - k2" "len - k1 - k2 - k3 < 2 * 1"
      "low_loop pad 1 (int (len - k1 - k2), ?a2, drop k2 (drop k1 d))
      = (int (len - k1 - k2 - k3), ?a2 + of_nat (word_sum (take k3 (drop k2 (drop k1 d)))),
         drop k3 (drop k2 (drop k1 d)))"
    using low_loop_eq [of 1 "len - k1 - k2" "drop k2 (drop k1 d)" pad ?a2, OF zero_less_one le2]
    by (elim exE conjE) (rule that)
  define k where "k = k1 + k2 + k3"
  have k: "even k" "k \<le> len" "len - k < 2" using k1 k2 k3 by (auto simp: k_def)
  have ws: "word_sum (take k d)
      = word_sum (take k1 d) + word_sum (take k2 (drop k1 d)) + word_sum (take k3 (drop k2 (drop k1 d)))"
  proof -
    have "take k d = take k1 d @ take k2 (drop k1 d) @ take k3 (drop k2 (drop k1 d))"
      unfolding k_def by (simp only: take_add append_assoc drop_drop add.commute [of k2 k1])
    moreover have "even (length (take k1 d))" "even (length (take k2 (drop k1 d)))"
      using k1 k2 assms by (simp_all add: min_absorb2)
    ultimately show ?thesis by (simp only: word_sum_append add.assoc)
  qed
  have "low_loop pad 1 (low_loop pad 4 (low_loop pad 16 (int len, acc, d)))
      = (int (len - k), acc + of_nat (word_sum (take k d)), drop k d)"
  proof -
    have "len - k1 - k2 - k3 = len - k" by (simp add: k_def)
    moreover have "drop k3 (drop k2 (drop k1 d)) = drop k d"
      by (simp only: drop_drop k_def add.commute [of k3] add.commute [of k2 k1])
    ultimately show ?thesis unfolding k1(3) k2(3) k3(4) ws by (simp only: of_nat_add add.assoc)
  qed
  then have l: "checksum32_low pad acc (int len) d =
      (if len - k \<noteq> 0 then acc + of_nat (word_sum (take k d))
          + ucast (load_at pad (drop k d) AND fnet_htons 0xFF00)
       else acc + of_nat (word_sum (take k d)))"
    by (simp add: checksum32_low_def del: of_nat_diff)
  show ?thesis
  proof (cases "len - k = 0")
    case True
    with l k show ?thesis by simp
  next
    case False
    with k have len: "len = Suc k" by linarith
    have "take len d = take k d @ [d ! k]" using len assms by (simp add: take_Suc_conv_app_nth)
    moreover have "load_at pad (drop k d) AND fnet_htons 0xFF00 = ucast (d ! k)"
      using len assms by (simp add: load_at_def load_masked rd_def)
    ultimately show ?thesis
      using l False k len assms by (simp add: word_sum_append ucast_ucast_8)
  qed
qed

section \<open>Chains\<close>

lemma htons_byte: "fnet_htons (ucast (c :: u8) AND 0x00FF) = push_bit 8 (ucast c)"
proof -
  have "(ucast c :: u16) AND mask 8 = ucast c"
    by (rule bit_word_eqI) (auto simp: bit_simps dest: bit_imp_le_length)
  then have lo: "(ucast c :: u16) AND 0x00FF = ucast c" by (simp add: mask_numeral)
  have "(ucast c :: u16) AND push_bit 8 (mask 8) = 0"
    by (rule bit_word_eqI) (auto simp: bit_simps dest: bit_imp_le_length)
  then have hi: "(ucast c :: u16) AND 0xFF00 = 0" by (simp add: mask_numeral)
  show ?thesis unfolding fnet_htons_def lo hi by simp
qed

lemma unat_htons_byte: "(ucast (fnet_htons (ucast (c :: u8) AND 0x00FF)) :: u32) = of_nat (256 * unat c)"
proof -
  have "256 * unat c < 65536" using word8_lt_256 [of c] by linarith
  then have "unat (push_bit 8 (ucast c :: u16)) = 256 * unat c"
    by (simp add: push_bit_eq_mult unat_word_ariths mult.commute)
  then have "unat (fnet_htons (ucast c AND 0x00FF)) = 256 * unat c" by (simp add: htons_byte)
  then show ?thesis by (metis of_nat_unat)
qed

text \<open>One step of the walk, on natural numbers.\<close>

lemma nb_loop_odd:
  assumes "odd k" "k < len" "checksum32_low pad acc (int k) d = a"
  shows "nb_loop pad ((c # s) # rest) d (int len) (int k) acc =
    nb_loop pad rest s (int (len - k - 1)) (int (min (len - k - 1) (length s)))
      (a + of_nat (256 * unat c))"
proof -
  have n: "int len - int k = int (len - k)" "int (len - k) - 1 = int (len - k - 1)"
    using assms(2) by linarith+
  have "len \<noteq> 0" "len - k \<noteq> 0" using assms(2) by linarith+
  then show ?thesis
    using assms(1,3)
    by (simp add: n rd_def unat_htons_byte Let_def min_def del: of_nat_diff of_nat_mult)
qed

lemma nb_loop_even:
  assumes "even k" "k < len" "checksum32_low pad acc (int k) d = a"
  shows "nb_loop pad (s # rest) d (int len) (int k) acc =
    nb_loop pad rest s (int (len - k)) (int (min (len - k) (length s))) a"
proof -
  have n: "int len - int k = int (len - k)" using assms(2) by linarith
  have "len \<noteq> 0" "len - k \<noteq> 0" using assms(2) by linarith+
  then show ?thesis
    using assms(1,3) by (simp add: n Let_def min_def del: of_nat_diff)
qed

text \<open>
  The walk, from any even position: \<open>d\<close> is what is left of the current buffer. An odd buffer
  takes the first byte of the next one as the high half of its last word, so no buffer after the
  first may be empty.
\<close>

lemma nb_loop_eq:
  assumes "[] \<notin> set rest" "len \<le> length d + length (concat rest)"
  shows "nb_loop pad rest d (int len) (int (min len (length d))) acc
         = Some (acc + of_nat (word_sum (take len (d @ concat rest))))"
  using assms
proof (induction rest arbitrary: d len acc)
  case Nil
  then have m: "min len (length d) = len" by simp
  show ?case
    using Nil.prems checksum32_low_eq [of len d pad acc] unfolding m by simp
next
  case (Cons s rest)
  show ?case
  proof (cases "len \<le> length d")
    case True
    then have "min len (length d) = len" by simp
    with True checksum32_low_eq [OF True, of pad acc] show ?thesis by simp
  next
    case False
    define k where "k = length d"
    have m: "min len (length d) = k" "k < len" using False by (auto simp: k_def)
    have low: "checksum32_low pad acc (int k) d = acc + of_nat (word_sum d)"
      using checksum32_low_eq [of k d pad acc] by (simp add: k_def)
    from Cons.prems obtain c s' where s: "s = c # s'" by (cases s) auto
    have ne: "[] \<notin> set rest" using Cons.prems by simp
    show ?thesis
    proof (cases "odd k")
      case True
      let ?n = "len - k - 1"
      let ?a = "acc + of_nat (word_sum d) + of_nat (256 * unat c)"
      have "nb_loop pad (s # rest) d (int len) (int k) acc
          = nb_loop pad rest s' (int ?n) (int (min ?n (length s'))) ?a"
        unfolding s by (rule nb_loop_odd [OF True m(2) low])
      also have "\<dots> = Some (?a + of_nat (word_sum (take ?n (s' @ concat rest))))"
        using Cons.IH [OF ne, of ?n s' ?a] Cons.prems s m by (simp add: k_def)
      also have "?a + of_nat (word_sum (take ?n (s' @ concat rest)))
          = acc + of_nat (word_sum (d @ c # take ?n (s' @ concat rest)))"
        using True by (simp add: word_sum_append_odd add.assoc k_def)
      also have "d @ c # take ?n (s' @ concat rest) = take len (d @ concat (s # rest))"
        using m s by (cases "len - k") (auto simp: k_def)
      finally show ?thesis unfolding m(1) .
    next
      case False
      let ?n = "len - k"
      let ?a = "acc + of_nat (word_sum d)"
      have "nb_loop pad (s # rest) d (int len) (int k) acc
          = nb_loop pad rest s (int ?n) (int (min ?n (length s))) ?a"
        by (rule nb_loop_even [OF _ m(2) low]) (use False in simp)
      also have "\<dots> = Some (?a + of_nat (word_sum (take ?n (s @ concat rest))))"
        using Cons.IH [OF ne, of ?n s ?a] Cons.prems m by (simp add: k_def)
      also have "?a + of_nat (word_sum (take ?n (s @ concat rest)))
          = acc + of_nat (word_sum (take len (d @ concat (s # rest))))"
        using False m by (simp add: word_sum_append add.assoc k_def)
      finally show ?thesis unfolding m(1) .
    qed
  qed
qed

lemma checksum32_nb_eq:
  assumes "[] \<notin> set rest" "len \<le> length (concat (d # rest))"
  shows "checksum32_nb pad (d # rest) len
         = Some (of_nat (word_sum (take len (concat (d # rest)))))"
proof -
  have "(if length d > len then len else length d) = min len (length d)" by auto
  then show ?thesis
    using nb_loop_eq [of rest len d pad 0] assms by (simp add: checksum32_nb_def)
qed

section \<open>Folding\<close>

text \<open>One's complement sums: residues modulo 65535, with zero represented by 65535.\<close>

definition ones_sum :: "nat \<Rightarrow> nat" where
  "ones_sum s = (if s mod 65535 = 0 then 65535 else s mod 65535)"

lemma ones_sum_cong: "s mod 65535 = t mod 65535 \<Longrightarrow> ones_sum s = ones_sum t"
  by (simp add: ones_sum_def)

lemma ones_sum_bound: "1 \<le> ones_sum s" "ones_sum s \<le> 65535"
  using mod_less_divisor [of 65535 s] by (auto simp: ones_sum_def less_imp_le)

lemma ones_sum_mod: "ones_sum s mod 65535 = s mod 65535"
  by (simp add: ones_sum_def)

lemma ones_sum_fixed: "0 < s \<Longrightarrow> s \<le> 65535 \<Longrightarrow> ones_sum s = s"
  by (cases "s = 65535") (simp_all add: ones_sum_def)

lemma unat_fold_carries: "s \<noteq> 0 \<Longrightarrow> unat (fold_carries s) = ones_sum (unat s)"
proof (induction s rule: fold_carries.induct)
  case (1 s)
  show ?case
  proof (cases "drop_bit 16 s = 0")
    case True
    then have "unat s \<le> 65535" by (simp add: drop_bit_16_zero)
    moreover have "0 < unat s" using 1(2) by (simp add: unat_gt_0)
    ultimately show ?thesis
      using True by (simp add: fold_carries.simps [of s] ones_sum_fixed)
  next
    case False
    let ?t = "(s AND 0xffff) + drop_bit 16 s"
    have t: "unat ?t = unat s mod 65536 + unat s div 65536" by (rule unat_fold_step)
    have ge: "65536 \<le> unat s" using False by (simp add: drop_bit_16_zero)
    then have "0 < unat s div 65536" by (simp add: div_greater_zero_iff)
    then have nz: "?t \<noteq> 0" using t by (metis add_is_0 less_numeral_extra(3) unat_eq_zero)
    have "unat ?t mod 65535 = unat s mod 65535"
    proof -
      have "unat s = unat ?t + 65535 * (unat s div 65536)" unfolding t by simp
      then show ?thesis by (metis mod_mult_self2)
    qed
    then have "ones_sum (unat ?t) = ones_sum (unat s)" by (rule ones_sum_cong)
    moreover have "fold_carries s = fold_carries ?t"
      by (subst fold_carries.simps) (simp only: False not_False_eq_True if_True)
    ultimately show ?thesis using 1(1) [OF False nz] by simp
  qed
qed

lemma unat_complement16:
  assumes "unat x \<le> 65535"
  shows "unat (complement16 x) = 65535 - unat x"
proof -
  have "complement16 x = NOT (ucast x)"
  proof (rule bit_word_eqI)
    fix n assume n: "n < LENGTH(16)"
    then have "bit (0xffff :: u32) n"
      using bit_mask_iff [where ?'a = u32, of 16 n] by (simp add: mask_numeral)
    with n show "bit (complement16 x) n = bit (NOT (ucast x) :: u16) n"
      by (simp add: complement16_def bit_simps)
  qed
  moreover have "unat (ucast x :: u16) = unat x"
    using assms by (simp add: unsigned_ucast_eq take_bit_nat_eq_self_iff)
  moreover have "unat (NOT w) = 65535 - unat w" for w :: u16
  proof -
    have "NOT w = 65535 - w" by (simp add: not_eq_complement)
    moreover have "w \<le> 65535"
    proof -
      have "unat w \<le> 65535" using word16_lt_65536 [of w] by linarith
      then show ?thesis by (simp add: word_le_nat_alt)
    qed
    ultimately show ?thesis by (simp add: unat_sub)
  qed
  ultimately show ?thesis by simp
qed

text \<open>What the tail of every checksum routine computes from a sum that did not overflow.\<close>

lemma unat_finish:
  assumes "s + 65535 < 4294967296"
  shows "unat (complement16 (fold_carries (of_nat s + 0xffff))) = 65535 - ones_sum s"
    "unat (fold_carries (of_nat s + 0xffff)) = ones_sum s"
proof -
  have u: "unat (of_nat s + 0xffff :: u32) = s + 65535"
    using assms by (simp add: unat_word_ariths unat_of_nat)
  then have "of_nat s + 0xffff \<noteq> (0 :: u32)"
    by (metis add_is_0 unat_0 zero_neq_numeral)
  from unat_fold_carries [OF this] u
  have f: "unat (fold_carries (of_nat s + 0xffff)) = ones_sum s"
    by (simp add: ones_sum_cong [of "s + 65535" s])
  then show "unat (fold_carries (of_nat s + 0xffff)) = ones_sum s" .
  show "unat (complement16 (fold_carries (of_nat s + 0xffff))) = 65535 - ones_sum s"
    using f ones_sum_bound(2) [of s] by (subst unat_complement16) simp_all
qed

lemma word_sum_u32:
  assumes "length xs \<le> 131072"
  shows "word_sum xs + 65535 < 4294967296"
proof -
  have "(length xs + 1) div 2 \<le> 65536" using assms by linarith
  then have "65535 * ((length xs + 1) div 2) \<le> 65535 * 65536" by (rule mult_le_mono2)
  then show ?thesis using word_sum_bound [of xs] by linarith
qed

lemma ones_sum_add: "ones_sum (ones_sum s + t) = ones_sum (s + t)"
  by (rule ones_sum_cong) (metis mod_add_left_eq ones_sum_mod)

lemma unat_byte_parts:
  "unat (ucast c :: u8) + 256 * unat (ucast (drop_bit 8 (c :: u16)) :: u8) = unat c"
proof -
  have "unat (ucast c :: u8) = unat c mod 256"
    by (simp add: unsigned_ucast_eq take_bit_eq_mod)
  moreover have "unat (ucast (drop_bit 8 c) :: u8) = unat c div 256 mod 256"
    by (simp add: unsigned_ucast_eq take_bit_eq_mod unat_drop_bit_div)
  moreover have "unat c div 256 < 256" using word16_lt_65536 [of c] by linarith
  ultimately show ?thesis by simp
qed

text \<open>The value of the chain checksum, in the form the properties use.\<close>

lemma checksum_netbuf_some:
  assumes "[] \<notin> set rest" "len \<le> length (concat (d # rest))" "len \<le> 131072"
  shows "\<exists>c. fnet_checksum_netbuf pad (d # rest) len = Some c
           \<and> unat c = 65535 - ones_sum (word_sum (take len (concat (d # rest))))"
proof -
  let ?s = "word_sum (take len (concat (d # rest)))"
  have "length (take len (concat (d # rest))) \<le> 131072" using assms(3) by simp
  then have "?s + 65535 < 4294967296" by (rule word_sum_u32)
  note fin = unat_finish(1) [OF this]
  have "fnet_checksum_netbuf pad (d # rest) len
        = Some (complement16 (fold_carries (of_nat ?s + 0xffff)))"
    by (simp only: fnet_checksum_netbuf_def checksum32_nb_eq [OF assms(1,2)] option.map)
  with fin show ?thesis by blast
qed

section \<open>Properties\<close>

text \<open>
  C8. The checksum of a chain of net buffers is the one's complement of the one's complement sum
  of the first \<open>len\<close> bytes of the flattened data, whatever the fragmentation (fragments of odd
  length included), for every length up to 131072 and whatever lies behind the buffers; only the
  buffers behind the first must not be empty.
\<close>

theorem checksum_netbuf_flat:
  assumes "[] \<notin> set rest" "len \<le> length (concat (d # rest))" "len \<le> 131072"
  shows "map_option unat (fnet_checksum_netbuf pad (d # rest) len)
         = Some (65535 - ones_sum (word_sum (take len (concat (d # rest)))))"
  using checksum_netbuf_some [OF assms, of pad] by (elim exE conjE) simp

lemma checksum_netbuf_flat_witness:
  "map_option unat (fnet_checksum_netbuf 0xEE ([0x45] # [[0x00, 0x01], [0x02, 0x03]]) 5)
   = Some (65535 - ones_sum (word_sum (take 5 (concat ([0x45] # [[0x00, 0x01], [0x02, 0x03]])))))"
  by (rule checksum_netbuf_flat) simp_all

text \<open>
  C9. What the sender computes with a zero checksum field and stores little endian in the field
  (at an even offset) makes the receiver's checksum of the packet zero, however sender and
  receiver have split the packet into net buffers.
\<close>

theorem checksum_netbuf_verifies:
  assumes "[] \<notin> set rest" "concat (d # rest) = xs @ [0, 0] @ ys" "even (length xs)"
    and "fnet_checksum_netbuf pad (d # rest) (length xs + 2 + length ys) = Some c"
    and "[] \<notin> set rest'"
    and "concat (d' # rest') = xs @ [ucast c, ucast (drop_bit 8 c)] @ ys"
    and "length xs + 2 + length ys \<le> 131072"
  shows "fnet_checksum_netbuf pad' (d' # rest') (length xs + 2 + length ys) = Some 0"
proof -
  let ?n = "length xs + 2 + length ys"
  let ?w = "word_sum (xs @ [0, 0] @ ys)"
  have c: "unat c = 65535 - ones_sum ?w"
    using checksum_netbuf_some [OF assms(1) _ assms(7), of d pad] unfolding assms(2,4) by simp
  have "word_sum (xs @ [ucast c, ucast (drop_bit 8 c)] @ ys) = ?w + unat c"
    using assms(3) unat_byte_parts [of c] by (simp add: word_sum_append)
  moreover have "(?w + unat c) mod 65535 = 0"
  proof -
    have "(?w + unat c) mod 65535 = (ones_sum ?w + unat c) mod 65535"
      by (metis mod_add_left_eq ones_sum_mod)
    then show ?thesis using c ones_sum_bound(2) [of ?w] by simp
  qed
  ultimately have z: "ones_sum (word_sum (xs @ [ucast c, ucast (drop_bit 8 c)] @ ys)) = 65535"
    by (simp add: ones_sum_def)
  obtain c' where c': "fnet_checksum_netbuf pad' (d' # rest') ?n = Some c'"
      "unat c' = 65535 - ones_sum (word_sum (take ?n (concat (d' # rest'))))"
    using checksum_netbuf_some [OF assms(5) _ assms(7), of d' pad'] unfolding assms(6) by auto
  have "unat c' = 0" using c'(2) unfolding assms(6) by (simp add: z [simplified])
  then have "c' = 0" by (simp add: unat_eq_zero)
  with c'(1) show ?thesis by simp
qed

lemma checksum_netbuf_verifies_witness:
  "fnet_checksum_netbuf 9 ([0xFE] # [[0xFD, 1, 2]]) (length ([] :: u8 list) + 2 + length [1, 2 :: u8]) = Some 0"
proof (rule checksum_netbuf_verifies [where d = "[0, 0, 1]" and rest = "[[2]]" and pad = 7 and c = "0xFDFE"])
  show "fnet_checksum_netbuf 7 ([0, 0, 1] # [[2]]) (length ([] :: u8 list) + 2 + length [1, 2 :: u8]) = Some 0xFDFE"
    by code_simp
qed simp_all

lemma word_sum_addr: "n \<le> 16 \<Longrightarrow> word_sum (take n vs) \<le> 524280"
proof -
  assume "n \<le> 16"
  then have "(length (take n vs) + 1) div 2 \<le> 8" by simp
  then have "65535 * ((length (take n vs) + 1) div 2) \<le> 65535 * 8" by (rule mult_le_mono2)
  then show ?thesis using word_sum_bound [of "take n vs"] by linarith
qed

lemma word_sum_datagram: "length xs \<le> 65535 \<Longrightarrow> word_sum xs \<le> 2147450880"
proof -
  assume "length xs \<le> 65535"
  then have "(length xs + 1) div 2 \<le> 32768" by linarith
  then have "65535 * ((length xs + 1) div 2) \<le> 65535 * 32768" by (rule mult_le_mono2)
  then show ?thesis using word_sum_bound [of xs] by linarith
qed

lemma ucast_pair_u32:
  "(ucast (p :: u16) + ucast (q :: u16) :: u32) = of_nat (unat p + unat q)"
  by (metis of_nat_add of_nat_unat unat_ucast_16_32)

lemma unat_pseudo_end:
  assumes "n \<le> 16" "n \<le> length src" "n \<le> length dst"
  shows "unat (fnet_checksum_pseudo_netbuf_end pad t src dst n)
         = 65535 - ones_sum (unat t + word_sum (take n src) + word_sum (take n dst))"
proof -
  have t: "(ucast t :: u32) = of_nat (unat t)" by (metis of_nat_unat unat_ucast_16_32)
  have "unat t + word_sum (take n src) + word_sum (take n dst) + 65535 < 4294967296"
    using word_sum_addr [OF assms(1), of src] word_sum_addr [OF assms(1), of dst]
      word16_lt_65536 [of t] by linarith
  note fin = unat_finish(1) [OF this]
  show ?thesis
    using fin assms(2,3)
    by (simp only: fnet_checksum_pseudo_netbuf_end_def Let_def t checksum32_low_eq of_nat_add)
qed

text \<open>
  C10. The pseudo header checksum computed in two halves, as \<^verbatim>\<open>fnet_tcp.c\<close> and
  \<^verbatim>\<open>fnet_udp.c\<close> do (data, protocol and length first, the addresses once the route is known),
  is the checksum \<^verbatim>\<open>fnet_checksum_pseudo\<close> computes in one pass over the contiguous datagram.
\<close>

theorem checksum_pseudo_split:
  assumes "[] \<notin> set rest" "concat (d # rest) = buf" "length buf \<le> 65535"
    and "n \<le> 16" "n \<le> length src" "n \<le> length dst" "protocol \<noteq> 0"
  shows "map_option (\<lambda>s. fnet_checksum_pseudo_netbuf_end pad s src dst n)
           (fnet_checksum_pseudo_netbuf_start pad (d # rest) protocol (of_nat (length buf)))
         = Some (fnet_checksum_pseudo pad' buf protocol src dst n)"
proof -
  let ?q = "fnet_htons (of_nat (length buf))"
  let ?w = "word_sum buf + (unat protocol + unat ?q)"
  let ?a = "word_sum (take n src)" and ?b = "word_sum (take n dst)"
  have bnd: "?w + ?a + ?b + 65535 < 4294967296"
    using word_sum_datagram [OF assms(3)] word_sum_addr [OF assms(4), of src]
      word_sum_addr [OF assms(4), of dst] word16_lt_65536 [of protocol] word16_lt_65536 [of ?q]
    by linarith
  have len: "unat (of_nat (length buf) :: u16) = length buf"
    using assms(3) by (simp add: unat_of_nat)
  have "checksum32_nb pad (d # rest) (length buf) = Some (of_nat (word_sum buf))"
    using checksum32_nb_eq [OF assms(1), of "length buf" d pad] unfolding assms(2) by simp
  then have start: "fnet_checksum_pseudo_netbuf_start pad (d # rest) protocol (of_nat (length buf))
      = Some (ucast (fold_carries (of_nat ?w + 0xffff)))"
    by (simp only: fnet_checksum_pseudo_netbuf_start_def len option.map ucast_pair_u32 of_nat_add)
  let ?s = "ucast (fold_carries (of_nat ?w + 0xffff)) :: u16"
  have f: "unat (fold_carries (of_nat ?w + 0xffff)) = ones_sum ?w"
    by (rule unat_finish(2)) (use bnd in linarith)
  have "unat ?s = ones_sum ?w"
    using f ones_sum_bound(2) [of ?w] by (simp add: unsigned_ucast_eq take_bit_nat_eq_self_iff)
  then have "unat (fnet_checksum_pseudo_netbuf_end pad ?s src dst n)
      = 65535 - ones_sum (ones_sum ?w + ?a + ?b)"
    by (simp only: unat_pseudo_end [OF assms(4-6)])
  also have "ones_sum (ones_sum ?w + ?a + ?b) = ones_sum (?w + ?a + ?b)"
    by (simp only: ones_sum_add add.assoc)
  finally have e: "unat (fnet_checksum_pseudo_netbuf_end pad ?s src dst n)
      = 65535 - ones_sum (?w + ?a + ?b)" .
  have "unat protocol \<noteq> 0" using assms(7) by (simp add: unat_eq_zero)
  then have "0 < ?w + ?a + ?b" by simp
  moreover have u: "unat (of_nat (?w + ?a + ?b) :: u32) = ?w + ?a + ?b"
    using bnd by (simp add: unat_of_nat del: of_nat_add)
  ultimately have nz: "(of_nat (?w + ?a + ?b) :: u32) \<noteq> 0"
    by (metis less_irrefl unat_0)
  have "unat (fold_carries (of_nat (?w + ?a + ?b))) = ones_sum (?w + ?a + ?b)"
    using unat_fold_carries [OF nz] unfolding u .
  then have "unat (complement16 (fold_carries (of_nat (?w + ?a + ?b)))) = 65535 - ones_sum (?w + ?a + ?b)"
    using ones_sum_bound(2) [of "?w + ?a + ?b"] by (subst unat_complement16) simp_all
  moreover have "fnet_checksum_pseudo pad' buf protocol src dst n
      = complement16 (fold_carries (of_nat (?w + ?a + ?b)))"
    using assms(5,6) checksum32_low_eq [of "length buf" buf pad' 0]
    by (simp only: fnet_checksum_pseudo_def Let_def checksum32_low_eq ucast_pair_u32 of_nat_add
        order_refl take_all add_0)
  ultimately have "unat (fnet_checksum_pseudo pad' buf protocol src dst n)
      = unat (fnet_checksum_pseudo_netbuf_end pad ?s src dst n)" using e by simp
  then have "fnet_checksum_pseudo pad' buf protocol src dst n
      = fnet_checksum_pseudo_netbuf_end pad ?s src dst n" by (rule unsigned_word_eqI)
  then show ?thesis unfolding start by simp
qed

lemma checksum_pseudo_split_witness:
  "map_option (\<lambda>s. fnet_checksum_pseudo_netbuf_end 3 s [192, 168, 0, 1] [192, 168, 0, 2] 4)
     (fnet_checksum_pseudo_netbuf_start 3 ([1] # [[2, 3]]) 0x1100 (of_nat (length [1, 2, 3 :: u8])))
   = Some (fnet_checksum_pseudo 4 [1, 2, 3] 0x1100 [192, 168, 0, 1] [192, 168, 0, 2] 4)"
  by (rule checksum_pseudo_split) simp_all

end
