(* ===== verification/Fnet_Mempool.thy ===== *)
theory Fnet_Mempool
  imports Prelude "HOL-Library.Monad_Syntax"
begin

text \<open>
  The memory pool of \<^verbatim>\<open>FNET/src/stack/fnet_mempool.c\<close>: a best-fit allocator over a
  circular list of free blocks that is kept in the memory it hands out. The model keeps the block
  headers in a memory indexed by address, follows the pointers as the code does, and is shown to
  refine an allocator on the list of the tiles of the heap.
\<close>

section \<open>The code\<close>

text \<open>
  Addresses and sizes are naturals below 2^32; \<open>w32\<close> is the wrap-around of the 32-bit
  arithmetic. \<open>heap\<close> holds the header at an address; headers are 8 bytes, the alignment of
  the pool is at least 8, so two headers never overlap. The null pointer is 0.
\<close>

record unit_header =
  u_size :: nat
  u_ptr :: nat

record mempool =
  free_ptr :: nat
  unit_size :: nat
  heap :: "nat \<Rightarrow> unit_header"

text \<open>\<^verbatim>\<open>FNET_ALIGN_DIV(x, div)\<close> of \<^verbatim>\<open>fnet_stdlib.h\<close>.\<close>

unbundle bit_operations_syntax

definition FNET_ALIGN_DIV :: "nat \<Rightarrow> nat \<Rightarrow> nat" where
  "FNET_ALIGN_DIV x d = unat ((of_nat x + (of_nat d - 1)) AND NOT (of_nat d - 1) :: u32)"

definition fnet_mempool_init :: "(nat \<Rightarrow> unit_header) \<Rightarrow> nat \<Rightarrow> nat \<Rightarrow> nat \<Rightarrow> mempool option" where
  "fnet_mempool_init mem pool_ptr pool_size alignment =
     (let alignment = (if alignment < 8 then 8 else alignment)
      in if pool_ptr \<noteq> 0 \<and> pool_size > (alignment - 1) + (8 + 4)
         then
           let mempool = FNET_ALIGN_DIV pool_ptr 4;
               heap_ptr = FNET_ALIGN_DIV (w32 (mempool + 8)) alignment;
               heap_size = w32 (pool_size + 4294967296 - w32 (heap_ptr + 4294967296 - pool_ptr))
           in Some \<lparr>free_ptr = heap_ptr, unit_size = alignment,
                    heap = mem(heap_ptr := \<lparr>u_size = heap_size div alignment, u_ptr = heap_ptr\<rparr>)\<rparr>
         else None)"

definition fnet_mempool_release :: "mempool \<Rightarrow> mempool" where
  "fnet_mempool_release mp = mp\<lparr>free_ptr := 0\<rparr>"

text \<open>The search of \<^verbatim>\<open>_fnet_mempool_free\<close>; it need not end on a damaged list.\<close>

partial_function (option) free_find :: "(nat \<Rightarrow> unit_header) \<Rightarrow> nat \<Rightarrow> nat \<Rightarrow> nat option" where
  "free_find h bp p =
     (if p < bp \<and> bp < u_ptr (h p) then Some p
      else if u_ptr (h p) \<le> p \<and> (p < bp \<or> bp < u_ptr (h p)) then Some p
      else free_find h bp (u_ptr (h p)))"

text \<open>The two halves of its body: towards the upper and towards the lower neighbour.\<close>

definition free_upper :: "nat \<Rightarrow> nat \<Rightarrow> (nat \<Rightarrow> unit_header) \<Rightarrow> nat \<Rightarrow> (nat \<Rightarrow> unit_header) \<times> nat" where
  "free_upper u bp h p =
     (if w32 (bp + u_size (h bp) * u) = u_ptr (h p)
      then
        let h = h(bp := (h bp)\<lparr>u_size := w32 (u_size (h bp) + u_size (h (u_ptr (h p))))\<rparr>);
            h = h(bp := (h bp)\<lparr>u_ptr := u_ptr (h (u_ptr (h p)))\<rparr>)
        in (h, if p = u_ptr (h p) then bp else p)
      else (h(bp := (h bp)\<lparr>u_ptr := u_ptr (h p)\<rparr>), p))"

definition free_lower :: "nat \<Rightarrow> nat \<Rightarrow> (nat \<Rightarrow> unit_header) \<Rightarrow> nat \<Rightarrow> (nat \<Rightarrow> unit_header)" where
  "free_lower u bp h p =
     (if w32 (p + u_size (h p) * u) = bp
      then
        let h = h(p := (h p)\<lparr>u_size := w32 (u_size (h p) + u_size (h bp))\<rparr>)
        in h(p := (h p)\<lparr>u_ptr := u_ptr (h bp)\<rparr>)
      else h(p := (h p)\<lparr>u_ptr := bp\<rparr>))"

definition fnet_mempool_free :: "mempool \<Rightarrow> nat \<Rightarrow> mempool option" where
  "fnet_mempool_free mp ap =
     (if ap = 0 then Some mp
      else
        let bp = w32 (ap + 4294967296 - unit_size mp)
        in do {
          p \<leftarrow> free_find (heap mp) bp (free_ptr mp);
          let (h, p) = free_upper (unit_size mp) bp (heap mp) p;
          Some (mp\<lparr>heap := free_lower (unit_size mp) bp h p, free_ptr := p\<rparr>)
        })"

text \<open>The search of \<^verbatim>\<open>_fnet_mempool_malloc\<close>, with \<open>best_p = 0\<close> for none yet.\<close>

partial_function (option) best_find ::
    "(nat \<Rightarrow> unit_header) \<Rightarrow> nat \<Rightarrow> nat \<Rightarrow> nat \<Rightarrow> nat \<Rightarrow> nat \<Rightarrow> nat \<Rightarrow> (nat \<times> nat) option" where
  "best_find h first nunits prevp p best_p_prev best_p =
     (let (best_p_prev, best_p) =
        (if nunits \<le> u_size (h p) \<and> (best_p = 0 \<or> u_size (h p) < u_size (h best_p))
         then (prevp, p) else (best_p_prev, best_p))
      in if p = first then Some (best_p_prev, best_p)
         else best_find h first nunits p (u_ptr (h p)) best_p_prev best_p)"

definition nunits_of :: "nat \<Rightarrow> nat \<Rightarrow> nat" where
  "nunits_of u nbytes = w32 (w32 (nbytes + u - 1) div u + 1)"

definition fnet_mempool_malloc :: "mempool \<Rightarrow> nat \<Rightarrow> (mempool \<times> nat) option" where
  "fnet_mempool_malloc mp nbytes =
     (let u = unit_size mp; h = heap mp; nunits = nunits_of u nbytes; prevp = free_ptr mp
      in do {
        (best_p_prev, best_p) \<leftarrow> best_find h (free_ptr mp) nunits prevp (u_ptr (h prevp)) prevp 0;
        Some
         (if best_p \<noteq> 0
             \<and> \<not> (u_ptr (h best_p_prev) = u_ptr (h best_p) \<and> u_size (h best_p) = nunits)
          then
            let (h, best_p) =
              (if u_size (h best_p) = nunits
               then (h(best_p_prev := (h best_p_prev)\<lparr>u_ptr := u_ptr (h best_p)\<rparr>), best_p)
               else
                 let h = h(best_p := (h best_p)\<lparr>u_size := u_size (h best_p) - nunits\<rparr>);
                     best_p = w32 (best_p + u_size (h best_p) * u)
                 in (h(best_p := (h best_p)\<lparr>u_size := nunits\<rparr>), best_p))
            in (mp\<lparr>heap := h, free_ptr := best_p_prev\<rparr>, w32 (best_p + u))
          else (mp, 0))
      })"

text \<open>The two statistics; the debug code says that they walk the list once around.\<close>

partial_function (option) status_loop :: "(nat \<Rightarrow> unit_header) \<Rightarrow> nat \<Rightarrow> nat \<Rightarrow> nat \<Rightarrow> nat option" where
  "status_loop h first t total_size =
     (if u_ptr (h t) \<noteq> first
      then
        let t = u_ptr (h t)
        in status_loop h first t (w32 (total_size + w32 (u_size (h t) + 4294967295)))
      else Some total_size)"

definition fnet_mempool_free_mem_status :: "mempool \<Rightarrow> nat option" where
  "fnet_mempool_free_mem_status mp =
     do {
       total_size \<leftarrow>
         (if free_ptr mp \<noteq> 0
          then status_loop (heap mp) (free_ptr mp) (free_ptr mp)
                 (w32 (u_size (heap mp (free_ptr mp)) + 4294967295))
          else Some 0);
       Some (w32 ((if total_size \<noteq> 0 then total_size - 1 else total_size) * unit_size mp))
     }"

partial_function (option) max_loop :: "(nat \<Rightarrow> unit_header) \<Rightarrow> nat \<Rightarrow> nat \<Rightarrow> nat \<Rightarrow> nat option" where
  "max_loop h first t mx =
     (if u_ptr (h t) \<noteq> 0 \<and> u_ptr (h t) \<noteq> first
      then
        let t = u_ptr (h t)
        in max_loop h first t
             (if mx < u_size (h t) then w32 (u_size (h t) + 4294967295) else mx)
      else Some mx)"

definition fnet_mempool_malloc_max :: "mempool \<Rightarrow> nat option" where
  "fnet_mempool_malloc_max mp =
     do {
       mx \<leftarrow>
         (if free_ptr mp \<noteq> 0
          then max_loop (heap mp) (free_ptr mp) (free_ptr mp)
                 (w32 (u_size (heap mp (free_ptr mp)) + 4294967295))
          else Some 0);
       let mx = (if free_ptr mp = u_ptr (heap mp (free_ptr mp))
                 then (if mx \<noteq> 0 then mx - 1 else mx) else mx);
       Some (w32 (mx * unit_size mp))
     }"

section \<open>Rings\<close>

text \<open>\<open>path h p xs\<close>: following the pointers from \<open>p\<close> visits \<open>xs\<close>.\<close>

fun path :: "(nat \<Rightarrow> unit_header) \<Rightarrow> nat \<Rightarrow> nat list \<Rightarrow> bool" where
  "path h p [] = True"
| "path h p (x # xs) = (u_ptr (h p) = x \<and> path h x xs)"

definition ring :: "(nat \<Rightarrow> unit_header) \<Rightarrow> nat list \<Rightarrow> bool" where
  "ring h xs = (xs \<noteq> [] \<and> path h (last xs) xs)"

lemma path_append: "path h p (xs @ ys) \<longleftrightarrow> path h p xs \<and> path h (last (p # xs)) ys"
  by (induction xs arbitrary: p) auto

lemma path_cong: "\<forall>x\<in>set (p # butlast xs). u_ptr (h' x) = u_ptr (h x) \<Longrightarrow> path h' p xs = path h p xs"
proof (induction xs arbitrary: p)
  case (Cons x xs)
  then show ?case by (cases xs) auto
qed simp

lemma ring_rotate: "ring h (xs @ ys) \<longleftrightarrow> ring h (ys @ xs)"
  by (cases xs; cases ys) (auto simp: ring_def path_append)

lemma ring_cong: "\<forall>x\<in>set xs. u_ptr (h' x) = u_ptr (h x) \<Longrightarrow> ring h' xs = ring h xs"
  unfolding ring_def
  by (intro conj_cong refl path_cong) (auto dest: in_set_butlastD)

lemma ring_Cons: "ring h (x # xs) \<longleftrightarrow> u_ptr (h (last (x # xs))) = x \<and> path h x xs"
  by (simp add: ring_def)

lemma ring_next_in: "ring h xs \<Longrightarrow> x \<in> set xs \<Longrightarrow> u_ptr (h x) \<in> set xs"
proof -
  assume r: "ring h xs" and "x \<in> set xs"
  then obtain as bs where "xs = as @ x # bs" by (meson split_list)
  with r have "ring h ((x # bs) @ as)" by (metis ring_rotate)
  then show ?thesis using \<open>xs = as @ x # bs\<close>
    by (cases bs; cases as) (auto simp: ring_def)
qed

lemma ring_prev:
  assumes "ring h (x # ys)" "distinct (x # ys)" "q \<in> set (x # ys)" "u_ptr (h q) = x"
  shows "q = last (x # ys)"
proof -
  from assms(3) obtain as bs where s: "x # ys = as @ q # bs" by (meson split_list)
  have "bs = []"
  proof (rule ccontr)
    assume "bs \<noteq> []"
    then obtain r bs' where bs: "bs = r # bs'" by (cases bs) auto
    from assms(1) have "path h (last (x # ys)) (as @ q # r # bs')" by (simp add: ring_def s bs)
    then have "u_ptr (h q) = r" by (simp add: path_append)
    with assms(4) have "r = x" by simp
    with assms(2) s bs show False by (cases as) auto
  qed
  with s show ?thesis by simp
qed

lemma path_except_last:
  assumes "distinct (y # zs)"
    and "\<And>x. x \<in> set (y # zs) \<Longrightarrow> x \<noteq> last (y # zs) \<Longrightarrow> u_ptr (h' x) = u_ptr (h x)"
  shows "path h' y zs = path h y zs"
  using assms
proof (induction zs arbitrary: y)
  case (Cons z zs)
  have "u_ptr (h' y) = u_ptr (h y)" using Cons.prems by (intro Cons.prems(2)) auto
  moreover have "path h' z zs = path h z zs"
    using Cons.prems(1) by (intro Cons.IH Cons.prems(2)) auto
  ultimately show ?case by simp
qed simp

text \<open>Taking a block out of the ring, and putting one in behind the last.\<close>

lemma ring_remove:
  assumes "ring h (b # ys)" "distinct (b # ys)" "ys \<noteq> []"
    and "\<And>x. x \<in> set ys \<Longrightarrow> u_ptr (h' x) = (if x = last ys then u_ptr (h b) else u_ptr (h x))"
  shows "ring h' ys"
proof -
  obtain y zs where ys: "ys = y # zs" using assms(3) by (cases ys) auto
  have "u_ptr (h b) = y" "path h y zs" using assms(1) by (auto simp: ring_def ys)
  moreover have "path h' y zs = path h y zs"
    using assms(2,4) by (intro path_except_last) (auto simp: ys)
  moreover have "u_ptr (h' (last ys)) = u_ptr (h b)" using assms(3,4) by simp
  ultimately show ?thesis by (simp add: ring_Cons ys)
qed

lemma ring_insert:
  assumes "ring h ys" "distinct (b # ys)"
    and "\<And>x. x \<in> set ys \<Longrightarrow> u_ptr (h' x) = (if x = last ys then b else u_ptr (h x))"
    and "u_ptr (h' b) = hd ys"
  shows "ring h' (b # ys)"
proof -
  obtain y zs where ys: "ys = y # zs" using assms(1) by (cases ys) (auto simp: ring_def)
  have "path h y zs" using assms(1) by (simp add: ring_Cons ys)
  moreover have "path h' y zs = path h y zs"
    using assms(2,3) by (intro path_except_last) (auto simp: ys)
  moreover have "u_ptr (h' (last ys)) = b" using assms(3) by (simp add: ys)
  ultimately show ?thesis using assms(4) by (simp add: ring_Cons ys)
qed

section \<open>The heap as a list of tiles\<close>

text \<open>
  The specification: the heap is a list of blocks in address order, their sizes in units (the
  header unit included). Allocation takes the upper end of a smallest free block that is big
  enough, but never the last free block whole; freeing joins a block with its free neighbours.
\<close>

datatype tile = Free nat | Used nat

fun tsize :: "tile \<Rightarrow> nat" where
  "tsize (Free n) = n"
| "tsize (Used n) = n"

fun is_free :: "tile \<Rightarrow> bool" where
  "is_free (Free n) = True"
| "is_free (Used n) = False"

fun units :: "tile list \<Rightarrow> nat" where
  "units [] = 0"
| "units (t # ts) = tsize t + units ts"

fun frees :: "nat \<Rightarrow> nat \<Rightarrow> tile list \<Rightarrow> nat list" where
  "frees u a [] = []"
| "frees u a (t # ts) = (if is_free t then [a] else []) @ frees u (a + tsize t * u) ts"

fun sized :: "(nat \<Rightarrow> unit_header) \<Rightarrow> nat \<Rightarrow> nat \<Rightarrow> tile list \<Rightarrow> bool" where
  "sized h u a [] = True"
| "sized h u a (t # ts) = (u_size (h a) = tsize t \<and> sized h u (a + tsize t * u) ts)"

fun coalesced :: "tile list \<Rightarrow> bool" where
  "coalesced (s # t # ts) = (\<not> (is_free s \<and> is_free t) \<and> coalesced (t # ts))"
| "coalesced ts = True"

text \<open>\<open>rep mp a ts\<close>: the pool represents the tiles \<open>ts\<close>, the first one at address \<open>a\<close>.\<close>

definition rep :: "mempool \<Rightarrow> nat \<Rightarrow> tile list \<Rightarrow> bool" where
  "rep mp a ts =
     (8 \<le> unit_size mp \<and> 0 < a \<and> a + units ts * unit_size mp < 4294967296
      \<and> (\<forall>t\<in>set ts. 0 < tsize t) \<and> coalesced ts
      \<and> sized (heap mp) (unit_size mp) a ts
      \<and> ring (heap mp) (frees (unit_size mp) a ts)
      \<and> free_ptr mp \<in> set (frees (unit_size mp) a ts))"

definition best_fit :: "nat \<Rightarrow> nat \<Rightarrow> tile list \<Rightarrow> bool" where
  "best_fit k n ts = (k \<le> n \<and> (\<forall>m. Free m \<in> set ts \<longrightarrow> k \<le> m \<longrightarrow> n \<le> m))"

inductive tiles_malloc :: "nat \<Rightarrow> tile list \<Rightarrow> tile list \<Rightarrow> nat \<Rightarrow> bool" where
  split_block: "\<lbrakk>best_fit k n (l @ Free n # r); k < n\<rbrakk>
    \<Longrightarrow> tiles_malloc k (l @ Free n # r) (l @ Free (n - k) # Used k # r) (units l + (n - k))"
| whole_block: "\<lbrakk>best_fit k k (l @ Free k # r); \<exists>t\<in>set (l @ r). is_free t\<rbrakk>
    \<Longrightarrow> tiles_malloc k (l @ Free k # r) (l @ Used k # r) (units l)"

inductive_cases tiles_mallocE: "tiles_malloc k ts ts' n"

text \<open>Freeing the block between \<open>l\<close> and \<open>r\<close>.\<close>

fun join_right :: "nat \<Rightarrow> tile list \<Rightarrow> tile list" where
  "join_right k (Free m # r) = Free (k + m) # r"
| "join_right k r = Free k # r"

definition tiles_free :: "tile list \<Rightarrow> nat \<Rightarrow> tile list \<Rightarrow> tile list" where
  "tiles_free l k r =
     (if l \<noteq> [] \<and> is_free (last l)
      then butlast l @ join_right (tsize (last l) + k) r
      else l @ join_right k r)"

definition can_alloc :: "nat \<Rightarrow> tile list \<Rightarrow> bool" where
  "can_alloc k ts =
     ((\<exists>m. Free m \<in> set ts \<and> k < m)
      \<or> Free k \<in> set ts \<and> 2 \<le> length (filter is_free ts))"

subsection \<open>Addresses of tiles\<close>

lemma units_append [simp]: "units (xs @ ys) = units xs + units ys"
  by (induction xs) auto

lemma frees_append: "frees u a (xs @ ys) = frees u a xs @ frees u (a + units xs * u) ys"
  by (induction xs arbitrary: a) (auto simp: algebra_simps)

lemma sized_append: "sized h u a (xs @ ys) \<longleftrightarrow> sized h u a xs \<and> sized h u (a + units xs * u) ys"
  by (induction xs arbitrary: a) (auto simp: algebra_simps)

lemma coalesced_append:
  "coalesced (xs @ ys) \<longleftrightarrow> coalesced xs \<and> coalesced ys
     \<and> \<not> (xs \<noteq> [] \<and> ys \<noteq> [] \<and> is_free (last xs) \<and> is_free (hd ys))"
proof (induction xs)
  case (Cons x xs)
  then show ?case by (cases xs; cases ys) auto
qed simp

lemma units_Cons_mult: "units (t # ts) * u = tsize t * u + units ts * u"
  by (simp add: algebra_simps)

lemma tsize_unit: "0 < tsize t \<Longrightarrow> u \<le> tsize t * u"
  by (cases "tsize t") auto

lemma frees_lower: "x \<in> set (frees u a ts) \<Longrightarrow> a \<le> x"
  by (induction ts arbitrary: a) (fastforce split: if_splits)+

lemma frees_upper:
  "\<lbrakk>x \<in> set (frees u a ts); \<forall>t\<in>set ts. 0 < tsize t; 0 < u\<rbrakk> \<Longrightarrow> x + u \<le> a + units ts * u"
proof (induction ts arbitrary: a)
  case (Cons t ts)
  have pos: "u \<le> tsize t * u" using Cons.prems by (simp add: tsize_unit)
  show ?case
  proof (cases "x \<in> set (frees u (a + tsize t * u) ts)")
    case True
    then show ?thesis
      using Cons.IH [of "a + tsize t * u"] Cons.prems unfolding units_Cons_mult by simp
  next
    case False
    with Cons.prems(1) have "x = a" by (auto split: if_splits)
    with pos show ?thesis unfolding units_Cons_mult by linarith
  qed
qed simp

lemma frees_sorted:
  "\<lbrakk>\<forall>t\<in>set ts. 0 < tsize t; 0 < u\<rbrakk> \<Longrightarrow> sorted_wrt (<) (frees u a ts)"
proof (induction ts arbitrary: a)
  case (Cons t ts)
  have "0 < tsize t * u" using Cons.prems by simp
  then have "a < x" if "x \<in> set (frees u (a + tsize t * u) ts)" for x
    using frees_lower [OF that] by linarith
  moreover have "sorted_wrt (<) (frees u (a + tsize t * u) ts)"
    using Cons.IH Cons.prems by simp
  ultimately show ?case by simp
qed simp

lemma frees_distinct:
  "\<lbrakk>\<forall>t\<in>set ts. 0 < tsize t; 0 < u\<rbrakk> \<Longrightarrow> distinct (frees u a ts)"
  using frees_sorted strict_sorted_iff by blast

text \<open>A free address belongs to a free tile.\<close>

lemma frees_split:
  assumes "b \<in> set (frees u a ts)"
  obtains l n r where "ts = l @ Free n # r" "b = a + units l * u"
  using assms
proof (induction ts arbitrary: a thesis)
  case (Cons t ts)
  show ?case
  proof (cases "is_free t \<and> b = a")
    case True
    then obtain n where "t = Free n" by (cases t) auto
    with True Cons.prems(1) [of "[]" n ts] show ?thesis by simp
  next
    case False
    with Cons.prems(2) have "b \<in> set (frees u (a + tsize t * u) ts)" by (auto split: if_splits)
    with Cons.IH obtain l n r where "ts = l @ Free n # r" "b = a + tsize t * u + units l * u"
      by blast
    then show ?thesis using Cons.prems(1) [of "t # l" n r] by (simp add: algebra_simps)
  qed
qed simp

lemma frees_at: "Free n \<in> set ts \<Longrightarrow> sized h u a ts \<Longrightarrow> \<exists>x\<in>set (frees u a ts). u_size (h x) = n"
  by (induction ts arbitrary: a) auto

lemma size_at_free:
  assumes "x \<in> set (frees u a ts)" "sized h u a ts"
  shows "Free (u_size (h x)) \<in> set ts"
proof -
  obtain l n r where "ts = l @ Free n # r" "x = a + units l * u" by (rule frees_split [OF assms(1)])
  with assms(2) show ?thesis by (auto simp: sized_append)
qed

lemma length_frees: "length (frees u a ts) = length (filter is_free ts)"
  by (induction ts arbitrary: a) auto

lemma sized_cong:
  assumes "\<And>x. a \<le> x \<Longrightarrow> x + u \<le> a + units ts * u \<Longrightarrow> u_size (h' x) = u_size (h x)"
    and "\<forall>t\<in>set ts. 0 < tsize t"
  shows "sized h' u a ts = sized h u a ts"
  using assms
proof (induction ts arbitrary: a)
  case (Cons t ts)
  have pos: "u \<le> tsize t * u" using Cons.prems(2) by (simp add: tsize_unit)
  have "u_size (h' a) = u_size (h a)"
    using pos by (intro Cons.prems(1)) (unfold units_Cons_mult, linarith+)
  moreover have "sized h' u (a + tsize t * u) ts = sized h u (a + tsize t * u) ts"
  proof (rule Cons.IH)
    fix x assume "a + tsize t * u \<le> x" "x + u \<le> a + tsize t * u + units ts * u"
    then show "u_size (h' x) = u_size (h x)"
      by (intro Cons.prems(1)) (unfold units_Cons_mult, linarith+)
  qed (use Cons.prems(2) in simp)
  ultimately show ?case by simp
qed simp

section \<open>The search for the best block\<close>

text \<open>What the search of \<^verbatim>\<open>_fnet_mempool_malloc\<close> finds on the blocks it visits.\<close>

fun best_of :: "(nat \<Rightarrow> unit_header) \<Rightarrow> nat \<Rightarrow> nat \<Rightarrow> nat list \<Rightarrow> nat \<Rightarrow> nat \<Rightarrow> nat \<times> nat" where
  "best_of h k prev [] bp b = (bp, b)"
| "best_of h k prev (x # xs) bp b =
     (if k \<le> u_size (h x) \<and> (b = 0 \<or> u_size (h x) < u_size (h b))
      then best_of h k x xs prev x else best_of h k x xs bp b)"

lemma best_find_walk:
  assumes "path h p xs" "last (p # xs) = first" "first \<notin> set (butlast (p # xs))"
  shows "best_find h first k prev p bp b = Some (best_of h k prev (p # xs) bp b)"
  using assms
proof (induction xs arbitrary: p prev bp b)
  case Nil
  then show ?case by (subst best_find.simps) (auto simp: Let_def)
next
  case (Cons x xs)
  then have "p \<noteq> first" by auto
  moreover have "u_ptr (h p) = x" using Cons.prems by simp
  moreover have "best_find h first k p x bp' b' = Some (best_of h k p (x # xs) bp' b')" for bp' b'
    using Cons.prems by (intro Cons.IH) auto
  ultimately show ?case by (subst best_find.simps) (auto simp: Let_def)
qed

lemma best_of_found:
  assumes "path h prev xs" "0 \<notin> set xs" "b \<noteq> 0" "k \<le> u_size (h b)" "u_ptr (h bp) = b"
  shows "case best_of h k prev xs bp b of (bp', b') \<Rightarrow>
           b' \<noteq> 0 \<and> b' \<in> insert b (set xs) \<and> bp' \<in> insert bp (insert prev (set xs))
           \<and> u_ptr (h bp') = b' \<and> k \<le> u_size (h b') \<and> u_size (h b') \<le> u_size (h b)
           \<and> (\<forall>x\<in>set xs. k \<le> u_size (h x) \<longrightarrow> u_size (h b') \<le> u_size (h x))"
  using assms
proof (induction xs arbitrary: prev bp b)
  case (Cons x xs)
  show ?case
  proof (cases "k \<le> u_size (h x) \<and> u_size (h x) < u_size (h b)")
    case True
    with Cons.prems Cons.IH [of x x prev] show ?thesis by (auto split: prod.splits)
  next
    case False
    with Cons.prems Cons.IH [of x b bp] show ?thesis by (force split: prod.splits)
  qed
qed simp

lemma best_of_spec:
  assumes "path h prev xs" "0 \<notin> set xs"
  shows "case best_of h k prev xs bp 0 of (bp', b') \<Rightarrow>
           if \<exists>x\<in>set xs. k \<le> u_size (h x)
           then b' \<in> set xs \<and> bp' \<in> insert prev (set xs) \<and> u_ptr (h bp') = b' \<and> k \<le> u_size (h b')
             \<and> (\<forall>x\<in>set xs. k \<le> u_size (h x) \<longrightarrow> u_size (h b') \<le> u_size (h x))
           else b' = 0"
  using assms
proof (induction xs arbitrary: prev)
  case (Cons x xs)
  show ?case
  proof (cases "k \<le> u_size (h x)")
    case True
    with Cons.prems best_of_found [of h x xs x k prev] show ?thesis by (auto split: prod.splits)
  next
    case False
    with Cons.prems Cons.IH [of x] show ?thesis by (auto split: prod.splits if_splits)
  qed
qed simp

text \<open>A ring seen from its current block.\<close>

lemma ring_from:
  assumes "ring h xs" "distinct xs" "p \<in> set xs"
  obtains zs where "path h p zs" "last zs = p" "zs \<noteq> []" "p \<notin> set (butlast zs)"
    "set zs = set xs" "distinct zs"
proof -
  from assms(3) obtain as bs where xs: "xs = as @ p # bs" by (meson split_list)
  have "ring h (bs @ (as @ [p]))"
    using assms(1) ring_rotate [of h "as @ [p]" bs] by (simp add: xs)
  then have "path h p (bs @ as @ [p])" by (simp add: ring_def)
  moreover have "p \<notin> set (butlast (bs @ as @ [p]))"
    using assms(2) by (simp add: xs butlast_append)
  ultimately show ?thesis using assms(2) by (intro that [of "bs @ as @ [p]"]) (auto simp: xs)
qed

lemma best_find_ring:
  assumes "ring h xs" "distinct xs" "p \<in> set xs" "0 \<notin> set xs"
  shows "\<exists>bp b. best_find h p k p (u_ptr (h p)) p 0 = Some (bp, b)
     \<and> (if \<exists>x\<in>set xs. k \<le> u_size (h x)
        then b \<in> set xs \<and> bp \<in> set xs \<and> u_ptr (h bp) = b \<and> k \<le> u_size (h b)
             \<and> (\<forall>x\<in>set xs. k \<le> u_size (h x) \<longrightarrow> u_size (h b) \<le> u_size (h x))
        else b = 0)"
proof -
  obtain zs where zs: "path h p zs" "last zs = p" "zs \<noteq> []" "p \<notin> set (butlast zs)"
    "set zs = set xs" by (rule ring_from [OF assms(1-3)])
  obtain z ws where z: "zs = z # ws" using zs(3) by (cases zs) auto
  have "best_find h p k p z p 0 = Some (best_of h k p zs p 0)"
    unfolding z using zs by (intro best_find_walk) (auto simp: z)
  moreover have "u_ptr (h p) = z" using zs(1) by (simp add: z)
  ultimately show ?thesis
    using best_of_spec [OF zs(1), of k p] zs(5) assms(3,4)
    by (auto split: prod.splits if_splits)
qed

section \<open>Allocation\<close>

lemma repD:
  assumes "rep mp a ts"
  shows "8 \<le> unit_size mp" "0 < unit_size mp" "0 < a"
    "a + units ts * unit_size mp < 4294967296" "\<forall>t\<in>set ts. 0 < tsize t" "coalesced ts"
    "sized (heap mp) (unit_size mp) a ts" "ring (heap mp) (frees (unit_size mp) a ts)"
    "free_ptr mp \<in> set (frees (unit_size mp) a ts)" "distinct (frees (unit_size mp) a ts)"
    "0 \<notin> set (frees (unit_size mp) a ts)"
proof -
  from assms show "8 \<le> unit_size mp" "0 < a" "a + units ts * unit_size mp < 4294967296"
    "\<forall>t\<in>set ts. 0 < tsize t" "coalesced ts" "sized (heap mp) (unit_size mp) a ts"
    "ring (heap mp) (frees (unit_size mp) a ts)" "free_ptr mp \<in> set (frees (unit_size mp) a ts)"
    by (auto simp: rep_def)
  then show "0 < unit_size mp" "distinct (frees (unit_size mp) a ts)"
    "0 \<notin> set (frees (unit_size mp) a ts)"
    by (auto intro: frees_distinct dest: frees_lower)
qed

text \<open>The headers on either side of a block are not touched by writes inside it.\<close>

lemma sized_around:
  assumes "sized h u a (l @ ss @ r)" "\<forall>t\<in>set (l @ ss @ r). 0 < tsize t"
    and "\<And>x. u_size (h' x) \<noteq> u_size (h x) \<Longrightarrow> a + units l * u \<le> x \<and> x < a + (units l + units ss) * u"
    and "sized h' u (a + units l * u) ts" "units ts = units ss" "0 < u"
  shows "sized h' u a (l @ ts @ r)"
proof -
  have "sized h' u a l = sized h u a l"
    using assms(2,3,6) by (intro sized_cong) (force, auto)
  moreover have "sized h' u (a + (units l + units ss) * u) r = sized h u (a + (units l + units ss) * u) r"
    using assms(2,3) by (intro sized_cong) (force, auto)
  ultimately show ?thesis using assms(1,4,5) by (auto simp: sized_append algebra_simps)
qed

lemma malloc_split_rep:
  assumes "rep mp a (l @ Free n # r)" "k < n" "0 < k"
    and b: "b = a + units l * unit_size mp"
    and bp: "bp \<in> set (frees (unit_size mp) a (l @ Free n # r))"
    and h': "h' = (heap mp)(b := (heap mp b)\<lparr>u_size := n - k\<rparr>)"
    and h'': "h'' = h'(b + (n - k) * unit_size mp := (h' (b + (n - k) * unit_size mp))\<lparr>u_size := k\<rparr>)"
  shows "rep (mp\<lparr>heap := h'', free_ptr := bp\<rparr>) a (l @ Free (n - k) # Used k # r)"
proof -
  let ?u = "unit_size mp" and ?ts = "l @ Free (n - k) # Used k # r"
  note R = repD [OF assms(1)]
  have n: "n * ?u = (n - k) * ?u + k * ?u" using assms(2) by (simp flip: add_mult_distrib)
  have pos: "0 < (n - k) * ?u" "0 < k * ?u" using assms(2,3) R(2) by auto
  have fr: "frees ?u a ?ts = frees ?u a (l @ Free n # r)"
  proof -
    have "a + units l * ?u + (n - k) * ?u + k * ?u = a + units l * ?u + n * ?u" using n by linarith
    then show ?thesis
      by (simp only: frees_append frees.simps is_free.simps tsize.simps if_True if_False append.simps)
  qed
  have ptr: "u_ptr (h'' x) = u_ptr (heap mp x)" for x by (simp add: h' h'')
  have "sized h'' ?u a (l @ [Free (n - k), Used k] @ r)"
  proof (rule sized_around [where ss = "[Free n]"])
    fix x assume "u_size (h'' x) \<noteq> u_size (heap mp x)"
    then have "x = b \<or> x = b + (n - k) * ?u" by (auto simp: h' h'' split: if_splits)
    then show "a + units l * ?u \<le> x \<and> x < a + (units l + units [Free n]) * ?u"
      using n pos b by (auto simp: add_mult_distrib)
  qed (use assms(2,3) R(2,5,7) b in \<open>auto simp: h' h''\<close>)
  moreover have "ring h'' (frees ?u a ?ts) = ring (heap mp) (frees ?u a (l @ Free n # r))"
    unfolding fr by (rule ring_cong) (simp add: ptr)
  moreover have "coalesced ?ts" using R(6) by (cases r) (auto simp: coalesced_append)
  ultimately show ?thesis
    using R bp fr assms(2,3) by (auto simp: rep_def)
qed

lemma malloc_whole_rep:
  assumes "rep mp a (l @ Free k # r)" "\<exists>t\<in>set (l @ r). is_free t"
    and b: "b = a + units l * unit_size mp"
    and bp: "bp \<in> set (frees (unit_size mp) a (l @ Free k # r))" "u_ptr (heap mp bp) = b"
    and h': "h' = (heap mp)(bp := (heap mp bp)\<lparr>u_ptr := u_ptr (heap mp b)\<rparr>)"
  shows "rep (mp\<lparr>heap := h', free_ptr := bp\<rparr>) a (l @ Used k # r)"
proof -
  let ?u = "unit_size mp"
  let ?L = "frees ?u a l" and ?R = "frees ?u (b + k * ?u) r"
  note R = repD [OF assms(1)]
  have fr: "frees ?u a (l @ Free k # r) = ?L @ b # ?R" by (simp add: frees_append b)
  have fr': "frees ?u a (l @ Used k # r) = ?L @ ?R" by (simp add: frees_append b)
  have dist: "distinct (b # ?R @ ?L)" using R(10) unfolding fr by auto
  have rng: "ring (heap mp) (b # ?R @ ?L)" using R(8) ring_rotate [of _ ?L] unfolding fr by simp
  have ne: "?R @ ?L \<noteq> []"
  proof -
    have "filter is_free (l @ r) \<noteq> []" using assms(2) by (simp add: filter_empty_conv) blast
    then have "length ?L + length ?R \<noteq> 0" by (simp add: length_frees)
    then show ?thesis by auto
  qed
  have "bp \<in> set (b # ?R @ ?L)" using bp(1) unfolding fr by auto
  then have last: "bp = last (b # ?R @ ?L)" using ring_prev rng dist bp(2) by blast
  also have "\<dots> = last (?R @ ?L)" by (simp only: last.simps(1) if_not_P [OF ne])
  finally have last': "bp = last (?R @ ?L)" .
  with ne have in': "bp \<in> set (?L @ ?R)" by (metis last_in_set set_append Un_commute)
  have "ring h' (?R @ ?L)"
    by (rule ring_remove [OF rng dist ne]) (simp add: h' last' [symmetric])
  then have "ring h' (frees ?u a (l @ Used k # r))" unfolding fr' by (simp only: ring_rotate)
  moreover have "sized h' ?u a (l @ [Used k] @ r)"
    by (rule sized_around [where ss = "[Free k]"]) (use R(2,5,7) b in \<open>auto simp: h' sized_append split: if_splits\<close>)
  moreover have "coalesced (l @ Used k # r)"
    using R(6) by (cases r) (auto simp: coalesced_append)
  ultimately show ?thesis
    using R in' fr' by (auto simp: rep_def)
qed

lemma rep_addr:
  assumes "rep mp a ts" "m \<le> units ts"
  shows "a + m * unit_size mp < 4294967296"
  using repD(4) [OF assms(1)] mult_le_mono1 [OF assms(2), of "unit_size mp"] by linarith

lemma single_free:
  assumes "rep mp a ts" "b \<in> set (frees (unit_size mp) a ts)" "bp \<in> set (frees (unit_size mp) a ts)"
    and "u_ptr (heap mp bp) = b"
  shows "u_ptr (heap mp b) = b \<longleftrightarrow> length (filter is_free ts) = 1"
proof -
  note R = repD [OF assms(1)]
  let ?F = "frees (unit_size mp) a ts"
  obtain zs where zs: "path (heap mp) b zs" "last zs = b" "zs \<noteq> []" "b \<notin> set (butlast zs)"
    "set zs = set ?F" "distinct zs" by (rule ring_from [OF R(8,10) assms(2)])
  have len: "length zs = length ?F" using distinct_card [OF zs(6)] distinct_card [OF R(10)] zs(5) by simp
  obtain z ws where z: "zs = z # ws" using zs(3) by (cases zs) auto
  have "u_ptr (heap mp b) = z" using zs(1) by (simp add: z)
  moreover have "z = b \<longleftrightarrow> ws = []" using zs(2,6) unfolding z by (metis distinct.simps(2) last.simps last_in_set)
  moreover have "length ws + 1 = length (filter is_free ts)" using len by (simp add: z length_frees)
  ultimately show ?thesis by (cases ws) auto
qed

text \<open>
  \<^verbatim>\<open>_fnet_mempool_malloc\<close> against the specification: it always returns; it succeeds exactly
  when a block of the wanted size can be given, and then it performs an allocation step.
\<close>

lemma malloc_refines:
  assumes "rep mp a ts" and k: "k = nunits_of (unit_size mp) nbytes" "0 < k"
  shows "if can_alloc k ts
         then \<exists>mp' ts' n. fnet_mempool_malloc mp nbytes = Some (mp', a + (n + 1) * unit_size mp)
                \<and> tiles_malloc k ts ts' n \<and> rep mp' a ts' \<and> unit_size mp' = unit_size mp
         else fnet_mempool_malloc mp nbytes = Some (mp, 0)"
proof -
  let ?u = "unit_size mp" and ?h = "heap mp" and ?F = "frees (unit_size mp) a ts"
  note R = repD [OF assms(1)]
  obtain bp b where search: "best_find ?h (free_ptr mp) k (free_ptr mp) (u_ptr (?h (free_ptr mp))) (free_ptr mp) 0 = Some (bp, b)"
    and found: "if \<exists>x\<in>set ?F. k \<le> u_size (?h x)
        then b \<in> set ?F \<and> bp \<in> set ?F \<and> u_ptr (?h bp) = b \<and> k \<le> u_size (?h b)
             \<and> (\<forall>x\<in>set ?F. k \<le> u_size (?h x) \<longrightarrow> u_size (?h b) \<le> u_size (?h x))
        else b = 0"
    using best_find_ring [OF R(8,10,9,11), of k] by (elim exE conjE) (rule that)
  show ?thesis
  proof (cases "\<exists>x\<in>set ?F. k \<le> u_size (?h x)")
    case False
    then have "m < k" if "Free m \<in> set ts" for m using frees_at [OF that R(7)] by force
    then have "\<not> can_alloc k ts" by (force simp: can_alloc_def)
    moreover have "b = 0" using found False by simp
    ultimately show ?thesis
      using search k(1) by (simp add: fnet_mempool_malloc_def Let_def)
  next
    case True
    with found have b: "b \<in> set ?F" "bp \<in> set ?F" "u_ptr (?h bp) = b" "k \<le> u_size (?h b)"
      "\<And>x. x \<in> set ?F \<Longrightarrow> k \<le> u_size (?h x) \<Longrightarrow> u_size (?h b) \<le> u_size (?h x)" by auto
    obtain l n r where ts: "ts = l @ Free n # r" and ba: "b = a + units l * ?u"
      by (rule frees_split [OF b(1)])
    have n: "u_size (?h b) = n" using R(7) by (simp add: ts ba sized_append)
    have best: "best_fit k n ts"
      using b(4,5) n frees_at [OF _ R(7)] by (fastforce simp: best_fit_def)
    have b0: "b \<noteq> 0" using b(1) R(11) by metis
    have single: "u_ptr (?h bp) = u_ptr (?h b) \<longleftrightarrow> length (filter is_free ts) = 1"
      using single_free [OF assms(1) b(1-3)] b(3) by auto
    consider (none) "n = k" "length (filter is_free ts) = 1"
      | (whole) "n = k" "length (filter is_free ts) \<noteq> 1" | (split) "k < n"
      using b(4) n by linarith
    then show ?thesis
    proof cases
      case none
      then have "\<not> can_alloc k ts"
        by (auto simp: ts can_alloc_def filter_empty_conv)
      then show ?thesis
        using search k(1) none n single by (simp add: fnet_mempool_malloc_def Let_def)
    next
      case whole
      then have ex: "\<exists>t\<in>set (l @ r). is_free t" by (auto simp: ts filter_empty_conv)
      then have can: "can_alloc k ts"
        using whole by (force simp: ts can_alloc_def Suc_le_eq filter_empty_conv length_greater_0_conv [symmetric]
            simp del: length_greater_0_conv)
      have "units l + 1 \<le> units ts" using R(5) by (simp add: ts)
      from rep_addr [OF assms(1) this] have addr: "w32 (b + ?u) = a + (units l + 1) * ?u"
        by (simp add: ba algebra_simps)
      have eq: "fnet_mempool_malloc mp nbytes
        = Some (mp\<lparr>heap := ?h(bp := (?h bp)\<lparr>u_ptr := u_ptr (?h b)\<rparr>), free_ptr := bp\<rparr>, w32 (b + ?u))"
        using search k(1) whole n single b0 by (simp add: fnet_mempool_malloc_def Let_def)
      have step: "tiles_malloc k ts (l @ Used k # r) (units l)"
        using whole_block [of k l r] best ex whole(1) by (simp add: ts)
      have "rep (mp\<lparr>heap := ?h(bp := (?h bp)\<lparr>u_ptr := u_ptr (?h b)\<rparr>), free_ptr := bp\<rparr>) a (l @ Used k # r)"
        using assms(1) b(2) whole(1) unfolding ts by (simp add: malloc_whole_rep [OF _ ex ba _ b(3) refl])
      moreover note eq [unfolded addr] step
      ultimately show ?thesis unfolding if_P [OF can] by (intro exI conjI) (assumption, assumption, assumption, simp)
    next
      case split
      let ?h' = "?h(b := (?h b)\<lparr>u_size := n - k\<rparr>)"
      let ?b = "b + (n - k) * ?u"
      have can: "can_alloc k ts" using split by (auto simp: can_alloc_def ts)
      have b': "?b = a + (units l + (n - k)) * ?u" by (simp add: ba algebra_simps)
      have le: "units l + (n - k) + 1 \<le> units ts" using split k(2) by (simp add: ts)
      have "?b + ?u = a + (units l + (n - k) + 1) * ?u" unfolding b' by (simp add: algebra_simps)
      with rep_addr [OF assms(1) le] rep_addr [OF assms(1), of "units l + (n - k)"] le
      have addr: "w32 ?b = ?b" "w32 (?b + ?u) = a + (units l + (n - k) + 1) * ?u"
        by (simp_all only: b' mod_less)
      have eq: "fnet_mempool_malloc mp nbytes
        = Some (mp\<lparr>heap := ?h'(?b := (?h' ?b)\<lparr>u_size := k\<rparr>), free_ptr := bp\<rparr>, w32 (?b + ?u))"
        using search k(1) split n b0 addr(1) by (simp add: fnet_mempool_malloc_def Let_def)
      have step: "tiles_malloc k ts (l @ Free (n - k) # Used k # r) (units l + (n - k))"
        using best split unfolding ts by (rule split_block)
      have "rep (mp\<lparr>heap := ?h'(?b := (?h' ?b)\<lparr>u_size := k\<rparr>), free_ptr := bp\<rparr>) a (l @ Free (n - k) # Used k # r)"
        using assms(1) b(2) unfolding ts by (intro malloc_split_rep [OF _ split k(2) ba _ refl refl])
      moreover note eq [unfolded addr(2)] step
      ultimately show ?thesis unfolding if_P [OF can] by (intro exI conjI) (assumption, assumption, assumption, simp)
    qed
  qed
qed

section \<open>Release\<close>

text \<open>Where the search of \<^verbatim>\<open>_fnet_mempool_free\<close> stops: before the place of the block.\<close>

lemma free_find_walk:
  assumes "path h p zs" "t \<in> set (p # zs)"
    and "\<And>x. x \<in> set (p # zs) \<Longrightarrow>
          (x < bp \<and> bp < u_ptr (h x) \<or> u_ptr (h x) \<le> x \<and> (x < bp \<or> bp < u_ptr (h x))) = (x = t)"
  shows "free_find h bp p = Some t"
  using assms
proof (induction zs arbitrary: p)
  case Nil
  then show ?case using Nil.prems(3) [of p] by (subst free_find.simps) auto
next
  case (Cons z zs)
  show ?case
  proof (cases "p = t")
    case True
    then show ?thesis using Cons.prems(3) [of p] by (subst free_find.simps) auto
  next
    case False
    have "free_find h bp z = Some t" using Cons.prems False by (intro Cons.IH) auto
    moreover have "u_ptr (h p) = z" using Cons.prems(1) by simp
    ultimately show ?thesis using Cons.prems(3) [of p] False by (subst free_find.simps) auto
  qed
qed

lemma ring_succ: "ring h (xs @ x # y # ys) \<Longrightarrow> u_ptr (h x) = y"
  by (auto simp: ring_def path_append)

lemma ring_last: "ring h xs \<Longrightarrow> u_ptr (h (last xs)) = hd xs"
  by (cases xs) (auto simp: ring_def)

lemma stop_iff:
  assumes rng: "ring h (rs @ ls)" and srt: "sorted_wrt (<) (ls @ rs)"
    and lt: "\<forall>x\<in>set ls. x < bp" and gt: "\<forall>x\<in>set rs. bp < x"
    and x: "x \<in> set (rs @ ls)"
  shows "(x < bp \<and> bp < u_ptr (h x) \<or> u_ptr (h x) \<le> x \<and> (x < bp \<or> bp < u_ptr (h x)))
         = (x = last (rs @ ls))"
proof -
  have dist: "distinct (rs @ ls)"
    using srt strict_sorted_iff [of "ls @ rs"] by auto
  from x obtain as bs where s: "rs @ ls = as @ x # bs" by (meson split_list)
  show ?thesis
  proof (cases bs)
    case Nil
    then have l: "x = last (rs @ ls)" by (simp add: s)
    moreover have "u_ptr (h x) = hd (rs @ ls)" using ring_last [OF rng] l by simp
    moreover have "x < bp \<and> bp < hd (rs @ ls) \<or> hd (rs @ ls) \<le> x \<and> (x < bp \<or> bp < hd (rs @ ls))"
    proof (cases "ls = []")
      case True
      then have "rs \<noteq> []" "x = last rs" using x l by auto
      moreover have "hd rs \<le> last rs"
        using srt True \<open>rs \<noteq> []\<close> by (cases rs) (auto intro: less_imp_le)
      ultimately show ?thesis using True gt by simp
    next
      case False
      then have "x < bp" using l lt by simp
      show ?thesis
      proof (cases rs)
        case Nil
        have "hd ls \<le> last ls" using srt Nil False by (cases ls) (auto intro: less_imp_le)
        then show ?thesis using Nil False l \<open>x < bp\<close> by simp
      qed (use \<open>x < bp\<close> gt in auto)
    qed
    ultimately show ?thesis by simp
  next
    case (Cons y bs')
    then have nx: "u_ptr (h x) = y" using rng by (simp add: s ring_succ)
    have "x \<noteq> last (rs @ ls)" using dist by (auto simp: s Cons)
    moreover have "x < bp \<and> y < bp \<and> x < y \<or> bp < x \<and> x < y \<or> bp < x \<and> y < bp"
    proof -
      have "sorted_wrt (<) rs" "sorted_wrt (<) ls" using srt by (auto simp: sorted_wrt_append)
      moreover have "(\<exists>us. rs = as @ x # y # us) \<or> rs = as @ [x] \<and> ls = y # bs'
          \<or> (\<exists>us. ls = us @ x # y # bs')"
        using s unfolding Cons by (auto simp: append_eq_append_conv2 append_eq_Cons_conv Cons_eq_append_conv)
      ultimately show ?thesis using lt gt by (auto simp: sorted_wrt_append)
    qed
    ultimately show ?thesis using nx by auto
  qed
qed

lemma free_search:
  assumes "rep mp a (l @ Used k # r)" and b: "b = a + units l * unit_size mp"
    and ls: "ls = frees (unit_size mp) a l" and rs: "rs = frees (unit_size mp) (b + k * unit_size mp) r"
  shows "ring (heap mp) (rs @ ls)" "distinct (rs @ ls)" "b \<notin> set (rs @ ls)" "rs @ ls \<noteq> []"
    "free_find (heap mp) b (free_ptr mp) = Some (last (rs @ ls))"
    "frees (unit_size mp) a (l @ Used k # r) = ls @ rs"
    "\<forall>x\<in>set ls. x + unit_size mp \<le> b" "\<forall>x\<in>set rs. b < x"
proof -
  let ?u = "unit_size mp"
  note R = repD [OF assms(1)]
  show fr: "frees ?u a (l @ Used k # r) = ls @ rs" by (simp add: frees_append b ls rs)
  show rng: "ring (heap mp) (rs @ ls)" using R(8) unfolding fr by (simp only: ring_rotate)
  show "distinct (rs @ ls)" using R(10) unfolding fr by auto
  show "rs @ ls \<noteq> []" using rng by (simp add: ring_def)
  show lt: "\<forall>x\<in>set ls. x + ?u \<le> b" using frees_upper [of _ ?u a l] R(2,5) by (auto simp: ls b)
  have "0 < k * ?u" using R(2,5) by simp
  then have "b < x" if "x \<in> set rs" for x
    using frees_lower [OF that [unfolded rs]] by linarith
  then show gt: "\<forall>x\<in>set rs. b < x" by blast
  show "b \<notin> set (rs @ ls)" using lt gt R(2) by force
  have srt: "sorted_wrt (<) (ls @ rs)" using frees_sorted [OF R(5,2), of a] unfolding fr .
  have lt': "\<forall>x\<in>set ls. x < b" using lt R(2) by force
  have "free_ptr mp \<in> set (rs @ ls)" using R(9) unfolding fr by auto
  then obtain zs where zs: "path (heap mp) (free_ptr mp) zs" "set zs = set (rs @ ls)"
    using ring_from [OF rng \<open>distinct (rs @ ls)\<close>] by metis
  show "free_find (heap mp) b (free_ptr mp) = Some (last (rs @ ls))"
  proof (rule free_find_walk [OF zs(1)])
    show "last (rs @ ls) \<in> set (free_ptr mp # zs)"
      using \<open>rs @ ls \<noteq> []\<close> last_in_set zs(2) by (metis list.set_intros(2))
    fix x assume "x \<in> set (free_ptr mp # zs)"
    then have "x \<in> set (rs @ ls)" using zs(2) \<open>free_ptr mp \<in> set (rs @ ls)\<close> by auto
    from stop_iff [OF rng srt lt' gt this]
    show "(x < b \<and> b < u_ptr (heap mp x) \<or> u_ptr (heap mp x) \<le> x \<and> (x < b \<or> b < u_ptr (heap mp x)))
        = (x = last (rs @ ls))" .
  qed
qed

text \<open>When the code joins with the right and with the left neighbour.\<close>

lemma frees_used_first:
  assumes "\<not> (r \<noteq> [] \<and> is_free (hd r))" "x \<in> set (frees u c r)" "\<forall>t\<in>set r. 0 < tsize t" "0 < u"
  shows "c < x"
proof (cases r)
  case (Cons t ts)
  then have "x \<in> set (frees u (c + tsize t * u) ts)" "0 < tsize t * u" using assms by auto
  with frees_lower [OF this(1)] show ?thesis by linarith
qed (use assms(2) in simp)

lemma frees_used_last:
  assumes "\<not> (l \<noteq> [] \<and> is_free (last l))" "x \<in> set (frees u a l)" "sized h u a l"
    "\<forall>t\<in>set l. 0 < tsize t" "0 < u"
  shows "x + u_size (h x) * u < a + units l * u"
proof -
  obtain l1 n l2 where l: "l = l1 @ Free n # l2" and x: "x = a + units l1 * u"
    by (rule frees_split [OF assms(2)])
  have "u_size (h x) = n" using assms(3) by (simp add: l x sized_append)
  moreover obtain t ts where "l2 = t # ts" using assms(1) l by (cases l2) auto
  moreover then have "0 < tsize t * u" using assms(4,5) l by simp
  ultimately show ?thesis by (simp add: l x algebra_simps)
qed

lemma join_right_iff:
  assumes "rep mp a (l @ Used k # r)" and b: "b = a + units l * unit_size mp"
    and "rs = frees (unit_size mp) (b + k * unit_size mp) r" "ls = frees (unit_size mp) a l"
  shows "w32 (b + k * unit_size mp) = hd (rs @ ls) \<longleftrightarrow> r \<noteq> [] \<and> is_free (hd r)"
proof -
  let ?u = "unit_size mp"
  note R = repD [OF assms(1)]
  note S = free_search [OF assms(1) b assms(4,3)]
  have "b + k * ?u = a + (units l + k) * ?u" by (simp add: b algebra_simps)
  then have w: "w32 (b + k * ?u) = b + k * ?u"
    using rep_addr [OF assms(1), of "units l + k"] by simp
  show ?thesis
  proof (cases "r \<noteq> [] \<and> is_free (hd r)")
    case True
    then have "hd (rs @ ls) = b + k * ?u" by (cases r) (auto simp: assms(3))
    with w True show ?thesis by simp
  next
    case False
    have "hd (rs @ ls) \<in> set (rs @ ls)" using S(4) by (rule hd_in_set)
    then have "hd (rs @ ls) \<noteq> b + k * ?u"
    proof (unfold set_append, elim UnE)
      assume "hd (rs @ ls) \<in> set rs"
      then have "b + k * ?u < hd (rs @ ls)"
        using frees_used_first [OF False] R(2,5) by (auto simp: assms(3))
      then show ?thesis by simp
    next
      assume "hd (rs @ ls) \<in> set ls"
      then show ?thesis using S(7) R(2) by force
    qed
    with w False show ?thesis by simp
  qed
qed

lemma join_left_iff:
  assumes "rep mp a (l @ Used k # r)" and b: "b = a + units l * unit_size mp"
    and "rs = frees (unit_size mp) (b + k * unit_size mp) r" "ls = frees (unit_size mp) a l"
    and t: "t = last (rs @ ls)"
  shows "w32 (t + u_size (heap mp t) * unit_size mp) = b \<longleftrightarrow> l \<noteq> [] \<and> is_free (last l)"
proof -
  let ?u = "unit_size mp" and ?h = "heap mp"
  note R = repD [OF assms(1)]
  note S = free_search [OF assms(1) b assms(4,3)]
  have tin: "t \<in> set (rs @ ls)" unfolding t using S(4) by (rule last_in_set)
  then have "t \<in> set (frees ?u a (l @ Used k # r))" unfolding S(6) by auto
  then obtain l1 n l2 where ts: "l @ Used k # r = l1 @ Free n # l2" and ta: "t = a + units l1 * ?u"
    by (rule frees_split)
  have "u_size (?h t) = n" using R(7) unfolding ts by (simp add: ta sized_append)
  then have "t + u_size (?h t) * ?u = a + (units l1 + n) * ?u" by (simp add: ta algebra_simps)
  moreover have "a + (units l1 + n) * ?u < 4294967296"
    using rep_addr [OF assms(1), of "units l1 + n"] unfolding ts by simp
  ultimately have w: "w32 (t + u_size (?h t) * ?u) = t + u_size (?h t) * ?u" by simp
  show ?thesis
  proof (cases "l \<noteq> [] \<and> is_free (last l)")
    case True
    then obtain l' m where l: "l = l' @ [Free m]"
      by (metis append_butlast_last_id is_free.elims(2))
    then have t': "t = a + units l' * ?u" by (simp add: t assms(4) frees_append)
    moreover have "u_size (?h t) = m" using R(7) by (simp add: l t' sized_append)
    ultimately show ?thesis using True w by (simp add: b l algebra_simps)
  next
    case False
    have "t + u_size (?h t) * ?u \<noteq> b"
    proof (cases "t \<in> set ls")
      case True
      then have "t + u_size (?h t) * ?u < b"
        using frees_used_last [OF False, of t ?u a ?h] R(2,5,7) by (simp add: assms(4) b sized_append)
      then show ?thesis by simp
    next
      case False
      then show ?thesis using tin S(8) by force
    qed
    with w False show ?thesis by simp
  qed
qed

lemma unit_header_update [simp]:
  "x\<lparr>u_size := n, u_ptr := q\<rparr> = \<lparr>u_size = n, u_ptr = q\<rparr>" for x :: unit_header
  by (cases x) simp

text \<open>What the code leaves behind, for the four outcomes of the two tests.\<close>

lemma free_eval:
  assumes "rep mp a (l @ Used k # r)" and b: "b = a + units l * unit_size mp"
    and ls: "ls = frees (unit_size mp) a l" and rs: "rs = frees (unit_size mp) (b + k * unit_size mp) r"
    and t: "t = last (rs @ ls)" and h: "h = heap mp" and nx: "nx = hd (rs @ ls)"
    and RJ: "RJ \<longleftrightarrow> r \<noteq> [] \<and> is_free (hd r)" and LJ: "LJ \<longleftrightarrow> l \<noteq> [] \<and> is_free (last l)"
    and h1: "h1 = (if RJ then h(b := \<lparr>u_size = w32 (k + u_size (h nx)), u_ptr = u_ptr (h nx)\<rparr>)
                   else h(b := (h b)\<lparr>u_ptr := nx\<rparr>))"
    and p: "p = (if RJ \<and> t = nx then b else t)"
    and h2: "h2 = (if LJ then h1(p := \<lparr>u_size = w32 (u_size (h p) + u_size (h1 b)), u_ptr = u_ptr (h1 b)\<rparr>)
                   else h1(p := (h1 p)\<lparr>u_ptr := b\<rparr>))"
  shows "fnet_mempool_free mp (b + unit_size mp) = Some (mp\<lparr>heap := h2, free_ptr := p\<rparr>)"
proof -
  let ?u = "unit_size mp"
  note R = repD [OF assms(1)]
  note S = free_search [OF assms(1) b ls rs]
  have jr: "w32 (b + k * ?u) = nx \<longleftrightarrow> RJ" using join_right_iff [OF assms(1) b rs ls] by (simp only: RJ nx)
  have jl: "w32 (t + u_size (h t) * ?u) = b \<longleftrightarrow> LJ"
    using join_left_iff [OF assms(1) b rs ls t] by (simp only: LJ h)
  have bp: "w32 (b + ?u + 4294967296 - ?u) = b"
  proof -
    have "b < 4294967296" using rep_addr [OF assms(1), of "units l"] by (simp add: b)
    then show ?thesis by (simp add: add.commute [of _ "4294967296 :: nat"])
  qed
  have kb: "u_size (h b) = k" using R(7) by (simp add: h b sized_append)
  have tin: "t \<in> set (rs @ ls)" unfolding t using S(4) by (rule last_in_set)
  have nin: "nx \<in> set (rs @ ls)" unfolding nx using S(4) by (rule hd_in_set)
  have tb: "t \<noteq> b" "nx \<noteq> b" using S(3) tin nin by auto
  have ptr: "u_ptr (h t) = nx" unfolding t nx h by (rule ring_last [OF S(1)])
  have single: "\<not> LJ" if "RJ" "t = nx"
  proof
    assume "LJ"
    then obtain l' m where l: "l = l' @ [Free m]"
      unfolding LJ by (metis append_butlast_last_id is_free.elims(2))
    have "nx = b + k * ?u"
      using \<open>RJ\<close> unfolding RJ nx by (cases r) (auto simp: rs)
    moreover have "t < b" using S(7) R(2) t by (auto simp: ls l frees_append)
    ultimately show False using \<open>t = nx\<close> by simp
  qed
  have upper: "free_upper ?u b h t = (h1, p)"
  proof (cases RJ)
    case True
    then have j: "w32 (b + u_size (h b) * ?u) = u_ptr (h t)" using jr ptr kb by simp
    have "free_upper ?u b h t = (h(b := \<lparr>u_size = w32 (k + u_size (h nx)), u_ptr = u_ptr (h nx)\<rparr>),
        if t = nx then b else t)"
      unfolding free_upper_def if_P [OF j] Let_def using tb by (simp add: kb ptr)
    with True show ?thesis by (simp add: h1 p)
  next
    case False
    then have j: "w32 (b + u_size (h b) * ?u) \<noteq> u_ptr (h t)" using jr ptr kb by simp
    show ?thesis unfolding free_upper_def if_not_P [OF j] using False by (simp add: h1 p ptr)
  qed
  have pw: "w32 (p + u_size (h1 p) * ?u) = b \<longleftrightarrow> LJ"
  proof (cases "RJ \<and> t = nx")
    case True
    then have pb: "p = b" by (simp add: p)
    have "nx = b + k * ?u" using True unfolding RJ nx by (cases r) (auto simp: rs)
    have n: "u_size (h1 p) = w32 (k + u_size (h nx))" using True by (simp add: pb h1)
    obtain m r' where r: "r = Free m # r'" using True RJ by (cases r) (auto elim: is_free.elims)
    have m: "u_size (h nx) = m" "0 < m" "0 < k"
      using R(5,7) \<open>nx = b + k * ?u\<close> by (auto simp: r b h sized_append algebra_simps)
    have "units l + (k + m) \<le> units (l @ Used k # r)" by (simp add: r)
    from rep_addr [OF assms(1) this]
    have e: "b + (k + m) * ?u < 4294967296" by (simp add: b algebra_simps)
    moreover have "k + m \<le> (k + m) * ?u" using R(2) by simp
    ultimately have "k + m < 4294967296" by linarith
    then have "w32 (p + u_size (h1 p) * ?u) = b + (k + m) * ?u" using e by (simp add: n [unfolded pb] m(1) pb)
    moreover have "0 < (k + m) * ?u" using m(2) R(2) by simp
    ultimately show ?thesis using single True by simp
  next
    case False
    then have "p = t" by (auto simp: p)
    then show ?thesis using jl tb by (auto simp: h1)
  qed
  have "free_lower ?u b h1 p = h2"
  proof (cases LJ)
    case True
    have "p = t" using single True by (auto simp: p)
    then have "u_size (h1 p) = u_size (h p)" "p \<noteq> b" using tb by (auto simp: h1)
    then show ?thesis
      unfolding free_lower_def if_P [OF pw [THEN iffD2, OF True]] Let_def h2 if_P [OF True]
      by (simp add: fun_eq_iff)
  next
    case False
    then show ?thesis unfolding free_lower_def h2 using pw by simp
  qed
  moreover have ne: "b + ?u \<noteq> 0" using R(2) by simp
  ultimately show ?thesis
    using S(5) upper unfolding fnet_mempool_free_def if_not_P [OF ne] Let_def bp
    by (simp flip: h t)
qed

lemma ring_replace:
  assumes "ring h (x # ys)" "distinct (b # x # ys)" "ys \<noteq> []"
    and "\<And>y. y \<in> set ys \<Longrightarrow> u_ptr (h' y) = (if y = last ys then b else u_ptr (h y))"
    and "u_ptr (h' b) = u_ptr (h x)"
  shows "ring h' (b # ys)"
proof -
  obtain y zs where ys: "ys = y # zs" using assms(3) by (cases ys) auto
  have "u_ptr (h x) = y" "path h y zs" using assms(1) by (auto simp: ring_def ys)
  moreover have "path h' y zs = path h y zs"
    using assms(2,4) by (intro path_except_last) (auto simp: ys)
  moreover have "u_ptr (h' (last ys)) = b" using assms(3,4) by simp
  ultimately show ?thesis using assms(5) by (simp add: ring_Cons ys)
qed

lemma rep_units:
  assumes "rep mp a ts" "m \<le> units ts"
  shows "m < 4294967296"
proof -
  have "m \<le> m * unit_size mp" using repD(2) [OF assms(1)] by simp
  then show ?thesis using rep_addr [OF assms] by linarith
qed

lemma rep_join:
  assumes "rep mp a (l @ ss @ r)" "units ss = n" "0 < n" and c: "c = a + units l * unit_size mp"
    and sz: "\<And>x. u_size (h' x) \<noteq> u_size (heap mp x) \<Longrightarrow> c \<le> x \<and> x < c + n * unit_size mp"
    and "u_size (h' c) = n" "\<not> (l \<noteq> [] \<and> is_free (last l))" "\<not> (r \<noteq> [] \<and> is_free (hd r))"
    and ls: "ls = frees (unit_size mp) a l" and rs: "rs = frees (unit_size mp) (c + n * unit_size mp) r"
    and rng: "ring h' ((c # rs) @ ls)" and p: "p \<in> set ((c # rs) @ ls)"
  shows "rep (mp\<lparr>heap := h', free_ptr := p\<rparr>) a (l @ Free n # r)"
proof -
  let ?u = "unit_size mp"
  note R = repD [OF assms(1)]
  have fr: "frees ?u a (l @ Free n # r) = ls @ c # rs"
    by (simp add: frees_append c ls rs)
  have "sized h' ?u a (l @ [Free n] @ r)"
  proof (rule sized_around [where ss = ss])
    fix x assume "u_size (h' x) \<noteq> u_size (heap mp x)"
    from sz [OF this] show "a + units l * ?u \<le> x \<and> x < a + (units l + units ss) * ?u"
      by (simp add: c assms(2) add_mult_distrib)
  qed (use R(2,5,7) assms(2,6) c in auto)
  moreover have "coalesced (l @ Free n # r)"
    using R(6) assms(7,8) by (cases r) (auto simp: coalesced_append)
  moreover have "ring h' (frees ?u a (l @ Free n # r))"
    using rng unfolding fr by (simp only: ring_rotate)
  moreover have "p \<in> set (frees ?u a (l @ Free n # r))" using p unfolding fr by auto
  moreover have "units (l @ Free n # r) = units (l @ ss @ r)" by (simp add: assms(2))
  moreover have "\<forall>t\<in>set (l @ Free n # r). 0 < tsize t" using R(5) assms(3) by auto
  ultimately show ?thesis
    using R(1,3,4) unfolding rep_def by simp
qed

text \<open>
  \<^verbatim>\<open>_fnet_mempool_free\<close> against the specification, for a block that was handed out.
\<close>

lemma last_free: "l \<noteq> [] \<and> is_free (last l) \<Longrightarrow> \<exists>l' m. l = l' @ [Free m]"
  by (metis append_butlast_last_id is_free.elims(2))

lemma hd_free: "r \<noteq> [] \<and> is_free (hd r) \<Longrightarrow> \<exists>m r'. r = Free m # r'"
  by (cases r) (auto elim: is_free.elims)

lemma coalesced_sides:
  assumes "coalesced (l @ Used k # r)"
  shows "l = l' @ [Free m] \<Longrightarrow> \<not> (l' \<noteq> [] \<and> is_free (last l'))"
    "r = Free m # r' \<Longrightarrow> \<not> (r' \<noteq> [] \<and> is_free (hd r'))"
  using assms by (auto simp: coalesced_append neq_Nil_conv)

lemma free_refines:
  assumes "rep mp a (l @ Used k # r)" and b: "b = a + units l * unit_size mp"
  shows "\<exists>mp'. fnet_mempool_free mp (b + unit_size mp) = Some mp' \<and> rep mp' a (tiles_free l k r)
           \<and> unit_size mp' = unit_size mp"
proof -
  let ?u = "unit_size mp"
  define ls where ls: "ls = frees ?u a l"
  define rs where rs: "rs = frees ?u (b + k * ?u) r"
  define h where h: "h = heap mp"
  define t where t: "t = last (rs @ ls)"
  define nx where nx: "nx = hd (rs @ ls)"
  define RJ where RJ: "RJ \<longleftrightarrow> r \<noteq> [] \<and> is_free (hd r)"
  define LJ where LJ: "LJ \<longleftrightarrow> l \<noteq> [] \<and> is_free (last l)"
  define h1 where h1: "h1 = (if RJ then h(b := \<lparr>u_size = w32 (k + u_size (h nx)), u_ptr = u_ptr (h nx)\<rparr>)
                   else h(b := (h b)\<lparr>u_ptr := nx\<rparr>))"
  define p where p: "p = (if RJ \<and> t = nx then b else t)"
  define h2 where h2: "h2 = (if LJ then h1(p := \<lparr>u_size = w32 (u_size (h p) + u_size (h1 b)), u_ptr = u_ptr (h1 b)\<rparr>)
                   else h1(p := (h1 p)\<lparr>u_ptr := b\<rparr>))"
  note R = repD [OF assms(1)]
  note S = free_search [OF assms(1) b ls rs]
  have eval: "fnet_mempool_free mp (b + ?u) = Some (mp\<lparr>heap := h2, free_ptr := p\<rparr>)"
    by (rule free_eval [OF assms(1) b ls rs t h nx RJ LJ h1 p h2])
  have kb: "u_size (h b) = k" using R(7) by (simp add: h b sized_append)
  have tin: "t \<in> set (rs @ ls)" unfolding t using S(4) by (rule last_in_set)
  have nin: "nx \<in> set (rs @ ls)" unfolding nx using S(4) by (rule hd_in_set)
  have tb: "t \<noteq> b" "nx \<noteq> b" using S(3) tin nin by auto
  have ptr: "u_ptr (h t) = nx" unfolding t nx h by (rule ring_last [OF S(1)])
  have k: "0 < k" "0 < k * ?u" using R(2,5) by auto
  have "rep (mp\<lparr>heap := h2, free_ptr := p\<rparr>) a (tiles_free l k r)"
  proof (cases RJ; cases LJ)
    assume "\<not> RJ" "\<not> LJ"
    then have tf: "tiles_free l k r = l @ Free k # r"
      unfolding tiles_free_def RJ LJ by (cases r; cases "hd r") auto
    have pt: "p = t" using \<open>\<not> RJ\<close> by (simp add: p)
    have h2': "h2 = h(b := (h b)\<lparr>u_ptr := nx\<rparr>, t := (h t)\<lparr>u_ptr := b\<rparr>)"
      using \<open>\<not> RJ\<close> \<open>\<not> LJ\<close> tb by (simp add: h2 h1 pt)
    have "ring h2 (b # rs @ ls)"
      by (rule ring_insert [OF S(1)]) (use S(2,3) tb in \<open>auto simp: h2' h nx simp flip: t\<close>)
    note rng = this
    show ?thesis
      unfolding tf
    proof (rule rep_join [where ss = "[Used k]" and c = b, OF _ _ k(1) b _ _ _ _ ls rs])
      fix x assume "u_size (h2 x) \<noteq> u_size (heap mp x)"
      then have False by (simp add: h2' h split: if_splits)
      then show "b \<le> x \<and> x < b + k * ?u" ..
    qed (use assms(1) kb rng tin tb \<open>\<not> RJ\<close> \<open>\<not> LJ\<close> RJ LJ in \<open>simp_all add: h2' pt\<close>)
  next
    assume "RJ" "\<not> LJ"
    obtain m r' where r: "r = Free m # r'" using \<open>RJ\<close> hd_free unfolding RJ by blast
    define rs' where rs': "rs' = frees ?u (b + (k + m) * ?u) r'"
    have rsn: "rs = nx # rs'" "nx = b + k * ?u"
      by (simp_all add: nx rs rs' r algebra_simps)
    have m: "u_size (h nx) = m" "w32 (k + m) = k + m"
      using R(7) rep_units [OF assms(1), of "k + m"]
      by (simp_all add: r h rsn(2) b sized_append algebra_simps)
    have tf: "tiles_free l k r = l @ Free (k + m) # r'"
      using \<open>\<not> LJ\<close> unfolding tiles_free_def LJ r by auto
    have h1': "h1 = h(b := \<lparr>u_size = k + m, u_ptr = u_ptr (h nx)\<rparr>)"
      using \<open>RJ\<close> by (simp add: h1 m)
    have h2': "h2 = h1(p := (h1 p)\<lparr>u_ptr := b\<rparr>)" using \<open>\<not> LJ\<close> by (simp add: h2)
    have "ring h2 (b # rs' @ ls) \<and> p \<in> set (b # rs' @ ls)"
    proof (cases "rs' @ ls = []")
      case True
      then have "p = b" using \<open>RJ\<close> by (simp add: p t rsn)
      with True show ?thesis by (simp add: h2' ring_def)
    next
      case False
      then have tl: "t = last (rs' @ ls)"
        unfolding t rsn(1) append_Cons last.simps by (rule if_not_P)
      then have "t \<in> set (rs' @ ls)" using False by (metis last_in_set)
      then have pt: "p = t" using S(2) by (auto simp: p rsn)
      have "ring h2 (b # rs' @ ls)"
        by (rule ring_replace [of h nx])
          (use S(1-3) False \<open>t \<in> set (rs' @ ls)\<close> tb in
            \<open>auto simp: rsn h2' h1' pt h simp flip: tl\<close>)
      then show ?thesis using \<open>t \<in> set (rs' @ ls)\<close> by (simp add: pt)
    qed
    note rng = this
    have sz: "u_size (h2 x) = (if x = b then k + m else u_size (h x))" for x
      by (simp add: h2' h1')
    have km: "0 < k + m" "0 < (k + m) * ?u" using k R(2) by simp_all
    show ?thesis
      unfolding tf
    proof (rule rep_join [where ss = "[Used k, Free m]" and c = b, OF _ _ km(1) b _ _ _ _ ls rs'])
      fix x assume "u_size (h2 x) \<noteq> u_size (heap mp x)"
      then have "x = b" by (simp add: sz h split: if_splits)
      then show "b \<le> x \<and> x < b + (k + m) * ?u" using km(2) by simp
    qed (use assms(1) rng sz \<open>\<not> LJ\<close> LJ coalesced_sides(2) [OF R(6) r] in \<open>simp_all add: r\<close>)
  next
    assume "\<not> RJ" "LJ"
    obtain l' m where l: "l = l' @ [Free m]" using \<open>LJ\<close> last_free unfolding LJ by blast
    define ls' where ls': "ls' = frees ?u a l'"
    have lsn: "ls = ls' @ [t]" "t = a + units l' * ?u" "b = t + m * ?u"
      by (simp_all add: t ls ls' l b frees_append algebra_simps)
    have m: "u_size (h t) = m" "w32 (m + k) = m + k"
      using R(7) rep_units [OF assms(1), of "m + k"]
      by (simp_all add: l h lsn(2) sized_append)
    have m0: "0 < m * ?u" "0 < m" using R(2,5) by (simp_all add: l)
    have pt: "p = t" using \<open>\<not> RJ\<close> by (simp add: p)
    have tf: "tiles_free l k r = l' @ Free (m + k) # r"
      using \<open>LJ\<close> \<open>\<not> RJ\<close> unfolding tiles_free_def LJ RJ l by (cases r; cases "hd r") auto
    have h2': "h2 = h(b := (h b)\<lparr>u_ptr := nx\<rparr>, t := \<lparr>u_size = m + k, u_ptr = nx\<rparr>)"
      using \<open>LJ\<close> \<open>\<not> RJ\<close> m tb by (simp add: h2 h1 pt kb)
    have "ring h2 (rs @ ls)"
      using S(1,3) ptr tb by (subst ring_cong [of _ _ h]) (auto simp: h2' simp flip: h)
    then have "ring h2 ((t # rs) @ ls')"
      using ring_rotate [of h2 "rs @ ls'" "[t]"] by (simp add: lsn)
    moreover have "t + (m + k) * ?u = b + k * ?u" by (simp add: lsn algebra_simps)
    ultimately have rng: "ring h2 ((t # rs) @ ls')" and rs3: "rs = frees ?u (t + (m + k) * ?u) r"
      by (simp_all add: rs)
    have sz: "u_size (h2 x) = (if x = t then m + k else u_size (h x))" for x
      by (simp add: h2')
    have mk: "0 < m + k" "0 < (m + k) * ?u" using k R(2) by simp_all
    show ?thesis
      unfolding tf pt
    proof (rule rep_join [where ss = "[Free m, Used k]" and c = t, OF _ _ mk(1) lsn(2) _ _ _ _ ls' rs3])
      fix x assume "u_size (h2 x) \<noteq> u_size (heap mp x)"
      then have "x = t" by (simp add: sz h split: if_splits)
      then show "t \<le> x \<and> x < t + (m + k) * ?u" using mk(2) by simp
    qed (use assms(1) rng sz \<open>\<not> RJ\<close> RJ coalesced_sides(1) [OF R(6) l] in \<open>simp_all add: l\<close>)
  next
    assume "RJ" "LJ"
    obtain l' m where l: "l = l' @ [Free m]" using \<open>LJ\<close> last_free unfolding LJ by blast
    obtain m' r' where r: "r = Free m' # r'" using \<open>RJ\<close> hd_free unfolding RJ by blast
    define ls' where ls': "ls' = frees ?u a l'"
    define rs' where rs': "rs' = frees ?u (b + (k + m') * ?u) r'"
    have lsn: "ls = ls' @ [t]" "t = a + units l' * ?u" "b = t + m * ?u"
      by (simp_all add: t ls ls' l b frees_append algebra_simps)
    have rsn: "rs = nx # rs'" "nx = b + k * ?u"
      by (simp_all add: nx rs rs' r algebra_simps)
    have m: "u_size (h t) = m" "u_size (h nx) = m'" "w32 (k + m') = k + m'"
        "w32 (m + (k + m')) = m + (k + m')"
      using R(7) rep_units [OF assms(1), of "k + m'"] rep_units [OF assms(1), of "m + (k + m')"]
      by (simp_all add: r l h lsn(2) rsn(2) b sized_append algebra_simps)
    have m0: "0 < m * ?u" "0 < m" "0 < m' * ?u" using R(2,5) by (simp_all add: l r)
    have tnx: "t \<noteq> nx" using S(2) by (auto simp: lsn(1) rsn(1))
    have pt: "p = t" using tnx by (simp add: p)
    have tf: "tiles_free l k r = l' @ Free (m + (k + m')) # r'"
      using \<open>LJ\<close> unfolding tiles_free_def LJ l r by (auto simp: add.assoc)
    have h2': "h2 = h(b := \<lparr>u_size = k + m', u_ptr = u_ptr (h nx)\<rparr>,
                      t := \<lparr>u_size = m + (k + m'), u_ptr = u_ptr (h nx)\<rparr>)"
      using \<open>LJ\<close> \<open>RJ\<close> m tb by (simp add: h2 h1 pt)
    have "ring h2 (rs' @ ls)"
      by (rule ring_remove [of h nx])
        (use S(1-3) tb tnx in \<open>auto simp: rsn(1) h2' h lsn(1)\<close>)
    then have "ring h2 ((t # rs') @ ls')"
      using ring_rotate [of h2 "rs' @ ls'" "[t]"] by (simp add: lsn)
    moreover have "t + (m + (k + m')) * ?u = b + (k + m') * ?u" by (simp add: lsn algebra_simps)
    ultimately have rng: "ring h2 ((t # rs') @ ls')"
      and rs3: "rs' = frees ?u (t + (m + (k + m')) * ?u) r'" by (simp_all add: rs')
    have sz: "u_size (h2 x) = (if x = t then m + (k + m') else if x = b then k + m' else u_size (h x))" for x
      using tb by (simp add: h2')
    have mk: "0 < m + (k + m')" "m * ?u < (m + (k + m')) * ?u" using k R(2) by simp_all
    show ?thesis
      unfolding tf pt
    proof (rule rep_join [where ss = "[Free m, Used k, Free m']" and c = t, OF _ _ mk(1) lsn(2) _ _ _ _ ls' rs3])
      fix x assume "u_size (h2 x) \<noteq> u_size (heap mp x)"
      then have "x = t \<or> x = b" by (simp add: sz h split: if_splits)
      then show "t \<le> x \<and> x < t + (m + (k + m')) * ?u" using mk(2) lsn(3) by auto
    qed (use assms(1) rng sz coalesced_sides(1) [OF R(6) l] coalesced_sides(2) [OF R(6) r] in
          \<open>simp_all add: l r\<close>)
  qed
  with eval show ?thesis by simp
qed

section \<open>The statistics\<close>

lemma w32_pred: "0 < n \<Longrightarrow> n < 4294967296 \<Longrightarrow> w32 (n + 4294967295) = n - 1"
proof -
  assume "0 < n" "n < 4294967296"
  then have "n + 4294967295 = (n - 1) + 4294967296" "n - 1 < 4294967296" by linarith+
  then show ?thesis by (metis mod_add_self2 mod_less)
qed

lemma max_pred: "0 < n \<Longrightarrow> n < 4294967296 \<Longrightarrow> (if m < n then w32 (n + 4294967295) else m) = max (n - 1) m"
  unfolding w32_pred max_def by auto

lemma max_loop_walk:
  assumes "path h t (zs @ [p])" "p \<notin> set zs" "0 \<notin> set (zs @ [p])"
    and "\<forall>x\<in>set zs. 0 < u_size (h x) \<and> u_size (h x) < 4294967296"
  shows "max_loop h p t mx = Some (fold max (map (\<lambda>x. u_size (h x) - 1) zs) mx)"
  using assms
proof (induction zs arbitrary: t mx)
  case Nil
  then show ?case by (subst max_loop.simps) simp
next
  case (Cons z zs)
  then have "u_ptr (h t) = z" "z \<noteq> 0" "z \<noteq> p" by auto
  moreover have "max_loop h p z mx' = Some (fold max (map (\<lambda>x. u_size (h x) - 1) zs) mx')" for mx'
    using Cons.prems by (intro Cons.IH) auto
  ultimately show ?case
    using Cons.prems(4) by (subst max_loop.simps) (simp add: max_pred)
qed

lemma status_loop_walk:
  assumes "path h t (zs @ [p])" "p \<notin> set zs"
    and "\<forall>x\<in>set zs. 0 < u_size (h x) \<and> u_size (h x) < 4294967296"
    and "n + (\<Sum>x\<leftarrow>zs. u_size (h x) - 1) < 4294967296"
  shows "status_loop h p t n = Some (n + (\<Sum>x\<leftarrow>zs. u_size (h x) - 1))"
  using assms
proof (induction zs arbitrary: t n)
  case Nil
  then show ?case by (subst status_loop.simps) simp
next
  case (Cons z zs)
  then have "u_ptr (h t) = z" "z \<noteq> p" by auto
  moreover have "status_loop h p z n' = Some (n' + (\<Sum>x\<leftarrow>zs. u_size (h x) - 1))"
    if "n' = n + (u_size (h z) - 1)" for n'
    using Cons.prems that by (intro Cons.IH) auto
  ultimately show ?case
    using Cons.prems(3,4) by (subst status_loop.simps) (simp add: w32_pred Let_def)
qed

lemma rep_ring_from:
  assumes "rep mp a ts"
  obtains zs where "path (heap mp) (free_ptr mp) (zs @ [free_ptr mp])" "free_ptr mp \<notin> set zs"
    "set (free_ptr mp # zs) = set (frees (unit_size mp) a ts)" "distinct (free_ptr mp # zs)"
proof -
  note R = repD [OF assms]
  obtain zs where zs: "path (heap mp) (free_ptr mp) zs" "last zs = free_ptr mp" "zs \<noteq> []"
    "free_ptr mp \<notin> set (butlast zs)" "set zs = set (frees (unit_size mp) a ts)" "distinct zs"
    by (rule ring_from [OF R(8,10,9)])
  then have "zs = butlast zs @ [free_ptr mp]" by (metis append_butlast_last_id)
  with zs show ?thesis by (metis Un_insert_right distinct.simps(2) distinct_butlast list.simps(15)
        rotate1.simps(2) set_append set_rotate1 sup_bot.right_neutral that)
qed

lemma free_sizes:
  assumes "rep mp a ts" "x \<in> set (frees (unit_size mp) a ts)"
  shows "0 < u_size (heap mp x)" "u_size (heap mp x) \<le> units ts" "u_size (heap mp x) < 4294967296"
proof -
  note R = repD [OF assms(1)]
  have f: "Free (u_size (heap mp x)) \<in> set ts" using assms(2) R(7) by (rule size_at_free)
  with R(5) show "0 < u_size (heap mp x)" by force
  from f obtain l r where "ts = l @ Free (u_size (heap mp x)) # r" by (meson split_list)
  then have "units ts = units l + u_size (heap mp x) + units r" by (metis ab_semigroup_add_class.add_ac(1)
        tsize.simps(1) units.simps(2) units_append)
  then show "u_size (heap mp x) \<le> units ts" by simp
  then show "u_size (heap mp x) < 4294967296" by (rule rep_units [OF assms(1)])
qed

text \<open>The largest free block, as the code computes it.\<close>

lemma malloc_max_eq:
  assumes "rep mp a ts"
  shows "\<exists>m. Free m \<in> set ts \<and> (\<forall>n. Free n \<in> set ts \<longrightarrow> n \<le> m)
     \<and> fnet_mempool_malloc_max mp
       = Some ((m - 1 - (if length (filter is_free ts) = 1 then 1 else 0)) * unit_size mp)"
proof -
  let ?u = "unit_size mp" and ?h = "heap mp" and ?p = "free_ptr mp" and ?F = "frees (unit_size mp) a ts"
  note R = repD [OF assms]
  obtain zs where zs: "path ?h ?p (zs @ [?p])" "?p \<notin> set zs" "set (?p # zs) = set ?F"
    by (rule rep_ring_from [OF assms])
  have sz: "0 < u_size (?h x)" "u_size (?h x) < 4294967296" if "x \<in> set (?p # zs)" for x
    using free_sizes [OF assms] that zs(3) by auto
  have p0: "?p \<noteq> 0" using R(9,11) by metis
  have "0 \<notin> set (zs @ [?p])" using R(11) zs(3) by auto
  then have loop: "max_loop ?h ?p ?p (u_size (?h ?p) - 1)
      = Some (fold max (map (\<lambda>x. u_size (?h x) - 1) zs) (u_size (?h ?p) - 1))"
    using sz zs(1,2) by (intro max_loop_walk) auto
  define mx where "mx = fold max (map (\<lambda>x. u_size (?h x) - 1) zs) (u_size (?h ?p) - 1)"
  have mx: "mx = Max ((\<lambda>x. u_size (?h x) - 1) ` set ?F)"
    using Max.set_eq_fold [of "u_size (?h ?p) - 1" "map (\<lambda>x. u_size (?h x) - 1) zs"]
    by (simp add: mx_def flip: zs(3))
  then have "mx \<in> (\<lambda>x. u_size (?h x) - 1) ` set ?F"
    using R(9) by (metis (no_types, lifting) List.finite_set Max_in empty_iff finite_imageI image_is_empty)
  then obtain x where x: "x \<in> set ?F" "mx = u_size (?h x) - 1" by auto
  have single: "?p = u_ptr (?h ?p) \<longleftrightarrow> length (filter is_free ts) = 1"
  proof -
    have "u_ptr (?h ?p) \<in> set ?F" using ring_next_in [OF R(8,9)] .
    have "u_ptr (?h (last (?p # zs))) = ?p" using zs(1) unfolding path_append by simp
    moreover have "last (?p # zs) \<in> set ?F" unfolding zs(3) [symmetric] by (rule last_in_set) simp
    ultimately show ?thesis using single_free [OF assms R(9)] by metis
  qed
  have bound: "u_size (?h x) \<le> units ts" using free_sizes(2) [OF assms x(1)] .
  show ?thesis
  proof (intro exI [of _ "u_size (?h x)"] conjI allI impI)
    show "Free (u_size (?h x)) \<in> set ts" using x(1) R(7) by (rule size_at_free)
    fix n assume "Free n \<in> set ts"
    then obtain y where y: "y \<in> set ?F" "u_size (?h y) = n" using frees_at R(7) by blast
    then have "n - 1 \<le> mx" unfolding mx by (intro Max_ge) auto
    then show "n \<le> u_size (?h x)" using x(2) free_sizes(1) [OF assms x(1)] by linarith
  next
    have "w32 ((mx - d) * ?u) = (mx - d) * ?u" for d
    proof -
      have "mx - d \<le> units ts" using bound x(2) by linarith
      then show ?thesis using rep_addr [OF assms] by (metis add_lessD1 add.commute mod_less)
    qed
    note w = this [of 0, unfolded diff_zero] this [of 1]
    have "max_loop ?h ?p ?p (w32 (u_size (?h ?p) + 4294967295)) = Some mx"
      using loop sz [of ?p] by (simp only: w32_pred mx_def list.set_intros)
    then have "fnet_mempool_malloc_max mp = Some (w32 ((if ?p = u_ptr (?h ?p)
        then (if mx \<noteq> 0 then mx - 1 else mx) else mx) * ?u))"
      using p0 by (simp add: fnet_mempool_malloc_max_def)
    also have "(if ?p = u_ptr (?h ?p) then (if mx \<noteq> 0 then mx - 1 else mx) else mx)
        = (if length (filter is_free ts) = 1 then mx - 1 else mx)"
      by (simp only: single) simp
    finally show "fnet_mempool_malloc_max mp = Some ((u_size (?h x) - 1
        - (if length (filter is_free ts) = 1 then 1 else 0)) * ?u)"
      using w unfolding x(2) [symmetric] by (cases "length (filter is_free ts) = 1") simp_all
  qed
qed

text \<open>The free memory reported: the units of the free blocks, less a header each and one more.\<close>

lemma sum_frees:
  "sized h u a ts \<Longrightarrow> (\<Sum>x\<leftarrow>frees u a ts. u_size (h x) - 1) = (\<Sum>t\<leftarrow>filter is_free ts. tsize t - 1)"
  by (induction ts arbitrary: a) auto

lemma sum_tiles_le: "(\<Sum>t\<leftarrow>filter is_free ts. tsize t - 1) \<le> units ts"
  by (induction ts) auto

lemma if_nonzero_pred: "(if n \<noteq> 0 then n - 1 else n) = n - (1 :: nat)"
  by simp

lemma free_mem_status_eq:
  assumes "rep mp a ts"
  shows "fnet_mempool_free_mem_status mp
         = Some (((\<Sum>t\<leftarrow>filter is_free ts. tsize t - 1) - 1) * unit_size mp)"
proof -
  let ?h = "heap mp" and ?p = "free_ptr mp" and ?S = "\<Sum>t\<leftarrow>filter is_free ts. tsize t - 1"
  note R = repD [OF assms]
  obtain zs where zs: "path ?h ?p (zs @ [?p])" "?p \<notin> set zs"
      "set (?p # zs) = set (frees (unit_size mp) a ts)" "distinct (?p # zs)"
    by (rule rep_ring_from [OF assms])
  have "(\<Sum>x\<leftarrow>?p # zs. u_size (?h x) - 1) = (\<Sum>x\<leftarrow>frees (unit_size mp) a ts. u_size (?h x) - 1)"
    using zs(3,4) R(10) by (simp only: sum_list_distinct_conv_sum_set)
  then have S: "(u_size (?h ?p) - 1) + (\<Sum>x\<leftarrow>zs. u_size (?h x) - 1) = ?S"
    using sum_frees [OF R(7)] by simp
  have le: "?S \<le> units ts" by (rule sum_tiles_le)
  have sz: "0 < u_size (?h x) \<and> u_size (?h x) < 4294967296" if "x \<in> set (?p # zs)" for x
    using free_sizes [OF assms] that unfolding zs(3) by blast
  have loop: "status_loop ?h ?p ?p (u_size (?h ?p) - 1) = Some ?S"
    using status_loop_walk [OF zs(1,2), of "u_size (?h ?p) - 1"] sz rep_units [OF assms le]
    unfolding S by auto
  have "w32 (u_size (?h ?p) + 4294967295) = u_size (?h ?p) - 1" using sz [of ?p] by (simp only: w32_pred list.set_intros)
  moreover have "?p \<noteq> 0" using R(9,11) by metis
  moreover have "(if ?S \<noteq> 0 then ?S - 1 else ?S) = ?S - 1" by (rule if_nonzero_pred)
  moreover have "?S - 1 \<le> units ts" using le by linarith
  then have "w32 ((?S - 1) * unit_size mp) = (?S - 1) * unit_size mp"
    using rep_addr [OF assms] by (metis add_lessD1 add.commute mod_less)
  ultimately show ?thesis
    unfolding fnet_mempool_free_mem_status_def using loop by (simp only: if_True Option.bind.bind_lunit not_False_eq_True)
qed

text \<open>The number of units, when the addition in the code does not wrap around.\<close>

lemma ceil_le: "0 < u \<Longrightarrow> (n + u - 1) div u \<le> m \<longleftrightarrow> n \<le> m * (u :: nat)"
proof -
  assume u: "0 < u"
  have "(n + u - 1) div u \<le> m \<longleftrightarrow> (n + u - 1) div u < Suc m" by auto
  also have "\<dots> \<longleftrightarrow> n + u - 1 < Suc m * u" using u by (rule div_less_iff_less_mult)
  also have "\<dots> \<longleftrightarrow> n \<le> m * u" using u by auto
  finally show ?thesis .
qed

lemma nunits_of_eq:
  assumes "8 \<le> u" "n + u \<le> 4294967296"
  shows "nunits_of u n = (n + u - 1) div u + 1"
proof -
  have "n + u - 1 < 4294967296" using assms by linarith
  then have "(n + u - 1) div u \<le> 536870912 - 1"
    using assms by (subst ceil_le) auto
  with \<open>n + u - 1 < 4294967296\<close> show ?thesis by (simp add: nunits_of_def)
qed

lemma can_alloc_iff:
  assumes "Free m \<in> set ts" "\<forall>n. Free n \<in> set ts \<longrightarrow> n \<le> m"
  shows "can_alloc k ts \<longleftrightarrow> (if length (filter is_free ts) = 1 then k < m
           else k < m \<or> k = m \<or> (Free k \<in> set ts))"
proof -
  have "0 < length (filter is_free ts)"
    using assms(1) by (auto simp: filter_empty_conv intro!: bexI [of _ "Free m"])
  then consider "length (filter is_free ts) = 1" | "2 \<le> length (filter is_free ts)" by linarith
  then show ?thesis
    by cases (use assms in \<open>auto simp: can_alloc_def intro: less_le_trans dest: le_neq_implies_less\<close>)
qed

lemma malloc_result:
  assumes "rep mp a ts" "nbytes + unit_size mp \<le> 4294967296"
  shows "\<exists>mp' res. fnet_mempool_malloc mp nbytes = Some (mp', res)
     \<and> (res \<noteq> 0 \<longleftrightarrow> can_alloc (nunits_of (unit_size mp) nbytes) ts)"
proof -
  note R = repD [OF assms(1)]
  have "0 < nunits_of (unit_size mp) nbytes" using nunits_of_eq [OF R(1) assms(2)] by simp
  note M = malloc_refines [OF assms(1) refl this]
  have "a + (n + 1) * unit_size mp \<noteq> 0" for n using R(3) by simp
  then show ?thesis
    using M by (cases "can_alloc (nunits_of (unit_size mp) nbytes) ts") (auto split: if_splits)
qed

text \<open>\<^verbatim>\<open>_fnet_mempool_malloc_max\<close> is exact.\<close>

lemma malloc_max_exact:
  assumes "rep mp a ts" "fnet_mempool_malloc_max mp = Some m" "0 < m"
    and "nbytes + unit_size mp \<le> 4294967296"
  shows "\<exists>mp' res. fnet_mempool_malloc mp nbytes = Some (mp', res) \<and> (res \<noteq> 0 \<longleftrightarrow> nbytes \<le> m)"
proof -
  let ?u = "unit_size mp" and ?k = "nunits_of (unit_size mp) nbytes"
  let ?d = "if length (filter is_free ts) = 1 then 1 else 0 :: nat"
  note R = repD [OF assms(1)]
  obtain M where M: "Free M \<in> set ts" "\<forall>n. Free n \<in> set ts \<longrightarrow> n \<le> M"
      "fnet_mempool_malloc_max mp = Some ((M - 1 - ?d) * ?u)"
    using malloc_max_eq [OF assms(1)] by blast
  have m: "m = (M - 1 - ?d) * ?u" using M(3) assms(2) by simp
  have k: "?k = (nbytes + ?u - 1) div ?u + 1" by (rule nunits_of_eq [OF R(1) assms(4)])
  have "can_alloc ?k ts \<longleftrightarrow> ?k \<le> M - ?d"
  proof -
    have "0 < M - 1 - ?d" using assms(3) m by (metis mult_is_0 neq0_conv)
    moreover have "Free ?k \<in> set ts \<Longrightarrow> ?k \<le> M" using M(2) by blast
    ultimately show ?thesis unfolding can_alloc_iff [OF M(1,2)] by auto
  qed
  also have "\<dots> \<longleftrightarrow> (nbytes + ?u - 1) div ?u \<le> M - 1 - ?d"
  proof -
    have "0 < M - 1 - ?d" using assms(3) m by (metis mult_is_0 neq0_conv)
    then show ?thesis unfolding k by linarith
  qed
  also have "\<dots> \<longleftrightarrow> nbytes \<le> m" unfolding m by (rule ceil_le [OF R(2)])
  finally show ?thesis using malloc_result [OF assms(1,4)] by simp
qed

section \<open>Blocks in use\<close>

text \<open>The payloads handed out: address and number of usable bytes.\<close>

fun useds :: "nat \<Rightarrow> nat \<Rightarrow> tile list \<Rightarrow> (nat \<times> nat) list" where
  "useds u a [] = []"
| "useds u a (t # ts) =
     (if is_free t then [] else [(a + u, (tsize t - 1) * u)]) @ useds u (a + tsize t * u) ts"

lemma useds_append: "useds u a (xs @ ys) = useds u a xs @ useds u (a + units xs * u) ys"
  by (induction xs arbitrary: a) (auto simp: algebra_simps)

lemma useds_split:
  assumes "(p, n) \<in> set (useds u a ts)"
  obtains l k r where "ts = l @ Used k # r" "p = a + units l * u + u" "n = (k - 1) * u"
  using assms
proof (induction ts arbitrary: a thesis)
  case (Cons t ts)
  show ?case
  proof (cases "(p, n) \<in> set (useds u (a + tsize t * u) ts)")
    case True
    with Cons.IH obtain l k r where "ts = l @ Used k # r" "p = a + tsize t * u + units l * u + u"
      "n = (k - 1) * u" by blast
    then show ?thesis using Cons.prems(1) [of "t # l" k r] by (simp add: algebra_simps)
  next
    case False
    with Cons.prems(2) obtain k where "t = Used k" "p = a + u" "n = (k - 1) * u"
      by (cases t) auto
    then show ?thesis using Cons.prems(1) [of "[]" k ts] by simp
  qed
qed simp

lemma useds_bounds:
  assumes "(p, n) \<in> set (useds u a ts)" "\<forall>t\<in>set ts. 0 < tsize t"
  shows "a + u \<le> p" "p + n \<le> a + units ts * u"
proof -
  obtain l k r where ts: "ts = l @ Used k # r" and p: "p = a + units l * u + u" "n = (k - 1) * u"
    by (rule useds_split [OF assms(1)])
  then show "a + u \<le> p" by simp
  have "0 < k" using assms(2) ts by auto
  then have "u + n = k * u" using p(2) by (cases k) auto
  then have "p + n = a + (units l + k) * u" by (simp add: p algebra_simps)
  moreover have "(units l + k) * u \<le> units ts * u" by (rule mult_le_mono1) (simp add: ts)
  ultimately show "p + n \<le> a + units ts * u" by linarith
qed

lemma useds_disjoint:
  "\<forall>t\<in>set ts. 0 < tsize t \<Longrightarrow> sorted_wrt (\<lambda>(p, n) (q, m). p + n + u \<le> q) (useds u a ts)"
proof (induction ts arbitrary: a)
  case (Cons t ts)
  have "p + n + u \<le> q" if "(p, n) = (a + u, (tsize t - 1) * u)"
      "(q, m) \<in> set (useds u (a + tsize t * u) ts)" for p n q m
  proof -
    have "a + tsize t * u + u \<le> q" using useds_bounds(1) [OF that(2)] Cons.prems by simp
    moreover have "u + (tsize t - 1) * u = tsize t * u"
      using Cons.prems by (cases "tsize t") auto
    ultimately show ?thesis using that(1) by simp
  qed
  then show ?case using Cons by (auto split: prod.splits)
qed simp

text \<open>
  Writing into the payloads does not touch a header of the pool: the representation only depends
  on the headers in front of the payloads.
\<close>

lemma path_heap_cong:
  "\<lbrakk>path h p xs; \<forall>x\<in>set (p # xs). h' x = h x\<rbrakk> \<Longrightarrow> path h' p xs"
  by (induction xs arbitrary: p) auto

lemma tile_start:
  assumes "ts = l @ t # r" "\<forall>t\<in>set ts. 0 < tsize t" "0 < u" "8 \<le> u" "x = a + units l * u"
    and "(p, n) \<in> set (useds u a ts)"
  shows "\<not> (p < x + 8 \<and> x < p + n)"
proof -
  consider "(p, n) \<in> set (useds u a l)" | "(p, n) = (x + u, (tsize t - 1) * u)"
    | "(p, n) \<in> set (useds u (x + tsize t * u) r)"
    using assms(6) unfolding assms(1,5) useds_append by (auto split: if_splits)
  then show ?thesis
  proof cases
    case 1
    then have "p + n \<le> x" using useds_bounds(2) [OF 1] assms by simp
    then show ?thesis by simp
  next
    case 3
    then have "x + tsize t * u + u \<le> p" using useds_bounds(1) [OF 3] assms by simp
    then show ?thesis using assms(4) by simp
  qed (use assms(4) in simp)
qed

lemma sized_heap_cong:
  assumes "sized h u a ts" "\<And>l t r. ts = l @ t # r \<Longrightarrow> h' (a + units l * u) = h (a + units l * u)"
  shows "sized h' u a ts"
  using assms
proof (induction ts arbitrary: a)
  case (Cons t ts)
  have "h' a = h a" using Cons.prems(2) [of "[]" t ts] by simp
  moreover have "sized h' u (a + tsize t * u) ts"
  proof (rule Cons.IH)
    fix l t' r assume "ts = l @ t' # r"
    then show "h' (a + tsize t * u + units l * u) = h (a + tsize t * u + units l * u)"
      using Cons.prems(2) [of "t # l" t' r] by (simp add: algebra_simps)
  qed (use Cons.prems(1) in simp)
  ultimately show ?case using Cons.prems(1) by simp
qed simp

lemma write_rep:
  assumes "rep mp a ts"
    and "\<And>x. h x \<noteq> heap mp x \<Longrightarrow> \<exists>p n. (p, n) \<in> set (useds (unit_size mp) a ts) \<and> p < x + 8 \<and> x < p + n"
  shows "rep (mp\<lparr>heap := h\<rparr>) a ts"
proof -
  let ?u = "unit_size mp"
  note R = repD [OF assms(1)]
  have start: "h (a + units l * ?u) = heap mp (a + units l * ?u)" if "ts = l @ t # r" for l t r
    using assms(2) tile_start [OF that R(5,2,1) refl] by blast
  have fr: "h x = heap mp x" if "x \<in> set (frees ?u a ts)" for x
    using frees_split [OF that] start by metis
  have ne: "frees ?u a ts \<noteq> []" and pth: "path (heap mp) (last (frees ?u a ts)) (frees ?u a ts)"
    using R(8) by (simp_all add: ring_def)
  have "path h (last (frees ?u a ts)) (frees ?u a ts)"
    by (rule path_heap_cong [OF pth]) (use fr last_in_set [OF ne] in auto)
  with ne have "ring h (frees ?u a ts)" by (simp add: ring_def)
  moreover have "sized h ?u a ts" by (rule sized_heap_cong [OF R(7) start])
  ultimately show ?thesis using R by (simp add: rep_def)
qed

section \<open>The pool and its client\<close>

text \<open>
  What can happen to a pool: the client allocates, frees a block it holds, or writes into the
  payloads it holds. The second component is what the client holds: for each payload address the
  number of bytes it asked for. Requests stay below the size at which the code's rounding wraps
  around; see \<open>malloc_wraps\<close> for what happens beyond.
\<close>

type_synonym client = "mempool \<times> (nat \<rightharpoonup> nat)"

inductive pool_step :: "client \<Rightarrow> client \<Rightarrow> bool" where
  alloc: "\<lbrakk>fnet_mempool_malloc mp n = Some (mp', p); p \<noteq> 0; n + unit_size mp \<le> 4294967296\<rbrakk>
    \<Longrightarrow> pool_step (mp, B) (mp', B(p \<mapsto> n))"
| alloc_null: "\<lbrakk>fnet_mempool_malloc mp n = Some (mp', 0); n + unit_size mp \<le> 4294967296\<rbrakk>
    \<Longrightarrow> pool_step (mp, B) (mp', B)"
| release: "\<lbrakk>B p = Some n; fnet_mempool_free mp p = Some mp'\<rbrakk>
    \<Longrightarrow> pool_step (mp, B) (mp', B(p := None))"
| client_write: "\<lbrakk>\<And>x. h x \<noteq> heap mp x \<Longrightarrow> \<exists>p n. B p = Some n \<and> p < x + 8 \<and> x < p + n\<rbrakk>
    \<Longrightarrow> pool_step (mp, B) (mp\<lparr>heap := h\<rparr>, B)"

inductive_cases pool_stepE: "pool_step s s'"

inductive pool_reachable :: "client \<Rightarrow> client \<Rightarrow> bool" for s\<^sub>0 where
  start: "pool_reachable s\<^sub>0 s\<^sub>0"
| step: "\<lbrakk>pool_reachable s\<^sub>0 s; pool_step s s'\<rbrakk> \<Longrightarrow> pool_reachable s\<^sub>0 s'"

definition pool_inv :: "nat \<Rightarrow> nat \<Rightarrow> nat \<Rightarrow> client \<Rightarrow> bool" where
  "pool_inv u a N s =
     (\<exists>ts. rep (fst s) a ts \<and> unit_size (fst s) = u \<and> units ts = N
        \<and> dom (snd s) = fst ` set (useds u a ts)
        \<and> (\<forall>p m n. (p, m) \<in> set (useds u a ts) \<longrightarrow> snd s p = Some n \<longrightarrow> n \<le> m))"

lemma useds_join_right: "useds u (b + 0) (join_right k r) = useds u (b + k * u) r"
  by (cases "(k, r)" rule: join_right.cases) (simp_all add: algebra_simps)

lemma units_join_right: "units (join_right k r) = k + units r"
  by (cases "(k, r)" rule: join_right.cases) simp_all

lemma useds_tiles_free:
  "useds u a (tiles_free l k r) = useds u a l @ useds u (a + units l * u + k * u) r"
proof (cases "l \<noteq> [] \<and> is_free (last l)")
  case True
  then obtain l' m where "l = l' @ [Free m]" using last_free by blast
  then show ?thesis
    using useds_join_right [of u "a + units l' * u" "m + k" r]
    by (simp add: tiles_free_def useds_append algebra_simps)
next
  case False
  then show ?thesis
    using useds_join_right [of u "a + units l * u" k r]
    unfolding tiles_free_def if_not_P [OF False] by (simp add: useds_append)
qed

lemma units_tiles_free: "units (tiles_free l k r) = units l + k + units r"
proof (cases "l \<noteq> [] \<and> is_free (last l)")
  case True
  then obtain l' m where "l = l' @ [Free m]" using last_free by blast
  then show ?thesis by (simp add: tiles_free_def units_join_right)
next
  case False
  then show ?thesis unfolding tiles_free_def if_not_P [OF False] by (simp add: units_join_right)
qed

lemma tiles_malloc_useds:
  assumes "tiles_malloc k ts ts' n"
  obtains L R where "useds u a ts = L @ R" "useds u a ts' = L @ (a + (n + 1) * u, (k - 1) * u) # R"
    "units ts' = units ts"
  using assms
proof (cases rule: tiles_malloc.cases)
  case (split_block m l r)
  have "a + units l * u + m * u = a + units l * u + (m - k) * u + k * u"
    using split_block(5) by (simp flip: add_mult_distrib)
  then show ?thesis
    using split_block that [of "useds u a l" "useds u (a + units l * u + m * u) r"]
    by (simp add: useds_append algebra_simps)
next
  case (whole_block l r)
  then show ?thesis
    using that [of "useds u a l" "useds u (a + units l * u + k * u) r"]
    by (simp add: useds_append algebra_simps)
qed

lemma useds_keys: "(\<forall>t\<in>set ts. 0 < tsize t) \<Longrightarrow> 0 < u \<Longrightarrow> distinct (map fst (useds u a ts))"
proof (induction ts arbitrary: a)
  case (Cons t ts)
  have "0 < tsize t * u" using Cons.prems by simp
  then have "a + u \<notin> fst ` set (useds u (a + tsize t * u) ts)"
    using useds_bounds(1) Cons.prems by fastforce
  then show ?case using Cons by simp
qed simp

lemma nunits_bytes:
  "8 \<le> u \<Longrightarrow> n + u \<le> 4294967296 \<Longrightarrow> n \<le> (nunits_of u n - 1) * u"
  by (simp add: nunits_of_eq flip: ceil_le)

lemma pool_inv_alloc:
  assumes "pool_inv u a N (mp, B)" "fnet_mempool_malloc mp n = Some (mp', p)" "n + u \<le> 4294967296"
  shows "p \<noteq> 0 \<Longrightarrow> B p = None \<and> pool_inv u a N (mp', B(p \<mapsto> n))"
    and "p = 0 \<Longrightarrow> mp' = mp"
proof -
  obtain ts where ts: "rep mp a ts" "unit_size mp = u" "units ts = N" "dom B = fst ` set (useds u a ts)"
    and sz: "\<And>p m n. (p, m) \<in> set (useds u a ts) \<Longrightarrow> B p = Some n \<Longrightarrow> n \<le> m"
    using assms(1) by (auto simp: pool_inv_def)
  note R = repD [OF ts(1), unfolded ts(2)]
  let ?k = "nunits_of u n"
  have k: "0 < ?k" using nunits_of_eq [OF R(1) assms(3)] by simp
  note M = malloc_refines [OF ts(1) refl, unfolded ts(2), OF k]
  show "mp' = mp" if "p = 0"
    using M assms(2) that R(2) by (auto split: if_splits)
  assume "p \<noteq> 0"
  with M assms(2) have "can_alloc ?k ts" by (auto split: if_splits)
  with M assms(2) obtain ts' i where ts': "p = a + (i + 1) * u" "tiles_malloc ?k ts ts' i"
      "rep mp' a ts'" "unit_size mp' = u" by auto
  obtain L Q where LQ: "useds u a ts = L @ Q" "useds u a ts' = L @ (p, (?k - 1) * u) # Q"
      "units ts' = units ts" using tiles_malloc_useds [OF ts'(2)] unfolding ts'(1) by blast
  have "distinct (map fst (useds u a ts'))"
    by (rule useds_keys) (use repD [OF ts'(3)] ts'(4) in auto)
  then have fresh: "p \<notin> fst ` set (L @ Q)" unfolding LQ(2) by auto
  then have "p \<notin> dom B" using ts(4) LQ(1) by simp
  moreover have "pool_inv u a N (mp', B(p \<mapsto> n))"
    unfolding pool_inv_def fst_conv snd_conv
  proof (intro exI [of _ ts'] conjI allI impI)
    show "dom (B(p \<mapsto> n)) = fst ` set (useds u a ts')" using ts(4) by (auto simp: LQ)
    fix q m n' assume q: "(q, m) \<in> set (useds u a ts')" "(B(p \<mapsto> n)) q = Some n'"
    show "n' \<le> m"
    proof (cases "q = p")
      case True
      then have "m = (?k - 1) * u" using q(1) fresh unfolding LQ(2) by force
      then show ?thesis using q(2) True nunits_bytes [OF R(1) assms(3)] by simp
    next
      case False
      then show ?thesis using q sz by (auto simp: LQ)
    qed
  qed (use ts ts' LQ in auto)
  ultimately show "B p = None \<and> pool_inv u a N (mp', B(p \<mapsto> n))" by auto
qed

lemma pool_inv_free:
  assumes "pool_inv u a N (mp, B)" "B p = Some n"
  shows "\<exists>mp'. fnet_mempool_free mp p = Some mp' \<and> pool_inv u a N (mp', B(p := None))"
proof -
  obtain ts where ts: "rep mp a ts" "unit_size mp = u" "units ts = N" "dom B = fst ` set (useds u a ts)"
    and sz: "\<And>p m n. (p, m) \<in> set (useds u a ts) \<Longrightarrow> B p = Some n \<Longrightarrow> n \<le> m"
    using assms(1) by (auto simp: pool_inv_def)
  note R = repD [OF ts(1), unfolded ts(2)]
  have "p \<in> fst ` set (useds u a ts)" using assms(2) unfolding ts(4) [symmetric] by auto
  then obtain m where "(p, m) \<in> set (useds u a ts)" by auto
  then obtain l k r where tl: "ts = l @ Used k # r" and p: "p = a + units l * u + u"
    by (rule useds_split)
  let ?ts = "tiles_free l k r"
  obtain mp' where mp': "fnet_mempool_free mp p = Some mp'" "rep mp' a ?ts" "unit_size mp' = u"
    using free_refines [OF ts(1) [unfolded tl] refl] ts(2) p by auto
  have us: "useds u a ts = useds u a l @ (p, (k - 1) * u) # useds u (a + units l * u + k * u) r"
    by (simp add: tl p useds_append)
  have us': "useds u a ?ts = useds u a l @ useds u (a + units l * u + k * u) r"
    by (rule useds_tiles_free)
  have "distinct (map fst (useds u a ts))" by (rule useds_keys [OF R(5,2)])
  then have "p \<notin> fst ` set (useds u a ?ts)" unfolding us us' by auto
  then have "dom (B(p := None)) = fst ` set (useds u a ?ts)" using ts(4) unfolding us us' by auto
  moreover have "units ?ts = N" using ts(3) by (simp add: units_tiles_free tl)
  moreover have "n' \<le> m'" if "(q, m') \<in> set (useds u a ?ts)" "(B(p := None)) q = Some n'" for q m' n'
    using sz [of q m' n'] that unfolding us us' by (auto split: if_splits)
  ultimately have "pool_inv u a N (mp', B(p := None))"
    using mp'(2,3) by (auto simp: pool_inv_def)
  with mp'(1) show ?thesis by blast
qed

lemma pool_inv_step:
  assumes "pool_step s s'" "pool_inv u a N s"
  shows "pool_inv u a N s'"
  using assms
proof cases
  case (alloc mp n mp' p B)
  then have "unit_size mp = u" using assms(2) by (auto simp: pool_inv_def)
  with alloc assms(2) pool_inv_alloc(1) [of u a N mp B n mp' p] show ?thesis by simp
next
  case (alloc_null mp n mp' B)
  then have "unit_size mp = u" using assms(2) by (auto simp: pool_inv_def)
  with alloc_null assms(2) pool_inv_alloc(2) [of u a N mp B n mp' 0] show ?thesis by simp
next
  case (release B p n mp mp')
  with assms(2) pool_inv_free [of u a N mp B p n] show ?thesis by auto
next
  case (client_write h mp B)
  then obtain ts where ts: "rep mp a ts" "unit_size mp = u" "units ts = N" "dom B = fst ` set (useds u a ts)"
    and sz: "\<And>p m n. (p, m) \<in> set (useds u a ts) \<Longrightarrow> B p = Some n \<Longrightarrow> n \<le> m"
    using assms(2) by (auto simp: pool_inv_def)
  have "rep (mp\<lparr>heap := h\<rparr>) a ts"
  proof (rule write_rep [OF ts(1)])
    fix x assume "h x \<noteq> heap mp x"
    then obtain p n where w: "B p = Some n" "p < x + 8" "x < p + n" using client_write(3) by blast
    then have "p \<in> fst ` set (useds u a ts)" unfolding ts(4) [symmetric] by auto
    then obtain m where m: "(p, m) \<in> set (useds u a ts)" by auto
    with sz w(1) have "n \<le> m" by blast
    with w m show "\<exists>p n. (p, n) \<in> set (useds (unit_size mp) a ts) \<and> p < x + 8 \<and> x < p + n"
      unfolding ts(2) by (meson less_le_trans add_left_mono)
  qed
  then show ?thesis using client_write ts(2-4) sz by (auto simp: pool_inv_def)
qed

lemma pool_inv_reachable:
  "pool_reachable s\<^sub>0 s \<Longrightarrow> pool_inv u a N s\<^sub>0 \<Longrightarrow> pool_inv u a N s"
  by (induction rule: pool_reachable.induct) (auto intro: pool_inv_step)

section \<open>A fresh pool\<close>

lemma align_mask:
  "unat (w AND NOT (mask k) :: u32) = unat w div 2 ^ k * 2 ^ k"
proof -
  have "w AND NOT (mask k) = push_bit k (drop_bit k w)"
    by (rule bit_word_eqI) (auto simp: bit_simps dest: bit_imp_le_length)
  moreover have "unat w div 2 ^ k * 2 ^ k < 4294967296"
    using div_times_less_eq_dividend [of "unat w" "2 ^ k"] word32_lt [of w] by linarith
  moreover have "unat (push_bit k (drop_bit k w)) = take_bit 32 (unat w div 2 ^ k * 2 ^ k)"
    by (simp only: unsigned_push_bit_eq unat_drop_bit_div) (simp add: push_bit_eq_mult)
  ultimately show ?thesis by (simp add: take_bit_nat_eq_self)
qed

lemma align_div:
  assumes "d = 2 ^ k" "k < 32" "0 < x" "x + d \<le> 4294967296"
  shows "x \<le> FNET_ALIGN_DIV x d" "FNET_ALIGN_DIV x d < x + d" "d dvd FNET_ALIGN_DIV x d"
proof -
  have m: "of_nat d - 1 = (mask k :: u32)" by (simp add: mask_eq_exp_minus_1 assms(1))
  have "0 < d" by (simp add: assms(1))
  have "unat (of_nat x + (of_nat d - 1) :: u32) = x + d - 1"
  proof -
    have "of_nat x + (of_nat d - 1) = (of_nat (x + d - 1) :: u32)" using \<open>0 < d\<close> by (simp add: of_nat_diff)
    moreover have "x + d - 1 < 4294967296" using assms(3,4) by linarith
    ultimately show ?thesis by (simp add: unat_of_nat del: of_nat_diff)
  qed
  then have e: "FNET_ALIGN_DIV x d = (x + d - 1) div d * d"
    unfolding FNET_ALIGN_DIV_def using m align_mask [of "of_nat x + (of_nat d - 1)" k]
    by (simp add: assms(1))
  have s: "x + d - 1 = (x + d - 1) div d * d + (x + d - 1) mod d" by simp
  moreover have "(x + d - 1) mod d < d" using \<open>0 < d\<close> by simp
  ultimately show "x \<le> FNET_ALIGN_DIV x d" "FNET_ALIGN_DIV x d < x + d"
    unfolding e using assms(3) by linarith+
  show "d dvd FNET_ALIGN_DIV x d" unfolding e by simp
qed

text \<open>
  \<^verbatim>\<open>_fnet_mempool_init\<close>: the pool it makes has one free block, inside the memory it was
  given; for smaller memory than required here the block can have zero units.
\<close>

lemma init_inv:
  assumes "fnet_mempool_init mem pool_ptr pool_size al = Some mp"
    and al: "al \<in> {8, 16, 32, 64}" and size: "11 + 2 * al \<le> pool_size" "pool_ptr + pool_size < 4294967296"
  obtains a N where "pool_inv al a N (mp, Map.empty)" "rep mp a [Free N]"
    "pool_ptr + 8 \<le> a" "a + N * al \<le> pool_ptr + pool_size" "al dvd a"
proof -
  let ?m = "FNET_ALIGN_DIV pool_ptr 4"
  let ?a = "FNET_ALIGN_DIV (w32 (?m + 8)) al"
  let ?s = "w32 (pool_size + 4294967296 - w32 (?a + 4294967296 - pool_ptr))"
  from al obtain k where k: "al = 2 ^ k" "k < 32"
  proof -
    have "al = 2 ^ 3 \<or> al = 2 ^ 4 \<or> al = 2 ^ 5 \<or> al = 2 ^ 6" using al by auto
    then show ?thesis using that by fastforce
  qed
  have ge8: "8 \<le> al" "al \<le> 64" using al by auto
  have ptr: "pool_ptr \<noteq> 0"
    using assms(1) unfolding fnet_mempool_init_def Let_def by (metis option.distinct(1))
  have "(al - 1) + (8 + 4) < pool_size" using size ge8 by linarith
  with ptr have c: "pool_ptr \<noteq> 0 \<and> (al - 1) + (8 + 4) < pool_size" by blast
  have na: "\<not> al < 8" using ge8 by simp
  have mp: "mp = \<lparr>free_ptr = ?a, unit_size = al, heap = mem(?a := \<lparr>u_size = ?s div al, u_ptr = ?a\<rparr>)\<rparr>"
    using assms(1) unfolding fnet_mempool_init_def Let_def if_not_P [OF na] if_P [OF c]
    by (simp only: option.inject)
  have "0 < pool_ptr" "pool_ptr + 4 \<le> 4294967296" using ptr size(2) ge8 size(1) by linarith+
  then have m: "pool_ptr \<le> ?m" "?m < pool_ptr + 4"
    using align_div(1,2) [of 4 2 pool_ptr] by simp_all
  have m8: "?m + 8 + al \<le> 4294967296" "0 < ?m + 8" using m size ge8 by linarith+
  then have w: "w32 (?m + 8) = ?m + 8" using ge8 by (intro mod_less) linarith
  have e: "FNET_ALIGN_DIV (?m + 8) al = ?a" by (simp only: w)
  note a = align_div [OF k m8(2,1), unfolded e]
  define off where "off = ?a - pool_ptr"
  have off: "?a = pool_ptr + off" "off \<le> 10 + al" "8 \<le> off"
    using a(1,2) m unfolding off_def by linarith+
  have "off < 4294967296" using off(2) ge8(2) by linarith
  then have "w32 (?a + 4294967296 - pool_ptr) = off" unfolding off(1) by simp
  moreover have "pool_size + 4294967296 - off = (pool_size - off) + 4294967296"
      "pool_size - off < 4294967296" using off size by linarith+
  ultimately have s: "?s = pool_size - off" by (simp only: mod_add_self2 mod_less)
  define N where "N = (pool_size - off) div al"
  have "al \<le> pool_size - off" using off size by linarith
  then have N: "0 < N" "N * al \<le> pool_size - off"
    using ge8 by (simp_all add: N_def div_greater_zero_iff)
  have top: "?a + N * al \<le> pool_ptr + pool_size" using N(2) off size by linarith
  define b where "b = ?a"
  have mp': "mp = \<lparr>free_ptr = b, unit_size = al, heap = mem(b := \<lparr>u_size = N, u_ptr = b\<rparr>)\<rparr>"
    using mp unfolding s N_def b_def .
  have bb: "0 < b" "b + N * al < 4294967296" "pool_ptr + 8 \<le> b"
    using top size off by (simp_all add: b_def)
  have rep: "rep mp b [Free N]" using bb ge8 N(1) by (simp add: rep_def mp' ring_def)
  moreover have "pool_inv al b N (mp, Map.empty)"
    unfolding pool_inv_def by (intro exI [of _ "[Free N]"]) (use rep in \<open>simp add: mp'\<close>)
  ultimately show ?thesis using that a(3) top bb(3) unfolding b_def by blast
qed

section \<open>Properties\<close>

text \<open>The memory the stack gives to the pool, and a run used by the witnesses below.\<close>

definition sample_pool :: mempool where
  "sample_pool = \<lparr>free_ptr = 4128, unit_size = 32, heap = (\<lambda>x. \<lparr>u_size = 0, u_ptr = 0\<rparr>)(4128 := \<lparr>u_size = 31, u_ptr = 4128\<rparr>)\<rparr>"

lemma sample_init: "fnet_mempool_init (\<lambda>x. \<lparr>u_size = 0, u_ptr = 0\<rparr>) 4096 1024 32 = Some sample_pool"
proof -
  have "FNET_ALIGN_DIV 4096 4 = 4096" "FNET_ALIGN_DIV 4104 32 = 4128" by (simp_all add: FNET_ALIGN_DIV_def)
  then show ?thesis by (simp add: fnet_mempool_init_def sample_pool_def)
qed

lemma sample_rep: "rep sample_pool 4128 [Free 31]"
  by (simp add: sample_pool_def rep_def ring_def)

definition sample_pool2 :: mempool where
  "sample_pool2 = sample_pool\<lparr>heap := (heap sample_pool)(4128 := \<lparr>u_size = 26, u_ptr = 4128\<rparr>, 4960 := \<lparr>u_size = 5, u_ptr = 0\<rparr>)\<rparr>"

lemma sample_malloc: "fnet_mempool_malloc sample_pool 100 = Some (sample_pool2, 4992)"
proof -
  have "best_find (heap sample_pool) 4128 5 4128 4128 4128 0 = Some (4128, 4128)"
    by (subst best_find.simps) (simp add: sample_pool_def)
  then show ?thesis
    by (simp add: fnet_mempool_malloc_def nunits_of_def sample_pool2_def sample_pool_def Let_def fun_eq_iff)
qed

lemma sample_reachable: "pool_reachable (sample_pool, Map.empty) (sample_pool2, [4992 \<mapsto> 100])"
  by (rule pool_reachable.step [OF pool_reachable.start alloc [OF sample_malloc]])
    (simp_all add: sample_pool_def)

text \<open>
  C11. Safety of the pool: whatever sequence of allocations, releases and writes into held blocks
  follows the initialisation, the blocks the client holds are pairwise disjoint, lie inside the
  memory given to the pool and are aligned to the pool's alignment; the release of a held block
  always returns.
\<close>

theorem mempool_safety:
  assumes "fnet_mempool_init mem pool_ptr pool_size al = Some mp\<^sub>0"
    and "al \<in> {8, 16, 32, 64}" "11 + 2 * al \<le> pool_size" "pool_ptr + pool_size < 4294967296"
    and "pool_reachable (mp\<^sub>0, Map.empty) (mp, B)"
    and "B p = Some n"
  shows "pool_ptr + 8 \<le> p \<and> p + n \<le> pool_ptr + pool_size \<and> al dvd p
     \<and> (\<forall>q m. B q = Some m \<longrightarrow> q \<noteq> p \<longrightarrow> p + n + al \<le> q \<or> q + m + al \<le> p)
     \<and> (\<exists>mp'. fnet_mempool_free mp p = Some mp')"
proof -
  obtain a N where inv: "pool_inv al a N (mp\<^sub>0, Map.empty)" and a: "pool_ptr + 8 \<le> a"
      "a + N * al \<le> pool_ptr + pool_size" "al dvd a"
    using init_inv [OF assms(1-4)] by metis
  from pool_inv_reachable [OF assms(5) inv] have inv': "pool_inv al a N (mp, B)" .
  then obtain ts where ts: "rep mp a ts" "unit_size mp = al" "units ts = N" "dom B = fst ` set (useds al a ts)"
    and sz: "\<And>p m n. (p, m) \<in> set (useds al a ts) \<Longrightarrow> B p = Some n \<Longrightarrow> n \<le> m"
    by (auto simp: pool_inv_def)
  note R = repD [OF ts(1), unfolded ts(2)]
  have held: "\<exists>m'. (q, m') \<in> set (useds al a ts) \<and> m \<le> m'" if "B q = Some m" for q m
  proof -
    have "q \<in> fst ` set (useds al a ts)" using that unfolding ts(4) [symmetric] by auto
    then obtain m' where "(q, m') \<in> set (useds al a ts)" by auto
    with sz [OF this that] show ?thesis by blast
  qed
  obtain n' where n': "(p, n') \<in> set (useds al a ts)" "n \<le> n'" using held [OF assms(6)] by blast
  have "p + n' \<le> a + N * al" "a + al \<le> p" using useds_bounds [OF n'(1) R(5)] ts(3) by simp_all
  moreover have "al dvd p"
  proof -
    obtain l where "p = a + units l * al + al" by (rule useds_split [OF n'(1)])
    then show ?thesis using a(3) by simp
  qed
  moreover have "p + n + al \<le> q \<or> q + m + al \<le> p" if q: "B q = Some m" "q \<noteq> p" for q m
  proof -
    obtain m' where m': "(q, m') \<in> set (useds al a ts)" "m \<le> m'" using held [OF q(1)] by blast
    obtain i j where ij: "i < length (useds al a ts)" "useds al a ts ! i = (p, n')"
        "j < length (useds al a ts)" "useds al a ts ! j = (q, m')"
      using n'(1) m'(1) by (meson in_set_conv_nth)
    then have "i \<noteq> j" using q(2) by auto
    then have "p + n' + al \<le> q \<or> q + m' + al \<le> p"
      using sorted_wrt_nth_less [OF useds_disjoint [OF R(5)], of i j al a]
        sorted_wrt_nth_less [OF useds_disjoint [OF R(5)], of j i al a] ij
      by (cases "i < j") auto
    with n'(2) m'(2) show ?thesis by linarith
  qed
  ultimately show ?thesis using a n'(2) pool_inv_free [OF inv' assms(6)] by (auto simp: add.commute)
qed

lemma mempool_safety_witness:
  "4096 + 8 \<le> (4992 :: nat) \<and> 4992 + 100 \<le> (4096 + 1024 :: nat) \<and> (32 :: nat) dvd 4992
     \<and> (\<exists>mp'. fnet_mempool_free sample_pool2 4992 = Some mp')"
  using mempool_safety [OF sample_init _ _ _ sample_reachable, of 4992 100] by simp

text \<open>
  C12. \<^verbatim>\<open>_fnet_mempool_malloc\<close>, as the pointer-following code, refines allocation on
  the list of tiles: it always returns; it fails exactly when no free block is larger than the
  request and the only block of the exact size is the last free block; otherwise it takes the upper
  end of a smallest sufficient block and returns the address behind its header.
\<close>

theorem mempool_malloc_refines:
  assumes "rep mp a ts" "nbytes + unit_size mp \<le> 4294967296"
  shows "if can_alloc (nunits_of (unit_size mp) nbytes) ts
         then \<exists>mp' ts' n. fnet_mempool_malloc mp nbytes = Some (mp', a + (n + 1) * unit_size mp)
                \<and> tiles_malloc (nunits_of (unit_size mp) nbytes) ts ts' n \<and> rep mp' a ts'
                \<and> nbytes \<le> (nunits_of (unit_size mp) nbytes - 1) * unit_size mp
         else fnet_mempool_malloc mp nbytes = Some (mp, 0)"
proof -
  note R = repD [OF assms(1)]
  have "0 < nunits_of (unit_size mp) nbytes" using nunits_of_eq [OF R(1) assms(2)] by simp
  note M = malloc_refines [OF assms(1) refl this]
  then show ?thesis using nunits_bytes [OF R(1) assms(2)]
    by (cases "can_alloc (nunits_of (unit_size mp) nbytes) ts") (auto split: if_splits)
qed

lemma mempool_malloc_refines_witness:
  "if can_alloc (nunits_of (unit_size sample_pool) 100) [Free 31]
   then \<exists>mp' ts' n. fnet_mempool_malloc sample_pool 100 = Some (mp', 4128 + (n + 1) * unit_size sample_pool)
          \<and> tiles_malloc (nunits_of (unit_size sample_pool) 100) [Free 31] ts' n \<and> rep mp' 4128 ts'
          \<and> 100 \<le> (nunits_of (unit_size sample_pool) 100 - 1) * unit_size sample_pool
   else fnet_mempool_malloc sample_pool 100 = Some (sample_pool, 0)"
  by (rule mempool_malloc_refines [OF sample_rep]) (simp add: sample_pool_def)

text \<open>
  C13. \<^verbatim>\<open>_fnet_mempool_free\<close> of a block in use refines freeing on the list of tiles:
  the search for its place ends, and the block is joined with the free neighbours on both sides.
\<close>

theorem mempool_free_refines:
  assumes "rep mp a (l @ Used k # r)"
  shows "\<exists>mp'. fnet_mempool_free mp (a + units l * unit_size mp + unit_size mp) = Some mp'
           \<and> rep mp' a (tiles_free l k r) \<and> unit_size mp' = unit_size mp"
  by (rule free_refines [OF assms refl])

lemma sample_rep2: "rep sample_pool2 4128 ([Free 26] @ Used 5 # [])"
  by (simp add: sample_pool2_def sample_pool_def rep_def ring_def)

lemma mempool_free_refines_witness:
  "\<exists>mp'. fnet_mempool_free sample_pool2 (4128 + units [Free 26] * unit_size sample_pool2 + unit_size sample_pool2) = Some mp'
     \<and> rep mp' 4128 (tiles_free [Free 26] 5 []) \<and> unit_size mp' = unit_size sample_pool2"
  by (rule mempool_free_refines [OF sample_rep2])

lemma rep_one_free: "rep mp a [Free N] \<Longrightarrow> free_ptr mp = a \<and> heap mp a = \<lparr>u_size = N, u_ptr = a\<rparr>"
  by (cases "heap mp a") (auto simp: rep_def ring_def)

lemma pool_inv_empty:
  assumes "pool_inv al a N (mp, Map.empty)"
  shows "free_ptr mp = a \<and> heap mp a = \<lparr>u_size = N, u_ptr = a\<rparr> \<and> unit_size mp = al"
proof -
  obtain ts where ts: "rep mp a ts" "unit_size mp = al" "units ts = N" "useds al a ts = []"
    using assms by (auto simp: pool_inv_def)
  note R = repD [OF ts(1), unfolded ts(2)]
  have "is_free t" if t: "t \<in> set ts" for t
  proof (rule ccontr)
    assume "\<not> is_free t"
    then obtain k where "t = Used k" by (cases t) auto
    moreover obtain l r where "ts = l @ t # r" using t by (meson split_list)
    ultimately show False using ts(4) by (simp add: useds_append)
  qed
  then have "ts = [Free N]"
    using R(6,8) ts(3) by (cases ts rule: coalesced.cases) (auto simp: ring_def elim: is_free.elims)
  then show ?thesis using rep_one_free [of mp a N] ts(1,2) by simp
qed

text \<open>
  C14. Nothing is lost to fragmentation: when the client has released every block it held, the pool
  is again the one free block it was after its initialisation.
\<close>

theorem mempool_no_leak:
  assumes "fnet_mempool_init mem pool_ptr pool_size al = Some mp\<^sub>0"
    and "al \<in> {8, 16, 32, 64}" "11 + 2 * al \<le> pool_size" "pool_ptr + pool_size < 4294967296"
    and "pool_reachable (mp\<^sub>0, Map.empty) (mp, Map.empty)"
  shows "free_ptr mp = free_ptr mp\<^sub>0 \<and> heap mp (free_ptr mp) = heap mp\<^sub>0 (free_ptr mp\<^sub>0)
     \<and> unit_size mp = al"
proof -
  obtain a N where inv: "pool_inv al a N (mp\<^sub>0, Map.empty)" and rep0: "rep mp\<^sub>0 a [Free N]"
    using init_inv [OF assms(1-4)] by metis
  from pool_inv_reachable [OF assms(5) inv] have "pool_inv al a N (mp, Map.empty)" .
  from pool_inv_empty [OF this] rep_one_free [OF rep0] show ?thesis by simp
qed

definition sample_freed :: mempool where
  "sample_freed = sample_pool2\<lparr>heap := (heap sample_pool2)(4960 := \<lparr>u_size = 5, u_ptr = 4128\<rparr>,
     4128 := \<lparr>u_size = 31, u_ptr = 4128\<rparr>)\<rparr>"

lemma sample_free: "fnet_mempool_free sample_pool2 4992 = Some sample_freed"
proof -
  have "free_find (heap sample_pool2) 4960 4128 = Some 4128"
    by (subst free_find.simps) (simp add: sample_pool2_def sample_pool_def)
  then show ?thesis
    by (simp add: fnet_mempool_free_def free_upper_def free_lower_def sample_freed_def
        sample_pool2_def sample_pool_def Let_def fun_eq_iff)
qed

lemma sample_freed_reachable: "pool_reachable (sample_pool, Map.empty) (sample_freed, Map.empty)"
proof -
  have "pool_step (sample_pool2, [4992 \<mapsto> 100]) (sample_freed, [4992 \<mapsto> 100 :: nat](4992 := None))"
    by (rule release [OF _ sample_free]) simp
  then have "pool_step (sample_pool2, [4992 \<mapsto> 100]) (sample_freed, Map.empty)" by simp
  then show ?thesis by (rule pool_reachable.step [OF sample_reachable])
qed

lemma mempool_no_leak_witness:
  "free_ptr sample_freed = free_ptr sample_pool
     \<and> heap sample_freed (free_ptr sample_freed) = heap sample_pool (free_ptr sample_pool)
     \<and> unit_size sample_freed = 32"
  by (rule mempool_no_leak [OF sample_init _ _ _ sample_freed_reachable]) simp_all

text \<open>
  C15. \<^verbatim>\<open>_fnet_mempool_malloc_max\<close> is exact: when it reports \<open>m > 0\<close> bytes, a
  request succeeds if and only if it asks for at most \<open>m\<close> bytes.
\<close>

theorem mempool_malloc_max_exact:
  assumes "rep mp a ts" "fnet_mempool_malloc_max mp = Some m" "0 < m"
    and "nbytes + unit_size mp \<le> 4294967296"
  shows "\<exists>mp' res. fnet_mempool_malloc mp nbytes = Some (mp', res) \<and> (res \<noteq> 0 \<longleftrightarrow> nbytes \<le> m)"
  by (rule malloc_max_exact [OF assms])

lemma mempool_malloc_max_exact_witness:
  "\<exists>mp' res. fnet_mempool_malloc sample_pool 929 = Some (mp', res) \<and> (res \<noteq> 0 \<longleftrightarrow> 929 \<le> (928 :: nat))"
proof (rule mempool_malloc_max_exact [OF sample_rep])
  show "fnet_mempool_malloc_max sample_pool = Some 928"
    by (simp add: fnet_mempool_malloc_max_def sample_pool_def max_loop.simps)
qed (simp_all add: sample_pool_def)

text \<open>
  The rounding wraps around: a request of more than \<open>2^32\<close> minus one unit bytes is served
  like a request of zero bytes, so the caller gets a block that holds none of what it asked for.
\<close>

lemma mempool_malloc_wraps:
  assumes "8 \<le> unit_size mp" "4294967296 < nbytes + unit_size mp" "nbytes < 4294967296"
  shows "fnet_mempool_malloc mp nbytes = fnet_mempool_malloc mp 0"
proof -
  have e: "nbytes + unit_size mp - 1 = (nbytes + unit_size mp - 1 - 4294967296) + 4294967296"
    "nbytes + unit_size mp - 1 - 4294967296 < unit_size mp" using assms by linarith+
  show ?thesis
  proof (cases "unit_size mp < 4294967296")
    case True
    then have "nbytes + unit_size mp - 1 - 4294967296 < 4294967296" using e(2) by linarith
    then have "w32 (nbytes + unit_size mp - 1) = nbytes + unit_size mp - 1 - 4294967296"
      using e(1) by (metis mod_add_self2 mod_less)
    then have "nunits_of (unit_size mp) nbytes = 1" using e(2) by (simp add: nunits_of_def)
    moreover have "nunits_of (unit_size mp) 0 = 1" using assms(1) True by (simp add: nunits_of_def)
    ultimately show ?thesis by (simp add: fnet_mempool_malloc_def)
  next
    case False
    have "w32 (nbytes + unit_size mp - 1) < unit_size mp" "w32 (0 + unit_size mp - 1) < unit_size mp"
      using False mod_less_divisor [of 4294967296] by (meson less_le_trans not_less zero_less_numeral)+
    then have "nunits_of (unit_size mp) nbytes = nunits_of (unit_size mp) 0"
      by (simp add: nunits_of_def)
    then show ?thesis by (simp add: fnet_mempool_malloc_def)
  qed
qed

lemma mempool_malloc_wraps_sample:
  "fnet_mempool_malloc sample_pool 4294967280 = fnet_mempool_malloc sample_pool 0"
  by (rule mempool_malloc_wraps) (simp_all add: sample_pool_def)

end
