(* ===== verification/Fnet_Netbuf.thy ===== *)
theory Fnet_Netbuf
  imports Fnet_Memcpy Fnet_Mempool "HOL-Library.Multiset"
begin

text \<open>
  The net buffers of \<^verbatim>\<open>FNET/src/stack/fnet_netbuf.c\<close>: chains of descriptors over
  reference-counted data buffers, with the operations every protocol of the stack uses on packets.

  A chain is the list of its descriptors (\<^verbatim>\<open>next\<close>), a queue the list of its chains
  (\<^verbatim>\<open>next_chain\<close>); descriptors are never shared between chains. Data buffers are shared,
  so they live in a store indexed by the address of the buffer. The memory comes from an allocator,
  which is an argument of the operations: its contract is the locale \<open>block_allocator\<close>, and the
  memory pool of \<^verbatim>\<open>fnet_mempool.c\<close> satisfies it. \<open>None\<close> is a memory fault: the
  access through a null pointer, the access behind the end of a data buffer, or an allocator that
  does not return.
\<close>

section \<open>Descriptors, data buffers, the state\<close>

record netbuf =
  nb_addr :: nat
  nb_data :: nat
  nb_off :: nat
  nb_length :: nat
  nb_total_length :: nat
  nb_flags :: u32

text \<open>
  \<open>nb_off\<close> is \<^verbatim>\<open>data_ptr\<close>, counted from the byte behind the reference counter;
  \<open>refs\<close> is that counter, \<open>bytes\<close> what follows it.
\<close>

record data_buf =
  refs :: nat
  bytes :: "u8 list"

text \<open>\<open>raw\<close> is what memory holds before anything is written to it.\<close>

record 'p nbs =
  pool :: 'p
  bufs :: "nat \<rightharpoonup> data_buf"
  raw :: "nat \<Rightarrow> u8"

record 'p allocator =
  a_malloc :: "'p \<Rightarrow> nat \<Rightarrow> ('p \<times> nat) option"
  a_free :: "'p \<Rightarrow> nat \<Rightarrow> 'p option"

type_synonym ('p, 'z) drain = "('p, 'z) nbs_scheme \<Rightarrow> ('p, 'z) nbs_scheme option"

definition FNET_NETBUF_COPYALL :: nat where
  "FNET_NETBUF_COPYALL = 4294967295"

text \<open>\<^verbatim>\<open>sizeof(fnet_netbuf_t)\<close>: seven words.\<close>

definition sizeof_netbuf :: nat where
  "sizeof_netbuf = 28"

definition fnet_malloc_netbuf :: "'p allocator \<Rightarrow> ('p, 'z) nbs_scheme \<Rightarrow> nat \<Rightarrow> (('p, 'z) nbs_scheme \<times> nat) option" where
  "fnet_malloc_netbuf A s n = do { (p, a) \<leftarrow> a_malloc A (pool s) n; Some (s\<lparr>pool := p\<rparr>, a) }"

definition fnet_free_netbuf :: "'p allocator \<Rightarrow> ('p, 'z) nbs_scheme \<Rightarrow> nat \<Rightarrow> ('p, 'z) nbs_scheme option" where
  "fnet_free_netbuf A s a = do { p \<leftarrow> a_free A (pool s) a; Some (s\<lparr>pool := p\<rparr>) }"

text \<open>\<^verbatim>\<open>_fnet_prot_drain\<close> asks the protocols to give memory back; then one more try.\<close>

definition malloc_drain :: "'p allocator \<Rightarrow> ('p, 'z) drain \<Rightarrow> ('p, 'z) nbs_scheme \<Rightarrow> nat \<Rightarrow> bool \<Rightarrow> (('p, 'z) nbs_scheme \<times> nat) option" where
  "malloc_drain A dr s n drain =
     do {
       (s, a) \<leftarrow> fnet_malloc_netbuf A s n;
       if a = 0 \<and> drain then do { s \<leftarrow> dr s; fnet_malloc_netbuf A s n } else Some (s, a)
     }"

definition raw_bytes :: "('p, 'z) nbs_scheme \<Rightarrow> nat \<Rightarrow> nat \<Rightarrow> u8 list" where
  "raw_bytes s a n = map (\<lambda>i. raw s (a + i)) [0..<n]"

definition raw_word :: "('p, 'z) nbs_scheme \<Rightarrow> nat \<Rightarrow> nat" where
  "raw_word s a = unat (raw s a) + 256 * unat (raw s (a + 1)) + 65536 * unat (raw s (a + 2))
     + 16777216 * unat (raw s (a + 3))"

definition new_data :: "('p, 'z) nbs_scheme \<Rightarrow> nat \<Rightarrow> nat \<Rightarrow> ('p, 'z) nbs_scheme" where
  "new_data s d len = s\<lparr>bufs := (bufs s)(d \<mapsto> \<lparr>refs = 1, bytes = raw_bytes s (d + 4) len\<rparr>)\<rparr>"

text \<open>Reads and writes of a run of bytes inside one data buffer.\<close>

definition read_data :: "('p, 'z) nbs_scheme \<Rightarrow> nat \<Rightarrow> nat \<Rightarrow> nat \<Rightarrow> u8 list option" where
  "read_data s d i n =
     do {
       b \<leftarrow> bufs s d;
       if i + n \<le> length (bytes b) then Some (take n (drop i (bytes b))) else None
     }"

definition write_data :: "('p, 'z) nbs_scheme \<Rightarrow> nat \<Rightarrow> nat \<Rightarrow> u8 list \<Rightarrow> ('p, 'z) nbs_scheme option" where
  "write_data s d i xs =
     do {
       b \<leftarrow> bufs s d;
       if i + length xs \<le> length (bytes b)
       then Some (s\<lparr>bufs := (bufs s)(d \<mapsto>
              b\<lparr>bytes := take i (bytes b) @ xs @ drop (i + length xs) (bytes b)\<rparr>)\<rparr>)
       else None
     }"

text \<open>\<^verbatim>\<open>fnet_memcpy\<close> inside one data buffer, where source and destination may overlap.\<close>

definition move_data :: "('p, 'z) nbs_scheme \<Rightarrow> nat \<Rightarrow> nat \<Rightarrow> nat \<Rightarrow> nat \<Rightarrow> ('p, 'z) nbs_scheme option" where
  "move_data s d to frm n =
     do {
       b \<leftarrow> bufs s d;
       if to + n \<le> length (bytes b) \<and> frm + n \<le> length (bytes b)
       then Some (s\<lparr>bufs := (bufs s)(d \<mapsto>
              b\<lparr>bytes := map (fnet_memcpy (\<lambda>i. bytes b ! i) to frm n) [0..<length (bytes b)]\<rparr>)\<rparr>)
       else None
     }"

definition ref_data :: "('p, 'z) nbs_scheme \<Rightarrow> nat \<Rightarrow> ('p, 'z) nbs_scheme option" where
  "ref_data s d =
     do { b \<leftarrow> bufs s d; Some (s\<lparr>bufs := (bufs s)(d \<mapsto> b\<lparr>refs := w32 (refs b + 1)\<rparr>)\<rparr>) }"

text \<open>The lines that drop one reference, which the code repeats in three functions.\<close>

definition release_data :: "'p allocator \<Rightarrow> ('p, 'z) nbs_scheme \<Rightarrow> nat \<Rightarrow> ('p, 'z) nbs_scheme option" where
  "release_data A s d =
     do {
       b \<leftarrow> bufs s d;
       if refs b = 1
       then do { s \<leftarrow> fnet_free_netbuf A s d; Some (s\<lparr>bufs := (bufs s)(d := None)\<rparr>) }
       else Some (s\<lparr>bufs := (bufs s)(d \<mapsto> b\<lparr>refs := w32 (refs b + 4294967295)\<rparr>)\<rparr>)
     }"

section \<open>Creating and releasing\<close>

definition fnet_netbuf_new ::
    "'p allocator \<Rightarrow> ('p, 'z) drain \<Rightarrow> ('p, 'z) nbs_scheme \<Rightarrow> nat \<Rightarrow> bool \<Rightarrow> (('p, 'z) nbs_scheme \<times> netbuf list) option" where
  "fnet_netbuf_new A dr s len drain =
     do {
       (s, nb) \<leftarrow> malloc_drain A dr s sizeof_netbuf drain;
       if nb = 0 then Some (s, [])
       else do {
         (s, nb_d) \<leftarrow> malloc_drain A dr s (w32 (len + 4)) drain;
         if nb_d = 0 then do { s \<leftarrow> fnet_free_netbuf A s nb; Some (s, []) }
         else Some (new_data s nb_d len,
                [\<lparr>nb_addr = nb, nb_data = nb_d, nb_off = 0, nb_length = len,
                  nb_total_length = len, nb_flags = 0\<rparr>])
       }
     }"

definition fnet_netbuf_free :: "'p allocator \<Rightarrow> ('p, 'z) nbs_scheme \<Rightarrow> netbuf list \<Rightarrow> (('p, 'z) nbs_scheme \<times> netbuf list) option" where
  "fnet_netbuf_free A s nb =
     (case nb of
        [] \<Rightarrow> Some (s, [])
      | n # next \<Rightarrow>
          do {
            s \<leftarrow> release_data A s (nb_data n);
            s \<leftarrow> fnet_free_netbuf A s (nb_addr n);
            Some (s, next)
          })"

fun fnet_netbuf_free_chain :: "'p allocator \<Rightarrow> ('p, 'z) nbs_scheme \<Rightarrow> netbuf list \<Rightarrow> ('p, 'z) nbs_scheme option" where
  "fnet_netbuf_free_chain A s [] = Some s"
| "fnet_netbuf_free_chain A s (n # next) =
     do {
       s \<leftarrow> release_data A s (nb_data n);
       s \<leftarrow> fnet_free_netbuf A s (nb_addr n);
       fnet_netbuf_free_chain A s next
     }"

definition fnet_netbuf_from_buf ::
    "'p allocator \<Rightarrow> ('p, 'z) drain \<Rightarrow> ('p, 'z) nbs_scheme \<Rightarrow> u8 list \<Rightarrow> bool \<Rightarrow> (('p, 'z) nbs_scheme \<times> netbuf list) option" where
  "fnet_netbuf_from_buf A dr s data drain =
     do {
       (s, nb) \<leftarrow> fnet_netbuf_new A dr s (length data) drain;
       case nb of
         [] \<Rightarrow> Some (s, [])
       | n # _ \<Rightarrow> do { s \<leftarrow> write_data s (nb_data n) (nb_off n) data; Some (s, nb) }
     }"

section \<open>Copying\<close>

text \<open>\<^verbatim>\<open>while((tot_offset += tmp_nb->length) <= offset) tmp_nb = tmp_nb->next\<close>.\<close>

fun find_offset :: "netbuf list \<Rightarrow> nat \<Rightarrow> nat \<Rightarrow> (netbuf list \<times> nat) option" where
  "find_offset [] tot_offset offset = None"
| "find_offset (n # next) tot_offset offset =
     (if tot_offset + nb_length n \<le> offset
      then find_offset next (tot_offset + nb_length n) offset
      else Some (n # next, nb_length n + offset - (tot_offset + nb_length n)))"

definition locate :: "netbuf list \<Rightarrow> nat \<Rightarrow> (netbuf list \<times> nat) option" where
  "locate nb offset =
     (case nb of
        [] \<Rightarrow> None
      | n # _ \<Rightarrow> if nb_length n > offset then Some (nb, offset) else find_offset nb 0 offset)"

definition chain_length :: "netbuf list \<Rightarrow> nat" where
  "chain_length nb = sum_list (map nb_length nb)"

text \<open>The descriptors freed, without their data, when memory runs out.\<close>

fun free_descriptors :: "'p allocator \<Rightarrow> ('p, 'z) nbs_scheme \<Rightarrow> netbuf list \<Rightarrow> ('p, 'z) nbs_scheme option" where
  "free_descriptors A s [] = Some s"
| "free_descriptors A s (n # next) =
     do { s \<leftarrow> fnet_free_netbuf A s (nb_addr n); free_descriptors A s next }"

text \<open>
  The loop that adds a descriptor for each further net buffer of the source. \<open>tmp\<close> starts with
  the source buffer just copied, \<open>made\<close> is the chain so far. The lengths that are left are of
  type \<^verbatim>\<open>fnet_int32_t\<close>.
\<close>

fun copy_loop ::
    "'p allocator \<Rightarrow> ('p, 'z) drain \<Rightarrow> bool \<Rightarrow> ('p, 'z) nbs_scheme \<Rightarrow> netbuf list \<Rightarrow> int \<Rightarrow> netbuf list \<Rightarrow> (('p, 'z) nbs_scheme \<times> netbuf list) option" where
  "copy_loop A dr drain s [] tot_len made = None"
| "copy_loop A dr drain s (_ # tmp) tot_len made =
     do {
       (s, a) \<leftarrow> malloc_drain A dr s sizeof_netbuf drain;
       if a = 0
       then do {
         (s, rest) \<leftarrow> fnet_netbuf_free A s made;
         s \<leftarrow> free_descriptors A s rest;
         Some (s, [])
       }
       else
         case tmp of
           [] \<Rightarrow> None
         | n # _ \<Rightarrow>
             do {
               s \<leftarrow> ref_data s (nb_data n);
               let tot_len = i32 (tot_len - int (nb_length n));
               let made = made @ [\<lparr>nb_addr = a, nb_data = nb_data n, nb_off = nb_off n,
                     nb_length = (if tot_len < 0 then nat ((tot_len + int (nb_length n)) mod 4294967296) else nb_length n),
                     nb_total_length = raw_word s (a + 20), nb_flags = nb_flags n\<rparr>];
               if tot_len > 0 then copy_loop A dr drain s tmp tot_len made else Some (s, made)
             }
     }"

definition fnet_netbuf_copy ::
    "'p allocator \<Rightarrow> ('p, 'z) drain \<Rightarrow> ('p, 'z) nbs_scheme \<Rightarrow> netbuf list \<Rightarrow> nat \<Rightarrow> nat \<Rightarrow> bool \<Rightarrow> (('p, 'z) nbs_scheme \<times> netbuf list) option" where
  "fnet_netbuf_copy A dr s nb offset len drain =
     (case nb of
        [] \<Rightarrow> None
      | head # _ \<Rightarrow>
          let tot_len = w32 (chain_length nb);
              all = (len = FNET_NETBUF_COPYALL);
              len = (if all then w32 (tot_len + 4294967296 - offset) else len)
          in if \<not> all \<and> (w32 (len + offset) > tot_len \<or> tot_len < offset) then Some (s, [])
             else do {
               (s, a) \<leftarrow> malloc_drain A dr s sizeof_netbuf drain;
               if a = 0 then Some (s, [])
               else do {
                 (tmp, tot_offset) \<leftarrow> locate nb offset;
                 let n = hd tmp;
                 s \<leftarrow> ref_data s (nb_data n);
                 let tot_len = i32 (int len - int (nb_length n - tot_offset));
                 let loc = \<lparr>nb_addr = a, nb_data = nb_data n, nb_off = nb_off n + tot_offset,
                       nb_length = (if tot_len \<le> 0 then len else nb_length n - tot_offset),
                       nb_total_length = len, nb_flags = nb_flags head\<rparr>;
                 if tot_len \<le> 0 then Some (s, [loc])
                 else copy_loop A dr drain s tmp tot_len [loc]
               }
             })"

text \<open>The destination of \<^verbatim>\<open>_fnet_netbuf_to_buf\<close>: the bytes written there.\<close>

function to_buf_loop :: "('p, 'z) nbs_scheme \<Rightarrow> netbuf list \<Rightarrow> nat \<Rightarrow> nat \<Rightarrow> u8 list option" where
  "to_buf_loop s [] tot_offset tot_len = None"
| "to_buf_loop s (n # next) tot_offset tot_len =
     (let cur_len = (if nb_length n - tot_offset > tot_len then tot_len else nb_length n - tot_offset)
      in do {
        xs \<leftarrow> read_data s (nb_data n) (nb_off n + tot_offset) cur_len;
        ys \<leftarrow> (if tot_len - cur_len \<noteq> 0 then to_buf_loop s next 0 (tot_len - cur_len) else Some []);
        Some (xs @ ys)
      })"
  by pat_completeness auto
termination
  by (relation "measure (\<lambda>(s, nb, t, l). length nb)") auto

definition fnet_netbuf_to_buf :: "('p, 'z) nbs_scheme \<Rightarrow> netbuf list \<Rightarrow> nat \<Rightarrow> nat \<Rightarrow> u8 list option" where
  "fnet_netbuf_to_buf s nb offset len =
     (if len = 0 then Some []
      else if nb = [] then None
      else
        let tot_len = chain_length nb;
            all = (len = FNET_NETBUF_COPYALL);
            len = (if all then w32 (tot_len + 4294967296 - offset) else len)
        in if \<not> all \<and> (w32 (len + offset) > tot_len \<or> tot_len < offset) then Some []
           else do { (tmp, tot_offset) \<leftarrow> locate nb offset; to_buf_loop s tmp tot_offset len })"

section \<open>Pulling up, trimming, cutting\<close>

text \<open>How many net buffers the search of \<^verbatim>\<open>_fnet_netbuf_pullup\<close> passes.\<close>

fun pullup_count :: "netbuf list \<Rightarrow> nat \<Rightarrow> nat \<Rightarrow> nat" where
  "pullup_count [] tot_len len = 0"
| "pullup_count (n # next) tot_len len =
     (let tot_len = tot_len + nb_length n
      in if tot_len < len \<and> next \<noteq> [] then Suc (pullup_count next tot_len len) else 1)"

fun pullup_copy ::
    "'p allocator \<Rightarrow> ('p, 'z) nbs_scheme \<Rightarrow> nat \<Rightarrow> nat \<Rightarrow> nat \<Rightarrow> netbuf list \<Rightarrow> (('p, 'z) nbs_scheme \<times> nat \<times> netbuf list) option" where
  "pullup_copy A s d offset 0 run = Some (s, offset, run)"
| "pullup_copy A s d offset (Suc k) [] = None"
| "pullup_copy A s d offset (Suc k) (n # next) =
     do {
       xs \<leftarrow> read_data s (nb_data n) (nb_off n) (nb_length n);
       s \<leftarrow> write_data s d offset xs;
       (s, run) \<leftarrow> fnet_netbuf_free A s (n # next);
       pullup_copy A s d (offset + nb_length n) k run
     }"

definition fnet_netbuf_pullup ::
    "'p allocator \<Rightarrow> ('p, 'z) nbs_scheme \<Rightarrow> netbuf list \<Rightarrow> nat \<Rightarrow> (('p, 'z) nbs_scheme \<times> netbuf list \<times> bool) option" where
  "fnet_netbuf_pullup A s nb_chain len =
     (case nb_chain of
        [] \<Rightarrow> Some (s, [], True)
      | nb # next \<Rightarrow>
          if len = 0 \<or> nb_length nb \<ge> len \<or> nb_total_length nb < len then Some (s, nb_chain, True)
          else do {
            let k = pullup_count nb_chain 0 len;
            (s, d) \<leftarrow> fnet_malloc_netbuf A s (w32 (len + 4));
            if d = 0 then Some (s, nb_chain, False)
            else do {
              let s = new_data s d len;
              xs \<leftarrow> read_data s (nb_data nb) (nb_off nb) (nb_length nb);
              s \<leftarrow> write_data s d 0 xs;
              s \<leftarrow> release_data A s (nb_data nb);
              (s, offset, nb_run) \<leftarrow> pullup_copy A s d (nb_length nb) (k - 1) next;
              let tot_len = w32 (len + 4294967296 - offset);
              case nb_run of
                [] \<Rightarrow> None
              | n # rest \<Rightarrow>
                  do {
                    xs \<leftarrow> read_data s (nb_data n) (nb_off n) tot_len;
                    s \<leftarrow> write_data s d offset xs;
                    let n = n\<lparr>nb_length := w32 (nb_length n + 4294967296 - tot_len)\<rparr>;
                    (s, nb_run) \<leftarrow>
                      (if nb_length n = 0 then fnet_netbuf_free A s (n # rest)
                       else Some (s, n\<lparr>nb_off := nb_off n + tot_len\<rparr> # rest));
                    Some (s, nb\<lparr>nb_data := d, nb_off := 0, nb_length := len\<rparr> # nb_run, True)
                  }
            }
          })"

fun trim_front ::
    "'p allocator \<Rightarrow> ('p, 'z) nbs_scheme \<Rightarrow> netbuf list \<Rightarrow> nat \<Rightarrow> nat \<Rightarrow> (('p, 'z) nbs_scheme \<times> netbuf list \<times> nat) option" where
  "trim_front A s [] tot_len len = Some (s, [], tot_len)"
| "trim_front A s (n # next) tot_len len =
     (if len \<ge> tot_len
      then do {
        (s, _) \<leftarrow> fnet_netbuf_free A s (n # next);
        trim_front A s next (case next of [] \<Rightarrow> tot_len | m # _ \<Rightarrow> w32 (tot_len + nb_length m)) len
      }
      else Some (s, n # next, tot_len))"

text \<open>The walk from the end: what lies before the net buffer found, the rest, the length so far.\<close>

fun trim_find :: "netbuf list \<Rightarrow> nat \<Rightarrow> int \<Rightarrow> netbuf list \<times> netbuf list \<times> nat" where
  "trim_find [] tot_len goal = ([], [], tot_len)"
| "trim_find (n # next) tot_len goal =
     (if goal > i32 (int tot_len)
      then
        let (before, rest, t) =
          trim_find next (case next of [] \<Rightarrow> tot_len | m # _ \<Rightarrow> w32 (tot_len + nb_length m)) goal
        in (n # before, rest, t)
      else ([], n # next, tot_len))"

fun free_rest :: "'p allocator \<Rightarrow> ('p, 'z) nbs_scheme \<Rightarrow> netbuf list \<Rightarrow> ('p, 'z) nbs_scheme option" where
  "free_rest A s [] = Some s"
| "free_rest A s (n # next) = do { (s, _) \<leftarrow> fnet_netbuf_free A s (n # next); free_rest A s next }"

definition set_total :: "(nat \<Rightarrow> nat) \<Rightarrow> netbuf list \<Rightarrow> netbuf list" where
  "set_total f nb =
     (case nb of [] \<Rightarrow> [] | n # next \<Rightarrow> n\<lparr>nb_total_length := f (nb_total_length n)\<rparr> # next)"

text \<open>The argument \<open>len\<close> is converted to \<^verbatim>\<open>fnet_int32_t\<close>, as at every call.\<close>

definition fnet_netbuf_trim ::
    "'p allocator \<Rightarrow> ('p, 'z) nbs_scheme \<Rightarrow> netbuf list \<Rightarrow> int \<Rightarrow> (('p, 'z) nbs_scheme \<times> netbuf list) option" where
  "fnet_netbuf_trim A s nb_chain len =
     (let len = i32 len
      in if len = 0 then Some (s, nb_chain)
      else
        case nb_chain of
          [] \<Rightarrow> Some (s, [])
        | nb # next \<Rightarrow>
            if nb_total_length nb < nat \<bar>len\<bar> then Some (s, nb_chain)
            else
              let total_rem = nb_total_length nb
              in if len > 0
                 then do {
                   (s, nbs, tot_len) \<leftarrow> trim_front A s nb_chain (nb_length nb) (nat len);
                   case nbs of
                     [] \<Rightarrow> Some (s, [])
                   | n # next \<Rightarrow>
                       Some (s, n\<lparr>nb_off := nb_off n + nb_length n - (tot_len - nat len),
                                  nb_length := tot_len - nat len, nb_flags := nb_flags nb,
                                  nb_total_length := total_rem - nat len\<rparr> # next)
                 }
                 else
                   let (before, rest, tot_len) = trim_find nb_chain (nb_length nb) (i32 (i32 (int total_rem) + len))
                   in case rest of
                        [] \<Rightarrow> Some (s, [])
                      | n # next \<Rightarrow>
                          let n = n\<lparr>nb_length :=
                                nat ((int (nb_length n) + (len + int total_rem - int tot_len)) mod 4294967296)\<rparr>
                          in do {
                            s \<leftarrow> free_rest A s next;
                            if nb_length n = 0
                            then do { (s, head) \<leftarrow> fnet_netbuf_free A s [n]; Some (s, head) }
                            else Some (s, set_total (\<lambda>_. total_rem - nat \<bar>len\<bar>) (before @ [n]))
                          })"

fun cut_find :: "netbuf list \<Rightarrow> nat \<Rightarrow> nat \<Rightarrow> netbuf list \<times> netbuf list \<times> nat" where
  "cut_find [] tot_len offset = ([], [], tot_len)"
| "cut_find (n # next) tot_len offset =
     (if offset \<ge> tot_len
      then
        let (before, rest, t) =
          cut_find next (case next of [] \<Rightarrow> tot_len | m # _ \<Rightarrow> w32 (tot_len + nb_length m)) offset
        in (n # before, rest, t)
      else ([], n # next, tot_len))"

text \<open>
  The lengths that are cut reach \<open>fnet_netbuf_trim\<close> through a conversion to \<^verbatim>\<open>fnet_int32_t\<close>.
  The result says what the function returns: \<open>True\<close> for \<^verbatim>\<open>*nb_ptr\<close>, \<open>False\<close> for 0.
\<close>

definition fnet_netbuf_cut_center ::
    "'p allocator \<Rightarrow> ('p, 'z) drain \<Rightarrow> ('p, 'z) nbs_scheme \<Rightarrow> netbuf list \<Rightarrow> nat \<Rightarrow> nat \<Rightarrow> (('p, 'z) nbs_scheme \<times> netbuf list \<times> bool) option" where
  "fnet_netbuf_cut_center A dr s nb_chain offset len =
     (case nb_chain of
        [] \<Rightarrow> Some (s, [], False)
      | head # _ \<Rightarrow>
          if len = 0 \<or> nb_total_length head < w32 (len + offset) then Some (s, nb_chain, False)
          else if offset = 0
          then do { (s, nb) \<leftarrow> fnet_netbuf_trim A s nb_chain (int len); Some (s, nb, nb \<noteq> []) }
          else
            let (before, rest, tot_len) = cut_find nb_chain (nb_length head) offset;
                less = (\<lambda>t. w32 (t + 4294967296 - len))
            in case rest of
                 [] \<Rightarrow> Some (s, nb_chain, False)
               | nb # next \<Rightarrow>
                   if tot_len - nb_length nb = offset
                   then do {
                     (s, nb) \<leftarrow> fnet_netbuf_trim A s (nb\<lparr>nb_total_length := nb_total_length head\<rparr> # next) (int len);
                     Some (s, set_total less (before @ nb), True)
                   }
                   else if tot_len - offset > len
                   then do {
                     b \<leftarrow> bufs s (nb_data nb);
                     let at = nb_off nb + nb_length nb + offset - tot_len;
                     if refs b = 1
                     then do {
                       s \<leftarrow> move_data s (nb_data nb) at (at + len) (tot_len - offset - len);
                       Some (s, set_total less (before @ nb\<lparr>nb_length := nb_length nb - len\<rparr> # next), True)
                     }
                     else do {
                       (s, h) \<leftarrow> fnet_netbuf_new A dr s (tot_len - offset - len) False;
                       case h of
                         [] \<Rightarrow> Some (s, nb_chain, False)
                       | h # _ \<Rightarrow>
                           do {
                             xs \<leftarrow> read_data s (nb_data nb) (at + len) (tot_len - offset - len);
                             s \<leftarrow> write_data s (nb_data h) (nb_off h) xs;
                             Some (s, set_total less
                               (before @ nb\<lparr>nb_length := nb_length nb - (tot_len - offset)\<rparr> # h # next), True)
                           }
                     }
                   }
                   else if tot_len - offset = len
                   then Some (s, set_total less (before @ nb\<lparr>nb_length := nb_length nb - len\<rparr> # next), True)
                   else
                     case next of
                       [] \<Rightarrow> None
                     | m # next' \<Rightarrow>
                         do {
                           (s, nb') \<leftarrow> fnet_netbuf_trim A s (m\<lparr>nb_total_length := nb_total_length head\<rparr> # next')
                             (int (len - (tot_len - offset)));
                           Some (s, set_total less
                             (before @ nb\<lparr>nb_length := nb_length nb - (tot_len - offset)\<rparr> # nb'), True)
                         })"

section \<open>Chains and queues\<close>

unbundle bit_operations_syntax

definition fnet_netbuf_concat :: "netbuf list \<Rightarrow> netbuf list \<Rightarrow> netbuf list" where
  "fnet_netbuf_concat nb1 nb2 =
     (case nb1 of
        [] \<Rightarrow> nb2
      | head # rest \<Rightarrow>
          (case nb2 of
             [] \<Rightarrow> nb1
           | n # _ \<Rightarrow>
               head\<lparr>nb_flags := nb_flags head OR nb_flags n,
                    nb_total_length := w32 (nb_total_length head + nb_total_length n)\<rparr> # rest @ nb2))"

definition fnet_netbuf_queue_add :: "netbuf list list \<Rightarrow> netbuf list \<Rightarrow> netbuf list list" where
  "fnet_netbuf_queue_add q nb_chain = q @ [nb_chain]"

text \<open>The chain to delete is given by the address of its first descriptor.\<close>

definition chain_addr :: "netbuf list \<Rightarrow> nat" where
  "chain_addr nb = (case nb of [] \<Rightarrow> 0 | n # _ \<Rightarrow> nb_addr n)"

fun queue_del_loop ::
    "'p allocator \<Rightarrow> ('p, 'z) nbs_scheme \<Rightarrow> netbuf list list \<Rightarrow> nat \<Rightarrow> (('p, 'z) nbs_scheme \<times> netbuf list list) option" where
  "queue_del_loop A s [] a = Some (s, [])"
| "queue_del_loop A s [c] a = (if a = 0 then None else Some (s, [c]))"
| "queue_del_loop A s (c # c' # q) a =
     (if chain_addr c' = a
      then do { s \<leftarrow> fnet_netbuf_free_chain A s c'; Some (s, c # q) }
      else do { (s, q) \<leftarrow> queue_del_loop A s (c' # q) a; Some (s, c # q) })"

definition fnet_netbuf_queue_del ::
    "'p allocator \<Rightarrow> ('p, 'z) nbs_scheme \<Rightarrow> netbuf list list \<Rightarrow> nat \<Rightarrow> (('p, 'z) nbs_scheme \<times> netbuf list list) option" where
  "fnet_netbuf_queue_del A s q a =
     (case q of
        [] \<Rightarrow> Some (s, [])
      | c # q' \<Rightarrow>
          if chain_addr c = a
          then do { s \<leftarrow> fnet_netbuf_free_chain A s c; Some (s, q') }
          else queue_del_loop A s q a)"

section \<open>Invariants\<close>

text \<open>
  \<open>R\<close> is the multiset of the references to data buffers, \<open>D\<close> the other blocks that are
  allocated: the descriptors, and what other modules hold. Every data buffer is counted exactly.
  There is a descriptor for each reference, but for one while a buffer is being replaced.
\<close>

definition mem_ok :: "('p \<Rightarrow> nat set \<Rightarrow> bool) \<Rightarrow> ('p, 'z) nbs_scheme \<Rightarrow> nat multiset \<Rightarrow> nat set \<Rightarrow> bool" where
  "mem_ok owns s R D =
     (owns (pool s) (dom (bufs s) \<union> D) \<and> dom (bufs s) \<inter> D = {} \<and> set_mset R = dom (bufs s)
      \<and> size R \<le> card D + 1
      \<and> (\<forall>d b. bufs s d = Some b \<longrightarrow> refs b = count R d \<and> length (bytes b) < 4294967296))"

definition bytes_at :: "('p, 'z) nbs_scheme \<Rightarrow> nat \<Rightarrow> u8 list" where
  "bytes_at s d = (case bufs s d of None \<Rightarrow> [] | Some b \<Rightarrow> bytes b)"

definition nb_bytes :: "('p, 'z) nbs_scheme \<Rightarrow> netbuf \<Rightarrow> u8 list" where
  "nb_bytes s n = take (nb_length n) (drop (nb_off n) (bytes_at s (nb_data n)))"

definition chain_bytes :: "('p, 'z) nbs_scheme \<Rightarrow> netbuf list \<Rightarrow> u8 list" where
  "chain_bytes s c = concat (map (nb_bytes s) c)"

definition in_buf :: "('p, 'z) nbs_scheme \<Rightarrow> netbuf \<Rightarrow> bool" where
  "in_buf s n = (nb_off n + nb_length n \<le> length (bytes_at s (nb_data n)))"

text \<open>The data of the chain is unchanged.\<close>

definition same_bytes :: "('p, 'z) nbs_scheme \<Rightarrow> ('p, 'z) nbs_scheme \<Rightarrow> netbuf list \<Rightarrow> bool" where
  "same_bytes s s' c = (\<forall>n\<in>set c. bytes_at s' (nb_data n) = bytes_at s (nb_data n))"

text \<open>\<open>L\<close> are all live net buffers, \<open>X\<close> the blocks of other modules.\<close>

definition nb_inv :: "('p \<Rightarrow> nat set \<Rightarrow> bool) \<Rightarrow> nat set \<Rightarrow> ('p, 'z) nbs_scheme \<Rightarrow> netbuf list \<Rightarrow> bool" where
  "nb_inv owns X s L =
     (mem_ok owns s (mset (map nb_data L)) (set (map nb_addr L) \<union> X)
      \<and> distinct (map nb_addr L) \<and> set (map nb_addr L) \<inter> X = {}
      \<and> (\<forall>n\<in>set L. in_buf s n))"

section \<open>The allocator's contract\<close>

text \<open>
  What the net buffers rely on: \<open>owns p H\<close> says that the pool \<open>p\<close> is well formed and that
  exactly the blocks at \<open>H\<close> are handed out.
\<close>

locale block_allocator =
  fixes A :: "'p allocator" and owns :: "'p \<Rightarrow> nat set \<Rightarrow> bool"
  assumes owns_bound: "owns p H \<Longrightarrow> finite H \<and> card H < 4294967296 \<and> 0 \<notin> H"
    and malloc_total: "owns p H \<Longrightarrow> n + 8 \<le> 4294967296 \<Longrightarrow> \<exists>p' a. a_malloc A p n = Some (p', a)"
    and malloc_null: "owns p H \<Longrightarrow> n + 8 \<le> 4294967296 \<Longrightarrow> a_malloc A p n = Some (p', 0) \<Longrightarrow> owns p' H"
    and malloc_new: "owns p H \<Longrightarrow> n + 8 \<le> 4294967296 \<Longrightarrow> a_malloc A p n = Some (p', a) \<Longrightarrow> a \<noteq> 0
        \<Longrightarrow> a \<notin> H \<and> owns p' (insert a H)"
    and free_owned: "owns p H \<Longrightarrow> a \<in> H \<Longrightarrow> \<exists>p'. a_free A p a = Some p' \<and> owns p' (H - {a})"
begin

lemma owned_finite: "mem_ok owns s R D \<Longrightarrow> finite D"
  using owns_bound by (auto simp: mem_ok_def)

lemma malloc_netbuf_ok:
  assumes "mem_ok owns s R D" "n + 8 \<le> 4294967296"
  obtains s' a where "fnet_malloc_netbuf A s n = Some (s', a)" "bufs s' = bufs s"
    "a = 0 \<Longrightarrow> mem_ok owns s' R D"
    "a \<noteq> 0 \<Longrightarrow> a \<notin> D \<and> a \<notin> dom (bufs s) \<and> mem_ok owns s' R (insert a D)"
proof -
  have o: "owns (pool s) (dom (bufs s) \<union> D)" using assms(1) by (simp add: mem_ok_def)
  obtain p' a where m: "a_malloc A (pool s) n = Some (p', a)"
    using malloc_total [OF o assms(2)] by blast
  show ?thesis
  proof (rule that [of "s\<lparr>pool := p'\<rparr>" a])
    show "fnet_malloc_netbuf A s n = Some (s\<lparr>pool := p'\<rparr>, a)"
      by (simp add: fnet_malloc_netbuf_def m)
    show "a = 0 \<Longrightarrow> mem_ok owns (s\<lparr>pool := p'\<rparr>) R D"
      using malloc_null [OF o assms(2)] m assms(1) by (simp add: mem_ok_def)
    assume "a \<noteq> 0"
    moreover have "size R \<le> card (insert a D) + 1"
      using assms(1) card_insert_le [of D a] by (simp add: mem_ok_def)
    ultimately show "a \<notin> D \<and> a \<notin> dom (bufs s) \<and> mem_ok owns (s\<lparr>pool := p'\<rparr>) R (insert a D)"
      using malloc_new [OF o assms(2) m] assms(1) by (auto simp: mem_ok_def)
  qed simp
qed

lemma free_netbuf_ok:
  assumes "mem_ok owns s R D" "a \<in> D" "size R \<le> card D"
  obtains s' where "fnet_free_netbuf A s a = Some s'" "bufs s' = bufs s" "mem_ok owns s' R (D - {a})"
proof -
  have o: "owns (pool s) (dom (bufs s) \<union> D)" and disj: "dom (bufs s) \<inter> D = {}"
    using assms(1) by (simp_all add: mem_ok_def)
  obtain p' where p': "a_free A (pool s) a = Some p'" "owns p' (dom (bufs s) \<union> D - {a})"
    using free_owned [OF o] assms(2) by blast
  have "dom (bufs s) \<union> D - {a} = dom (bufs s) \<union> (D - {a})" using disj assms(2) by auto
  moreover have "size R \<le> card (D - {a}) + 1"
    using assms(2,3) owned_finite [OF assms(1)] by (simp add: card_Diff_singleton)
  ultimately show ?thesis
    using that [of "s\<lparr>pool := p'\<rparr>"] p' assms(1) by (auto simp: fnet_free_netbuf_def mem_ok_def)
qed

lemma new_data_ok:
  assumes "mem_ok owns s R (insert d D)" "d \<notin> D" "size R \<le> card D" "len < 4294967296"
  shows "mem_ok owns (new_data s d len) (add_mset d R) D"
    "bytes_at (new_data s d len) d = raw_bytes s (d + 4) len"
    "e \<noteq> d \<Longrightarrow> bytes_at (new_data s d len) e = bytes_at s e"
proof -
  have "d \<notin># R" using assms(1) by (auto simp: mem_ok_def)
  then have "count R d = 0" by (simp add: not_in_iff)
  then show "mem_ok owns (new_data s d len) (add_mset d R) D"
    using assms by (auto simp: mem_ok_def new_data_def raw_bytes_def)
qed (simp_all add: new_data_def bytes_at_def)

lemma refs_bound:
  assumes "mem_ok owns s R D" "bufs s d = Some b"
  shows "card D + 1 < 4294967296" "refs b \<le> card D + 1"
proof -
  have o: "owns (pool s) (dom (bufs s) \<union> D)" using assms by (simp add: mem_ok_def)
  from owns_bound [OF this] have fin: "finite (dom (bufs s) \<union> D)"
    and lt: "card (dom (bufs s) \<union> D) < 4294967296" by auto
  have "d \<notin> D" using assms by (auto simp: mem_ok_def)
  then have "card D + 1 = card (insert d D)" using fin by simp
  also have "\<dots> \<le> card (dom (bufs s) \<union> D)" using assms(2) fin by (intro card_mono) auto
  finally show "card D + 1 < 4294967296" using lt by linarith
  have "refs b = count R d" using assms by (auto simp: mem_ok_def)
  then show "refs b \<le> card D + 1"
    using assms(1) count_le_size [of R d] by (auto simp: mem_ok_def)
qed

text \<open>Changing one data buffer, and the count of references to it.\<close>

lemma mem_ok_update:
  assumes "mem_ok owns s R D" "bufs s d = Some b" "set_mset R' = set_mset R"
    and "size R' \<le> card D + 1" "refs b' = count R' d" "\<And>e. e \<noteq> d \<Longrightarrow> count R' e = count R e"
    and "length (bytes b') < 4294967296"
  shows "mem_ok owns (s\<lparr>bufs := (bufs s)(d \<mapsto> b')\<rparr>) R' D"
proof -
  have "d \<in> dom (bufs s) \<union> D" using assms(2) by auto
  then have "insert d (dom (bufs s) \<union> D) = dom (bufs s) \<union> D" by (rule insert_absorb)
  then show ?thesis using assms by (auto simp: mem_ok_def)
qed

lemma mem_ok_refs:
  assumes "mem_ok owns s R D" "bufs s d = Some b"
  shows "refs b = count R d" "d \<in># R" "length (bytes b) < 4294967296" "d \<notin> D"
  using assms by (auto simp: mem_ok_def)

lemma mem_ok_some:
  assumes "mem_ok owns s R D" "d \<in># R"
  obtains b where "bufs s d = Some b"
  using assms by (auto simp: mem_ok_def)

lemma ref_data_ok:
  assumes "mem_ok owns s R D" "d \<in># R" "size R < card D"
  obtains s' where "ref_data s d = Some s'" "mem_ok owns s' (add_mset d R) D"
    "\<And>e. bytes_at s' e = bytes_at s e" "raw s' = raw s"
proof -
  obtain b where b: "bufs s d = Some b" by (rule mem_ok_some [OF assms(1,2)])
  note c = mem_ok_refs [OF assms(1) b]
  have "count R d < card D" using count_le_size [of R d] assms(3) by linarith
  then have w: "w32 (refs b + 1) = count R d + 1" using refs_bound(1) [OF assms(1) b] c(1) by simp
  let ?s = "s\<lparr>bufs := (bufs s)(d \<mapsto> b\<lparr>refs := w32 (refs b + 1)\<rparr>)\<rparr>"
  have "mem_ok owns ?s (add_mset d R) D"
    by (rule mem_ok_update [OF assms(1) b]) (use assms c w in auto)
  then show ?thesis
    using that [of ?s] b by (simp add: ref_data_def bytes_at_def)
qed

lemma release_data_ok:
  assumes "mem_ok owns s (add_mset d R) D"
  obtains s' where "release_data A s d = Some s'" "mem_ok owns s' R D"
    "\<And>e. e \<in># R \<Longrightarrow> bytes_at s' e = bytes_at s e"
proof -
  obtain b where b: "bufs s d = Some b" using mem_ok_some [OF assms, of d] by auto
  note m = mem_ok_refs [OF assms b]
  have c: "refs b = count R d + 1" using m by simp
  have o: "owns (pool s) (dom (bufs s) \<union> D)" and disj: "dom (bufs s) \<inter> D = {}"
    using assms by (simp_all add: mem_ok_def)
  show ?thesis
  proof (cases "refs b = 1")
    case True
    then have nin: "d \<notin># R" using c by (simp add: not_in_iff)
    obtain p' where p': "a_free A (pool s) d = Some p'" "owns p' (dom (bufs s) \<union> D - {d})"
      using free_owned [OF o, of d] b by auto
    have "dom (bufs s) \<union> D - {d} = dom ((bufs s)(d := None)) \<union> D" using disj b by auto
    moreover have "set_mset R = dom ((bufs s)(d := None))"
      using assms nin by (auto simp: mem_ok_def)
    moreover have "refs b' = count R e \<and> length (bytes b') < 4294967296"
      if "((bufs s)(d := None)) e = Some b'" for e b'
      using that assms by (auto simp: mem_ok_def split: if_splits)
    moreover have "dom ((bufs s)(d := None)) \<inter> D = {}"
      using assms disj by (auto simp: mem_ok_def)
    ultimately have "mem_ok owns (s\<lparr>pool := p', bufs := (bufs s)(d := None)\<rparr>) R D"
      using p'(2) assms by (simp add: mem_ok_def del: fun_upd_apply dom_fun_upd)
    moreover have "bytes_at (s\<lparr>pool := p', bufs := (bufs s)(d := None)\<rparr>) e = bytes_at s e"
      if "e \<in># R" for e
      using that nin by (auto simp: bytes_at_def)
    ultimately show ?thesis
      using that [of "s\<lparr>pool := p', bufs := (bufs s)(d := None)\<rparr>"] True b p'
      by (simp add: release_data_def fnet_free_netbuf_def)
  next
    case False
    have "refs b < 4294967296" using refs_bound [OF assms b] by linarith
    then have w: "w32 (refs b + 4294967295) = refs b - 1" using c by (intro w32_pred) simp_all
    let ?s = "s\<lparr>bufs := (bufs s)(d \<mapsto> b\<lparr>refs := w32 (refs b + 4294967295)\<rparr>)\<rparr>"
    have "d \<in># R" using False c by (simp flip: count_greater_zero_iff)
    then have "mem_ok owns ?s R D"
      by (intro mem_ok_update [OF assms b])
        (use assms m(3) c w in \<open>auto simp: mem_ok_def\<close>)
    then show ?thesis
      using that [of ?s] False b by (simp add: release_data_def bytes_at_def)
  qed
qed

lemma nb_inv_mem:
  assumes "nb_inv owns X s L"
  shows "mem_ok owns s (mset (map nb_data L)) (set (map nb_addr L) \<union> X)"
    "size (mset (map nb_data L)) \<le> card (set (map nb_addr L) \<union> X)"
proof -
  show m: "mem_ok owns s (mset (map nb_data L)) (set (map nb_addr L) \<union> X)"
    using assms by (simp add: nb_inv_def)
  have "size (mset (map nb_data L)) = card (set (map nb_addr L))"
    using assms distinct_card [of "map nb_addr L"] by (simp add: nb_inv_def)
  also have "\<dots> \<le> card (set (map nb_addr L) \<union> X)"
    using owned_finite [OF m] by (intro card_mono) auto
  finally show "size (mset (map nb_data L)) \<le> card (set (map nb_addr L) \<union> X)" .
qed

lemma netbuf_free_ok:
  assumes "nb_inv owns X s (n # L)"
  obtains s' where "\<And>next. fnet_netbuf_free A s (n # next) = Some (s', next)"
    "nb_inv owns X s' L" "same_bytes s s' L"
proof -
  let ?D = "set (map nb_addr L) \<union> X"
  have fresh: "nb_addr n \<notin> ?D" using assms by (auto simp: nb_inv_def)
  have m: "mem_ok owns s (add_mset (nb_data n) (mset (map nb_data L))) (insert (nb_addr n) ?D)"
    using nb_inv_mem(1) [OF assms] by simp
  obtain s1 where s1: "release_data A s (nb_data n) = Some s1"
      "mem_ok owns s1 (mset (map nb_data L)) (insert (nb_addr n) ?D)"
      "\<And>e. e \<in># mset (map nb_data L) \<Longrightarrow> bytes_at s1 e = bytes_at s e"
    by (rule release_data_ok [OF m]) (rule that)
  have "size (mset (map nb_data L)) \<le> card (insert (nb_addr n) ?D)"
    using nb_inv_mem(2) [OF assms] by simp
  then obtain s2 where s2: "fnet_free_netbuf A s1 (nb_addr n) = Some s2" "bufs s2 = bufs s1"
      "mem_ok owns s2 (mset (map nb_data L)) (insert (nb_addr n) ?D - {nb_addr n})"
    using free_netbuf_ok [OF s1(2), of "nb_addr n"] by blast
  have same: "same_bytes s s2 L"
    using s1(3) s2(2) by (auto simp: same_bytes_def bytes_at_def)
  show ?thesis
  proof (rule that [of s2])
    show "fnet_netbuf_free A s (n # next) = Some (s2, next)" for "next"
      by (simp add: fnet_netbuf_free_def s1(1) s2(1))
    have "insert (nb_addr n) ?D - {nb_addr n} = ?D" using fresh by simp
    then show "nb_inv owns X s2 L"
      using s2(3) same assms by (auto simp: nb_inv_def same_bytes_def in_buf_def)
  qed (rule same)
qed

lemma same_bytes_trans:
  "same_bytes s s' L \<Longrightarrow> same_bytes s' s'' L' \<Longrightarrow> set L' \<subseteq> set L \<Longrightarrow> same_bytes s s'' L'"
  by (auto simp: same_bytes_def)

lemma free_chain_ok:
  "nb_inv owns X s (c @ L) \<Longrightarrow>
     \<exists>s'. fnet_netbuf_free_chain A s c = Some s' \<and> nb_inv owns X s' L \<and> same_bytes s s' L"
proof (induction c arbitrary: s)
  case Nil
  then show ?case by (simp add: same_bytes_def)
next
  case (Cons n c)
  obtain s1 where s1: "\<And>next. fnet_netbuf_free A s (n # next) = Some (s1, next)"
    "nb_inv owns X s1 (c @ L)" "same_bytes s s1 (c @ L)"
    using netbuf_free_ok [of X s n "c @ L"] Cons.prems by auto
  obtain s2 where s2: "fnet_netbuf_free_chain A s1 c = Some s2" "nb_inv owns X s2 L" "same_bytes s1 s2 L"
    using Cons.IH [OF s1(2)] by blast
  have "fnet_netbuf_free_chain A s (n # c) = Some s2"
    using s1(1) [of "[]"] s2(1) by (auto simp: fnet_netbuf_free_def bind_eq_Some_conv)
  moreover have "same_bytes s s2 L" by (rule same_bytes_trans [OF s1(3) s2(3)]) auto
  ultimately show ?case using s2(2) by blast
qed

lemma free_rest_ok:
  "nb_inv owns X s (c @ L) \<Longrightarrow>
     \<exists>s'. free_rest A s c = Some s' \<and> nb_inv owns X s' L \<and> same_bytes s s' L"
proof (induction c arbitrary: s)
  case Nil
  then show ?case by (simp add: same_bytes_def)
next
  case (Cons n c)
  obtain s1 where s1: "\<And>next. fnet_netbuf_free A s (n # next) = Some (s1, next)"
    "nb_inv owns X s1 (c @ L)" "same_bytes s s1 (c @ L)"
    using netbuf_free_ok [of X s n "c @ L"] Cons.prems by auto
  obtain s2 where s2: "free_rest A s1 c = Some s2" "nb_inv owns X s2 L" "same_bytes s1 s2 L"
    using Cons.IH [OF s1(2)] by blast
  have "same_bytes s s2 L" by (rule same_bytes_trans [OF s1(3) s2(3)]) auto
  then show ?case using s1(1) s2 by auto
qed

text \<open>Reading and writing the bytes of a buffer.\<close>

lemma write_data_ok:
  assumes "mem_ok owns s R D" "d \<in># R" "i + length xs \<le> length (bytes_at s d)"
  obtains s' where "write_data s d i xs = Some s'" "mem_ok owns s' R D"
    "bytes_at s' d = take i (bytes_at s d) @ xs @ drop (i + length xs) (bytes_at s d)"
    "\<And>e. e \<noteq> d \<Longrightarrow> bytes_at s' e = bytes_at s e"
proof -
  obtain b where b: "bufs s d = Some b" by (rule mem_ok_some [OF assms(1,2)])
  note m = mem_ok_refs [OF assms(1) b]
  let ?b = "b\<lparr>bytes := take i (bytes b) @ xs @ drop (i + length xs) (bytes b)\<rparr>"
  have i: "i + length xs \<le> length (bytes b)" using assms(3) b by (simp add: bytes_at_def)
  have "mem_ok owns (s\<lparr>bufs := (bufs s)(d \<mapsto> ?b)\<rparr>) R D"
    by (rule mem_ok_update [OF assms(1) b]) (use assms(1) m i in \<open>auto simp: mem_ok_def\<close>)
  then show ?thesis
    using that [of "s\<lparr>bufs := (bufs s)(d \<mapsto> ?b)\<rparr>"] b i
    by (simp add: write_data_def bytes_at_def)
qed

lemma read_data_ok:
  assumes "mem_ok owns s R D" "d \<in># R" "i + n \<le> length (bytes_at s d)"
  shows "read_data s d i n = Some (take n (drop i (bytes_at s d)))"
proof -
  obtain b where b: "bufs s d = Some b" by (rule mem_ok_some [OF assms(1,2)])
  then show ?thesis using assms(3) by (simp add: read_data_def bytes_at_def)
qed

lemma netbuf_new_ok:
  assumes "nb_inv owns X s L" "len + 12 \<le> 4294967296"
  shows "\<exists>s' c. fnet_netbuf_new A dr s len False = Some (s', c) \<and> same_bytes s s' L
     \<and> (c = [] \<and> nb_inv owns X s' L
        \<or> (\<exists>n. c = [n] \<and> nb_inv owns X s' (n # L) \<and> nb_length n = len \<and> nb_total_length n = len
             \<and> nb_off n = 0 \<and> nb_data n \<notin> nb_data ` set L \<and> length (bytes_at s' (nb_data n)) = len))"
proof -
  let ?R = "mset (map nb_data L)" and ?D = "set (map nb_addr L) \<union> X"
  note m0 = nb_inv_mem [OF assms(1)]
  obtain s1 a where s1: "fnet_malloc_netbuf A s sizeof_netbuf = Some (s1, a)" "bufs s1 = bufs s"
      "a = 0 \<Longrightarrow> mem_ok owns s1 ?R ?D"
      "a \<noteq> 0 \<Longrightarrow> a \<notin> ?D \<and> a \<notin> dom (bufs s) \<and> mem_ok owns s1 ?R (insert a ?D)"
    by (rule malloc_netbuf_ok [OF m0(1), of sizeof_netbuf]) (simp add: sizeof_netbuf_def, rule that)
  have same: "same_bytes s s' L" if "bufs s' = bufs s" for s'
    using that by (simp add: same_bytes_def bytes_at_def)
  have inv: "nb_inv owns X s' L" if "bufs s' = bufs s" "mem_ok owns s' ?R ?D" for s'
    using assms(1) that by (auto simp: nb_inv_def in_buf_def bytes_at_def)
  show ?thesis
  proof (cases "a = 0")
    case True
    then show ?thesis
      using s1 same [of s1] inv [of s1] by (simp add: fnet_netbuf_new_def malloc_drain_def)
  next
    case False
    with s1(4) have a: "a \<notin> ?D" "a \<notin> dom (bufs s)" and m1: "mem_ok owns s1 ?R (insert a ?D)" by auto
    have l: "w32 (len + 4) = len + 4" "len + 4 + 8 \<le> 4294967296" using assms(2) by simp_all
    obtain s2 d where s2: "fnet_malloc_netbuf A s1 (len + 4) = Some (s2, d)" "bufs s2 = bufs s1"
      "d = 0 \<Longrightarrow> mem_ok owns s2 ?R (insert a ?D)"
      "d \<noteq> 0 \<Longrightarrow> d \<notin> insert a ?D \<and> d \<notin> dom (bufs s1) \<and> mem_ok owns s2 ?R (insert d (insert a ?D))"
      by (rule malloc_netbuf_ok [OF m1 l(2)]) (rule that)
    show ?thesis
    proof (cases "d = 0")
      case True
      have "size ?R \<le> card (insert a ?D)" using m0(2) card_insert_le [of ?D a] by linarith
      then obtain s3 where s3: "fnet_free_netbuf A s2 a = Some s3" "bufs s3 = bufs s2"
          "mem_ok owns s3 ?R (insert a ?D - {a})"
        using free_netbuf_ok [OF s2(3) [OF True], of a] by blast
      have "insert a ?D - {a} = ?D" using a(1) by simp
      with s3 s2(2) s1(2) have "nb_inv owns X s3 L" "same_bytes s s3 L" by (simp_all add: inv same)
      then show ?thesis
        using \<open>a \<noteq> 0\<close> True s1(1) s2(1) s3(1) by (simp add: fnet_netbuf_new_def malloc_drain_def l)
    next
      case False
      with s2(4) have d: "d \<notin> insert a ?D" "d \<notin> dom (bufs s)"
        and m2: "mem_ok owns s2 ?R (insert d (insert a ?D))" using s1(2) by auto
      let ?s = "new_data s2 d len"
      let ?n = "\<lparr>nb_addr = a, nb_data = d, nb_off = 0, nb_length = len, nb_total_length = len, nb_flags = 0\<rparr>"
      have "size ?R \<le> card (insert a ?D)" using m0(2) card_insert_le [of ?D a] by linarith
      note nd = new_data_ok [OF m2 d(1) this, of len]
      have dn: "d \<notin> nb_data ` set L" using d(2) m0(1) by (auto simp: mem_ok_def)
      have bs: "bytes_at ?s e = bytes_at s e" if "e \<in> nb_data ` set L" for e
      proof -
        have "e \<noteq> d" using that dn by blast
        with nd(3) have "bytes_at ?s e = bytes_at s2 e" using assms(2) by simp
        then show ?thesis using s1(2) s2(2) by (simp add: bytes_at_def)
      qed
      have len: "length (bytes_at ?s d) = len" using nd(2) assms(2) by (simp add: raw_bytes_def)
      have "nb_inv owns X ?s (?n # L)"
        using nd(1) assms a(1) d(1) len bs by (auto simp: nb_inv_def in_buf_def)
      moreover have "same_bytes s ?s L" using bs by (auto simp: same_bytes_def)
      moreover have "fnet_netbuf_new A dr s len False = Some (?s, [?n])"
        using \<open>a \<noteq> 0\<close> False s1(1) s2(1) by (simp add: fnet_netbuf_new_def malloc_drain_def l)
      ultimately show ?thesis using dn len by auto
    qed
  qed
qed

lemma from_buf_ok:
  assumes "nb_inv owns X s L" "length data + 12 \<le> 4294967296"
  shows "\<exists>s' c. fnet_netbuf_from_buf A dr s data False = Some (s', c) \<and> same_bytes s s' L
     \<and> nb_inv owns X s' (c @ L) \<and> (c \<noteq> [] \<longrightarrow> chain_bytes s' c = data)"
proof -
  obtain s1 c where s1: "fnet_netbuf_new A dr s (length data) False = Some (s1, c)" "same_bytes s s1 L"
    and c: "c = [] \<and> nb_inv owns X s1 L
        \<or> (\<exists>n. c = [n] \<and> nb_inv owns X s1 (n # L) \<and> nb_length n = length data
             \<and> nb_off n = 0 \<and> nb_data n \<notin> nb_data ` set L \<and> length (bytes_at s1 (nb_data n)) = length data)"
    by (rule netbuf_new_ok [OF assms, THEN exE], elim exE conjE)
      (rule that, assumption+, blast)
  show ?thesis
  proof (cases c)
    case Nil
    with s1 c show ?thesis by (simp add: fnet_netbuf_from_buf_def)
  next
    case (Cons n _)
    with c have n: "c = [n]" "nb_inv owns X s1 (n # L)" "nb_length n = length data" "nb_off n = 0"
      "nb_data n \<notin> nb_data ` set L" "length (bytes_at s1 (nb_data n)) = length data" by auto
    have m: "nb_data n \<in># mset (map nb_data (n # L))"
      and fit: "0 + length data \<le> length (bytes_at s1 (nb_data n))" using n(6) by simp_all
    obtain s2 where s2: "write_data s1 (nb_data n) 0 data = Some s2"
        "mem_ok owns s2 (mset (map nb_data (n # L))) (set (map nb_addr (n # L)) \<union> X)"
        "bytes_at s2 (nb_data n) = take 0 (bytes_at s1 (nb_data n)) @ data
           @ drop (0 + length data) (bytes_at s1 (nb_data n))"
        "\<And>e. e \<noteq> nb_data n \<Longrightarrow> bytes_at s2 e = bytes_at s1 e"
      by (rule write_data_ok [OF nb_inv_mem(1) [OF n(2)] m fit], rule that)
    have full: "bytes_at s2 (nb_data n) = data" using s2(3) n(6) by simp
    have same: "same_bytes s1 s2 L"
      unfolding same_bytes_def using s2(4) n(5) by (metis image_eqI)
    have "nb_inv owns X s2 (n # L)"
      using n(2,3,4) s2(2) full same by (auto simp: nb_inv_def in_buf_def same_bytes_def)
    moreover have "chain_bytes s2 [n] = data" using full n(3,4) by (simp add: chain_bytes_def nb_bytes_def)
    ultimately show ?thesis
      using s1 s2(1) n(1,4) same_bytes_trans [OF s1(2) same] by (simp add: fnet_netbuf_from_buf_def)
  qed
qed

end

end
