(* ===== verification/Fnet_Netbuf_Ops.thy ===== *)
theory Fnet_Netbuf_Ops
  imports Fnet_Netbuf
begin

text \<open>
  What the operations of \<^verbatim>\<open>fnet_netbuf.c\<close> do to the bytes of a chain and to the
  reference counts, proved under the allocator's contract and then for the memory pool.
\<close>

section \<open>Lists of net buffers\<close>

lemma chain_length_simps [simp]:
  "chain_length [] = 0"
  "chain_length (n # c) = nb_length n + chain_length c"
  "chain_length (c @ c') = chain_length c + chain_length c'"
  by (simp_all add: chain_length_def)

lemma chain_bytes_simps [simp]:
  "chain_bytes s [] = []"
  "chain_bytes s (n # c) = nb_bytes s n @ chain_bytes s c"
  "chain_bytes s (c @ c') = chain_bytes s c @ chain_bytes s c'"
  by (simp_all add: chain_bytes_def)

lemma length_nb_bytes: "in_buf s n \<Longrightarrow> length (nb_bytes s n) = nb_length n"
  by (simp add: in_buf_def nb_bytes_def)

lemma length_chain_bytes: "\<forall>n\<in>set c. in_buf s n \<Longrightarrow> length (chain_bytes s c) = chain_length c"
  by (induction c) (simp_all add: length_nb_bytes)

lemma same_bytes_nb: "same_bytes s s' L \<Longrightarrow> n \<in> set L \<Longrightarrow> nb_bytes s' n = nb_bytes s n"
  by (simp add: same_bytes_def nb_bytes_def)

lemma same_bytes_chain: "same_bytes s s' L \<Longrightarrow> set c \<subseteq> set L \<Longrightarrow> chain_bytes s' c = chain_bytes s c"
  by (induction c) (auto simp: same_bytes_nb)

lemma same_bytes_mono: "same_bytes s s' L \<Longrightarrow> set L' \<subseteq> set L \<Longrightarrow> same_bytes s s' L'"
  by (auto simp: same_bytes_def)

lemma nb_inv_perm:
  assumes "mset L = mset L'"
  shows "nb_inv owns X s L = nb_inv owns X s L'"
proof -
  have "mset (map nb_data L) = mset (map nb_data L')" "mset (map nb_addr L) = mset (map nb_addr L')"
    using assms by simp_all
  then have "distinct (map nb_addr L) = distinct (map nb_addr L')" "set (map nb_addr L) = set (map nb_addr L')"
    by (metis mset_eq_imp_distinct_iff) (metis \<open>mset (map nb_addr L) = mset (map nb_addr L')\<close> mset_eq_setD)
  moreover have "set L = set L'" using assms by (rule mset_eq_setD)
  ultimately show ?thesis
    using \<open>mset (map nb_data L) = mset (map nb_data L')\<close> by (simp only: nb_inv_def)
qed

text \<open>Another view of the same buffer through the same descriptor.\<close>

lemma nb_inv_view:
  assumes "nb_inv owns X s (n # L)" "nb_addr n' = nb_addr n" "nb_data n' = nb_data n" "in_buf s n'"
  shows "nb_inv owns X s (n' # L)"
  using assms by (simp add: nb_inv_def)

lemma nb_inv_in_buf: "nb_inv owns X s L \<Longrightarrow> n \<in> set L \<Longrightarrow> in_buf s n"
  by (simp add: nb_inv_def)

lemma find_offset_ok:
  assumes "t \<le> offset" "offset < t + chain_length nb"
  shows "\<exists>pre n r k. nb = pre @ n # r \<and> find_offset nb t offset = Some (n # r, k)
     \<and> offset = t + chain_length pre + k \<and> k < nb_length n"
  using assms
proof (induction nb arbitrary: t)
  case (Cons n nb)
  show ?case
  proof (cases "t + nb_length n \<le> offset")
    case True
    then obtain pre m r k where "nb = pre @ m # r" "find_offset nb (t + nb_length n) offset = Some (m # r, k)"
        "offset = t + nb_length n + chain_length pre + k" "k < nb_length m"
      using Cons.IH [of "t + nb_length n"] Cons.prems by auto
    then show ?thesis using True by (intro exI [of _ "n # pre"]) auto
  next
    case False
    then show ?thesis using Cons.prems by (intro exI [of _ "[]"]) auto
  qed
qed simp

lemma locate_ok:
  assumes "offset < chain_length nb"
  obtains pre n r k where "nb = pre @ n # r" "locate nb offset = Some (n # r, k)"
    "offset = chain_length pre + k" "k < nb_length n"
proof (cases nb)
  case (Cons n r)
  show ?thesis
  proof (cases "nb_length n > offset")
    case True
    then show ?thesis using that [of "[]" n r offset] Cons by (simp add: locate_def)
  next
    case False
    then have l: "locate nb offset = find_offset nb 0 offset" using Cons by (simp add: locate_def)
    obtain pre m r' k where "nb = pre @ m # r'" "find_offset nb 0 offset = Some (m # r', k)"
        "offset = 0 + chain_length pre + k" "k < nb_length m"
      using find_offset_ok [of 0 offset nb] assms by auto
    then show ?thesis using that l by simp
  qed
qed (use assms in simp)

text \<open>Dropping into a chain lands inside one net buffer.\<close>

lemma drop_chain_bytes:
  assumes "\<forall>m\<in>set (pre @ n # r). in_buf s m" "k \<le> nb_length n"
  shows "drop (chain_length pre + k) (chain_bytes s (pre @ n # r))
         = drop k (nb_bytes s n) @ chain_bytes s r"
proof -
  have "length (chain_bytes s pre) = chain_length pre" "length (nb_bytes s n) = nb_length n"
    using assms(1) by (simp_all add: length_chain_bytes length_nb_bytes)
  then show ?thesis using assms(2) by simp
qed

lemma nb_inv_views:
  assumes "nb_inv owns X s L" "map nb_addr L' = map nb_addr L" "map nb_data L' = map nb_data L"
    and "\<forall>n\<in>set L'. in_buf s n"
  shows "nb_inv owns X s L'"
  using assms unfolding nb_inv_def by (metis (no_types, lifting))

text \<open>Only \<^verbatim>\<open>total_length\<close> of the first net buffer is meaningful: the length of the chain.\<close>

definition total_ok :: "netbuf list \<Rightarrow> bool" where
  "total_ok c = (c \<noteq> [] \<longrightarrow> nb_total_length (hd c) = chain_length c)"

lemma set_total_frame [frame_simps]:
  "map nb_addr (set_total f c) = map nb_addr c"
  "map nb_data (set_total f c) = map nb_data c"
  "chain_length (set_total f c) = chain_length c"
  "chain_bytes s (set_total f c) = chain_bytes s c"
  "(\<forall>n\<in>set (set_total f c). in_buf s n) = (\<forall>n\<in>set c. in_buf s n)"
  "set_total f c = [] \<longleftrightarrow> c = []"
  by (cases c; simp add: set_total_def nb_bytes_def in_buf_def)+

lemma nb_inv_set_total [frame_simps]: "nb_inv owns X s (set_total f c @ S) = nb_inv owns X s (c @ S)"
  by (cases c) (simp_all add: set_total_def nb_inv_def in_buf_def)

lemma total_ok_set_total:
  "(c \<noteq> [] \<Longrightarrow> f (nb_total_length (hd c)) = chain_length c) \<Longrightarrow> total_ok (set_total f c)"
  by (cases c) (auto simp: total_ok_def set_total_def)

lemma set_total_addr [frame_simps]:
  "nb_addr ` set (set_total f c) = nb_addr ` set c" "nb_data ` set (set_total f c) = nb_data ` set c"
  by (metis list.set_map set_total_frame(1)) (metis list.set_map set_total_frame(2))

lemma nb_bytes_shrink:
  assumes "k \<le> nb_length n" "nb_data n' = nb_data n" "nb_off n' = nb_off n + k" "nb_length n' = nb_length n - k"
  shows "nb_bytes s n' = drop k (nb_bytes s n)"
  using assms by (simp add: nb_bytes_def drop_take add.commute)

lemma nb_bytes_cut:
  assumes "l \<le> nb_length n" "nb_data n' = nb_data n" "nb_off n' = nb_off n" "nb_length n' = l"
  shows "nb_bytes s n' = take l (nb_bytes s n)"
  using assms by (simp add: nb_bytes_def min_absorb1)

lemma trim_find_ok:
  assumes "k \<le> t0 + chain_length c" "c \<noteq> []" "t = t0 + nb_length (hd c)" "t0 < k \<or> t0 = 0"
    and "t0 + chain_length c < 2147483648"
  shows "\<exists>before n r t'. trim_find c t (int k) = (before, n # r, t') \<and> c = before @ n # r
     \<and> t' = t0 + chain_length before + nb_length n \<and> k \<le> t'
     \<and> (before = [] \<or> t0 + chain_length before < k)"
  using assms
proof (induction c arbitrary: t t0)
  case (Cons n c)
  then have t: "t = t0 + nb_length n" by simp
  show ?case
  proof (cases "t < k")
    case False
    then show ?thesis using t Cons.prems(5) by (intro exI [of _ "[]"]) simp
  next
    case True
    then have ne: "c \<noteq> []" using Cons.prems(1) t by auto
    let ?t = "case c of [] \<Rightarrow> t | m # _ \<Rightarrow> w32 (t + nb_length m)"
    have small: "t + chain_length c < 2147483648" using Cons.prems(5) t by simp
    then have "?t = t + nb_length (hd c)" using ne by (cases c) auto
    have "k \<le> t + chain_length c" using Cons.prems(1) t by simp
    from Cons.IH [OF this ne \<open>?t = t + nb_length (hd c)\<close> _ small] True
    obtain before m r t' where r: "trim_find c ?t (int k) = (before, m # r, t')" "c = before @ m # r"
        "t' = t + chain_length before + nb_length m" "k \<le> t'" "before = [] \<or> t + chain_length before < k"
      by blast
    then show ?thesis using True t Cons.prems(5) by (intro exI [of _ "n # before"]) auto
  qed
qed simp

section \<open>The net buffers under the allocator's contract\<close>

context block_allocator
begin

lemma share_ok:
  assumes "nb_inv owns X s L" "n \<in> set L" "bufs s1 = bufs s" "a \<notin> set (map nb_addr L) \<union> X"
    and "mem_ok owns s1 (mset (map nb_data L)) (insert a (set (map nb_addr L) \<union> X))"
  obtains s2 where "ref_data s1 (nb_data n) = Some s2" "\<And>e. bytes_at s2 e = bytes_at s e"
    "\<And>n'. nb_addr n' = a \<Longrightarrow> nb_data n' = nb_data n \<Longrightarrow> in_buf s n' \<Longrightarrow> nb_inv owns X s2 (n' # L)"
    "raw s2 = raw s1"
proof -
  let ?D = "set (map nb_addr L) \<union> X"
  have m: "nb_data n \<in># mset (map nb_data L)" using assms(2) by simp
  have "card (insert a ?D) = Suc (card ?D)"
    using owned_finite [OF nb_inv_mem(1) [OF assms(1)]] assms(4) by (rule card_insert_disjoint)
  then have "size (mset (map nb_data L)) < card (insert a ?D)"
    using nb_inv_mem(2) [OF assms(1)] by linarith
  then obtain s2 where s2: "ref_data s1 (nb_data n) = Some s2"
      "mem_ok owns s2 (add_mset (nb_data n) (mset (map nb_data L))) (insert a ?D)"
      "\<And>e. bytes_at s2 e = bytes_at s1 e" "raw s2 = raw s1"
    using ref_data_ok [OF assms(5) m] by metis
  have same: "bytes_at s2 e = bytes_at s e" for e
    using s2(3) assms(3) by (simp add: bytes_at_def)
  show ?thesis
  proof (rule that [OF s2(1) same _ s2(4)])
    fix n' assume "nb_addr n' = a" "nb_data n' = nb_data n" "in_buf s n'"
    then show "nb_inv owns X s2 (n' # L)"
      using s2(2) assms(1,4) same by (auto simp: nb_inv_def in_buf_def)
  qed
qed

lemma free_descriptors_total:
  "owns (pool s) H \<Longrightarrow> distinct (map nb_addr c) \<Longrightarrow> nb_addr ` set c \<subseteq> H
   \<Longrightarrow> \<exists>s'. free_descriptors A s c = Some s'"
proof (induction c arbitrary: s H)
  case (Cons n c)
  then obtain p where p: "a_free A (pool s) (nb_addr n) = Some p" "owns p (H - {nb_addr n})"
    using free_owned [of "pool s" H "nb_addr n"] by auto
  have "nb_addr ` set c \<subseteq> H - {nb_addr n}" using Cons.prems(2,3) by (simp add: subset_Diff_insert)
  then have "\<exists>s'. free_descriptors A (s\<lparr>pool := p\<rparr>) c = Some s'"
    using Cons.IH [of "s\<lparr>pool := p\<rparr>" "H - {nb_addr n}"] p(2) Cons.prems(2) by simp
  then show ?case by (simp add: fnet_free_netbuf_def p(1))
qed simp

lemma copy_loop_ok:
  assumes "nb_inv owns X s (made @ S)" "made \<noteq> []" "set r \<subseteq> set S" "0 < k" "k \<le> chain_length r"
    and "chain_length r < 2147483648"
  shows "\<exists>s' c. copy_loop A dr False s (n0 # r) (int k) made = Some (s', c)
     \<and> (c \<noteq> [] \<longrightarrow> nb_inv owns X s' (c @ S) \<and> same_bytes s s' (made @ S)
          \<and> (\<exists>extra. c = made @ extra \<and> chain_bytes s' extra = take k (chain_bytes s r)
               \<and> chain_length extra = k))"
  using assms
proof (induction r arbitrary: s n0 k made)
  case (Cons n r)
  let ?D = "set (map nb_addr (made @ S)) \<union> X"
  obtain s1 a where s1: "fnet_malloc_netbuf A s sizeof_netbuf = Some (s1, a)" "bufs s1 = bufs s"
      "a = 0 \<Longrightarrow> mem_ok owns s1 (mset (map nb_data (made @ S))) ?D"
      "a \<noteq> 0 \<Longrightarrow> a \<notin> ?D \<and> a \<notin> dom (bufs s)
         \<and> mem_ok owns s1 (mset (map nb_data (made @ S))) (insert a ?D)"
    by (rule malloc_netbuf_ok [OF nb_inv_mem(1) [OF Cons.prems(1)], of sizeof_netbuf])
      (simp add: sizeof_netbuf_def, rule that)
  show ?case
  proof (cases "a = 0")
    case True
    have "nb_inv owns X s1 (made @ S)"
      using s1(2) s1(3) [OF True] Cons.prems(1) by (auto simp: nb_inv_def in_buf_def bytes_at_def)
    moreover obtain m made' where made: "made = m # made'" using Cons.prems(2) by (cases made) auto
    ultimately obtain s2 where s2: "\<And>next. fnet_netbuf_free A s1 (m # next) = Some (s2, next)"
        "nb_inv owns X s2 (made' @ S)"
      using netbuf_free_ok [of X s1 m "made' @ S"] by auto
    have "owns (pool s2) (dom (bufs s2) \<union> (set (map nb_addr (made' @ S)) \<union> X))"
      using s2(2) by (simp add: nb_inv_def mem_ok_def)
    moreover have "distinct (map nb_addr made')" using s2(2) by (simp add: nb_inv_def)
    ultimately obtain s3 where "free_descriptors A s2 made' = Some s3"
      using free_descriptors_total [of s2 _ made'] by fastforce
    then have "copy_loop A dr False s (n0 # n # r) (int k) made = Some (s3, [])"
      using s1(1) True s2(1) made by (simp add: malloc_drain_def)
    then show ?thesis by simp
  next
    case False
    with s1(4) have a: "a \<notin> ?D" "mem_ok owns s1 (mset (map nb_data (made @ S))) (insert a ?D)" by auto
    have nS: "n \<in> set (made @ S)" "n \<in> set S" using Cons.prems(3) by auto
    obtain s2 where s2: "ref_data s1 (nb_data n) = Some s2" "\<And>e. bytes_at s2 e = bytes_at s e"
        "\<And>n'. nb_addr n' = a \<Longrightarrow> nb_data n' = nb_data n \<Longrightarrow> in_buf s n' \<Longrightarrow> nb_inv owns X s2 (n' # made @ S)"
        "raw s2 = raw s1"
      using share_ok [OF Cons.prems(1) nS(1) s1(2) a] by blast
    define l where "l = (if k < nb_length n then k else nb_length n)"
    define n' where "n' = \<lparr>nb_addr = a, nb_data = nb_data n, nb_off = nb_off n, nb_length = l,
      nb_total_length = raw_word s2 (a + 20), nb_flags = nb_flags n\<rparr>"
    have inb: "in_buf s n" using nb_inv_in_buf [OF Cons.prems(1) nS(1)] .
    then have "in_buf s n'" by (auto simp: in_buf_def n'_def l_def)
    then have "nb_inv owns X s2 (n' # made @ S)" using s2(3) [of n'] by (simp add: n'_def)
    then have inv: "nb_inv owns X s2 ((made @ [n']) @ S)"
      by (subst nb_inv_perm [of _ "n' # made @ S"]) simp_all
    have same: "same_bytes s s2 L" for L using s2(2) by (simp add: same_bytes_def)
    have bytes: "nb_bytes s'' n' = take l (nb_bytes s n)" if "bytes_at s'' (nb_data n) = bytes_at s (nb_data n)" for s''
      using that by (auto simp: nb_bytes_def n'_def l_def min_def)
    have step: "copy_loop A dr False s (n0 # n # r) (int k) made =
        (if nb_length n < k then copy_loop A dr False s2 (n # r) (int (k - nb_length n)) (made @ [n'])
         else Some (s2, made @ [n']))"
    proof -
      have less: "k < 2147483648" "nb_length n < 2147483648" using Cons.prems(5,6) by simp_all
      have "(if int k - int (nb_length n) < 0 then nat ((int k - int (nb_length n) + int (nb_length n)) mod 4294967296)
          else nb_length n) = l" using less by (simp add: l_def)
      then show ?thesis
        using s1(1) False s2(1) i32_diff [OF less] by (auto simp: malloc_drain_def Let_def n'_def of_nat_diff)
    qed
    show ?thesis
    proof (cases "nb_length n < k")
      case True
      have l: "l = nb_length n" using True by (simp add: l_def)
      have "set r \<subseteq> set S" "0 < k - nb_length n" "k - nb_length n \<le> chain_length r"
          "chain_length r < 2147483648"
        using Cons.prems True by simp_all
      from Cons.IH [OF inv _ this, of n] obtain s3 c where s3:
        "copy_loop A dr False s2 (n # r) (int (k - nb_length n)) (made @ [n']) = Some (s3, c)"
        and c: "c \<noteq> [] \<longrightarrow> nb_inv owns X s3 (c @ S) \<and> same_bytes s2 s3 ((made @ [n']) @ S)
          \<and> (\<exists>extra. c = (made @ [n']) @ extra
               \<and> chain_bytes s3 extra = take (k - nb_length n) (chain_bytes s2 r)
               \<and> chain_length extra = k - nb_length n)" by auto
      have "nb_inv owns X s3 (c @ S) \<and> same_bytes s s3 (made @ S)
          \<and> (\<exists>extra. c = made @ extra \<and> chain_bytes s3 extra = take k (chain_bytes s (n # r))
               \<and> chain_length extra = k)" if ne: "c \<noteq> []"
      proof -
        obtain extra where e: "nb_inv owns X s3 (c @ S)" "same_bytes s2 s3 ((made @ [n']) @ S)"
          "c = (made @ [n']) @ extra" "chain_bytes s3 extra = take (k - nb_length n) (chain_bytes s2 r)"
          "chain_length extra = k - nb_length n"
          using mp [OF c ne] by (elim conjE exE) (rule that)
        have same': "same_bytes s s3 (made @ S)"
          by (rule same_bytes_trans [OF same [of "made @ S"] same_bytes_mono [OF e(2)]]) auto
        have "bytes_at s3 (nb_data n) = bytes_at s (nb_data n)"
          using e(2) s2(2) nS(2) by (auto simp: same_bytes_def)
        then have "chain_bytes s3 (n' # extra) = nb_bytes s n @ take (k - nb_length n) (chain_bytes s r)"
          using bytes [of s3] e(4) same_bytes_chain [OF same, of r r] length_nb_bytes [OF inb] l by simp
        then have "chain_bytes s3 (n' # extra) = take k (chain_bytes s (n # r))"
          using True length_nb_bytes [OF inb] by simp
        moreover have "chain_length (n' # extra) = k" using True e(5) l by (simp add: n'_def)
        moreover have "c = made @ (n' # extra)" using e(3) by simp
        ultimately show ?thesis using e(1) same' by blast
      qed
      then show ?thesis using step True s3 by auto
    next
      case False
      then have l: "l = k" by (auto simp: l_def)
      show ?thesis
      proof (intro exI conjI impI)
        show "copy_loop A dr False s (n0 # n # r) (int k) made = Some (s2, made @ [n'])"
          using step False by simp
        show "chain_bytes s2 [n'] = take k (chain_bytes s (n # r))"
          using bytes [of s2] s2(2) l False length_nb_bytes [OF inb] by simp
        show "chain_length [n'] = k" using l by (simp add: n'_def)
      qed (use inv same in auto)
    qed
  qed
qed simp

lemma netbuf_copy_ok:
  assumes "nb_inv owns X s S" "set nb \<subseteq> set S" "0 < len" "offset + len \<le> chain_length nb"
    and "chain_length nb < 2147483648"
  shows "\<exists>s' c. fnet_netbuf_copy A dr s nb offset len False = Some (s', c)
     \<and> (c \<noteq> [] \<longrightarrow> nb_inv owns X s' (c @ S) \<and> same_bytes s s' S
          \<and> chain_bytes s' c = take len (drop offset (chain_bytes s nb))
          \<and> chain_length c = len \<and> nb_total_length (hd c) = len)"
proof -
  let ?D = "set (map nb_addr S) \<union> X"
  obtain s1 a where s1: "fnet_malloc_netbuf A s sizeof_netbuf = Some (s1, a)" "bufs s1 = bufs s"
      "a = 0 \<Longrightarrow> mem_ok owns s1 (mset (map nb_data S)) ?D"
      "a \<noteq> 0 \<Longrightarrow> a \<notin> ?D \<and> a \<notin> dom (bufs s) \<and> mem_ok owns s1 (mset (map nb_data S)) (insert a ?D)"
    by (rule malloc_netbuf_ok [OF nb_inv_mem(1) [OF assms(1)], of sizeof_netbuf])
      (simp add: sizeof_netbuf_def, rule that)
  obtain head rest where head: "nb = head # rest" using assms(3,4) by (cases nb) auto
  have all: "len \<noteq> FNET_NETBUF_COPYALL" "w32 (len + offset) = len + offset"
    using assms(3-5) by (simp_all add: FNET_NETBUF_COPYALL_def)
  have off: "offset < chain_length nb" using assms(3,4) by linarith
  have tot: "w32 (chain_length nb) = chain_length nb" using assms(5) by simp
  show ?thesis
  proof (cases "a = 0")
    case True
    then show ?thesis
      using s1(1) all tot [unfolded head] assms(4) by (simp add: fnet_netbuf_copy_def head malloc_drain_def)
  next
    case False
    with s1(4) have a: "a \<notin> ?D" "mem_ok owns s1 (mset (map nb_data S)) (insert a ?D)" by auto
    obtain pre n r k where loc: "nb = pre @ n # r" "locate nb offset = Some (n # r, k)"
        "offset = chain_length pre + k" "k < nb_length n" by (rule locate_ok [OF off])
    have nS: "n \<in> set S" and rS: "set r \<subseteq> set S" using loc(1) assms(2) by auto
    have inb: "\<forall>m\<in>set (pre @ n # r). in_buf s m" using assms(1,2) loc(1) by (auto intro: nb_inv_in_buf)
    then have inn: "in_buf s n" by simp
    have dropped: "drop offset (chain_bytes s nb) = drop k (nb_bytes s n) @ chain_bytes s r"
      unfolding loc(1,3) by (rule drop_chain_bytes [OF inb]) (use loc(4) in simp)
    obtain s2 where s2: "ref_data s1 (nb_data n) = Some s2" "\<And>e. bytes_at s2 e = bytes_at s e"
        "\<And>n'. nb_addr n' = a \<Longrightarrow> nb_data n' = nb_data n \<Longrightarrow> in_buf s n' \<Longrightarrow> nb_inv owns X s2 (n' # S)"
      by (rule share_ok [OF assms(1) nS s1(2) a]) (rule that)
    define l where "l = (if len \<le> nb_length n - k then len else nb_length n - k)"
    define n' where "n' = \<lparr>nb_addr = a, nb_data = nb_data n, nb_off = nb_off n + k, nb_length = l,
      nb_total_length = len, nb_flags = nb_flags head\<rparr>"
    have l: "l \<le> nb_length n - k" by (simp add: l_def)
    have "in_buf s n'" using inn loc(4) l by (auto simp: in_buf_def n'_def)
    then have inv: "nb_inv owns X s2 ([n'] @ S)" using s2(3) [of n'] by (simp add: n'_def)
    have same: "same_bytes s s2 L" for L using s2(2) by (simp add: same_bytes_def)
    have bytes: "nb_bytes s'' n' = take l (drop k (nb_bytes s n))"
      if "bytes_at s'' (nb_data n) = bytes_at s (nb_data n)" for s''
      using that l by (simp add: nb_bytes_def n'_def drop_take add.commute min_absorb1)
    have copy: "fnet_netbuf_copy A dr s nb offset len False =
        (if len \<le> nb_length n - k then Some (s2, [n'])
         else copy_loop A dr False s2 (n # r) (int (len - (nb_length n - k))) [n'])"
    proof -
      have cond: "\<not> (len \<noteq> FNET_NETBUF_COPYALL \<and> (chain_length nb < w32 (len + offset) \<or> chain_length nb < offset))"
        using all off assms(4) by simp
      have less: "len < 2147483648" "nb_length n - k < 2147483648" using assms(4,5) unfolding loc(1) by simp_all
      have "(if int len - int (nb_length n - k) \<le> 0 then len else nb_length n - k) = l"
        by (simp add: l_def del: of_nat_diff)
      then show ?thesis
        using s1(1) False s2(1) all(1) cond [unfolded head] loc(2,4) [unfolded head] i32_diff [OF less]
        unfolding fnet_netbuf_copy_def tot [unfolded head] head
        by (auto simp: malloc_drain_def Let_def n'_def simp flip: of_nat_diff simp del: copy_loop.simps)
    qed
    show ?thesis
    proof (cases "len \<le> nb_length n - k")
      case True
      then have "l = len" by (simp add: l_def)
      then show ?thesis
        using copy True inv same [of S] bytes [of s2] s2(2) dropped length_nb_bytes [OF inn]
        by (simp add: n'_def)
    next
      case False
      then have ll: "l = nb_length n - k" by (simp add: l_def)
      have "len - (nb_length n - k) \<le> chain_length r"
        using assms(4) loc(3,4) unfolding loc(1) by simp
      then obtain s3 c where s3:
        "copy_loop A dr False s2 (n # r) (int (len - (nb_length n - k))) [n'] = Some (s3, c)"
        and c: "c \<noteq> [] \<longrightarrow> nb_inv owns X s3 (c @ S) \<and> same_bytes s2 s3 ([n'] @ S)
          \<and> (\<exists>extra. c = [n'] @ extra
               \<and> chain_bytes s3 extra = take (len - (nb_length n - k)) (chain_bytes s2 r)
               \<and> chain_length extra = len - (nb_length n - k))"
        using copy_loop_ok [OF inv _ rS, of "len - (nb_length n - k)" dr n] False assms(5) loc(1) by auto
      show ?thesis
      proof (intro exI conjI impI)
        show "fnet_netbuf_copy A dr s nb offset len False = Some (s3, c)" using copy False s3 by simp
        assume "c \<noteq> []"
        with c have "nb_inv owns X s3 (c @ S) \<and> same_bytes s2 s3 ([n'] @ S)
          \<and> (\<exists>extra. c = [n'] @ extra
               \<and> chain_bytes s3 extra = take (len - (nb_length n - k)) (chain_bytes s2 r)
               \<and> chain_length extra = len - (nb_length n - k))" by (rule mp)
        then obtain extra where e: "nb_inv owns X s3 (c @ S)" "same_bytes s2 s3 ([n'] @ S)"
          "c = [n'] @ extra" "chain_bytes s3 extra = take (len - (nb_length n - k)) (chain_bytes s2 r)"
          "chain_length extra = len - (nb_length n - k)" by blast
        show "nb_inv owns X s3 (c @ S)" by (rule e)
        show "same_bytes s s3 S"
          by (rule same_bytes_trans [OF same [of S] same_bytes_mono [OF e(2)]]) auto
        have "bytes_at s3 (nb_data n) = bytes_at s (nb_data n)"
          using e(2) s2(2) by (simp add: same_bytes_def n'_def)
        then have "chain_bytes s3 c = drop k (nb_bytes s n) @ take (len - (nb_length n - k)) (chain_bytes s r)"
          using bytes [of s3] e(3,4) same_bytes_chain [OF same, of r r] ll length_nb_bytes [OF inn] by simp
        then show "chain_bytes s3 c = take len (drop offset (chain_bytes s nb))"
          using False length_nb_bytes [OF inn] unfolding dropped by simp
        show "chain_length c = len" using e(3,5) ll False by (simp add: n'_def)
        show "nb_total_length (hd c) = len" using e(3) by (simp add: n'_def)
      qed
    qed
  qed
qed

lemma read_nb_ok:
  assumes "nb_inv owns X s S" "n \<in> set S" "t + l \<le> nb_length n"
  shows "read_data s (nb_data n) (nb_off n + t) l = Some (take l (drop t (nb_bytes s n)))"
proof -
  have "in_buf s n" using assms(1,2) by (rule nb_inv_in_buf)
  then have "nb_off n + t + l \<le> length (bytes_at s (nb_data n))"
    using assms(3) by (simp add: in_buf_def)
  moreover have "nb_data n \<in># mset (map nb_data S)" using assms(2) by simp
  ultimately have "read_data s (nb_data n) (nb_off n + t) l
      = Some (take l (drop (nb_off n + t) (bytes_at s (nb_data n))))"
    using read_data_ok [OF nb_inv_mem(1) [OF assms(1)]] by simp
  then show ?thesis using assms(3) by (simp add: nb_bytes_def drop_take add.commute)
qed

lemma to_buf_loop_ok:
  assumes "nb_inv owns X s S" "set (n # r) \<subseteq> set S" "t \<le> nb_length n" "t + len \<le> chain_length (n # r)"
  shows "to_buf_loop s (n # r) t len = Some (take len (drop t (chain_bytes s (n # r))))"
  using assms
proof (induction r arbitrary: n t len)
  case Nil
  then have "t + len \<le> nb_length n" by simp
  moreover then have "(if nb_length n - t > len then len else nb_length n - t) = len" by auto
  moreover have "n \<in> set S" using Nil.prems(2) by simp
  ultimately show ?case using read_nb_ok [OF Nil.prems(1)] by simp
next
  case (Cons m r)
  let ?c = "if nb_length n - t > len then len else nb_length n - t"
  have nS: "n \<in> set S" using Cons.prems(2) by simp
  have c: "t + ?c \<le> nb_length n" using Cons.prems(3) by auto
  have len: "length (nb_bytes s n) = nb_length n"
    using length_nb_bytes nb_inv_in_buf [OF Cons.prems(1) nS] by blast
  have rd: "read_data s (nb_data n) (nb_off n + t) ?c = Some (take ?c (drop t (nb_bytes s n)))"
    by (rule read_nb_ok [OF Cons.prems(1) nS c])
  show ?case
  proof (cases "len - ?c = 0")
    case True
    then have "?c = len" by (auto split: if_splits)
    then show ?thesis using rd len Cons.prems(3) c by (simp del: append_take_drop_id)
  next
    case False
    then have e: "?c = nb_length n - t" by (auto split: if_splits)
    have ih: "to_buf_loop s (m # r) 0 (len - ?c) = Some (take (len - ?c) (drop 0 (chain_bytes s (m # r))))"
      using Cons.prems e by (intro Cons.IH [OF Cons.prems(1)]) auto
    have "to_buf_loop s (n # m # r) t len
        = Some (take ?c (drop t (nb_bytes s n)) @ take (len - ?c) (drop 0 (chain_bytes s (m # r))))"
      by (subst to_buf_loop.simps(2))
        (simp only: Let_def rd ih False not_False_eq_True if_True Option.bind.bind_lunit)
    then show ?thesis using False len Cons.prems(3) unfolding e by simp
  qed
qed

lemma to_buf_ok:
  assumes "nb_inv owns X s S" "set nb \<subseteq> set S" "0 < len" "offset + len \<le> chain_length nb"
    and "chain_length nb < 4294967295"
  shows "fnet_netbuf_to_buf s nb offset len = Some (take len (drop offset (chain_bytes s nb)))"
proof -
  have off: "offset < chain_length nb" using assms(3,4) by linarith
  obtain pre n r k where loc: "nb = pre @ n # r" "locate nb offset = Some (n # r, k)"
    "offset = chain_length pre + k" "k < nb_length n" by (rule locate_ok [OF off])
  have inb: "\<forall>m\<in>set (pre @ n # r). in_buf s m" using assms(1,2) loc(1) by (auto intro: nb_inv_in_buf)
  have dropped: "drop offset (chain_bytes s nb) = drop k (chain_bytes s (n # r))"
    unfolding loc(1,3) using drop_chain_bytes [OF inb, of k] loc(4) length_nb_bytes [of s n] inb by simp
  have "to_buf_loop s (n # r) k len = Some (take len (drop k (chain_bytes s (n # r))))"
    by (rule to_buf_loop_ok [OF assms(1)]) (use assms(2,4) loc in auto)
  moreover have "len \<noteq> FNET_NETBUF_COPYALL" "w32 (len + offset) = len + offset"
    using assms(3-5) by (simp_all add: FNET_NETBUF_COPYALL_def)
  moreover have "nb \<noteq> []" using loc(1) by simp
  ultimately show ?thesis
    using loc(2) assms(3,4) unfolding dropped by (simp add: fnet_netbuf_to_buf_def)
qed

text \<open>Trimming at the front.\<close>

lemma trim_front_ok:
  assumes "nb_inv owns X s (c @ S)" "len \<le> t0 + chain_length c" "t0 \<le> len"
    and "c \<noteq> [] \<Longrightarrow> t = t0 + nb_length (hd c)" and "t0 + chain_length c < 4294967296"
  shows "\<exists>s' c' t'. trim_front A s c t len = Some (s', c', t') \<and> nb_inv owns X s' (c' @ S)
     \<and> same_bytes s s' (c' @ S)
     \<and> (\<exists>pre. c = pre @ c' \<and> chain_length pre + t0 \<le> len
          \<and> (c' = [] \<longrightarrow> len = t0 + chain_length c)
          \<and> (c' \<noteq> [] \<longrightarrow> t' = t0 + chain_length pre + nb_length (hd c') \<and> len < t'))"
  using assms
proof (induction c arbitrary: s t t0)
  case Nil
  then show ?case by (simp add: same_bytes_def)
next
  case (Cons n c)
  then have t: "t = t0 + nb_length n" by simp
  show ?case
  proof (cases "t \<le> len")
    case False
    then show ?thesis
      using Cons.prems t by (intro exI [of _ s] exI [of _ "n # c"] exI [of _ t])
        (auto simp: same_bytes_def intro!: exI [of _ "[]"])
  next
    case True
    obtain s1 where s1: "\<And>next. fnet_netbuf_free A s (n # next) = Some (s1, next)"
        "nb_inv owns X s1 (c @ S)" "same_bytes s s1 (c @ S)"
      using netbuf_free_ok [of X s n "c @ S"] Cons.prems(1) by auto
    let ?t = "case c of [] \<Rightarrow> t | m # _ \<Rightarrow> w32 (t + nb_length m)"
    have "\<exists>s' c' t'. trim_front A s1 c ?t len = Some (s', c', t') \<and> nb_inv owns X s' (c' @ S)
     \<and> same_bytes s1 s' (c' @ S)
     \<and> (\<exists>pre. c = pre @ c' \<and> chain_length pre + t \<le> len
          \<and> (c' = [] \<longrightarrow> len = t + chain_length c)
          \<and> (c' \<noteq> [] \<longrightarrow> t' = t + chain_length pre + nb_length (hd c') \<and> len < t'))"
      by (rule Cons.IH [OF s1(2)]) (use Cons.prems True t in \<open>auto split: list.split\<close>)
    then obtain s' c' t' pre where r: "trim_front A s1 c ?t len = Some (s', c', t')"
      "nb_inv owns X s' (c' @ S)" "same_bytes s1 s' (c' @ S)" "c = pre @ c'"
      "chain_length pre + t \<le> len" "c' = [] \<longrightarrow> len = t + chain_length c"
      "c' \<noteq> [] \<longrightarrow> t' = t + chain_length pre + nb_length (hd c') \<and> len < t'" by blast
    have "same_bytes s s' (c' @ S)" by (rule same_bytes_trans [OF s1(3) r(3)]) (use r(4) in auto)
    then show ?thesis
      using s1(1) True r t by (intro exI [of _ s'] exI [of _ c'] exI [of _ t'])
        (auto intro!: exI [of _ "n # pre"])
  qed
qed

lemma trim_head_ok:
  assumes "nb_inv owns X s (c @ S)" "len \<le> nb_total_length (hd c)" "0 < len" "len \<le> chain_length c"
    and "chain_length c < 2147483648"
  shows "\<exists>s' c'. fnet_netbuf_trim A s c (int len) = Some (s', c') \<and> nb_inv owns X s' (c' @ S)
     \<and> same_bytes s s' S \<and> chain_bytes s' c' = drop len (chain_bytes s c)
     \<and> chain_length c' = chain_length c - len \<and> (total_ok c \<longrightarrow> total_ok c')"
proof -
  obtain n0 r0 where c: "c = n0 # r0" using assms(3,4) by (cases c) auto
  have "len \<le> 0 + chain_length c" "0 \<le> len" "nb_length n0 = 0 + nb_length (hd c)" "0 + chain_length c < 4294967296"
    using assms(4,5) c by simp_all
  from trim_front_ok [OF assms(1) this] obtain s1 c1 t' pre where f:
    "trim_front A s c (nb_length n0) len = Some (s1, c1, t')"
    "nb_inv owns X s1 (c1 @ S)" "same_bytes s s1 (c1 @ S)" "c = pre @ c1" "chain_length pre + 0 \<le> len"
    "c1 = [] \<longrightarrow> len = 0 + chain_length c"
    "c1 \<noteq> [] \<longrightarrow> t' = 0 + chain_length pre + nb_length (hd c1) \<and> len < t'"
    by blast
  have inb: "\<forall>m\<in>set c. in_buf s m" using assms(1) by (auto intro: nb_inv_in_buf)
  have same: "same_bytes s s1 S" using f(3) by (rule same_bytes_mono) auto
  have small: "i32 (int len) = int len" using assms(4,5) by simp
  have nl: "\<not> nb_total_length n0 < nat \<bar>int len\<bar>" using assms(2) by (simp add: c)
  show ?thesis
  proof (cases c1)
    case Nil
    have "fnet_netbuf_trim A s c (int len) = Some (s1, [])"
      using f(1) [unfolded c] assms(3) nl Nil unfolding fnet_netbuf_trim_def c
      by (simp add: small del: trim_front.simps)
    moreover have "drop len (chain_bytes s c) = []"
      using f(6) Nil length_chain_bytes [OF inb] by simp
    ultimately show ?thesis using f(2,6) same Nil by (simp add: total_ok_def)
  next
    case (Cons n r)
    define k where "k = len - chain_length pre"
    have t': "t' = chain_length pre + nb_length n" "len < t'" using f(7) Cons by simp_all
    have k: "k < nb_length n" "t' - len = nb_length n - k" using t' f(5) by (simp_all add: k_def)
    let ?n = "n\<lparr>nb_off := nb_off n + nb_length n - (t' - len), nb_length := t' - len,
        nb_flags := nb_flags n0, nb_total_length := nb_total_length n0 - len\<rparr>"
    have trim: "fnet_netbuf_trim A s c (int len) = Some (s1, ?n # r)"
      using f(1) [unfolded c] assms(3) nl Cons unfolding fnet_netbuf_trim_def c
      by (simp add: Let_def small del: trim_front.simps)
    have inn: "in_buf s1 n" using f(2) Cons by (auto intro: nb_inv_in_buf)
    then have "in_buf s1 ?n" using k by (auto simp: in_buf_def)
    moreover have "nb_inv owns X s1 (n # r @ S)" using f(2) Cons by simp
    ultimately have inv: "nb_inv owns X s1 ((?n # r) @ S)"
      using nb_inv_view [of owns X s1 n "r @ S" ?n] by simp
    have "nb_bytes s1 ?n = drop k (nb_bytes s1 n)"
      using k by (intro nb_bytes_shrink) auto
    moreover have "nb_bytes s1 n = nb_bytes s n" "chain_bytes s1 r = chain_bytes s r"
      using f(3) Cons by (auto intro: same_bytes_nb same_bytes_chain)
    moreover have "drop len (chain_bytes s c) = drop k (nb_bytes s n) @ chain_bytes s r"
    proof -
      have "len = chain_length pre + k" using f(5) by (simp add: k_def)
      then show ?thesis
        using drop_chain_bytes [of pre n r s k] inb k(1) unfolding f(4) Cons by simp
    qed
    moreover have "chain_length (?n # r) = chain_length c - len"
      using t' f(4,5) Cons by simp
    moreover have "total_ok c \<longrightarrow> nb_total_length n0 - len = chain_length c - len"
      by (simp add: total_ok_def c)
    ultimately show ?thesis using trim inv same by (auto simp: total_ok_def)
  qed
qed

lemma trim_tail_ok:
  assumes "nb_inv owns X s (c @ S)" "total_ok c" "0 < len" "len \<le> chain_length c"
    and "chain_length c < 2147483648"
  shows "\<exists>s' c'. fnet_netbuf_trim A s c (- int len) = Some (s', c') \<and> nb_inv owns X s' (c' @ S)
     \<and> same_bytes s s' S \<and> chain_bytes s' c' = take (chain_length c - len) (chain_bytes s c) \<and> total_ok c'"
proof -
  let ?keep = "chain_length c - len"
  obtain n0 r0 where c: "c = n0 # r0" using assms(3,4) by (cases c) auto
  have tot: "nb_total_length n0 = chain_length c" using assms(2) by (simp add: total_ok_def c)
  have small: "i32 (- int len) = - int len" "i32 (int (chain_length c)) = int (chain_length c)" using assms(4,5) by simp_all
  have "i32 (int (chain_length c) - int len) = int (chain_length c) - int len" using assms(4,5) by (intro i32_diff) simp_all
  then have goal: "i32 (i32 (int (chain_length c)) + - int len) = int ?keep" using assms(4) small(2) by simp
  have "?keep \<le> 0 + chain_length c" "c \<noteq> []" "nb_length n0 = 0 + nb_length (hd c)" "0 < ?keep \<or> (0::nat) = 0"
      "0 + chain_length c < 2147483648"
    using c assms(5) by simp_all
  from trim_find_ok [OF this] obtain before n r t' where f0:
    "trim_find c (nb_length n0) (int ?keep) = (before, n # r, t')"
    "c = before @ n # r" "t' = 0 + chain_length before + nb_length n" "?keep \<le> t'"
    "before = [] \<or> 0 + chain_length before < ?keep"
    by (elim exE conjE) (rule that)
  note f = f0(1,2) f0(3) [unfolded add_0] f0(4) f0(5) [unfolded add_0]
  define l where "l = ?keep - chain_length before"
  have l: "l \<le> nb_length n" "before = [] \<or> 0 < l" using f(3-5) by (auto simp: l_def)
  have le: "chain_length before \<le> ?keep" using f(5) by auto
  have inb: "\<forall>m\<in>set c. in_buf s m" using assms(1) by (auto intro: nb_inv_in_buf)
  then have inn: "in_buf s n" using f(2) by simp
  have "nb_data n \<in># mset (map nb_data (c @ S))" using f(2) by simp
  then obtain b where b: "bufs s (nb_data n) = Some b" using mem_ok_some [OF nb_inv_mem(1) [OF assms(1)]] by blast
  have "nb_length n < 4294967296"
    using mem_ok_refs(3) [OF nb_inv_mem(1) [OF assms(1)] b] inn b by (simp add: in_buf_def bytes_at_def)
  moreover have "int (nb_length n) + (- int len + int (chain_length c) - int t') = int l"
    using le assms(4) f(3) by (simp add: l_def)
  ultimately have nl: "(int (nb_length n) + (- int len + int (chain_length c) - int t')) mod 4294967296 = int l"
    using l(1) by simp
  let ?n = "n\<lparr>nb_length := l\<rparr>"
  have big: "\<not> nb_total_length n0 < nat \<bar>- int len\<bar>" using tot assms(4) by simp
  have perm: "mset (r @ ?n # before @ S) = mset ((before @ ?n # r) @ S)" by simp
  have "nb_inv owns X s ((before @ ?n # r) @ S)"
  proof (rule nb_inv_views [OF assms(1)])
    have "\<forall>m\<in>set S. in_buf s m" using assms(1) by (auto intro: nb_inv_in_buf)
    then show "\<forall>m\<in>set ((before @ ?n # r) @ S). in_buf s m"
      using f(2) inb inn l(1) by (auto simp: in_buf_def)
  qed (simp_all add: f(2))
  then have "nb_inv owns X s (r @ ?n # before @ S)" using nb_inv_perm [OF perm] by metis
  then obtain s1 where s1: "free_rest A s r = Some s1" "nb_inv owns X s1 (?n # before @ S)"
      "same_bytes s s1 (?n # before @ S)" using free_rest_ok [of X s r "?n # before @ S"] by blast
  have cut: "nb_bytes s ?n = take l (nb_bytes s n)" using l(1) by (intro nb_bytes_cut) auto
  have kept: "take ?keep (chain_bytes s c) = chain_bytes s before @ take l (nb_bytes s n)"
  proof -
    have "length (chain_bytes s before) = chain_length before"
      using inb f(2) by (intro length_chain_bytes) auto
    moreover have "length (nb_bytes s n) = nb_length n" using inn by (rule length_nb_bytes)
    ultimately show ?thesis using le l(1) by (simp add: f(2) l_def)
  qed
  show ?thesis
  proof (cases "l = 0")
    case True
    then have "before = []" using l(2) by simp
    then obtain s2 where s2: "\<And>next. fnet_netbuf_free A s1 (?n # next) = Some (s2, next)"
        "nb_inv owns X s2 S" "same_bytes s1 s2 S"
      using netbuf_free_ok [of X s1 ?n S] s1(2) by auto
    have "fnet_netbuf_trim A s c (- int len) = Some (s2, [])"
      using big assms(3) f(1) [unfolded c] s1(1) s2(1) True nl [unfolded c] tot [unfolded c] goal [unfolded c]
      unfolding fnet_netbuf_trim_def c small(1)
      by (simp add: Let_def del: trim_find.simps i32_nat)
    moreover have "same_bytes s s2 S" by (rule same_bytes_trans [OF s1(3) s2(3)]) auto
    ultimately show ?thesis
      using s2(2) kept True \<open>before = []\<close> by (simp add: total_ok_def)
  next
    case False
    let ?c = "set_total (\<lambda>_. ?keep) (before @ [?n])"
    have "nat (\<bar>- int len\<bar>) = len" by simp
    then have "fnet_netbuf_trim A s c (- int len) = Some (s1, ?c)"
      using big assms(3) f(1) [unfolded c] s1(1) False nl [unfolded c] tot [unfolded c] goal [unfolded c]
      unfolding fnet_netbuf_trim_def c small(1)
      by (simp add: Let_def del: trim_find.simps i32_nat)
    moreover have "nb_inv owns X s1 (before @ ?n # S)"
      using s1(2) by (subst nb_inv_perm [of _ "?n # before @ S"]) simp_all
    then have "nb_inv owns X s1 (?c @ S)" by (simp add: frame_simps)
    moreover have "chain_bytes s1 ?c = take ?keep (chain_bytes s c)"
    proof -
      have "nb_bytes s1 ?n = nb_bytes s ?n" by (rule same_bytes_nb [OF s1(3)]) simp
      moreover have "chain_bytes s1 before = chain_bytes s before" by (rule same_bytes_chain [OF s1(3)]) auto
      ultimately show ?thesis using cut kept by (simp add: frame_simps)
    qed
    moreover have "total_ok ?c"
      by (rule total_ok_set_total) (use le in \<open>simp add: l_def\<close>)
    moreover have "same_bytes s s1 S" using s1(3) by (rule same_bytes_mono) auto
    ultimately show ?thesis by blast
  qed
qed

end

end
