(* ===== verification/Fnet_Netbuf_Cut.thy ===== *)
theory Fnet_Netbuf_Cut
  imports Fnet_Netbuf_Ops
begin

text \<open>
  Cutting bytes out of the middle of a chain (\<^verbatim>\<open>_fnet_netbuf_cut_center\<close>) and the
  other operations that rearrange the net buffers of a chain, proved under the allocator's contract.
\<close>

section \<open>Where the cut starts\<close>

lemma cut_find_ok:
  assumes "t = t0 + nb_length (hd c)" "t0 \<le> offset" "offset < t0 + chain_length c"
    and "t0 + chain_length c < 4294967296"
  shows "\<exists>before n r t'. cut_find c t offset = (before, n # r, t') \<and> c = before @ n # r
     \<and> t' = t0 + chain_length before + nb_length n \<and> t0 + chain_length before \<le> offset \<and> offset < t'"
  using assms
proof (induction c arbitrary: t t0)
  case (Cons n c)
  show ?case
  proof (cases "t \<le> offset")
    case True
    then have "c \<noteq> []" using Cons.prems by auto
    then obtain m c' where c: "c = m # c'" by (cases c) auto
    have small: "w32 (t + nb_length m) = t + nb_length m" using Cons.prems(1,4) c by simp
    have "\<exists>before n' r t'. cut_find c (t + nb_length m) offset = (before, n' # r, t') \<and> c = before @ n' # r
       \<and> t' = t + chain_length before + nb_length n' \<and> t + chain_length before \<le> offset \<and> offset < t'"
      by (rule Cons.IH) (use Cons.prems True c in auto)
    then obtain before n' r t' where f: "cut_find c (t + nb_length m) offset = (before, n' # r, t')"
      "c = before @ n' # r" "t' = t + chain_length before + nb_length n'"
      "t + chain_length before \<le> offset" "offset < t'" by (elim exE conjE)
    have "cut_find (n # c) t offset = (n # before, n' # r, t')" using True f(1) small by (simp add: c)
    moreover have "n # c = (n # before) @ n' # r" using f(2) by simp
    moreover have "t' = t0 + chain_length (n # before) + nb_length n'" "t0 + chain_length (n # before) \<le> offset"
      using f(3,4) Cons.prems(1) by simp_all
    ultimately show ?thesis using f(5) by blast
  next
    case False
    then show ?thesis using Cons.prems by (intro exI [of _ "[]"] exI [of _ n] exI [of _ c] exI [of _ t]) simp
  qed
qed simp

lemma cut_split:
  assumes "c = before @ n # r" "\<forall>m\<in>set c. in_buf s m" "offset = chain_length before + p" "p \<le> nb_length n"
  shows "take offset (chain_bytes s c) = chain_bytes s before @ take p (nb_bytes s n)"
    and "drop (offset + len) (chain_bytes s c) = drop len (drop p (nb_bytes s n) @ chain_bytes s r)"
proof -
  have b: "length (chain_bytes s before) = chain_length before" "length (nb_bytes s n) = nb_length n"
    using assms(1,2) by (simp_all add: length_chain_bytes length_nb_bytes)
  show "take offset (chain_bytes s c) = chain_bytes s before @ take p (nb_bytes s n)"
    using b assms(4) by (simp add: assms(1,3))
  have "drop offset (chain_bytes s c) = drop p (nb_bytes s n) @ chain_bytes s r"
    using drop_chain_bytes [of before n r s p] assms by simp
  then show "drop (offset + len) (chain_bytes s c) = drop len (drop p (nb_bytes s n) @ chain_bytes s r)"
    by (simp add: add.commute flip: drop_drop)
qed

text \<open>The bytes moved down over the cut.\<close>

lemma memcpy_down:
  assumes "at + len + k \<le> length xs"
  shows "map (fnet_memcpy (\<lambda>i. xs ! i) at (at + len) k) [0..<length xs]
       = take at xs @ take k (drop (at + len) xs) @ drop (at + k) xs"
proof (rule nth_equalityI)
  have ok: "clobber_free at (at + len) k" by (simp add: clobber_free_def)
  fix i
  assume "i < length (map (fnet_memcpy (\<lambda>i. xs ! i) at (at + len) k) [0..<length xs])"
  then have i: "i < length xs" by simp
  have at: "min (length xs) at = at" "min (length xs - (at + len)) k = k" using assms by simp_all
  show "map (fnet_memcpy (\<lambda>i. xs ! i) at (at + len) k) [0..<length xs] ! i
      = (take at xs @ take k (drop (at + len) xs) @ drop (at + k) xs) ! i"
    using i assms by (auto simp: fnet_memcpy_blk [OF ok] blk_def nth_append at algebra_simps)
qed (use assms in simp)

lemma list_cut:
  assumes "i + l \<le> length xs" "p + len < l"
  shows "take (l - len) (drop i (take (i + p) xs @ take (l - p - len) (drop (i + p + len) xs)
           @ drop (i + p + (l - p - len)) xs))
       = take p (take l (drop i xs)) @ drop (p + len) (take l (drop i xs))"
proof -
  define a b c d e where "a = take i xs" and "b = take p (drop i xs)" and "c = take len (drop (i + p) xs)"
    and "d = take (l - p - len) (drop (i + p + len) xs)" and "e = drop (i + l) xs"
  have "xs = a @ drop i xs" by (simp add: a_def)
  also have "drop i xs = b @ drop (i + p) xs" by (metis b_def append_take_drop_id drop_drop add.commute)
  also have "drop (i + p) xs = c @ drop (i + p + len) xs"
    by (metis c_def append_take_drop_id drop_drop add.commute)
  also have "drop (i + p + len) xs = d @ e"
  proof -
    have "(l - p - len) + (i + p + len) = i + l" using assms(2) by simp
    then show ?thesis by (metis d_def e_def append_take_drop_id drop_drop)
  qed
  finally have xs: "xs = a @ b @ c @ d @ e" .
  have "length a = i" "length b = p" "length c = len" "length d = l - p - len"
    using assms by (simp_all add: a_def b_def c_def d_def)
  then show ?thesis using assms(2) by (simp add: xs)
qed

section \<open>The cases of the cut\<close>

context block_allocator
begin

lemma nb_inv_rotate: "nb_inv owns X s ((before @ c) @ S) = nb_inv owns X s (c @ before @ S)"
  by (rule nb_inv_perm) simp

lemma cut_done:
  assumes "nb_inv owns X s (c @ S)" "total_ok c" "offset + len \<le> chain_length c" "chain_length c < 4294967296"
    and "nb_inv owns X s' (c' @ S)" "c' \<noteq> []" "nb_total_length (hd c') = nb_total_length (hd c)" "c \<noteq> []"
    and "chain_bytes s' c' = take offset (chain_bytes s c) @ drop (offset + len) (chain_bytes s c)"
  shows "total_ok (set_total (\<lambda>t. w32 (t + 4294967296 - len)) c')"
proof (rule total_ok_set_total)
  have "\<forall>m\<in>set c. in_buf s m" "\<forall>m\<in>set c'. in_buf s' m"
    using assms(1,5) by (auto intro: nb_inv_in_buf)
  then have l: "length (chain_bytes s c) = chain_length c" "length (chain_bytes s' c') = chain_length c'"
    by (simp_all add: length_chain_bytes)
  have "chain_length c' = chain_length c - len" unfolding l(2) [symmetric] assms(9) using l(1) assms(3) by simp
  moreover have "nb_total_length (hd c') = chain_length c" using assms(2,7,8) by (simp add: total_ok_def)
  ultimately show "w32 (nb_total_length (hd c') + 4294967296 - len) = chain_length c'"
    using assms(3,4) by (simp add: w32_sub)
qed

lemma trim_after_ok:
  assumes "nb_inv owns X s ((before @ m # r) @ S)" "0 < k" "k \<le> chain_length (m # r)" "k \<le> T"
    and "chain_length (m # r) < 2147483648"
  shows "\<exists>s' c'. fnet_netbuf_trim A s (m\<lparr>nb_total_length := T\<rparr> # r) (int k) = Some (s', c')
     \<and> nb_inv owns X s' ((before @ c') @ S) \<and> same_bytes s s' (before @ S)
     \<and> chain_bytes s' (before @ c') = chain_bytes s before @ drop k (chain_bytes s (m # r))"
proof -
  let ?m = "m\<lparr>nb_total_length := T\<rparr>"
  have "nb_inv owns X s (m # r @ before @ S)" using assms(1) unfolding nb_inv_rotate by simp
  moreover from this have "in_buf s ?m" by (auto simp: nb_inv_def in_buf_def)
  ultimately have inv: "nb_inv owns X s ((?m # r) @ before @ S)" using nb_inv_view [of owns X s m _ ?m] by simp
  have "chain_bytes s (?m # r) = chain_bytes s (m # r)" "chain_length (?m # r) = chain_length (m # r)"
    by (simp_all add: nb_bytes_def)
  then obtain s' c' where t: "fnet_netbuf_trim A s (?m # r) (int k) = Some (s', c')"
      "nb_inv owns X s' (c' @ before @ S)" "same_bytes s s' (before @ S)"
      "chain_bytes s' c' = drop k (chain_bytes s (m # r))"
    using trim_head_ok [OF inv _ assms(2), of] assms(3-5) by auto
  moreover have "chain_bytes s' before = chain_bytes s before"
    by (rule same_bytes_chain [OF t(3)]) simp
  ultimately show ?thesis unfolding nb_inv_rotate by auto
qed

lemma move_data_ok:
  assumes "mem_ok owns s R D" "d \<in># R" "at + len + k \<le> length (bytes_at s d)"
  obtains s' where "move_data s d at (at + len) k = Some s'" "mem_ok owns s' R D"
    "bytes_at s' d = take at (bytes_at s d) @ take k (drop (at + len) (bytes_at s d)) @ drop (at + k) (bytes_at s d)"
    "\<And>e. e \<noteq> d \<Longrightarrow> bytes_at s' e = bytes_at s e"
proof -
  obtain b where b: "bufs s d = Some b" by (rule mem_ok_some [OF assms(1,2)])
  note m = mem_ok_refs [OF assms(1) b]
  have fit: "at + len + k \<le> length (bytes b)" using assms(3) b by (simp add: bytes_at_def)
  let ?b = "b\<lparr>bytes := map (fnet_memcpy (\<lambda>i. bytes b ! i) at (at + len) k) [0..<length (bytes b)]\<rparr>"
  have "mem_ok owns (s\<lparr>bufs := (bufs s)(d \<mapsto> ?b)\<rparr>) R D"
    by (rule mem_ok_update [OF assms(1) b]) (use assms(1) m in \<open>auto simp: mem_ok_def\<close>)
  then show ?thesis
    using that [of "s\<lparr>bufs := (bufs s)(d \<mapsto> ?b)\<rparr>"] b fit
    by (simp add: move_data_def bytes_at_def memcpy_down)
qed

lemma nb_view_mid:
  assumes "nb_inv owns X s ((before @ n # r) @ S)" "nb_addr n' = nb_addr n" "nb_data n' = nb_data n"
    and "nb_off n' = nb_off n" "nb_length n' \<le> nb_length n"
  shows "nb_inv owns X s ((before @ n' # r) @ S)"
proof -
  have "in_buf s m" if "m \<in> set ((before @ n # r) @ S)" for m
    using nb_inv_in_buf [OF assms(1) that] .
  moreover from this [of n] have "in_buf s n'" using assms by (simp add: in_buf_def)
  ultimately show ?thesis by (intro nb_inv_views [OF assms(1)]) (auto simp: assms(2,3))
qed

lemma cut_owned_ok:
  assumes "nb_inv owns X s ((before @ n # r) @ S)" "bufs s (nb_data n) = Some b" "refs b = 1"
    and "p + len < nb_length n"
  shows "\<exists>s'. move_data s (nb_data n) (nb_off n + p) (nb_off n + p + len) (nb_length n - p - len) = Some s'
     \<and> nb_inv owns X s' ((before @ n\<lparr>nb_length := nb_length n - len\<rparr> # r) @ S)
     \<and> same_bytes s s' (before @ r @ S)
     \<and> nb_bytes s' (n\<lparr>nb_length := nb_length n - len\<rparr>) = take p (nb_bytes s n) @ drop (p + len) (nb_bytes s n)"
proof -
  let ?L = "(before @ n # r) @ S"
  note m = nb_inv_mem(1) [OF assms(1)]
  have inn: "in_buf s n" using assms(1) by (auto intro: nb_inv_in_buf)
  have mem: "nb_data n \<in># mset (map nb_data ?L)" by simp
  have fit: "nb_off n + p + len + (nb_length n - p - len) \<le> length (bytes_at s (nb_data n))"
    using inn assms(4) by (simp add: in_buf_def)
  obtain s' where s': "move_data s (nb_data n) (nb_off n + p) (nb_off n + p + len) (nb_length n - p - len) = Some s'"
      "mem_ok owns s' (mset (map nb_data ?L)) (set (map nb_addr ?L) \<union> X)"
      "bytes_at s' (nb_data n) = take (nb_off n + p) (bytes_at s (nb_data n))
         @ take (nb_length n - p - len) (drop (nb_off n + p + len) (bytes_at s (nb_data n)))
         @ drop (nb_off n + p + (nb_length n - p - len)) (bytes_at s (nb_data n))"
      "\<And>e. e \<noteq> nb_data n \<Longrightarrow> bytes_at s' e = bytes_at s e"
    by (rule move_data_ok [OF m mem fit], rule that)
  have "refs b = count (mset (map nb_data ?L)) (nb_data n)" using mem_ok_refs [OF m assms(2)] by simp
  then have "count (mset (map nb_data (before @ r @ S))) (nb_data n) = 0" using assms(3) by simp
  then have "nb_data n \<notin># mset (map nb_data (before @ r @ S))" by (simp only: not_in_iff)
  then have "nb_data n \<notin> nb_data ` set (before @ r @ S)" by (simp only: set_mset_mset set_map not_False_eq_True)
  then have same: "same_bytes s s' (before @ r @ S)"
    unfolding same_bytes_def by (metis image_eqI s'(4))
  have len: "length (bytes_at s' (nb_data n)) = length (bytes_at s (nb_data n))"
    using s'(3) fit assms(4) by simp
  have "nb_inv owns X s' ?L"
    using assms(1) s'(2) same len by (auto simp: nb_inv_def in_buf_def same_bytes_def)
  then have inv: "nb_inv owns X s' ((before @ n\<lparr>nb_length := nb_length n - len\<rparr> # r) @ S)"
    by (rule nb_view_mid) simp_all
  have "nb_bytes s' (n\<lparr>nb_length := nb_length n - len\<rparr>)
      = take p (nb_bytes s n) @ drop (p + len) (nb_bytes s n)"
    using list_cut [of "nb_off n" "nb_length n" "bytes_at s (nb_data n)" p len] inn assms(4)
    by (simp add: nb_bytes_def s'(3) in_buf_def)
  with s'(1) inv same show ?thesis by blast
qed

lemma cut_shared_ok:
  assumes "nb_inv owns X s ((before @ n # r) @ S)" "p + len < nb_length n" "nb_length n + 12 \<le> 4294967296"
  shows "\<exists>s1 h. fnet_netbuf_new A dr s (nb_length n - p - len) False = Some (s1, h)
     \<and> same_bytes s s1 ((before @ n # r) @ S)
     \<and> (h = [] \<and> nb_inv owns X s1 ((before @ n # r) @ S)
        \<or> (\<exists>m xs s'. h = [m] \<and> write_data s1 (nb_data m) (nb_off m) xs = Some s'
             \<and> read_data s1 (nb_data n) (nb_off n + (p + len)) (nb_length n - p - len) = Some xs
             \<and> nb_inv owns X s' ((before @ n\<lparr>nb_length := p\<rparr> # m # r) @ S)
             \<and> same_bytes s s' ((before @ n # r) @ S) \<and> nb_bytes s' m = drop (p + len) (nb_bytes s n)))"
proof -
  let ?L = "(before @ n # r) @ S" and ?k = "nb_length n - p - len"
  have inn: "in_buf s n" using assms(1) by (auto intro: nb_inv_in_buf)
  have "?k + 12 \<le> 4294967296" using assms(3) by linarith
  from netbuf_new_ok [OF assms(1) this, where dr = dr]
  obtain s1 h where new: "fnet_netbuf_new A dr s ?k False = Some (s1, h)" "same_bytes s s1 ?L"
    and h: "h = [] \<and> nb_inv owns X s1 ?L
        \<or> (\<exists>m. h = [m] \<and> nb_inv owns X s1 (m # ?L) \<and> nb_length m = ?k \<and> nb_total_length m = ?k
             \<and> nb_off m = 0 \<and> nb_data m \<notin> nb_data ` set ?L \<and> length (bytes_at s1 (nb_data m)) = ?k)"
    by (elim exE conjE) (rule that)
  show ?thesis
  proof (cases h)
    case Nil
    with new h show ?thesis by simp
  next
    case (Cons m _)
    with h have m: "h = [m]" "nb_inv owns X s1 (m # ?L)" "nb_length m = ?k" "nb_off m = 0"
      "nb_data m \<notin> nb_data ` set ?L" "length (bytes_at s1 (nb_data m)) = ?k" by auto
    define xs where "xs = drop (p + len) (nb_bytes s n)"
    have "nb_bytes s1 n = nb_bytes s n" by (rule same_bytes_nb [OF new(2)]) simp
    then have read: "read_data s1 (nb_data n) (nb_off n + (p + len)) ?k = Some xs"
      using read_nb_ok [OF m(2), of n "p + len" ?k] assms(2) length_nb_bytes [OF inn] by (simp add: xs_def)
    have lx: "length xs = ?k" using length_nb_bytes [OF inn] by (simp add: xs_def)
    have mem: "nb_data m \<in># mset (map nb_data (m # ?L))"
      and fit: "0 + length xs \<le> length (bytes_at s1 (nb_data m))" using m(6) lx by simp_all
    obtain s' where s': "write_data s1 (nb_data m) 0 xs = Some s'"
        "mem_ok owns s' (mset (map nb_data (m # ?L))) (set (map nb_addr (m # ?L)) \<union> X)"
        "bytes_at s' (nb_data m) = take 0 (bytes_at s1 (nb_data m)) @ xs
           @ drop (0 + length xs) (bytes_at s1 (nb_data m))"
        "\<And>e. e \<noteq> nb_data m \<Longrightarrow> bytes_at s' e = bytes_at s1 e"
      by (rule write_data_ok [OF nb_inv_mem(1) [OF m(2)] mem fit], rule that)
    have full: "bytes_at s' (nb_data m) = xs" using s'(3) m(6) lx by simp
    have same: "same_bytes s1 s' ?L" unfolding same_bytes_def using s'(4) m(5) by (metis image_eqI)
    have bx: "nb_bytes s' m = xs" using full m(3,4) lx by (simp add: nb_bytes_def)
    have "nb_inv owns X s' (m # ?L)"
      using m(2,3,4) s'(2) full same lx by (auto simp: nb_inv_def in_buf_def same_bytes_def)
    then have "nb_inv owns X s' ((before @ n # m # r) @ S)"
      by (subst nb_inv_perm [of _ "m # ?L"]) simp_all
    then have "nb_inv owns X s' ((before @ n\<lparr>nb_length := p\<rparr> # m # r) @ S)"
      by (rule nb_view_mid) (use assms(2) in simp_all)
    moreover have "same_bytes s s' ?L" by (rule same_bytes_trans [OF new(2) same]) simp
    moreover have "write_data s1 (nb_data m) (nb_off m) xs = Some s'" using s'(1) m(4) by simp
    ultimately show ?thesis using new m(1) read bx xs_def by blast
  qed
qed

lemma cut_at_ok:
  assumes inv: "nb_inv owns X s (c @ S)" and tot: "total_ok c" and pos: "0 < len" "0 < offset"
    and len: "offset + len \<le> chain_length c" "chain_length c < 2147483648"
  shows "\<exists>s' c' ok. fnet_netbuf_cut_center A dr s c offset len = Some (s', c', ok)
     \<and> nb_inv owns X s' (c' @ S) \<and> same_bytes s s' S
     \<and> (if ok then chain_bytes s' c' = take offset (chain_bytes s c) @ drop (offset + len) (chain_bytes s c)
               \<and> total_ok c'
        else c' = c \<and> same_bytes s s' c)"
    (is "\<exists>s' c' ok. ?P s' c' ok")
proof -
  obtain n0 r0 where c: "c = n0 # r0" using len(1) pos by (cases c) auto
  have T: "nb_total_length n0 = chain_length c" using tot by (simp add: total_ok_def c)
  have "nb_length n0 = 0 + nb_length (hd c)" "0 \<le> offset" "offset < 0 + chain_length c"
      "0 + chain_length c < 4294967296"
    using c len pos by simp_all
  from cut_find_ok [OF this] obtain before n r t where f0:
    "cut_find c (nb_length n0) offset = (before, n # r, t)" "c = before @ n # r"
    "t = 0 + chain_length before + nb_length n" "0 + chain_length before \<le> offset" "offset < t"
    by (elim exE conjE)
  define p where "p = offset - chain_length before"
  have f: "c = before @ n # r" "t = chain_length before + nb_length n" "offset = chain_length before + p"
    "p < nb_length n" using f0 by (simp_all add: p_def)
  let ?less = "\<lambda>t. w32 (t + 4294967296 - len)"
  have inb: "\<forall>m\<in>set c. in_buf s m" using inv by (auto intro: nb_inv_in_buf)
  have inv': "nb_inv owns X s ((before @ n # r) @ S)" using inv f(1) by simp
  have lb: "length (nb_bytes s n) = nb_length n" using inb f(1) by (simp add: length_nb_bytes)
  note parts = cut_split(1) [OF f(1) inb f(3) less_imp_le [OF f(4)]]
    cut_split(2) [OF f(1) inb f(3) less_imp_le [OF f(4)], of len]
  have start: "\<not> (len = 0 \<or> nb_total_length n0 < w32 (len + offset))" "offset \<noteq> 0"
    using pos len T by simp_all
  have guard: "\<not> chain_length c < w32 (len + offset)" using len by simp
  have arith: "t - nb_length n = offset \<longleftrightarrow> p = 0" "t - offset = nb_length n - p"
    "nb_off n + nb_length n + offset - t = nb_off n + p" using f by auto
  note run = fnet_netbuf_cut_center_def [of A dr s c offset len, unfolded c list.case if_not_P [OF start(1)]
      if_not_P [OF start(2)] f0(1) [unfolded c] Let_def prod.case arith T [unfolded c], folded c]
  have finish: "\<exists>s' c' ok. ?P s' c' ok"
    if "fnet_netbuf_cut_center A dr s c offset len = Some (s', set_total ?less c', True)"
      "nb_inv owns X s' (c' @ S)" "same_bytes s s' S" "c' \<noteq> []" "nb_total_length (hd c') = nb_total_length (hd c)"
      "chain_bytes s' c' = take offset (chain_bytes s c) @ drop (offset + len) (chain_bytes s c)" for s' c'
  proof -
    have "total_ok (set_total ?less c')"
      by (rule cut_done [OF inv tot len(1) _ that(2,4,5) _ that(6)]) (use len(2) c in simp_all)
    then show ?thesis using that by (intro exI [of _ s'] exI [of _ "set_total ?less c'"] exI [of _ True])
        (simp add: frame_simps)
  qed
  have hd_total: "nb_total_length (hd (before @ n' # r')) = nb_total_length (hd c)"
    if "nb_total_length n' = nb_total_length n" for n' r' using that by (cases before) (simp_all add: f(1))
  show ?thesis
  proof (cases "p = 0")
    case True
    then have ne: "before \<noteq> []" using f(3) pos(2) by auto
    have "len \<le> chain_length (n # r)" "len \<le> chain_length c"
      "chain_length (n # r) < 2147483648" using len f(1,3) True by simp_all
    from trim_after_ok [OF inv' pos(1) this] obtain s' c' where
      t: "fnet_netbuf_trim A s (n\<lparr>nb_total_length := chain_length c\<rparr> # r) (int len) = Some (s', c')"
      "nb_inv owns X s' ((before @ c') @ S)" "same_bytes s s' (before @ S)"
      "chain_bytes s' (before @ c') = chain_bytes s before @ drop len (chain_bytes s (n # r))"
      by (elim exE conjE)
    have "fnet_netbuf_cut_center A dr s c offset len = Some (s', set_total ?less (before @ c'), True)"
      unfolding run using guard pos True t(1) by simp
    moreover have "same_bytes s s' S" using t(3) by (rule same_bytes_mono) auto
    ultimately show ?thesis
      by (rule finish [OF _ t(2)]) (use ne f(1) t(4) parts True in simp_all)
  next
    case inside: False
    show ?thesis
    proof (cases "len < nb_length n - p")
      case True
      obtain b where b: "bufs s (nb_data n) = Some b"
        by (rule mem_ok_some [OF nb_inv_mem(1) [OF inv'], of "nb_data n"]) simp_all
      have fit: "p + len < nb_length n" using True by linarith
      show ?thesis
      proof (cases "refs b = 1")
        case one: True
        from cut_owned_ok [OF inv' b one fit] obtain s' where s':
          "move_data s (nb_data n) (nb_off n + p) (nb_off n + p + len) (nb_length n - p - len) = Some s'"
          "nb_inv owns X s' ((before @ n\<lparr>nb_length := nb_length n - len\<rparr> # r) @ S)"
          "same_bytes s s' (before @ r @ S)"
          "nb_bytes s' (n\<lparr>nb_length := nb_length n - len\<rparr>) = take p (nb_bytes s n) @ drop (p + len) (nb_bytes s n)"
          by (elim exE conjE)
        have "fnet_netbuf_cut_center A dr s c offset len
            = Some (s', set_total ?less (before @ n\<lparr>nb_length := nb_length n - len\<rparr> # r), True)"
          unfolding run using guard pos inside True b one s'(1) by simp
        moreover have "same_bytes s s' S" using s'(3) by (rule same_bytes_mono) auto
        moreover have "chain_bytes s' before = chain_bytes s before" "chain_bytes s' r = chain_bytes s r"
          by (rule same_bytes_chain [OF s'(3)]; auto)+
        ultimately show ?thesis
          using True by (intro finish [OF _ s'(2)]) (simp_all add: hd_total s'(4) parts lb add.commute [of p len])
      next
        case shared: False
        have "nb_length n + 12 \<le> 4294967296" using len(2) f(1) by simp
        from cut_shared_ok [OF inv' fit this, where dr = dr] obtain s1 h where
          new: "fnet_netbuf_new A dr s (nb_length n - p - len) False = Some (s1, h)"
          "same_bytes s s1 ((before @ n # r) @ S)"
          and h: "h = [] \<and> nb_inv owns X s1 ((before @ n # r) @ S)
        \<or> (\<exists>m xs s'. h = [m] \<and> write_data s1 (nb_data m) (nb_off m) xs = Some s'
             \<and> read_data s1 (nb_data n) (nb_off n + (p + len)) (nb_length n - p - len) = Some xs
             \<and> nb_inv owns X s' ((before @ n\<lparr>nb_length := p\<rparr> # m # r) @ S)
             \<and> same_bytes s s' ((before @ n # r) @ S) \<and> nb_bytes s' m = drop (p + len) (nb_bytes s n))"
          by (elim exE conjE)
        from h show ?thesis
        proof (elim disjE exE conjE)
          assume "h = []" and i: "nb_inv owns X s1 ((before @ n # r) @ S)"
          then have "fnet_netbuf_cut_center A dr s c offset len = Some (s1, c, False)"
            unfolding run using guard pos inside True b shared new(1) by simp
          moreover have "same_bytes s s1 S" "same_bytes s s1 c"
            by (rule same_bytes_mono [OF new(2)]; auto simp: f(1))+
          ultimately show ?thesis using i f(1) by (intro exI [of _ s1] exI [of _ c] exI [of _ False]) simp
        next
          fix m xs s'
          assume m: "h = [m]" "write_data s1 (nb_data m) (nb_off m) xs = Some s'"
            "read_data s1 (nb_data n) (nb_off n + (p + len)) (nb_length n - p - len) = Some xs"
            "nb_inv owns X s' ((before @ n\<lparr>nb_length := p\<rparr> # m # r) @ S)"
            "same_bytes s s' ((before @ n # r) @ S)" "nb_bytes s' m = drop (p + len) (nb_bytes s n)"
          have "nb_length n - (nb_length n - p) = p" using f(4) by simp
          then have "fnet_netbuf_cut_center A dr s c offset len
              = Some (s', set_total ?less (before @ n\<lparr>nb_length := p\<rparr> # m # r), True)"
            unfolding run using guard pos inside True b shared new(1) m(1-3) by (simp add: add.assoc)
          moreover have "same_bytes s s' S" using m(5) by (rule same_bytes_mono) auto
          moreover have "chain_bytes s' before = chain_bytes s before" "chain_bytes s' r = chain_bytes s r"
            by (rule same_bytes_chain [OF m(5)]; auto)+
          moreover have "nb_bytes s' (n\<lparr>nb_length := p\<rparr>) = take p (nb_bytes s n)"
          proof -
            have "nb_bytes s' n = nb_bytes s n" by (rule same_bytes_nb [OF m(5)]) simp
            then show ?thesis using nb_bytes_cut [of p n "n\<lparr>nb_length := p\<rparr>" s'] f(4) by simp
          qed
          ultimately show ?thesis
            using True by (intro finish [OF _ m(4)]) (simp_all add: hd_total m(6) parts lb add.commute [of p len])
        qed
      qed
    next
      case avail: False
      let ?n = "n\<lparr>nb_length := p\<rparr>"
      have p: "nb_length n - (nb_length n - p) = p" using f(4) by simp
      have view: "nb_inv owns X s ((before @ ?n # r) @ S)"
        by (rule nb_view_mid [OF inv']) (use f(4) in simp_all)
      have bytes: "nb_bytes s ?n = take p (nb_bytes s n)" by (rule nb_bytes_cut) (use f(4) in simp_all)
      show ?thesis
      proof (cases "nb_length n - p = len")
        case True
        have "fnet_netbuf_cut_center A dr s c offset len = Some (s, set_total ?less (before @ ?n # r), True)"
          unfolding run using guard pos inside True p by simp
        then show ?thesis
          using True by (rule_tac finish [OF _ view])
            (simp_all add: hd_total bytes parts lb add.commute [of p len] same_bytes_def lb)
      next
        case False
        define k where "k = len - (nb_length n - p)"
        have k: "0 < k" "k \<le> chain_length r" "k \<le> chain_length c" "chain_length r < 2147483648"
          using avail False len f by (simp_all add: k_def)
        then obtain m r' where r: "r = m # r'" by (cases r) auto
        have view': "nb_inv owns X s (((before @ [?n]) @ m # r') @ S)" using view r by simp
        from trim_after_ok [OF view' k(1) k(2) [unfolded r] k(3) k(4) [unfolded r]] obtain s' c' where
          t: "fnet_netbuf_trim A s (m\<lparr>nb_total_length := chain_length c\<rparr> # r') (int k) = Some (s', c')"
          "nb_inv owns X s' (((before @ [?n]) @ c') @ S)" "same_bytes s s' ((before @ [?n]) @ S)"
          "chain_bytes s' ((before @ [?n]) @ c')
             = chain_bytes s (before @ [?n]) @ drop k (chain_bytes s (m # r'))"
          by (elim exE conjE)
        have "\<not> len < nb_length n - p" "nb_length n - p \<noteq> len" using avail False by simp_all
        then have "fnet_netbuf_cut_center A dr s c offset len
            = Some (s', set_total ?less ((before @ [?n]) @ c'), True)"
          unfolding run using guard pos inside t(1) p by (simp add: r k_def del: of_nat_diff)
        moreover have "same_bytes s s' S" using t(3) by (rule same_bytes_mono) auto
        moreover have "chain_bytes s' ((before @ [?n]) @ c')
            = take offset (chain_bytes s c) @ drop (offset + len) (chain_bytes s c)"
        proof -
          have "drop len (drop p (nb_bytes s n) @ chain_bytes s r) = drop k (chain_bytes s r)"
            using avail lb by (simp add: k_def)
          then show ?thesis unfolding t(4) parts r [symmetric] using bytes by simp
        qed
        ultimately show ?thesis
          by (intro finish [OF _ t(2)]) (simp_all add: hd_total)
      qed
    qed
  qed
qed

lemma cut_center_ok:
  assumes "nb_inv owns X s (c @ S)" "total_ok c" "0 < len" "offset + len \<le> chain_length c"
    and "chain_length c < 2147483648"
  shows "\<exists>s' c' ok. fnet_netbuf_cut_center A dr s c offset len = Some (s', c', ok)
     \<and> nb_inv owns X s' (c' @ S) \<and> same_bytes s s' S
     \<and> (if ok \<or> c' = [] then chain_bytes s' c' = take offset (chain_bytes s c) @ drop (offset + len) (chain_bytes s c)
               \<and> total_ok c'
        else c' = c \<and> same_bytes s s' c)"
proof (cases "offset = 0")
  case True
  obtain n r where c: "c = n # r" using assms(3,4) by (cases c) auto
  have total: "nb_total_length n = chain_length c" "nb_total_length (hd c) = chain_length c"
    using assms(2) by (simp_all add: total_ok_def c)
  have "len \<le> nb_total_length (hd c)" "len \<le> chain_length c" using total assms(4) by simp_all
  from trim_head_ok [OF assms(1) this(1) assms(3) this(2) assms(5)] obtain s' c' where
    t: "fnet_netbuf_trim A s c (int len) = Some (s', c')" "nb_inv owns X s' (c' @ S)" "same_bytes s s' S"
      "chain_bytes s' c' = drop len (chain_bytes s c)" "total_ok c"  "total_ok c \<longrightarrow> total_ok c'"
    using assms(2) by (elim exE conjE) (rule that)
  have "\<not> (len = 0 \<or> nb_total_length n < w32 (len + offset))" using assms(3-5) total by simp
  then have "fnet_netbuf_cut_center A dr s c offset len = Some (s', c', c' \<noteq> [])"
    using t(1) True by (simp add: fnet_netbuf_cut_center_def c)
  moreover have "total_ok c'" using t(5,6) by simp
  ultimately show ?thesis using t(2-4) True by simp
next
  case False
  then have "0 < offset" by simp
  from cut_at_ok [OF assms(1-3) this assms(4,5), where dr = dr] obtain s' c' ok where
    r: "fnet_netbuf_cut_center A dr s c offset len = Some (s', c', ok)" "nb_inv owns X s' (c' @ S)"
      "same_bytes s s' S"
      "if ok then chain_bytes s' c' = take offset (chain_bytes s c) @ drop (offset + len) (chain_bytes s c)
               \<and> total_ok c' else c' = c \<and> same_bytes s s' c" by (elim exE conjE)
  moreover have "c \<noteq> []" using assms(3,4) by auto
  ultimately show ?thesis by (intro exI [of _ s'] exI [of _ c'] exI [of _ ok]) (auto split: if_splits)
qed

section \<open>Concatenation\<close>

lemma concat_ok:
  assumes "nb_inv owns X s (c1 @ c2 @ S)" "total_ok c1" "total_ok c2" "chain_length c1 + chain_length c2 < 4294967296"
  shows "nb_inv owns X s (fnet_netbuf_concat c1 c2 @ S)"
    and "chain_bytes s (fnet_netbuf_concat c1 c2) = chain_bytes s c1 @ chain_bytes s c2"
    and "total_ok (fnet_netbuf_concat c1 c2)"
proof -
  have "nb_inv owns X s (fnet_netbuf_concat c1 c2 @ S)
      \<and> chain_bytes s (fnet_netbuf_concat c1 c2) = chain_bytes s c1 @ chain_bytes s c2
      \<and> total_ok (fnet_netbuf_concat c1 c2)"
  proof (cases "c1 = [] \<or> c2 = []")
    case True
    then show ?thesis using assms(1-3) by (auto simp: fnet_netbuf_concat_def split: list.split)
  next
    case False
    then obtain n r m q where c: "c1 = n # r" "c2 = m # q" by (meson neq_Nil_conv)
    let ?n = "n\<lparr>nb_flags := nb_flags n OR nb_flags m,
      nb_total_length := w32 (nb_total_length n + nb_total_length m)\<rparr>"
    have "nb_inv owns X s (n # r @ c2 @ S)" using assms(1) c by simp
    then have "nb_inv owns X s (?n # r @ c2 @ S)"
      by (rule nb_inv_view) (use assms(1) c in \<open>auto simp: in_buf_def dest: nb_inv_in_buf\<close>)
    moreover have "nb_bytes s ?n = nb_bytes s n" by (simp add: nb_bytes_def)
    ultimately show ?thesis
      using assms(2-4) c by (auto simp: fnet_netbuf_concat_def total_ok_def)
  qed
  then show "nb_inv owns X s (fnet_netbuf_concat c1 c2 @ S)"
    and "chain_bytes s (fnet_netbuf_concat c1 c2) = chain_bytes s c1 @ chain_bytes s c2"
    and "total_ok (fnet_netbuf_concat c1 c2)" by blast+
qed

end

end
