(* ===== verification/Fnet_Netbuf_Pullup.thy ===== *)
theory Fnet_Netbuf_Pullup
  imports Fnet_Netbuf_Cut
begin

text \<open>
  \<^verbatim>\<open>_fnet_netbuf_pullup\<close>: what it does when the requested length ends at a net
  buffer's end with another net buffer behind it, and what it does otherwise.
\<close>

section \<open>The search\<close>

lemma pullup_count_boundary:
  assumes "pre \<noteq> []" "t + chain_length pre = len" "t + chain_length (butlast pre) < len"
  shows "pullup_count (pre @ rest) t len = length pre"
  using assms
proof (induction pre arbitrary: t)
  case (Cons n pre)
  show ?case
  proof (cases "pre = []")
    case True
    then show ?thesis using Cons.prems by (simp add: Let_def)
  next
    case False
    then have "t + nb_length n < len" using Cons.prems by simp
    moreover have "pullup_count (pre @ rest) (t + nb_length n) len = length pre"
      by (rule Cons.IH) (use False Cons.prems in auto)
    ultimately show ?thesis using False by (simp add: Let_def)
  qed
qed simp

text \<open>The search passes a prefix that is long enough while the prefix without its last buffer is not.\<close>

lemma pullup_count_split:
  assumes "t < len" "len \<le> t + chain_length c"
  obtains pre n rest where "c = pre @ n # rest" "pullup_count c t len = length pre + 1"
    "t + chain_length pre < len" "len \<le> t + chain_length pre + nb_length n"
proof -
  from assms have "\<exists>pre n rest. c = pre @ n # rest \<and> pullup_count c t len = length pre + 1
      \<and> t + chain_length pre < len \<and> len \<le> t + chain_length pre + nb_length n"
  proof (induction c arbitrary: t)
    case (Cons m c)
    show ?case
    proof (cases "len \<le> t + nb_length m")
      case True
      then show ?thesis using Cons.prems
        by (intro exI [of _ "[]"] exI [of _ m] exI [of _ c]) (simp add: Let_def)
    next
      case False
      then have "c \<noteq> []" using Cons.prems by auto
      from Cons.IH [of "t + nb_length m"] obtain pre n rest where
        "c = pre @ n # rest" "pullup_count c (t + nb_length m) len = length pre + 1"
        "t + nb_length m + chain_length pre < len" "len \<le> t + nb_length m + chain_length pre + nb_length n"
        using False Cons.prems by auto
      then show ?thesis using False \<open>c \<noteq> []\<close>
        by (intro exI [of _ "m # pre"] exI [of _ n] exI [of _ rest]) (simp add: Let_def)
    qed
  qed simp
  then show ?thesis using that by blast
qed

section \<open>Copying into the new buffer\<close>

context block_allocator
begin

lemma write_owned_ok:
  assumes "nb_inv owns X s (m # L)" "nb_data m \<notin> nb_data ` set L"
    and "i + length xs \<le> length (bytes_at s (nb_data m))"
  shows "\<exists>s'. write_data s (nb_data m) i xs = Some s' \<and> nb_inv owns X s' (m # L) \<and> same_bytes s s' L
     \<and> bytes_at s' (nb_data m)
         = take i (bytes_at s (nb_data m)) @ xs @ drop (i + length xs) (bytes_at s (nb_data m))"
proof -
  have mem: "nb_data m \<in># mset (map nb_data (m # L))" by simp
  obtain s' where s': "write_data s (nb_data m) i xs = Some s'"
      "mem_ok owns s' (mset (map nb_data (m # L))) (set (map nb_addr (m # L)) \<union> X)"
      "bytes_at s' (nb_data m)
         = take i (bytes_at s (nb_data m)) @ xs @ drop (i + length xs) (bytes_at s (nb_data m))"
      "\<And>e. e \<noteq> nb_data m \<Longrightarrow> bytes_at s' e = bytes_at s e"
    by (rule write_data_ok [OF nb_inv_mem(1) [OF assms(1)] mem assms(3)], rule that)
  have same: "same_bytes s s' L" unfolding same_bytes_def using s'(4) assms(2) by (metis image_eqI)
  have "length (bytes_at s' (nb_data m)) = length (bytes_at s (nb_data m))" using s'(3) assms(3) by simp
  then have "nb_inv owns X s' (m # L)"
    using assms(1) s'(2) same by (auto simp: nb_inv_def in_buf_def same_bytes_def)
  with s'(1,3) same show ?thesis by blast
qed

lemma pullup_copy_ok:
  assumes "nb_inv owns X s (m # (run @ rest) @ S)" "nb_data m \<notin> nb_data ` set ((run @ rest) @ S)"
    and "offset + chain_length run \<le> length (bytes_at s (nb_data m))"
  shows "\<exists>s'. pullup_copy A s (nb_data m) offset (length run) (run @ rest)
       = Some (s', offset + chain_length run, rest)
     \<and> nb_inv owns X s' (m # rest @ S) \<and> same_bytes s s' (rest @ S)
     \<and> bytes_at s' (nb_data m) = take offset (bytes_at s (nb_data m)) @ chain_bytes s run
          @ drop (offset + chain_length run) (bytes_at s (nb_data m))"
  using assms
proof (induction run arbitrary: s offset)
  case Nil
  then show ?case by (simp add: same_bytes_def)
next
  case (Cons n run)
  let ?d = "nb_data m" and ?L = "(n # run @ rest) @ S"
  have inv: "nb_inv owns X s (m # ?L)" using Cons.prems(1) by simp
  then have inn: "in_buf s n" by (auto intro: nb_inv_in_buf)
  have rd: "read_data s (nb_data n) (nb_off n) (nb_length n) = Some (nb_bytes s n)"
    using read_nb_ok [OF inv, of n 0 "nb_length n"] length_nb_bytes [OF inn] by simp
  have fit: "offset + length (nb_bytes s n) \<le> length (bytes_at s ?d)"
    using Cons.prems(3) length_nb_bytes [OF inn] by simp
  have fresh: "?d \<notin> nb_data ` set ?L" using Cons.prems(2) by simp
  from write_owned_ok [OF inv fresh fit] obtain s1 where
    s1: "write_data s ?d offset (nb_bytes s n) = Some s1" "nb_inv owns X s1 (m # ?L)" "same_bytes s s1 ?L"
      "bytes_at s1 ?d = take offset (bytes_at s ?d) @ nb_bytes s n
         @ drop (offset + length (nb_bytes s n)) (bytes_at s ?d)" by (elim exE conjE)
  have "nb_inv owns X s1 (n # m # (run @ rest) @ S)"
    using s1(2) by (subst nb_inv_perm [of _ "m # ?L"]) simp_all
  then obtain s2 where s2: "\<And>next. fnet_netbuf_free A s1 (n # next) = Some (s2, next)"
      "nb_inv owns X s2 (m # (run @ rest) @ S)" "same_bytes s1 s2 (m # (run @ rest) @ S)"
    by (rule netbuf_free_ok) (rule that)
  have d2: "bytes_at s2 ?d = bytes_at s1 ?d" using s2(3) by (simp add: same_bytes_def)
  have lenb: "length (nb_bytes s n) = nb_length n" by (rule length_nb_bytes [OF inn])
  have "length (bytes_at s2 ?d) = length (bytes_at s ?d)" using d2 s1(4) fit by simp
  then have "offset + nb_length n + chain_length run \<le> length (bytes_at s2 ?d)"
    using Cons.prems(3) by simp
  from Cons.IH [OF s2(2) _ this] fresh obtain s' where
    s': "pullup_copy A s2 ?d (offset + nb_length n) (length run) (run @ rest)
         = Some (s', offset + nb_length n + chain_length run, rest)"
      "nb_inv owns X s' (m # rest @ S)" "same_bytes s2 s' (rest @ S)"
      "bytes_at s' ?d = take (offset + nb_length n) (bytes_at s2 ?d) @ chain_bytes s2 run
          @ drop (offset + nb_length n + chain_length run) (bytes_at s2 ?d)" by auto
  have "same_bytes s s2 ((run @ rest) @ S)"
    by (rule same_bytes_trans [OF s1(3) same_bytes_mono [OF s2(3)]]) auto
  moreover from this have "chain_bytes s2 run = chain_bytes s run" by (rule same_bytes_chain) simp
  moreover have "bytes_at s' ?d = take offset (bytes_at s ?d) @ (nb_bytes s n @ chain_bytes s run)
      @ drop (offset + (nb_length n + chain_length run)) (bytes_at s ?d)"
    using fit s'(4) \<open>chain_bytes s2 run = chain_bytes s run\<close> unfolding d2 s1(4) lenb [symmetric]
    by (simp add: add.commute add.left_commute)
  ultimately show ?case
    using rd s1(1) s2(1) s'(1,2) same_bytes_trans [of s s2 "(run @ rest) @ S" s' "rest @ S"] s'(3)
    by (simp add: add.assoc)
qed

lemma pullup_start_ok:
  assumes "nb_inv owns X s (nb # L)" "nb_length nb \<le> len" "len + 12 \<le> 4294967296"
  obtains (null) s1 where "fnet_malloc_netbuf A s (w32 (len + 4)) = Some (s1, 0)" "nb_inv owns X s1 (nb # L)"
      "same_bytes s s1 (nb # L)"
  | (new) s1 d s3 s4 where "fnet_malloc_netbuf A s (w32 (len + 4)) = Some (s1, d)" "d \<noteq> 0"
      "read_data (new_data s1 d len) (nb_data nb) (nb_off nb) (nb_length nb) = Some (nb_bytes s nb)"
      "write_data (new_data s1 d len) d 0 (nb_bytes s nb) = Some s3"
      "release_data A s3 (nb_data nb) = Some s4"
      "nb_inv owns X s4 (nb\<lparr>nb_data := d, nb_off := 0, nb_length := len\<rparr> # L)" "same_bytes s s4 L"
      "d \<notin> nb_data ` set L" "length (bytes_at s4 d) = len" "take (nb_length nb) (bytes_at s4 d) = nb_bytes s nb"
proof -
  let ?R = "mset (map nb_data (nb # L))" and ?D = "set (map nb_addr (nb # L)) \<union> X"
  note m = nb_inv_mem [OF assms(1)]
  have w: "w32 (len + 4) = len + 4" "len + 4 + 8 \<le> 4294967296" using assms(3) by simp_all
  have inn: "in_buf s nb" using assms(1) by (auto intro: nb_inv_in_buf)
  obtain s1 d where s1: "fnet_malloc_netbuf A s (len + 4) = Some (s1, d)" "bufs s1 = bufs s"
      "d = 0 \<Longrightarrow> mem_ok owns s1 ?R ?D"
      "d \<noteq> 0 \<Longrightarrow> d \<notin> ?D \<and> d \<notin> dom (bufs s) \<and> mem_ok owns s1 ?R (insert d ?D)"
    by (rule malloc_netbuf_ok [OF m(1) w(2)]) (rule that)
  have b1: "bytes_at s1 e = bytes_at s e" for e using s1(2) by (simp add: bytes_at_def)
  show ?thesis
  proof (cases "d = 0")
    case True
    have "nb_inv owns X s1 (nb # L)"
      using s1(3) [OF True] assms(1) by (auto simp: nb_inv_def in_buf_def b1)
    then show ?thesis using null s1(1) True w b1 by (simp add: same_bytes_def)
  next
    case False
    from s1(4) [OF False] have d: "d \<notin> ?D" "d \<notin> dom (bufs s)" "mem_ok owns s1 ?R (insert d ?D)" by blast+
    have "len < 4294967296" using assms(3) by simp
    note nd = new_data_ok [OF d(3,1) m(2) this]
    have dR: "d \<notin># ?R" using d(2) m(1) by (auto simp: mem_ok_def)
    let ?s2 = "new_data s1 d len"
    have b2: "bytes_at ?s2 e = bytes_at s e" if "e \<noteq> d" for e using nd(3) [OF that] b1 by simp
    have dn: "nb_data nb \<noteq> d" "d \<notin> nb_data ` set L" using dR by auto
    have l2: "length (bytes_at ?s2 d) = len" unfolding nd(2) by (simp add: raw_bytes_def)
    have lb: "length (nb_bytes s nb) = nb_length nb" by (rule length_nb_bytes [OF inn])
    have rd: "read_data ?s2 (nb_data nb) (nb_off nb) (nb_length nb) = Some (nb_bytes s nb)"
      using read_data_ok [OF nd(1), of "nb_data nb" "nb_off nb" "nb_length nb"] inn b2 [OF dn(1)]
      by (simp add: in_buf_def nb_bytes_def)
    have mem: "d \<in># add_mset d ?R" and fit: "0 + length (nb_bytes s nb) \<le> length (bytes_at ?s2 d)"
      using l2 lb assms(2) by simp_all
    obtain s3 where s3: "write_data ?s2 d 0 (nb_bytes s nb) = Some s3" "mem_ok owns s3 (add_mset d ?R) ?D"
        "bytes_at s3 d = take 0 (bytes_at ?s2 d) @ nb_bytes s nb @ drop (0 + length (nb_bytes s nb)) (bytes_at ?s2 d)"
        "\<And>e. e \<noteq> d \<Longrightarrow> bytes_at s3 e = bytes_at ?s2 e"
      by (rule write_data_ok [OF nd(1) mem fit]) (rule that)
    have comm: "add_mset d ?R = add_mset (nb_data nb) (add_mset d (mset (map nb_data L)))" by simp
    note m3 = s3(2) [unfolded comm]
    obtain s4 where s4: "release_data A s3 (nb_data nb) = Some s4"
        "mem_ok owns s4 (add_mset d (mset (map nb_data L))) ?D"
        "\<And>e. e \<in># add_mset d (mset (map nb_data L)) \<Longrightarrow> bytes_at s4 e = bytes_at s3 e"
      by (rule release_data_ok [OF m3]) (rule that)
    have d4: "bytes_at s4 d = nb_bytes s nb @ drop (nb_length nb) (bytes_at ?s2 d)"
      using s4(3) [of d] s3(3) lb by simp
    have same: "same_bytes s s4 L"
      unfolding same_bytes_def
    proof
      fix n
      assume n: "n \<in> set L"
      then have "nb_data n \<noteq> d" using dn(2) by auto
      then show "bytes_at s4 (nb_data n) = bytes_at s (nb_data n)" using s4(3) s3(4) b2 n by simp
    qed
    have l4: "length (bytes_at s4 d) = len" using d4 l2 lb assms(2) by simp
    have "nb_inv owns X s4 (nb\<lparr>nb_data := d, nb_off := 0, nb_length := len\<rparr> # L)"
      using assms(1) s4(2) same l4 by (auto simp: nb_inv_def in_buf_def same_bytes_def)
    then show ?thesis using new [of s1 d s3 s4] s1(1) False w rd s3(1) s4(1) same dn(2) l4 d4 lb by simp
  qed
qed

lemma pullup_boundary_ok:
  assumes inv: "nb_inv owns X s (((nb # run) @ rest) @ S)" and tot: "total_ok (nb # run @ rest)"
    and len: "chain_length (nb # run) = len" "nb_length nb < len" "chain_length (butlast (nb # run)) < len"
      "rest \<noteq> []" "len + 12 \<le> 4294967296"
  shows "\<exists>s' c' ok. fnet_netbuf_pullup A s (nb # run @ rest) len = Some (s', c', ok)
     \<and> nb_inv owns X s' (c' @ S) \<and> same_bytes s s' S
     \<and> (if ok then chain_bytes s' c' = chain_bytes s (nb # run @ rest) \<and> total_ok c' \<and> nb_length (hd c') = len
        else c' = nb # run @ rest \<and> same_bytes s s' c')"
proof -
  obtain n rest' where rest: "rest = n # rest'" using len(4) by (cases rest) auto
  have T: "nb_total_length nb = chain_length (nb # run) + chain_length rest" using tot by (simp add: total_ok_def)
  have guard: "\<not> (len = 0 \<or> len \<le> nb_length nb \<or> nb_total_length nb < len)" using len(1,2) T by linarith
  have count: "pullup_count ((nb # run) @ rest) 0 len = length (nb # run)"
    by (rule pullup_count_boundary) (use len in simp_all)
  have inv': "nb_inv owns X s (nb # (run @ rest) @ S)" using inv by simp
  show ?thesis
  proof (cases rule: pullup_start_ok [OF inv' less_imp_le [OF len(2)] len(5), case_names null new])
    case (null s1)
    have "fnet_netbuf_pullup A s (nb # run @ rest) len = Some (s1, nb # run @ rest, False)"
      using guard null(1) unfolding fnet_netbuf_pullup_def by simp
    moreover have "same_bytes s s1 S" "same_bytes s s1 (nb # run @ rest)"
      by (rule same_bytes_mono [OF null(3)]; auto)+
    ultimately show ?thesis using null(2) by (intro exI [of _ s1] exI [of _ "nb # run @ rest"] exI [of _ False]) simp
  next
    case (new s1 d s3 s4)
    let ?m = "nb\<lparr>nb_data := d, nb_off := 0, nb_length := len\<rparr>"
    have "nb_data ?m \<notin> nb_data ` set ((run @ rest) @ S)"
      "nb_length nb + chain_length run \<le> length (bytes_at s4 (nb_data ?m))" using new(8,9) len(1) by simp_all
    from pullup_copy_ok [OF new(6) this] obtain s5 where
      s5: "pullup_copy A s4 d (nb_length nb) (length run) (run @ rest) = Some (s5, len, rest)"
        "nb_inv owns X s5 (?m # rest @ S)" "same_bytes s4 s5 (rest @ S)"
        "bytes_at s5 d = take (nb_length nb) (bytes_at s4 d) @ chain_bytes s4 run
          @ drop (nb_length nb + chain_length run) (bytes_at s4 d)" using len(1) by auto
    have run4: "chain_bytes s4 run = chain_bytes s run" by (rule same_bytes_chain [OF new(7)]) auto
    have full: "bytes_at s5 d = nb_bytes s nb @ chain_bytes s run"
      using s5(4) new(9,10) len(1) run4 by simp
    have "\<forall>k\<in>set (nb # run). in_buf s k" using inv by (auto intro: nb_inv_in_buf)
    then have "length (nb_bytes s nb @ chain_bytes s run) = len"
      using length_chain_bytes [of "nb # run" s] len(1) by simp
    then have l5: "length (bytes_at s5 d) = len" using full by simp
    have "nb_bytes s5 ?m = bytes_at s5 d" unfolding nb_bytes_def using l5 by simp
    then have m5: "nb_bytes s5 ?m = nb_bytes s nb @ chain_bytes s run" "length (bytes_at s5 d) = len"
      using full l5 by simp_all
    have same: "same_bytes s s5 (rest @ S)" by (rule same_bytes_trans [OF new(7) s5(3)]) auto
    have inn: "in_buf s5 n" using s5(2) rest by (auto intro: nb_inv_in_buf)
    have rd: "read_data s5 (nb_data n) (nb_off n) 0 = Some []"
      using read_nb_ok [OF s5(2), of n 0 0] rest by simp
    have wr: "write_data s5 d len [] = Some s5"
    proof -
      obtain b where "bufs s5 d = Some b"
        by (rule mem_ok_some [OF nb_inv_mem(1) [OF s5(2)], of d]) simp_all
      then show ?thesis using m5(2) by (simp add: write_data_def bytes_at_def fun_upd_idem)
    qed
    have nl: "w32 (nb_length n + 4294967296) = nb_length n"
    proof -
      obtain b where b: "bufs s5 (nb_data n) = Some b"
        using mem_ok_some [OF nb_inv_mem(1) [OF s5(2)], of "nb_data n"] rest by auto
      then have "length (bytes b) < 4294967296" using mem_ok_refs(3) [OF nb_inv_mem(1) [OF s5(2)] b] by simp
      then show ?thesis using inn b by (simp add: in_buf_def bytes_at_def)
    qed
    have run_eq: "fnet_netbuf_pullup A s (nb # run @ rest) len =
        (if nb_length n = 0
         then do { (s, c) \<leftarrow> fnet_netbuf_free A s5 (n\<lparr>nb_length := 0\<rparr> # rest'); Some (s, ?m # c, True) }
         else Some (s5, ?m # rest, True))"
      using guard new(1-5) s5(1) count rd wr nl rest unfolding fnet_netbuf_pullup_def
      by (simp add: Let_def del: pullup_copy.simps pullup_count.simps)
    show ?thesis
    proof (cases "nb_length n = 0")
      case False
      have "chain_bytes s5 rest = chain_bytes s rest" by (rule same_bytes_chain [OF same]) simp
      moreover have "same_bytes s s5 S" using same by (rule same_bytes_mono) auto
      ultimately show ?thesis
        using run_eq False s5(2) m5(1) T len(1)
        by (intro exI [of _ s5] exI [of _ "?m # rest"] exI [of _ True]) (simp add: total_ok_def)
    next
      case True
      have "nb_inv owns X s5 (n # ?m # rest' @ S)"
        using s5(2) rest by (subst nb_inv_perm [of _ "?m # rest @ S"]) simp_all
      then obtain s6 where s6: "\<And>next. fnet_netbuf_free A s5 (n # next) = Some (s6, next)"
          "nb_inv owns X s6 (?m # rest' @ S)" "same_bytes s5 s6 (?m # rest' @ S)"
        by (rule netbuf_free_ok) (rule that)
      have "fnet_netbuf_free A s5 (n\<lparr>nb_length := 0\<rparr> # rest') = Some (s6, rest')"
        using s6(1) [of rest'] by (simp add: fnet_netbuf_free_def)
      moreover have "nb_bytes s n = []" using True by (simp add: nb_bytes_def)
      moreover have "same_bytes s s6 (rest' @ S)"
        by (rule same_bytes_trans [OF same same_bytes_mono [OF s6(3)]]) (auto simp: rest)
      moreover from this have "chain_bytes s6 rest' = chain_bytes s rest'" "same_bytes s s6 S"
        by (auto intro: same_bytes_chain same_bytes_mono)
      moreover have "nb_bytes s6 ?m = nb_bytes s5 ?m" by (rule same_bytes_nb [OF s6(3)]) simp
      ultimately show ?thesis
        using run_eq True s6(2) m5(1) T len(1) rest
        by (intro exI [of _ s6] exI [of _ "?m # rest'"] exI [of _ True]) (simp add: total_ok_def)
    qed
  qed
qed

lemma pullup_copy_add:
  "pullup_copy A s d offset (j + k) run =
     do { (s, offset, run) \<leftarrow> pullup_copy A s d offset j run; pullup_copy A s d offset k run }"
proof (induction j arbitrary: s offset run)
  case (Suc j)
  then show ?case by (cases run) (auto split: Option.bind_split)
qed simp

lemma pullup_copy_overrun:
  assumes "nb_inv owns X s (m # (run @ n # rest) @ S)" "nb_data m \<notin> nb_data ` set ((run @ n # rest) @ S)"
    and "offset + chain_length run \<le> length (bytes_at s (nb_data m))"
      "length (bytes_at s (nb_data m)) < offset + chain_length run + nb_length n"
  shows "pullup_copy A s (nb_data m) offset (length run + 1) (run @ n # rest) = None"
proof -
  from pullup_copy_ok [OF assms(1-3)] obtain s' where s':
    "pullup_copy A s (nb_data m) offset (length run) (run @ n # rest) = Some (s', offset + chain_length run, n # rest)"
    "nb_inv owns X s' (m # (n # rest) @ S)"
    "bytes_at s' (nb_data m) = take offset (bytes_at s (nb_data m)) @ chain_bytes s run
          @ drop (offset + chain_length run) (bytes_at s (nb_data m))" by (elim exE conjE)
  have "\<forall>k\<in>set run. in_buf s k" using assms(1) by (auto intro: nb_inv_in_buf)
  then have "length (bytes_at s' (nb_data m)) = length (bytes_at s (nb_data m))"
    using s'(3) assms(3) length_chain_bytes [of run s] by simp
  moreover have inn: "in_buf s' n" using s'(2) by (auto intro: nb_inv_in_buf)
  ultimately have "write_data s' (nb_data m) (offset + chain_length run) (nb_bytes s' n) = None"
    using assms(4) length_nb_bytes [OF inn] by (auto simp: write_data_def bytes_at_def split: Option.bind_split)
  moreover have "read_data s' (nb_data n) (nb_off n) (nb_length n) = Some (nb_bytes s' n)"
    using read_nb_ok [OF s'(2), of n 0 "nb_length n"] length_nb_bytes [OF inn] by simp
  ultimately show ?thesis unfolding pullup_copy_add s'(1) by simp
qed

lemma pullup_fault_ok:
  assumes inv: "nb_inv owns X s (c @ S)" and tot: "total_ok c" and c: "c = nb # next"
    and len: "nb_length nb < len" "len \<le> chain_length c" "len + 12 \<le> 4294967296"
    and boundary: "\<And>pre rest. c = pre @ rest \<Longrightarrow> rest \<noteq> [] \<Longrightarrow> chain_length pre \<noteq> len"
    and malloc: "fnet_malloc_netbuf A s (w32 (len + 4)) = Some (t, a)" "a \<noteq> 0"
  shows "fnet_netbuf_pullup A s c len = None"
proof -
  have "0 < len" "len \<le> 0 + chain_length c" using len by simp_all
  then obtain pre n rest where sp: "c = pre @ n # rest" "pullup_count c 0 len = length pre + 1"
      "0 + chain_length pre < len" "len \<le> 0 + chain_length pre + nb_length n"
    by (rule pullup_count_split)
  have "pre \<noteq> []" using sp(1,4) c len(1) by (cases pre) auto
  then obtain run where pre: "pre = nb # run" "next = run @ n # rest" using sp(1) c by (cases pre) auto
  have guard: "\<not> (len = 0 \<or> len \<le> nb_length nb \<or> nb_total_length nb < len)"
    using tot len(1,2) by (simp add: total_ok_def c)
  have inv': "nb_inv owns X s (nb # (run @ n # rest) @ S)" using inv c pre by simp
  show ?thesis
  proof (cases rule: pullup_start_ok [OF inv' less_imp_le [OF len(1)] len(3), case_names null new])
    case (null s1)
    then show ?thesis using malloc by simp
  next
    case (new s1 d s3 s4)
    let ?m = "nb\<lparr>nb_data := d, nb_off := 0, nb_length := len\<rparr>"
    have steps: "fnet_netbuf_pullup A s c len = None"
      if "\<And>s' i r. pullup_copy A s4 d (nb_length nb) (length run + 1) (run @ n # rest) = Some (s', i, r) \<Longrightarrow> r = []"
      using that guard new(1-5) sp(2) pre unfolding fnet_netbuf_pullup_def c
      by (auto simp: Let_def split: Option.bind_splits simp del: pullup_copy.simps pullup_count.simps)
    have fresh: "nb_data ?m \<notin> nb_data ` set ((run @ n # rest) @ S)" using new(8) by simp
    have le: "nb_length nb + chain_length run \<le> length (bytes_at s4 (nb_data ?m))"
      using new(9) sp(3) pre(1) by simp
    show ?thesis
    proof (cases "len < chain_length pre + nb_length n")
      case True
      then have "length (bytes_at s4 (nb_data ?m)) < nb_length nb + chain_length run + nb_length n"
        using new(9) pre(1) by simp
      from pullup_copy_overrun [OF new(6) fresh le this] show ?thesis by (intro steps) simp
    next
      case False
      then have "chain_length (pre @ [n]) = len" using sp(4) by simp
      then have "rest = []" using boundary [of "pre @ [n]" rest] sp(1) by auto
      have i: "nb_inv owns X s4 (?m # ((run @ [n]) @ []) @ S)"
        and f: "nb_data ?m \<notin> nb_data ` set (((run @ [n]) @ []) @ S)"
        and l: "nb_length nb + chain_length (run @ [n]) \<le> length (bytes_at s4 (nb_data ?m))"
        using new(6,8,9) False sp(4) pre(1) \<open>rest = []\<close> by simp_all
      from pullup_copy_ok [OF i f l] show ?thesis
        using \<open>rest = []\<close> by (intro steps) (auto simp del: pullup_copy.simps)
    qed
  qed
qed

end

end
