(* ===== verification/Fnet_Netbuf_Main.thy ===== *)
theory Fnet_Netbuf_Main
  imports Fnet_Netbuf_Pullup
begin

text \<open>
  The net buffers on the memory pool the stack really uses. \<^verbatim>\<open>_fnet_heap_init\<close>
  makes one pool with 8 byte alignment (\<^verbatim>\<open>FNET_HEAP_SPLIT\<close> is 0, so the net
  buffers and \<^verbatim>\<open>_fnet_malloc\<close> share it). The interpretation shows that this pool
  keeps the contract of \<open>block_allocator\<close>; the properties of the net buffers below rest on it.
\<close>

section \<open>The heap of the stack\<close>

definition fnet_heap_init :: "(nat \<Rightarrow> unit_header) \<Rightarrow> nat \<Rightarrow> nat \<Rightarrow> mempool option" where
  "fnet_heap_init mem heap_ptr heap_size = fnet_mempool_init mem heap_ptr heap_size 8"

definition main_pool :: "mempool allocator" where
  "main_pool = \<lparr>a_malloc = fnet_mempool_malloc, a_free = fnet_mempool_free\<rparr>"

text \<open>The pool has \<open>N\<close> units from address \<open>a\<close> on; \<open>H\<close> are the blocks handed out.\<close>

definition mempool_owns :: "nat \<Rightarrow> nat \<Rightarrow> mempool \<Rightarrow> nat set \<Rightarrow> bool" where
  "mempool_owns a N mp H = (\<exists>B. pool_inv 8 a N (mp, B) \<and> dom B = H)"

lemma main_pool_simps [simp]:
  "a_malloc main_pool = fnet_mempool_malloc" "a_free main_pool = fnet_mempool_free"
  by (simp_all add: main_pool_def)

lemma pool_inv_held:
  assumes "pool_inv u a N (mp, B)" "p \<in> dom B"
  shows "0 < p" "p < 4294967296"
proof -
  obtain ts where ts: "rep mp a ts" "unit_size mp = u" "dom B = fst ` set (useds u a ts)"
    using assms(1) by (auto simp: pool_inv_def)
  then obtain m where m: "(p, m) \<in> set (useds u a ts)" using assms(2) by auto
  note R = repD [OF ts(1), unfolded ts(2)]
  show "0 < p" "p < 4294967296" using useds_bounds [OF m R(5)] R(2,4) by linarith+
qed

lemma pool_inv_malloc_total:
  assumes "pool_inv u a N (mp, B)" "n + u \<le> 4294967296"
  shows "\<exists>mp' p. fnet_mempool_malloc mp n = Some (mp', p)"
proof -
  obtain ts where ts: "rep mp a ts" "unit_size mp = u" using assms(1) by (auto simp: pool_inv_def)
  have "0 < nunits_of u n" using nunits_of_eq [OF repD(1) [OF ts(1), unfolded ts(2)] assms(2)] by simp
  from malloc_refines [OF ts(1) refl, unfolded ts(2), OF this] show ?thesis by (auto split: if_splits)
qed

interpretation main: block_allocator main_pool "mempool_owns b N" for b N
proof unfold_locales
  fix p H
  assume "mempool_owns b N p H"
  then obtain B where B: "pool_inv 8 b N (p, B)" "dom B = H" by (auto simp: mempool_owns_def)
  have sub: "H \<subseteq> {1..<4294967296}" using pool_inv_held [OF B(1)] B(2) by force
  then have "card H \<le> card {1..<4294967296 :: nat}" by (rule card_mono [OF finite_atLeastLessThan])
  then show "finite H \<and> card H < 4294967296 \<and> 0 \<notin> H" using sub finite_subset [OF sub] by auto
next
  fix p H and n :: nat
  assume "mempool_owns b N p H" "n + 8 \<le> 4294967296"
  then show "\<exists>p' a. a_malloc main_pool p n = Some (p', a)"
    using pool_inv_malloc_total by (auto simp: mempool_owns_def)
next
  fix p H n p'
  assume "mempool_owns b N p H" "n + 8 \<le> 4294967296" "a_malloc main_pool p n = Some (p', 0)"
  then show "mempool_owns b N p' H" using pool_inv_alloc(2) by (fastforce simp: mempool_owns_def)
next
  fix p H n p' a
  assume o: "mempool_owns b N p H" and n: "n + 8 \<le> 4294967296" "a_malloc main_pool p n = Some (p', a)" "a \<noteq> 0"
  then obtain B where B: "pool_inv 8 b N (p, B)" "dom B = H" by (auto simp: mempool_owns_def)
  have new: "B a = None" "pool_inv 8 b N (p', B(a \<mapsto> n))"
    using pool_inv_alloc(1) [OF B(1) _ n(1,3)] n(2) by simp_all
  then show "a \<notin> H \<and> mempool_owns b N p' (insert a H)"
    unfolding mempool_owns_def using B(2) by (intro conjI exI) (auto simp: domIff)
next
  fix p H a
  assume o: "mempool_owns b N p H" and a: "a \<in> H"
  then obtain B where B: "pool_inv 8 b N (p, B)" "dom B = H" by (auto simp: mempool_owns_def)
  then obtain n where "B a = Some n" using a by auto
  then obtain p' where "fnet_mempool_free p a = Some p'" "pool_inv 8 b N (p', B(a := None))"
    using pool_inv_free [OF B(1)] by blast
  moreover have "dom (B(a := None)) = H - {a}" using B(2) by simp
  ultimately have "mempool_owns b N p' (H - {a})" unfolding mempool_owns_def by blast
  with \<open>fnet_mempool_free p a = Some p'\<close>
  show "\<exists>p'. a_free main_pool p a = Some p' \<and> mempool_owns b N p' (H - {a})" by simp
qed

section \<open>Clients of the net buffers\<close>

text \<open>
  The state of the stack as far as the net buffers go: the memory and the chains that the protocols
  hold. \<open>nb_step\<close> are the calls a client makes with arguments that make sense and without the
  \<^verbatim>\<open>drain\<close> flag; the order of the chains means nothing. A copy either succeeds or finds no
  memory for its first net buffer; one that fails later is left out, because it can leave references
  behind that no net buffer has (\<open>netbuf_copy_failure_leaks\<close>). A pull-up is any that
  returns; \<open>netbuf_pullup_faults\<close> says which do not. Every chain is shorter than 2 GB, the range
  of the \<^verbatim>\<open>fnet_int32_t\<close> lengths.
\<close>

type_synonym nb_client = "mempool nbs \<times> netbuf list list"

inductive nb_step :: "(mempool, unit) drain \<Rightarrow> nb_client \<Rightarrow> nb_client \<Rightarrow> bool" for dr where
  reorder: "mset cs = mset cs' \<Longrightarrow> nb_step dr (s, cs) (s, cs')"
| from_buf: "\<lbrakk>length data < 2147483648; fnet_netbuf_from_buf main_pool dr s data False = Some (s', c)\<rbrakk>
    \<Longrightarrow> nb_step dr (s, cs) (s', c # cs)"
| copy: "\<lbrakk>0 < len; offset + len \<le> chain_length c;
      fnet_netbuf_copy main_pool dr s c offset len False = Some (s', c'); c' \<noteq> []\<rbrakk>
    \<Longrightarrow> nb_step dr (s, c # cs) (s', c' # c # cs)"
| copy_null: "\<lbrakk>0 < len; offset + len \<le> chain_length c; fnet_malloc_netbuf main_pool s sizeof_netbuf = Some (t, 0);
      fnet_netbuf_copy main_pool dr s c offset len False = Some (s', c')\<rbrakk>
    \<Longrightarrow> nb_step dr (s, c # cs) (s', c' # c # cs)"
| pullup: "fnet_netbuf_pullup main_pool s c len = Some (s', c', ok) \<Longrightarrow> nb_step dr (s, c # cs) (s', c' # cs)"
| trim_head: "\<lbrakk>0 < len; len \<le> chain_length c; fnet_netbuf_trim main_pool s c (int len) = Some (s', c')\<rbrakk>
    \<Longrightarrow> nb_step dr (s, c # cs) (s', c' # cs)"
| trim_tail: "\<lbrakk>0 < len; len \<le> chain_length c; fnet_netbuf_trim main_pool s c (- int len) = Some (s', c')\<rbrakk>
    \<Longrightarrow> nb_step dr (s, c # cs) (s', c' # cs)"
| cut: "\<lbrakk>0 < len; offset + len \<le> chain_length c;
      fnet_netbuf_cut_center main_pool dr s c offset len = Some (s', c', ok)\<rbrakk>
    \<Longrightarrow> nb_step dr (s, c # cs) (s', c' # cs)"
| join: "chain_length c1 + chain_length c2 < 2147483648
    \<Longrightarrow> nb_step dr (s, c1 # c2 # cs) (s, fnet_netbuf_concat c1 c2 # cs)"
| free_chain: "fnet_netbuf_free_chain main_pool s c = Some s' \<Longrightarrow> nb_step dr (s, c # cs) (s', cs)"

inductive_cases nb_step_elim: "nb_step dr st st'"

inductive nb_reachable :: "(mempool, unit) drain \<Rightarrow> nb_client \<Rightarrow> nb_client \<Rightarrow> bool" for dr s\<^sub>0 where
  nb_start: "nb_reachable dr s\<^sub>0 s\<^sub>0"
| nb_next: "\<lbrakk>nb_reachable dr s\<^sub>0 s; nb_step dr s s'\<rbrakk> \<Longrightarrow> nb_reachable dr s\<^sub>0 s'"

definition nb_clients :: "nat \<Rightarrow> nat \<Rightarrow> nb_client \<Rightarrow> bool" where
  "nb_clients b N st =
     (nb_inv (mempool_owns b N) {} (fst st) (concat (snd st))
      \<and> (\<forall>c\<in>set (snd st). total_ok c \<and> chain_length c < 2147483648))"

lemma nb_clients_head:
  assumes "nb_inv (mempool_owns b N) {} s' (c' @ concat cs)" "total_ok c'" "chain_length c' < 2147483648"
    and "nb_clients b N (s, c # cs)"
  shows "nb_clients b N (s', c' # cs)"
  using assms by (simp add: nb_clients_def)

lemma nb_clients_headD:
  assumes "nb_clients b N (s, c # cs)"
  shows "nb_inv (mempool_owns b N) {} s (c @ concat cs)" "total_ok c" "chain_length c < 2147483648"
  using assms by (simp_all add: nb_clients_def)

lemma chain_length_bytes:
  "nb_inv owns X s (c @ S) \<Longrightarrow> chain_length c = length (chain_bytes s c)"
  by (rule length_chain_bytes [symmetric]) (auto intro: nb_inv_in_buf)

lemma nb_clients_trim:
  assumes "nb_clients b N (s, c # cs)" "0 < len" "len \<le> chain_length c"
    and "fnet_netbuf_trim main_pool s c k = Some (s', c')" "k = int len \<or> k = - int len"
  shows "nb_clients b N (s', c' # cs)"
proof -
  note i = nb_clients_headD [OF assms(1)]
  have "len \<le> nb_total_length (hd c)" using i(2) assms(2,3) by (cases c) (auto simp: total_ok_def)
  note r = main.trim_head_ok [OF i(1) this assms(2,3) i(3)] main.trim_tail_ok [OF i(1,2) assms(2,3) i(3)]
  have "nb_inv (mempool_owns b N) {} s' (c' @ concat cs)" "total_ok c'"
      "chain_bytes s' c' = drop len (chain_bytes s c)
         \<or> chain_bytes s' c' = take (chain_length c - len) (chain_bytes s c)"
    using r assms(4,5) i(2) by auto
  moreover from this have "chain_length c' \<le> chain_length c"
    using chain_length_bytes [OF i(1)] chain_length_bytes [of _ _ s' c'] by auto
  ultimately show ?thesis using i(3) by (intro nb_clients_head [OF _ _ _ assms(1)]) auto
qed

lemma nb_clients_cut:
  assumes "nb_clients b N (s, c # cs)" "0 < len" "offset + len \<le> chain_length c"
    and "fnet_netbuf_cut_center main_pool dr s c offset len = Some (s', c', ok)"
  shows "nb_clients b N (s', c' # cs)"
proof -
  note i = nb_clients_headD [OF assms(1)]
  have r: "nb_inv (mempool_owns b N) {} s' (c' @ concat cs)"
      "if ok \<or> c' = [] then chain_bytes s' c' = take offset (chain_bytes s c) @ drop (offset + len) (chain_bytes s c)
               \<and> total_ok c' else c' = c \<and> same_bytes s s' c"
    using main.cut_center_ok [OF i(1,2) assms(2,3) i(3), where dr = dr] assms(4) by auto
  then have "total_ok c'" "chain_length c' \<le> chain_length c"
    using i(2) chain_length_bytes [OF i(1)] chain_length_bytes [OF r(1)] by (auto split: if_splits)
  then show ?thesis using r(1) i(3) by (intro nb_clients_head [OF _ _ _ assms(1)]) auto
qed

lemma nb_clients_copy:
  assumes "nb_clients b N (s, c # cs)" "0 < len" "offset + len \<le> chain_length c"
    and "fnet_netbuf_copy main_pool dr s c offset len False = Some (s', c')" "c' \<noteq> []"
  shows "nb_clients b N (s', c' # c # cs)"
proof -
  note i = nb_clients_headD [OF assms(1)]
  have "nb_inv (mempool_owns b N) {} s' (c' @ c @ concat cs) \<and> chain_length c' = len
      \<and> nb_total_length (hd c') = len"
    using main.netbuf_copy_ok [OF i(1) _ assms(2,3), where dr = dr] assms(4,5) i(3) by auto
  then show ?thesis using assms(1,3) i(3) by (auto simp: nb_clients_def total_ok_def)
qed

lemma nb_clients_copy_null:
  assumes "nb_clients b N (s, c # cs)" "0 < len" "offset + len \<le> chain_length c"
    and "fnet_malloc_netbuf main_pool s sizeof_netbuf = Some (t, 0)"
    and "fnet_netbuf_copy main_pool dr s c offset len False = Some (s', c')"
  shows "nb_clients b N (s', c' # c # cs)"
proof -
  note i = nb_clients_headD [OF assms(1)]
  obtain n r where c: "c = n # r" using assms(2,3) by (cases c) auto
  have guard: "len \<noteq> FNET_NETBUF_COPYALL" "\<not> (w32 (len + offset) > w32 (chain_length c) \<or> w32 (chain_length c) < offset)"
    using assms(2,3) i(3) by (simp_all add: FNET_NETBUF_COPYALL_def)
  then have r: "s' = t" "c' = []"
    using assms(4,5) unfolding fnet_netbuf_copy_def c
    by (simp_all add: malloc_drain_def Let_def)
  obtain t' a where t': "fnet_malloc_netbuf main_pool s sizeof_netbuf = Some (t', a)" "bufs t' = bufs s"
      "a = 0 \<Longrightarrow> mem_ok (mempool_owns b N) t' (mset (map nb_data (c @ concat cs)))
         (set (map nb_addr (c @ concat cs)) \<union> {})"
    by (rule main.malloc_netbuf_ok [OF main.nb_inv_mem(1) [OF i(1)], of sizeof_netbuf])
      (simp add: sizeof_netbuf_def, rule that)
  have "nb_inv (mempool_owns b N) {} t (c @ concat cs)"
    using t' assms(4) i(1) by (auto simp: nb_inv_def in_buf_def bytes_at_def)
  then show ?thesis using assms(1) by (simp add: nb_clients_def r total_ok_def)
qed

lemma nb_clients_pullup:
  assumes "nb_clients b N (s, c # cs)" "fnet_netbuf_pullup main_pool s c len = Some (s', c', ok)"
  shows "nb_clients b N (s', c' # cs)"
proof (cases "c = [] \<or> len = 0 \<or> len \<le> nb_length (hd c) \<or> nb_total_length (hd c) < len")
  case True
  then have "s' = s" "c' = c" using assms(2) by (auto simp: fnet_netbuf_pullup_def split: list.splits)
  then show ?thesis using assms(1) by simp
next
  case False
  note i = nb_clients_headD [OF assms(1)]
  obtain nb next' where c: "c = nb # next'" using False by (cases c) auto
  have len: "0 < len" "nb_length nb < len" "len \<le> chain_length c" using False i(2) by (auto simp: c total_ok_def)
  then have fits: "len + 12 \<le> 4294967296" using i(3) by simp
  have "len \<le> 0 + chain_length c" using len(3) by simp
  then obtain pre n rest where
    sp: "c = pre @ n # rest" "chain_length pre < len" "len \<le> chain_length pre + nb_length n"
    by (rule pullup_count_split [OF len(1)]) (rule that, simp_all)
  show ?thesis
  proof (cases "len = chain_length pre + nb_length n \<and> rest \<noteq> []")
    case True
    have "pre \<noteq> []" using sp(1,3) c len(2) by (cases pre) auto
    then obtain run where pre: "pre = nb # run" using sp(1) c by (cases pre) auto
    have split: "c = nb # (run @ [n]) @ rest" using sp(1) pre by simp
    have "nb_inv (mempool_owns b N) {} s (((nb # (run @ [n])) @ rest) @ concat cs)" "total_ok (nb # (run @ [n]) @ rest)"
      using i(1,2) split by simp_all
    moreover have "chain_length (nb # (run @ [n])) = len" "chain_length (butlast (nb # (run @ [n]))) < len"
      using True sp(2) pre by (simp_all add: butlast_append)
    ultimately have r: "nb_inv (mempool_owns b N) {} s' (c' @ concat cs)"
        "if ok then chain_bytes s' c' = chain_bytes s c \<and> total_ok c' \<and> nb_length (hd c') = len else c' = c"
      using main.pullup_boundary_ok [of b N "{}" s nb "run @ [n]" rest "concat cs" len] len(2) True fits assms(2)
      by (auto simp: split split: if_splits)
    then have "total_ok c'" "chain_length c' = chain_length c"
      using i(2) chain_length_bytes [OF i(1)] chain_length_bytes [OF r(1)] by (auto split: if_splits)
    then show ?thesis using r(1) i(3) by (intro nb_clients_head [OF _ _ _ assms(1)]) auto
  next
    case other: False
    have boundary: "chain_length p \<noteq> len" if p: "c = p @ q" "q \<noteq> []" for p q
    proof
      assume "chain_length p = len"
      then have "\<not> (\<exists>us. pre = p @ us)" using sp(2) by auto
      moreover have "pre @ (n # rest) = p @ q" using sp(1) p(1) by simp
      ultimately obtain us where us: "p = pre @ us" "n # rest = us @ q" by (auto simp: append_eq_append_conv2)
      have "us \<noteq> []" using us(1) \<open>chain_length p = len\<close> sp(2) by auto
      then obtain vs where "us = n # vs" "rest = vs @ q" using us(2) by (cases us) auto
      then have "len = chain_length pre + nb_length n + chain_length vs" "rest \<noteq> []"
        using us(1) \<open>chain_length p = len\<close> p(2) by simp_all
      then show False using other sp(3) by simp
    qed
    obtain t a where t: "fnet_malloc_netbuf main_pool s (w32 (len + 4)) = Some (t, a)"
      using assms(2) len i(2) by (auto simp: fnet_netbuf_pullup_def c total_ok_def split: Option.bind_splits)
    have null: "a = 0"
      using main.pullup_fault_ok [OF i(1,2) c len(2,3) fits boundary t] assms(2) by force
    have inv: "nb_inv (mempool_owns b N) {} s (nb # next' @ concat cs)" using i(1) c by simp
    show ?thesis
    proof (cases rule: main.pullup_start_ok [OF inv less_imp_le [OF len(2)] fits, case_names null new])
      case (null s1)
      then have "s' = s1" "c' = c"
        using assms(2) len i(2) by (auto simp: fnet_netbuf_pullup_def c total_ok_def)
      then show ?thesis using null(2) assms(1) by (simp add: nb_clients_def c)
    next
      case (new s1 d s3 s4)
      then show ?thesis using t null by simp
    qed
  qed
qed

lemma nb_clients_from_buf:
  assumes "nb_clients b N (s, cs)" "length data < 2147483648"
    and "fnet_netbuf_from_buf main_pool dr s data False = Some (s', c)"
  shows "nb_clients b N (s', c # cs)"
proof -
  have i: "nb_inv (mempool_owns b N) {} s (concat cs)" using assms(1) by (simp add: nb_clients_def)
  have small: "length data + 12 \<le> 4294967296" using assms(2) by simp
  have r: "nb_inv (mempool_owns b N) {} s' (c @ concat cs)" "c \<noteq> [] \<longrightarrow> chain_bytes s' c = data"
    using main.from_buf_ok [OF i small, where dr = dr] assms(3) by auto
  have "total_ok c"
  proof -
    obtain s1 c1 where n: "fnet_netbuf_new main_pool dr s (length data) False = Some (s1, c1)"
        "c1 = [] \<or> (\<exists>n. c1 = [n] \<and> nb_length n = length data \<and> nb_total_length n = length data)"
      using main.netbuf_new_ok [OF i small, where dr = dr] by blast
    then have "c = c1" using assms(3)
      by (cases c1) (auto simp: fnet_netbuf_from_buf_def split: Option.bind_splits)
    then show ?thesis using n(2) by (auto simp: total_ok_def)
  qed
  moreover have "chain_length c < 2147483648"
    using chain_length_bytes [OF r(1)] r(2) assms(2) by (cases c) auto
  ultimately show ?thesis using r(1) assms(1) by (simp add: nb_clients_def)
qed

lemma mset_concat_sum: "mset (concat cs) = (\<Sum>c\<in>#mset cs. mset c)"
  by (induction cs) simp_all

lemma nb_clients_step:
  assumes "nb_step dr st st'" "nb_clients b N st"
  shows "nb_clients b N st'"
  using assms(1)
proof cases
  case (reorder cs cs' s)
  have "mset (concat cs) = mset (concat cs')"
    unfolding mset_concat_sum reorder(3) ..
  from nb_inv_perm [OF this, of "mempool_owns b N" "{}" s] show ?thesis
    using assms(2) mset_eq_setD [OF reorder(3)] by (simp add: nb_clients_def reorder(1,2))
next
  case (from_buf data s s' c cs)
  then show ?thesis using assms(2) nb_clients_from_buf by blast
next
  case (copy len offset c s s' c' cs)
  then show ?thesis using assms(2) nb_clients_copy by blast
next
  case (copy_null len offset c s t s' c' cs)
  then show ?thesis using assms(2) nb_clients_copy_null by blast
next
  case (pullup s c len s' c' ok cs)
  then show ?thesis using assms(2) nb_clients_pullup by blast
next
  case (trim_head len c s s' c' cs)
  then show ?thesis using assms(2) nb_clients_trim by blast
next
  case (trim_tail len c s s' c' cs)
  then show ?thesis using assms(2) nb_clients_trim by blast
next
  case (cut len offset c s s' c' ok cs)
  then show ?thesis using assms(2) nb_clients_cut by blast
next
  case (join c1 c2 s cs)
  have inv: "nb_inv (mempool_owns b N) {} s (c1 @ c2 @ concat cs)" "total_ok c1" "total_ok c2"
    "\<forall>c\<in>set cs. total_ok c \<and> chain_length c < 2147483648"
    using assms(2) by (simp_all add: nb_clients_def join(1))
  have "chain_length c1 + chain_length c2 < 4294967296" using join(3) by simp
  note r = main.concat_ok [OF inv(1-3) this]
  have "chain_length (fnet_netbuf_concat c1 c2) = chain_length c1 + chain_length c2"
    by (cases c1; cases c2) (simp_all add: fnet_netbuf_concat_def)
  then show ?thesis using r inv(4) join(3) by (simp add: nb_clients_def join(2))
next
  case (free_chain s c s' cs)
  have "nb_inv (mempool_owns b N) {} s (c @ concat cs)" using assms(2) by (simp add: nb_clients_def free_chain(1))
  from main.free_chain_ok [OF this] show ?thesis
    using assms(2) free_chain by (auto simp: nb_clients_def)
qed

lemma nb_clients_reachable: "nb_reachable dr st st' \<Longrightarrow> nb_clients b N st \<Longrightarrow> nb_clients b N st'"
  by (induction rule: nb_reachable.induct) (auto intro: nb_clients_step)

lemma nb_clients_init:
  assumes "fnet_heap_init mem heap_ptr heap_size = Some mp" "27 \<le> heap_size" "heap_ptr + heap_size < 4294967296"
  obtains b N where "nb_clients b N (\<lparr>pool = mp, bufs = Map.empty, raw = r\<rparr>, [])"
    "pool_inv 8 b N (mp, Map.empty)"
proof -
  obtain b N where i: "pool_inv 8 b N (mp, Map.empty)"
    by (rule init_inv [OF assms(1) [unfolded fnet_heap_init_def]]) (use assms in simp_all)
  then have "nb_clients b N (\<lparr>pool = mp, bufs = Map.empty, raw = r\<rparr>, [])"
    by (auto simp: nb_clients_def nb_inv_def mem_ok_def mempool_owns_def)
  with i that show ?thesis by blast
qed

section \<open>A small heap\<close>

text \<open>A heap of 127 units and one net buffer with three bytes in it, for the witnesses.\<close>

definition sample_heap :: mempool where
  "sample_heap = \<lparr>free_ptr = 4104, unit_size = 8,
     heap = (\<lambda>x. \<lparr>u_size = 0, u_ptr = 0\<rparr>)(4104 := \<lparr>u_size = 127, u_ptr = 4104\<rparr>)\<rparr>"

definition sample_heap1 :: mempool where
  "sample_heap1 = sample_heap\<lparr>heap := (heap sample_heap)
     (4104 := \<lparr>u_size = 122, u_ptr = 4104\<rparr>, 5080 := \<lparr>u_size = 5, u_ptr = 0\<rparr>)\<rparr>"

definition sample_heap2 :: mempool where
  "sample_heap2 = sample_heap1\<lparr>heap := (heap sample_heap1)
     (4104 := \<lparr>u_size = 120, u_ptr = 4104\<rparr>, 5064 := \<lparr>u_size = 2, u_ptr = 0\<rparr>)\<rparr>"

definition sample_mem :: "mempool nbs" where
  "sample_mem = \<lparr>pool = sample_heap, bufs = Map.empty, raw = (\<lambda>_. 0)\<rparr>"

definition sample_mem2 :: "mempool nbs" where
  "sample_mem2 = \<lparr>pool = sample_heap2, bufs = [5072 \<mapsto> \<lparr>refs = 1, bytes = [10, 20, 30]\<rparr>], raw = (\<lambda>_. 0)\<rparr>"

definition sample_netbuf :: netbuf where
  "sample_netbuf = \<lparr>nb_addr = 5088, nb_data = 5072, nb_off = 0, nb_length = 3, nb_total_length = 3, nb_flags = 0\<rparr>"

lemma sample_heap_init: "fnet_heap_init (\<lambda>x. \<lparr>u_size = 0, u_ptr = 0\<rparr>) 4096 1024 = Some sample_heap"
proof -
  have "FNET_ALIGN_DIV 4096 4 = 4096" "FNET_ALIGN_DIV 4104 8 = 4104" by (simp_all add: FNET_ALIGN_DIV_def)
  then show ?thesis by (simp add: fnet_heap_init_def fnet_mempool_init_def sample_heap_def)
qed

lemma sample_malloc1: "fnet_mempool_malloc sample_heap 28 = Some (sample_heap1, 5088)"
proof -
  have "best_find (heap sample_heap) 4104 5 4104 4104 4104 0 = Some (4104, 4104)"
    by (subst best_find.simps) (simp add: sample_heap_def)
  then show ?thesis
    by (simp add: fnet_mempool_malloc_def nunits_of_def sample_heap1_def sample_heap_def Let_def fun_eq_iff)
qed

lemma sample_malloc2: "fnet_mempool_malloc sample_heap1 7 = Some (sample_heap2, 5072)"
proof -
  have "best_find (heap sample_heap1) 4104 2 4104 4104 4104 0 = Some (4104, 4104)"
    by (subst best_find.simps) (simp add: sample_heap1_def sample_heap_def)
  moreover have "nunits_of 8 7 = 2" by (simp add: nunits_of_def)
  ultimately show ?thesis
    by (simp add: fnet_mempool_malloc_def sample_heap2_def sample_heap1_def sample_heap_def
        Let_def fun_eq_iff)
qed

lemma sample_from_buf:
  "fnet_netbuf_from_buf main_pool dr sample_mem [10, 20, 30] False = Some (sample_mem2, [sample_netbuf])"
  by (simp add: fnet_netbuf_from_buf_def fnet_netbuf_new_def malloc_drain_def fnet_malloc_netbuf_def
      sizeof_netbuf_def sample_malloc1 sample_malloc2 sample_mem_def sample_mem2_def sample_netbuf_def
      new_data_def write_data_def raw_bytes_def)

lemma sample_nb_reachable: "nb_reachable dr (sample_mem, []) (sample_mem2, [[sample_netbuf]])"
  by (rule nb_next [OF nb_start from_buf [OF _ sample_from_buf]]) simp

lemma sample_nb_clients: "nb_clients 4104 127 (sample_mem2, [[sample_netbuf]])"
proof (rule nb_clients_reachable [OF sample_nb_reachable])
  have "rep sample_heap 4104 [Free 127]" by (simp add: sample_heap_def rep_def ring_def)
  then have "pool_inv 8 4104 127 (sample_heap, Map.empty)"
    unfolding pool_inv_def by (intro exI [of _ "[Free 127]"]) (simp add: sample_heap_def)
  then show "nb_clients 4104 127 (sample_mem, [])"
    by (auto simp: nb_clients_def nb_inv_def mem_ok_def mempool_owns_def sample_mem_def)
qed

lemma sample_nb_inv: "nb_inv (mempool_owns 4104 127) {} sample_mem2 [sample_netbuf]"
  using sample_nb_clients by (simp add: nb_clients_def)

section \<open>Properties\<close>





text \<open>
  C19. Round trip through memory: what \<^verbatim>\<open>_fnet_netbuf_from_buf\<close> stores,
  \<^verbatim>\<open>_fnet_netbuf_to_buf\<close> reads back, at every offset and length; when memory runs
  out the result is the null pointer and every other net buffer is as before.
\<close>

theorem netbuf_roundtrip:
  assumes "nb_inv (mempool_owns b N) X s S" "length data + 12 \<le> 4294967296"
  shows "\<exists>s' c. fnet_netbuf_from_buf main_pool dr s data False = Some (s', c)
     \<and> nb_inv (mempool_owns b N) X s' (c @ S) \<and> same_bytes s s' S
     \<and> (c \<noteq> [] \<longrightarrow> (\<forall>offset len. 0 < len \<longrightarrow> offset + len \<le> length data \<longrightarrow>
            fnet_netbuf_to_buf s' c offset len = Some (take len (drop offset data))))"
proof -
  obtain s' c where r: "fnet_netbuf_from_buf main_pool dr s data False = Some (s', c)" "same_bytes s s' S"
      "nb_inv (mempool_owns b N) X s' (c @ S)" "c \<noteq> [] \<longrightarrow> chain_bytes s' c = data"
    using main.from_buf_ok [OF assms, where dr = dr] by (elim exE conjE) (rule that)
  have "fnet_netbuf_to_buf s' c offset len = Some (take len (drop offset data))"
    if "c \<noteq> []" "0 < len" "offset + len \<le> length data" for offset len
    using main.to_buf_ok [OF r(3) _ that(2), of c offset] chain_length_bytes [OF r(3)] r(4) that assms(2)
    by simp
  with r(1-3) show ?thesis by blast
qed

lemma netbuf_roundtrip_witness:
  "\<exists>s' c. fnet_netbuf_from_buf main_pool (\<lambda>s. Some s) sample_mem2 [1, 2, 3, 4] False = Some (s', c)
     \<and> nb_inv (mempool_owns 4104 127) {} s' (c @ [sample_netbuf]) \<and> same_bytes sample_mem2 s' [sample_netbuf]
     \<and> (c \<noteq> [] \<longrightarrow> (\<forall>offset len. 0 < len \<longrightarrow> offset + len \<le> length [1, 2, 3, 4 :: u8] \<longrightarrow>
            fnet_netbuf_to_buf s' c offset len = Some (take len (drop offset [1, 2, 3, 4]))))"
  by (rule netbuf_roundtrip [OF sample_nb_inv]) simp

text \<open>
  C20. \<^verbatim>\<open>_fnet_netbuf_copy\<close> makes a chain with exactly the bytes asked for. It shares
  the data: no byte of any chain changes, and the reference counters stay exact. Only a result of
  zero, when memory runs out, is excepted. The chain is shorter than 2 GB: the length that is left is
  a \<^verbatim>\<open>fnet_int32_t\<close>, which a longer chain makes negative.
\<close>

theorem netbuf_copy_content:
  assumes "nb_inv (mempool_owns b N) X s S" "set c \<subseteq> set S" "0 < len" "offset + len \<le> chain_length c"
    and "chain_length c < 2147483648"
  shows "\<exists>s' c'. fnet_netbuf_copy main_pool dr s c offset len False = Some (s', c')
     \<and> (c' \<noteq> [] \<longrightarrow> nb_inv (mempool_owns b N) X s' (c' @ S) \<and> same_bytes s s' S
          \<and> chain_bytes s' c' = take len (drop offset (chain_bytes s c)) \<and> nb_total_length (hd c') = len)"
  using main.netbuf_copy_ok [OF assms, where dr = dr] by blast

lemma netbuf_copy_content_witness:
  "\<exists>s' c'. fnet_netbuf_copy main_pool (\<lambda>s. Some s) sample_mem2 [sample_netbuf] 1 2 False = Some (s', c')
     \<and> (c' \<noteq> [] \<longrightarrow> nb_inv (mempool_owns 4104 127) {} s' (c' @ [sample_netbuf])
          \<and> same_bytes sample_mem2 s' [sample_netbuf]
          \<and> chain_bytes s' c' = take 2 (drop 1 (chain_bytes sample_mem2 [sample_netbuf]))
          \<and> nb_total_length (hd c') = 2)"
  by (rule netbuf_copy_content [OF sample_nb_inv]) (simp_all add: sample_netbuf_def)

text \<open>
  C21. \<^verbatim>\<open>_fnet_netbuf_trim\<close> removes exactly \<open>len\<close> bytes, from the front when
  the length is positive and from the end when it is negative, gives back the net buffers that
  became empty, and leaves the other chains alone. The chain is shorter than 2 GB, the range of the
  length's type \<^verbatim>\<open>fnet_int32_t\<close>.
\<close>

theorem netbuf_trim_content:
  assumes "nb_inv (mempool_owns b N) X s (c @ S)" "total_ok c" "0 < len" "len \<le> chain_length c"
    and "chain_length c < 2147483648"
  shows "\<exists>s1 c1 s2 c2. fnet_netbuf_trim main_pool s c (int len) = Some (s1, c1)
     \<and> fnet_netbuf_trim main_pool s c (- int len) = Some (s2, c2)
     \<and> chain_bytes s1 c1 = drop len (chain_bytes s c)
     \<and> chain_bytes s2 c2 = take (chain_length c - len) (chain_bytes s c)
     \<and> total_ok c1 \<and> total_ok c2
     \<and> nb_inv (mempool_owns b N) X s1 (c1 @ S) \<and> nb_inv (mempool_owns b N) X s2 (c2 @ S)
     \<and> same_bytes s s1 S \<and> same_bytes s s2 S"
proof -
  have "len \<le> nb_total_length (hd c)" using assms(2-4) by (cases c) (auto simp: total_ok_def)
  from main.trim_head_ok [OF assms(1) this assms(3-5)] obtain s1 c1 where
    "fnet_netbuf_trim main_pool s c (int len) = Some (s1, c1)" "nb_inv (mempool_owns b N) X s1 (c1 @ S)"
    "same_bytes s s1 S" "chain_bytes s1 c1 = drop len (chain_bytes s c)" "total_ok c1"
    using assms(2) by blast
  moreover from main.trim_tail_ok [OF assms] obtain s2 c2 where
    "fnet_netbuf_trim main_pool s c (- int len) = Some (s2, c2)" "nb_inv (mempool_owns b N) X s2 (c2 @ S)"
    "same_bytes s s2 S" "chain_bytes s2 c2 = take (chain_length c - len) (chain_bytes s c)" "total_ok c2"
    by blast
  ultimately show ?thesis by blast
qed

lemma netbuf_trim_content_witness:
  "\<exists>s1 c1 s2 c2. fnet_netbuf_trim main_pool sample_mem2 [sample_netbuf] (int 2) = Some (s1, c1)
     \<and> fnet_netbuf_trim main_pool sample_mem2 [sample_netbuf] (- int 2) = Some (s2, c2)
     \<and> chain_bytes s1 c1 = drop 2 (chain_bytes sample_mem2 [sample_netbuf])
     \<and> chain_bytes s2 c2 = take (chain_length [sample_netbuf] - 2) (chain_bytes sample_mem2 [sample_netbuf])
     \<and> total_ok c1 \<and> total_ok c2
     \<and> nb_inv (mempool_owns 4104 127) {} s1 (c1 @ []) \<and> nb_inv (mempool_owns 4104 127) {} s2 (c2 @ [])
     \<and> same_bytes sample_mem2 s1 [] \<and> same_bytes sample_mem2 s2 []"
  by (rule netbuf_trim_content) (use sample_nb_inv in \<open>simp_all add: sample_netbuf_def total_ok_def\<close>)

text \<open>
  C22. \<^verbatim>\<open>_fnet_netbuf_cut_center\<close> removes the bytes
  \<open>offset .. offset + len - 1\<close> in each of its cases (cut at a buffer's start, inside a
  buffer of its own, inside a shared buffer, to a buffer's end, across buffers), and the shared data
  of other chains stays as it was; if it needs memory and there is none, nothing changes. The chain
  is shorter than 2 GB: the lengths handed to \<^verbatim>\<open>_fnet_netbuf_trim\<close> are cast to
  \<^verbatim>\<open>fnet_int32_t\<close>.
\<close>

theorem netbuf_cut_center_content:
  assumes "nb_inv (mempool_owns b N) X s (c @ S)" "total_ok c" "0 < len" "offset + len \<le> chain_length c"
    and "chain_length c < 2147483648"
  shows "\<exists>s' c' ok. fnet_netbuf_cut_center main_pool dr s c offset len = Some (s', c', ok)
     \<and> nb_inv (mempool_owns b N) X s' (c' @ S) \<and> same_bytes s s' S
     \<and> (if ok \<or> c' = [] then chain_bytes s' c' = take offset (chain_bytes s c) @ drop (offset + len) (chain_bytes s c)
               \<and> total_ok c'
        else c' = c \<and> same_bytes s s' c)"
  by (rule main.cut_center_ok [OF assms])

lemma netbuf_cut_center_content_witness:
  "\<exists>s' c' ok. fnet_netbuf_cut_center main_pool Some sample_mem2 [sample_netbuf] 1 1 = Some (s', c', ok)
     \<and> nb_inv (mempool_owns 4104 127) {} s' (c' @ []) \<and> same_bytes sample_mem2 s' []
     \<and> (if ok \<or> c' = [] then chain_bytes s' c' = take 1 (chain_bytes sample_mem2 [sample_netbuf])
               @ drop (1 + 1) (chain_bytes sample_mem2 [sample_netbuf]) \<and> total_ok c'
        else c' = [sample_netbuf] \<and> same_bytes sample_mem2 s' [sample_netbuf])"
  by (rule netbuf_cut_center_content) (use sample_nb_inv in \<open>simp_all add: sample_netbuf_def total_ok_def\<close>)

text \<open>
  C23. \<^verbatim>\<open>_fnet_netbuf_pullup\<close>, where the requested length is the length of some first
  net buffers of the chain and more follow: the first net buffer then holds \<open>len\<close> bytes, and
  the chain has the bytes it had; without memory nothing changes.
\<close>

theorem netbuf_pullup_boundary:
  assumes "nb_inv (mempool_owns b N) X s (((nb # run) @ rest) @ S)" "total_ok (nb # run @ rest)"
    and "chain_length (nb # run) = len" "nb_length nb < len" "chain_length (butlast (nb # run)) < len"
      "rest \<noteq> []" "len + 12 \<le> 4294967296"
  shows "\<exists>s' c' ok. fnet_netbuf_pullup main_pool s (nb # run @ rest) len = Some (s', c', ok)
     \<and> nb_inv (mempool_owns b N) X s' (c' @ S) \<and> same_bytes s s' S
     \<and> (if ok then chain_bytes s' c' = chain_bytes s (nb # run @ rest) \<and> total_ok c' \<and> nb_length (hd c') = len
        else c' = nb # run @ rest \<and> same_bytes s s' c')"
  by (rule main.pullup_boundary_ok [OF assms])

text \<open>Three net buffers in a full heap, for the witnesses of this property and the next two.\<close>

definition full_heap :: mempool where
  "full_heap = \<lparr>free_ptr = 4104, unit_size = 8,
     heap = (\<lambda>x. \<lparr>u_size = 0, u_ptr = 0\<rparr>)(4104 := \<lparr>u_size = 4, u_ptr = 4104\<rparr>,
       4136 := \<lparr>u_size = 2, u_ptr = 0\<rparr>, 4152 := \<lparr>u_size = 5, u_ptr = 0\<rparr>,
       4192 := \<lparr>u_size = 5, u_ptr = 0\<rparr>, 4232 := \<lparr>u_size = 5, u_ptr = 0\<rparr>)\<rparr>"

definition full_mem :: "mempool nbs" where
  "full_mem = \<lparr>pool = full_heap, bufs = [4144 \<mapsto> \<lparr>refs = 3, bytes = [1, 2]\<rparr>], raw = (\<lambda>_. 0)\<rparr>"

definition full_netbuf :: "nat \<Rightarrow> nat \<Rightarrow> netbuf" where
  "full_netbuf a l = \<lparr>nb_addr = a, nb_data = 4144, nb_off = 0, nb_length = 2, nb_total_length = l, nb_flags = 0\<rparr>"

lemma full_nb_inv:
  "nb_inv (mempool_owns 4104 21) {} full_mem [full_netbuf 4160 t, full_netbuf 4200 t', full_netbuf 4240 t'']"
proof -
  let ?B = "[4144 \<mapsto> 6, 4160 \<mapsto> 28, 4200 \<mapsto> 28, 4240 \<mapsto> 28]"
  have "pool_inv 8 4104 21 (full_heap, ?B)"
    unfolding pool_inv_def
    by (intro exI [of _ "[Free 4, Used 2, Used 5, Used 5, Used 5]"])
      (auto simp: full_heap_def rep_def ring_def split: if_splits)
  moreover have "dom ?B = {4144} \<union> {4160, 4200, 4240}" by auto
  ultimately have "mempool_owns 4104 21 full_heap ({4144} \<union> {4160, 4200, 4240})"
    unfolding mempool_owns_def by blast
  then show ?thesis
    by (simp add: nb_inv_def mem_ok_def full_mem_def full_netbuf_def in_buf_def bytes_at_def)
qed

lemma netbuf_pullup_boundary_witness:
  "\<exists>s' c' ok. fnet_netbuf_pullup main_pool full_mem (full_netbuf 4160 6 # [full_netbuf 4200 0] @ [full_netbuf 4240 0]) 4
       = Some (s', c', ok)
     \<and> nb_inv (mempool_owns 4104 21) {} s' (c' @ []) \<and> same_bytes full_mem s' []
     \<and> (if ok then chain_bytes s' c'
              = chain_bytes full_mem (full_netbuf 4160 6 # [full_netbuf 4200 0] @ [full_netbuf 4240 0])
            \<and> total_ok c' \<and> nb_length (hd c') = 4
        else c' = full_netbuf 4160 6 # [full_netbuf 4200 0] @ [full_netbuf 4240 0] \<and> same_bytes full_mem s' c')"
  by (rule netbuf_pullup_boundary)
    (use full_nb_inv in \<open>simp_all add: full_netbuf_def total_ok_def\<close>)

text \<open>
  C24. For every other length it faults. If \<open>len\<close> is more than the first net buffer holds, at
  most the length of the chain, and not the length of some first net buffers with more behind them,
  and memory can be had, then the copy runs over the end of the new buffer or the null pointer
  behind the last net buffer is followed. In particular it faults for the whole length of a chain of
  several net buffers.
\<close>

theorem netbuf_pullup_faults:
  assumes "nb_inv (mempool_owns b N) X s (c @ S)" "total_ok c" "c = nb # next"
    and "nb_length nb < len" "len \<le> chain_length c" "len + 12 \<le> 4294967296"
    and "\<And>pre rest. c = pre @ rest \<Longrightarrow> rest \<noteq> [] \<Longrightarrow> chain_length pre \<noteq> len"
    and "fnet_mempool_malloc (pool s) (len + 4) = Some (mp, a)" "a \<noteq> 0"
  shows "fnet_netbuf_pullup main_pool s c len = None"
proof (rule main.pullup_fault_ok [OF assms(1-7)])
  have "w32 (len + 4) = len + 4" using assms(6) by simp
  then show "fnet_malloc_netbuf main_pool s (w32 (len + 4)) = Some (s\<lparr>pool := mp\<rparr>, a)"
    using assms(8) by (simp add: fnet_malloc_netbuf_def)
qed (use assms(9) in simp_all)

lemma netbuf_pullup_faults_witness:
  "fnet_netbuf_pullup main_pool full_mem [full_netbuf 4160 6, full_netbuf 4200 0, full_netbuf 4240 0] 6 = None"
proof -
  let ?c = "[full_netbuf 4160 6, full_netbuf 4200 0, full_netbuf 4240 0]"
  let ?mp = "full_heap\<lparr>heap := (heap full_heap)(4104 := \<lparr>u_size = 1, u_ptr = 4104\<rparr>,
      4112 := \<lparr>u_size = 3, u_ptr = 0\<rparr>)\<rparr>"
  have "best_find (heap full_heap) 4104 3 4104 4104 4104 0 = Some (4104, 4104)"
    by (subst best_find.simps) (simp add: full_heap_def)
  moreover have "nunits_of 8 10 = 3" by (simp add: nunits_of_def)
  ultimately have "fnet_mempool_malloc (pool full_mem) (6 + 4) = Some (?mp, 4120)"
    by (simp add: fnet_mempool_malloc_def full_mem_def full_heap_def Let_def fun_eq_iff)
  moreover have "chain_length pre \<noteq> 6" if "?c = pre @ rest" "rest \<noteq> []" for pre rest
    using that by (auto simp: Cons_eq_append_conv full_netbuf_def)
  ultimately show ?thesis
    using netbuf_pullup_faults [of 4104 21 "{}" full_mem ?c "[]" "full_netbuf 4160 6"
        "[full_netbuf 4200 0, full_netbuf 4240 0]" 6 ?mp 4120] full_nb_inv
    by (simp add: total_ok_def full_netbuf_def)
qed

text \<open>
  C25. When memory runs out after at least two descriptors of the copy were made,
  \<^verbatim>\<open>_fnet_netbuf_copy\<close> gives the descriptors back but forgets the references of all but
  the first: the data buffer of the second keeps a reference that no net buffer has, so it is never
  freed again.
\<close>

theorem netbuf_copy_failure_leaks:
  assumes "nb_inv (mempool_owns b N) X s ((m # m2 # ms) @ S)"
    and "fnet_mempool_malloc (pool s) 28 = Some (mp, 0)"
  shows "\<exists>s' d. copy_loop main_pool dr False s (n0 # tmp) k (m # m2 # ms) = Some (s', [])
     \<and> bufs s' (nb_data m2) = Some d \<and> count (mset (map nb_data S)) (nb_data m2) < refs d"
proof -
  have o: "mempool_owns b N (pool s) (dom (bufs s) \<union> (set (map nb_addr ((m # m2 # ms) @ S)) \<union> X))"
    using assms(1) by (simp add: nb_inv_def mem_ok_def)
  have "mempool_owns b N mp (dom (bufs s) \<union> (set (map nb_addr ((m # m2 # ms) @ S)) \<union> X))"
    by (rule main.malloc_null [OF o, of 28]) (use assms(2) in simp_all)
  then have "nb_inv (mempool_owns b N) X (s\<lparr>pool := mp\<rparr>) (m # (m2 # ms) @ S)"
    using assms(1) by (simp add: nb_inv_def mem_ok_def in_buf_def bytes_at_def)
  then obtain s1 where s1: "\<And>next. fnet_netbuf_free main_pool (s\<lparr>pool := mp\<rparr>) (m # next) = Some (s1, next)"
      "nb_inv (mempool_owns b N) X s1 ((m2 # ms) @ S)"
    by (rule main.netbuf_free_ok) (rule that)
  have "mempool_owns b N (pool s1) (dom (bufs s1) \<union> (set (map nb_addr ((m2 # ms) @ S)) \<union> X))"
    "distinct (map nb_addr (m2 # ms))"
    using s1(2) by (simp_all add: nb_inv_def mem_ok_def)
  then obtain s2 where s2: "free_descriptors main_pool s1 (m2 # ms) = Some s2"
    using main.free_descriptors_total [of b N s1 _ "m2 # ms"] by auto
  have same: "free_descriptors main_pool s c = Some s' \<Longrightarrow> bufs s' = bufs s" for c s s'
    by (induction c arbitrary: s) (auto simp: fnet_free_netbuf_def split: Option.bind_splits)
  have "nb_data m2 \<in># mset (map nb_data ((m2 # ms) @ S))" by simp
  then obtain d where d: "bufs s1 (nb_data m2) = Some d"
    using main.mem_ok_some [OF main.nb_inv_mem(1) [OF s1(2)]] by blast
  have "refs d = count (mset (map nb_data ((m2 # ms) @ S))) (nb_data m2)"
    using main.mem_ok_refs(1) [OF main.nb_inv_mem(1) [OF s1(2)] d] by simp
  then have "count (mset (map nb_data S)) (nb_data m2) < refs d" by simp
  moreover have "copy_loop main_pool dr False s (n0 # tmp) k (m # m2 # ms) = Some (s2, [])"
    using assms(2) s1(1) [of "m2 # ms"] s2
    by (simp add: malloc_drain_def fnet_malloc_netbuf_def sizeof_netbuf_def del: free_descriptors.simps)
  moreover have "bufs s2 (nb_data m2) = Some d" using same [OF s2] d by simp
  ultimately show ?thesis by blast
qed

lemma netbuf_copy_failure_leaks_witness:
  "\<exists>s' d. copy_loop main_pool Some False full_mem [full_netbuf 4240 6, full_netbuf 4240 2] 2
         [full_netbuf 4160 4, full_netbuf 4200 0] = Some (s', [])
     \<and> bufs s' (nb_data (full_netbuf 4200 0)) = Some d
     \<and> count (mset (map nb_data [full_netbuf 4240 6])) (nb_data (full_netbuf 4200 0)) < refs d"
proof (rule netbuf_copy_failure_leaks)
  show "nb_inv (mempool_owns 4104 21) {} full_mem
      ((full_netbuf 4160 4 # full_netbuf 4200 0 # []) @ [full_netbuf 4240 6])"
    using full_nb_inv by simp
  have "best_find (heap full_heap) 4104 5 4104 4104 4104 0 = Some (4104, 0)"
    by (subst best_find.simps) (simp add: full_heap_def)
  then show "fnet_mempool_malloc (pool full_mem) 28 = Some (full_heap, 0)"
    by (simp add: fnet_mempool_malloc_def nunits_of_def full_mem_def full_heap_def)
qed

end
