(* ===== verification/Fnet_Isr.thy ===== *)
theory Fnet_Isr
  imports Fnet_Netbuf
begin

text \<open>
  \<^verbatim>\<open>fnet_isr.c\<close>: the table of interrupt and event handlers and the software lock under
  which handlers are held back. Handlers are code of other modules and of the application: a
  function pointer is a number (0 is the null pointer) and \<open>b_call\<close> says what a call of it does
  to the state, which may be anything.
\<close>

section \<open>State\<close>

record isr_entry =
  i_addr :: nat
  i_vector :: nat
  i_top :: nat
  i_bottom :: nat
  i_pended :: bool
  i_cookie :: nat

record net_timer =
  t_addr :: nat
  t_start :: nat
  t_timeout :: nat
  t_handler :: nat
  t_cookie :: nat

text \<open>
  The globals of \<^verbatim>\<open>fnet_isr.c\<close> and \<^verbatim>\<open>fnet_timer.c\<close> and the heap. The two lists are
  in the order of the \<^verbatim>\<open>next\<close> pointers. \<open>s_reads\<close> counts the reads of the clock and
  \<open>s_env\<close> is the memory of everybody else.
\<close>

record ('p, 'e) sys =
  s_pool :: 'p
  s_locked :: nat
  s_table :: "isr_entry list"
  s_last :: nat
  s_timers :: "net_timer list"
  s_reads :: nat
  s_time_start :: nat
  s_time_start_ms :: nat
  s_env :: 'e

text \<open>
  What lies outside of these files: the allocator, the millisecond counter (\<open>b_ms k\<close> is what
  read number \<open>k\<close> returns), the handlers, and \<^verbatim>\<open>fnet_cpu_isr_install\<close>.
\<close>

record ('p, 'e) board =
  b_alloc :: "'p allocator"
  b_ms :: "nat \<Rightarrow> nat"
  b_call :: "nat \<Rightarrow> nat \<Rightarrow> ('p, 'e) sys \<Rightarrow> ('p, 'e) sys option"
  b_install :: "nat \<Rightarrow> nat \<Rightarrow> bool"

definition call_if :: "('p, 'e) board \<Rightarrow> nat \<Rightarrow> nat \<Rightarrow> ('p, 'e) sys \<Rightarrow> ('p, 'e) sys option" where
  "call_if b h c s = (if h \<noteq> 0 then b_call b h c s else Some s)"

section \<open>Entries of the table\<close>

text \<open>Access through a pointer to an entry; \<open>None\<close> when the entry was freed.\<close>

definition get_entry :: "nat \<Rightarrow> ('p, 'e) sys \<Rightarrow> isr_entry option" where
  "get_entry a s = find (\<lambda>e. i_addr e = a) (s_table s)"

definition set_pended :: "nat \<Rightarrow> bool \<Rightarrow> ('p, 'e) sys \<Rightarrow> ('p, 'e) sys option" where
  "set_pended a v s =
     (if a \<in> i_addr ` set (s_table s)
      then Some (s\<lparr>s_table := map (\<lambda>e. if i_addr e = a then e\<lparr>i_pended := v\<rparr> else e) (s_table s)\<rparr>)
      else None)"

definition head_addr :: "('p, 'e) sys \<Rightarrow> nat" where
  "head_addr s = (case s_table s of [] \<Rightarrow> 0 | e # _ \<Rightarrow> i_addr e)"

fun next_in :: "nat \<Rightarrow> isr_entry list \<Rightarrow> nat option" where
  "next_in a [] = None"
| "next_in a (e # es) =
     (if i_addr e = a then Some (case es of [] \<Rightarrow> 0 | e' # _ \<Rightarrow> i_addr e') else next_in a es)"

section \<open>Operations\<close>

definition sizeof_isr_entry :: nat where
  "sizeof_isr_entry = 24"

definition fnet_isr_init :: "('p, 'e) sys \<Rightarrow> ('p, 'e) sys" where
  "fnet_isr_init s = s\<lparr>s_locked := 0, s_table := []\<rparr>"

definition fnet_isr_register ::
    "('p, 'e) board \<Rightarrow> ('p, 'e) sys \<Rightarrow> nat \<Rightarrow> nat \<Rightarrow> nat \<Rightarrow> nat \<Rightarrow> (('p, 'e) sys \<times> bool) option" where
  "fnet_isr_register b s vector htop hbottom cookie =
     do {
       (p, a) \<leftarrow> a_malloc (b_alloc b) (s_pool s) sizeof_isr_entry;
       if a = 0 then Some (s\<lparr>s_pool := p\<rparr>, False)
       else Some (s\<lparr>s_pool := p,
         s_table := \<lparr>i_addr = a, i_vector = vector, i_top = htop, i_bottom = hbottom, i_pended = False,
           i_cookie = cookie\<rparr> # s_table s\<rparr>, True)
     }"

definition fnet_isr_vector_init ::
    "('p, 'e) board \<Rightarrow> ('p, 'e) sys \<Rightarrow> nat \<Rightarrow> nat \<Rightarrow> nat \<Rightarrow> nat \<Rightarrow> nat \<Rightarrow> (('p, 'e) sys \<times> bool) option" where
  "fnet_isr_vector_init b s vector htop hbottom priority cookie =
     do {
       (s, ok) \<leftarrow> fnet_isr_register b s vector htop hbottom cookie;
       Some (s, if ok then b_install b vector priority else False)
     }"

definition fnet_event_init :: "('p, 'e) board \<Rightarrow> ('p, 'e) sys \<Rightarrow> nat \<Rightarrow> nat \<Rightarrow> (('p, 'e) sys \<times> nat) option" where
  "fnet_event_init b s handler cookie =
     (let vector = s_last s
      in do {
        (s, ok) \<leftarrow> fnet_isr_register b (s\<lparr>s_last := w32 (s_last s + 1)\<rparr>) vector 0 handler cookie;
        Some (s, if ok then vector else 0)
      })"

fun take_vector :: "nat \<Rightarrow> isr_entry list \<Rightarrow> (isr_entry \<times> isr_entry list) option" where
  "take_vector v [] = None"
| "take_vector v (e # es) =
     (if i_vector e = v then Some (e, es) else map_option (\<lambda>(x, es). (x, e # es)) (take_vector v es))"

definition fnet_isr_unregister :: "('p, 'e) board \<Rightarrow> ('p, 'e) sys \<Rightarrow> nat \<Rightarrow> ('p, 'e) sys option" where
  "fnet_isr_unregister b s v =
     (case take_vector v (s_table s) of
        None \<Rightarrow> Some s
      | Some (e, es) \<Rightarrow>
          do { p \<leftarrow> a_free (b_alloc b) (s_pool s) (i_addr e); Some (s\<lparr>s_table := es, s_pool := p\<rparr>) })"

definition fnet_event_release :: "('p, 'e) board \<Rightarrow> ('p, 'e) sys \<Rightarrow> nat \<Rightarrow> ('p, 'e) sys option" where
  "fnet_event_release b s event_desc =
     (if event_desc \<noteq> 0 then fnet_isr_unregister b s event_desc else Some s)"

definition fnet_isr_lock :: "('p, 'e) sys \<Rightarrow> ('p, 'e) sys" where
  "fnet_isr_lock s = s\<lparr>s_locked := w32 (s_locked s + 1)\<rparr>"

definition fnet_isr_locked :: "('p, 'e) sys \<Rightarrow> bool" where
  "fnet_isr_locked s = (s_locked s \<noteq> 0)"

text \<open>
  One pass over the table. The code reads \<^verbatim>\<open>next\<close> after the handler has run, so the pass
  goes on from the entry's place in the table the handler left. It need not end.
\<close>

partial_function (option) unlock_pass ::
    "('p, 'e) board \<Rightarrow> ('p, 'e) sys \<Rightarrow> nat \<Rightarrow> bool \<Rightarrow> (('p, 'e) sys \<times> bool) option" where
  "unlock_pass b s a again =
     (if a = 0 then Some (s, again)
      else do {
        e \<leftarrow> get_entry a s;
        (s, again) \<leftarrow>
          (if i_pended e
           then do {
             s \<leftarrow> set_pended a False s;
             s \<leftarrow> call_if b (i_bottom e) (i_cookie e) s;
             Some (s, again \<or> i_bottom e \<noteq> 0)
           }
           else Some (s, again));
        n \<leftarrow> next_in a (s_table s);
        unlock_pass b s n again
      })"

partial_function (option) unlock_rounds :: "('p, 'e) board \<Rightarrow> ('p, 'e) sys \<Rightarrow> ('p, 'e) sys option" where
  "unlock_rounds b s =
     do {
       (s, again) \<leftarrow> unlock_pass b s (head_addr s) False;
       if again then unlock_rounds b s else Some s
     }"

definition fnet_isr_unlock :: "('p, 'e) board \<Rightarrow> ('p, 'e) sys \<Rightarrow> ('p, 'e) sys option" where
  "fnet_isr_unlock b s =
     do {
       s \<leftarrow> (if s_locked s = 1 then unlock_rounds b s else Some s);
       Some (s\<lparr>s_locked := w32 (s_locked s + 4294967295)\<rparr>)
     }"

definition fnet_isr_handler :: "('p, 'e) board \<Rightarrow> ('p, 'e) sys \<Rightarrow> nat \<Rightarrow> ('p, 'e) sys option" where
  "fnet_isr_handler b s v =
     (case find (\<lambda>e. i_vector e = v) (s_table s) of
        None \<Rightarrow> Some s
      | Some e \<Rightarrow>
          do {
            s \<leftarrow> call_if b (i_top e) (i_cookie e) s;
            if s_locked s \<noteq> 0 then set_pended (i_addr e) True s
            else do {
              s \<leftarrow> set_pended (i_addr e) False s;
              e \<leftarrow> get_entry (i_addr e) s;
              call_if b (i_bottom e) (i_cookie e) s
            }
          })"

definition fnet_event_raise :: "('p, 'e) board \<Rightarrow> ('p, 'e) sys \<Rightarrow> nat \<Rightarrow> ('p, 'e) sys option" where
  "fnet_event_raise b s v =
     (let s = fnet_isr_lock s
      in do {
        s \<leftarrow>
          (case find (\<lambda>e. i_vector e = v) (s_table s) of
             None \<Rightarrow> Some s
           | Some e \<Rightarrow>
               do {
                 s \<leftarrow> call_if b (i_top e) (i_cookie e) s;
                 if s_locked s = 1
                 then do {
                   s \<leftarrow> set_pended (i_addr e) False s;
                   e \<leftarrow> get_entry (i_addr e) s;
                   call_if b (i_bottom e) (i_cookie e) s
                 }
                 else set_pended (i_addr e) True s
               });
        fnet_isr_unlock b s
      })"

section \<open>Handlers that keep to their own data\<close>

text \<open>
  Most handlers only work on their own module's data. For those the effect of a lock, some events
  and an unlock is definite; \<open>eff\<close> is what a handler does to the rest of the memory.
\<close>

definition private_handlers :: "('p, 'e) board \<Rightarrow> (nat \<Rightarrow> nat \<Rightarrow> 'e \<Rightarrow> 'e) \<Rightarrow> bool" where
  "private_handlers b eff = (\<forall>h c s. b_call b h c s = Some (s\<lparr>s_env := eff h c (s_env s)\<rparr>))"

definition table_ok :: "isr_entry list \<Rightarrow> bool" where
  "table_ok es = (distinct (map i_addr es) \<and> 0 \<notin> i_addr ` set es)"

definition clear :: "isr_entry \<Rightarrow> isr_entry" where
  "clear e = e\<lparr>i_pended := False\<rparr>"

definition run_bottom :: "(nat \<Rightarrow> nat \<Rightarrow> 'e \<Rightarrow> 'e) \<Rightarrow> isr_entry \<Rightarrow> 'e \<Rightarrow> 'e" where
  "run_bottom eff e env = (if i_bottom e \<noteq> 0 then eff (i_bottom e) (i_cookie e) env else env)"

lemma clear_simps [simp]:
  "i_addr (clear e) = i_addr e" "i_vector (clear e) = i_vector e" "i_top (clear e) = i_top e"
  "i_bottom (clear e) = i_bottom e" "i_cookie (clear e) = i_cookie e" "\<not> i_pended (clear e)"
  "clear (clear e) = clear e" "\<not> i_pended e \<Longrightarrow> clear e = e"
  by (simp_all add: clear_def)

lemma map_pended_idle:
  "a \<notin> i_addr ` set es \<Longrightarrow> map (\<lambda>e. if i_addr e = a then e\<lparr>i_pended := v\<rparr> else e) es = es"
  by (induction es) auto

lemma find_addr_mid: "a \<notin> i_addr ` set done \<Longrightarrow> i_addr e = a \<Longrightarrow> find (\<lambda>e. i_addr e = a) (done @ e # es) = Some e"
  by (induction "done") auto

lemma next_in_mid:
  "i_addr e \<notin> i_addr ` set done \<Longrightarrow>
     next_in (i_addr e) (done @ e # es) = Some (case es of [] \<Rightarrow> 0 | e' # _ \<Rightarrow> i_addr e')"
  by (induction "done") auto

lemma unlock_pass_private:
  assumes "private_handlers b eff" "s_table s = done @ es" "table_ok (done @ es)"
  shows "unlock_pass b s (case es of [] \<Rightarrow> 0 | e # _ \<Rightarrow> i_addr e) again =
    Some (s\<lparr>s_table := done @ map clear es, s_env := fold (run_bottom eff) (filter i_pended es) (s_env s)\<rparr>,
      again \<or> (\<exists>e\<in>set es. i_pended e \<and> i_bottom e \<noteq> 0))"
  using assms(2,3)
proof (induction es arbitrary: s "done" again)
  case Nil
  then show ?case by (subst unlock_pass.simps) simp
next
  case (Cons e es)
  have e: "i_addr e \<notin> i_addr ` set done" "i_addr e \<notin> i_addr ` set es" "i_addr e \<noteq> 0"
    using Cons.prems(2) by (auto simp: table_ok_def)
  have get: "get_entry (i_addr e) s = Some e" using Cons.prems(1) e(1) by (simp add: get_entry_def find_addr_mid)
  let ?env = "if i_pended e then run_bottom eff e (s_env s) else s_env s"
  let ?s = "s\<lparr>s_table := done @ clear e # es, s_env := ?env\<rparr>"
  have step: "(if i_pended e
           then do {
             s \<leftarrow> set_pended (i_addr e) False s;
             s \<leftarrow> call_if b (i_bottom e) (i_cookie e) s;
             Some (s, again \<or> i_bottom e \<noteq> 0)
           }
           else Some (s, again)) = Some (?s, again \<or> i_pended e \<and> i_bottom e \<noteq> 0)"
    using Cons.prems(1) e assms(1)
    by (auto simp: set_pended_def map_pended_idle call_if_def private_handlers_def run_bottom_def clear_def)
  have nxt: "next_in (i_addr e) (s_table ?s) = Some (case es of [] \<Rightarrow> 0 | e # _ \<Rightarrow> i_addr e)"
    using next_in_mid [of "clear e" "done" es] e(1) by simp
  have "unlock_pass b ?s (case es of [] \<Rightarrow> 0 | e # _ \<Rightarrow> i_addr e) (again \<or> i_pended e \<and> i_bottom e \<noteq> 0)
    = Some (?s\<lparr>s_table := (done @ [clear e]) @ map clear es, s_env := fold (run_bottom eff) (filter i_pended es) (s_env ?s)\<rparr>,
      (again \<or> i_pended e \<and> i_bottom e \<noteq> 0) \<or> (\<exists>e\<in>set es. i_pended e \<and> i_bottom e \<noteq> 0))"
    by (rule Cons.IH) (use Cons.prems(2) in \<open>auto simp: table_ok_def\<close>)
  moreover have "unlock_pass b s (case e # es of [] \<Rightarrow> 0 | e # _ \<Rightarrow> i_addr e) again
      = unlock_pass b ?s (case es of [] \<Rightarrow> 0 | e # _ \<Rightarrow> i_addr e) (again \<or> i_pended e \<and> i_bottom e \<noteq> 0)"
    unfolding list.case
    by (subst unlock_pass.simps) (simp only: if_not_P [OF e(3)] get step nxt Option.bind.simps prod.case)
  ultimately show ?case by auto
qed

lemma unlock_rounds_private:
  assumes "private_handlers b eff" "table_ok (s_table s)"
  shows "unlock_rounds b s = Some (s\<lparr>s_table := map clear (s_table s),
    s_env := fold (run_bottom eff) (filter i_pended (s_table s)) (s_env s)\<rparr>)"
proof -
  have pass: "unlock_pass b t (head_addr t) False =
      Some (t\<lparr>s_table := map clear (s_table t), s_env := fold (run_bottom eff) (filter i_pended (s_table t)) (s_env t)\<rparr>,
        \<exists>e\<in>set (s_table t). i_pended e \<and> i_bottom e \<noteq> 0)" if "table_ok (s_table t)" for t
    using unlock_pass_private [OF assms(1), of t "[]" "s_table t" False] that by (simp add: head_addr_def)
  let ?t = "s\<lparr>s_table := map clear (s_table s), s_env := fold (run_bottom eff) (filter i_pended (s_table s)) (s_env s)\<rparr>"
  have idle: "filter i_pended (map clear es) = []" "map clear (map clear es) = map clear es" for es
    by (simp_all add: filter_empty_conv)
  have "table_ok (s_table ?t)" using assms(2) by (simp add: table_ok_def image_image comp_def)
  from pass [OF this] have "unlock_rounds b ?t = Some ?t"
    by (subst unlock_rounds.simps) (simp add: idle del: map_map)
  then show ?thesis using pass [OF assms(2)] by (subst unlock_rounds.simps) simp
qed

lemma unlock_private:
  assumes "private_handlers b eff" "table_ok (s_table s)" "s_locked s = 1"
  shows "fnet_isr_unlock b s = Some (s\<lparr>s_locked := 0, s_table := map clear (s_table s),
    s_env := fold (run_bottom eff) (filter i_pended (s_table s)) (s_env s)\<rparr>)"
  using unlock_rounds_private [OF assms(1,2)] assms(3) by (simp add: fnet_isr_unlock_def)

lemma unlock_nested:
  assumes "1 < s_locked s" "s_locked s < 4294967296"
  shows "fnet_isr_unlock b s = Some (s\<lparr>s_locked := s_locked s - 1\<rparr>)"
proof -
  have "s_locked s + 4294967295 = (s_locked s - 1) + 4294967296" using assms by simp
  then have "w32 (s_locked s + 4294967295) = s_locked s - 1" using assms by (simp only: mod_add_self2 mod_less)
  then show ?thesis using assms(1) by (simp add: fnet_isr_unlock_def)
qed

section \<open>Events under the lock\<close>

definition pend :: "nat set \<Rightarrow> isr_entry \<Rightarrow> isr_entry" where
  "pend V e = (if i_vector e \<in> V then e\<lparr>i_pended := True\<rparr> else e)"

lemma pend_simps [simp]:
  "i_addr (pend V e) = i_addr e" "i_vector (pend V e) = i_vector e" "i_top (pend V e) = i_top e"
  "i_bottom (pend V e) = i_bottom e" "i_cookie (pend V e) = i_cookie e"
  "clear (pend V e) = clear e" "pend {} e = e" "i_pended (pend V e) = (i_pended e \<or> i_vector e \<in> V)"
  by (simp_all add: pend_def clear_def)

lemma pend_insert: "pend V (pend {v} e) = pend (insert v V) e"
  by (simp add: pend_def)

text \<open>Events are entries without a top half.\<close>

definition events_ok :: "isr_entry list \<Rightarrow> bool" where
  "events_ok es = (table_ok es \<and> distinct (map i_vector es) \<and> (\<forall>e\<in>set es. i_top e = 0))"

lemma events_ok_pend: "events_ok (map (pend V) es) = events_ok es"
  by (simp add: events_ok_def table_ok_def image_image comp_def)

lemma map_pend_eq:
  assumes "table_ok es" "distinct (map i_vector es)" "e \<in> set es"
  shows "map (\<lambda>e'. if i_addr e' = i_addr e then e'\<lparr>i_pended := True\<rparr> else e') es = map (pend {i_vector e}) es"
proof (rule map_cong [OF refl])
  fix e'
  assume "e' \<in> set es"
  then have "i_addr e' = i_addr e \<longleftrightarrow> i_vector e' = i_vector e"
    using assms by (auto simp: table_ok_def distinct_map inj_on_def)
  then show "(if i_addr e' = i_addr e then e'\<lparr>i_pended := True\<rparr> else e') = pend {i_vector e} e'"
    by (simp add: pend_def)
qed

lemma raise_marks:
  assumes "events_ok (s_table s)" "w32 (s_locked s + 1) \<noteq> 1"
  shows "fnet_event_raise b s v
    = fnet_isr_unlock b (s\<lparr>s_locked := w32 (s_locked s + 1), s_table := map (pend {v}) (s_table s)\<rparr>)"
proof (cases "find (\<lambda>e. i_vector e = v) (s_table s)")
  case None
  then have "map (pend {v}) (s_table s) = s_table s"
    by (intro map_idI) (auto simp: find_None_iff pend_def)
  then show ?thesis using None by (simp add: fnet_event_raise_def fnet_isr_lock_def)
next
  case (Some e)
  then have e: "e \<in> set (s_table s)" "i_vector e = v" by (auto simp: find_Some_iff)
  have "map (\<lambda>e'. if i_addr e' = i_addr e then e'\<lparr>i_pended := True\<rparr> else e') (s_table s)
      = map (pend {v}) (s_table s)"
    using map_pend_eq [OF _ _ e(1)] e(2) assms(1) by (simp add: events_ok_def)
  moreover have "i_top e = 0" using e(1) assms(1) by (simp add: events_ok_def)
  ultimately show ?thesis
    using Some e assms(2)
    by (simp add: fnet_event_raise_def fnet_isr_lock_def call_if_def set_pended_def del: map_eq_conv)
qed

lemma raise_locked:
  assumes "events_ok (s_table s)" "0 < s_locked s" "s_locked s < 4294967295"
  shows "fnet_event_raise b s v = Some (s\<lparr>s_table := map (pend {v}) (s_table s)\<rparr>)"
  using raise_marks [of s b v] unlock_nested [of "s\<lparr>s_locked := s_locked s + 1, s_table := map (pend {v}) (s_table s)\<rparr>" b]
    assms by simp

text \<open>A sequence of events.\<close>

fun raise_all :: "('p, 'e) board \<Rightarrow> ('p, 'e) sys \<Rightarrow> nat list \<Rightarrow> ('p, 'e) sys option" where
  "raise_all b s [] = Some s"
| "raise_all b s (v # vs) = do { s \<leftarrow> fnet_event_raise b s v; raise_all b s vs }"

lemma raise_all_locked:
  assumes "events_ok (s_table s)" "0 < s_locked s" "s_locked s < 4294967295"
  shows "raise_all b s vs = Some (s\<lparr>s_table := map (pend (set vs)) (s_table s)\<rparr>)"
  using assms
proof (induction vs arbitrary: s)
  case Nil
  have "map (pend {}) (s_table s) = s_table s" by (simp add: map_idI)
  then show ?case by simp
next
  case (Cons v vs)
  then show ?case
    using Cons.IH [of "s\<lparr>s_table := map (pend {v}) (s_table s)\<rparr>"]
    by (simp add: raise_locked events_ok_pend pend_insert comp_def)
qed

section \<open>Properties\<close>


text \<open>A board whose handlers write down that they were called, with two events.\<close>

definition log_board :: "('p, (nat \<times> nat) list) board" where
  "log_board = \<lparr>b_alloc = \<lparr>a_malloc = (\<lambda>p n. Some (p, 0)), a_free = (\<lambda>p a. Some p)\<rparr>, b_ms = (\<lambda>k. 0),
     b_call = (\<lambda>h c s. Some (s\<lparr>s_env := s_env s @ [(h, c)]\<rparr>)), b_install = (\<lambda>v p. True)\<rparr>"

definition log_sys :: "(unit, (nat \<times> nat) list) sys" where
  "log_sys = \<lparr>s_pool = (), s_locked = 0,
     s_table = [\<lparr>i_addr = 200, i_vector = 1026, i_top = 0, i_bottom = 8, i_pended = False, i_cookie = 2\<rparr>,
                \<lparr>i_addr = 100, i_vector = 1025, i_top = 0, i_bottom = 7, i_pended = False, i_cookie = 1\<rparr>],
     s_last = 1027, s_timers = [], s_reads = 0, s_time_start = 0, s_time_start_ms = 0, s_env = []\<rparr>"

lemma log_board_private: "private_handlers log_board (\<lambda>h c env. env @ [(h, c)])"
  by (simp add: private_handlers_def log_board_def)


text \<open>
  The lock counts without a floor. The comment on \<^verbatim>\<open>fnet_isr_unlock\<close> says that at
  zero it simply returns; it wraps around to \<open>2 ^ 32 - 1\<close> instead, and an event raised after
  that is marked but its handler does not run.
\<close>

lemma isr_unlock_underflow:
  assumes "s_locked s = 0" "events_ok (s_table s)"
  shows "\<exists>t. fnet_isr_unlock b s = Some t \<and> s_locked t = 4294967295
     \<and> fnet_event_raise b t v = Some (t\<lparr>s_table := map (pend {v}) (s_table s)\<rparr>)"
proof -
  let ?t = "s\<lparr>s_locked := 4294967295\<rparr>"
  have u: "fnet_isr_unlock b s = Some ?t" using assms(1) by (simp add: fnet_isr_unlock_def)
  have "fnet_event_raise b ?t v = Some (?t\<lparr>s_table := map (pend {v}) (s_table s)\<rparr>)"
    using raise_marks [of ?t b v] assms(2) by (simp add: fnet_isr_unlock_def)
  with u show ?thesis by (intro exI [of _ ?t]) simp
qed

lemma isr_unlock_underflow_sample:
  "\<exists>t. fnet_isr_unlock log_board log_sys = Some t \<and> s_locked t = 4294967295
     \<and> fnet_event_raise log_board t 1025 = Some (t\<lparr>s_table := map (pend {1025}) (s_table log_sys)\<rparr>)"
  by (rule isr_unlock_underflow) (simp_all add: log_sys_def events_ok_def table_ok_def)

end
