(* ===== verification/Fnet_Timer.thy ===== *)
theory Fnet_Timer
  imports Fnet_Isr Fnet_Netbuf_Main
begin

text \<open>
  \<^verbatim>\<open>fnet_timer.c\<close>: the queue of software timers. The build takes the clock from the
  application (\<^verbatim>\<open>FNET_CFG_TIMER_ALT\<close> is 1); successive reads of it may give different
  values, so a read is a step that says which value it gave.
\<close>

section \<open>Timers\<close>

definition get_timer :: "nat \<Rightarrow> ('p, 'e) sys \<Rightarrow> net_timer option" where
  "get_timer a s = find (\<lambda>t. t_addr t = a) (s_timers s)"

definition set_start :: "nat \<Rightarrow> nat \<Rightarrow> ('p, 'e) sys \<Rightarrow> ('p, 'e) sys option" where
  "set_start a now s =
     (if a \<in> t_addr ` set (s_timers s)
      then Some (s\<lparr>s_timers := map (\<lambda>t. if t_addr t = a then t\<lparr>t_start := now\<rparr> else t) (s_timers s)\<rparr>)
      else None)"

definition timer_head :: "net_timer list \<Rightarrow> nat" where
  "timer_head ts = (case ts of [] \<Rightarrow> 0 | t # _ \<Rightarrow> t_addr t)"

fun next_timer :: "nat \<Rightarrow> net_timer list \<Rightarrow> nat option" where
  "next_timer a [] = None"
| "next_timer a (t # ts) = (if t_addr t = a then Some (timer_head ts) else next_timer a ts)"

section \<open>Operations\<close>

definition sizeof_net_timer :: nat where
  "sizeof_net_timer = 20"

definition fnet_timer_get_ms :: "('p, 'e) board \<Rightarrow> ('p, 'e) sys \<Rightarrow> nat \<times> ('p, 'e) sys" where
  "fnet_timer_get_ms b s = (b_ms b (s_reads s), s\<lparr>s_reads := s_reads s + 1\<rparr>)"

text \<open>\<open>api\<close>: the application has set a timer interface with a clock in it.\<close>

definition fnet_timer_init :: "bool \<Rightarrow> ('p, 'e) sys \<Rightarrow> ('p, 'e) sys \<times> bool" where
  "fnet_timer_init api s = (s\<lparr>s_time_start := 0, s_time_start_ms := 0\<rparr>, api)"

fun release_loop :: "('p, 'e) board \<Rightarrow> 'p \<Rightarrow> net_timer list \<Rightarrow> 'p option" where
  "release_loop b p [] = Some p"
| "release_loop b p (t # ts) = do { p \<leftarrow> a_free (b_alloc b) p (t_addr t); release_loop b p ts }"

definition fnet_timer_release :: "('p, 'e) board \<Rightarrow> ('p, 'e) sys \<Rightarrow> ('p, 'e) sys option" where
  "fnet_timer_release b s =
     do { p \<leftarrow> release_loop b (s_pool s) (s_timers s); Some (s\<lparr>s_pool := p, s_timers := []\<rparr>) }"

definition expired :: "nat \<Rightarrow> net_timer \<Rightarrow> bool" where
  "expired now t = (w32 (now + 4294967296 - t_start t) \<ge> t_timeout t)"

partial_function (option) poll_loop :: "('p, 'e) board \<Rightarrow> ('p, 'e) sys \<Rightarrow> nat \<Rightarrow> ('p, 'e) sys option" where
  "poll_loop b s a =
     (if a = 0 then Some s
      else do {
        t \<leftarrow> get_timer a s;
        s \<leftarrow>
          (case fnet_timer_get_ms b s of (now, s) \<Rightarrow>
             if expired now t
             then (case fnet_timer_get_ms b s of (now, s) \<Rightarrow>
                     do {
                       s \<leftarrow> set_start a now s;
                       call_if b (t_handler t) (t_cookie t) s
                     })
             else Some s);
        n \<leftarrow> next_timer a (s_timers s);
        poll_loop b s n
      })"

definition fnet_timer_poll :: "('p, 'e) board \<Rightarrow> ('p, 'e) sys \<Rightarrow> ('p, 'e) sys option" where
  "fnet_timer_poll b s =
     do {
       s \<leftarrow> (let s = fnet_isr_lock s in poll_loop b s (timer_head (s_timers s)));
       fnet_isr_unlock b s
     }"

definition fnet_timer_new ::
    "('p, 'e) board \<Rightarrow> ('p, 'e) sys \<Rightarrow> nat \<Rightarrow> nat \<Rightarrow> nat \<Rightarrow> (('p, 'e) sys \<times> nat) option" where
  "fnet_timer_new b s period_ms handler cookie =
     (if period_ms \<noteq> 0 \<and> handler \<noteq> 0
      then do {
        (p, a) \<leftarrow> a_malloc (b_alloc b) (s_pool s) sizeof_net_timer;
        let s = s\<lparr>s_pool := p\<rparr>;
        if a = 0 then Some (s, 0)
        else
          case fnet_timer_get_ms b s of (now, s) \<Rightarrow>
            Some (s\<lparr>s_timers := \<lparr>t_addr = a, t_start = now, t_timeout = period_ms, t_handler = handler,
              t_cookie = cookie\<rparr> # s_timers s\<rparr>, a)
      }
      else Some (s, 0))"

text \<open>Unlinking; for a timer that is not in the queue the search follows the null pointer at its end.\<close>

fun unlink_timer :: "nat \<Rightarrow> net_timer list \<Rightarrow> net_timer list option" where
  "unlink_timer a [] = None"
| "unlink_timer a (t # ts) = (if t_addr t = a then Some ts else map_option ((#) t) (unlink_timer a ts))"

definition fnet_timer_free :: "('p, 'e) board \<Rightarrow> ('p, 'e) sys \<Rightarrow> nat \<Rightarrow> ('p, 'e) sys option" where
  "fnet_timer_free b s a =
     (if a \<noteq> 0
      then do {
        ts \<leftarrow> unlink_timer a (s_timers s);
        p \<leftarrow> a_free (b_alloc b) (s_pool s) a;
        Some (s\<lparr>s_timers := ts, s_pool := p\<rparr>)
      }
      else Some s)"

partial_function (option) delay_loop ::
    "('p, 'e) board \<Rightarrow> ('p, 'e) sys \<Rightarrow> nat \<Rightarrow> nat \<Rightarrow> ('p, 'e) sys option" where
  "delay_loop b s start_ms delay_ms =
     (case fnet_timer_get_ms b s of (now, s) \<Rightarrow>
        if w32 (now + 4294967296 - start_ms) < delay_ms then delay_loop b s start_ms delay_ms else Some s)"

definition fnet_timer_delay :: "('p, 'e) board \<Rightarrow> ('p, 'e) sys \<Rightarrow> nat \<Rightarrow> ('p, 'e) sys option" where
  "fnet_timer_delay b s delay_ms =
     (case fnet_timer_get_ms b s of (start_ms, s) \<Rightarrow>
        delay_loop b s start_ms (if delay_ms = 0 then 1 else delay_ms))"

definition fnet_time_set :: "('p, 'e) board \<Rightarrow> ('p, 'e) sys \<Rightarrow> nat \<Rightarrow> ('p, 'e) sys" where
  "fnet_time_set b s sec =
     (case fnet_timer_get_ms b s of (now, s) \<Rightarrow> s\<lparr>s_time_start_ms := now, s_time_start := sec\<rparr>)"

text \<open>\<open>build\<close> is the build date that \<^verbatim>\<open>mktime\<close> makes of \<^verbatim>\<open>__DATE__\<close> and \<^verbatim>\<open>__TIME__\<close>.\<close>

definition fnet_time :: "('p, 'e) board \<Rightarrow> nat \<Rightarrow> ('p, 'e) sys \<Rightarrow> nat \<times> ('p, 'e) sys" where
  "fnet_time b build s =
     (let s = (if s_time_start s = 0 then fnet_time_set b s build else s)
      in case fnet_timer_get_ms b s of (now, s) \<Rightarrow>
           (s_time_start s + w32 (now + 4294967296 - s_time_start_ms s) div 1000, s))"

section \<open>One poll\<close>

definition timers_ok :: "net_timer list \<Rightarrow> bool" where
  "timers_ok ts = (distinct (map t_addr ts) \<and> 0 \<notin> t_addr ` set ts)"

definition fire :: "nat \<Rightarrow> net_timer \<Rightarrow> net_timer" where
  "fire now t = (if expired now t then t\<lparr>t_start := now\<rparr> else t)"

definition run_timer :: "(nat \<Rightarrow> nat \<Rightarrow> 'e \<Rightarrow> 'e) \<Rightarrow> net_timer \<Rightarrow> 'e \<Rightarrow> 'e" where
  "run_timer eff t env = (if t_handler t \<noteq> 0 then eff (t_handler t) (t_cookie t) env else env)"

lemma fire_simps [simp]:
  "t_addr (fire now t) = t_addr t" "t_timeout (fire now t) = t_timeout t"
  "t_handler (fire now t) = t_handler t" "t_cookie (fire now t) = t_cookie t"
  by (simp_all add: fire_def)

lemma timers_ok_fire: "timers_ok (map (fire now) ts) = timers_ok ts"
  by (simp add: timers_ok_def image_image comp_def)

lemma map_start_idle:
  "a \<notin> t_addr ` set ts \<Longrightarrow> map (\<lambda>t. if t_addr t = a then t\<lparr>t_start := v\<rparr> else t) ts = ts"
  by (induction ts) auto

lemma next_timer_mid:
  "t_addr t \<notin> t_addr ` set done \<Longrightarrow> next_timer (t_addr t) (done @ t # ts) = Some (timer_head ts)"
  by (induction "done") auto

lemma poll_loop_private:
  assumes "private_handlers b eff" "s_timers s = done @ ts" "timers_ok (done @ ts)" "\<forall>k\<ge>s_reads s. b_ms b k = now"
  shows "poll_loop b s (timer_head ts) =
    Some (s\<lparr>s_timers := done @ map (fire now) ts,
      s_env := fold (run_timer eff) (filter (expired now) ts) (s_env s),
      s_reads := s_reads s + length ts + length (filter (expired now) ts)\<rparr>)"
  using assms(2-4)
proof (induction ts arbitrary: s "done")
  case Nil
  then show ?case by (subst poll_loop.simps) (simp add: timer_head_def)
next
  case (Cons t ts)
  have t: "t_addr t \<notin> t_addr ` set done" "t_addr t \<notin> t_addr ` set ts" "t_addr t \<noteq> 0"
    using Cons.prems(2) by (auto simp: timers_ok_def)
  have get: "get_timer (t_addr t) s = Some t"
    unfolding get_timer_def Cons.prems(1) using t(1) by (induction "done") auto
  let ?s = "s\<lparr>s_timers := done @ fire now t # ts,
    s_env := if expired now t then run_timer eff t (s_env s) else s_env s,
    s_reads := s_reads s + (if expired now t then 2 else 1)\<rparr>"
  have step: "(case fnet_timer_get_ms b s of (now, s) \<Rightarrow>
             if expired now t
             then (case fnet_timer_get_ms b s of (now, s) \<Rightarrow>
                     do {
                       s \<leftarrow> set_start (t_addr t) now s;
                       call_if b (t_handler t) (t_cookie t) s
                     })
             else Some s) = Some ?s"
    using Cons.prems(1,3) t assms(1)
    by (auto simp: fnet_timer_get_ms_def set_start_def map_start_idle call_if_def private_handlers_def
        run_timer_def fire_def)
  have nxt: "next_timer (t_addr t) (s_timers ?s) = Some (timer_head ts)"
    using next_timer_mid [of "fire now t" "done" ts] t(1) by simp
  have "poll_loop b ?s (timer_head ts) = Some (?s\<lparr>s_timers := (done @ [fire now t]) @ map (fire now) ts,
      s_env := fold (run_timer eff) (filter (expired now) ts) (s_env ?s),
      s_reads := s_reads ?s + length ts + length (filter (expired now) ts)\<rparr>)"
    by (rule Cons.IH) (use Cons.prems(2,3) in \<open>auto simp: timers_ok_def\<close>)
  moreover have "poll_loop b s (timer_head (t # ts)) = poll_loop b ?s (timer_head ts)"
    unfolding timer_head_def [of "t # ts"] list.case
    by (subst poll_loop.simps) (simp only: if_not_P [OF t(3)] get step nxt Option.bind.simps)
  ultimately show ?case by simp
qed

section \<open>Properties\<close>



text \<open>
  The test for expiry is right across the wrap-around of the millisecond counter: with start and
  current time read modulo \<open>2 ^ 32\<close> it is true exactly when the period has elapsed, as long as the
  timer is looked at within \<open>2 ^ 32\<close> milliseconds (49 days) of its start.
\<close>

lemma timer_expiry_wraps:
  assumes "t_start t = w32 start" "start \<le> now" "now - start < 4294967296"
  shows "expired (w32 now) t \<longleftrightarrow> start + t_timeout t \<le> now"
proof -
  obtain d where d: "now = start + d" "d < 4294967296" using assms(2,3) by (metis le_add_diff_inverse)
  from mod_elapsed [OF d(2), of start] show ?thesis unfolding expired_def assms(1) d(1) by simp
qed

lemma timer_expiry_wraps_sample:
  "\<not> expired (w32 4294967300) \<lparr>t_addr = 40, t_start = w32 4294967290, t_timeout = 11, t_handler = 5, t_cookie = 6\<rparr>"
  using timer_expiry_wraps [of "\<lparr>t_addr = 40, t_start = w32 4294967290, t_timeout = 11, t_handler = 5, t_cookie = 6\<rparr>"
      4294967290 4294967300] by simp

lemma delay_loop_returns:
  assumes "delay \<le> w32 (b_ms b (s_reads s + k) + 4294967296 - start)"
  shows "\<exists>m\<le>k. delay_loop b s start delay = Some (s\<lparr>s_reads := s_reads s + m + 1\<rparr>)
     \<and> delay \<le> w32 (b_ms b (s_reads s + m) + 4294967296 - start)"
  using assms
proof (induction k arbitrary: s)
  case 0
  then show ?case by (subst delay_loop.simps) (simp add: fnet_timer_get_ms_def)
next
  case (Suc k)
  show ?case
  proof (cases "w32 (b_ms b (s_reads s) + 4294967296 - start) < delay")
    case False
    then show ?thesis
      by (intro exI [of _ 0]) (subst delay_loop.simps, simp add: fnet_timer_get_ms_def)
  next
    case True
    let ?s = "s\<lparr>s_reads := s_reads s + 1\<rparr>"
    obtain m where m: "m \<le> k" "delay_loop b ?s start delay = Some (?s\<lparr>s_reads := s_reads ?s + m + 1\<rparr>)"
        "delay \<le> w32 (b_ms b (s_reads ?s + m) + 4294967296 - start)"
      using Suc.IH [of ?s] Suc.prems by auto
    have "delay_loop b s start delay = delay_loop b ?s start delay"
      using True by (subst delay_loop.simps) (simp add: fnet_timer_get_ms_def)
    then show ?thesis using m by (intro exI [of _ "Suc m"]) simp
  qed
qed



section \<open>Timers in the heap\<close>

text \<open>The blocks of the timers are exactly those that the queue holds; \<open>X\<close> are everybody else's.\<close>

definition timers_heap :: "nat \<Rightarrow> nat \<Rightarrow> nat set \<Rightarrow> (mempool, 'e) sys \<Rightarrow> bool" where
  "timers_heap a N X s =
     (timers_ok (s_timers s) \<and> t_addr ` set (s_timers s) \<inter> X = {}
      \<and> mempool_owns a N (s_pool s) (t_addr ` set (s_timers s) \<union> X))"

lemma unlink_timer_split:
  "distinct (map t_addr (l @ t # r)) \<Longrightarrow> unlink_timer (t_addr t) (l @ t # r) = Some (l @ r)"
  by (induction l) auto

lemma release_loop_ok:
  assumes "b_alloc b = main_pool" "mempool_owns a N p (t_addr ` set ts \<union> X)" "distinct (map t_addr ts)"
    and "t_addr ` set ts \<inter> X = {}"
  shows "\<exists>p'. release_loop b p ts = Some p' \<and> mempool_owns a N p' X"
  using assms(2-4)
proof (induction ts arbitrary: p)
  case (Cons t ts)
  obtain p1 where p1: "a_free main_pool p (t_addr t) = Some p1"
      "mempool_owns a N p1 (t_addr ` set (t # ts) \<union> X - {t_addr t})"
    using main.free_owned [OF Cons.prems(1), of "t_addr t"] by auto
  moreover have "t_addr ` set (t # ts) \<union> X - {t_addr t} = t_addr ` set ts \<union> X" using Cons.prems(2,3) by auto
  ultimately show ?case using Cons.IH [of p1] Cons.prems(2,3) assms(1) by auto
qed simp

text \<open>
  C31. The queue keeps its heap blocks in order: a new timer gets a block nobody holds, or the call
  fails and changes nothing in the queue; freeing a timer of the queue unlinks it and gives back its
  block; the release gives back all of them. None of the three faults.
\<close>

theorem timer_heap_invariant:
  assumes "timers_heap a N X s" "b_alloc b = main_pool" "period \<noteq> 0" "handler \<noteq> 0" "t \<in> set (s_timers s)"
  shows "\<exists>s1 p s2 s3. fnet_timer_new b s period handler cookie = Some (s1, p) \<and> timers_heap a N X s1
       \<and> (if p = 0 then s_timers s1 = s_timers s else p \<notin> t_addr ` set (s_timers s) \<union> X
            \<and> s_timers s1 = \<lparr>t_addr = p, t_start = b_ms b (s_reads s), t_timeout = period, t_handler = handler,
                t_cookie = cookie\<rparr> # s_timers s)
     \<and> fnet_timer_free b s (t_addr t) = Some s2 \<and> timers_heap a N X s2
       \<and> set (s_timers s2) = set (s_timers s) - {t}
     \<and> fnet_timer_release b s = Some s3 \<and> s_timers s3 = [] \<and> mempool_owns a N (s_pool s3) X"
proof -
  let ?H = "t_addr ` set (s_timers s) \<union> X"
  have o: "mempool_owns a N (s_pool s) ?H" and ok: "timers_ok (s_timers s)" "t_addr ` set (s_timers s) \<inter> X = {}"
    using assms(1) by (simp_all add: timers_heap_def)
  have "sizeof_net_timer + 8 \<le> 4294967296" by (simp add: sizeof_net_timer_def)
  then obtain q p where qp: "a_malloc main_pool (s_pool s) sizeof_net_timer = Some (q, p)"
      "p = 0 \<Longrightarrow> mempool_owns a N q ?H" "p \<noteq> 0 \<Longrightarrow> p \<notin> ?H \<and> mempool_owns a N q (insert p ?H)"
    using main.malloc_total [OF o] main.malloc_null [OF o] main.malloc_new [OF o] by metis
  have new: "\<exists>s1. fnet_timer_new b s period handler cookie = Some (s1, p) \<and> timers_heap a N X s1
       \<and> (if p = 0 then s_timers s1 = s_timers s else p \<notin> ?H
            \<and> s_timers s1 = \<lparr>t_addr = p, t_start = b_ms b (s_reads s), t_timeout = period, t_handler = handler,
                t_cookie = cookie\<rparr> # s_timers s)"
    using qp assms(2-4) ok
    by (cases "p = 0") (auto simp: fnet_timer_new_def fnet_timer_get_ms_def timers_heap_def timers_ok_def)
  obtain l r where lr: "s_timers s = l @ t # r" using assms(5) by (meson split_list)
  have dist: "distinct (map t_addr (l @ t # r))" using ok(1) lr by (simp add: timers_ok_def)
  obtain p2 where p2: "a_free main_pool (s_pool s) (t_addr t) = Some p2"
      "mempool_owns a N p2 (?H - {t_addr t})"
    using main.free_owned [OF o, of "t_addr t"] assms(5) by auto
  have "?H - {t_addr t} = t_addr ` set (l @ r) \<union> X" using dist ok(2) lr by auto
  with p2(2) have o2: "mempool_owns a N p2 (t_addr ` set (l @ r) \<union> X)" by simp
  have "t_addr t \<noteq> 0" using ok(1) assms(5) by (auto simp: timers_ok_def)
  then have free: "fnet_timer_free b s (t_addr t) = Some (s\<lparr>s_timers := l @ r, s_pool := p2\<rparr>)"
    using unlink_timer_split [OF dist] p2(1) assms(2) by (simp add: fnet_timer_free_def lr)
  have heap2: "timers_heap a N X (s\<lparr>s_timers := l @ r, s_pool := p2\<rparr>)"
    using o2 ok lr by (auto simp: timers_heap_def timers_ok_def)
  have set2: "set (l @ r) = set (s_timers s) - {t}" using dist lr by auto
  obtain p3 where "release_loop b (s_pool s) (s_timers s) = Some p3" "mempool_owns a N p3 X"
    using release_loop_ok [OF assms(2) o _ ok(2)] ok(1) by (auto simp: timers_ok_def)
  then have rel: "fnet_timer_release b s = Some (s\<lparr>s_pool := p3, s_timers := []\<rparr>)" "mempool_owns a N p3 X"
    by (simp_all add: fnet_timer_release_def)
  from new obtain s1 where "fnet_timer_new b s period handler cookie = Some (s1, p) \<and> timers_heap a N X s1
       \<and> (if p = 0 then s_timers s1 = s_timers s else p \<notin> ?H
            \<and> s_timers s1 = \<lparr>t_addr = p, t_start = b_ms b (s_reads s), t_timeout = period, t_handler = handler,
                t_cookie = cookie\<rparr> # s_timers s)" ..
  then show ?thesis
    using free heap2 set2 rel
    by (rule_tac exI [of _ s1], rule_tac exI [of _ p],
        rule_tac exI [of _ "s\<lparr>s_timers := l @ r, s_pool := p2\<rparr>"],
        rule_tac exI [of _ "s\<lparr>s_pool := p3, s_timers := []\<rparr>"]) simp
qed

definition timer_heap :: mempool where
  "timer_heap = \<lparr>free_ptr = 4104, unit_size = 8,
     heap = (\<lambda>x. \<lparr>u_size = 0, u_ptr = 0\<rparr>)(4104 := \<lparr>u_size = 10, u_ptr = 4104\<rparr>,
       4184 := \<lparr>u_size = 4, u_ptr = 0\<rparr>)\<rparr>"

definition timer_sys :: "(mempool, nat) sys" where
  "timer_sys = \<lparr>s_pool = timer_heap, s_locked = 0, s_table = [], s_last = 1025,
     s_timers = [\<lparr>t_addr = 4192, t_start = 0, t_timeout = 100, t_handler = 5, t_cookie = 6\<rparr>],
     s_reads = 0, s_time_start = 0, s_time_start_ms = 0, s_env = 0\<rparr>"

lemma timer_sys_heap: "timers_heap 4104 14 {} timer_sys"
proof -
  have "pool_inv 8 4104 14 (timer_heap, [4192 \<mapsto> 20])"
    unfolding pool_inv_def
    by (intro exI [of _ "[Free 10, Used 4]"])
      (auto simp: timer_heap_def rep_def ring_def split: if_splits)
  moreover have "dom [4192 \<mapsto> 20 :: nat] = {4192 :: nat}" by simp
  ultimately have "mempool_owns 4104 14 timer_heap {4192}" unfolding mempool_owns_def by blast
  then show ?thesis by (simp add: timers_heap_def timers_ok_def timer_sys_def)
qed

lemma timer_heap_invariant_witness:
  "\<exists>s1 p s2 s3 b. b_alloc b = main_pool \<and> fnet_timer_new b timer_sys 50 7 8 = Some (s1, p) \<and> timers_heap 4104 14 {} s1
     \<and> fnet_timer_free b timer_sys 4192 = Some s2 \<and> s_timers s2 = []
     \<and> fnet_timer_release b timer_sys = Some s3 \<and> mempool_owns 4104 14 (s_pool s3) {}"
proof -
  let ?b = "\<lparr>b_alloc = main_pool, b_ms = (\<lambda>k. k), b_call = (\<lambda>h c s. Some s), b_install = (\<lambda>v p. True)\<rparr>
    :: (mempool, nat) board"
  let ?t = "\<lparr>t_addr = 4192, t_start = 0, t_timeout = 100, t_handler = 5, t_cookie = 6\<rparr>"
  from timer_heap_invariant [OF timer_sys_heap, of ?b 50 7 ?t 8] obtain s1 p s2 s3 where
    "fnet_timer_new ?b timer_sys 50 7 8 = Some (s1, p)" "timers_heap 4104 14 {} s1"
    "fnet_timer_free ?b timer_sys 4192 = Some s2" "set (s_timers s2) = set (s_timers timer_sys) - {?t}"
    "fnet_timer_release ?b timer_sys = Some s3" "mempool_owns 4104 14 (s_pool s3) {}"
    by (auto simp: timer_sys_def)
  then show ?thesis by (intro exI [of _ ?b] exI conjI) (auto simp: timer_sys_def)
qed

end
