(* ===== verification/Fnet_Netbuf_Drain.thy ===== *)
theory Fnet_Netbuf_Drain
  imports Fnet_Netbuf_Main
begin

text \<open>
  Net buffers whose allocation may call back into the protocols. With \<^verbatim>\<open>drain\<close> true the
  allocation calls \<^verbatim>\<open>_fnet_prot_drain\<close> when memory runs out; the protocols free packets
  they hold and the allocation is tried once more. The protocol's own data is the part \<open>nbs.more\<close>
  of the state, which the net buffers never touch.
\<close>

section \<open>What the net buffers leave alone\<close>

named_theorems more_frames \<open>operations that do not change the rest of the state\<close>

lemma malloc_netbuf_more [more_frames]: "fnet_malloc_netbuf A s n = Some (s', a) \<Longrightarrow> nbs.more s' = nbs.more s"
  by (auto simp: fnet_malloc_netbuf_def bind_eq_Some_conv)

lemma free_netbuf_more [more_frames]: "fnet_free_netbuf A s a = Some s' \<Longrightarrow> nbs.more s' = nbs.more s"
  by (auto simp: fnet_free_netbuf_def bind_eq_Some_conv)

lemma new_data_more [simp]: "nbs.more (new_data s d n) = nbs.more s"
  by (simp add: new_data_def)

lemma write_data_more [more_frames]: "write_data s d i xs = Some s' \<Longrightarrow> nbs.more s' = nbs.more s"
  by (auto simp: write_data_def bind_eq_Some_conv split: if_splits)

lemma release_data_more [more_frames]: "release_data A s d = Some s' \<Longrightarrow> nbs.more s' = nbs.more s"
  by (auto simp: release_data_def bind_eq_Some_conv split: if_splits dest: free_netbuf_more)

lemma netbuf_free_more [more_frames]: "fnet_netbuf_free A s c = Some (s', c') \<Longrightarrow> nbs.more s' = nbs.more s"
  by (cases c) (auto simp: fnet_netbuf_free_def bind_eq_Some_conv dest!: more_frames)

lemma free_chain_more [more_frames]: "fnet_netbuf_free_chain A s c = Some s' \<Longrightarrow> nbs.more s' = nbs.more s"
  by (induction c arbitrary: s) (auto simp: bind_eq_Some_conv dest!: release_data_more free_netbuf_more)

lemma free_rest_more [more_frames]: "free_rest A s c = Some s' \<Longrightarrow> nbs.more s' = nbs.more s"
  by (induction c arbitrary: s) (auto simp: bind_eq_Some_conv dest!: netbuf_free_more)

lemma trim_front_more [more_frames]: "trim_front A s c t len = Some (s', c', t') \<Longrightarrow> nbs.more s' = nbs.more s"
proof (induction A s c t len rule: trim_front.induct)
  case (2 A s n "next" t len)
  show ?case
  proof (cases "len \<ge> t")
    case True
    with "2.prems" obtain s1 c1 where "fnet_netbuf_free A s (n # next) = Some (s1, c1)"
        "trim_front A s1 next (case next of [] \<Rightarrow> t | m # _ \<Rightarrow> w32 (t + nb_length m)) len = Some (s', c', t')"
      by (auto simp: bind_eq_Some_conv)
    then show ?thesis using "2.IH" [OF True _ refl] netbuf_free_more by fastforce
  next
    case False
    then show ?thesis using "2.prems" by simp
  qed
qed simp

lemma trim_more [more_frames]: "fnet_netbuf_trim A s c k = Some (s', c') \<Longrightarrow> nbs.more s' = nbs.more s"
  by (auto simp: fnet_netbuf_trim_def bind_eq_Some_conv Let_def neq_Nil_conv split: if_splits list.splits prod.splits
      simp del: trim_find.simps trim_front.simps dest!: netbuf_free_more free_rest_more trim_front_more)

section \<open>Allocation with a drain\<close>

text \<open>
  \<open>H\<close> are the net buffers and \<open>B\<close> the other blocks that the protocols hold and may free in a
  drain, as they are recorded in the rest of the state, and \<open>Q\<close> is what a drain may do to that rest.
  The chains \<open>L\<close> that are being worked on are not in \<open>H\<close>, so a drain leaves them alone.
\<close>

definition drain_ok ::
    "('p \<Rightarrow> nat set \<Rightarrow> bool) \<Rightarrow> ('z \<Rightarrow> netbuf list) \<Rightarrow> ('z \<Rightarrow> nat set) \<Rightarrow> ('z \<Rightarrow> 'z \<Rightarrow> bool)
      \<Rightarrow> netbuf list \<Rightarrow> ('p, 'z) drain \<Rightarrow> bool" where
  "drain_ok owns H B Q L dr =
     (\<forall>X s. nb_inv owns (X \<union> B (nbs.more s)) s (L @ H (nbs.more s)) \<and> X \<inter> B (nbs.more s) = {} \<longrightarrow>
        (\<exists>s'. dr s = Some s' \<and> nb_inv owns (X \<union> B (nbs.more s')) s' (L @ H (nbs.more s')) \<and> same_bytes s s' L
           \<and> Q (nbs.more s) (nbs.more s') \<and> B (nbs.more s') \<subseteq> B (nbs.more s)))"

lemma same_bytes_refl [simp]: "same_bytes s s L"
  by (simp add: same_bytes_def)

context block_allocator
begin

lemma malloc_fresh_ok:
  assumes "nb_inv owns X s L" "n + 8 \<le> 4294967296"
  obtains s' a where "fnet_malloc_netbuf A s n = Some (s', a)" "nbs.more s' = nbs.more s" "same_bytes s s' L"
    "a = 0 \<Longrightarrow> nb_inv owns X s' L" "a \<noteq> 0 \<Longrightarrow> nb_inv owns (insert a X) s' L \<and> a \<notin> X"
proof -
  let ?R = "mset (map nb_data L)" and ?D = "set (map nb_addr L) \<union> X"
  obtain s1 a where s1: "fnet_malloc_netbuf A s n = Some (s1, a)" "bufs s1 = bufs s"
      "a = 0 \<Longrightarrow> mem_ok owns s1 ?R ?D"
      "a \<noteq> 0 \<Longrightarrow> a \<notin> ?D \<and> a \<notin> dom (bufs s) \<and> mem_ok owns s1 ?R (insert a ?D)"
    by (rule malloc_netbuf_ok [OF nb_inv_mem(1) [OF assms(1)] assms(2)]) (rule that)
  show ?thesis
  proof (rule that [OF s1(1)])
    show "nbs.more s1 = nbs.more s" by (rule malloc_netbuf_more [OF s1(1)])
    show "same_bytes s s1 L" using s1(2) by (simp add: same_bytes_def bytes_at_def)
    show "a = 0 \<Longrightarrow> nb_inv owns X s1 L"
      using s1(2,3) assms(1) by (auto simp: nb_inv_def in_buf_def bytes_at_def)
    show "a \<noteq> 0 \<Longrightarrow> nb_inv owns (insert a X) s1 L \<and> a \<notin> X"
      using s1(2,4) assms(1) by (auto simp: nb_inv_def in_buf_def bytes_at_def)
  qed
qed

lemma malloc_drain_ok:
  assumes "nb_inv owns (X \<union> B (nbs.more s)) s (L @ H (nbs.more s))" "X \<inter> B (nbs.more s) = {}"
    and "n + 8 \<le> 4294967296" "drain_ok owns H B Q L dr" "reflp Q"
  obtains s' a where "malloc_drain A dr s n drain = Some (s', a)" "same_bytes s s' L"
    "Q (nbs.more s) (nbs.more s')" "B (nbs.more s') \<subseteq> B (nbs.more s)"
    "a = 0 \<Longrightarrow> nb_inv owns (X \<union> B (nbs.more s')) s' (L @ H (nbs.more s'))"
    "a \<noteq> 0 \<Longrightarrow> nb_inv owns (insert a X \<union> B (nbs.more s')) s' (L @ H (nbs.more s')) \<and> a \<notin> X \<union> B (nbs.more s')"
proof -
  obtain s1 a where s1: "fnet_malloc_netbuf A s n = Some (s1, a)" "nbs.more s1 = nbs.more s"
      "same_bytes s s1 (L @ H (nbs.more s))" "a = 0 \<Longrightarrow> nb_inv owns (X \<union> B (nbs.more s)) s1 (L @ H (nbs.more s))"
      "a \<noteq> 0 \<Longrightarrow> nb_inv owns (insert a (X \<union> B (nbs.more s))) s1 (L @ H (nbs.more s)) \<and> a \<notin> X \<union> B (nbs.more s)"
    by (rule malloc_fresh_ok [OF assms(1,3)]) (rule that)
  have same1: "same_bytes s s1 L" using s1(3) by (simp add: same_bytes_def)
  show ?thesis
  proof (cases "a = 0 \<and> drain")
    case False
    then have "malloc_drain A dr s n drain = Some (s1, a)" by (auto simp: malloc_drain_def s1(1))
    then show ?thesis
      using s1(4,5) assms(5) by (intro that [of s1 a]) (auto simp: s1(2) same1 reflpD)
  next
    case True
    then have "nb_inv owns (X \<union> B (nbs.more s1)) s1 (L @ H (nbs.more s1))" "X \<inter> B (nbs.more s1) = {}"
      using s1(2,4) assms(2) by simp_all
    then obtain s2 where s2: "dr s1 = Some s2" "nb_inv owns (X \<union> B (nbs.more s2)) s2 (L @ H (nbs.more s2))"
        "same_bytes s1 s2 L" "Q (nbs.more s1) (nbs.more s2)" "B (nbs.more s2) \<subseteq> B (nbs.more s1)"
      using assms(4) unfolding drain_ok_def by blast
    obtain s3 a' where s3: "fnet_malloc_netbuf A s2 n = Some (s3, a')" "nbs.more s3 = nbs.more s2"
        "same_bytes s2 s3 (L @ H (nbs.more s2))" "a' = 0 \<Longrightarrow> nb_inv owns (X \<union> B (nbs.more s2)) s3 (L @ H (nbs.more s2))"
        "a' \<noteq> 0 \<Longrightarrow> nb_inv owns (insert a' (X \<union> B (nbs.more s2))) s3 (L @ H (nbs.more s2)) \<and> a' \<notin> X \<union> B (nbs.more s2)"
      by (rule malloc_fresh_ok [OF s2(2) assms(3)]) (rule that)
    have "malloc_drain A dr s n drain = Some (s3, a')"
      using True s1(1) s2(1) s3(1) by (simp add: malloc_drain_def)
    moreover have "same_bytes s s3 L"
      using same1 s2(3) s3(3) by (simp add: same_bytes_def)
    ultimately show ?thesis
      using s1(2) s2(4,5) s3(2,4,5) by (intro that [of s3 a']) auto
  qed
qed

lemma free_fresh_ok:
  assumes "nb_inv owns (insert a X) s L" "a \<notin> X"
  obtains s' where "fnet_free_netbuf A s a = Some s'" "nbs.more s' = nbs.more s" "nb_inv owns X s' L" "same_bytes s s' L"
proof -
  let ?D = "set (map nb_addr L) \<union> X"
  have a: "a \<notin> ?D" using assms by (auto simp: nb_inv_def)
  have m: "mem_ok owns s (mset (map nb_data L)) (insert a ?D)" using nb_inv_mem(1) [OF assms(1)] by simp
  have "nb_inv owns (insert a X) s L \<Longrightarrow> size (mset (map nb_data L)) = card (set (map nb_addr L))"
    using distinct_card [of "map nb_addr L"] by (simp add: nb_inv_def)
  then have "size (mset (map nb_data L)) \<le> card (insert a ?D - {a})"
    using assms(1) a owned_finite [OF m] by (simp add: card_mono)
  moreover have "card (insert a ?D - {a}) \<le> card (insert a ?D)"
    using owned_finite [OF m] by (intro card_mono) auto
  ultimately have "size (mset (map nb_data L)) \<le> card (insert a ?D)" by simp
  then obtain s' where s': "fnet_free_netbuf A s a = Some s'" "bufs s' = bufs s"
      "mem_ok owns s' (mset (map nb_data L)) (insert a ?D - {a})"
    using free_netbuf_ok [OF m, of a] by (metis insertI1)
  have "insert a ?D - {a} = ?D" using a by simp
  with s' show ?thesis
    using assms(1)
    by (intro that [OF s'(1) free_netbuf_more [OF s'(1)]])
      (auto simp: nb_inv_def in_buf_def bytes_at_def same_bytes_def)
qed

lemma netbuf_new_drain_ok:
  assumes "nb_inv owns (X \<union> B (nbs.more s)) s (L @ H (nbs.more s))" "X \<inter> B (nbs.more s) = {}"
    and "len + 12 \<le> 4294967296" "drain_ok owns H B Q L dr" "reflp Q" "transp Q"
  shows "\<exists>s' c. fnet_netbuf_new A dr s len drain = Some (s', c) \<and> same_bytes s s' L
     \<and> Q (nbs.more s) (nbs.more s') \<and> B (nbs.more s') \<subseteq> B (nbs.more s)
     \<and> (c = [] \<and> nb_inv owns (X \<union> B (nbs.more s')) s' (L @ H (nbs.more s'))
        \<or> (\<exists>n. c = [n] \<and> nb_inv owns (X \<union> B (nbs.more s')) s' (n # L @ H (nbs.more s')) \<and> nb_length n = len
             \<and> nb_total_length n = len \<and> nb_off n = 0 \<and> nb_data n \<notin> nb_data ` set (L @ H (nbs.more s'))
             \<and> length (bytes_at s' (nb_data n)) = len))"
proof -
  have sz: "sizeof_netbuf + 8 \<le> 4294967296" by (simp add: sizeof_netbuf_def)
  obtain s1 a where s1: "malloc_drain A dr s sizeof_netbuf drain = Some (s1, a)" "same_bytes s s1 L"
      "Q (nbs.more s) (nbs.more s1)" "B (nbs.more s1) \<subseteq> B (nbs.more s)"
      "a = 0 \<Longrightarrow> nb_inv owns (X \<union> B (nbs.more s1)) s1 (L @ H (nbs.more s1))"
      "a \<noteq> 0 \<Longrightarrow> nb_inv owns (insert a X \<union> B (nbs.more s1)) s1 (L @ H (nbs.more s1)) \<and> a \<notin> X \<union> B (nbs.more s1)"
    by (rule malloc_drain_ok [OF assms(1,2) sz assms(4,5)]) (rule that)
  show ?thesis
  proof (cases "a = 0")
    case True
    then show ?thesis using s1 by (simp add: fnet_netbuf_new_def)
  next
    case False
    with s1(6) have i1: "nb_inv owns (insert a X \<union> B (nbs.more s1)) s1 (L @ H (nbs.more s1))" "a \<notin> X \<union> B (nbs.more s1)" by auto
    have free: "insert a X \<inter> B (nbs.more s1) = {}" using i1(2) assms(2) s1(4) by auto
    have l: "w32 (len + 4) = len + 4" "len + 4 + 8 \<le> 4294967296" using assms(3) by simp_all
    obtain s2 d where s2: "malloc_drain A dr s1 (len + 4) drain = Some (s2, d)" "same_bytes s1 s2 L"
        "Q (nbs.more s1) (nbs.more s2)" "B (nbs.more s2) \<subseteq> B (nbs.more s1)"
        "d = 0 \<Longrightarrow> nb_inv owns (insert a X \<union> B (nbs.more s2)) s2 (L @ H (nbs.more s2))"
        "d \<noteq> 0 \<Longrightarrow> nb_inv owns (insert d (insert a X) \<union> B (nbs.more s2)) s2 (L @ H (nbs.more s2))
           \<and> d \<notin> insert a X \<union> B (nbs.more s2)"
      by (rule malloc_drain_ok [OF i1(1) free l(2) assms(4,5)]) (rule that)
    have q: "Q (nbs.more s) (nbs.more s2)" using assms(6) s1(3) s2(3) by (rule transpD)
    have sub: "B (nbs.more s2) \<subseteq> B (nbs.more s)" using s1(4) s2(4) by blast
    have same2: "same_bytes s s2 L" using s1(2) s2(2) by (simp add: same_bytes_def)
    let ?L = "L @ H (nbs.more s2)"
    define Y where "Y = X \<union> B (nbs.more s2)"
    have aY: "a \<notin> Y" using i1(2) s2(4) by (auto simp: Y_def)
    show ?thesis
    proof (cases "d = 0")
      case True
      have "nb_inv owns (insert a Y) s2 ?L" using s2(5) [OF True] by (simp add: Y_def)
      then obtain s3 where s3: "fnet_free_netbuf A s2 a = Some s3" "nbs.more s3 = nbs.more s2" "nb_inv owns Y s3 ?L"
          "same_bytes s2 s3 ?L"
        by (rule free_fresh_ok [OF _ aY]) (rule that)
      then show ?thesis
        using \<open>a \<noteq> 0\<close> True s1(1) s2(1) q same2 sub
        by (simp add: fnet_netbuf_new_def l same_bytes_def Y_def)
    next
      case False
      with s2(6) have i2: "nb_inv owns (insert d (insert a Y)) s2 ?L" "d \<notin> insert a Y" by (auto simp: Y_def)
      let ?R = "mset (map nb_data ?L)" and ?D = "set (map nb_addr ?L) \<union> Y"
      let ?s = "new_data s2 d len"
      let ?n = "\<lparr>nb_addr = a, nb_data = d, nb_off = 0, nb_length = len, nb_total_length = len, nb_flags = 0\<rparr>"
      have m2: "mem_ok owns s2 ?R (insert d (insert a ?D))" using nb_inv_mem(1) [OF i2(1)] by simp
      have d: "d \<notin> insert a ?D" "d \<notin> dom (bufs s2)" and a: "a \<notin> ?D"
        using i2 aY m2 by (auto simp: nb_inv_def mem_ok_def)
      have fin: "finite ?D" using owned_finite [OF m2] by simp
      have "size ?R = card (set (map nb_addr ?L))"
        using i2(1) distinct_card [of "map nb_addr ?L"] by (simp add: nb_inv_def)
      also have "\<dots> \<le> card (insert a ?D)" using fin by (intro card_mono) auto
      finally have sz: "size ?R \<le> card (insert a ?D)" .
      note nd = new_data_ok [OF m2 d(1) sz, of len]
      have dn: "d \<notin> nb_data ` set ?L" using d(2) m2 by (auto simp: mem_ok_def)
      have bs: "bytes_at ?s e = bytes_at s2 e" if "e \<in> nb_data ` set ?L" for e
        using nd(3) [of e] that dn assms(3) by force
      have len: "length (bytes_at ?s d) = len" using nd(2) assms(3) by (simp add: raw_bytes_def)
      have "nb_inv owns Y ?s (?n # ?L)"
        using nd(1) i2(1) assms(3) a d(1) len bs by (auto simp: nb_inv_def in_buf_def)
      moreover have "same_bytes s2 ?s L" using bs by (auto simp: same_bytes_def)
      moreover have "fnet_netbuf_new A dr s len drain = Some (?s, [?n])"
        using \<open>a \<noteq> 0\<close> False s1(1) s2(1) by (simp add: fnet_netbuf_new_def l)
      ultimately show ?thesis
        using dn len q same2 sub by (auto simp: same_bytes_def Y_def)
    qed
  qed
qed

end

end
