(* ===== verification/Fnet_Arp.thy ===== *)
theory Fnet_Arp
  imports Fnet_Netbuf_Drain Fnet_String
begin

text \<open>
  \<^verbatim>\<open>fnet_arp.c\<close> and the part of \<^verbatim>\<open>fnet_eth.c\<close> below IPv4: the ARP cache, the
  packets that wait in it for an address, ARP requests and replies, Ethernet frames in and out.

  The state extends that of the net buffers by the interface's ARP data, its IPv4 addresses and
  what it has sent. The operations run to their end before the next one starts: the code brackets
  them with \<^verbatim>\<open>fnet_isr_lock\<close>, whose effect on handlers is the subject of \<open>Fnet_Isr\<close>, and
  an event raised is written down in \<open>raised\<close>. \<open>other_nbs\<close> and
  \<open>other_blocks\<close> are the net buffers (fragments, socket queues) and the other blocks (list heads) that
  the protocols above hold; no operation here reads or changes them, but a drain frees some, and what
  IPv4 is given may join them. The interface exists and has an ARP part.
\<close>

unbundle bit_operations_syntax

section \<open>State\<close>

record arp_entry =
  hard_addr :: "u8 list"
  prot_addr :: u32
  cr_time_ms :: nat
  hold :: "netbuf list"
  hold_time_ms :: nat

record 'p arp_net = "'p nbs" +
  arp_table :: "arp_entry list"
  arp_tmr :: nat
  arp_event :: nat
  arp_probe_ipaddr :: u32
  ip4_address :: u32
  ip4_subnet :: u32
  ip4_netbroadcast :: u32
  ip4_subnetbroadcast :: u32
  ip4_addr_conflict :: bool
  raised :: "nat list"
  sent :: "u8 list list"
  reads :: nat
  eth_number :: nat
  other_nbs :: "netbuf list"
  other_blocks :: "nat list"

text \<open>
  What the file calls: the allocator, the clock (\<open>nt_ms k\<close> is what read number \<open>k\<close> returns), the
  interface's address (\<open>None\<close> when it cannot be read) and largest packet, the drains of the other
  protocols, the input of IPv4, and what the transmit buffers hold.
\<close>

record 'p net_board =
  nt_alloc :: "'p allocator"
  nt_ms :: "nat \<Rightarrow> nat"
  nt_hw :: "u8 list option"
  nt_mtu :: nat
  nt_drain :: "'p arp_net \<Rightarrow> 'p arp_net option"
  nt_ip4 :: "'p arp_net \<Rightarrow> netbuf list \<Rightarrow> 'p arp_net option"
  nt_stale :: "nat \<Rightarrow> nat \<Rightarrow> u8"

definition FNET_CFG_ARP_TABLE_SIZE :: nat where
  "FNET_CFG_ARP_TABLE_SIZE = 10"

definition fnet_eth_null_addr :: "u8 list" where
  "fnet_eth_null_addr = [0, 0, 0, 0, 0, 0]"

definition fnet_eth_broadcast :: "u8 list" where
  "fnet_eth_broadcast = [255, 255, 255, 255, 255, 255]"

definition zero_entry :: arp_entry where
  "zero_entry = \<lparr>hard_addr = fnet_eth_null_addr, prot_addr = 0, cr_time_ms = 0, hold = [], hold_time_ms = 0\<rparr>"

definition arp_get_ms :: "'p net_board \<Rightarrow> 'p arp_net \<Rightarrow> nat \<times> 'p arp_net" where
  "arp_get_ms b s = (nt_ms b (reads s), s\<lparr>reads := reads s + 1\<rparr>)"

text \<open>The unsigned difference of two times.\<close>

definition elapsed :: "nat \<Rightarrow> nat \<Rightarrow> nat" where
  "elapsed now start = w32 (now + 4294967296 - start)"

definition set_entry :: "nat \<Rightarrow> (arp_entry \<Rightarrow> arp_entry) \<Rightarrow> 'p arp_net \<Rightarrow> 'p arp_net" where
  "set_entry i f s = s\<lparr>arp_table := (arp_table s)[i := f (arp_table s ! i)]\<rparr>"

section \<open>Bytes of 16 and 32 bit fields\<close>

definition store16 :: "u16 \<Rightarrow> u8 list" where
  "store16 v = [ucast v, ucast (drop_bit 8 v)]"

definition store32 :: "u32 \<Rightarrow> u8 list" where
  "store32 v = [ucast v, ucast (drop_bit 8 v), ucast (drop_bit 16 v), ucast (drop_bit 24 v)]"

definition load16l :: "u8 list \<Rightarrow> u16" where
  "load16l xs = load16 (xs ! 0) (xs ! 1)"

definition load32 :: "u8 list \<Rightarrow> u32" where
  "load32 xs = ucast (xs ! 0) OR push_bit 8 (ucast (xs ! 1)) OR push_bit 16 (ucast (xs ! 2))
     OR push_bit 24 (ucast (xs ! 3))"

section \<open>The ARP header\<close>

record arp_header =
  hard_type :: u16
  prot_type :: u16
  hard_size :: u8
  prot_size :: u8
  op :: u16
  sender_hard_addr :: "u8 list"
  sender_prot_addr :: u32
  target_hard_addr :: "u8 list"
  targer_prot_addr :: u32

definition sizeof_arp_header :: nat where
  "sizeof_arp_header = 28"

text \<open>The fields at their offsets in the packed struct.\<close>

definition arp_of :: "u8 list \<Rightarrow> arp_header" where
  "arp_of xs = \<lparr>hard_type = load16l (take 2 xs), prot_type = load16l (take 2 (drop 2 xs)),
     hard_size = xs ! 4, prot_size = xs ! 5, op = load16l (take 2 (drop 6 xs)),
     sender_hard_addr = take 6 (drop 8 xs), sender_prot_addr = load32 (take 4 (drop 14 xs)),
     target_hard_addr = take 6 (drop 18 xs), targer_prot_addr = load32 (take 4 (drop 24 xs))\<rparr>"

definition arp_bytes :: "arp_header \<Rightarrow> u8 list" where
  "arp_bytes h = store16 (hard_type h) @ store16 (prot_type h) @ [hard_size h, prot_size h] @ store16 (op h)
     @ sender_hard_addr h @ store32 (sender_prot_addr h) @ target_hard_addr h @ store32 (targer_prot_addr h)"

section \<open>Draining\<close>

text \<open>\<^verbatim>\<open>_fnet_arp_drain\<close>: the entries in order; the packets that wait are freed.\<close>

fun drain_loop :: "'p allocator \<Rightarrow> 'p arp_net \<Rightarrow> arp_entry list \<Rightarrow> ('p arp_net \<times> arp_entry list) option" where
  "drain_loop A s [] = Some (s, [])"
| "drain_loop A s (e # es) =
     do {
       (s, e) \<leftarrow>
         (if hold e \<noteq> []
          then do { s \<leftarrow> fnet_netbuf_free_chain A s (hold e); Some (s, e\<lparr>hold := [], hold_time_ms := 0\<rparr>) }
          else Some (s, e));
       (s, es) \<leftarrow> drain_loop A s es;
       Some (s, e # es)
     }"

definition fnet_arp_drain :: "'p net_board \<Rightarrow> 'p arp_net \<Rightarrow> 'p arp_net option" where
  "fnet_arp_drain b s =
     do { (s, es) \<leftarrow> drain_loop (nt_alloc b) s (arp_table s); Some (s\<lparr>arp_table := es\<rparr>) }"

definition fnet_eth_drain :: "'p net_board \<Rightarrow> 'p arp_net \<Rightarrow> 'p arp_net option" where
  "fnet_eth_drain b s = fnet_arp_drain b s"

text \<open>The protocols first, then the interface.\<close>

definition fnet_prot_drain :: "'p net_board \<Rightarrow> 'p arp_net \<Rightarrow> 'p arp_net option" where
  "fnet_prot_drain b s = do { s \<leftarrow> nt_drain b s; fnet_eth_drain b s }"

section \<open>Ethernet output\<close>

definition FNET_ETH_TYPE_IP4 :: u16 where
  "FNET_ETH_TYPE_IP4 = 0x0800"

definition FNET_ETH_TYPE_ARP :: u16 where
  "FNET_ETH_TYPE_ARP = 0x0806"

definition FNET_ETH_TYPE_IP6 :: u16 where
  "FNET_ETH_TYPE_IP6 = 0x86DD"

definition FNET_ETH_TYPE_RESERVED :: u16 where
  "FNET_ETH_TYPE_RESERVED = 0xFFFF"

text \<open>
  The controller puts the checksum of ICMP, UDP and TCP into the frames it sends, and the driver clears
  the field first. \<open>datagram\<close> is the transmit buffer by offset, with the Ethernet header first; the
  offsets 12, 14, 20 and 23 are those of the frame's type, the IPv4 header's first byte, its fragment
  field and its protocol (20 the next header of IPv6), and 2, 6 and 16 those of the three checksums.
  The size counts the Ethernet header too, so the buffer can be read and written behind the frame.
\<close>

definition clear16 :: "nat \<Rightarrow> (nat \<Rightarrow> u8) \<Rightarrow> nat \<Rightarrow> u8" where
  "clear16 i d = d(i := 0, i + 1 := 0)"

definition fnet_fec_checksum_clear :: "(nat \<Rightarrow> u8) \<Rightarrow> nat \<Rightarrow> nat \<Rightarrow> u8" where
  "fnet_fec_checksum_clear datagram datagram_size =
     (let type = load16l [datagram 12, datagram 13];
          (protocol, ip_hdr_size) =
            (if type = fnet_htons FNET_ETH_TYPE_IP4 \<and> datagram_size \<ge> 20
             then (if load16l [datagram 20, datagram 21] AND NOT (fnet_htons 0x4000) = 0
                   then (datagram 23, unat (datagram 14 AND 0x0F) * 4)
                   else (0, 0))
             else if type = fnet_htons FNET_ETH_TYPE_IP6 \<and> datagram_size \<ge> 40
             then (datagram 20, 40)
             else (0, 0));
          prot_hdr = 14 + ip_hdr_size
      in if protocol = 1 \<and> datagram_size \<ge> ip_hdr_size + 4 then clear16 (prot_hdr + 2) datagram
         else if protocol = 17 \<and> datagram_size \<ge> ip_hdr_size + 8 then clear16 (prot_hdr + 6) datagram
         else if protocol = 6 \<and> datagram_size \<ge> ip_hdr_size + 20 then clear16 (prot_hdr + 16) datagram
         else datagram)"

definition FNET_NETBUF_FLAG_HW_PROTOCOL_CHECKSUM :: u32 where
  "FNET_NETBUF_FLAG_HW_PROTOCOL_CHECKSUM = 0x20"

text \<open>
  The frame \<open>xs\<close> in the transmit buffer when it is handed to the controller; \<open>k\<close> counts the frames,
  \<open>nt_stale b k\<close> is what the buffer holds behind the frame from earlier ones.
\<close>

definition tx_frame :: "'p net_board \<Rightarrow> nat \<Rightarrow> u32 \<Rightarrow> u8 list \<Rightarrow> u8 list" where
  "tx_frame b k flags xs =
     (let tx_buffer = (\<lambda>i. if i < length xs then xs ! i else nt_stale b k i)
      in map (if flags AND FNET_NETBUF_FLAG_HW_PROTOCOL_CHECKSUM = 0
              then fnet_fec_checksum_clear tx_buffer (length xs) else tx_buffer) [0..<length xs])"

text \<open>
  The driver copies the frame out, hands it over and frees it. The wait for a free transmit
  descriptor ends, and a frame fits into its buffer.
\<close>

definition fnet_fec_output :: "'p net_board \<Rightarrow> 'p arp_net \<Rightarrow> netbuf list \<Rightarrow> 'p arp_net option" where
  "fnet_fec_output b s nb =
     do {
       s \<leftarrow> (case nb of
               [] \<Rightarrow> Some s
             | n # _ \<Rightarrow>
                 if nb_total_length n \<ge> 14
                 then do {
                   xs \<leftarrow> fnet_netbuf_to_buf s nb 0 FNET_NETBUF_COPYALL;
                   Some (s\<lparr>sent := sent s @ [tx_frame b (length (sent s)) (nb_flags n) xs]\<rparr>)
                 }
                 else Some s);
       fnet_netbuf_free_chain (nt_alloc b) s nb
     }"

text \<open>\<open>dest_addr\<close> is given by its bytes: what the pointer addresses does not change on the way.\<close>

definition fnet_eth_output ::
    "'p net_board \<Rightarrow> 'p arp_net \<Rightarrow> u16 \<Rightarrow> u8 list \<Rightarrow> netbuf list \<Rightarrow> 'p arp_net option" where
  "fnet_eth_output b s type dest_addr nb =
     (if nb \<noteq> [] \<and> nb_total_length (hd nb) > nt_mtu b then fnet_netbuf_free_chain (nt_alloc b) s nb
      else do {
        (s, nb_header) \<leftarrow> fnet_netbuf_new (nt_alloc b) (fnet_prot_drain b) s 14 True;
        case nb_header of
          [] \<Rightarrow> fnet_netbuf_free_chain (nt_alloc b) s nb
        | n # _ \<Rightarrow>
            (case nt_hw b of
               None \<Rightarrow> fnet_netbuf_free_chain (nt_alloc b) s nb
             | Some source_addr \<Rightarrow>
                 do {
                   s \<leftarrow> write_data s (nb_data n) (nb_off n) (dest_addr @ source_addr @ store16 (fnet_htons type));
                   fnet_fec_output b s (if nb \<noteq> [] then fnet_netbuf_concat nb_header nb else nb_header)
                 })
      })"

section \<open>The table\<close>

fun prot_index :: "u32 \<Rightarrow> arp_entry list \<Rightarrow> nat option" where
  "prot_index ipaddr [] = None"
| "prot_index ipaddr (e # es) = (if ipaddr = prot_addr e then Some 0 else map_option Suc (prot_index ipaddr es))"

text \<open>The oldest entry; every time that it looks at is a new read of the clock.\<close>

fun oldest_loop :: "'p net_board \<Rightarrow> 'p arp_net \<Rightarrow> arp_entry list \<Rightarrow> nat \<Rightarrow> nat \<Rightarrow> nat \<Rightarrow> 'p arp_net \<times> nat" where
  "oldest_loop b s [] i max_time j = (s, j)"
| "oldest_loop b s (e # es) i max_time j =
     (case arp_get_ms b s of (now, s) \<Rightarrow>
        if elapsed now (cr_time_ms e) > max_time
        then (case arp_get_ms b s of (now, s) \<Rightarrow> oldest_loop b s es (i + 1) (elapsed now (cr_time_ms e)) i)
        else oldest_loop b s es (i + 1) max_time j)"

text \<open>Both functions return a pointer to the entry: its index.\<close>

definition fnet_arp_add_entry ::
    "'p net_board \<Rightarrow> 'p arp_net \<Rightarrow> u32 \<Rightarrow> u8 list \<Rightarrow> ('p arp_net \<times> nat) option" where
  "fnet_arp_add_entry b s ipaddr ethaddr =
     (case prot_index ipaddr (arp_table s) of
        Some i \<Rightarrow>
          (case arp_get_ms b s of (now, s) \<Rightarrow>
             Some (set_entry i (\<lambda>e. e\<lparr>hard_addr := ethaddr, cr_time_ms := now\<rparr>) s, i))
      | None \<Rightarrow>
          let (s, i) =
            (case prot_index 0 (arp_table s) of
               Some i \<Rightarrow> (s, i)
             | None \<Rightarrow> oldest_loop b s (arp_table s) 0 0 0)
          in do {
            s \<leftarrow>
              (if hold (arp_table s ! i) \<noteq> []
               then do {
                 s \<leftarrow> fnet_netbuf_free_chain (nt_alloc b) s (hold (arp_table s ! i));
                 Some (set_entry i (\<lambda>e. e\<lparr>hold := [], hold_time_ms := 0\<rparr>) s)
               }
               else Some s);
            case arp_get_ms b s of (now, s) \<Rightarrow>
              Some (set_entry i (\<lambda>e. e\<lparr>prot_addr := ipaddr, hard_addr := ethaddr, cr_time_ms := now\<rparr>) s, i)
          })"

definition fnet_arp_update_entry ::
    "'p net_board \<Rightarrow> 'p arp_net \<Rightarrow> u32 \<Rightarrow> u8 list \<Rightarrow> 'p arp_net \<times> nat option" where
  "fnet_arp_update_entry b s ipaddr ethaddr =
     (case prot_index ipaddr (arp_table s) of
        Some i \<Rightarrow>
          (case arp_get_ms b s of (now, s) \<Rightarrow>
             (set_entry i (\<lambda>e. e\<lparr>hard_addr := ethaddr, cr_time_ms := now\<rparr>) s, Some i))
      | None \<Rightarrow> (s, None))"

definition fnet_arp_lookup :: "'p arp_net \<Rightarrow> u32 \<Rightarrow> u8 list option" where
  "fnet_arp_lookup s ipaddr =
     (case prot_index ipaddr (arp_table s) of
        Some i \<Rightarrow>
          let mac = hard_addr (arp_table s ! i)
          in if fnet_memcmp mac fnet_eth_null_addr 6 \<noteq> Some 0 then Some mac else None
      | None \<Rightarrow> None)"

definition fnet_arp_get_mac :: "'p arp_net \<Rightarrow> u32 \<Rightarrow> u8 list option" where
  "fnet_arp_get_mac s ip_addr = fnet_arp_lookup s ip_addr"

text \<open>\<^verbatim>\<open>fnet_arp_get_entry\<close>: the entry number \<open>n\<close> among those in use.\<close>

fun get_entry_loop :: "arp_entry list \<Rightarrow> nat \<Rightarrow> (u32 \<times> u8 list) option" where
  "get_entry_loop [] n = None"
| "get_entry_loop (e # es) n =
     (if prot_addr e \<noteq> 0
      then if n = 0 then Some (prot_addr e, hard_addr e) else get_entry_loop es (n - 1)
      else get_entry_loop es n)"

definition fnet_arp_get_entry :: "'p arp_net \<Rightarrow> nat \<Rightarrow> (u32 \<times> u8 list) option" where
  "fnet_arp_get_entry s n = get_entry_loop (arp_table s) n"

section \<open>Aging\<close>

fun age_loop :: "'p net_board \<Rightarrow> 'p arp_net \<Rightarrow> arp_entry list \<Rightarrow> ('p arp_net \<times> arp_entry list) option" where
  "age_loop b s [] = Some (s, [])"
| "age_loop b s (e # es) =
     do {
       (s, e) \<leftarrow>
         (if prot_addr e \<noteq> 0
          then (case arp_get_ms b s of (now, s) \<Rightarrow>
                  if elapsed now (cr_time_ms e) > 1200 * 1000
                  then do {
                    s \<leftarrow> (if hold e \<noteq> [] then fnet_netbuf_free_chain (nt_alloc b) s (hold e) else Some s);
                    Some (s, zero_entry)
                  }
                  else Some (s, e))
          else Some (s, e));
       (s, es) \<leftarrow> age_loop b s es;
       Some (s, e # es)
     }"

definition fnet_arp_timer :: "'p net_board \<Rightarrow> 'p arp_net \<Rightarrow> 'p arp_net option" where
  "fnet_arp_timer b s = do { (s, es) \<leftarrow> age_loop b s (arp_table s); Some (s\<lparr>arp_table := es\<rparr>) }"

section \<open>Requests\<close>

definition fnet_arp_send_request :: "'p net_board \<Rightarrow> 'p arp_net \<Rightarrow> u32 \<Rightarrow> 'p arp_net option" where
  "fnet_arp_send_request b s ip_addr =
     do {
       (s, nb) \<leftarrow> fnet_netbuf_new (nt_alloc b) (fnet_prot_drain b) s sizeof_arp_header True;
       case nb of
         [] \<Rightarrow> Some s
       | n # _ \<Rightarrow>
           do {
             s \<leftarrow> write_data s (nb_data n) (nb_off n)
                   (store16 (fnet_htons 1) @ store16 (fnet_htons FNET_ETH_TYPE_IP4) @ [6, 4] @ store16 (fnet_htons 1));
             case nt_hw b of
               None \<Rightarrow> Some s
             | Some sender_addr \<Rightarrow>
                 do {
                   s \<leftarrow> write_data s (nb_data n) (nb_off n + 8)
                         (sender_addr @ store32 (ip4_address s) @ fnet_eth_null_addr @ store32 ip_addr);
                   let s = (if ip4_address s = 0 then s\<lparr>arp_probe_ipaddr := ip_addr\<rparr> else s);
                   fnet_eth_output b s FNET_ETH_TYPE_ARP fnet_eth_broadcast nb
                 }
           }
     }"

text \<open>The unsent packet \<open>nb\<close> waits for the address in the entry; an earlier one is dropped.\<close>

definition fnet_arp_resolve :: "'p net_board \<Rightarrow> 'p arp_net \<Rightarrow> u32 \<Rightarrow> netbuf list \<Rightarrow> 'p arp_net option" where
  "fnet_arp_resolve b s ipaddr nb =
     do {
       (s, i, created) \<leftarrow>
         (case prot_index ipaddr (arp_table s) of
            Some i \<Rightarrow> Some (s, i, False)
          | None \<Rightarrow> do { (s, i) \<leftarrow> fnet_arp_add_entry b s ipaddr fnet_eth_null_addr; Some (s, i, True) });
       let (s, to_send_request) =
         (if created then (s, True)
          else if hold (arp_table s ! i) \<noteq> []
          then (case arp_get_ms b s of (now, s) \<Rightarrow> (s, elapsed now (hold_time_ms (arp_table s ! i)) > 1000))
          else (s, True));
       s \<leftarrow>
         (if hold (arp_table s ! i) \<noteq> []
          then do {
            s \<leftarrow> fnet_netbuf_free_chain (nt_alloc b) s (hold (arp_table s ! i));
            Some (set_entry i (\<lambda>e. e\<lparr>hold := []\<rparr>) s)
          }
          else Some s);
       let s = set_entry i (\<lambda>e. e\<lparr>hold := nb\<rparr>) s;
       if to_send_request
       then (case arp_get_ms b s of (now, s) \<Rightarrow>
               fnet_arp_send_request b (set_entry i (\<lambda>e. e\<lparr>hold_time_ms := now\<rparr>) s) ipaddr)
       else Some s
     }"

section \<open>Input\<close>

text \<open>What an ARP packet from \<open>h\<close>'s sender does to the cache, and the packet that waited for it.\<close>

definition arp_learn :: "'p net_board \<Rightarrow> 'p arp_net \<Rightarrow> arp_header \<Rightarrow> 'p arp_net option" where
  "arp_learn b s h =
     do {
       (s, entry) \<leftarrow>
         (if targer_prot_addr h = ip4_address s
          then do { (s, i) \<leftarrow> fnet_arp_add_entry b s (sender_prot_addr h) (sender_hard_addr h); Some (s, Some i) }
          else Some (fnet_arp_update_entry b s (sender_prot_addr h) (sender_hard_addr h)));
       case entry of
         None \<Rightarrow> Some s
       | Some i \<Rightarrow>
           if hold (arp_table s ! i) \<noteq> []
           then do {
             s \<leftarrow> fnet_eth_output b s FNET_ETH_TYPE_IP4 (hard_addr (arp_table s ! i)) (hold (arp_table s ! i));
             Some (set_entry i (\<lambda>e. e\<lparr>hold := [], hold_time_ms := 0\<rparr>) s)
           }
           else Some s
     }"

definition arp_check_conflict :: "'p arp_net \<Rightarrow> arp_header \<Rightarrow> 'p arp_net" where
  "arp_check_conflict s h =
     (if ip4_address s \<noteq> 0 \<or> arp_probe_ipaddr s = targer_prot_addr h
      then s\<lparr>ip4_addr_conflict := True, raised := raised s @ [arp_event s]\<rparr>
      else s)"

text \<open>The reply is written over the request in \<open>n\<close>, the first net buffer of \<open>nb\<close>.\<close>

definition arp_answer ::
    "'p net_board \<Rightarrow> 'p arp_net \<Rightarrow> arp_header \<Rightarrow> u8 list \<Rightarrow> netbuf \<Rightarrow> netbuf list \<Rightarrow> 'p arp_net option" where
  "arp_answer b s h local_addr n nb =
     (if op h = fnet_htons 1 \<and> targer_prot_addr h = ip4_address s
      then do {
        s \<leftarrow> write_data s (nb_data n) (nb_off n)
              (arp_bytes (h\<lparr>op := fnet_htons 2, target_hard_addr := sender_hard_addr h,
                 sender_hard_addr := local_addr, targer_prot_addr := sender_prot_addr h,
                 sender_prot_addr := ip4_address s\<rparr>));
        fnet_eth_output b s FNET_ETH_TYPE_ARP (sender_hard_addr h) nb
      }
      else fnet_netbuf_free_chain (nt_alloc b) s nb)"

text \<open>
  \<^verbatim>\<open>_fnet_arp_input\<close>. The header is read in the first net buffer; a null pointer is
  followed before it is looked at.
\<close>

definition fnet_arp_input :: "'p net_board \<Rightarrow> 'p arp_net \<Rightarrow> netbuf list \<Rightarrow> 'p arp_net option" where
  "fnet_arp_input b s nb =
     (case nb of
        [] \<Rightarrow> None
      | n # _ \<Rightarrow>
          if nb_total_length n < sizeof_arp_header then fnet_netbuf_free_chain (nt_alloc b) s nb
          else do {
            xs \<leftarrow> read_data s (nb_data n) (nb_off n) sizeof_arp_header;
            let h = arp_of xs;
            if hard_type h \<noteq> fnet_htons 1 \<or> hard_size h \<noteq> 6 \<or> prot_type h \<noteq> fnet_htons FNET_ETH_TYPE_IP4
               \<or> prot_size h \<noteq> 4
            then fnet_netbuf_free_chain (nt_alloc b) s nb
            else do {
              (s, nb) \<leftarrow>
                (if nb_total_length n > sizeof_arp_header
                 then fnet_netbuf_trim (nt_alloc b) s nb (int sizeof_arp_header - int (nb_total_length n))
                 else Some (s, nb));
              case nt_hw b of
                None \<Rightarrow> fnet_netbuf_free_chain (nt_alloc b) s nb
              | Some local_addr \<Rightarrow>
                  if fnet_memcmp (sender_hard_addr h) local_addr 6 = Some 0
                     \<or> fnet_memcmp (sender_hard_addr h) fnet_eth_broadcast 6 = Some 0
                  then fnet_netbuf_free_chain (nt_alloc b) s nb
                  else do {
                    s \<leftarrow>
                      (if sender_prot_addr h \<noteq> ip4_address s then arp_learn b s h
                       else Some (arp_check_conflict s h));
                    arp_answer b s h local_addr n nb
                  }
            }
          })"

section \<open>The invariant\<close>

text \<open>
  The packets that wait, and all that is held by the cache and the protocols above, as a function of the
  part of the state that is not the net buffers'.
\<close>

definition arp_held :: "arp_entry list \<Rightarrow> netbuf list" where
  "arp_held es = concat (map hold es)"

lemma arp_held_simps [simp]: "arp_held [] = []" "arp_held (e # es) = hold e @ arp_held es"
  by (simp_all add: arp_held_def)

abbreviation held :: "'p arp_net \<Rightarrow> netbuf list" where
  "held s \<equiv> arp_held (arp_table s) @ other_nbs s"

definition blocks_more where
  "blocks_more z = set (other_blocks (nbs.extend \<lparr>pool = (), bufs = Map.empty, raw = (\<lambda>_. 0)\<rparr> z))"

lemma blocks_more_eq [simp]: "blocks_more (nbs.more (s :: 'p arp_net)) = set (other_blocks s)"
  by (cases s) (simp add: blocks_more_def nbs.defs)

definition held_more where
  "held_more z = held (nbs.extend \<lparr>pool = (), bufs = Map.empty, raw = (\<lambda>_. 0)\<rparr> z)"

lemma held_more_eq [simp]: "held_more (nbs.more (s :: 'p arp_net)) = held s"
  by (cases s) (simp add: held_more_def nbs.defs)

text \<open>What a drain may do to an entry and to the interface.\<close>

definition drained :: "arp_entry \<Rightarrow> arp_entry \<Rightarrow> bool" where
  "drained e e' = (e' = e \<or> e' = e\<lparr>hold := [], hold_time_ms := 0\<rparr>)"

definition drained_from :: "'p arp_net \<Rightarrow> 'p arp_net \<Rightarrow> bool" where
  "drained_from s s' =
     (s' = s\<lparr>pool := pool s', bufs := bufs s', raw := raw s', arp_table := arp_table s',
            other_nbs := other_nbs s', other_blocks := other_blocks s'\<rparr>
      \<and> list_all2 drained (arp_table s) (arp_table s') \<and> set (other_nbs s') \<subseteq> set (other_nbs s)
      \<and> set (other_blocks s') \<subseteq> set (other_blocks s))"

definition drained_more where
  "drained_more z z' =
     drained_from (nbs.extend \<lparr>pool = (), bufs = Map.empty, raw = (\<lambda>_. 0)\<rparr> z)
       (nbs.extend \<lparr>pool = (), bufs = Map.empty, raw = (\<lambda>_. 0)\<rparr> z')"

lemma drained_more_eq [simp]:
  "drained_more (nbs.more (s :: 'p arp_net)) (nbs.more (s' :: 'p arp_net)) = drained_from s s'"
  by (cases s; cases s') (simp add: drained_more_def drained_from_def nbs.defs)

lemma drained_refl [simp]: "drained e e"
  by (simp add: drained_def)

lemma drained_trans: "drained e e' \<Longrightarrow> drained e' e'' \<Longrightarrow> drained e e''"
  by (auto simp: drained_def)

lemma drained_from_refl [simp]: "drained_from s s"
  by (simp add: drained_from_def list_all2_refl)

lemma drained_list_trans:
  "list_all2 drained xs ys \<Longrightarrow> list_all2 drained ys zs \<Longrightarrow> list_all2 drained xs zs"
  by (rule list_all2_trans [of drained drained drained, OF drained_trans])

lemma drained_from_trans: "drained_from s s' \<Longrightarrow> drained_from s' s'' \<Longrightarrow> drained_from s s''"
  by (cases s; cases s'; cases s'') (auto simp: drained_from_def elim: drained_list_trans)

lemma drained_more_reflp: "reflp drained_more" and drained_more_transp: "transp drained_more"
  by (auto simp: drained_more_def intro!: reflpI transpI elim: drained_from_trans)

lemma more_eq_iff:
  "nbs.more (s' :: 'p arp_net) = nbs.more s \<longleftrightarrow> s' = s\<lparr>pool := pool s', bufs := bufs s', raw := raw s'\<rparr>"
  by (cases s; cases s') auto

lemma more_table:
  assumes "nbs.more (s' :: 'p arp_net) = nbs.more s"
  shows "arp_table s' = arp_table s" "other_nbs s' = other_nbs s" "other_blocks s' = other_blocks s"
  using assms by (cases s; cases s'; simp)+

lemma more_sent: "nbs.more (s' :: 'p arp_net) = nbs.more s \<Longrightarrow> sent s' = sent s"
  by (cases s; cases s') auto

lemma more_drained: "nbs.more (s' :: 'p arp_net) = nbs.more s \<Longrightarrow> drained_from s s'"
  by (cases s; cases s') (auto simp: drained_from_def list_all2_refl)

lemma drained_fromD:
  assumes "drained_from s s'"
  shows "list_all2 drained (arp_table s) (arp_table s')" "sent s' = sent s" "reads s' = reads s"
    "ip4_address s' = ip4_address s" "arp_probe_ipaddr s' = arp_probe_ipaddr s" "raised s' = raised s"
    "ip4_addr_conflict s' = ip4_addr_conflict s" "set (other_nbs s') \<subseteq> set (other_nbs s)"
    "set (other_blocks s') \<subseteq> set (other_blocks s)"
  using assms by (cases s; cases s'; simp add: drained_from_def)+

text \<open>Data of the rest of the state does not matter to the net buffers.\<close>

definition same_mem :: "('p, 'z) nbs_scheme \<Rightarrow> ('p, 'z) nbs_scheme \<Rightarrow> bool" where
  "same_mem s s' = (pool s' = pool s \<and> bufs s' = bufs s)"

lemma same_mem_inv: "same_mem s s' \<Longrightarrow> nb_inv owns X s' L = nb_inv owns X s L"
  by (simp add: same_mem_def nb_inv_def mem_ok_def in_buf_def bytes_at_def)

lemma same_mem_bytes: "same_mem s s' \<Longrightarrow> chain_bytes s' c = chain_bytes s c"
  by (simp add: same_mem_def chain_bytes_def nb_bytes_def [abs_def] bytes_at_def)

lemma set_entry_mem [simp]: "same_mem s (set_entry i f s)" "same_mem s (s\<lparr>sent := x\<rparr>)" "same_mem s (s\<lparr>reads := r\<rparr>)"
  "same_mem s (s\<lparr>arp_table := t\<rparr>)" "same_mem s (s\<lparr>arp_probe_ipaddr := a\<rparr>)" "same_mem s s"
  by (simp_all add: same_mem_def set_entry_def)

lemma set_entry_others [simp]:
  "other_nbs (set_entry i f s) = other_nbs s" "other_blocks (set_entry i f s) = other_blocks s"
  by (simp_all add: set_entry_def)

section \<open>Facts on the table\<close>

lemma prot_index_SomeD: "prot_index a es = Some i \<Longrightarrow> i < length es \<and> prot_addr (es ! i) = a"
  by (induction es arbitrary: i) (auto split: if_splits)

lemma prot_index_None_iff: "prot_index a es = None \<longleftrightarrow> a \<notin> set (map prot_addr es)"
  by (induction es) auto

lemma prot_index_update:
  "a \<notin> set (map prot_addr es) \<Longrightarrow> i < length es \<Longrightarrow> prot_addr e = a \<Longrightarrow> prot_index a (es[i := e]) = Some i"
  by (induction es arbitrary: i) (auto split: nat.split)

lemma prot_index_same:
  "prot_addr e = prot_addr (es ! i) \<Longrightarrow> prot_index a (es[i := e]) = prot_index a es"
  by (induction es arbitrary: i) (auto split: nat.split)

lemma oldest_loop_bound:
  "\<exists>r k. oldest_loop b s es i m j = (s\<lparr>reads := r\<rparr>, k) \<and> (k = j \<or> (i \<le> k \<and> k < i + length es))"
proof (induction es arbitrary: s i m j)
  case Nil
  show ?case by (rule exI [of _ "reads s"], rule exI [of _ j]) simp
next
  case (Cons e es)
  let ?s1 = "s\<lparr>reads := reads s + 1\<rparr>" and ?s2 = "s\<lparr>reads := reads s + 2\<rparr>"
  show ?case
  proof (cases "elapsed (nt_ms b (reads s)) (cr_time_ms e) > m")
    case True
    then have "oldest_loop b s (e # es) i m j
        = oldest_loop b ?s2 es (i + 1) (elapsed (nt_ms b (reads s + 1)) (cr_time_ms e)) i"
      by (simp add: arp_get_ms_def)
    then show ?thesis
      using Cons.IH [of ?s2 "i + 1" "elapsed (nt_ms b (reads s + 1)) (cr_time_ms e)" i] by auto
  next
    case False
    then have "oldest_loop b s (e # es) i m j = oldest_loop b ?s1 es (i + 1) m j"
      by (simp add: arp_get_ms_def)
    then show ?thesis using Cons.IH [of ?s1 "i + 1" m j] by auto
  qed
qed

text \<open>The packets that wait in the other entries.\<close>

definition held_others :: "nat \<Rightarrow> arp_entry list \<Rightarrow> netbuf list" where
  "held_others i es = arp_held (take i es) @ arp_held (drop (Suc i) es)"

abbreviation others_of :: "nat \<Rightarrow> 'p arp_net \<Rightarrow> netbuf list" where
  "others_of i s \<equiv> held_others i (arp_table s) @ other_nbs s"

lemma arp_held_append [simp]: "arp_held (xs @ ys) = arp_held xs @ arp_held ys"
  by (simp add: arp_held_def)

lemma mset_held: "i < length es \<Longrightarrow> mset (arp_held es) = mset (hold (es ! i) @ held_others i es)"
  by (subst id_take_nth_drop [of i es]) (simp_all add: held_others_def)

lemma held_others_update [simp]: "held_others i (es[i := e]) = held_others i es"
  by (simp add: held_others_def)

lemma mset_held_update: "i < length es \<Longrightarrow> mset (arp_held (es[i := e])) = mset (hold e @ held_others i es)"
  using mset_held [of i "es[i := e]"] by simp

lemma bytes_at_set_entry [simp]: "bytes_at (set_entry i f s) d = bytes_at s d"
  by (simp add: set_entry_def bytes_at_def)

definition arp_table_ok :: "arp_entry list \<Rightarrow> bool" where
  "arp_table_ok es =
     (length es = FNET_CFG_ARP_TABLE_SIZE
      \<and> (\<forall>e\<in>set es. length (hard_addr e) = 6 \<and> total_ok (hold e))
      \<and> distinct (filter (\<lambda>a. a \<noteq> 0) (map prot_addr es)))"

lemma distinct_filter_update:
  "distinct (filter P xs) \<Longrightarrow> a \<notin> set xs \<Longrightarrow> distinct (filter P (xs[i := a]))"
proof (induction xs arbitrary: i)
  case (Cons x xs)
  then show ?case by (cases i) (auto dest: set_update_subset_insert [THEN subsetD] split: if_splits)
qed simp

lemma arp_table_ok_update:
  assumes "arp_table_ok es" "length (hard_addr e) = 6" "total_ok (hold e)"
    and "prot_addr e = prot_addr (es ! i) \<or> prot_addr e \<notin> set (map prot_addr es)"
  shows "arp_table_ok (es[i := e])"
proof -
  have "distinct (filter (\<lambda>a. a \<noteq> 0) ((map prot_addr es)[i := prot_addr e]))"
  proof (cases "prot_addr e = prot_addr (es ! i) \<and> i < length es")
    case True
    then have "(map prot_addr es)[i := prot_addr e] = map prot_addr es" by (metis list_update_id nth_map)
    then show ?thesis using assms(1) by (simp add: arp_table_ok_def)
  next
    case False
    then have "prot_addr e \<notin> set (map prot_addr es) \<or> \<not> i < length es" using assms(4) by blast
    then show ?thesis
      using assms(1) distinct_filter_update [of "\<lambda>a. a \<noteq> 0" "map prot_addr es" "prot_addr e" i]
      by (auto simp: arp_table_ok_def list_update_beyond)
  qed
  then show ?thesis
    using assms(1-3) set_update_subset_insert [of es i e] by (auto simp: arp_table_ok_def map_update)
qed

lemma arp_table_nth:
  "arp_table_ok es \<Longrightarrow> i < length es \<Longrightarrow> length (hard_addr (es ! i)) = 6 \<and> total_ok (hold (es ! i))"
  by (simp add: arp_table_ok_def)

lemma set_entry_more:
  "nbs.more (set_entry i f s) = nbs.more (s\<lparr>arp_table := (arp_table s)[i := f (arp_table s ! i)]\<rparr>)"
  by (simp add: set_entry_def)

lemma set_entry_table [simp]: "arp_table (set_entry i f s) = (arp_table s)[i := f (arp_table s ! i)]"
  by (simp add: set_entry_def)

text \<open>
  \<open>L\<close> are the chains that are being worked on and \<open>X\<close> further blocks in use; with what is held
  (and, in \<open>arp_inv\<close>, with the blocks of the protocols above) these are all that is allocated.
\<close>

definition cache_inv :: "('p \<Rightarrow> nat set \<Rightarrow> bool) \<Rightarrow> nat set \<Rightarrow> 'p arp_net \<Rightarrow> netbuf list \<Rightarrow> bool" where
  "cache_inv owns X s L = (nb_inv owns X s (L @ held s) \<and> arp_table_ok (arp_table s))"

definition net_inv :: "('p \<Rightarrow> nat set \<Rightarrow> bool) \<Rightarrow> nat set \<Rightarrow> 'p arp_net \<Rightarrow> netbuf list \<Rightarrow> bool" where
  "net_inv owns X s L =
     (nb_inv owns (X \<union> set (other_blocks s)) s (L @ held s) \<and> X \<inter> set (other_blocks s) = {})"

definition arp_inv :: "('p \<Rightarrow> nat set \<Rightarrow> bool) \<Rightarrow> nat set \<Rightarrow> 'p arp_net \<Rightarrow> netbuf list \<Rightarrow> bool" where
  "arp_inv owns X s L = (net_inv owns X s L \<and> arp_table_ok (arp_table s))"

lemma arp_inv_cache:
  "arp_inv owns X s L \<longleftrightarrow> cache_inv owns (X \<union> set (other_blocks s)) s L \<and> X \<inter> set (other_blocks s) = {}"
  by (auto simp: arp_inv_def net_inv_def cache_inv_def)

lemma arp_invD:
  assumes "arp_inv owns X s L"
  shows "net_inv owns X s L" "nb_inv owns (X \<union> set (other_blocks s)) s (L @ held s)"
    "X \<inter> set (other_blocks s) = {}" "arp_table_ok (arp_table s)"
  using assms by (simp_all add: arp_inv_def net_inv_def)

lemma net_invD:
  assumes "net_inv owns X s L"
  shows "nb_inv owns (X \<union> set (other_blocks s)) s (L @ held s)" "X \<inter> set (other_blocks s) = {}"
  using assms by (simp_all add: net_inv_def)

text \<open>An operation that leaves the blocks of the other protocols alone.\<close>

lemma arp_inv_keep:
  "arp_inv owns X s L \<Longrightarrow> cache_inv owns (X \<union> set (other_blocks s)) s' L' \<Longrightarrow> other_blocks s' = other_blocks s
     \<Longrightarrow> arp_inv owns X s' L'"
  by (simp add: arp_inv_cache)

lemma net_inv_keep:
  "net_inv owns X s L \<Longrightarrow> nb_inv owns (X \<union> set (other_blocks s)) s' (L' @ held s') \<Longrightarrow> other_blocks s' = other_blocks s
     \<Longrightarrow> net_inv owns X s' L'"
  by (simp add: net_inv_def)

text \<open>Only the memory, the table and the clock changed.\<close>

definition only_table :: "'p arp_net \<Rightarrow> 'p arp_net \<Rightarrow> bool" where
  "only_table s s' =
     (s' = s\<lparr>pool := pool s', bufs := bufs s', raw := raw s', arp_table := arp_table s', reads := reads s'\<rparr>)"

lemma only_table_trans: "only_table s s' \<Longrightarrow> only_table s' s'' \<Longrightarrow> only_table s s''"
  by (cases s; cases s'; cases s'') (simp add: only_table_def)

lemma only_table_more:
  "only_table s s' \<longleftrightarrow> nbs.more s' = nbs.more (s\<lparr>arp_table := arp_table s', reads := reads s'\<rparr>)"
  by (cases s; cases s') (auto simp: only_table_def)

lemma only_tableD:
  assumes "only_table s s'"
  shows "sent s' = sent s" "ip4_address s' = ip4_address s" "arp_probe_ipaddr s' = arp_probe_ipaddr s"
    "raised s' = raised s" "ip4_addr_conflict s' = ip4_addr_conflict s" "arp_event s' = arp_event s"
    "other_nbs s' = other_nbs s" "other_blocks s' = other_blocks s"
  using assms by (cases s; cases s'; simp add: only_table_def)+

lemma only_table_simps [simp]:
  "only_table s s" "only_table s (set_entry i f s)" "only_table s (s\<lparr>reads := r\<rparr>)"
  by (cases s; simp add: only_table_def set_entry_def)+

lemma cache_inv_reads [simp]: "cache_inv owns X (s\<lparr>reads := r\<rparr>) L = cache_inv owns X s L"
  using same_mem_inv [of s "s\<lparr>reads := r\<rparr>" owns X] by (simp add: cache_inv_def)

lemma arp_inv_reads [simp]: "arp_inv owns X (s\<lparr>reads := r\<rparr>) L = arp_inv owns X s L"
  by (simp add: arp_inv_cache)

lemma same_bytes_reads [simp]: "same_bytes (s\<lparr>reads := r\<rparr>) s' L = same_bytes s s' L"
  "same_bytes s (t\<lparr>reads := r\<rparr>) L = same_bytes s t L" "same_bytes s (set_entry i f t) L = same_bytes s t L"
  by (simp_all add: same_bytes_def bytes_at_def set_entry_def)

text \<open>There is memory for an Ethernet header without asking the protocols.\<close>

definition has_memory :: "'p allocator \<Rightarrow> 'p arp_net \<Rightarrow> bool" where
  "has_memory A s =
     (case a_malloc A (pool s) sizeof_netbuf of
        None \<Rightarrow> False
      | Some (p, a) \<Rightarrow> a \<noteq> 0 \<and> (case a_malloc A p 18 of None \<Rightarrow> False | Some (_, d) \<Rightarrow> d \<noteq> 0))"

lemma has_memory_new: "has_memory A s \<Longrightarrow> \<exists>s' n. fnet_netbuf_new A dr s 14 drain = Some (s', [n])"
  by (auto simp: has_memory_def fnet_netbuf_new_def malloc_drain_def fnet_malloc_netbuf_def split: option.splits)

lemma has_memory_pool: "pool s' = pool s \<Longrightarrow> has_memory A s' = has_memory A s"
  by (simp add: has_memory_def)

text \<open>The packet that waits for an address.\<close>

definition waiting :: "'p arp_net \<Rightarrow> u32 \<Rightarrow> netbuf list" where
  "waiting s ip = (case prot_index ip (arp_table s) of None \<Rightarrow> [] | Some i \<Rightarrow> hold (arp_table s ! i))"

lemma drained_table_ok: "list_all2 drained es es' \<Longrightarrow> arp_table_ok es \<Longrightarrow> arp_table_ok es'"
proof -
  assume d: "list_all2 drained es es'" "arp_table_ok es"
  then have "map prot_addr es' = map prot_addr es" "length es' = length es"
    by (auto simp: list_all2_conv_all_nth drained_def intro!: nth_equalityI)
  moreover have "\<forall>e\<in>set es'. length (hard_addr e) = 6 \<and> total_ok (hold e)"
    using d by (fastforce simp: list_all2_conv_all_nth drained_def arp_table_ok_def in_set_conv_nth total_ok_def)
  ultimately show ?thesis using d(2) by (simp add: arp_table_ok_def)
qed

lemma drained_arp_inv:
  "drained_from s s' \<Longrightarrow> arp_table_ok (arp_table s) \<Longrightarrow> net_inv owns X s' L \<Longrightarrow> arp_inv owns X s' L"
  using drained_table_ok drained_fromD(1) by (auto simp: arp_inv_def)

lemma new_without_drain:
  assumes "fnet_netbuf_new A dr s len False = Some (s', [n])"
  shows "fnet_netbuf_new A dr' s len drain = Some (s', [n])"
proof -
  obtain s1 a where 1: "fnet_malloc_netbuf A s sizeof_netbuf = Some (s1, a)" "a \<noteq> 0"
    using assms by (auto simp: fnet_netbuf_new_def malloc_drain_def bind_eq_Some_conv split: if_splits)
  obtain s2 d where 2: "fnet_malloc_netbuf A s1 (w32 (len + 4)) = Some (s2, d)" "d \<noteq> 0"
    using assms 1 by (auto simp: fnet_netbuf_new_def malloc_drain_def bind_eq_Some_conv split: if_splits)
  from assms 1 2 show ?thesis by (simp add: fnet_netbuf_new_def malloc_drain_def)
qed

text \<open>The other protocols' drains free some of what is theirs and leave the packets \<open>L\<close> alone.\<close>

definition board_ok :: "'p allocator \<Rightarrow> ('p \<Rightarrow> nat set \<Rightarrow> bool) \<Rightarrow> 'p net_board \<Rightarrow> bool" where
  "board_ok A owns b =
     (nt_alloc b = A \<and> nt_mtu b \<le> 65535 \<and> (\<exists>mac. nt_hw b = Some mac \<and> length mac = 6)
      \<and> (\<forall>X s L. nb_inv owns (X \<union> set (other_blocks s)) s (L @ other_nbs s) \<and> X \<inter> set (other_blocks s) = {} \<longrightarrow>
           (\<exists>s'. nt_drain b s = Some s' \<and> nb_inv owns (X \<union> set (other_blocks s')) s' (L @ other_nbs s') \<and> same_bytes s s' L
              \<and> nbs.more s' = nbs.more (s\<lparr>other_nbs := other_nbs s', other_blocks := other_blocks s'\<rparr>)
              \<and> set (other_nbs s') \<subseteq> set (other_nbs s) \<and> set (other_blocks s') \<subseteq> set (other_blocks s))))"

text \<open>A frame to \<open>dest\<close> with the bytes \<open>xs\<close>, and what the driver makes of one with the chain \<open>c\<close>.\<close>

definition eth_frame :: "'p net_board \<Rightarrow> u16 \<Rightarrow> u8 list \<Rightarrow> u8 list \<Rightarrow> u8 list" where
  "eth_frame b ty dest xs = dest @ the (nt_hw b) @ store16 (fnet_htons ty) @ xs"

definition chain_flags :: "netbuf list \<Rightarrow> u32" where
  "chain_flags c = (case c of [] \<Rightarrow> 0 | n # _ \<Rightarrow> nb_flags n)"

definition eth_tx :: "'p net_board \<Rightarrow> 'p arp_net \<Rightarrow> u16 \<Rightarrow> u8 list \<Rightarrow> netbuf list \<Rightarrow> u8 list" where
  "eth_tx b s ty dest c = tx_frame b (length (sent s)) (chain_flags c) (eth_frame b ty dest (chain_bytes s c))"

lemma eth_tx_cong:
  "sent s' = sent s \<Longrightarrow> chain_bytes s' c = chain_bytes s c \<Longrightarrow> eth_tx b s' ty dest c = eth_tx b s ty dest c"
  by (simp add: eth_tx_def)

lemma concat_flags: "nb_flags n = 0 \<Longrightarrow> nb_flags (hd (fnet_netbuf_concat [n] c)) = chain_flags c"
  by (simp add: fnet_netbuf_concat_def chain_flags_def split: list.split)

lemma netbuf_new_flags: "fnet_netbuf_new A dr s len drain = Some (s', [n]) \<Longrightarrow> nb_flags n = 0"
  by (auto simp: fnet_netbuf_new_def bind_eq_Some_conv split: if_splits)

context block_allocator
begin

lemma drain_loop_ok:
  assumes "nb_inv owns X s (L @ arp_held es)"
  shows "\<exists>s' es'. drain_loop A s es = Some (s', es') \<and> nb_inv owns X s' (L @ arp_held es') \<and> arp_held es' = []
     \<and> list_all2 drained es es' \<and> same_bytes s s' L \<and> nbs.more s' = nbs.more s"
  using assms
proof (induction es arbitrary: s)
  case Nil
  then show ?case by simp
next
  case (Cons e es)
  have "mset (L @ hold e @ arp_held es) = mset (hold e @ L @ arp_held es)" by simp
  from nb_inv_perm [OF this, of owns X s] Cons.prems have "nb_inv owns X s (hold e @ L @ arp_held es)"
    by (simp only: arp_held_simps)
  from free_chain_ok [OF this] obtain s1 where
    s1: "fnet_netbuf_free_chain A s (hold e) = Some s1" "nb_inv owns X s1 (L @ arp_held es)"
      "same_bytes s s1 (L @ arp_held es)" by blast
  from Cons.IH [OF s1(2)] obtain s2 es2 where
    s2: "drain_loop A s1 es = Some (s2, es2)" "nb_inv owns X s2 (L @ arp_held es2)" "arp_held es2 = []"
      "list_all2 drained es es2" "same_bytes s1 s2 L" "nbs.more s2 = nbs.more s1" by blast
  have more: "nbs.more s1 = nbs.more s" by (rule free_chain_more [OF s1(1)])
  have "same_bytes s s2 L" using s1(3) s2(5) by (simp add: same_bytes_def)
  let ?e = "if hold e \<noteq> [] then e\<lparr>hold := [], hold_time_ms := 0\<rparr> else e"
  show ?case
  proof (intro exI conjI)
    show "drain_loop A s (e # es) = Some (s2, ?e # es2)"
      using s1(1) s2(1) by (cases "hold e = []") simp_all
    show "nb_inv owns X s2 (L @ arp_held (?e # es2))" "arp_held (?e # es2) = []"
      using s2(2,3) by simp_all
    show "list_all2 drained (e # es) (?e # es2)" using s2(4) by (simp add: drained_def)
    show "nbs.more s2 = nbs.more s" using s2(6) more by (rule trans)
  qed (rule \<open>same_bytes s s2 L\<close>)
qed

lemma prot_drain_ok:
  assumes "board_ok A owns b"
  shows "drain_ok owns held_more blocks_more drained_more L (fnet_prot_drain b)"
  unfolding drain_ok_def
proof (intro allI impI)
  fix X and s :: "'p arp_net"
  assume "nb_inv owns (X \<union> blocks_more (nbs.more s)) s (L @ held_more (nbs.more s)) \<and> X \<inter> blocks_more (nbs.more s) = {}"
  then have "nb_inv owns (X \<union> set (other_blocks s)) s ((L @ arp_held (arp_table s)) @ other_nbs s) \<and> X \<inter> set (other_blocks s) = {}"
    by simp
  then obtain s1 where s1: "nt_drain b s = Some s1"
      "nb_inv owns (X \<union> set (other_blocks s1)) s1 ((L @ arp_held (arp_table s)) @ other_nbs s1)"
      "same_bytes s s1 (L @ arp_held (arp_table s))"
      "nbs.more s1 = nbs.more (s\<lparr>other_nbs := other_nbs s1, other_blocks := other_blocks s1\<rparr>)"
      "set (other_nbs s1) \<subseteq> set (other_nbs s)" "set (other_blocks s1) \<subseteq> set (other_blocks s)"
    using assms unfolding board_ok_def by blast
  let ?Y = "X \<union> set (other_blocks s1)"
  have t1: "arp_table s1 = arp_table s" using more_table(1) [OF s1(4)] by simp
  have "nb_inv owns ?Y s1 ((L @ other_nbs s1) @ arp_held (arp_table s1))"
    using s1(2) nb_inv_perm [of "(L @ other_nbs s1) @ arp_held (arp_table s1)" "(L @ arp_held (arp_table s)) @ other_nbs s1" owns ?Y s1]
    by (simp add: t1)
  from drain_loop_ok [OF this] obtain s2 es where
    s2: "drain_loop A s1 (arp_table s1) = Some (s2, es)" "nb_inv owns ?Y s2 ((L @ other_nbs s1) @ arp_held es)"
      "list_all2 drained (arp_table s1) es" "same_bytes s1 s2 (L @ other_nbs s1)" "nbs.more s2 = nbs.more s1" by blast
  have inv2: "nb_inv owns ?Y s2 (L @ arp_held es @ other_nbs s1)"
    using s2(2) nb_inv_perm [of "(L @ other_nbs s1) @ arp_held es" "L @ arp_held es @ other_nbs s1" owns ?Y s2] by simp
  let ?s = "s2\<lparr>arp_table := es\<rparr>"
  have "same_mem s2 ?s" by simp
  from same_mem_inv [OF this] have "nb_inv owns (X \<union> blocks_more (nbs.more ?s)) ?s (L @ held_more (nbs.more ?s))"
    using inv2 more_table(2,3) [OF s2(5)] unfolding held_more_eq blocks_more_eq by simp
  moreover have "same_bytes s ?s L" using s1(3) s2(4) by (simp add: same_bytes_def bytes_at_def)
  moreover have "drained_from s ?s"
    using s1(4-6) s2(3,5) by (cases s; cases s1; cases s2) (auto simp: drained_from_def)
  moreover have "blocks_more (nbs.more ?s) \<subseteq> blocks_more (nbs.more s)"
    using s1(6) more_table(3) [OF s2(5)] by simp
  moreover have "nt_alloc b = A" using assms by (simp add: board_ok_def)
  ultimately show "\<exists>s'. fnet_prot_drain b s = Some s' \<and> nb_inv owns (X \<union> blocks_more (nbs.more s')) s' (L @ held_more (nbs.more s'))
      \<and> same_bytes s s' L \<and> drained_more (nbs.more s) (nbs.more s') \<and> blocks_more (nbs.more s') \<subseteq> blocks_more (nbs.more s)"
    using s1(1) s2(1)
    by (intro exI [of _ ?s]) (simp add: fnet_prot_drain_def fnet_eth_drain_def fnet_arp_drain_def)
qed

lemma to_buf_all_ok:
  assumes "nb_inv owns X s (c @ S)" "0 < chain_length c" "chain_length c < 4294967295"
  shows "fnet_netbuf_to_buf s c 0 FNET_NETBUF_COPYALL = Some (chain_bytes s c)"
proof -
  have "fnet_netbuf_to_buf s c 0 FNET_NETBUF_COPYALL = fnet_netbuf_to_buf s c 0 (chain_length c)"
    using assms(2,3) by (simp add: fnet_netbuf_to_buf_def FNET_NETBUF_COPYALL_def)
  also have "\<dots> = Some (take (chain_length c) (drop 0 (chain_bytes s c)))"
    by (rule to_buf_ok [OF assms(1)]) (use assms(2,3) in simp_all)
  finally show ?thesis using chain_length_bytes [OF assms(1)] by simp
qed

lemma fec_output_ok:
  assumes "nb_inv owns X s (c @ S)" "total_ok c" "14 \<le> chain_length c" "chain_length c < 4294967295" "nt_alloc b = A"
  shows "\<exists>s'. fnet_fec_output b s c = Some s' \<and> nb_inv owns X s' S \<and> same_bytes s s' S
     \<and> nbs.more s' = nbs.more (s\<lparr>sent := sent s @ [tx_frame b (length (sent s)) (nb_flags (hd c)) (chain_bytes s c)]\<rparr>)"
proof -
  obtain n r where c: "c = n # r" using assms(3) by (cases c) auto
  let ?s = "s\<lparr>sent := sent s @ [tx_frame b (length (sent s)) (nb_flags n) (chain_bytes s c)]\<rparr>"
  have "nb_inv owns X ?s (c @ S)" using assms(1) same_mem_inv [of s ?s] by simp
  from free_chain_ok [OF this] obtain s' where s': "fnet_netbuf_free_chain A ?s c = Some s'" "nb_inv owns X s' S"
    "same_bytes ?s s' S" by blast
  have "14 \<le> nb_total_length n" using assms(2,3) c by (simp add: total_ok_def)
  moreover have "0 < chain_length c" using assms(3) by simp
  from to_buf_all_ok [OF assms(1) this assms(4)]
  have "fnet_netbuf_to_buf s c 0 FNET_NETBUF_COPYALL = Some (chain_bytes s c)" .
  ultimately have "fnet_fec_output b s c = Some s'"
    using s'(1) assms(5) c by (simp add: fnet_fec_output_def)
  moreover have "same_bytes s s' S" using s'(3) by (simp add: same_bytes_def bytes_at_def)
  ultimately show ?thesis using s'(2) free_chain_more [OF s'(1)] c by auto
qed

text \<open>Writing into a buffer that only one net buffer uses.\<close>

lemma write_own_ok:
  assumes "nb_inv owns X s (n # L)" "nb_data n \<notin> nb_data ` set L" "i + length xs \<le> length (bytes_at s (nb_data n))"
  shows "\<exists>s'. write_data s (nb_data n) i xs = Some s' \<and> nb_inv owns X s' (n # L) \<and> same_bytes s s' L
     \<and> bytes_at s' (nb_data n) = take i (bytes_at s (nb_data n)) @ xs @ drop (i + length xs) (bytes_at s (nb_data n))
     \<and> nbs.more s' = nbs.more s"
proof -
  have m: "nb_data n \<in># mset (map nb_data (n # L))" by simp
  obtain s2 where s2: "write_data s (nb_data n) i xs = Some s2"
      "mem_ok owns s2 (mset (map nb_data (n # L))) (set (map nb_addr (n # L)) \<union> X)"
      "bytes_at s2 (nb_data n) = take i (bytes_at s (nb_data n)) @ xs @ drop (i + length xs) (bytes_at s (nb_data n))"
      "\<And>e. e \<noteq> nb_data n \<Longrightarrow> bytes_at s2 e = bytes_at s e"
    by (rule write_data_ok [OF nb_inv_mem(1) [OF assms(1)] m assms(3)], rule that)
  have same: "same_bytes s s2 L"
    unfolding same_bytes_def using s2(4) assms(2) by (metis image_eqI)
  have "length (bytes_at s2 (nb_data n)) = length (bytes_at s (nb_data n))" using s2(3) assms(3) by simp
  then have "nb_inv owns X s2 (n # L)"
    using assms(1) s2(2) same by (auto simp: nb_inv_def in_buf_def same_bytes_def)
  then show ?thesis using s2(1,3) same write_data_more [OF s2(1)] by blast
qed



lemma eth_send_ok:
  assumes "nb_inv owns X s (n # c @ R)" "total_ok c" "chain_length c \<le> 65535" "board_ok A owns b" "length dest = 6"
    and "nb_length n = 14" "nb_total_length n = 14" "nb_off n = 0" "nb_data n \<notin> nb_data ` set (c @ R)"
    and "length (bytes_at s (nb_data n)) = 14" "nb_flags n = 0"
  shows "\<exists>s'. do {
         s \<leftarrow> write_data s (nb_data n) (nb_off n) (dest @ the (nt_hw b) @ store16 (fnet_htons ty));
         fnet_fec_output b s (if c \<noteq> [] then fnet_netbuf_concat [n] c else [n])
       } = Some s'
     \<and> nb_inv owns X s' R \<and> same_bytes s s' R
     \<and> nbs.more s' = nbs.more (s\<lparr>sent := sent s @ [eth_tx b s ty dest c]\<rparr>)"
proof -
  let ?hdr = "dest @ the (nt_hw b) @ store16 (fnet_htons ty)"
  let ?c = "if c \<noteq> [] then fnet_netbuf_concat [n] c else [n]"
  have hdr: "length ?hdr = 14" using assms(4,5) by (auto simp: board_ok_def store16_def)
  from write_own_ok [OF assms(1,9), of 0 ?hdr] hdr assms(10) obtain s1 where
    s1: "write_data s (nb_data n) 0 ?hdr = Some s1" "nb_inv owns X s1 (n # c @ R)" "same_bytes s s1 (c @ R)"
      "bytes_at s1 (nb_data n) = ?hdr" "nbs.more s1 = nbs.more s" by auto
  have cn: "?c = fnet_netbuf_concat [n] c" by (simp add: fnet_netbuf_concat_def)
  have i: "nb_inv owns X s1 ([n] @ c @ R)" using s1(2) by simp
  have t: "total_ok [n]" using assms(6,7) by (simp add: total_ok_def)
  have "chain_length [n] + chain_length c < 4294967296" using assms(3,6) by simp
  note cc = concat_ok [OF i t assms(2) this]
  have bytes: "chain_bytes s1 [n] = ?hdr" "chain_bytes s1 c = chain_bytes s c"
    using s1(4) hdr assms(6,8) same_bytes_chain [OF s1(3)] by (simp_all add: nb_bytes_def)
  have len: "chain_length ?c = 14 + chain_length c"
    using chain_length_bytes [OF cc(1)] cc(2) bytes hdr chain_length_bytes [of owns X s1 c "n # R"]
      nb_inv_perm [of "n # c @ R" "c @ n # R" owns X s1] i unfolding cn by simp
  obtain s2 where s2: "fnet_fec_output b s1 ?c = Some s2" "nb_inv owns X s2 R" "same_bytes s1 s2 R"
      "nbs.more s2 = nbs.more (s1\<lparr>sent := sent s1
          @ [tx_frame b (length (sent s1)) (nb_flags (hd ?c)) (chain_bytes s1 ?c)]\<rparr>)"
    using fec_output_ok [of X s1 ?c R b] cc(1,3) len assms(3,4) unfolding cn by (auto simp: board_ok_def)
  have "chain_bytes s1 ?c = eth_frame b ty dest (chain_bytes s c)"
    using cc(2) bytes unfolding cn by (simp add: eth_frame_def)
  moreover have "sent s1 = sent s" by (rule more_sent [OF s1(5)])
  moreover have "nb_flags (hd ?c) = chain_flags c" unfolding cn by (rule concat_flags [OF assms(11)])
  ultimately have "tx_frame b (length (sent s1)) (nb_flags (hd ?c)) (chain_bytes s1 ?c) = eth_tx b s ty dest c"
    by (simp add: eth_tx_def)
  then have "nbs.more s2 = nbs.more (s\<lparr>sent := sent s @ [eth_tx b s ty dest c]\<rparr>)"
    using s2(4) s1(5) by (cases s; cases s1) simp
  moreover have "same_bytes s s2 R" using s1(3) s2(3) by (auto simp: same_bytes_def)
  ultimately show ?thesis using s1(1) s2(1,2) assms(8) by (intro exI [of _ s2]) simp
qed

text \<open>A new net buffer on the state of the interface.\<close>

lemma net_new_ok:
  assumes "net_inv owns X s L" "len + 12 \<le> 4294967296" "board_ok A owns b"
  obtains s' c where "fnet_netbuf_new A (fnet_prot_drain b) s len True = Some (s', c)" "same_bytes s s' L" "drained_from s s'"
    "c = [] \<and> net_inv owns X s' L
     \<or> (\<exists>n. c = [n] \<and> net_inv owns X s' (n # L) \<and> nb_length n = len \<and> nb_total_length n = len
          \<and> nb_off n = 0 \<and> nb_data n \<notin> nb_data ` set (L @ held s') \<and> length (bytes_at s' (nb_data n)) = len)"
proof -
  have i: "nb_inv owns (X \<union> blocks_more (nbs.more s)) s (L @ held_more (nbs.more s))" "X \<inter> blocks_more (nbs.more s) = {}"
    using net_invD [OF assms(1)] by simp_all
  obtain s' c where s': "fnet_netbuf_new A (fnet_prot_drain b) s len True = Some (s', c)" "same_bytes s s' L"
      "drained_more (nbs.more s) (nbs.more s')" "blocks_more (nbs.more s') \<subseteq> blocks_more (nbs.more s)"
      "c = [] \<and> nb_inv owns (X \<union> blocks_more (nbs.more s')) s' (L @ held_more (nbs.more s'))
        \<or> (\<exists>n. c = [n] \<and> nb_inv owns (X \<union> blocks_more (nbs.more s')) s' (n # L @ held_more (nbs.more s')) \<and> nb_length n = len
             \<and> nb_total_length n = len \<and> nb_off n = 0 \<and> nb_data n \<notin> nb_data ` set (L @ held_more (nbs.more s'))
             \<and> length (bytes_at s' (nb_data n)) = len)"
    by (rule netbuf_new_drain_ok [OF i assms(2) prot_drain_ok [OF assms(3)] drained_more_reflp drained_more_transp,
          of True, THEN exE], elim exE conjE) (rule that)
  have "X \<inter> set (other_blocks s') = {}" using s'(4) i(2) by auto
  then have "c = [] \<and> net_inv owns X s' L
     \<or> (\<exists>n. c = [n] \<and> net_inv owns X s' (n # L) \<and> nb_length n = len \<and> nb_total_length n = len
          \<and> nb_off n = 0 \<and> nb_data n \<notin> nb_data ` set (L @ held s') \<and> length (bytes_at s' (nb_data n)) = len)"
    using s'(5) by (simp add: net_inv_def)
  with s'(1-3) show ?thesis by (intro that) simp_all
qed

lemma eth_output_ok:
  assumes "net_inv owns X s (c @ L)" "total_ok c" "board_ok A owns b" "length dest = 6"
  shows "\<exists>s' out. fnet_eth_output b s ty dest c = Some s' \<and> net_inv owns X s' L
     \<and> same_bytes s s' L \<and> drained_from (s\<lparr>sent := sent s @ out\<rparr>) s'
     \<and> (out = [] \<or> out = [eth_tx b s ty dest c])"
proof -
  obtain mac where b: "nt_alloc b = A" "nt_mtu b \<le> 65535" "nt_hw b = Some mac" "length mac = 6"
    using assms(3) by (auto simp: board_ok_def)
  have drop: "\<exists>s'. fnet_netbuf_free_chain A t c = Some s' \<and> net_inv owns X s' L
      \<and> same_bytes t s' L \<and> nbs.more s' = nbs.more t"
    if t: "net_inv owns X t (c @ L)" for t :: "'p arp_net"
  proof -
    have "nb_inv owns (X \<union> set (other_blocks t)) t (c @ L @ held t)" using net_invD(1) [OF t] by simp
    from free_chain_ok [OF this] obtain s' where s': "fnet_netbuf_free_chain A t c = Some s'"
      "nb_inv owns (X \<union> set (other_blocks t)) s' (L @ held t)" "same_bytes t s' (L @ held t)" by blast
    note m = free_chain_more [OF s'(1)]
    have "net_inv owns X s' L" by (rule net_inv_keep [OF t]) (use s'(2) more_table [OF m] in simp_all)
    then show ?thesis using s' m by (intro exI [of _ s']) (simp add: same_bytes_def)
  qed
  show ?thesis
  proof (cases "c \<noteq> [] \<and> nb_total_length (hd c) > nt_mtu b")
    case True
    with drop [OF assms(1)] obtain s' where "fnet_eth_output b s ty dest c = Some s'"
      "net_inv owns X s' L" "same_bytes s s' L" "nbs.more s' = nbs.more s"
      using b(1) by (auto simp: fnet_eth_output_def)
    then show ?thesis by (intro exI [of _ s'] exI [of _ "[]"]) (simp add: more_drained)
  next
    case False
    have len: "chain_length c \<le> 65535" using False assms(2) b(2) by (cases c) (auto simp: total_ok_def)
    have fourteen: "14 + 12 \<le> (4294967296 :: nat)" by simp
    obtain s1 h where s1: "fnet_netbuf_new A (fnet_prot_drain b) s 14 True = Some (s1, h)" "same_bytes s s1 (c @ L)"
        "drained_from s s1"
      and h: "h = [] \<and> net_inv owns X s1 (c @ L)
        \<or> (\<exists>n. h = [n] \<and> net_inv owns X s1 (n # c @ L) \<and> nb_length n = 14 \<and> nb_total_length n = 14 \<and> nb_off n = 0
             \<and> nb_data n \<notin> nb_data ` set ((c @ L) @ held s1) \<and> length (bytes_at s1 (nb_data n)) = 14)"
      by (rule net_new_ok [OF assms(1) fourteen assms(3)]) (rule that)
    note d = s1(3)
    have bytes: "chain_bytes s1 c = chain_bytes s c" using same_bytes_chain [OF s1(2)] by simp
    from h show ?thesis
    proof (elim disjE exE conjE)
      assume "h = []" "net_inv owns X s1 (c @ L)"
      with drop [of s1] obtain s' where s': "fnet_netbuf_free_chain A s1 c = Some s'"
        "net_inv owns X s' L" "same_bytes s1 s' L" "nbs.more s' = nbs.more s1" by auto
      have "drained_from s s'" using d more_drained [OF s'(4)] by (rule drained_from_trans)
      moreover have "fnet_eth_output b s ty dest c = Some s'"
        using False s1(1) s'(1) \<open>h = []\<close> b(1) by (auto simp: fnet_eth_output_def)
      moreover have "same_bytes s s' L" using s1(2) s'(3) by (simp add: same_bytes_def)
      ultimately show ?thesis using s'(2) by (intro exI [of _ s'] exI [of _ "[]"]) simp
    next
      fix n
      assume n: "h = [n]" "net_inv owns X s1 (n # c @ L)" "nb_length n = 14"
        "nb_total_length n = 14" "nb_off n = 0" "nb_data n \<notin> nb_data ` set ((c @ L) @ held s1)"
        "length (bytes_at s1 (nb_data n)) = 14"
      let ?R = "L @ held s1" and ?Y = "X \<union> set (other_blocks s1)"
      have i1: "nb_inv owns ?Y s1 (n # c @ ?R)" "nb_data n \<notin> nb_data ` set (c @ ?R)"
        using net_invD(1) [OF n(2)] n(6) by simp_all
      let ?fr = "eth_tx b s ty dest c"
      have fl: "nb_flags n = 0" using s1(1) n(1) netbuf_new_flags by blast
      have tx: "eth_tx b s1 ty dest c = ?fr" by (rule eth_tx_cong [OF drained_fromD(2) [OF d] bytes])
      from eth_send_ok [OF i1(1) assms(2) len assms(3,4) n(3-5) i1(2) n(7) fl, of ty] obtain s' where
        s': "do { s \<leftarrow> write_data s1 (nb_data n) (nb_off n) (dest @ the (nt_hw b) @ store16 (fnet_htons ty));
              fnet_fec_output b s (if c \<noteq> [] then fnet_netbuf_concat [n] c else [n]) } = Some s'"
          "nb_inv owns ?Y s' ?R" "same_bytes s1 s' ?R" "nbs.more s' = nbs.more (s1\<lparr>sent := sent s1 @ [?fr]\<rparr>)"
        unfolding tx by blast
      have "fnet_eth_output b s ty dest c = Some s'"
        using False s1(1) s'(1) n(1) b(1,3) by (auto simp: fnet_eth_output_def)
      moreover have "drained_from (s\<lparr>sent := sent s @ [?fr]\<rparr>) s'"
        using d s'(4) by (cases s; cases s1; cases s') (auto simp: drained_from_def)
      moreover have "net_inv owns X s' L"
        by (rule net_inv_keep [OF n(2)]) (use s'(2) more_table [OF s'(4)] in simp_all)
      moreover have "same_bytes s s' L" using s1(2) s'(3) by (simp add: same_bytes_def)
      ultimately show ?thesis by (intro exI [of _ s'] exI [of _ "[?fr]"]) simp
    qed
  qed
qed

lemma eth_output_now:
  assumes "nb_inv owns X s (c @ R)" "total_ok c" "board_ok A owns b" "length dest = 6" "has_memory A s"
  shows "\<exists>s'. fnet_eth_output b s ty dest c = Some s' \<and> nb_inv owns X s' R \<and> same_bytes s s' R
     \<and> nbs.more s' = nbs.more (s\<lparr>sent := sent s @
          (if c \<noteq> [] \<and> nb_total_length (hd c) > nt_mtu b then [] else [eth_tx b s ty dest c])\<rparr>)"
proof -
  obtain mac where b: "nt_alloc b = A" "nt_mtu b \<le> 65535" "nt_hw b = Some mac" "length mac = 6"
    using assms(3) by (auto simp: board_ok_def)
  show ?thesis
  proof (cases "c \<noteq> [] \<and> nb_total_length (hd c) > nt_mtu b")
    case True
    obtain s' where s': "fnet_netbuf_free_chain A s c = Some s'" "nb_inv owns X s' R" "same_bytes s s' R"
      using free_chain_ok [OF assms(1)] by blast
    then show ?thesis using True b(1) free_chain_more [OF s'(1)] by (auto simp: fnet_eth_output_def)
  next
    case False
    have len: "chain_length c \<le> 65535" using False assms(2) b(2) by (cases c) (auto simp: total_ok_def)
    obtain s1 n where new: "fnet_netbuf_new A (\<lambda>_. None) s 14 False = Some (s1, [n])"
      using has_memory_new [OF assms(5)] by blast
    have "14 + 12 \<le> (4294967296 :: nat)" by simp
    from netbuf_new_ok [OF assms(1) this, of "\<lambda>_. None"] new have
      n: "same_bytes s s1 (c @ R)" "nb_inv owns X s1 (n # c @ R)" "nb_length n = 14" "nb_total_length n = 14"
        "nb_off n = 0" "nb_data n \<notin> nb_data ` set (c @ R)" "length (bytes_at s1 (nb_data n)) = 14" by auto
    have "nbs.more s1 = nbs.more s"
      using new by (auto simp: fnet_netbuf_new_def malloc_drain_def bind_eq_Some_conv split: if_splits
          dest!: malloc_netbuf_more)
    moreover have "chain_bytes s1 c = chain_bytes s c" using same_bytes_chain [OF n(1)] by simp
    moreover obtain s' where
      s': "do { s \<leftarrow> write_data s1 (nb_data n) (nb_off n) (dest @ the (nt_hw b) @ store16 (fnet_htons ty));
            fnet_fec_output b s (if c \<noteq> [] then fnet_netbuf_concat [n] c else [n]) } = Some s'"
        "nb_inv owns X s' R" "same_bytes s1 s' R"
        "nbs.more s' = nbs.more (s1\<lparr>sent := sent s1 @ [eth_tx b s1 ty dest c]\<rparr>)"
      using eth_send_ok [OF n(2) assms(2) len assms(3,4) n(3-7) netbuf_new_flags [OF new]] by blast
    moreover have "eth_tx b s1 ty dest c = eth_tx b s ty dest c"
      by (rule eth_tx_cong [OF more_sent]) fact+
    moreover have "fnet_netbuf_new A (fnet_prot_drain b) s 14 True = Some (s1, [n])"
      by (rule new_without_drain [OF new])
    moreover have "same_bytes s s' R" using n(1) s'(3) by (auto simp: same_bytes_def)
    ultimately show ?thesis
      using False b(1,3)
      by (intro exI [of _ s'], cases s; cases s1; cases s') (auto simp: fnet_eth_output_def)
  qed
qed

text \<open>Freeing what waits in an entry.\<close>

lemma free_hold_ok:
  assumes "nb_inv owns X s (L @ held s)" "i < length (arp_table s)"
  shows "\<exists>s'. fnet_netbuf_free_chain A s (hold (arp_table s ! i)) = Some s'
     \<and> nb_inv owns X s' (L @ others_of i s) \<and> same_bytes s s' L \<and> nbs.more s' = nbs.more s"
proof -
  let ?c = "hold (arp_table s ! i)"
  have "mset (L @ held s) = mset (?c @ L @ others_of i s)"
    using mset_held [OF assms(2)] by simp
  from assms(1) [unfolded nb_inv_perm [OF this, of owns X s]] free_chain_ok obtain s' where
    s': "fnet_netbuf_free_chain A s ?c = Some s'" "nb_inv owns X s' (L @ others_of i s)"
      "same_bytes s s' (L @ others_of i s)" by blast
  then show ?thesis using free_chain_more [OF s'(1)] by (intro exI [of _ s']) (simp add: same_bytes_def)
qed

lemma set_entry_inv:
  assumes "i < length (arp_table s)" "nb_inv owns X s (L @ hold (f (arp_table s ! i)) @ others_of i s)"
  shows "nb_inv owns X (set_entry i f s) (L @ held (set_entry i f s))"
proof -
  have "mset (L @ held (set_entry i f s))
      = mset (L @ hold (f (arp_table s ! i)) @ others_of i s)"
    using mset_held_update [OF assms(1)] by simp
  note p = nb_inv_perm [OF this, of owns X]
  have "same_mem s (set_entry i f s)" by simp
  from same_mem_inv [OF this] show ?thesis using assms(2) unfolding p by blast
qed

lemma set_entry_same_hold:
  assumes "cache_inv owns X s L" "hold (f (arp_table s ! i)) = hold (arp_table s ! i)"
    "prot_addr (f (arp_table s ! i)) = prot_addr (arp_table s ! i)" "length (hard_addr (f (arp_table s ! i))) = 6"
    and "i < length (arp_table s)"
  shows "cache_inv owns X (set_entry i f s) L"
proof -
  have "mset (L @ held s) = mset (L @ hold (arp_table s ! i) @ others_of i s)"
    using mset_held [OF assms(5)] by simp
  from nb_inv_perm [OF this, of owns X s] have
    "nb_inv owns X s (L @ hold (f (arp_table s ! i)) @ others_of i s)"
    using assms(1,2) by (simp add: cache_inv_def)
  from set_entry_inv [where f = f, OF assms(5) this] show ?thesis
    using assms arp_table_nth [of "arp_table s" i]
    by (auto simp: cache_inv_def intro!: arp_table_ok_update)
qed

lemma clear_hold_ok:
  assumes "nb_inv owns X s (L @ held s)" "i < length (arp_table s)" "nt_alloc b = A"
    and "\<And>e. hold (f e) = [] \<and> prot_addr (f e) = prot_addr e \<and> hard_addr (f e) = hard_addr e"
  shows "\<exists>s' e. (if hold (arp_table s ! i) \<noteq> []
       then do { s \<leftarrow> fnet_netbuf_free_chain (nt_alloc b) s (hold (arp_table s ! i)); Some (set_entry i f s) }
       else Some s) = Some s'
     \<and> nb_inv owns X s' (L @ others_of i s') \<and> same_bytes s s' L \<and> only_table s s'
     \<and> arp_table s' = (arp_table s)[i := e] \<and> hold e = [] \<and> prot_addr e = prot_addr (arp_table s ! i)
     \<and> hard_addr e = hard_addr (arp_table s ! i) \<and> reads s' = reads s"
proof -
  obtain s1 where s1: "fnet_netbuf_free_chain A s (hold (arp_table s ! i)) = Some s1"
      "nb_inv owns X s1 (L @ others_of i s)" "same_bytes s s1 L" "nbs.more s1 = nbs.more s"
    using free_hold_ok [OF assms(1,2)] by blast
  show ?thesis
  proof (cases "hold (arp_table s ! i) = []")
    case True
    then have "nb_inv owns X s (L @ others_of i s)" using s1(1,2) by simp
    then show ?thesis
      using True by (intro exI [of _ s] exI [of _ "arp_table s ! i"]) simp
  next
    case False
    let ?s = "set_entry i f s1"
    have "same_mem s1 ?s" by simp
    from same_mem_inv [OF this] have "nb_inv owns X ?s (L @ others_of i ?s)"
      using s1(2) more_table [OF s1(4)] by simp
    moreover have "only_table s ?s" "reads ?s = reads s"
      using s1(4) by (cases s; cases s1; simp add: only_table_def set_entry_def)+
    ultimately show ?thesis
      using False s1(1,3) assms(3,4) more_table [OF s1(4)]
      by (intro exI [of _ ?s] exI [of _ "f (arp_table s ! i)"]) simp
  qed
qed

lemma drained_held: "list_all2 drained es es' \<Longrightarrow> set (arp_held es') \<subseteq> set (arp_held es)"
  by (induction rule: list_all2_induct) (auto simp: drained_def)

lemma held_update: "i < length es \<Longrightarrow> set (arp_held (es[i := e])) \<subseteq> set (hold e) \<union> set (arp_held es)"
  using mset_eq_setD [OF mset_held_update [of i es e]] mset_eq_setD [OF mset_held [of i es]] by auto

lemma held_update_same: "i < length es \<Longrightarrow> hold e = hold (es ! i) \<Longrightarrow> set (arp_held (es[i := e])) = set (arp_held es)"
  using mset_eq_setD [OF mset_held_update [of i es e]] mset_eq_setD [OF mset_held [of i es]] by auto

lemma add_entry_core:
  assumes "cache_inv owns X s L" "length mac = 6" "nt_alloc b = A"
  shows "\<exists>s' i. fnet_arp_add_entry b s ip mac = Some (s', i) \<and> cache_inv owns X s' L \<and> same_bytes s s' L
     \<and> only_table s s' \<and> i < length (arp_table s') \<and> prot_index ip (arp_table s') = Some i
     \<and> hard_addr (arp_table s' ! i) = mac
     \<and> (if prot_index ip (arp_table s) = None then hold (arp_table s' ! i) = []
        else prot_index ip (arp_table s) = Some i \<and> same_mem s s' \<and> hold (arp_table s' ! i) = hold (arp_table s ! i))
     \<and> set (held s') \<subseteq> set (held s)"
proof (cases "prot_index ip (arp_table s)")
  case (Some i)
  note i = prot_index_SomeD [OF Some]
  let ?f = "\<lambda>e. e\<lparr>hard_addr := mac, cr_time_ms := nt_ms b (reads s)\<rparr>"
  let ?s = "set_entry i ?f (s\<lparr>reads := reads s + 1\<rparr>)"
  have "cache_inv owns X ?s L"
    by (rule set_entry_same_hold) (use assms i in simp_all)
  moreover have "only_table s ?s" by (cases s) (simp add: only_table_def set_entry_def)
  moreover have "same_mem s ?s" by (simp add: same_mem_def set_entry_def)
  moreover have "set (held ?s) \<subseteq> set (held s)"
    using held_update_same [of i "arp_table s" "?f (arp_table s ! i)"] i by auto
  ultimately show ?thesis
    using Some i assms(2)
    by (intro exI [of _ ?s] exI [of _ i]) (simp add: fnet_arp_add_entry_def arp_get_ms_def prot_index_same)
next
  case None
  have len: "length (arp_table s) = 10" using assms(1) by (simp add: cache_inv_def arp_table_ok_def FNET_CFG_ARP_TABLE_SIZE_def)
  obtain r i where ri: "(case prot_index 0 (arp_table s) of Some i \<Rightarrow> (s, i)
      | None \<Rightarrow> oldest_loop b s (arp_table s) 0 0 0) = (s\<lparr>reads := r\<rparr>, i)" "i < length (arp_table s)"
  proof (cases "prot_index 0 (arp_table s)")
    case None
    obtain r k where "oldest_loop b s (arp_table s) 0 0 0 = (s\<lparr>reads := r\<rparr>, k)" "k = 0 \<or> (0 \<le> k \<and> k < 0 + length (arp_table s))"
      using oldest_loop_bound [of b s "arp_table s" 0 0 0] by blast
    with None len show ?thesis by (intro that [of r k]) auto
  next
    case (Some i)
    then show ?thesis using prot_index_SomeD [OF Some] that [of "reads s" i] by simp
  qed
  let ?s0 = "s\<lparr>reads := r\<rparr>"
  have inv0: "nb_inv owns X ?s0 (L @ held ?s0)" "arp_table_ok (arp_table ?s0)"
    using assms(1) cache_inv_reads [of owns X r s L] by (simp_all add: cache_inv_def)
  obtain s1 e where s1: "(if hold (arp_table ?s0 ! i) \<noteq> []
       then do { s \<leftarrow> fnet_netbuf_free_chain (nt_alloc b) ?s0 (hold (arp_table ?s0 ! i));
                 Some (set_entry i (\<lambda>e. e\<lparr>hold := [], hold_time_ms := 0\<rparr>) s) }
       else Some ?s0) = Some s1"
     "nb_inv owns X s1 (L @ others_of i s1)" "same_bytes ?s0 s1 L" "only_table ?s0 s1"
     "arp_table s1 = (arp_table s)[i := e]" "hold e = []" "prot_addr e = prot_addr (arp_table s ! i)"
     "hard_addr e = hard_addr (arp_table s ! i)"
    using clear_hold_ok [OF inv0(1) _ assms(3), of i "\<lambda>e. e\<lparr>hold := [], hold_time_ms := 0\<rparr>"] ri(2) by auto
  let ?f = "\<lambda>e. e\<lparr>prot_addr := ip, hard_addr := mac, cr_time_ms := nt_ms b (reads s1)\<rparr>"
  let ?s2 = "s1\<lparr>reads := reads s1 + 1\<rparr>"
  let ?s = "set_entry i ?f ?s2"
  have len1: "i < length (arp_table ?s2)" using ri(2) s1(5) by simp
  have "same_mem s1 ?s2" by simp
  from same_mem_inv [OF this] have "nb_inv owns X ?s2 (L @ hold (?f (arp_table ?s2 ! i)) @ others_of i ?s2)"
    using s1(2,5,6) ri(2) by simp
  from set_entry_inv [where f = ?f, OF len1 this]
  have n: "nb_inv owns X ?s (L @ held ?s)" .
  have t: "arp_table ?s = (arp_table s)[i := ?f e]" using s1(5) ri(2) by simp
  have ip: "ip \<notin> set (map prot_addr (arp_table s))" using None by (simp only: prot_index_None_iff not_False_eq_True)
  have "arp_table_ok (arp_table ?s)"
    unfolding t by (rule arp_table_ok_update) (use inv0(2) assms(2) s1(6) ip in \<open>simp_all add: total_ok_def\<close>)
  then have "cache_inv owns X ?s L" using n by (simp add: cache_inv_def)
  moreover have "only_table s ?s"
    by (rule only_table_trans [OF only_table_simps(3) only_table_trans [OF s1(4) only_table_trans [OF only_table_simps(3) only_table_simps(2)]]])
  moreover have "prot_index ip (arp_table ?s) = Some i"
    unfolding t by (rule prot_index_update) (use ip ri(2) in simp_all)
  moreover have "fnet_arp_add_entry b s ip mac = Some (?s, i)"
    using None ri(1) s1(1) by (simp add: fnet_arp_add_entry_def arp_get_ms_def)
  moreover have "set (held ?s) \<subseteq> set (held s)"
    unfolding t using held_update [OF ri(2), of "?f e"] s1(6) only_tableD(7) [OF s1(4)] by auto
  ultimately show ?thesis
    using s1(3,5,6) ri(2) None by (intro exI [of _ ?s] exI [of _ i]) simp
qed

lemma update_entry_core:
  assumes "cache_inv owns X s L" "length mac = 6"
  shows "\<exists>s' r. fnet_arp_update_entry b s ip mac = (s', r) \<and> cache_inv owns X s' L \<and> same_bytes s s' L
     \<and> only_table s s' \<and> same_mem s s' \<and> r = prot_index ip (arp_table s)
     \<and> (\<forall>i. r = Some i \<longrightarrow> i < length (arp_table s') \<and> prot_index ip (arp_table s') = Some i
          \<and> hard_addr (arp_table s' ! i) = mac \<and> hold (arp_table s' ! i) = hold (arp_table s ! i))"
proof (cases "prot_index ip (arp_table s)")
  case (Some i)
  note i = prot_index_SomeD [OF Some]
  let ?f = "\<lambda>e. e\<lparr>hard_addr := mac, cr_time_ms := nt_ms b (reads s)\<rparr>"
  let ?s = "set_entry i ?f (s\<lparr>reads := reads s + 1\<rparr>)"
  have "cache_inv owns X ?s L"
    by (rule set_entry_same_hold) (use assms i in simp_all)
  moreover have "only_table s ?s" by (cases s) (simp add: only_table_def set_entry_def)
  moreover have "same_mem s ?s" by (simp add: same_mem_def set_entry_def)
  ultimately show ?thesis
    using Some i assms(2)
    by (intro exI [of _ ?s] exI [of _ "Some i"]) (simp add: fnet_arp_update_entry_def arp_get_ms_def prot_index_same)
next
  case None
  then show ?thesis using assms(1) by (intro exI [of _ s] exI [of _ None]) (simp add: fnet_arp_update_entry_def)
qed

lemma learn_entry_core:
  assumes "cache_inv owns X s L" "length (sender_hard_addr h) = 6" "nt_alloc b = A"
  shows "\<exists>s' entry. (if targer_prot_addr h = ip4_address s
          then do { (s, i) \<leftarrow> fnet_arp_add_entry b s (sender_prot_addr h) (sender_hard_addr h); Some (s, Some i) }
          else Some (fnet_arp_update_entry b s (sender_prot_addr h) (sender_hard_addr h))) = Some (s', entry)
     \<and> cache_inv owns X s' L \<and> same_bytes s s' L \<and> only_table s s'
     \<and> (case entry of
          None \<Rightarrow> waiting s (sender_prot_addr h) = [] \<and> targer_prot_addr h \<noteq> ip4_address s
            \<and> prot_index (sender_prot_addr h) (arp_table s) = None
        | Some i \<Rightarrow> i < length (arp_table s') \<and> prot_index (sender_prot_addr h) (arp_table s') = Some i
            \<and> hard_addr (arp_table s' ! i) = sender_hard_addr h
            \<and> hold (arp_table s' ! i) = waiting s (sender_prot_addr h)
            \<and> (waiting s (sender_prot_addr h) \<noteq> [] \<longrightarrow> same_mem s s'))"
proof (cases "targer_prot_addr h = ip4_address s")
  case True
  from add_entry_core [OF assms, of "sender_prot_addr h"] obtain s' i where
    "fnet_arp_add_entry b s (sender_prot_addr h) (sender_hard_addr h) = Some (s', i)" "cache_inv owns X s' L"
    "same_bytes s s' L" "only_table s s'" "i < length (arp_table s')"
    "prot_index (sender_prot_addr h) (arp_table s') = Some i" "hard_addr (arp_table s' ! i) = sender_hard_addr h"
    "if prot_index (sender_prot_addr h) (arp_table s) = None then hold (arp_table s' ! i) = []
        else prot_index (sender_prot_addr h) (arp_table s) = Some i \<and> same_mem s s'
          \<and> hold (arp_table s' ! i) = hold (arp_table s ! i)" by blast
  moreover from this have "hold (arp_table s' ! i) = waiting s (sender_prot_addr h)"
    using prot_index_SomeD [of "sender_prot_addr h" "arp_table s"]
    by (cases "prot_index (sender_prot_addr h) (arp_table s)") (auto simp: waiting_def)
  ultimately show ?thesis
    using True by (intro exI [of _ s'] exI [of _ "Some i"]) (auto simp: waiting_def split: if_splits)
next
  case False
  from update_entry_core [OF assms(1,2), of b "sender_prot_addr h"] obtain s' r where
    u: "fnet_arp_update_entry b s (sender_prot_addr h) (sender_hard_addr h) = (s', r)" "cache_inv owns X s' L"
    "same_bytes s s' L" "only_table s s'" "same_mem s s'" "r = prot_index (sender_prot_addr h) (arp_table s)"
    "\<forall>i. r = Some i \<longrightarrow> i < length (arp_table s') \<and> prot_index (sender_prot_addr h) (arp_table s') = Some i
          \<and> hard_addr (arp_table s' ! i) = sender_hard_addr h \<and> hold (arp_table s' ! i) = hold (arp_table s ! i)"
    by blast
  then show ?thesis using False
    by (intro exI [of _ s'] exI [of _ r]) (auto simp: waiting_def split: option.splits)
qed

lemma arp_learn_core:
  assumes "cache_inv owns X s L" "board_ok A owns b" "length (sender_hard_addr h) = 6"
    and "waiting s (sender_prot_addr h) = [] \<or> has_memory A s"
  defines "w \<equiv> waiting s (sender_prot_addr h)"
  shows "\<exists>s'. arp_learn b s h = Some s' \<and> cache_inv owns X s' L \<and> same_bytes s s' L
     \<and> nbs.more s' = nbs.more (s\<lparr>arp_table := arp_table s', reads := reads s',
          sent := sent s @ (if w = [] \<or> nb_total_length (hd w) > nt_mtu b then []
            else [eth_tx b s FNET_ETH_TYPE_IP4 (sender_hard_addr h) w])\<rparr>)
     \<and> waiting s' (sender_prot_addr h) = []
     \<and> (targer_prot_addr h = ip4_address s \<or> prot_index (sender_prot_addr h) (arp_table s) \<noteq> None \<longrightarrow>
          (\<exists>i. prot_index (sender_prot_addr h) (arp_table s') = Some i \<and> hard_addr (arp_table s' ! i) = sender_hard_addr h))"
proof -
  have al: "nt_alloc b = A" using assms(2) by (simp add: board_ok_def)
  from learn_entry_core [OF assms(1,3) al] obtain s1 entry where
    s1: "(if targer_prot_addr h = ip4_address s
          then do { (s, i) \<leftarrow> fnet_arp_add_entry b s (sender_prot_addr h) (sender_hard_addr h); Some (s, Some i) }
          else Some (fnet_arp_update_entry b s (sender_prot_addr h) (sender_hard_addr h))) = Some (s1, entry)"
      "cache_inv owns X s1 L" "same_bytes s s1 L" "only_table s s1"
    and e: "case entry of
          None \<Rightarrow> w = [] \<and> targer_prot_addr h \<noteq> ip4_address s
            \<and> prot_index (sender_prot_addr h) (arp_table s) = None
        | Some i \<Rightarrow> i < length (arp_table s1) \<and> prot_index (sender_prot_addr h) (arp_table s1) = Some i
            \<and> hard_addr (arp_table s1 ! i) = sender_hard_addr h
            \<and> hold (arp_table s1 ! i) = w \<and> (w \<noteq> [] \<longrightarrow> same_mem s s1)"
    unfolding w_def by blast
  have more1: "nbs.more s1 = nbs.more (s\<lparr>arp_table := arp_table s1, reads := reads s1\<rparr>)"
    using s1(4) by (simp only: only_table_more)
  show ?thesis
  proof (cases entry)
    case None
    have "arp_learn b s h = Some s1" using s1(1) None by (simp add: arp_learn_def)
    moreover have "waiting s1 (sender_prot_addr h) = []"
    proof -
      have "prot_index (sender_prot_addr h) (arp_table s) = None" "targer_prot_addr h \<noteq> ip4_address s"
        using None e by simp_all
      then have "s1 = s" using s1(1) by (simp add: fnet_arp_update_entry_def)
      then show ?thesis using None e by (simp add: w_def)
    qed
    ultimately show ?thesis using None e s1(2,3) more1 by (intro exI [of _ s1]) simp
  next
    case (Some i)
    with e have i: "i < length (arp_table s1)" "prot_index (sender_prot_addr h) (arp_table s1) = Some i"
      "hard_addr (arp_table s1 ! i) = sender_hard_addr h" "hold (arp_table s1 ! i) = w"
      "w \<noteq> [] \<Longrightarrow> same_mem s s1" by simp_all
    show ?thesis
    proof (cases "w = []")
      case True
      have "arp_learn b s h = Some s1" using s1(1) Some i(4) True by (simp add: arp_learn_def)
      then show ?thesis using True i s1(2,3) more1 by (intro exI [of _ s1]) (simp add: waiting_def)
    next
      case False
      have hm: "has_memory A s1"
        using assms(4) False i(5) has_memory_pool [of s1 s] by (simp add: w_def same_mem_def)
      have tw: "total_ok w" using s1(2) i(1,4) arp_table_nth [of "arp_table s1" i] by (simp add: cache_inv_def)
      have "mset (L @ held s1) = mset (w @ L @ others_of i s1)"
        using mset_held [OF i(1)] i(4) by simp
      from nb_inv_perm [OF this, of owns X s1] have n: "nb_inv owns X s1 (w @ L @ others_of i s1)"
        using s1(2) by (simp add: cache_inv_def)
      from eth_output_now [OF n tw assms(2,3) hm, of FNET_ETH_TYPE_IP4] obtain s2 where
        s2: "fnet_eth_output b s1 FNET_ETH_TYPE_IP4 (sender_hard_addr h) w = Some s2"
          "nb_inv owns X s2 (L @ others_of i s1)"
          "same_bytes s1 s2 (L @ others_of i s1)"
          "nbs.more s2 = nbs.more (s1\<lparr>sent := sent s1 @ (if w \<noteq> [] \<and> nb_total_length (hd w) > nt_mtu b then []
             else [eth_tx b s1 FNET_ETH_TYPE_IP4 (sender_hard_addr h) w])\<rparr>)" by blast
      have t2: "arp_table s2 = arp_table s1" "other_nbs s2 = other_nbs s1" using more_table [OF s2(4)] by simp_all
      let ?f = "\<lambda>e. e\<lparr>hold := [], hold_time_ms := 0\<rparr>"
      let ?s = "set_entry i ?f s2"
      have "nb_inv owns X ?s (L @ held ?s)"
        by (rule set_entry_inv) (use i(1) s2(2) t2 in simp_all)
      moreover have "arp_table_ok (arp_table ?s)"
        unfolding set_entry_table t2
        by (rule arp_table_ok_update) (use s1(2) i assms(3) in \<open>simp_all add: cache_inv_def total_ok_def\<close>)
      ultimately have "cache_inv owns X ?s L" by (simp add: cache_inv_def)
      moreover have "arp_learn b s h = Some ?s"
        using s1(1) Some False i(3,4) s2(1) by (simp add: arp_learn_def)
      moreover have "eth_tx b s1 FNET_ETH_TYPE_IP4 (sender_hard_addr h) w = eth_tx b s FNET_ETH_TYPE_IP4 (sender_hard_addr h) w"
        by (rule eth_tx_cong [OF only_tableD(1) [OF s1(4)] same_mem_bytes [OF i(5) [OF False]]])
      moreover have "same_bytes s ?s L" using s1(3) s2(3) by (simp add: same_bytes_def)
      moreover have "prot_index (sender_prot_addr h) (arp_table ?s) = Some i"
        using i(2) t2 by (simp add: prot_index_same)
      ultimately show ?thesis
        using False i(1,3) s2(4) more1 t2
        by (intro exI [of _ ?s], cases s; cases s1; cases s2) (simp add: waiting_def set_entry_def)
    qed
  qed
qed

text \<open>The same with the blocks of the protocols above.\<close>

lemma arp_inv_perm_mset: "mset L = mset L' \<Longrightarrow> arp_inv owns X s L \<Longrightarrow> arp_inv owns X s L'"
  using nb_inv_perm [of "L @ held s" "L' @ held s" owns "X \<union> set (other_blocks s)" s]
  by (simp add: arp_inv_def net_inv_def)

lemma add_entry_ok:
  assumes "arp_inv owns X s L" "length mac = 6" "nt_alloc b = A"
  shows "\<exists>s' i. fnet_arp_add_entry b s ip mac = Some (s', i) \<and> arp_inv owns X s' L \<and> same_bytes s s' L
     \<and> only_table s s' \<and> i < length (arp_table s') \<and> prot_index ip (arp_table s') = Some i
     \<and> hard_addr (arp_table s' ! i) = mac
     \<and> (if prot_index ip (arp_table s) = None then hold (arp_table s' ! i) = []
        else prot_index ip (arp_table s) = Some i \<and> same_mem s s' \<and> hold (arp_table s' ! i) = hold (arp_table s ! i))
     \<and> set (held s') \<subseteq> set (held s)"
proof -
  have "cache_inv owns (X \<union> set (other_blocks s)) s L" using assms(1) by (simp add: arp_inv_cache)
  from add_entry_core [OF this assms(2,3), of ip] show ?thesis
    using arp_inv_keep [OF assms(1)] only_tableD(8) by blast
qed

lemma learn_entry_ok:
  assumes "arp_inv owns X s L" "length (sender_hard_addr h) = 6" "nt_alloc b = A"
  shows "\<exists>s' entry. (if targer_prot_addr h = ip4_address s
          then do { (s, i) \<leftarrow> fnet_arp_add_entry b s (sender_prot_addr h) (sender_hard_addr h); Some (s, Some i) }
          else Some (fnet_arp_update_entry b s (sender_prot_addr h) (sender_hard_addr h))) = Some (s', entry)
     \<and> arp_inv owns X s' L \<and> same_bytes s s' L \<and> only_table s s'
     \<and> (case entry of
          None \<Rightarrow> waiting s (sender_prot_addr h) = [] \<and> targer_prot_addr h \<noteq> ip4_address s
            \<and> prot_index (sender_prot_addr h) (arp_table s) = None
        | Some i \<Rightarrow> i < length (arp_table s') \<and> prot_index (sender_prot_addr h) (arp_table s') = Some i
            \<and> hard_addr (arp_table s' ! i) = sender_hard_addr h
            \<and> hold (arp_table s' ! i) = waiting s (sender_prot_addr h)
            \<and> (waiting s (sender_prot_addr h) \<noteq> [] \<longrightarrow> same_mem s s'))"
proof -
  have "cache_inv owns (X \<union> set (other_blocks s)) s L" using assms(1) by (simp add: arp_inv_cache)
  from learn_entry_core [OF this assms(2,3)] show ?thesis
    using arp_inv_keep [OF assms(1)] only_tableD(8) by blast
qed

lemma arp_learn_ok:
  assumes "arp_inv owns X s L" "board_ok A owns b" "length (sender_hard_addr h) = 6"
    and "waiting s (sender_prot_addr h) = [] \<or> has_memory A s"
  defines "w \<equiv> waiting s (sender_prot_addr h)"
  shows "\<exists>s'. arp_learn b s h = Some s' \<and> arp_inv owns X s' L \<and> same_bytes s s' L
     \<and> nbs.more s' = nbs.more (s\<lparr>arp_table := arp_table s', reads := reads s',
          sent := sent s @ (if w = [] \<or> nb_total_length (hd w) > nt_mtu b then []
            else [eth_tx b s FNET_ETH_TYPE_IP4 (sender_hard_addr h) w])\<rparr>)
     \<and> waiting s' (sender_prot_addr h) = []
     \<and> (targer_prot_addr h = ip4_address s \<or> prot_index (sender_prot_addr h) (arp_table s) \<noteq> None \<longrightarrow>
          (\<exists>i. prot_index (sender_prot_addr h) (arp_table s') = Some i \<and> hard_addr (arp_table s' ! i) = sender_hard_addr h))"
proof -
  have i: "cache_inv owns (X \<union> set (other_blocks s)) s L" using assms(1) by (simp add: arp_inv_cache)
  have "other_blocks s' = other_blocks s" if "nbs.more s' = nbs.more (s\<lparr>arp_table := t, reads := r, sent := x\<rparr>)" for s' :: "'p arp_net" and t r x
    using more_table(3) [OF that] by simp
  with arp_learn_core [OF i assms(2-4), folded w_def] show ?thesis
    using arp_inv_keep [OF assms(1)] by blast
qed

end

end
