(* ===== verification/Fnet_Netbuf_Room.thy ===== *)
theory Fnet_Netbuf_Room
  imports Fnet_Netbuf_Main Fnet_Netbuf_Drain
begin

text \<open>
  When an allocation of net buffers succeeds: an allocator that promises a block as long as its largest
  free block is large enough, what each operation of \<^verbatim>\<open>fnet_netbuf.c\<close> takes of it, and the
  heap of the stack as an instance.
\<close>

section \<open>Allocators with room\<close>

text \<open>
  \<open>room p k\<close> says that some free block has at least \<open>k\<close> units. A block of \<open>n\<close> bytes takes
  \<open>(n + 15) div 8\<close> units, its header included. Freeing never shrinks a free block.
\<close>

locale roomy_allocator = block_allocator A owns
  for A :: "'p allocator" and owns :: "'p \<Rightarrow> nat set \<Rightarrow> bool" +
  fixes room :: "'p \<Rightarrow> nat \<Rightarrow> bool"
  assumes room_malloc: "owns p H \<Longrightarrow> n + 8 \<le> 4294967296 \<Longrightarrow> 0 < k \<Longrightarrow> room p (k + (n + 15) div 8)
      \<Longrightarrow> a_malloc A p n = Some (p', a) \<Longrightarrow> a \<noteq> 0 \<and> room p' k"
    and room_less: "room p k \<Longrightarrow> j \<le> k \<Longrightarrow> room p j"
    and room_free: "owns p H \<Longrightarrow> a \<in> H \<Longrightarrow> a_free A p a = Some p' \<Longrightarrow> room p k \<Longrightarrow> room p' k"
begin

lemma malloc_room:
  assumes "mem_ok owns s R D" "n + 8 \<le> 4294967296" "0 < k" "room (pool s) (k + (n + 15) div 8)"
    and "fnet_malloc_netbuf A s n = Some (s', a)"
  shows "a \<noteq> 0" "room (pool s') k"
proof -
  have o: "owns (pool s) (dom (bufs s) \<union> D)" using assms(1) by (simp add: mem_ok_def)
  obtain p where p: "a_malloc A (pool s) n = Some (p, a)" "s' = s\<lparr>pool := p\<rparr>"
    using assms(5) by (auto simp: fnet_malloc_netbuf_def bind_eq_Some_conv)
  from room_malloc [OF o assms(2-4) p(1)] show "a \<noteq> 0" "room (pool s') k" by (simp_all add: p(2))
qed

lemma free_netbuf_room:
  assumes "mem_ok owns s R D" "a \<in> D" "fnet_free_netbuf A s a = Some s'" "room (pool s) k"
  shows "room (pool s') k"
proof -
  have o: "owns (pool s) (dom (bufs s) \<union> D)" "a \<in> dom (bufs s) \<union> D" using assms(1,2) by (simp_all add: mem_ok_def)
  then show ?thesis using room_free [OF o] assms(3,4) by (auto simp: fnet_free_netbuf_def bind_eq_Some_conv)
qed

lemma release_data_room:
  assumes "mem_ok owns s R D" "release_data A s d = Some s'" "room (pool s) k"
  shows "room (pool s') k"
proof -
  obtain b where b: "bufs s d = Some b" using assms(2) by (auto simp: release_data_def bind_eq_Some_conv)
  have o: "owns (pool s) (dom (bufs s) \<union> D)" "d \<in> dom (bufs s) \<union> D" using assms(1) b by (auto simp: mem_ok_def)
  show ?thesis using room_free [OF o] assms(2,3) b
    by (auto simp: release_data_def fnet_free_netbuf_def bind_eq_Some_conv split: if_splits)
qed

lemma netbuf_free_room:
  assumes "nb_inv owns X s (n # L)" "fnet_netbuf_free A s (n # r) = Some (s', r)" "room (pool s) k"
  shows "room (pool s') k"
proof -
  let ?D = "set (map nb_addr L) \<union> X"
  have m: "mem_ok owns s (add_mset (nb_data n) (mset (map nb_data L))) (insert (nb_addr n) ?D)"
    using nb_inv_mem(1) [OF assms(1)] by simp
  obtain s1 where s1: "release_data A s (nb_data n) = Some s1" "mem_ok owns s1 (mset (map nb_data L)) (insert (nb_addr n) ?D)"
    by (rule release_data_ok [OF m])
  have "fnet_free_netbuf A s1 (nb_addr n) = Some s'"
    using assms(2) s1(1) by (auto simp: fnet_netbuf_free_def bind_eq_Some_conv)
  from free_netbuf_room [OF s1(2) _ this release_data_room [OF m s1(1) assms(3)]] show ?thesis by simp
qed

lemma free_chain_room:
  "nb_inv owns X s (c @ L) \<Longrightarrow> fnet_netbuf_free_chain A s c = Some s' \<Longrightarrow> room (pool s) k \<Longrightarrow> room (pool s') k"
proof (induction c arbitrary: s)
  case (Cons n c)
  obtain s1 where s1: "\<And>next. fnet_netbuf_free A s (n # next) = Some (s1, next)" "nb_inv owns X s1 (c @ L)"
    using netbuf_free_ok [of X s n "c @ L"] Cons.prems(1) by auto
  have "fnet_netbuf_free_chain A s1 c = Some s'"
    using s1(1) [of "[]"] Cons.prems(2) by (auto simp: fnet_netbuf_free_def bind_eq_Some_conv)
  with Cons.IH [OF s1(2)] netbuf_free_room [OF _ s1(1), of X "c @ L"] Cons.prems show ?case by simp
qed simp

lemma free_rest_room:
  "nb_inv owns X s (c @ L) \<Longrightarrow> free_rest A s c = Some s' \<Longrightarrow> room (pool s) k \<Longrightarrow> room (pool s') k"
proof (induction c arbitrary: s)
  case (Cons n c)
  obtain s1 where s1: "\<And>next. fnet_netbuf_free A s (n # next) = Some (s1, next)" "nb_inv owns X s1 (c @ L)"
    using netbuf_free_ok [of X s n "c @ L"] Cons.prems(1) by auto
  have "free_rest A s1 c = Some s'" using s1(1) Cons.prems(2) by simp
  with Cons.IH [OF s1(2)] netbuf_free_room [OF _ s1(1), of X "c @ L"] Cons.prems show ?case by simp
qed simp

lemma netbuf_new_room:
  assumes inv: "nb_inv owns X s L" and len: "len + 12 \<le> 4294967296" "0 < k" and r: "room (pool s) (k + 5 + (len + 19) div 8)"
    and new: "fnet_netbuf_new A dr s len drain = Some (s', c)"
  shows "c \<noteq> []" "room (pool s') k" "nbs.more s' = nbs.more s" "fnet_netbuf_new A dr s len False = Some (s', c)"
proof -
  let ?R = "mset (map nb_data L)" and ?D = "set (map nb_addr L) \<union> X"
  have sz: "sizeof_netbuf + 8 \<le> 4294967296" by (simp add: sizeof_netbuf_def)
  note m0 = nb_inv_mem(1) [OF inv]
  obtain s1 a where s1: "fnet_malloc_netbuf A s sizeof_netbuf = Some (s1, a)"
      "a \<noteq> 0 \<Longrightarrow> a \<notin> ?D \<and> a \<notin> dom (bufs s) \<and> mem_ok owns s1 ?R (insert a ?D)"
    by (rule malloc_netbuf_ok [OF m0 sz]) (rule that)
  have "k + 5 + (len + 19) div 8 = k + (len + 19) div 8 + (sizeof_netbuf + 15) div 8" by (simp add: sizeof_netbuf_def)
  with r have "room (pool s) (k + (len + 19) div 8 + (sizeof_netbuf + 15) div 8)" by (simp only:)
  note a = malloc_room [OF m0 sz _ this s1(1)]
  have a0: "a \<noteq> 0" "room (pool s1) (k + (len + 4 + 15) div 8)" using a len(2) by (simp_all add: add.commute)
  have l: "w32 (len + 4) = len + 4" "len + 4 + 8 \<le> 4294967296" using len(1) by simp_all
  have m1: "mem_ok owns s1 ?R (insert a ?D)" using s1(2) a0(1) by simp
  obtain s2 d where s2: "fnet_malloc_netbuf A s1 (len + 4) = Some (s2, d)" by (rule malloc_netbuf_ok [OF m1 l(2)])
  note d = malloc_room [OF m1 l(2) len(2) a0(2) s2]
  have res: "fnet_netbuf_new A dr s len dr' = Some (new_data s2 d len, [\<lparr>nb_addr = a, nb_data = d, nb_off = 0,
      nb_length = len, nb_total_length = len, nb_flags = 0\<rparr>])" for dr'
    using s1(1) a0(1) s2 d(1) l(1) by (simp add: fnet_netbuf_new_def malloc_drain_def)
  then have eq: "s' = new_data s2 d len" "c = [\<lparr>nb_addr = a, nb_data = d, nb_off = 0,
      nb_length = len, nb_total_length = len, nb_flags = 0\<rparr>]" using new by simp_all
  show "c \<noteq> []" "room (pool s') k" using d(2) by (simp_all add: eq new_data_def)
  show "nbs.more s' = nbs.more s"
    using malloc_netbuf_more [OF s1(1)] malloc_netbuf_more [OF s2] by (simp add: eq new_data_def)
  show "fnet_netbuf_new A dr s len False = Some (s', c)" using res by (simp add: eq)
qed

end

lemma write_data_pool: "write_data s d i xs = Some s' \<Longrightarrow> pool s' = pool s"
  by (auto simp: write_data_def bind_eq_Some_conv split: if_splits)

lemma ref_data_pool: "ref_data s d = Some s' \<Longrightarrow> pool s' = pool s"
  by (auto simp: ref_data_def bind_eq_Some_conv)

section \<open>The heap of the stack\<close>

text \<open>The free blocks hang in a ring; \<open>mempool_room\<close> walks it from the block the pool points to.\<close>

definition mempool_room :: "mempool \<Rightarrow> nat \<Rightarrow> bool" where
  "mempool_room p k = (\<exists>i. k \<le> u_size (heap p (((\<lambda>x. u_ptr (heap p x)) ^^ i) (free_ptr p))))"

lemma path_funpow:
  assumes "\<And>x. u_ptr (h x) = f x"
  shows "path h p xs \<Longrightarrow> i < length xs \<Longrightarrow> xs ! i = (f ^^ Suc i) p"
proof (induction xs arbitrary: p i)
  case (Cons x xs)
  then show ?case using assms by (cases i) (simp_all add: funpow_swap1)
qed simp

lemma mempool_room_iff:
  assumes "rep p a ts"
  shows "mempool_room p k \<longleftrightarrow> (\<exists>n. Free n \<in> set ts \<and> k \<le> n)"
proof
  let ?F = "frees (unit_size p) a ts" and ?next = "\<lambda>x. u_ptr (heap p x)"
  note R = repD [OF assms]
  assume "mempool_room p k"
  then obtain i where i: "k \<le> u_size (heap p ((?next ^^ i) (free_ptr p)))" by (auto simp: mempool_room_def)
  have "(?next ^^ i) (free_ptr p) \<in> set ?F" by (induction i) (use R(9) ring_next_in [OF R(8)] in auto)
  from size_at_free [OF this R(7)] i show "\<exists>n. Free n \<in> set ts \<and> k \<le> n" by blast
next
  let ?F = "frees (unit_size p) a ts" and ?next = "\<lambda>x. u_ptr (heap p x)"
  note R = repD [OF assms]
  assume "\<exists>n. Free n \<in> set ts \<and> k \<le> n"
  then obtain x where x: "x \<in> set ?F" "k \<le> u_size (heap p x)" using frees_at [OF _ R(7)] by blast
  obtain l r where lr: "?F = l @ free_ptr p # r" using split_list [OF R(9)] by blast
  have "ring (heap p) ((free_ptr p # r) @ l)" using R(8) ring_rotate [of _ l "free_ptr p # r"] by (simp add: lr)
  then have path: "path (heap p) (free_ptr p) (r @ l)" by (simp add: ring_Cons)
  have "\<exists>i. x = (?next ^^ i) (free_ptr p)"
  proof (cases "x = free_ptr p")
    case True
    then show ?thesis by (intro exI [of _ 0]) simp
  next
    case False
    then have "x \<in> set (r @ l)" using x(1) by (auto simp: lr)
    then obtain i where "i < length (r @ l)" "(r @ l) ! i = x" by (auto simp only: in_set_conv_nth)
    with path_funpow [OF refl path] show ?thesis by metis
  qed
  then show "mempool_room p k" using x(2) by (auto simp: mempool_room_def)
qed

lemma tiles_malloc_room:
  assumes "tiles_malloc j ts ts' i" "Free n \<in> set ts" "k + j \<le> n" "0 < k"
  shows "\<exists>m. Free m \<in> set ts' \<and> k \<le> m"
  using assms
proof (cases rule: tiles_malloc.cases)
  case (split_block m l r)
  then have "Free n \<in> set (l @ r) \<or> n = m" using assms(2) by auto
  then show ?thesis
  proof
    assume "n = m"
    then show ?thesis using split_block(2) assms(3) by (intro exI [of _ "m - j"]) auto
  qed (use split_block(2) assms(3) in auto)
next
  case (whole_block l r)
  then have "Free n \<in> set (l @ r)" using assms(2-4) by auto
  then show ?thesis using whole_block(2) assms(3) by auto
qed

lemma join_right_room: "Free n \<in> set r \<Longrightarrow> \<exists>m. Free m \<in> set (join_right k r) \<and> n \<le> m"
  by (cases "(k, r)" rule: join_right.cases) auto

lemma tiles_free_room:
  assumes "Free n \<in> set (l @ r)"
  shows "\<exists>m. Free m \<in> set (tiles_free l k r) \<and> n \<le> m"
proof (cases "l \<noteq> [] \<and> is_free (last l)")
  case True
  then obtain l' m where l: "l = l' @ [Free m]" using last_free by blast
  have "\<exists>i. Free (m + k + i) \<in> set (join_right (m + k) r)" by (cases "(k, r)" rule: join_right.cases) auto
  then show ?thesis using assms join_right_room [of n r "m + k"] by (auto simp: l tiles_free_def intro: le_add1 exI trans_le_add1)
next
  case False
  then show ?thesis using assms join_right_room [of n r k] unfolding tiles_free_def if_not_P [OF False] by auto
qed

interpretation heap: roomy_allocator main_pool "mempool_owns b N" mempool_room for b N
proof unfold_locales
  fix p H n k p' a
  assume o: "mempool_owns b N p H" and n: "n + 8 \<le> 4294967296" "0 < k" "mempool_room p (k + (n + 15) div 8)"
    and m: "a_malloc main_pool p n = Some (p', a)"
  obtain ts where ts: "rep p b ts" "unit_size p = 8" using o by (auto simp: mempool_owns_def pool_inv_def)
  have k: "nunits_of 8 n = (n + 15) div 8" using nunits_of_eq [of 8 n] n(1) by simp
  obtain f where f: "Free f \<in> set ts" "k + (n + 15) div 8 \<le> f" using n(3) mempool_room_iff [OF ts(1)] by blast
  then have can: "can_alloc ((n + 15) div 8) ts" using n(2) by (force simp: can_alloc_def)
  have "0 < (n + 15) div 8" by simp
  with malloc_refines [OF ts(1) refl, of n] can m obtain ts' i where
    t: "a = b + (i + 1) * 8" "tiles_malloc ((n + 15) div 8) ts ts' i" "rep p' b ts'" by (auto simp: ts(2) k)
  have "\<exists>j. Free j \<in> set ts' \<and> k \<le> j" by (rule tiles_malloc_room [OF t(2) f n(2)])
  then show "a \<noteq> 0 \<and> mempool_room p' k" using t(1) mempool_room_iff [OF t(3)] by simp
next
  fix p k j
  assume "mempool_room p k" "j \<le> k"
  then show "mempool_room p j" unfolding mempool_room_def by (meson le_trans)
next
  fix p H a p' k
  assume o: "mempool_owns b N p H" "a \<in> H" and f: "a_free main_pool p a = Some p'" and r: "mempool_room p k"
  obtain B where B: "pool_inv 8 b N (p, B)" "dom B = H" using o(1) by (auto simp: mempool_owns_def)
  then obtain ts where ts: "rep p b ts" "unit_size p = 8" "dom B = fst ` set (useds 8 b ts)" by (auto simp: pool_inv_def)
  then have "a \<in> fst ` set (useds 8 b ts)" using o(2) B(2) by simp
  then obtain m where "(a, m) \<in> set (useds 8 b ts)" by auto
  then obtain l j r' where t: "ts = l @ Used j # r'" "a = b + units l * 8 + 8" by (rule useds_split)
  have "fnet_mempool_free p a = Some p'" "rep p' b (tiles_free l j r')"
    using free_refines [OF ts(1) [unfolded t(1)] refl] f t(2) ts(2) by auto
  moreover obtain n where "Free n \<in> set (l @ r')" "k \<le> n" using r mempool_room_iff [OF ts(1)] t(1) by auto
  ultimately show "mempool_room p' k"
    using tiles_free_room [of n l r' j] mempool_room_iff [of p' b "tiles_free l j r'"] by (meson le_trans)
qed

lemma malloc_max_room:
  assumes "mempool_owns a N p B" "fnet_mempool_malloc_max p = Some free" "8 * k \<le> free"
  shows "mempool_room p k"
proof -
  obtain ts where ts: "rep p a ts" "unit_size p = 8" using assms(1) by (auto simp: mempool_owns_def pool_inv_def)
  from malloc_max_eq [OF ts(1)] obtain m where m: "Free m \<in> set ts"
    "fnet_mempool_malloc_max p = Some ((m - 1 - (if length (filter is_free ts) = 1 then 1 else 0)) * unit_size p)" by blast
  then have "8 * k \<le> (m - 1 - (if length (filter is_free ts) = 1 then 1 else 0)) * 8" using assms(2,3) ts(2) by simp
  then have "k \<le> m" by (simp split: if_splits)
  then show ?thesis using m(1) mempool_room_iff [OF ts(1)] by blast
qed

end
