(* ===== verification/Fnet_Arp_Main.thy ===== *)
theory Fnet_Arp_Main
  imports Fnet_Arp Fnet_Netbuf_Room
begin

text \<open>
  The operations of the ARP cache keep its invariant, and what they do to the cache and send.
  The properties are about the memory pool of the stack, by the interpretation \<open>main\<close>.
\<close>

unbundle bit_operations_syntax

section \<open>The header as bytes\<close>

lemma length_store [simp]: "length (store16 v) = 2" "length (store32 w) = 4"
  by (simp_all add: store16_def store32_def)

lemma load_store16 [simp]: "load16l (store16 v) = v"
proof -
  have "unat (ucast v :: u8) = unat v mod 256" "unat (ucast (drop_bit 8 v) :: u8) = unat v div 256 mod 256"
    by (simp_all add: unsigned_ucast_eq take_bit_eq_mod unat_drop_bit_div)
  moreover have "unat v div 256 < 256" using word16_lt_65536 [of v] by (simp add: less_mult_imp_div_less)
  ultimately have "unat (load16l (store16 v)) = unat v"
    by (simp add: load16l_def store16_def unat_load16 mod_mult_div_eq [of "unat v" 256] add.commute)
  then show ?thesis by (rule word_unat_eq_iff [THEN iffD2])
qed

lemma store_load16 [simp]: "length xs = 2 \<Longrightarrow> store16 (load16l xs) = xs"
proof -
  assume "length xs = 2"
  then obtain a b where xs: "xs = [a, b]" by (auto simp: numeral_2_eq_2 length_Suc_conv)
  have "ucast (load16 a b) = a"
    by (rule bit_word_eqI) (auto simp: load16_def bit_simps)
  moreover have "ucast (drop_bit 8 (load16 a b)) = b"
    by (rule bit_word_eqI) (auto simp: load16_def bit_simps dest: bit_imp_le_length)
  ultimately show ?thesis by (simp add: xs load16l_def store16_def)
qed

lemma load_store32 [simp]: "load32 (store32 v) = v"
proof (rule bit_word_eqI)
  fix n :: nat
  assume "n < LENGTH(32)"
  then consider "n < 8" | "8 \<le> n" "n < 16" | "16 \<le> n" "n < 24" | "24 \<le> n" "n < 32" by fastforce
  then show "bit (load32 (store32 v)) n = bit v n"
    unfolding load32_def store32_def
    by cases (simp_all add: bit_or_iff bit_push_bit_iff bit_unsigned_iff bit_drop_bit_eq less_diff_conv2)
qed

lemma store_load32 [simp]: "length xs = 4 \<Longrightarrow> store32 (load32 xs) = xs"
proof -
  assume "length xs = 4"
  then obtain a b c d where xs: "xs = [a, b, c, d]" by (auto simp: eval_nat_numeral length_Suc_conv)
  have "ucast (load32 xs) = a" "ucast (drop_bit 8 (load32 xs)) = b" "ucast (drop_bit 16 (load32 xs)) = c"
    "ucast (drop_bit 24 (load32 xs)) = d"
    by (rule bit_word_eqI; auto simp: load32_def xs bit_simps dest: bit_imp_le_length)+
  then show ?thesis by (simp add: xs store32_def)
qed

lemma length_arp_bytes:
  "length (sender_hard_addr h) = 6 \<Longrightarrow> length (target_hard_addr h) = 6 \<Longrightarrow> length (arp_bytes h) = 28"
  by (simp add: arp_bytes_def)

lemma arp_of_bytes:
  "length (sender_hard_addr h) = 6 \<Longrightarrow> length (target_hard_addr h) = 6 \<Longrightarrow> arp_of (arp_bytes h) = h"
  by (cases h) (simp add: arp_of_def arp_bytes_def nth_append)

lemma drained_index: "list_all2 drained es es' \<Longrightarrow> prot_index a es' = prot_index a es"
  by (induction rule: list_all2_induct) (auto simp: drained_def)

lemma drained_waiting:
  assumes "list_all2 drained es es'" "prot_index a es = Some i"
  shows "prot_index a es' = Some i \<and> (hold (es' ! i) = hold (es ! i) \<or> hold (es' ! i) = [])"
  using assms drained_index [OF assms(1), of a] prot_index_SomeD [OF assms(2)]
  by (auto simp: list_all2_conv_all_nth drained_def)

lemma waiting_reads [simp]: "waiting (s\<lparr>reads := r\<rparr>) ip = waiting s ip"
  by (simp add: waiting_def split: option.split)

lemma bytes_at_reads [simp]: "bytes_at (s\<lparr>reads := r\<rparr>) d = bytes_at s d"
  by (simp add: bytes_at_def)

text \<open>A request from \<open>mac\<close> and \<open>ip\<close> for the address \<open>target\<close>.\<close>

definition arp_request :: "u8 list \<Rightarrow> u32 \<Rightarrow> u32 \<Rightarrow> arp_header" where
  "arp_request mac ip target =
     \<lparr>hard_type = fnet_htons 1, prot_type = fnet_htons FNET_ETH_TYPE_IP4, hard_size = 6, prot_size = 4,
      op = fnet_htons 1, sender_hard_addr = mac, sender_prot_addr = ip,
      target_hard_addr = fnet_eth_null_addr, targer_prot_addr = target\<rparr>"

section \<open>The frame in the transmit buffer\<close>

text \<open>
  What the driver makes of an IPv4 packet: it clears the checksum of ICMP, UDP or TCP behind the header
  of a packet that is not a fragment, if the packet's flag for a checksum by the controller is not set.
\<close>

definition clear_protocol_checksum :: "u8 list \<Rightarrow> u8 list" where
  "clear_protocol_checksum p =
     (let hl = 4 * unat (p ! 0 AND 0x0F);
          clear = (\<lambda>i. p[hl + i := 0, hl + i + 1 := 0])
      in if load16l (take 2 (drop 6 p)) AND NOT (fnet_htons 0x4000) \<noteq> 0 then p
         else if p ! 9 = 1 then clear 2
         else if p ! 9 = 17 then clear 6
         else if p ! 9 = 6 then clear 16
         else p)"

definition on_wire :: "u32 \<Rightarrow> u8 list \<Rightarrow> u8 list" where
  "on_wire flags p = (if flags AND FNET_NETBUF_FLAG_HW_PROTOCOL_CHECKSUM = 0 then clear_protocol_checksum p else p)"

lemma frame_nth:
  assumes "length dest = 6" "nt_hw b = Some mac" "length mac = 6"
  shows "length (eth_frame b ty dest xs) = 14 + length xs"
    and "eth_frame b ty dest xs ! (14 + i) = xs ! i"
    and "load16l [eth_frame b ty dest xs ! 12, eth_frame b ty dest xs ! 13] = fnet_htons ty"
proof -
  define T where "T = store16 (fnet_htons ty)"
  have f: "eth_frame b ty dest xs = (dest @ mac) @ T @ xs" and T: "length T = 2"
    using assms(2) by (simp_all add: eth_frame_def T_def)
  show "length (eth_frame b ty dest xs) = 14 + length xs" "eth_frame b ty dest xs ! (14 + i) = xs ! i"
    unfolding f using assms(1,3) T by (simp_all add: nth_append)
  have "[eth_frame b ty dest xs ! 12, eth_frame b ty dest xs ! 13] = T"
    unfolding f using assms(1,3) T by (cases T) (auto simp: nth_append length_Suc_conv)
  then show "load16l [eth_frame b ty dest xs ! 12, eth_frame b ty dest xs ! 13] = fnet_htons ty"
    by (simp add: T_def)
qed

lemma frame_map:
  assumes "length f = n" "\<And>i. i < n \<Longrightarrow> g i = f ! i"
  shows "map g [0..<n] = f"
  by (rule nth_equalityI) (use assms in simp_all)

lemma tx_frame_other:
  assumes "length dest = 6" "nt_hw b = Some mac" "length mac = 6"
    and "fnet_htons ty \<noteq> fnet_htons FNET_ETH_TYPE_IP4" "fnet_htons ty \<noteq> fnet_htons FNET_ETH_TYPE_IP6"
  shows "tx_frame b k fl (eth_frame b ty dest xs) = eth_frame b ty dest xs"
proof -
  note F = frame_nth [OF assms(1-3), of ty xs]
  let ?f = "eth_frame b ty dest xs"
  define buf where "buf i = (if i < length ?f then ?f ! i else nt_stale b k i)" for i
  have "load16l [buf 12, buf 13] = fnet_htons ty" using F(1,3) by (simp add: buf_def)
  then have "fnet_fec_checksum_clear buf (length ?f) = buf"
    using assms(4,5) by (simp add: fnet_fec_checksum_clear_def)
  then show ?thesis unfolding tx_frame_def Let_def buf_def [abs_def, symmetric]
    by (intro frame_map) (simp_all add: buf_def)
qed

lemma htons_types:
  "fnet_htons FNET_ETH_TYPE_ARP \<noteq> fnet_htons FNET_ETH_TYPE_IP4" "fnet_htons FNET_ETH_TYPE_ARP \<noteq> fnet_htons FNET_ETH_TYPE_IP6"
  "fnet_htons FNET_ETH_TYPE_RESERVED \<noteq> fnet_htons FNET_ETH_TYPE_IP4"
  "fnet_htons FNET_ETH_TYPE_RESERVED \<noteq> fnet_htons FNET_ETH_TYPE_IP6"
  by code_simp+

lemma tx_frame_ip4:
  assumes "length dest = 6" "nt_hw b = Some mac" "length mac = 6" "10 \<le> length p"
  shows "tx_frame b k fl (eth_frame b FNET_ETH_TYPE_IP4 dest p) = eth_frame b FNET_ETH_TYPE_IP4 dest (on_wire fl p)"
proof -
  let ?f = "\<lambda>p. eth_frame b FNET_ETH_TYPE_IP4 dest p"
  note F = frame_nth [OF assms(1-3), of FNET_ETH_TYPE_IP4]
  define buf where "buf i = (if i < length (?f p) then ?f p ! i else nt_stale b k i)" for i
  define hl where "hl = 4 * unat (p ! 0 AND 0x0F)"
  have at: "buf (14 + i) = p ! i" if "i < length p" for i using that F(1,2) by (simp add: buf_def)
  have v: "load16l [buf 12, buf 13] = fnet_htons FNET_ETH_TYPE_IP4" "buf 14 = p ! 0" "buf 20 = p ! 6" "buf 21 = p ! 7"
    "buf 23 = p ! 9"
    using F(1,3) at [of 0] at [of 6] at [of 7] at [of 9] assms(4) by (cases p; simp add: buf_def)+
  have two: "take 2 (drop 6 p) = [p ! 6, p ! 7]"
    using assms(4) by (simp add: take_Suc_conv_app_nth numeral_2_eq_2)
  have upd: "map (clear16 (14 + (hl + i)) buf) [0..<length (?f p)] = ?f (p[hl + i := 0, hl + i + 1 := 0])" for i
  proof (rule nth_equalityI)
    fix j
    assume j: "j < length (map (clear16 (14 + (hl + i)) buf) [0..<length (?f p)])"
    then have len: "j < length (?f p)" by simp
    show "map (clear16 (14 + (hl + i)) buf) [0..<length (?f p)] ! j = ?f (p[hl + i := 0, hl + i + 1 := 0]) ! j"
    proof (cases "j < 14")
      case True
      have "?f q ! j = (dest @ mac @ store16 (fnet_htons FNET_ETH_TYPE_IP4)) ! j" for q
        using True assms(1-3) by (simp add: eth_frame_def nth_append)
      then show ?thesis using True len by (simp add: clear16_def buf_def)
    next
      case False
      then obtain m where m: "j = 14 + m" "m < length p" using len F(1) by (metis add_less_cancel_left le_add_diff_inverse not_le)
      show ?thesis using len at [OF m(2)] m(2) unfolding m(1) F(2)
        by (auto simp: clear16_def nth_list_update)
    qed
  qed (simp add: F(1))
  have same: "map buf [0..<length (?f p)] = ?f p" by (rule frame_map) (simp_all add: buf_def)
  have far: "p[hl + i := 0, hl + i + 1 := 0] = p" if "\<not> hl + i + 4 \<le> 14 + length p" for i
    using that by (simp add: list_update_beyond)
  have "map (fnet_fec_checksum_clear buf (length (?f p))) [0..<length (?f p)] = ?f (clear_protocol_checksum p)"
    using assms(4) v upd [of 2] upd [of 6] upd [of 16] same far [of 6] far [of 2] far [of 16]
    unfolding fnet_fec_checksum_clear_def clear_protocol_checksum_def hl_def [symmetric] two
    by (auto simp: Let_def F(1) hl_def mult.commute add.assoc list_update_beyond)
  then show ?thesis using same by (simp add: tx_frame_def on_wire_def buf_def [abs_def])
qed

section \<open>What an ARP packet asks for\<close>

lemma memcmp_eq: "length xs = n \<Longrightarrow> length ys = n \<Longrightarrow> fnet_memcmp xs ys n = Some 0 \<longleftrightarrow> xs = ys"
proof (induction n arbitrary: xs ys)
  case (Suc n)
  then obtain x xs' y ys' where "xs = x # xs'" "ys = y # ys'" "length xs' = n" "length ys' = n"
    by (metis length_Suc_conv)
  moreover have "int (unat x) - int (unat y) = 0 \<longleftrightarrow> x = y" for x y :: u8
    using word_uint_eq_iff [of x y] by simp
  ultimately show ?case using Suc.IH [of xs' ys'] by (simp add: Let_def)
qed simp

definition arp_accepts :: "'p net_board \<Rightarrow> arp_header \<Rightarrow> bool" where
  "arp_accepts b h =
     (hard_type h = fnet_htons 1 \<and> hard_size h = 6 \<and> prot_type h = fnet_htons FNET_ETH_TYPE_IP4 \<and> prot_size h = 4
      \<and> sender_hard_addr h \<noteq> the (nt_hw b) \<and> sender_hard_addr h \<noteq> fnet_eth_broadcast)"

definition arp_asks :: "u32 \<Rightarrow> arp_header \<Rightarrow> bool" where
  "arp_asks ip h = (op h = fnet_htons 1 \<and> targer_prot_addr h = ip)"

definition arp_reply :: "u8 list \<Rightarrow> u32 \<Rightarrow> arp_header \<Rightarrow> arp_header" where
  "arp_reply mac ip h =
     h\<lparr>op := fnet_htons 2, target_hard_addr := sender_hard_addr h, sender_hard_addr := mac,
       targer_prot_addr := sender_prot_addr h, sender_prot_addr := ip\<rparr>"

lemma arp_of_lengths:
  "length xs = 28 \<Longrightarrow> length (sender_hard_addr (arp_of xs)) = 6 \<and> length (target_hard_addr (arp_of xs)) = 6"
  by (simp add: arp_of_def)

lemma trim_single:
  assumes "nb_length n = nb_total_length n" "28 < nb_total_length n" "nb_total_length n < 2147483648"
  shows "fnet_netbuf_trim A s [n] (int sizeof_arp_header - int (nb_total_length n))
    = Some (s, [n\<lparr>nb_length := 28, nb_total_length := 28\<rparr>])"
  using assms
proof -
  have k: "int sizeof_arp_header - int (nb_total_length n) = - int (nb_total_length n - 28)"
    using assms(2) by (simp add: sizeof_arp_header_def)
  have small: "i32 (28 - int (nb_total_length n)) = 28 - int (nb_total_length n)" "i32 28 = 28"
    using assms(2,3) by (simp_all add: i32_id)
  show ?thesis using assms small
    by (auto simp: fnet_netbuf_trim_def Let_def set_total_def sizeof_arp_header_def)
qed

lemma trim_header:
  assumes "nb_length n = nb_total_length n" "28 \<le> nb_length n" "nb_length n < 2147483648"
  shows "(if nb_total_length n > sizeof_arp_header
      then fnet_netbuf_trim A s [n] (int sizeof_arp_header - int (nb_total_length n))
      else Some (s, [n])) = Some (s, [n\<lparr>nb_length := 28, nb_total_length := 28\<rparr>])"
proof (cases "28 < nb_total_length n")
  case True
  then show ?thesis using trim_single [OF assms(1) True] assms(1,3) by (simp add: sizeof_arp_header_def)
next
  case False
  then have "n = n\<lparr>nb_length := 28, nb_total_length := 28\<rparr>" using assms by (cases n) simp
  then show ?thesis using False by (simp add: sizeof_arp_header_def)
qed

text \<open>Whatever the length wraps to, the trim only changes the view.\<close>

lemma trim_keeps:
  assumes "nb_length n = nb_total_length n" "28 < nb_total_length n"
  shows "\<exists>c. fnet_netbuf_trim A s [n] (int sizeof_arp_header - int (nb_total_length n)) = Some (s, c)"
proof -
  define t where "t = nb_total_length n"
  define v where "v = i32 (28 - int t)"
  have wrap: "i32 (i32 a + b) = i32 (a + b)" "i32 (a + i32 b) = i32 (a + b)" for a b
    by (simp_all add: i32_def algebra_simps mod_simps)
  have i32_mod: "i32 a mod 4294967296 = a mod 4294967296" for a
    by (simp add: i32_def mod_diff_left_eq)
  have "(int t + v) mod 4294967296 = (int t + v mod 4294967296) mod 4294967296" by (simp add: mod_add_right_eq)
  also have "\<dots> = (int t + (28 - int t)) mod 4294967296" unfolding v_def i32_mod by (simp add: mod_add_right_eq)
  finally have m: "(int t + v) mod 4294967296 = 28" by simp
  have goal: "i32 (i32 (int t) + v) = 28" unfolding v_def wrap by (simp add: i32_id)
  have vv: "i32 v = v" "v < 2147483648" unfolding v_def i32_def by simp_all
  have pos: "\<not> t \<le> nat v" if "0 < v"
  proof
    assume le: "t \<le> nat v"
    then have "t < 2147483648" using vv(2) by simp
    then have "v = 28 - int t" unfolding v_def by (intro i32_id) simp_all
    then show False using that assms(2) by (simp add: t_def)
  qed
  show ?thesis
    using pos goal m vv assms(1)
    by (auto simp: fnet_netbuf_trim_def Let_def sizeof_arp_header_def set_total_def simp flip: t_def v_def)
qed

text \<open>One entry at time \<open>now\<close> of the aging timer, and what can become of it at any time.\<close>

definition age :: "nat \<Rightarrow> arp_entry \<Rightarrow> arp_entry" where
  "age now e = (if prot_addr e \<noteq> 0 \<and> elapsed now (cr_time_ms e) > 1200000 then zero_entry else e)"

definition aged :: "arp_entry \<Rightarrow> arp_entry \<Rightarrow> bool" where
  "aged e e' = (e' = e \<or> e' = zero_entry)"

lemma aged_table_ok: "list_all2 aged es es' \<Longrightarrow> arp_table_ok es \<Longrightarrow> arp_table_ok es'"
proof -
  assume d: "list_all2 aged es es'" "arp_table_ok es"
  let ?f = "\<lambda>es. filter (\<lambda>a. a \<noteq> 0) (map prot_addr es)"
  from d(1) have "set (?f es') \<subseteq> set (?f es) \<and> (distinct (?f es) \<longrightarrow> distinct (?f es'))"
    by (induction rule: list_all2_induct) (auto simp: aged_def zero_entry_def)
  moreover have "\<forall>e\<in>set es'. e \<in> set es \<or> e = zero_entry"
    using d(1) by (induction rule: list_all2_induct) (auto simp: aged_def)
  moreover have "length es' = length es" using d(1) by (rule list_all2_lengthD [symmetric])
  ultimately show ?thesis
    using d(2) by (auto simp: arp_table_ok_def zero_entry_def fnet_eth_null_addr_def total_ok_def)
qed

section \<open>The operations\<close>

context block_allocator
begin

lemma arp_drain_ok:
  assumes "arp_inv owns X s L" "board_ok A owns b"
  shows "\<exists>s'. fnet_prot_drain b s = Some s' \<and> arp_inv owns X s' L \<and> same_bytes s s' L \<and> drained_from s s'"
proof -
  have "nb_inv owns (X \<union> blocks_more (nbs.more s)) s (L @ held_more (nbs.more s)) \<and> X \<inter> blocks_more (nbs.more s) = {}"
    using arp_invD [OF assms(1)] by simp
  then obtain s' where s': "fnet_prot_drain b s = Some s'"
      "nb_inv owns (X \<union> blocks_more (nbs.more s')) s' (L @ held_more (nbs.more s'))"
      "same_bytes s s' L" "drained_more (nbs.more s) (nbs.more s')" "blocks_more (nbs.more s') \<subseteq> blocks_more (nbs.more s)"
    using prot_drain_ok [OF assms(2), of L] unfolding drain_ok_def by blast
  have "net_inv owns X s' L" using s'(2,5) arp_invD(3) [OF assms(1)] by (auto simp: net_inv_def)
  then have "arp_inv owns X s' L"
    using s'(4) arp_invD(4) [OF assms(1)] by (intro drained_arp_inv [of s s']) simp_all
  with s' show ?thesis by auto
qed

lemma send_request_ok:
  assumes "arp_inv owns X s L" "board_ok A owns b"
  shows "\<exists>s' out p. fnet_arp_send_request b s ip = Some s' \<and> arp_inv owns X s' L \<and> same_bytes s s' L
     \<and> drained_from (s\<lparr>arp_probe_ipaddr := p, sent := sent s @ out\<rparr>) s' \<and> p \<in> {arp_probe_ipaddr s, ip}
     \<and> (out = [] \<or> out = [eth_frame b FNET_ETH_TYPE_ARP fnet_eth_broadcast
          (arp_bytes (arp_request (the (nt_hw b)) (ip4_address s) ip))])"
proof -
  obtain mac where b: "nt_alloc b = A" "nt_mtu b \<le> 65535" "nt_hw b = Some mac" "length mac = 6"
    using assms(2) by (auto simp: board_ok_def)
  note inv = arp_invD(1) [OF assms(1)] and tbl = arp_invD(4) [OF assms(1)]
  have sz: "sizeof_arp_header + 12 \<le> 4294967296" by (simp add: sizeof_arp_header_def)
  obtain s1 c where s1: "fnet_netbuf_new A (fnet_prot_drain b) s sizeof_arp_header True = Some (s1, c)"
      "same_bytes s s1 L" and d1: "drained_from s s1"
    and c: "c = [] \<and> net_inv owns X s1 L
      \<or> (\<exists>n. c = [n] \<and> net_inv owns X s1 (n # L) \<and> nb_length n = sizeof_arp_header
           \<and> nb_total_length n = sizeof_arp_header \<and> nb_off n = 0
           \<and> nb_data n \<notin> nb_data ` set (L @ held s1) \<and> length (bytes_at s1 (nb_data n)) = sizeof_arp_header)"
    by (rule net_new_ok [OF inv sz assms(2)]) (rule that)
  from c show ?thesis
  proof (elim disjE exE conjE)
    assume "c = []" "net_inv owns X s1 L"
    moreover from this have "arp_inv owns X s1 L" using d1 tbl by (intro drained_arp_inv [of s s1]) simp_all
    ultimately show ?thesis
      using s1(1,2) d1 b(1)
      by (rule_tac exI [of _ s1], rule_tac exI [of _ "[]"], rule_tac exI [of _ "arp_probe_ipaddr s"])
        (simp add: fnet_arp_send_request_def)
  next
    fix n
    assume n: "c = [n]" "net_inv owns X s1 (n # L)" "nb_length n = sizeof_arp_header"
      "nb_total_length n = sizeof_arp_header" "nb_off n = 0" "nb_data n \<notin> nb_data ` set (L @ held s1)"
      "length (bytes_at s1 (nb_data n)) = sizeof_arp_header"
    let ?h1 = "store16 (fnet_htons 1) @ store16 (fnet_htons FNET_ETH_TYPE_IP4) @ [6, 4] @ store16 (fnet_htons 1)"
    let ?h2 = "mac @ store32 (ip4_address s) @ fnet_eth_null_addr @ store32 ip"
    have l: "length ?h1 = 8" "length ?h2 = 20" using b(4) by (simp_all add: fnet_eth_null_addr_def)
    note sd = sizeof_arp_header_def
    let ?Y = "X \<union> set (other_blocks s1)"
    have n2: "nb_inv owns ?Y s1 (n # L @ held s1)" using net_invD(1) [OF n(2)] by simp
    from write_own_ok [OF n2 n(6), of 0 ?h1] l(1) n(7) obtain s2 where
      s2: "write_data s1 (nb_data n) 0 ?h1 = Some s2" "nb_inv owns ?Y s2 (n # L @ held s1)"
        "same_bytes s1 s2 (L @ held s1)" "bytes_at s2 (nb_data n) = ?h1 @ drop 8 (bytes_at s1 (nb_data n))"
        "nbs.more s2 = nbs.more s1" by (auto simp: sd)
    from write_own_ok [OF s2(2) n(6), of 8 ?h2] l n(7) s2(4) obtain s3 where
      s3: "write_data s2 (nb_data n) 8 ?h2 = Some s3" "nb_inv owns ?Y s3 (n # L @ held s1)"
        "same_bytes s2 s3 (L @ held s1)" "bytes_at s3 (nb_data n) = ?h1 @ ?h2"
        "nbs.more s3 = nbs.more s2" by (auto simp: sd)
    define p where "p = (if ip4_address s = 0 then ip else arp_probe_ipaddr s)"
    let ?s3 = "s3\<lparr>arp_probe_ipaddr := p\<rparr>"
    have m3: "nbs.more s3 = nbs.more s1" using s3(5) s2(5) by (rule trans)
    have p3: "ip4_address s3 = ip4_address s" "arp_probe_ipaddr s3 = arp_probe_ipaddr s" "sent s3 = sent s"
      using m3 drained_fromD [OF d1] by (cases s1; cases s3; simp)+
    have set_probe: "(if ip4_address s3 = 0 then s3\<lparr>arp_probe_ipaddr := ip\<rparr> else s3) = ?s3"
      using p3 by (cases s3) (simp add: p_def)
    have "chain_bytes s3 [n] = ?h1 @ ?h2" using s3(4) l n(3,5) by (simp add: nb_bytes_def sd)
    moreover have "?h1 @ ?h2 = arp_bytes (arp_request mac (ip4_address s) ip)"
      by (simp add: arp_bytes_def arp_request_def)
    moreover have sm: "same_mem s3 ?s3" by simp
    ultimately have bytes: "chain_bytes ?s3 [n] = arp_bytes (arp_request mac (ip4_address s) ip)"
      unfolding same_mem_bytes [OF sm] by (simp only:)
    have "net_inv owns X ?s3 ([n] @ L)"
      by (rule net_inv_keep [OF n(2)]) (use s3(2) same_mem_inv [OF sm, of owns ?Y] more_table [OF m3] in simp_all)
    moreover have "total_ok [n]" using n(3,4) by (simp add: total_ok_def)
    moreover have bc: "length fnet_eth_broadcast = 6" by (simp add: fnet_eth_broadcast_def)
    moreover have tx: "eth_tx b ?s3 FNET_ETH_TYPE_ARP fnet_eth_broadcast [n]
        = eth_frame b FNET_ETH_TYPE_ARP fnet_eth_broadcast (chain_bytes ?s3 [n])"
      unfolding eth_tx_def by (rule tx_frame_other [OF bc b(3,4) htons_types(1,2)])
    ultimately obtain s4 out where
      s4: "fnet_eth_output b ?s3 FNET_ETH_TYPE_ARP fnet_eth_broadcast [n] = Some s4"
        "net_inv owns X s4 L" "same_bytes ?s3 s4 L"
        "drained_from (?s3\<lparr>sent := sent ?s3 @ out\<rparr>) s4"
        "out = [] \<or> out = [eth_frame b FNET_ETH_TYPE_ARP fnet_eth_broadcast (chain_bytes ?s3 [n])]"
      using eth_output_ok [OF _ _ assms(2)] tx by metis
    have "fnet_arp_send_request b s ip = Some s4"
    proof -
      have "ip4_address s2 = ip4_address s" using p3(1) s3(5) by (cases s2; cases s3; simp)
      then show ?thesis
        using s1(1) n(1,5) s2(1) s3(1) s4(1) b(1,3) set_probe by (simp add: fnet_arp_send_request_def Let_def)
    qed
    moreover have d4: "drained_from (s\<lparr>arp_probe_ipaddr := p, sent := sent s @ out\<rparr>) s4"
    proof (rule drained_from_trans [OF _ s4(4)])
      show "drained_from (s\<lparr>arp_probe_ipaddr := p, sent := sent s @ out\<rparr>) (?s3\<lparr>sent := sent ?s3 @ out\<rparr>)"
        using d1 m3 by (cases s; cases s1; cases s3) (auto simp: drained_from_def)
    qed
    moreover have "arp_inv owns X s4 L" using tbl by (intro drained_arp_inv [OF d4 _ s4(2)]) simp
    moreover have "same_bytes s s4 L"
      using s1(2) s2(3) s3(3) s4(3) by (simp add: same_bytes_def bytes_at_def)
    moreover have "p \<in> {arp_probe_ipaddr s, ip}" by (simp add: p_def)
    ultimately show ?thesis
      using s4(5) bytes b(3)
      by (rule_tac exI [of _ s4], rule_tac exI [of _ out], rule_tac exI [of _ p]) simp
  qed
qed

lemma held_swap:
  "i < length es \<Longrightarrow> nb_inv owns X s (L @ arp_held es) = nb_inv owns X s (L @ hold (es ! i) @ held_others i es)"
  by (rule nb_inv_perm) (simp add: mset_held)

lemma resolve_ok:
  assumes "arp_inv owns X s (nb @ L)" "total_ok nb" "board_ok A owns b"
  shows "\<exists>s'. fnet_arp_resolve b s ip nb = Some s' \<and> arp_inv owns X s' L \<and> same_bytes s s' L
     \<and> (\<exists>i. prot_index ip (arp_table s') = Some i) \<and> (waiting s' ip = nb \<or> waiting s' ip = [])
     \<and> set (held s') \<subseteq> set (nb @ held s) \<and> set (other_blocks s') \<subseteq> set (other_blocks s)"
proof -
  have al: "nt_alloc b = A" using assms(3) by (simp add: board_ok_def)
  have "\<exists>s1 i created. (case prot_index ip (arp_table s) of
            Some i \<Rightarrow> Some (s, i, False)
          | None \<Rightarrow> do { (s, i) \<leftarrow> fnet_arp_add_entry b s ip fnet_eth_null_addr; Some (s, i, True) }) = Some (s1, i, created)
      \<and> arp_inv owns X s1 (nb @ L) \<and> same_bytes s s1 (nb @ L) \<and> prot_index ip (arp_table s1) = Some i
      \<and> set (held s1) \<subseteq> set (held s) \<and> other_blocks s1 = other_blocks s"
  proof (cases "prot_index ip (arp_table s)")
    case (Some i)
    then show ?thesis
      using assms(1) by (intro exI [of _ s], intro exI [of _ i], intro exI [of _ False]) simp
  next
    case None
    have "length fnet_eth_null_addr = 6" by (simp add: fnet_eth_null_addr_def)
    from add_entry_ok [OF assms(1) this al, of ip] obtain s1 i where
      "fnet_arp_add_entry b s ip fnet_eth_null_addr = Some (s1, i)" "arp_inv owns X s1 (nb @ L)"
      "same_bytes s s1 (nb @ L)" "prot_index ip (arp_table s1) = Some i"
      "set (held s1) \<subseteq> set (held s)" "other_blocks s1 = other_blocks s" using only_tableD(8) by blast
    with None show ?thesis by (intro exI [of _ s1], intro exI [of _ i], intro exI [of _ True]) simp
  qed
  then obtain s1 i created where s1: "(case prot_index ip (arp_table s) of
            Some i \<Rightarrow> Some (s, i, False)
          | None \<Rightarrow> do { (s, i) \<leftarrow> fnet_arp_add_entry b s ip fnet_eth_null_addr; Some (s, i, True) }) = Some (s1, i, created)"
      "arp_inv owns X s1 (nb @ L)" "same_bytes s s1 (nb @ L)" "prot_index ip (arp_table s1) = Some i"
      "set (held s1) \<subseteq> set (held s)" "other_blocks s1 = other_blocks s" by blast
  have i: "i < length (arp_table s1)" "prot_addr (arp_table s1 ! i) = ip"
    using prot_index_SomeD [OF s1(4)] by simp_all
  obtain r req where s2: "(if created then (s1, True)
      else if hold (arp_table s1 ! i) \<noteq> []
      then (case arp_get_ms b s1 of (now, s) \<Rightarrow> (s, elapsed now (hold_time_ms (arp_table s ! i)) > 1000))
      else (s1, True)) = (s1\<lparr>reads := r\<rparr>, req)"
  proof (cases "created \<or> hold (arp_table s1 ! i) = []")
    case True
    then show ?thesis using that [of "reads s1" True] by (auto split: if_splits)
  next
    case False
    then show ?thesis using that [of "reads s1 + 1"] by (simp add: arp_get_ms_def)
  qed
  let ?s2 = "s1\<lparr>reads := r\<rparr>"
  define Y where "Y = X \<union> set (other_blocks s1)"
  have "cache_inv owns Y s1 (nb @ L)" using s1(2) by (simp add: arp_inv_cache Y_def)
  then have inv2: "nb_inv owns Y ?s2 ((nb @ L) @ held ?s2)" "arp_table_ok (arp_table ?s2)"
    using cache_inv_reads [of owns Y r s1 "nb @ L"] unfolding cache_inv_def by blast+
  obtain s3 e where s3: "(if hold (arp_table ?s2 ! i) \<noteq> []
       then do { s \<leftarrow> fnet_netbuf_free_chain (nt_alloc b) ?s2 (hold (arp_table ?s2 ! i));
                 Some (set_entry i (\<lambda>e. e\<lparr>hold := []\<rparr>) s) }
       else Some ?s2) = Some s3"
     "nb_inv owns Y s3 ((nb @ L) @ others_of i s3)" "same_bytes ?s2 s3 (nb @ L)" "only_table ?s2 s3"
     "arp_table s3 = (arp_table ?s2)[i := e]" "hold e = []" "prot_addr e = prot_addr (arp_table ?s2 ! i)"
     "hard_addr e = hard_addr (arp_table ?s2 ! i)" "reads s3 = reads ?s2"
  proof -
    have "i < length (arp_table ?s2)" using i(1) by simp
    moreover have "hold (e\<lparr>hold := []\<rparr>) = [] \<and> prot_addr (e\<lparr>hold := []\<rparr>) = prot_addr e
        \<and> hard_addr (e\<lparr>hold := []\<rparr>) = hard_addr e" for e by simp
    ultimately show ?thesis
      using that by (elim clear_hold_ok [OF inv2(1) _ al, THEN exE] exE conjE)
  qed
  have i3: "i < length (arp_table s3)" "arp_table s3 ! i = e" using s3(5) i(1) by simp_all
  have e: "prot_addr e = ip" "hard_addr e = hard_addr (arp_table s1 ! i)" using s3(7,8) i(2) by simp_all
  have "mset ((nb @ L) @ others_of i s3) = mset (L @ nb @ others_of i s3)" by simp
  note p = nb_inv_perm [OF this, of owns Y]
  have wait: "arp_inv owns X (set_entry i f s3) L \<and> waiting (set_entry i f s3) ip = nb
      \<and> prot_index ip (arp_table (set_entry i f s3)) = Some i
      \<and> set (held (set_entry i f s3)) \<subseteq> set (nb @ held s) \<and> other_blocks (set_entry i f s3) = other_blocks s"
    if f: "hold (f e) = nb" "prot_addr (f e) = ip" "hard_addr (f e) = hard_addr e" for f
  proof -
    have "nb_inv owns Y s3 (L @ hold (f (arp_table s3 ! i)) @ others_of i s3)"
      using s3(2) f(1) i3(2) unfolding p by simp
    from set_entry_inv [where f = f, OF i3(1) this]
    have n: "nb_inv owns Y (set_entry i f s3) (L @ held (set_entry i f s3))" .
    have t: "arp_table (set_entry i f s3) = (arp_table s1)[i := f e]" using s3(5) i3 by simp
    have ok: "arp_table_ok (arp_table (set_entry i f s3))"
      unfolding t
      by (rule arp_table_ok_update)
        (use s1(2) f assms(2) e i arp_table_nth [of "arp_table s1" i] in \<open>simp_all add: arp_inv_def\<close>)
    have "arp_inv owns X (set_entry i f s3) L"
      by (rule arp_inv_keep [OF s1(2)])
        (use n ok only_tableD(8) [OF s3(4)] in \<open>simp_all add: cache_inv_def flip: Y_def\<close>)
    moreover have "prot_index ip (arp_table (set_entry i f s3)) = Some i"
      unfolding t using s1(4) f(2) i(2) by (simp add: prot_index_same)
    moreover have "set (held (set_entry i f s3)) \<subseteq> set (nb @ held s)"
      unfolding t using held_update [OF i(1), of "f e"] f(1) s1(5) only_tableD(7) [OF s3(4)] by auto
    moreover have "other_blocks (set_entry i f s3) = other_blocks s"
      using s1(6) only_tableD(8) [OF s3(4)] by (simp add: set_entry_def)
    ultimately show ?thesis using f(1) i(1) t by (simp add: waiting_def)
  qed
  have same3: "same_bytes s s3 L" using s1(3) s3(3) by (simp add: same_bytes_def bytes_at_def)
  let ?n = "\<lambda>e. e\<lparr>hold := nb\<rparr>"
  have step: "fnet_arp_resolve b s ip nb =
      (if req then case arp_get_ms b (set_entry i ?n s3) of (now, s) \<Rightarrow>
               fnet_arp_send_request b (set_entry i (\<lambda>e. e\<lparr>hold_time_ms := now\<rparr>) s) ip
       else Some (set_entry i ?n s3))"
    unfolding fnet_arp_resolve_def s1(1) Option.bind.simps prod.case s2 Let_def s3(1) ..
  show ?thesis
  proof (cases req)
    case False
    then show ?thesis using step wait [of ?n] same3 e(1) by (intro exI [of _ "set_entry i ?n s3"]) simp
  next
    case True
    let ?f = "\<lambda>e. e\<lparr>hold := nb, hold_time_ms := nt_ms b (reads s3)\<rparr>"
    let ?s4 = "(set_entry i ?f s3)\<lparr>reads := reads s3 + 1\<rparr>"
    have "set_entry i (\<lambda>e. e\<lparr>hold_time_ms := nt_ms b (reads s3)\<rparr>) ((set_entry i ?n s3)\<lparr>reads := reads s3 + 1\<rparr>) = ?s4"
      using i3(1) by (cases s3) (simp add: set_entry_def)
    moreover have "reads (set_entry i ?n s3) = reads s3" by (simp add: set_entry_def)
    ultimately have eq: "fnet_arp_resolve b s ip nb = fnet_arp_send_request b ?s4 ip"
      using step True by (simp add: arp_get_ms_def)
    have w4: "arp_inv owns X ?s4 L" "waiting ?s4 ip = nb" "prot_index ip (arp_table ?s4) = Some i"
      "set (held ?s4) \<subseteq> set (nb @ held s)" "other_blocks ?s4 = other_blocks s"
      using wait [of ?f] e(1) by simp_all
    from send_request_ok [OF w4(1) assms(3), of ip] obtain s5 out q where
      s5: "fnet_arp_send_request b ?s4 ip = Some s5" "arp_inv owns X s5 L" "same_bytes ?s4 s5 L"
        "drained_from (?s4\<lparr>arp_probe_ipaddr := q, sent := sent ?s4 @ out\<rparr>) s5" by blast
    have d: "list_all2 drained (arp_table ?s4) (arp_table s5)" using drained_fromD(1) [OF s5(4)] by simp
    have "prot_index ip (arp_table s5) = Some i \<and> (waiting s5 ip = nb \<or> waiting s5 ip = [])"
    proof -
      have "hold (arp_table ?s4 ! i) = nb" using w4(2,3) unfolding waiting_def by (simp only: option.case)
      with drained_waiting [OF d w4(3)] show ?thesis
        unfolding waiting_def by (elim conjE) (simp only: option.case)
    qed
    moreover have "set (held s5) \<subseteq> set (nb @ held s)" using drained_held [OF d] drained_fromD(8) [OF s5(4)] w4(4) by auto
    moreover have "set (other_blocks s5) \<subseteq> set (other_blocks s)" using drained_fromD(9) [OF s5(4)] w4(5) by simp
    ultimately show ?thesis
      using eq s5(1-3) same3 by (intro exI [of _ s5]) (simp add: same_bytes_def)
  qed
qed

lemma write_any_ok:
  assumes "nb_inv owns X s (n # L)" "i + length xs \<le> length (bytes_at s (nb_data n))"
  shows "\<exists>s'. write_data s (nb_data n) i xs = Some s' \<and> nb_inv owns X s' (n # L)
     \<and> bytes_at s' (nb_data n) = take i (bytes_at s (nb_data n)) @ xs @ drop (i + length xs) (bytes_at s (nb_data n))
     \<and> nbs.more s' = nbs.more s"
proof -
  have m: "nb_data n \<in># mset (map nb_data (n # L))" by simp
  obtain s2 where s2: "write_data s (nb_data n) i xs = Some s2"
      "mem_ok owns s2 (mset (map nb_data (n # L))) (set (map nb_addr (n # L)) \<union> X)"
      "bytes_at s2 (nb_data n) = take i (bytes_at s (nb_data n)) @ xs @ drop (i + length xs) (bytes_at s (nb_data n))"
      "\<And>e. e \<noteq> nb_data n \<Longrightarrow> bytes_at s2 e = bytes_at s e"
    by (rule write_data_ok [OF nb_inv_mem(1) [OF assms(1)] m assms(2)], rule that)
  have "length (bytes_at s2 e) = length (bytes_at s e)" for e
    using s2(3,4) assms(2) by (cases "e = nb_data n") simp_all
  then have "nb_inv owns X s2 (n # L)" using assms(1) s2(2) by (simp add: nb_inv_def in_buf_def)
  then show ?thesis using s2(1,3) write_data_more [OF s2(1)] by blast
qed

lemma free_one_ok:
  assumes "arp_inv owns X s (n # L)"
  shows "\<exists>s'. fnet_netbuf_free_chain A s [n] = Some s' \<and> arp_inv owns X s' L \<and> nbs.more s' = nbs.more s"
proof -
  have "nb_inv owns (X \<union> set (other_blocks s)) s ([n] @ L @ held s)" using arp_invD(2) [OF assms] by simp
  from free_chain_ok [OF this] obtain s' where s': "fnet_netbuf_free_chain A s [n] = Some s'"
    "nb_inv owns (X \<union> set (other_blocks s)) s' (L @ held s)" by blast
  note m = free_chain_more [OF s'(1)]
  have "arp_inv owns X s' L"
    by (rule arp_inv_keep [OF assms])
      (use s'(2) arp_invD(4) [OF assms] more_table [OF m] in \<open>simp_all add: cache_inv_def\<close>)
  then show ?thesis using s'(1) m by blast
qed

text \<open>The reply is written over the request and sent, or the packet is freed.\<close>

lemma arp_finish_ok:
  assumes "arp_inv owns X s (n # L)" "nb_length n = 28" "nb_total_length n = 28" "board_ok A owns b"
    and "length (sender_hard_addr h) = 6" "length (target_hard_addr h) = 6"
    and "nb_data n' = nb_data n" "nb_off n' = nb_off n"
  shows "\<exists>s' r. arp_answer b s h (the (nt_hw b)) n' [n] = Some s'
     \<and> arp_inv owns X s' L \<and> drained_from (s\<lparr>sent := sent s @ r\<rparr>) s'
     \<and> (r = [] \<or> arp_asks (ip4_address s) h \<and> r = [eth_frame b FNET_ETH_TYPE_ARP (sender_hard_addr h)
          (arp_bytes (arp_reply (the (nt_hw b)) (ip4_address s) h))])
     \<and> (arp_asks (ip4_address s) h \<and> has_memory A s \<and> 28 \<le> nt_mtu b \<longrightarrow> r \<noteq> [])"
proof -
  have b: "nt_alloc b = A" "length (the (nt_hw b)) = 6" using assms(4) by (auto simp: board_ok_def)
  show ?thesis
  proof (cases "arp_asks (ip4_address s) h")
    case False
    from free_one_ok [OF assms(1)] obtain s' where "fnet_netbuf_free_chain A s [n] = Some s'"
      "arp_inv owns X s' L" "nbs.more s' = nbs.more s" by blast
    moreover have "\<not> (op h = fnet_htons 1 \<and> targer_prot_addr h = ip4_address s)"
      using False by (simp add: arp_asks_def)
    note n = if_not_P [OF this]
    ultimately show ?thesis
      unfolding arp_answer_def n b(1) using False
      by (rule_tac exI [of _ s'], rule_tac exI [of _ "[]"]) (simp add: more_drained)
  next
    case True
    let ?r = "arp_reply (the (nt_hw b)) (ip4_address s) h"
    have len: "length (arp_bytes ?r) = 28" using b(2) assms(5) by (simp add: arp_reply_def length_arp_bytes)
    let ?Y = "X \<union> set (other_blocks s)"
    have i: "nb_inv owns ?Y s (n # L @ held s)" and tbl: "arp_table_ok (arp_table s)"
      using arp_invD(2,4) [OF assms(1)] by simp_all
    have fit: "nb_off n + 28 \<le> length (bytes_at s (nb_data n))"
      using nb_inv_in_buf [OF i, of n] assms(2) by (simp add: in_buf_def)
    from write_any_ok [OF i, of "nb_off n" "arp_bytes ?r"] fit len obtain s1 where
      s1: "write_data s (nb_data n) (nb_off n) (arp_bytes ?r) = Some s1"
        "nb_inv owns ?Y s1 (n # L @ held s)"
        "bytes_at s1 (nb_data n) = take (nb_off n) (bytes_at s (nb_data n)) @ arp_bytes ?r
           @ drop (nb_off n + 28) (bytes_at s (nb_data n))"
        "nbs.more s1 = nbs.more s" by auto
    have mac: "length (the (nt_hw b)) = 6" "nt_hw b = Some (the (nt_hw b))" using assms(4) by (auto simp: board_ok_def)
    have bytes: "chain_bytes s1 [n] = arp_bytes ?r"
      using s1(3) fit len assms(2) by (simp add: nb_bytes_def)
    have "net_inv owns X s1 ([n] @ L)"
      by (rule net_inv_keep [OF arp_invD(1) [OF assms(1)]]) (use s1(2) more_table [OF s1(4)] in simp_all)
    moreover have "total_ok [n]" using assms(2,3) by (simp add: total_ok_def)
    moreover note inv1 = calculation
    moreover have tx: "eth_tx b s1 FNET_ETH_TYPE_ARP (sender_hard_addr h) [n]
        = eth_frame b FNET_ETH_TYPE_ARP (sender_hard_addr h) (chain_bytes s1 [n])"
      unfolding eth_tx_def by (rule tx_frame_other [OF assms(5) mac(2,1) htons_types(1,2)])
    ultimately obtain s2 out where
      s2: "fnet_eth_output b s1 FNET_ETH_TYPE_ARP (sender_hard_addr h) [n] = Some s2"
        "net_inv owns X s2 L" "drained_from (s1\<lparr>sent := sent s1 @ out\<rparr>) s2"
        "out = [] \<or> out = [eth_frame b FNET_ETH_TYPE_ARP (sender_hard_addr h) (chain_bytes s1 [n])]"
      using eth_output_ok [OF _ _ assms(4,5)] by metis
    have now: "out \<noteq> []" if "has_memory A s" "28 \<le> nt_mtu b"
    proof -
      have hm: "has_memory A s1" using that(1) has_memory_pool write_data_pool [OF s1(1)] by blast
      have "nb_inv owns (X \<union> set (other_blocks s1)) s1 ([n] @ L @ held s1)" using net_invD(1) [OF inv1(1)] by simp
      from eth_output_now [OF this inv1(2) assms(4,5) hm, of FNET_ETH_TYPE_ARP] obtain s3 where
        s3: "fnet_eth_output b s1 FNET_ETH_TYPE_ARP (sender_hard_addr h) [n] = Some s3"
          "nbs.more s3 = nbs.more (s1\<lparr>sent := sent s1 @ (if [n] \<noteq> [] \<and> nb_total_length (hd [n]) > nt_mtu b then []
             else [eth_tx b s1 FNET_ETH_TYPE_ARP (sender_hard_addr h) [n]])\<rparr>)" by blast
      have "sent s2 = sent s1 @ [eth_tx b s1 FNET_ETH_TYPE_ARP (sender_hard_addr h) [n]]"
        using more_sent [OF s3(2)] s3(1) s2(1) that(2) assms(3) by simp
      then show ?thesis using drained_fromD(2) [OF s2(3)] by auto
    qed
    have "drained_from (s\<lparr>sent := sent s @ out\<rparr>) (s1\<lparr>sent := sent s1 @ out\<rparr>)"
      using s1(4) by (cases s; cases s1) (auto simp: drained_from_def list_all2_refl)
    from drained_from_trans [OF this s2(3)] have d: "drained_from (s\<lparr>sent := sent s @ out\<rparr>) s2" .
    have "arp_inv owns X s2 L" using tbl by (intro drained_arp_inv [OF d _ s2(2)]) simp
    then show ?thesis
      using True s1(1) s2(1,4) d bytes now
      by (rule_tac exI [of _ s2], rule_tac exI [of _ out])
        (simp add: arp_answer_def arp_asks_def arp_reply_def assms(7,8))
  qed
qed

text \<open>What is left of the input of a packet that is accepted.\<close>

lemma arp_input_trimmed:
  assumes "nb_inv owns X s (n # R)" "nb_length n = nb_total_length n" "28 \<le> nb_length n" "board_ok A owns b"
    and "h = arp_of (take 28 (nb_bytes s n))" "arp_accepts b h"
    and tr: "(if nb_total_length n > sizeof_arp_header
        then fnet_netbuf_trim A s [n] (int sizeof_arp_header - int (nb_total_length n))
        else Some (s, [n])) = Some (s, c)"
  shows "fnet_arp_input b s [n] =
    do {
      s \<leftarrow> (if sender_prot_addr h \<noteq> ip4_address s then arp_learn b s h else Some (arp_check_conflict s h));
      arp_answer b s h (the (nt_hw b)) n c
    }" and "length (sender_hard_addr h) = 6" "length (target_hard_addr h) = 6"
proof -
  obtain mac where b: "nt_alloc b = A" "nt_hw b = Some mac" "length mac = 6"
    using assms(4) by (auto simp: board_ok_def)
  have rd: "read_data s (nb_data n) (nb_off n) sizeof_arp_header = Some (take 28 (nb_bytes s n))"
    using read_nb_ok [OF assms(1), of n 0 28] assms(3) by (simp add: sizeof_arp_header_def)
  have "length (take 28 (nb_bytes s n)) = 28"
    using length_nb_bytes [of s n] nb_inv_in_buf [OF assms(1), of n] assms(3) by simp
  from arp_of_lengths [OF this] show hl: "length (sender_hard_addr h) = 6" "length (target_hard_addr h) = 6"
    by (simp_all add: assms(5))
  have bc: "length fnet_eth_broadcast = 6" by (simp add: fnet_eth_broadcast_def)
  have len: "\<not> nb_total_length n < sizeof_arp_header" using assms(2,3) by (simp add: sizeof_arp_header_def)
  have ok: "hard_type h = fnet_htons 1" "hard_size h = 6" "prot_type h = fnet_htons FNET_ETH_TYPE_IP4"
    "prot_size h = 4" "sender_hard_addr h \<noteq> mac" "sender_hard_addr h \<noteq> fnet_eth_broadcast"
    using assms(6) b(2) by (simp_all add: arp_accepts_def)
  have g: "\<not> (hard_type h \<noteq> fnet_htons 1 \<or> hard_size h \<noteq> 6
      \<or> prot_type h \<noteq> fnet_htons FNET_ETH_TYPE_IP4 \<or> prot_size h \<noteq> 4)" using ok by simp
  have m: "\<not> (fnet_memcmp (sender_hard_addr h) mac 6 = Some 0
      \<or> fnet_memcmp (sender_hard_addr h) fnet_eth_broadcast 6 = Some 0)"
    using ok memcmp_eq [OF hl(1) b(3)] memcmp_eq [OF hl(1) bc] by simp
  show "fnet_arp_input b s [n] =
    do {
      s \<leftarrow> (if sender_prot_addr h \<noteq> ip4_address s then arp_learn b s h else Some (arp_check_conflict s h));
      arp_answer b s h (the (nt_hw b)) n c
    }"
    unfolding fnet_arp_input_def list.case if_not_P [OF len] rd Option.bind.simps Let_def assms(5) [symmetric]
      if_not_P [OF g] b(1) tr prod.case b(2) option.case if_not_P [OF m] option.sel ..
qed

lemma arp_input_accepted:
  assumes "nb_inv owns X s (n # R)" "nb_length n = nb_total_length n" "28 \<le> nb_length n" "board_ok A owns b"
    and "h = arp_of (take 28 (nb_bytes s n))" "arp_accepts b h" "nb_length n < 2147483648"
  shows "fnet_arp_input b s [n] =
    do {
      s \<leftarrow> (if sender_prot_addr h \<noteq> ip4_address s then arp_learn b s h else Some (arp_check_conflict s h));
      arp_answer b s h (the (nt_hw b)) n [n\<lparr>nb_length := 28, nb_total_length := 28\<rparr>]
    }" and "length (sender_hard_addr h) = 6" "length (target_hard_addr h) = 6"
  by (rule arp_input_trimmed [OF assms(1-6) trim_header [OF assms(2,3,7)]])+

text \<open>Up to the answer for any length.\<close>

lemma arp_input_begins:
  assumes "nb_inv owns X s (n # R)" "nb_length n = nb_total_length n" "28 \<le> nb_length n" "board_ok A owns b"
    and "h = arp_of (take 28 (nb_bytes s n))" "arp_accepts b h"
  obtains c where "fnet_arp_input b s [n] =
    do {
      s \<leftarrow> (if sender_prot_addr h \<noteq> ip4_address s then arp_learn b s h else Some (arp_check_conflict s h));
      arp_answer b s h (the (nt_hw b)) n c
    }" and "length (sender_hard_addr h) = 6"
proof -
  have "\<exists>c. (if nb_total_length n > sizeof_arp_header
        then fnet_netbuf_trim A s [n] (int sizeof_arp_header - int (nb_total_length n))
        else Some (s, [n])) = Some (s, c)"
    using trim_keeps [OF assms(2), of A s] by (cases "nb_total_length n > sizeof_arp_header") (auto simp: sizeof_arp_header_def)
  then obtain c where "(if nb_total_length n > sizeof_arp_header
        then fnet_netbuf_trim A s [n] (int sizeof_arp_header - int (nb_total_length n))
        else Some (s, [n])) = Some (s, c)" by blast
  from arp_input_trimmed(1,2) [OF assms this] show ?thesis by (rule that)
qed

lemma arp_input_rejected:
  assumes "nb_inv owns X s (n # R)" "nb_length n = nb_total_length n" "28 \<le> nb_length n" "board_ok A owns b"
    and "h = arp_of (take 28 (nb_bytes s n))" "\<not> arp_accepts b h" "nb_length n < 2147483648"
  shows "fnet_arp_input b s [n] = fnet_netbuf_free_chain A s [n]
    \<or> fnet_arp_input b s [n] = fnet_netbuf_free_chain A s [n\<lparr>nb_length := 28, nb_total_length := 28\<rparr>]"
proof -
  obtain mac where b: "nt_alloc b = A" "nt_hw b = Some mac" "length mac = 6"
    using assms(4) by (auto simp: board_ok_def)
  have rd: "read_data s (nb_data n) (nb_off n) sizeof_arp_header = Some (take 28 (nb_bytes s n))"
    using read_nb_ok [OF assms(1), of n 0 28] assms(3) by (simp add: sizeof_arp_header_def)
  have "length (take 28 (nb_bytes s n)) = 28"
    using length_nb_bytes [of s n] nb_inv_in_buf [OF assms(1), of n] assms(3) by simp
  from arp_of_lengths [OF this] have hl: "length (sender_hard_addr h) = 6" by (simp add: assms(5))
  have bc: "length fnet_eth_broadcast = 6" by (simp add: fnet_eth_broadcast_def)
  have len: "\<not> nb_total_length n < sizeof_arp_header" using assms(2,3) by (simp add: sizeof_arp_header_def)
  note tr = trim_header [OF assms(2,3,7), of A s]
  show ?thesis
  proof (cases "hard_type h \<noteq> fnet_htons 1 \<or> hard_size h \<noteq> 6
      \<or> prot_type h \<noteq> fnet_htons FNET_ETH_TYPE_IP4 \<or> prot_size h \<noteq> 4")
    case True
    show ?thesis
      unfolding fnet_arp_input_def list.case if_not_P [OF len] rd Option.bind.simps Let_def assms(5) [symmetric]
        if_P [OF True] b(1) by (rule disjI1) (rule refl)
  next
    case False
    then have m: "fnet_memcmp (sender_hard_addr h) mac 6 = Some 0
        \<or> fnet_memcmp (sender_hard_addr h) fnet_eth_broadcast 6 = Some 0"
      using assms(6) b(2) memcmp_eq [OF hl b(3)] memcmp_eq [OF hl bc] by (simp add: arp_accepts_def)
    show ?thesis
      unfolding fnet_arp_input_def list.case if_not_P [OF len] rd Option.bind.simps Let_def assms(5) [symmetric]
        if_not_P [OF False] b(1) tr prod.case b(2) option.case if_P [OF m] by (rule disjI2) (rule refl)
  qed
qed

lemma arp_input_ok:
  assumes "arp_inv owns X s (n # L)" "nb_length n = nb_total_length n" "board_ok A owns b"
  defines "h \<equiv> arp_of (take 28 (nb_bytes s n))"
  assumes "28 \<le> nb_length n \<Longrightarrow> arp_accepts b h \<Longrightarrow> waiting s (sender_prot_addr h) = [] \<or> has_memory A s"
    and small: "nb_length n < 2147483648"
  shows "\<exists>s'. fnet_arp_input b s [n] = Some s' \<and> arp_inv owns X s' L
     \<and> (if nb_length n < 28 \<or> \<not> arp_accepts b h then nbs.more s' = nbs.more s
        else \<exists>s2 r. (if sender_prot_addr h \<noteq> ip4_address s then arp_learn b s h = Some s2
                     else s2 = arp_check_conflict s h)
          \<and> drained_from (s2\<lparr>sent := sent s2 @ r\<rparr>) s'
          \<and> (r = [] \<or> arp_asks (ip4_address s) h \<and> r = [eth_frame b FNET_ETH_TYPE_ARP (sender_hard_addr h)
               (arp_bytes (arp_reply (the (nt_hw b)) (ip4_address s) h))])
          \<and> (arp_asks (ip4_address s) h \<and> has_memory A s2 \<and> 28 \<le> nt_mtu b \<longrightarrow> r \<noteq> []))"
proof -
  obtain mac where b: "nt_alloc b = A" "nt_hw b = Some mac" "length mac = 6"
    using assms(3) by (auto simp: board_ok_def)
  let ?Y = "X \<union> set (other_blocks s)"
  have i: "nb_inv owns ?Y s (n # L @ held s)" using arp_invD(2) [OF assms(1)] by simp
  show ?thesis
  proof (cases "nb_length n < 28")
    case True
    then have "fnet_arp_input b s [n] = fnet_netbuf_free_chain A s [n]"
      using assms(2) b(1) by (simp add: fnet_arp_input_def sizeof_arp_header_def)
    then show ?thesis using free_one_ok [OF assms(1)] True by auto
  next
    case False
    then have ge: "28 \<le> nb_length n" by simp
    let ?n = "n\<lparr>nb_length := 28, nb_total_length := 28\<rparr>"
    have "in_buf s ?n" using nb_inv_in_buf [OF i, of n] False by (simp add: in_buf_def)
    then have "nb_inv owns ?Y s (?n # L @ held s)"
      by (intro nb_inv_view [OF i]) simp_all
    then have inv: "arp_inv owns X s (?n # L)" using assms(1) by (simp add: arp_inv_def net_inv_def)
    show ?thesis
    proof (cases "arp_accepts b h")
      case False
      have "fnet_arp_input b s [n] = fnet_netbuf_free_chain A s [n]
          \<or> fnet_arp_input b s [n] = fnet_netbuf_free_chain A s [?n]"
        by (rule arp_input_rejected [OF i assms(2) ge assms(3) h_def [THEN meta_eq_to_obj_eq] False small])
      then show ?thesis using free_one_ok [OF assms(1)] free_one_ok [OF inv] False by fastforce
    next
      case True
      note acc = arp_input_accepted [OF i assms(2) ge assms(3) h_def [THEN meta_eq_to_obj_eq] True small]
      define mid where "mid = (if sender_prot_addr h \<noteq> ip4_address s then arp_learn b s h
        else Some (arp_check_conflict s h))"
      obtain s2 where s2: "mid = Some s2" "arp_inv owns X s2 (?n # L)" "ip4_address s2 = ip4_address s"
      proof (cases "sender_prot_addr h \<noteq> ip4_address s")
        case t: True
        obtain s2 where l: "arp_learn b s h = Some s2" "arp_inv owns X s2 (?n # L)"
            "nbs.more s2 = nbs.more (s\<lparr>arp_table := arp_table s2, reads := reads s2, sent := sent s @
               (if waiting s (sender_prot_addr h) = [] \<or> nb_total_length (hd (waiting s (sender_prot_addr h))) > nt_mtu b
                then [] else [eth_tx b s FNET_ETH_TYPE_IP4 (sender_hard_addr h) (waiting s (sender_prot_addr h))])\<rparr>)"
          using arp_learn_ok [OF inv assms(3) acc(2) assms(5) [OF ge True]] by auto
        have "ip4_address s2 = ip4_address s" using l(3) by (cases s; cases s2) simp
        then show ?thesis using that l(1,2) t by (simp add: mid_def)
      next
        case f: False
        have sm: "same_mem s (arp_check_conflict s h)" "arp_table (arp_check_conflict s h) = arp_table s"
            "other_nbs (arp_check_conflict s h) = other_nbs s" "other_blocks (arp_check_conflict s h) = other_blocks s"
          by (simp_all add: same_mem_def arp_check_conflict_def)
        have "arp_inv owns X (arp_check_conflict s h) (?n # L)"
          using inv same_mem_inv [OF sm(1), of owns ?Y] sm(2-4) by (simp add: arp_inv_def net_inv_def)
        then show ?thesis using that f by (simp add: mid_def arp_check_conflict_def)
      qed
      from arp_finish_ok [OF s2(2) _ _ assms(3) acc(2,3), of n] obtain s3 r where
        s3: "arp_answer b s2 h (the (nt_hw b)) n [?n] = Some s3"
         "arp_inv owns X s3 L" "drained_from (s2\<lparr>sent := sent s2 @ r\<rparr>) s3"
         "r = [] \<or> arp_asks (ip4_address s2) h \<and> r = [eth_frame b FNET_ETH_TYPE_ARP (sender_hard_addr h)
          (arp_bytes (arp_reply (the (nt_hw b)) (ip4_address s2) h))]"
         "arp_asks (ip4_address s2) h \<and> has_memory A s2 \<and> 28 \<le> nt_mtu b \<longrightarrow> r \<noteq> []" by auto
      have inp: "fnet_arp_input b s [n] = Some s3"
        unfolding acc(1) mid_def [symmetric] s2(1) Option.bind.simps by (rule s3(1))
      have upd: "if sender_prot_addr h \<noteq> ip4_address s then arp_learn b s h = Some s2
          else s2 = arp_check_conflict s h" using s2(1) by (simp add: mid_def split: if_splits)
      have neg: "\<not> (nb_length n < 28 \<or> \<not> arp_accepts b h)" using False True by simp
      show ?thesis
        unfolding if_not_P [OF neg] using inp upd s3(2,3) s3(4,5) [unfolded s2(3)] by blast
    qed
  qed
qed

lemma age_entry_ok:
  assumes "nb_inv owns X s (L @ hold e @ R)" "nt_alloc b = A"
  shows "\<exists>s' e' r. (if prot_addr e \<noteq> 0
          then (case arp_get_ms b s of (now, s) \<Rightarrow>
                  if elapsed now (cr_time_ms e) > 1200 * 1000
                  then do {
                    s \<leftarrow> (if hold e \<noteq> [] then fnet_netbuf_free_chain (nt_alloc b) s (hold e) else Some s);
                    Some (s, zero_entry)
                  }
                  else Some (s, e))
          else Some (s, e)) = Some (s', e')
     \<and> nb_inv owns X s' (L @ hold e' @ R) \<and> aged e e' \<and> reads s \<le> r \<and> nbs.more s' = nbs.more (s\<lparr>reads := r\<rparr>)
     \<and> (prot_addr e \<noteq> 0 \<longrightarrow> e' = age (nt_ms b (reads s)) e) \<and> (prot_addr e = 0 \<longrightarrow> e' = e)"
proof (cases "prot_addr e \<noteq> 0")
  case False
  then show ?thesis
    using assms(1) by (rule_tac exI [of _ s], rule_tac exI [of _ e], rule_tac exI [of _ "reads s"]) (simp add: aged_def)
next
  case True
  let ?s = "s\<lparr>reads := reads s + 1\<rparr>"
  have "same_mem s ?s" by simp
  note inv = assms(1) [folded same_mem_inv [OF this]]
  show ?thesis
  proof (cases "elapsed (nt_ms b (reads s)) (cr_time_ms e) > 1200 * 1000")
    case False
    then show ?thesis
      using inv True
      by (rule_tac exI [of _ ?s], rule_tac exI [of _ e], rule_tac exI [of _ "reads s + 1"])
        (simp add: aged_def age_def arp_get_ms_def)
  next
    case old: True
    have "mset (L @ hold e @ R) = mset (hold e @ L @ R)" by simp
    from inv [unfolded nb_inv_perm [OF this]] free_chain_ok obtain s1 where
      s1: "fnet_netbuf_free_chain A ?s (hold e) = Some s1" "nb_inv owns X s1 (L @ R)" by blast
    have "nbs.more s1 = nbs.more ?s" by (rule free_chain_more [OF s1(1)])
    moreover have "hold e = [] \<Longrightarrow> s1 = ?s" using s1(1) by simp
    moreover have "hold zero_entry = []" by (simp add: zero_entry_def)
    ultimately show ?thesis
      using old True s1 assms(2)
      by (rule_tac exI [of _ s1], rule_tac exI [of _ zero_entry], rule_tac exI [of _ "reads s + 1"])
        (cases "hold e = []"; simp add: aged_def age_def arp_get_ms_def)
  qed
qed

lemma age_loop_ok:
  assumes "nb_inv owns X s (L @ arp_held es)" "nt_alloc b = A"
  shows "\<exists>s' es' r. age_loop b s es = Some (s', es') \<and> nb_inv owns X s' (L @ arp_held es')
     \<and> list_all2 aged es es' \<and> reads s \<le> r \<and> nbs.more s' = nbs.more (s\<lparr>reads := r\<rparr>)
     \<and> (\<forall>now. (\<forall>k\<ge>reads s. nt_ms b k = now) \<longrightarrow> es' = map (age now) es)"
  using assms(1)
proof (induction es arbitrary: s L)
  case Nil
  then show ?case
    by (rule_tac exI [of _ s], rule_tac exI [of _ "[]"], rule_tac exI [of _ "reads s"]) simp
next
  case (Cons e es)
  have "nb_inv owns X s (L @ hold e @ arp_held es)" using Cons.prems by simp
  from age_entry_ok [OF this assms(2)] obtain s1 e1 r1 where
    s1: "(if prot_addr e \<noteq> 0
          then (case arp_get_ms b s of (now, s) \<Rightarrow>
                  if elapsed now (cr_time_ms e) > 1200 * 1000
                  then do {
                    s \<leftarrow> (if hold e \<noteq> [] then fnet_netbuf_free_chain (nt_alloc b) s (hold e) else Some s);
                    Some (s, zero_entry)
                  }
                  else Some (s, e))
          else Some (s, e)) = Some (s1, e1)"
      "nb_inv owns X s1 (L @ hold e1 @ arp_held es)" "aged e e1" "reads s \<le> r1"
      "nbs.more s1 = nbs.more (s\<lparr>reads := r1\<rparr>)" "prot_addr e \<noteq> 0 \<longrightarrow> e1 = age (nt_ms b (reads s)) e"
      "prot_addr e = 0 \<longrightarrow> e1 = e"
    by (elim exE conjE) (rule that)
  have "nb_inv owns X s1 ((L @ hold e1) @ arp_held es)" using s1(2) by simp
  from Cons.IH [OF this] obtain s2 es2 r2 where
    s2: "age_loop b s1 es = Some (s2, es2)" "nb_inv owns X s2 ((L @ hold e1) @ arp_held es2)"
      "list_all2 aged es es2" "reads s1 \<le> r2" "nbs.more s2 = nbs.more (s1\<lparr>reads := r2\<rparr>)"
      "\<forall>now. (\<forall>k\<ge>reads s1. nt_ms b k = now) \<longrightarrow> es2 = map (age now) es"
    by (elim exE conjE) (rule that)
  have r1: "reads s1 = r1" using s1(5) by (cases s; cases s1) simp
  show ?case
  proof (rule exI [of _ s2], rule exI [of _ "e1 # es2"], rule exI [of _ r2], intro conjI allI impI)
    show "age_loop b s (e # es) = Some (s2, e1 # es2)"
      unfolding age_loop.simps(2) s1(1) Option.bind.simps prod.case s2(1) ..
    show "nb_inv owns X s2 (L @ arp_held (e1 # es2))" using s2(2) by simp
    show "list_all2 aged (e # es) (e1 # es2)" using s1(3) s2(3) by simp
    show "reads s \<le> r2" using s1(4) s2(4) r1 by simp
    show "nbs.more s2 = nbs.more (s\<lparr>reads := r2\<rparr>)" using s1(5) s2(5) by (cases s; cases s1; cases s2) simp
    fix now
    assume now: "\<forall>k\<ge>reads s. nt_ms b k = now"
    then have "es2 = map (age now) es" using s2(6) r1 s1(4) by simp
    moreover have "e1 = age now e" using now s1(6,7) by (auto simp: age_def)
    ultimately show "e1 # es2 = map (age now) (e # es)" by simp
  qed
qed

lemma arp_timer_ok:
  assumes "arp_inv owns X s L" "nt_alloc b = A"
  shows "\<exists>s'. fnet_arp_timer b s = Some s' \<and> arp_inv owns X s' L
     \<and> nbs.more s' = nbs.more (s\<lparr>arp_table := arp_table s', reads := reads s'\<rparr>)
     \<and> list_all2 aged (arp_table s) (arp_table s')
     \<and> (\<forall>now. (\<forall>k\<ge>reads s. nt_ms b k = now) \<longrightarrow> arp_table s' = map (age now) (arp_table s))"
proof -
  let ?Y = "X \<union> set (other_blocks s)"
  have i: "nb_inv owns ?Y s ((L @ other_nbs s) @ arp_held (arp_table s))" "arp_table_ok (arp_table s)"
    using arp_invD(2,4) [OF assms(1)] nb_inv_perm [of "(L @ other_nbs s) @ arp_held (arp_table s)" "L @ held s" owns ?Y s]
    by simp_all
  from age_loop_ok [OF i(1) assms(2)] obtain s1 es r where
    s1: "age_loop b s (arp_table s) = Some (s1, es)" "nb_inv owns ?Y s1 ((L @ other_nbs s) @ arp_held es)"
      "list_all2 aged (arp_table s) es" "nbs.more s1 = nbs.more (s\<lparr>reads := r\<rparr>)"
      "\<forall>now. (\<forall>k\<ge>reads s. nt_ms b k = now) \<longrightarrow> es = map (age now) (arp_table s)"
    by (elim exE conjE) (rule that)
  let ?s = "s1\<lparr>arp_table := es\<rparr>"
  have sm: "same_mem s1 ?s" by simp
  have o: "other_nbs s1 = other_nbs s" "other_blocks s1 = other_blocks s" using more_table [OF s1(4)] by simp_all
  have "nb_inv owns ?Y s1 (L @ arp_held es @ other_nbs s)"
    using s1(2) nb_inv_perm [of "(L @ other_nbs s) @ arp_held es" "L @ arp_held es @ other_nbs s" owns ?Y s1] by simp
  then have "cache_inv owns ?Y ?s L"
    using o s1(3) i(2) same_mem_inv [OF sm, of owns ?Y] aged_table_ok [OF s1(3)] by (simp add: cache_inv_def)
  then have "arp_inv owns X ?s L" by (rule arp_inv_keep [OF assms(1)]) (simp add: o)
  moreover have "nbs.more ?s = nbs.more (s\<lparr>arp_table := arp_table ?s, reads := reads ?s\<rparr>)"
    using s1(4) by (cases s; cases s1) simp
  ultimately show ?thesis
    using s1(1,3,5) by (intro exI [of _ ?s]) (simp add: fnet_arp_timer_def)
qed

end

end
