(* ===== verification/Fnet_Eth.thy ===== *)
theory Fnet_Eth
  imports Fnet_Arp_Main
begin

text \<open>
  \<^verbatim>\<open>fnet_eth.c\<close> above the ARP cache: frames in, IPv4 packets out, and the start and end of an
  interface with its ARP part (\<^verbatim>\<open>_fnet_arp_init\<close>, \<^verbatim>\<open>_fnet_arp_release\<close>).
\<close>

unbundle bit_operations_syntax

section \<open>Start and end\<close>

text \<open>\<open>tmr\<close> and \<open>ev\<close> are what \<^verbatim>\<open>_fnet_timer_new\<close> and \<^verbatim>\<open>fnet_event_init\<close> return.\<close>

definition fnet_arp_init :: "'p arp_net \<Rightarrow> nat \<Rightarrow> nat \<Rightarrow> 'p arp_net \<times> bool" where
  "fnet_arp_init s tmr ev =
     (let s = s\<lparr>arp_table := replicate FNET_CFG_ARP_TABLE_SIZE zero_entry, arp_tmr := tmr\<rparr>
      in if tmr \<noteq> 0 then (s\<lparr>arp_event := ev\<rparr>, ev \<noteq> 0) else (s, False))"

text \<open>The second result is the timer that \<^verbatim>\<open>_fnet_timer_free\<close> is called with.\<close>

definition fnet_arp_release :: "'p arp_net \<Rightarrow> 'p arp_net \<times> nat" where
  "fnet_arp_release s = (s\<lparr>arp_tmr := 0\<rparr>, arp_tmr s)"

definition fnet_eth_init :: "'p arp_net \<Rightarrow> nat \<Rightarrow> nat \<Rightarrow> 'p arp_net \<times> bool" where
  "fnet_eth_init s tmr ev =
     (case fnet_arp_init s tmr ev of
        (s, ok) \<Rightarrow> if ok then (s\<lparr>eth_number := w32 (eth_number s + 1)\<rparr>, True) else (s, False))"

definition fnet_eth_release :: "'p arp_net \<Rightarrow> 'p arp_net \<times> nat" where
  "fnet_eth_release s =
     (case fnet_arp_release s of (s, t) \<Rightarrow> (s\<lparr>eth_number := w32 (eth_number s + 4294967295)\<rparr>, t))"

section \<open>Addresses\<close>

definition fnet_htonl :: "u32 \<Rightarrow> u32" where
  "fnet_htonl v = push_bit 24 (v AND 0xFF) OR push_bit 8 (v AND 0xFF00) OR drop_bit 8 (v AND 0xFF0000)
     OR drop_bit 24 (v AND 0xFF000000)"

text \<open>\<^verbatim>\<open>_fnet_ip4_addr_is_broadcast\<close> for an interface that is not null.\<close>

definition fnet_ip4_addr_is_broadcast :: "u32 \<Rightarrow> 'p arp_net \<Rightarrow> bool" where
  "fnet_ip4_addr_is_broadcast addr s =
     (addr = 0xFFFFFFFF \<or> addr = 0 \<or> addr = 0xFFFFFEA9
      \<or> addr = ip4_netbroadcast s \<or> addr = ip4_subnetbroadcast s \<or> addr = ip4_subnet s)"

definition FNET_IP4_ADDR_IS_MULTICAST :: "u32 \<Rightarrow> bool" where
  "FNET_IP4_ADDR_IS_MULTICAST addr = (addr AND fnet_htonl 0xF0000000 = fnet_htonl 0xE0000000)"

definition FNET_MAC_ADDR_IS_MULTICAST :: "u8 list \<Rightarrow> bool" where
  "FNET_MAC_ADDR_IS_MULTICAST a = (a ! 0 = 1)"

text \<open>The macro looks at the second byte five times and not at the others.\<close>

definition FNET_MAC_ADDR_IS_BROADCAST :: "u8 list \<Rightarrow> bool" where
  "FNET_MAC_ADDR_IS_BROADCAST a =
     (a ! 0 = 255 \<and> a ! 1 = 255 \<and> a ! 1 = 255 \<and> a ! 1 = 255 \<and> a ! 1 = 255 \<and> a ! 1 = 255)"

definition multicast_mac :: "u32 \<Rightarrow> u8 list" where
  "multicast_mac ip =
     [0x01, 0x0, 0x5e, ucast (drop_bit 16 (fnet_htonl ip)) AND 0x7f, ucast (drop_bit 8 (fnet_htonl ip)),
      ucast (fnet_htonl ip)]"

section \<open>Output and input\<close>

definition fnet_eth_output_ip4 :: "'p net_board \<Rightarrow> 'p arp_net \<Rightarrow> u32 \<Rightarrow> netbuf list \<Rightarrow> 'p arp_net option" where
  "fnet_eth_output_ip4 b s dest_ip_addr nb =
     (if fnet_ip4_addr_is_broadcast dest_ip_addr s
      then fnet_eth_output b s FNET_ETH_TYPE_IP4 fnet_eth_broadcast nb
      else if FNET_IP4_ADDR_IS_MULTICAST dest_ip_addr
      then fnet_eth_output b s FNET_ETH_TYPE_IP4 (multicast_mac dest_ip_addr) nb
      else
        case fnet_arp_get_mac s dest_ip_addr of
          None \<Rightarrow> fnet_arp_resolve b s dest_ip_addr nb
        | Some destination_addr \<Rightarrow> fnet_eth_output b s FNET_ETH_TYPE_IP4 destination_addr nb)"

definition fnet_eth_change_addr_notify :: "'p net_board \<Rightarrow> 'p arp_net \<Rightarrow> 'p arp_net option" where
  "fnet_eth_change_addr_notify b s =
     (if ip4_address s \<noteq> 0 then fnet_arp_send_request b s (ip4_address s)
      else
        case nt_hw b of
          None \<Rightarrow> Some s
        | Some sender_addr \<Rightarrow> fnet_eth_output b s FNET_ETH_TYPE_RESERVED sender_addr [])"

text \<open>Destination, source and type of a received frame.\<close>

definition eth_destination :: "u8 list \<Rightarrow> u8 list" where
  "eth_destination frame = take 6 frame"

definition eth_source :: "u8 list \<Rightarrow> u8 list" where
  "eth_source frame = take 6 (drop 6 frame)"

definition eth_type :: "u8 list \<Rightarrow> u16" where
  "eth_type frame = load16l (take 2 (drop 12 frame))"

definition set_flag :: "bool \<Rightarrow> u32 \<Rightarrow> netbuf \<Rightarrow> netbuf" where
  "set_flag c f n = (if c then n\<lparr>nb_flags := nb_flags n OR f\<rparr> else n)"

definition fnet_eth_input :: "'p net_board \<Rightarrow> 'p arp_net \<Rightarrow> u8 list \<Rightarrow> 'p arp_net option" where
  "fnet_eth_input b s frame =
     (if length frame > 14
      then
        case nt_hw b of
          None \<Rightarrow> Some s
        | Some local_mac_addr \<Rightarrow>
            if fnet_memcmp (eth_source frame) local_mac_addr 6 = Some 0 then Some s
            else do {
              (s, nb) \<leftarrow> fnet_netbuf_from_buf (nt_alloc b) (fnet_prot_drain b) s (drop 14 frame) True;
              case nb of
                [] \<Rightarrow> Some s
              | n # next \<Rightarrow>
                  let n = set_flag (FNET_MAC_ADDR_IS_BROADCAST (eth_destination frame)) 2 n;
                      n = set_flag (FNET_MAC_ADDR_IS_MULTICAST (eth_destination frame)) 4 n
                  in if eth_type frame = fnet_htons FNET_ETH_TYPE_ARP then fnet_arp_input b s (n # next)
                     else if eth_type frame = fnet_htons FNET_ETH_TYPE_IP4 then nt_ip4 b s (n # next)
                     else fnet_netbuf_free_chain (nt_alloc b) s (n # next)
            }
      else Some s)"

lemma set_flag_simps [simp]:
  "nb_addr (set_flag c f n) = nb_addr n" "nb_data (set_flag c f n) = nb_data n" "nb_off (set_flag c f n) = nb_off n"
  "nb_length (set_flag c f n) = nb_length n" "nb_total_length (set_flag c f n) = nb_total_length n"
  by (simp_all add: set_flag_def)

lemma set_flag_view [simp]: "in_buf s (set_flag c f n) = in_buf s n" "nb_bytes s (set_flag c f n) = nb_bytes s n"
  by (simp_all add: in_buf_def nb_bytes_def)

section \<open>They keep the invariant\<close>

text \<open>
  IPv4 takes the packets it is given: it frees them, sends them on or keeps them among the net buffers
  and blocks of the protocols above. A received frame must not be an ARP packet that sets a waiting
  packet free at a moment when there is no memory for its header: the code then frees it twice.
\<close>

definition ip4_input_ok :: "('p \<Rightarrow> nat set \<Rightarrow> bool) \<Rightarrow> 'p net_board \<Rightarrow> bool" where
  "ip4_input_ok owns b =
     (\<forall>X s n L. arp_inv owns X s (n # L) \<and> nb_total_length n = nb_length n \<longrightarrow>
        (\<exists>s'. nt_ip4 b s [n] = Some s' \<and> arp_inv owns X s' L))"

definition receive_ok :: "'p net_board \<Rightarrow> 'p arp_net \<Rightarrow> u8 list \<Rightarrow> bool" where
  "receive_ok b s frame =
     (case fnet_netbuf_from_buf (nt_alloc b) (fnet_prot_drain b) s (drop 14 frame) True of
        Some (s1, [n]) \<Rightarrow>
          waiting s1 (sender_prot_addr (arp_of (take 28 (drop 14 frame)))) = [] \<or> has_memory (nt_alloc b) s1
      | _ \<Rightarrow> True)"

context block_allocator
begin

lemma from_buf_drain_ok:
  assumes "arp_inv owns X s L" "length data + 12 \<le> 4294967296" "board_ok A owns b"
  shows "\<exists>s' c. fnet_netbuf_from_buf A (fnet_prot_drain b) s data True = Some (s', c) \<and> same_bytes s s' L
     \<and> drained_from s s' \<and> arp_inv owns X s' (c @ L)
     \<and> (c = [] \<or> (\<exists>n. c = [n] \<and> nb_length n = length data \<and> nb_total_length n = length data \<and> nb_bytes s' n = data))"
proof -
  note tbl = arp_invD(4) [OF assms(1)]
  obtain s1 c where s1: "fnet_netbuf_new A (fnet_prot_drain b) s (length data) True = Some (s1, c)"
      "same_bytes s s1 L" "drained_from s s1"
    and c: "c = [] \<and> net_inv owns X s1 L
      \<or> (\<exists>n. c = [n] \<and> net_inv owns X s1 (n # L) \<and> nb_length n = length data
           \<and> nb_total_length n = length data \<and> nb_off n = 0
           \<and> nb_data n \<notin> nb_data ` set (L @ held s1) \<and> length (bytes_at s1 (nb_data n)) = length data)"
    by (rule net_new_ok [OF arp_invD(1) [OF assms(1)] assms(2,3)]) (rule that)
  note d = s1(3)
  from c show ?thesis
  proof (elim disjE exE conjE)
    assume "c = []" "net_inv owns X s1 L"
    moreover from this have "arp_inv owns X s1 L" using d tbl by (intro drained_arp_inv [of s s1]) simp_all
    ultimately show ?thesis
      using s1(1,2) d
      by (rule_tac exI [of _ s1], rule_tac exI [of _ "[]"]) (simp add: fnet_netbuf_from_buf_def)
  next
    fix n
    assume n: "c = [n]" "net_inv owns X s1 (n # L)" "nb_length n = length data"
      "nb_total_length n = length data" "nb_off n = 0" "nb_data n \<notin> nb_data ` set (L @ held s1)"
      "length (bytes_at s1 (nb_data n)) = length data"
    let ?Y = "X \<union> set (other_blocks s1)"
    have n2: "nb_inv owns ?Y s1 (n # L @ held s1)" using net_invD(1) [OF n(2)] by simp
    from write_own_ok [OF n2 n(6), of 0 data] n(7) obtain s2 where
      s2: "write_data s1 (nb_data n) 0 data = Some s2" "nb_inv owns ?Y s2 (n # L @ held s1)"
        "same_bytes s1 s2 (L @ held s1)" "bytes_at s2 (nb_data n) = data"
        "nbs.more s2 = nbs.more s1" by auto
    have d2: "drained_from s s2" using drained_from_trans [OF d more_drained [OF s2(5)]] .
    have "net_inv owns X s2 (n # L)"
      by (rule net_inv_keep [OF n(2)]) (use s2(2) more_table [OF s2(5)] in simp_all)
    from drained_arp_inv [OF d2 tbl this] have "arp_inv owns X s2 (n # L)" .
    moreover have "nb_bytes s2 n = data" using s2(4) n(3,5) by (simp add: nb_bytes_def)
    moreover have "same_bytes s s2 L" using s1(2) s2(3) by (simp add: same_bytes_def)
    moreover have "fnet_netbuf_from_buf A (fnet_prot_drain b) s data True = Some (s2, [n])"
      using s1(1) s2(1) n(1,5) by (simp add: fnet_netbuf_from_buf_def)
    ultimately show ?thesis
      using d2 n(3,4) by (rule_tac exI [of _ s2], rule_tac exI [of _ "[n]"]) simp
  qed
qed

lemma eth_output_inv:
  assumes "arp_inv owns X s (c @ L)" "total_ok c" "board_ok A owns b" "length dest = 6"
  shows "\<exists>s'. fnet_eth_output b s ty dest c = Some s' \<and> arp_inv owns X s' L \<and> same_bytes s s' L
     \<and> set (held s') \<subseteq> set (c @ held s) \<and> set (other_blocks s') \<subseteq> set (other_blocks s)"
proof -
  note tbl = arp_invD(4) [OF assms(1)]
  from eth_output_ok [OF arp_invD(1) [OF assms(1)] assms(2-4)] obtain s' out where
    s': "fnet_eth_output b s ty dest c = Some s'" "net_inv owns X s' L"
      "drained_from (s\<lparr>sent := sent s @ out\<rparr>) s'" "same_bytes s s' L" by blast
  have "arp_inv owns X s' L" using tbl by (intro drained_arp_inv [OF s'(3) _ s'(2)]) simp
  moreover have "set (held s') \<subseteq> set (c @ held s)"
    using drained_held [OF drained_fromD(1) [OF s'(3)]] drained_fromD(8) [OF s'(3)] by auto
  moreover have "set (other_blocks s') \<subseteq> set (other_blocks s)" using drained_fromD(9) [OF s'(3)] by simp
  ultimately show ?thesis using s'(1,4) by blast
qed

lemma lookup_length:
  "arp_table_ok (arp_table s) \<Longrightarrow> fnet_arp_lookup s ip = Some mac \<Longrightarrow> length mac = 6"
  using prot_index_SomeD [of ip "arp_table s"] arp_table_nth
  by (auto simp: fnet_arp_lookup_def Let_def split: option.splits if_splits)

lemma output_ip4_ok:
  assumes "arp_inv owns X s (c @ L)" "total_ok c" "board_ok A owns b"
  shows "\<exists>s'. fnet_eth_output_ip4 b s dest c = Some s' \<and> arp_inv owns X s' L \<and> same_bytes s s' L
     \<and> set (held s') \<subseteq> set (c @ held s) \<and> set (other_blocks s') \<subseteq> set (other_blocks s)"
proof -
  have len: "length fnet_eth_broadcast = 6" "length (multicast_mac dest) = 6"
    by (simp_all add: fnet_eth_broadcast_def multicast_mac_def)
  have tbl: "arp_table_ok (arp_table s)" using assms(1) by (simp add: arp_inv_def)
  note out = eth_output_inv [OF assms]
  show ?thesis
  proof (cases "fnet_ip4_addr_is_broadcast dest s \<or> FNET_IP4_ADDR_IS_MULTICAST dest")
    case True
    then show ?thesis using out [OF len(1)] out [OF len(2)] by (auto simp: fnet_eth_output_ip4_def)
  next
    case False
    show ?thesis
    proof (cases "fnet_arp_get_mac s dest")
      case None
      then show ?thesis
        using resolve_ok [OF assms, of dest] False by (auto simp: fnet_eth_output_ip4_def)
    next
      case (Some mac)
      then have "length mac = 6" using lookup_length [OF tbl] by (simp add: fnet_arp_get_mac_def)
      from out [OF this] show ?thesis using Some False by (auto simp: fnet_eth_output_ip4_def)
    qed
  qed
qed

lemma notify_ok:
  assumes "arp_inv owns X s L" "board_ok A owns b"
  shows "\<exists>s'. fnet_eth_change_addr_notify b s = Some s' \<and> arp_inv owns X s' L"
proof -
  obtain mac where mac: "nt_hw b = Some mac" "length mac = 6" using assms(2) by (auto simp: board_ok_def)
  have "arp_inv owns X s ([] @ L)" "total_ok []" using assms(1) by (simp_all add: total_ok_def)
  from eth_output_inv [OF this assms(2) mac(2), of FNET_ETH_TYPE_RESERVED] send_request_ok [OF assms, of "ip4_address s"] mac(1)
  show ?thesis unfolding fnet_eth_change_addr_notify_def by (cases "ip4_address s = 0") (simp_all, blast+)
qed

lemma eth_input_ok:
  assumes "arp_inv owns X s L" "board_ok A owns b" "ip4_input_ok owns b" "length frame < 2147483648" "receive_ok b s frame"
  shows "\<exists>s'. fnet_eth_input b s frame = Some s' \<and> arp_inv owns X s' L"
proof -
  obtain mac where b: "nt_alloc b = A" "nt_hw b = Some mac" using assms(2) by (auto simp: board_ok_def)
  show ?thesis
  proof (cases "length frame > 14 \<and> fnet_memcmp (eth_source frame) mac 6 \<noteq> Some 0")
    case False
    then have "fnet_eth_input b s frame = Some s" using b(2) by (auto simp: fnet_eth_input_def)
    then show ?thesis using assms(1) by blast
  next
    case True
    then have "length (drop 14 frame) + 12 \<le> 4294967296" using assms(4) by simp
    from from_buf_drain_ok [OF assms(1) this assms(2)] obtain s1 c where
      s1: "fnet_netbuf_from_buf A (fnet_prot_drain b) s (drop 14 frame) True = Some (s1, c)" "arp_inv owns X s1 (c @ L)"
      and c: "c = [] \<or> (\<exists>n. c = [n] \<and> nb_length n = length (drop 14 frame) \<and> nb_total_length n = length (drop 14 frame)
        \<and> nb_bytes s1 n = drop 14 frame)" by (elim exE conjE) (rule that)
    from c show ?thesis
    proof (elim disjE exE conjE)
      assume "c = []"
      then have "fnet_eth_input b s frame = Some s1" using True b s1(1) by (simp add: fnet_eth_input_def)
      then show ?thesis using s1(2) \<open>c = []\<close> by auto
    next
      fix n
      assume n: "c = [n]" "nb_length n = length (drop 14 frame)" "nb_total_length n = length (drop 14 frame)"
        "nb_bytes s1 n = drop 14 frame"
      let ?n = "set_flag (FNET_MAC_ADDR_IS_MULTICAST (eth_destination frame)) 4
        (set_flag (FNET_MAC_ADDR_IS_BROADCAST (eth_destination frame)) 2 n)"
      let ?Y = "X \<union> set (other_blocks s1)"
      have i: "nb_inv owns ?Y s1 (n # L @ held s1)" using arp_invD(2) [OF s1(2)] n(1) by simp
      have "in_buf s1 ?n" using nb_inv_in_buf [OF i, of n] by simp
      then have "nb_inv owns ?Y s1 (?n # L @ held s1)" by (intro nb_inv_view [OF i]) simp_all
      then have inv: "arp_inv owns X s1 (?n # L)" using s1(2) by (simp add: arp_inv_def net_inv_def)
      have w: "waiting s1 (sender_prot_addr (arp_of (take 28 (nb_bytes s1 ?n)))) = [] \<or> has_memory A s1"
        using assms(5) s1(1) n(1,4) b(1) by (simp add: receive_ok_def)
      have "nb_length ?n = nb_total_length ?n" using n(2,3) by simp
      moreover have "nb_length ?n < 2147483648" using n(2) assms(4) by simp
      ultimately obtain s2 where
        "fnet_arp_input b s1 [?n] = Some s2" "arp_inv owns X s2 L" using arp_input_ok [OF inv _ assms(2)] w by blast
      moreover obtain s3 where "fnet_netbuf_free_chain A s1 [?n] = Some s3" "arp_inv owns X s3 L"
        using free_one_ok [OF inv] by blast
      moreover obtain s4 where "nt_ip4 b s1 [?n] = Some s4" "arp_inv owns X s4 L"
        using assms(3) inv n(2,3) unfolding ip4_input_ok_def by fastforce
      moreover have "fnet_eth_input b s frame =
          (if eth_type frame = fnet_htons FNET_ETH_TYPE_ARP then fnet_arp_input b s1 [?n]
           else if eth_type frame = fnet_htons FNET_ETH_TYPE_IP4 then nt_ip4 b s1 [?n]
           else fnet_netbuf_free_chain A s1 [?n])"
        using True b s1(1) n(1) by (simp add: fnet_eth_input_def)
      ultimately show ?thesis by simp
    qed
  qed
qed

end

section \<open>Clients\<close>

text \<open>The chains in \<open>cs\<close> are packets that clients hold. The order of the chains means nothing.\<close>

type_synonym eth_client = "mempool arp_net \<times> netbuf list list"

inductive eth_step :: "mempool net_board \<Rightarrow> eth_client \<Rightarrow> eth_client \<Rightarrow> bool" for b where
  eth_reorder: "mset cs = mset cs' \<Longrightarrow> eth_step b (s, cs) (s, cs')"
| eth_packet: "\<lbrakk>length data + 12 \<le> 4294967296;
      fnet_netbuf_from_buf main_pool (fnet_prot_drain b) s data True = Some (s', c)\<rbrakk>
    \<Longrightarrow> eth_step b (s, cs) (s', c # cs)"
| eth_send: "fnet_eth_output_ip4 b s dest c = Some s' \<Longrightarrow> eth_step b (s, c # cs) (s', cs)"
| eth_receive: "\<lbrakk>length frame < 2147483648; receive_ok b s frame; fnet_eth_input b s frame = Some s'\<rbrakk>
    \<Longrightarrow> eth_step b (s, cs) (s', cs)"
| eth_aging: "fnet_arp_timer b s = Some s' \<Longrightarrow> eth_step b (s, cs) (s', cs)"
| eth_request: "fnet_arp_send_request b s ip = Some s' \<Longrightarrow> eth_step b (s, cs) (s', cs)"
| eth_notify: "fnet_eth_change_addr_notify b s = Some s' \<Longrightarrow> eth_step b (s, cs) (s', cs)"
| eth_drain: "fnet_prot_drain b s = Some s' \<Longrightarrow> eth_step b (s, cs) (s', cs)"

inductive_cases eth_step_elim: "eth_step b st st'"

inductive eth_reachable :: "mempool net_board \<Rightarrow> eth_client \<Rightarrow> eth_client \<Rightarrow> bool" for b s\<^sub>0 where
  eth_start: "eth_reachable b s\<^sub>0 s\<^sub>0"
| eth_next: "\<lbrakk>eth_reachable b s\<^sub>0 s; eth_step b s s'\<rbrakk> \<Longrightarrow> eth_reachable b s\<^sub>0 s'"

definition eth_clients :: "nat \<Rightarrow> nat \<Rightarrow> eth_client \<Rightarrow> bool" where
  "eth_clients a N st =
     (arp_inv (mempool_owns a N) {} (fst st) (concat (snd st)) \<and> (\<forall>c\<in>set (snd st). total_ok c))"

definition eth_board_ok :: "nat \<Rightarrow> nat \<Rightarrow> mempool net_board \<Rightarrow> bool" where
  "eth_board_ok a N b =
     (board_ok main_pool (mempool_owns a N) b \<and> ip4_input_ok (mempool_owns a N) b)"

lemma arp_inv_perm: "mset L = mset L' \<Longrightarrow> arp_inv owns X s L = arp_inv owns X s L'"
  using nb_inv_perm [of "L @ held s" "L' @ held s" owns "X \<union> set (other_blocks s)" s]
  by (simp add: arp_inv_def net_inv_def)

text \<open>Every call returns.\<close>

lemma eth_calls_return:
  assumes "eth_clients a N (s, cs)" "eth_board_ok a N b"
  shows "length data + 12 \<le> 4294967296 \<Longrightarrow>
      \<exists>t c. fnet_netbuf_from_buf main_pool (fnet_prot_drain b) s data True = Some (t, c) \<and> eth_clients a N (t, c # cs)"
    and "cs = c # cs' \<Longrightarrow> \<exists>t. fnet_eth_output_ip4 b s dest c = Some t \<and> eth_clients a N (t, cs')"
    and "length frame < 2147483648 \<Longrightarrow> receive_ok b s frame \<Longrightarrow>
      \<exists>t. fnet_eth_input b s frame = Some t \<and> eth_clients a N (t, cs)"
    and "\<exists>t. fnet_arp_timer b s = Some t \<and> eth_clients a N (t, cs)"
    and "\<exists>t. fnet_arp_send_request b s ip = Some t \<and> eth_clients a N (t, cs)"
    and "\<exists>t. fnet_eth_change_addr_notify b s = Some t \<and> eth_clients a N (t, cs)"
    and "\<exists>t. fnet_prot_drain b s = Some t \<and> eth_clients a N (t, cs)"
proof -
  have inv: "arp_inv (mempool_owns a N) {} s (concat cs)" and tot: "\<forall>c\<in>set cs. total_ok c"
    and b: "board_ok main_pool (mempool_owns a N) b" "ip4_input_ok (mempool_owns a N) b"
    using assms by (simp_all add: eth_clients_def eth_board_ok_def)
  have al: "nt_alloc b = main_pool" using b(1) by (simp add: board_ok_def)
  show "\<exists>t c. fnet_netbuf_from_buf main_pool (fnet_prot_drain b) s data True = Some (t, c) \<and> eth_clients a N (t, c # cs)"
    if "length data + 12 \<le> 4294967296"
    using main.from_buf_drain_ok [OF inv that b(1)] tot
    by (fastforce simp: eth_clients_def total_ok_def)
  show "\<exists>t. fnet_eth_output_ip4 b s dest c = Some t \<and> eth_clients a N (t, cs')" if "cs = c # cs'"
    using main.output_ip4_ok [of a N "{}" s c "concat cs'" b dest] inv tot b(1) that by (auto simp: eth_clients_def)
  show "\<exists>t. fnet_eth_input b s frame = Some t \<and> eth_clients a N (t, cs)"
    if "length frame < 2147483648" "receive_ok b s frame"
    using main.eth_input_ok [OF inv b that] tot by (auto simp: eth_clients_def)
  show "\<exists>t. fnet_arp_timer b s = Some t \<and> eth_clients a N (t, cs)"
    using main.arp_timer_ok [OF inv al] tot by (auto simp: eth_clients_def)
  show "\<exists>t. fnet_arp_send_request b s ip = Some t \<and> eth_clients a N (t, cs)"
    using main.send_request_ok [OF inv b(1), of ip] tot by (auto simp: eth_clients_def)
  show "\<exists>t. fnet_eth_change_addr_notify b s = Some t \<and> eth_clients a N (t, cs)"
    using main.notify_ok [OF inv b(1)] tot by (auto simp: eth_clients_def)
  show "\<exists>t. fnet_prot_drain b s = Some t \<and> eth_clients a N (t, cs)"
    using main.arp_drain_ok [OF inv b(1)] tot by (auto simp: eth_clients_def)
qed

lemma eth_clients_step:
  assumes "eth_step b st st'" "eth_clients a N st" "eth_board_ok a N b"
  shows "eth_clients a N st'"
  using assms(1)
proof cases
  case (eth_reorder cs cs' s)
  have "mset (concat cs) = mset (concat cs')" unfolding mset_concat_sum eth_reorder(3) ..
  from arp_inv_perm [OF this, of "mempool_owns a N" "{}" s] show ?thesis
    using assms(2) mset_eq_setD [OF eth_reorder(3)] by (simp add: eth_clients_def eth_reorder(1,2))
next
  case (eth_packet data s s' c cs)
  then show ?thesis using eth_calls_return(1) [of a N s cs b data] assms(2,3) by auto
next
  case (eth_send s dest c s' cs)
  then show ?thesis using eth_calls_return(2) [of a N s "c # cs" b c cs dest] assms(2,3) by auto
next
  case (eth_receive frame s s' cs)
  then show ?thesis using eth_calls_return(3) [of a N s cs b frame] assms(2,3) by auto
next
  case (eth_aging s s' cs)
  then show ?thesis using eth_calls_return(4) [of a N s cs b] assms(2,3) by auto
next
  case (eth_request s ip s' cs)
  then show ?thesis using eth_calls_return(5) [of a N s cs b ip] assms(2,3) by auto
next
  case (eth_notify s s' cs)
  then show ?thesis using eth_calls_return(6) [of a N s cs b] assms(2,3) by auto
next
  case (eth_drain s s' cs)
  then show ?thesis using eth_calls_return(7) [of a N s cs b] assms(2,3) by auto
qed

lemma eth_clients_reachable:
  "eth_reachable b st st' \<Longrightarrow> eth_clients a N st \<Longrightarrow> eth_board_ok a N b \<Longrightarrow> eth_clients a N st'"
  by (induction rule: eth_reachable.induct) (auto intro: eth_clients_step)

lemma eth_clients_init:
  assumes "fnet_heap_init mem heap_ptr heap_size = Some (pool s)" "27 \<le> heap_size" "heap_ptr + heap_size < 4294967296"
    and "bufs s = Map.empty" "other_nbs s = []" "other_blocks s = []" "fnet_eth_init s tmr ev = (s', True)"
  obtains a N where "eth_clients a N (s', [])"
proof -
  obtain a N where i: "pool_inv 8 a N (pool s, Map.empty)"
    by (rule init_inv [OF assms(1) [unfolded fnet_heap_init_def]]) (use assms in simp_all)
  have s': "pool s' = pool s" "bufs s' = bufs s" "arp_table s' = replicate FNET_CFG_ARP_TABLE_SIZE zero_entry"
      "other_nbs s' = []" "other_blocks s' = []"
    using assms(5-7) by (auto simp: fnet_eth_init_def fnet_arp_init_def Let_def split: if_splits)
  have "arp_held (replicate n zero_entry) = []" for n by (induction n) (simp_all add: zero_entry_def)
  moreover have "arp_table_ok (replicate FNET_CFG_ARP_TABLE_SIZE zero_entry)"
    by (simp add: arp_table_ok_def zero_entry_def fnet_eth_null_addr_def total_ok_def)
  ultimately have "eth_clients a N (s', [])"
    using i s' assms(4) by (auto simp: eth_clients_def arp_inv_def net_inv_def nb_inv_def mem_ok_def mempool_owns_def)
  then show ?thesis by (rule that)
qed

section \<open>Memory that is enough\<close>

text \<open>
  When a free block has room for it, the Ethernet header is allocated at once, and what an output or
  the ARP cache takes from the heap it gives back.
\<close>

context roomy_allocator
begin

lemma room_has_memory:
  assumes "nb_inv owns X s L" "0 < k" "room (pool s) (k + 9)"
  shows "has_memory A s"
proof -
  have f: "14 + 12 \<le> (4294967296 :: nat)" "(14 + 19) div 8 = (4 :: nat)" by simp_all
  obtain s1 c where s1: "fnet_netbuf_new A (\<lambda>_. None) s 14 False = Some (s1, c)"
    using netbuf_new_ok [OF assms(1) f(1)] by blast
  have "c \<noteq> []" using netbuf_new_room(1) [OF assms(1) f(1) assms(2) _ s1] assms(3) by (simp add: add.commute)
  then show ?thesis using s1
    by (auto simp: has_memory_def fnet_netbuf_new_def malloc_drain_def fnet_malloc_netbuf_def bind_eq_Some_conv
        split: option.splits if_splits)
qed

lemma eth_output_room:
  assumes inv: "nb_inv owns X s (c @ R)" and c: "total_ok c" "c \<noteq> []" and b: "board_ok A owns b"
    and dest: "length dest = 6" and k: "0 < k" "room (pool s) (k + 9)" and run: "fnet_eth_output b s ty dest c = Some s'"
  shows "room (pool s') k"
proof -
  obtain mac where mac: "nt_alloc b = A" "nt_mtu b \<le> 65535" "nt_hw b = Some mac" "length mac = 6"
    using b by (auto simp: board_ok_def)
  show ?thesis
  proof (cases "nb_total_length (hd c) > nt_mtu b")
    case True
    then have "fnet_netbuf_free_chain A s c = Some s'" using run c(2) mac(1) by (simp add: fnet_eth_output_def)
    from free_chain_room [OF inv this k(2)] show ?thesis by (rule room_less) simp
  next
    case False
    then have fit: "\<not> nb_total_length (hd c) > nt_mtu b" "chain_length c \<le> nt_mtu b"
      using c by (simp_all add: total_ok_def)
    have fourteen: "14 + 12 \<le> (4294967296 :: nat)" by simp
    obtain s1 n where s1: "fnet_netbuf_new A (fnet_prot_drain b) s 14 True = Some (s1, [n])"
      using has_memory_new [OF room_has_memory [OF inv k]] by blast
    note r1 = netbuf_new_room [OF inv fourteen k(1) _ s1]
    have rm1: "room (pool s1) k" "fnet_netbuf_new A (fnet_prot_drain b) s 14 False = Some (s1, [n])"
      using r1(2,4) k(2) by (simp_all add: add.commute)
    have n: "nb_inv owns X s1 (n # c @ R)" "nb_length n = 14" "nb_total_length n = 14"
      "nb_off n = 0" "nb_data n \<notin> nb_data ` set (c @ R)" "length (bytes_at s1 (nb_data n)) = 14"
      using netbuf_new_ok [OF inv fourteen, of "fnet_prot_drain b"] rm1(2) by auto
    let ?hdr = "dest @ mac @ store16 (fnet_htons ty)"
    have "0 + length ?hdr \<le> length (bytes_at s1 (nb_data n))" using dest mac(4) n(6) by (simp add: store16_def)
    from write_own_ok [OF n(1,5) this] obtain s2 where
      s2: "write_data s1 (nb_data n) 0 ?hdr = Some s2" "nb_inv owns X s2 (n # c @ R)" by auto
    let ?c = "fnet_netbuf_concat [n] c"
    have i: "nb_inv owns X s2 ([n] @ c @ R)" using s2(2) by simp
    have t: "total_ok [n]" using n(2,3) by (simp add: total_ok_def)
    have "chain_length [n] + chain_length c < 4294967296" using fit(2) mac(2) n(2) by simp
    note cc = concat_ok(1) [OF i t c(1) this]
    have "fnet_fec_output b s2 ?c = Some s'"
      using run fit(1) s1 s2(1) n(4) mac(1,3) c(2) by (simp add: fnet_eth_output_def)
    then have "\<exists>s3. fnet_netbuf_free_chain A s3 ?c = Some s' \<and> pool s3 = pool s2 \<and> bufs s3 = bufs s2"
      using mac(1) by (fastforce simp: fnet_fec_output_def bind_eq_Some_conv simp del: fnet_netbuf_free_chain.simps split: list.splits if_splits)
    then obtain s3 where s3: "pool s3 = pool s2" "bufs s3 = bufs s2" "fnet_netbuf_free_chain A s3 ?c = Some s'" by blast
    have "nb_inv owns X s3 (?c @ R)" using same_mem_inv [of s2 s3 owns X "?c @ R"] s3(1,2) cc by (simp add: same_mem_def)
    from free_chain_room [OF this s3(3)] show ?thesis using rm1(1) s3(1) write_data_pool [OF s2(1)] by simp
  qed
qed

lemma add_entry_room:
  assumes inv: "nb_inv owns Y s (L @ held s)" and tbl: "arp_table s \<noteq> []" and al: "nt_alloc b = A"
    and run: "fnet_arp_add_entry b s ip mac = Some (s', i)" and r: "room (pool s) k"
  shows "room (pool s') k"
proof (cases "prot_index ip (arp_table s)")
  case (Some j)
  then have "pool s' = pool s" using run by (auto simp: fnet_arp_add_entry_def arp_get_ms_def set_entry_def)
  then show ?thesis using r by simp
next
  case None
  obtain rd j where rd: "(case prot_index 0 (arp_table s) of Some i \<Rightarrow> (s, i)
      | None \<Rightarrow> oldest_loop b s (arp_table s) 0 0 0) = (s\<lparr>reads := rd\<rparr>, j)" "j < length (arp_table s)"
  proof (cases "prot_index 0 (arp_table s)")
    case None
    obtain q k where "oldest_loop b s (arp_table s) 0 0 0 = (s\<lparr>reads := q\<rparr>, k)" "k = 0 \<or> (0 \<le> k \<and> k < 0 + length (arp_table s))"
      using oldest_loop_bound [of b s "arp_table s" 0 0 0] by blast
    with None tbl show ?thesis by (intro that [of q k]) auto
  next
    case (Some i)
    then show ?thesis using prot_index_SomeD [OF Some] that [of "reads s" i] by simp
  qed
  let ?s = "s\<lparr>reads := rd\<rparr>"
  let ?h = "hold (arp_table s ! j)"
  have "same_mem s ?s" by simp
  have "mset (L @ held s) = mset (?h @ L @ others_of j s)" using mset_held [OF rd(2)] by simp
  with inv have "nb_inv owns Y s (?h @ L @ others_of j s)" using nb_inv_perm [of "L @ held s" "?h @ L @ others_of j s" owns Y s] by simp
  then have i: "nb_inv owns Y ?s (?h @ L @ others_of j s)" using same_mem_inv [OF \<open>same_mem s ?s\<close>] by simp
  show ?thesis
  proof (cases "?h = []")
    case True
    then show ?thesis using run rd(1) None r
      by (auto simp: fnet_arp_add_entry_def arp_get_ms_def set_entry_def)
  next
    case False
    then obtain s1 where "fnet_netbuf_free_chain A ?s ?h = Some s1" "pool s' = pool s1"
      using run rd(1) None al by (auto simp: fnet_arp_add_entry_def arp_get_ms_def set_entry_def bind_eq_Some_conv)
    with free_chain_room [OF i this(1)] r show ?thesis by simp
  qed
qed

lemma arp_learn_room:
  assumes inv: "arp_inv owns X s L" and b: "board_ok A owns b" and h: "length (sender_hard_addr h) = 6"
    and k: "0 < k" "room (pool s) (k + 9)" and run: "arp_learn b s h = Some s'"
  shows "room (pool s') k"
proof -
  have al: "nt_alloc b = A" using b by (simp add: board_ok_def)
  let ?Y = "X \<union> set (other_blocks s)" and ?w = "waiting s (sender_prot_addr h)"
  have i: "nb_inv owns ?Y s (L @ held s)" "arp_table s \<noteq> []"
    using arp_invD(2,4) [OF inv] by (auto simp: arp_table_ok_def FNET_CFG_ARP_TABLE_SIZE_def)
  from learn_entry_ok [OF inv h al] obtain s1 entry where
    s1: "(if targer_prot_addr h = ip4_address s
          then do { (s, i) \<leftarrow> fnet_arp_add_entry b s (sender_prot_addr h) (sender_hard_addr h); Some (s, Some i) }
          else Some (fnet_arp_update_entry b s (sender_prot_addr h) (sender_hard_addr h))) = Some (s1, entry)"
      "arp_inv owns X s1 L"
    and e: "case entry of None \<Rightarrow> True
        | Some i \<Rightarrow> i < length (arp_table s1) \<and> hard_addr (arp_table s1 ! i) = sender_hard_addr h"
    by (auto split: option.splits)
  have r1: "room (pool s1) (k + 9)"
    using s1(1) k(2) add_entry_room [OF i al]
    by (auto simp: bind_eq_Some_conv fnet_arp_update_entry_def arp_get_ms_def set_entry_def split: if_splits option.splits)
  show ?thesis
  proof (cases "entry = None \<or> hold (arp_table s1 ! the entry) = []")
    case True
    then have "s' = s1" using run s1(1) by (auto simp: arp_learn_def split: option.splits)
    then show ?thesis using r1 by (auto intro: room_less)
  next
    case False
    then obtain j where j: "entry = Some j" "j < length (arp_table s1)" "hard_addr (arp_table s1 ! j) = sender_hard_addr h"
      "hold (arp_table s1 ! j) \<noteq> []" using e by auto
    let ?h = "hold (arp_table s1 ! j)"
    obtain s2 where s2: "fnet_eth_output b s1 FNET_ETH_TYPE_IP4 (sender_hard_addr h) ?h = Some s2" "pool s' = pool s2"
      using run s1(1) j by (auto simp: arp_learn_def bind_eq_Some_conv set_entry_def)
    have "mset (L @ held s1) = mset (?h @ L @ others_of j s1)" using mset_held [OF j(2)] by simp
    then have n: "nb_inv owns (X \<union> set (other_blocks s1)) s1 (?h @ L @ others_of j s1)"
      using arp_invD(2) [OF s1(2)] nb_inv_perm [of "L @ held s1" "?h @ L @ others_of j s1" owns "X \<union> set (other_blocks s1)" s1] by simp
    have "total_ok ?h" using arp_invD(4) [OF s1(2)] j(2) arp_table_nth by blast
    from eth_output_room [OF n this j(4) b h k(1) r1 s2(1)] show ?thesis by (simp add: s2(2))
  qed
qed

end

section \<open>Properties\<close>


definition quiet_board :: "mempool net_board" where
  "quiet_board = \<lparr>nt_alloc = main_pool, nt_ms = (\<lambda>k. 5000), nt_hw = Some [2, 0, 0, 0, 0, 1], nt_mtu = 1500,
     nt_drain = Some, nt_ip4 = fnet_netbuf_free_chain main_pool, nt_stale = (\<lambda>_ _. 0)\<rparr>"

lemma quiet_board_ok: "eth_board_ok a N quiet_board"
proof -
  have "ip4_input_ok (mempool_owns a N) quiet_board"
    unfolding ip4_input_ok_def using main.free_one_ok by (fastforce simp: quiet_board_def)
  then show ?thesis by (auto simp: eth_board_ok_def board_ok_def quiet_board_def)
qed

definition sample_net :: "mempool arp_net" where
  "sample_net = \<lparr>pool = sample_heap, bufs = Map.empty, raw = (\<lambda>_. 0), arp_table = [], arp_tmr = 0, arp_event = 0,
     arp_probe_ipaddr = 0, ip4_address = 0x0100000A, ip4_subnet = 0x0000000A, ip4_netbroadcast = 0xFFFFFF0A,
     ip4_subnetbroadcast = 0xFFFFFF0A, ip4_addr_conflict = False, raised = [], sent = [], reads = 0, eth_number = 0, other_nbs = [], other_blocks = []\<rparr>"

lemma drain_loop_more: "drain_loop A s es = Some (s', es') \<Longrightarrow> nbs.more s' = nbs.more s"
  by (induction es arbitrary: s s' es') (auto simp: bind_eq_Some_conv free_chain_more split: if_splits)

text \<open>
  A board whose IPv4 keeps every packet and whose drain frees all that the protocols above hold: the
  net buffers and the other blocks.
\<close>

fun free_blocks :: "nat list \<Rightarrow> mempool arp_net \<Rightarrow> mempool arp_net option" where
  "free_blocks [] s = Some s"
| "free_blocks (a # as) s = do { s \<leftarrow> fnet_free_netbuf main_pool s a; free_blocks as s }"

definition drop_others :: "mempool arp_net \<Rightarrow> mempool arp_net option" where
  "drop_others s =
     do {
       s \<leftarrow> fnet_netbuf_free_chain main_pool s (other_nbs s);
       s \<leftarrow> free_blocks (remdups (other_blocks s)) s;
       Some (s\<lparr>other_nbs := [], other_blocks := []\<rparr>)
     }"

definition keeping_board :: "mempool net_board" where
  "keeping_board = quiet_board\<lparr>nt_drain := drop_others, nt_ip4 := \<lambda>s c. Some (s\<lparr>other_nbs := other_nbs s @ c\<rparr>)\<rparr>"

lemma free_blocks_ok:
  "nb_inv (mempool_owns a N) (X \<union> set as) s L \<Longrightarrow> X \<inter> set as = {} \<Longrightarrow> distinct as \<Longrightarrow>
     \<exists>s'. free_blocks as s = Some s' \<and> nb_inv (mempool_owns a N) X s' L \<and> same_bytes s s' L \<and> nbs.more s' = nbs.more s"
proof (induction as arbitrary: s)
  case (Cons x as)
  have "nb_inv (mempool_owns a N) (insert x (X \<union> set as)) s L" "x \<notin> X \<union> set as" using Cons.prems by simp_all
  from main.free_fresh_ok [OF this] obtain s1 where
    s1: "fnet_free_netbuf main_pool s x = Some s1" "nbs.more s1 = nbs.more s"
      "nb_inv (mempool_owns a N) (X \<union> set as) s1 L" "same_bytes s s1 L" by blast
  from Cons.IH [OF s1(3)] Cons.prems(2,3) obtain s2 where
    "free_blocks as s1 = Some s2" "nb_inv (mempool_owns a N) X s2 L" "same_bytes s1 s2 L" "nbs.more s2 = nbs.more s1" by auto
  with s1 show ?case by (intro exI [of _ s2]) (simp add: same_bytes_def)
qed simp

lemma keeping_board_ok: "eth_board_ok a N keeping_board"
proof -
  have "\<exists>s'. drop_others s = Some s'
      \<and> nb_inv (mempool_owns a N) (X \<union> set (other_blocks s')) s' (L @ other_nbs s') \<and> same_bytes s s' L
      \<and> nbs.more s' = nbs.more (s\<lparr>other_nbs := other_nbs s', other_blocks := other_blocks s'\<rparr>)
      \<and> set (other_nbs s') \<subseteq> set (other_nbs s) \<and> set (other_blocks s') \<subseteq> set (other_blocks s)"
    if "nb_inv (mempool_owns a N) (X \<union> set (other_blocks s)) s (L @ other_nbs s)" "X \<inter> set (other_blocks s) = {}"
    for X s L
  proof -
    let ?Y = "X \<union> set (other_blocks s)"
    have "mset (L @ other_nbs s) = mset (other_nbs s @ L)" by simp
    from that(1) [unfolded nb_inv_perm [OF this, of "mempool_owns a N" ?Y s]] main.free_chain_ok obtain s1 where
      s1: "fnet_netbuf_free_chain main_pool s (other_nbs s) = Some s1" "nb_inv (mempool_owns a N) ?Y s1 L" "same_bytes s s1 L"
      by blast
    have "nb_inv (mempool_owns a N) (X \<union> set (remdups (other_blocks s))) s1 L" using s1(2) by simp
    from free_blocks_ok [OF this] that(2) obtain s2 where
      s2: "free_blocks (remdups (other_blocks s)) s1 = Some s2" "nb_inv (mempool_owns a N) X s2 L" "same_bytes s1 s2 L"
        "nbs.more s2 = nbs.more s1" by auto
    let ?s = "s2\<lparr>other_nbs := [], other_blocks := []\<rparr>"
    have m: "nbs.more s2 = nbs.more s" using s2(4) free_chain_more [OF s1(1)] by simp
    have "drop_others s = Some ?s"
      using s1(1) s2(1) more_table [OF free_chain_more [OF s1(1)]] by (simp add: drop_others_def)
    moreover have "nbs.more ?s = nbs.more (s\<lparr>other_nbs := [], other_blocks := []\<rparr>)" using m by (cases s; cases s2) simp
    moreover have "nb_inv (mempool_owns a N) X ?s L"
      using s2(2) same_mem_inv [of s2 ?s "mempool_owns a N" X L] by (simp add: same_mem_def)
    moreover have "same_bytes s ?s L" using s1(3) s2(3) by (auto simp: same_bytes_def bytes_at_def)
    ultimately show ?thesis by (intro exI [of _ ?s]) simp
  qed
  then have "board_ok main_pool (mempool_owns a N) keeping_board"
    by (simp add: board_ok_def keeping_board_def quiet_board_def)
  moreover have "ip4_input_ok (mempool_owns a N) keeping_board"
    unfolding ip4_input_ok_def
  proof (intro allI impI, elim conjE)
    fix X s n L
    assume inv: "arp_inv (mempool_owns a N) X s (n # L)"
    let ?s = "s\<lparr>other_nbs := other_nbs s @ [n]\<rparr>"
    have "mset ((n # L) @ held s) = mset (L @ held ?s)" by simp
    then have "nb_inv (mempool_owns a N) (X \<union> set (other_blocks s)) s (L @ held ?s)"
      using arp_invD(2) [OF inv] nb_inv_perm [of "(n # L) @ held s" "L @ held ?s" "mempool_owns a N"] by blast
    then have "nb_inv (mempool_owns a N) (X \<union> set (other_blocks s)) ?s (L @ held ?s)"
      using same_mem_inv [of s ?s "mempool_owns a N"] by (simp add: same_mem_def)
    then have "arp_inv (mempool_owns a N) X ?s L"
      using arp_invD(3,4) [OF inv] by (simp add: arp_inv_def net_inv_def)
    then show "\<exists>s'. nt_ip4 keeping_board s [n] = Some s' \<and> arp_inv (mempool_owns a N) X s' L"
      by (simp add: keeping_board_def)
  qed
  ultimately show ?thesis by (simp add: eth_board_ok_def)
qed

definition ip4_frame :: "u8 list" where
  "ip4_frame = fnet_eth_broadcast @ [2, 0, 0, 0, 0, 2] @ [8, 0] @ replicate 20 7"


text \<open>
  C33. ARP learns. A packet that is accepted and is for this host, or whose sender is already in the
  cache, leaves the sender's hardware address in the cache; the IPv4 packet that waited for it is sent
  to that address, as the driver puts it on the wire, unless it is longer than the interface's largest
  packet, and nothing waits any more. A request for our address is answered: exactly one reply is sent
  when the heap has a free block of at least 152 bytes (room for two Ethernet headers), and when it has
  not, the reply may be missing. Nothing else is sent. The packet is shorter than 2 GB, and a waiting
  packet has at least ten bytes and finds memory for its header at once (C36 is about the other case).
\<close>

theorem arp_input_learns:
  assumes "arp_inv (mempool_owns a N) X s (n # L)" "board_ok main_pool (mempool_owns a N) b"
    and "nb_length n = nb_total_length n" "28 \<le> nb_length n" "nb_length n < 2147483648" "h = arp_of (take 28 (nb_bytes s n))"
    and "arp_accepts b h" "sender_prot_addr h \<noteq> ip4_address s" "sender_hard_addr h \<noteq> fnet_eth_null_addr"
    and "targer_prot_addr h = ip4_address s \<or> prot_index (sender_prot_addr h) (arp_table s) \<noteq> None"
    and "w = waiting s (sender_prot_addr h)" "w = [] \<or> has_memory main_pool s \<and> 10 \<le> chain_length w" "28 \<le> nt_mtu b"
  shows "\<exists>s' r. fnet_arp_input b s [n] = Some s'
     \<and> fnet_arp_get_mac s' (sender_prot_addr h) = Some (sender_hard_addr h) \<and> waiting s' (sender_prot_addr h) = []
     \<and> sent s' = sent s @ (if w = [] \<or> nb_total_length (hd w) > nt_mtu b then []
          else [eth_frame b FNET_ETH_TYPE_IP4 (sender_hard_addr h) (on_wire (nb_flags (hd w)) (chain_bytes s w))]) @ r
     \<and> (r = [] \<or> r = [eth_frame b FNET_ETH_TYPE_ARP (sender_hard_addr h)
          (arp_bytes (arp_reply (the (nt_hw b)) (ip4_address s) h))])
     \<and> (r \<noteq> [] \<longrightarrow> arp_asks (ip4_address s) h)
     \<and> (arp_asks (ip4_address s) h \<and> (\<exists>free. fnet_mempool_malloc_max (pool s) = Some free \<and> 152 \<le> free) \<longrightarrow> r \<noteq> [])"
proof -
  let ?Y = "X \<union> set (other_blocks s)"
  have i: "nb_inv (mempool_owns a N) ?Y s (n # L @ held s)" using arp_invD(2) [OF assms(1)] by simp
  have "length (take 28 (nb_bytes s n)) = 28"
    using length_nb_bytes [of s n] nb_inv_in_buf [OF i, of n] assms(4) by simp
  then have hl: "length (sender_hard_addr h) = 6" using arp_of_lengths assms(6) by blast
  obtain s' s2 r where s': "fnet_arp_input b s [n] = Some s'" "arp_learn b s h = Some s2"
      "drained_from (s2\<lparr>sent := sent s2 @ r\<rparr>) s'"
      "r = [] \<or> arp_asks (ip4_address s) h \<and> r = [eth_frame b FNET_ETH_TYPE_ARP (sender_hard_addr h)
          (arp_bytes (arp_reply (the (nt_hw b)) (ip4_address s) h))]"
      "arp_asks (ip4_address s) h \<and> has_memory main_pool s2 \<and> 28 \<le> nt_mtu b \<longrightarrow> r \<noteq> []"
    using main.arp_input_ok [OF assms(1,3,2)] assms(4-8,11,12) by auto
  have hm: "w = [] \<or> has_memory main_pool s" using assms(12) by blast
  obtain k where k: "waiting s2 (sender_prot_addr h) = []" "prot_index (sender_prot_addr h) (arp_table s2) = Some k"
      "hard_addr (arp_table s2 ! k) = sender_hard_addr h" "arp_inv (mempool_owns a N) X s2 (n # L)"
      "nbs.more s2 = nbs.more (s\<lparr>arp_table := arp_table s2, reads := reads s2,
          sent := sent s @ (if w = [] \<or> nb_total_length (hd w) > nt_mtu b then []
            else [eth_tx b s FNET_ETH_TYPE_IP4 (sender_hard_addr h) w])\<rparr>)"
    using main.arp_learn_ok [OF assms(1,2) hl] s'(2) assms(10,11) hm by auto
  have d: "list_all2 drained (arp_table s2) (arp_table s')" "sent s' = sent s2 @ r"
    using drained_fromD(1,2) [OF s'(3)] by simp_all
  note dw = drained_waiting [OF d(1) k(2)]
  have kl: "k < length (arp_table s2)" using prot_index_SomeD [OF k(2)] by simp
  then have "drained (arp_table s2 ! k) (arp_table s' ! k)" using d(1) by (simp add: list_all2_conv_all_nth)
  then have hard: "hard_addr (arp_table s' ! k) = sender_hard_addr h" using k(3) by (auto simp: drained_def)
  have "fnet_memcmp (sender_hard_addr h) fnet_eth_null_addr 6 \<noteq> Some 0"
    using memcmp_eq [OF hl, of fnet_eth_null_addr] assms(9) by (simp add: fnet_eth_null_addr_def)
  then have "fnet_arp_get_mac s' (sender_prot_addr h) = Some (sender_hard_addr h)"
    using dw hard by (simp add: fnet_arp_get_mac_def fnet_arp_lookup_def)
  moreover have "waiting s' (sender_prot_addr h) = []" using dw k(1,2) by (auto simp: waiting_def)
  moreover have "eth_tx b s FNET_ETH_TYPE_IP4 (sender_hard_addr h) w
      = eth_frame b FNET_ETH_TYPE_IP4 (sender_hard_addr h) (on_wire (nb_flags (hd w)) (chain_bytes s w))" if "w \<noteq> []"
  proof -
    obtain mac where mac: "nt_hw b = Some mac" "length mac = 6" using assms(2) by (auto simp: board_ok_def)
    have "set w \<subseteq> set (held s)"
      using prot_index_SomeD [of "sender_prot_addr h" "arp_table s"] assms(11)
      by (auto simp: waiting_def arp_held_def split: option.splits intro!: bexI [OF _ nth_mem])
    then have "\<forall>m\<in>set w. in_buf s m" using nb_inv_in_buf [OF i] by auto
    then have "length (chain_bytes s w) = chain_length w" by (rule length_chain_bytes)
    then have "10 \<le> length (chain_bytes s w)" using assms(12) that by simp
    from tx_frame_ip4 [OF hl mac this] show ?thesis using that by (simp add: eth_tx_def chain_flags_def split: list.splits)
  qed
  moreover have "sent s2 = sent s @ (if w = [] \<or> nb_total_length (hd w) > nt_mtu b then []
          else [eth_tx b s FNET_ETH_TYPE_IP4 (sender_hard_addr h) w])"
    using k(5) by (cases s; cases s2) simp
  moreover have "r \<noteq> []" if "arp_asks (ip4_address s) h" "fnet_mempool_malloc_max (pool s) = Some free" "152 \<le> free" for free
  proof -
    have "mempool_owns a N (pool s) (dom (bufs s) \<union> (set (map nb_addr (n # L @ held s)) \<union> ?Y))"
      using main.nb_inv_mem(1) [OF i] by (simp add: mem_ok_def)
    from malloc_max_room [OF this that(2), of "(1 + 9) + 9"] that(3) have "mempool_room (pool s) ((1 + 9) + 9)" by simp
    from heap.arp_learn_room [OF assms(1,2) hl _ this s'(2)] have "mempool_room (pool s2) (1 + 9)" by simp
    from heap.room_has_memory [OF arp_invD(2) [OF k(4)] _ this] have "has_memory main_pool s2" by simp
    then show ?thesis using s'(5) that(1) assms(13) by blast
  qed
  ultimately show ?thesis using s'(1,4) d(2) by (rule_tac exI [of _ s'], rule_tac exI [of _ r]) auto
qed

text \<open>A request from 10.0.0.2 in a small heap in which nothing of five units is free.\<close>

definition request_bytes :: "u8 list" where
  "request_bytes = [0, 1, 8, 0, 6, 4, 0, 1, 2, 0, 0, 0, 0, 2, 10, 0, 0, 2, 0, 0, 0, 0, 0, 0, 10, 0, 0, 1]"

definition request_header :: arp_header where
  "request_header = \<lparr>hard_type = 256, prot_type = 8, hard_size = 6, prot_size = 4, op = 256,
     sender_hard_addr = [2, 0, 0, 0, 0, 2], sender_prot_addr = 0x0200000A, target_hard_addr = [0, 0, 0, 0, 0, 0],
     targer_prot_addr = 0x0100000A\<rparr>"

definition tight_heap :: mempool where
  "tight_heap = \<lparr>free_ptr = 4104, unit_size = 8,
     heap = (\<lambda>x. \<lparr>u_size = 0, u_ptr = 0\<rparr>)(4104 := \<lparr>u_size = 4, u_ptr = 4104\<rparr>,
       4136 := \<lparr>u_size = 5, u_ptr = 0\<rparr>, 4176 := \<lparr>u_size = 5, u_ptr = 0\<rparr>,
       4216 := \<lparr>u_size = 5, u_ptr = 0\<rparr>, 4256 := \<lparr>u_size = 4, u_ptr = 0\<rparr>)\<rparr>"

definition request_nb :: netbuf where
  "request_nb = \<lparr>nb_addr = 4144, nb_data = 4184, nb_off = 0, nb_length = 28, nb_total_length = 28, nb_flags = 0\<rparr>"

definition held_nb :: netbuf where
  "held_nb = \<lparr>nb_addr = 4224, nb_data = 4264, nb_off = 0, nb_length = 20, nb_total_length = 20, nb_flags = 0\<rparr>"

definition tight_net :: "netbuf list \<Rightarrow> mempool arp_net" where
  "tight_net c = sample_net\<lparr>pool := tight_heap,
     bufs := [4184 \<mapsto> \<lparr>refs = 1, bytes = request_bytes\<rparr>, 4264 \<mapsto> \<lparr>refs = 1, bytes = replicate 20 7\<rparr>],
     arp_table := zero_entry\<lparr>prot_addr := 0x0200000A, hold := c\<rparr> # replicate 9 zero_entry\<rparr>"

lemma request_header: "arp_of request_bytes = request_header"
  by code_simp

lemma request_accepts: "arp_accepts quiet_board request_header"
proof -
  have "fnet_htons 1 = 256" "fnet_htons FNET_ETH_TYPE_IP4 = 8" by code_simp+
  then show ?thesis
    by (simp add: arp_accepts_def request_header_def quiet_board_def fnet_eth_broadcast_def)
qed

lemma tight_inv:
  assumes "mset L + mset c = {#request_nb, held_nb#}" "total_ok c"
  shows "arp_inv (mempool_owns 4104 23) {} (tight_net c) L"
proof -
  let ?B = "[4144 \<mapsto> 28, 4184 \<mapsto> 32, 4224 \<mapsto> 28, 4264 \<mapsto> 24]"
  have "pool_inv 8 4104 23 (tight_heap, ?B)"
    unfolding pool_inv_def
    by (intro exI [of _ "[Free 4, Used 5, Used 5, Used 5, Used 4]"])
      (auto simp: tight_heap_def rep_def ring_def split: if_splits)
  moreover have "dom ?B = {4184, 4264} \<union> {4144, 4224}" by auto
  ultimately have "mempool_owns 4104 23 tight_heap ({4184, 4264} \<union> {4144, 4224})"
    unfolding mempool_owns_def by blast
  then have n: "nb_inv (mempool_owns 4104 23) {} (tight_net c) [request_nb, held_nb]"
    by (simp add: nb_inv_def mem_ok_def tight_net_def request_nb_def held_nb_def in_buf_def bytes_at_def
        request_bytes_def insert_commute)
  have "arp_held (replicate k zero_entry) = []" for k by (induction k) (simp_all add: zero_entry_def)
  then have "mset (L @ arp_held (arp_table (tight_net c))) = mset [request_nb, held_nb]"
    using assms(1) by (simp add: tight_net_def)
  note p = nb_inv_perm [OF this, of "mempool_owns 4104 23" "{}" "tight_net c"]
  have "arp_table_ok (arp_table (tight_net c))"
    using assms(2) by (simp add: arp_table_ok_def tight_net_def FNET_CFG_ARP_TABLE_SIZE_def zero_entry_def
        fnet_eth_null_addr_def total_ok_def)
  moreover have o: "other_nbs (tight_net c) = []" "other_blocks (tight_net c) = []" by (simp_all add: tight_net_def sample_net_def)
  moreover have "nb_inv (mempool_owns 4104 23) {} (tight_net c) (L @ arp_held (arp_table (tight_net c)))" unfolding p by (rule n)
  ultimately show ?thesis by (simp add: arp_inv_def net_inv_def)
qed

lemma tight_bytes: "take 28 (nb_bytes (tight_net c) request_nb) = request_bytes"
  by (simp add: nb_bytes_def bytes_at_def tight_net_def request_nb_def request_bytes_def)

text \<open>The same blocks, with a free block of 100 units behind them: the packet that waits is sent, and the reply.\<close>

definition roomy_heap :: mempool where
  "roomy_heap = tight_heap\<lparr>heap := (heap tight_heap)(4104 := \<lparr>u_size = 4, u_ptr = 4288\<rparr>, 4288 := \<lparr>u_size = 100, u_ptr = 4104\<rparr>)\<rparr>"

definition roomy_net :: "mempool arp_net" where
  "roomy_net = (tight_net [held_nb])\<lparr>pool := roomy_heap\<rparr>"

lemma roomy_inv: "arp_inv (mempool_owns 4104 123) {} roomy_net [request_nb]"
proof -
  let ?B = "[4144 \<mapsto> 28, 4184 \<mapsto> 32, 4224 \<mapsto> 28, 4264 \<mapsto> 24]"
  have "pool_inv 8 4104 123 (roomy_heap, ?B)"
    unfolding pool_inv_def
    by (intro exI [of _ "[Free 4, Used 5, Used 5, Used 5, Used 4, Free 100]"])
      (auto simp: roomy_heap_def tight_heap_def rep_def ring_def split: if_splits)
  moreover have "dom ?B = {4184, 4264} \<union> {4144, 4224}" by auto
  ultimately have "mempool_owns 4104 123 roomy_heap ({4184, 4264} \<union> {4144, 4224})"
    unfolding mempool_owns_def by blast
  then have "nb_inv (mempool_owns 4104 123) {} roomy_net [request_nb, held_nb]"
    by (simp add: nb_inv_def mem_ok_def roomy_net_def tight_net_def request_nb_def held_nb_def in_buf_def bytes_at_def
        request_bytes_def insert_commute)
  moreover have "arp_held (replicate k zero_entry) = []" for k by (induction k) (simp_all add: zero_entry_def)
  moreover have "total_ok [held_nb]" by (simp add: total_ok_def held_nb_def)
  then have "arp_table_ok (arp_table roomy_net)"
    by (simp add: arp_table_ok_def roomy_net_def tight_net_def FNET_CFG_ARP_TABLE_SIZE_def zero_entry_def
        fnet_eth_null_addr_def total_ok_def)
  ultimately show ?thesis by (simp add: arp_inv_def net_inv_def roomy_net_def tight_net_def sample_net_def)
qed

lemma arp_input_learns_witness:
  "\<exists>s'. fnet_arp_input quiet_board roomy_net [request_nb] = Some s'
     \<and> fnet_arp_get_mac s' 0x0200000A = Some [2, 0, 0, 0, 0, 2] \<and> waiting s' 0x0200000A = []
     \<and> sent s' = [eth_frame quiet_board FNET_ETH_TYPE_IP4 [2, 0, 0, 0, 0, 2] (on_wire 0 (replicate 20 7)),
          eth_frame quiet_board FNET_ETH_TYPE_ARP [2, 0, 0, 0, 0, 2]
            (arp_bytes (arp_reply [2, 0, 0, 0, 0, 1] 0x0100000A request_header))]"
proof -
  have w: "waiting roomy_net 0x0200000A = [held_nb]"
    by (simp add: waiting_def roomy_net_def tight_net_def)
  have b: "board_ok main_pool (mempool_owns 4104 123) quiet_board" using quiet_board_ok [of 4104 123] by (simp add: eth_board_ok_def)
  have own: "nb_inv (mempool_owns 4104 123) {} roomy_net (request_nb # [] @ held roomy_net)"
    using arp_invD(2) [OF roomy_inv] by (simp add: roomy_net_def tight_net_def sample_net_def)
  have "mempool_owns 4104 123 roomy_heap (dom (bufs roomy_net) \<union> (set (map nb_addr (request_nb # [] @ held roomy_net)) \<union> {}))"
    using main.nb_inv_mem(1) [OF own] by (simp add: mem_ok_def roomy_net_def)
  then have "rep roomy_heap 4104 [Free 4, Used 5, Used 5, Used 5, Used 4, Free 100]"
    by (auto simp: roomy_heap_def tight_heap_def rep_def ring_def split: if_splits)
  from malloc_max_eq [OF this] obtain m where
    "Free m \<in> {Free 4, Free 100}" "\<forall>k. Free k \<in> {Free 4, Free 100} \<longrightarrow> k \<le> m"
    "fnet_mempool_malloc_max roomy_heap = Some ((m - 1) * unit_size roomy_heap)" by auto
  then have mm: "fnet_mempool_malloc_max (pool roomy_net) = Some 792"
    by (auto simp: roomy_heap_def tight_heap_def roomy_net_def)
  have "mempool_room (pool roomy_net) (1 + 9)"
    unfolding mempool_room_def by (rule exI [of _ 1]) (simp add: roomy_net_def roomy_heap_def tight_heap_def)
  from heap.room_has_memory [OF own _ this] have hm: "has_memory main_pool roomy_net" by simp
  have bb: "nb_bytes roomy_net request_nb = request_bytes" "chain_bytes roomy_net [held_nb] = replicate 20 7"
    by (simp_all add: nb_bytes_def bytes_at_def roomy_net_def tight_net_def request_nb_def held_nb_def request_bytes_def)
  have h: "request_header = arp_of (take 28 (nb_bytes roomy_net request_nb))"
    using request_header by (simp add: bb(1) request_bytes_def)
  have q: "ip4_address roomy_net = 0x0100000A" "sent roomy_net = []" "sender_prot_addr request_header = 0x0200000A"
      "sender_hard_addr request_header = [2, 0, 0, 0, 0, 2]" "targer_prot_addr request_header = 0x0100000A"
      "nt_hw quiet_board = Some [2, 0, 0, 0, 0, 1]" "nt_mtu quiet_board = 1500" "nb_flags held_nb = 0"
      "nb_total_length held_nb = 20" "nb_length held_nb = 20"
    by (simp_all add: roomy_net_def tight_net_def sample_net_def request_header_def quiet_board_def held_nb_def)
  have asks: "arp_asks 0x0100000A request_header" by code_simp
  from arp_input_learns [OF roomy_inv b _ _ _ h request_accepts _ _ _ refl, unfolded q w] mm hm asks bb(2)
  show ?thesis
    by (auto simp: request_nb_def fnet_eth_null_addr_def q)
qed

text \<open>With a clock that stands still during the search, the entry found is the first of the oldest.\<close>

lemma oldest_loop_max:
  assumes "\<forall>k\<ge>reads s. nt_ms b k = now"
  shows "\<exists>r k. oldest_loop b s es i m j = (s\<lparr>reads := r\<rparr>, k) \<and> reads s \<le> r
     \<and> (k = j \<and> (\<forall>e\<in>set es. elapsed now (cr_time_ms e) \<le> m)
        \<or> (\<exists>p<length es. k = i + p \<and> m < elapsed now (cr_time_ms (es ! p))
             \<and> (\<forall>e\<in>set es. elapsed now (cr_time_ms e) \<le> elapsed now (cr_time_ms (es ! p)))))"
  using assms
proof (induction es arbitrary: s i m j)
  case Nil
  show ?case by (rule exI [of _ "reads s"], rule exI [of _ j]) simp
next
  case (Cons e es)
  let ?t = "elapsed now (cr_time_ms e)"
  have ms: "nt_ms b (reads s) = now" "nt_ms b (reads s + 1) = now" using Cons.prems by simp_all
  show ?case
  proof (cases "?t > m")
    case True
    let ?s = "s\<lparr>reads := reads s + 2\<rparr>"
    have eq: "oldest_loop b s (e # es) i m j = oldest_loop b ?s es (i + 1) ?t i"
      using True ms by (simp add: arp_get_ms_def)
    from Cons.IH [of ?s "i + 1" ?t i] Cons.prems obtain r k where
      rk: "oldest_loop b ?s es (i + 1) ?t i = (?s\<lparr>reads := r\<rparr>, k)" "reads s + 2 \<le> r"
        "k = i \<and> (\<forall>e\<in>set es. elapsed now (cr_time_ms e) \<le> ?t)
        \<or> (\<exists>p<length es. k = i + 1 + p \<and> ?t < elapsed now (cr_time_ms (es ! p))
             \<and> (\<forall>e\<in>set es. elapsed now (cr_time_ms e) \<le> elapsed now (cr_time_ms (es ! p))))" by auto
    from rk(3) have "\<exists>p<length (e # es). k = i + p \<and> m < elapsed now (cr_time_ms ((e # es) ! p))
             \<and> (\<forall>e'\<in>set (e # es). elapsed now (cr_time_ms e') \<le> elapsed now (cr_time_ms ((e # es) ! p)))"
    proof (elim disjE exE conjE)
      assume "k = i" "\<forall>e\<in>set es. elapsed now (cr_time_ms e) \<le> ?t"
      then show ?thesis using True by (intro exI [of _ 0]) simp
    next
      fix p
      assume "p < length es" "k = i + 1 + p" "?t < elapsed now (cr_time_ms (es ! p))"
        "\<forall>e\<in>set es. elapsed now (cr_time_ms e) \<le> elapsed now (cr_time_ms (es ! p))"
      then show ?thesis using True by (intro exI [of _ "Suc p"]) simp
    qed
    then show ?thesis using eq rk(1,2) by (rule_tac exI [of _ r], rule_tac exI [of _ k]) simp
  next
    case False
    let ?s = "s\<lparr>reads := reads s + 1\<rparr>"
    have eq: "oldest_loop b s (e # es) i m j = oldest_loop b ?s es (i + 1) m j"
      using False ms by (simp add: arp_get_ms_def)
    from Cons.IH [of ?s "i + 1" m j] Cons.prems obtain r k where
      rk: "oldest_loop b ?s es (i + 1) m j = (?s\<lparr>reads := r\<rparr>, k)" "reads s + 1 \<le> r"
        "k = j \<and> (\<forall>e\<in>set es. elapsed now (cr_time_ms e) \<le> m)
        \<or> (\<exists>p<length es. k = i + 1 + p \<and> m < elapsed now (cr_time_ms (es ! p))
             \<and> (\<forall>e\<in>set es. elapsed now (cr_time_ms e) \<le> elapsed now (cr_time_ms (es ! p))))" by auto
    from rk(3) have "k = j \<and> (\<forall>e'\<in>set (e # es). elapsed now (cr_time_ms e') \<le> m)
        \<or> (\<exists>p<length (e # es). k = i + p \<and> m < elapsed now (cr_time_ms ((e # es) ! p))
             \<and> (\<forall>e'\<in>set (e # es). elapsed now (cr_time_ms e') \<le> elapsed now (cr_time_ms ((e # es) ! p))))"
    proof (elim disjE exE conjE)
      fix p
      assume "p < length es" "k = i + 1 + p" "m < elapsed now (cr_time_ms (es ! p))"
        "\<forall>e\<in>set es. elapsed now (cr_time_ms e) \<le> elapsed now (cr_time_ms (es ! p))"
      then show ?thesis using False by (intro disjI2 exI [of _ "Suc p"]) simp
    qed (use False in simp)
    then show ?thesis using eq rk(1,2) by (rule_tac exI [of _ r], rule_tac exI [of _ k]) simp
  qed
qed

lemma replaced_gone:
  assumes "arp_table_ok es" "i < length es" "prot_addr (es ! i) \<noteq> 0" "prot_addr e \<noteq> prot_addr (es ! i)"
    and "\<forall>x\<in>set es. prot_addr x \<noteq> 0"
  shows "prot_index (prot_addr (es ! i)) (es[i := e]) = None"
proof -
  have "filter (\<lambda>a. a \<noteq> 0) (map prot_addr es) = map prot_addr es"
    using assms(5) by (simp add: filter_id_conv)
  then have d: "distinct (map prot_addr es)" using assms(1) by (simp add: arp_table_ok_def)
  have "prot_addr ((es[i := e]) ! k) \<noteq> prot_addr (es ! i)" if "k < length es" for k
  proof (cases "k = i")
    case False
    then have "prot_addr (es ! k) \<noteq> prot_addr (es ! i)"
      using d that assms(2) by (metis distinct_conv_nth length_map nth_map)
    then show ?thesis using False by simp
  qed (use assms(2,4) in simp)
  then have "prot_addr (es ! i) \<notin> set (map prot_addr (es[i := e]))"
    unfolding in_set_conv_nth by fastforce
  then show ?thesis unfolding prot_index_None_iff .
qed

text \<open>
  C34. A full cache makes room for a new address by giving up the oldest entry, no other; the packet
  that waited in it is freed, its address is no longer found, and the new one is.
\<close>

theorem arp_replaces_oldest:
  assumes "arp_inv (mempool_owns a N) X s L" "nt_alloc b = main_pool" "length mac = 6"
    and "\<forall>e\<in>set (arp_table s). prot_addr e \<noteq> 0" "prot_index ip (arp_table s) = None"
    and "\<forall>k\<ge>reads s. nt_ms b k = now"
  shows "\<exists>s' i e. fnet_arp_add_entry b s ip mac = Some (s', i) \<and> arp_inv (mempool_owns a N) X s' L \<and> i < 10
     \<and> (\<forall>x\<in>set (arp_table s). elapsed now (cr_time_ms x) \<le> elapsed now (cr_time_ms (arp_table s ! i)))
     \<and> arp_table s' = (arp_table s)[i := e] \<and> prot_addr e = ip \<and> hard_addr e = mac \<and> cr_time_ms e = now \<and> hold e = []
     \<and> fnet_arp_lookup s' (prot_addr (arp_table s ! i)) = None \<and> prot_index ip (arp_table s') = Some i"
proof -
  have tbl: "arp_table_ok (arp_table s)" and len: "length (arp_table s) = 10"
    using assms(1) by (simp_all add: arp_inv_def arp_table_ok_def FNET_CFG_ARP_TABLE_SIZE_def)
  from main.add_entry_ok [OF assms(1,3,2), of ip] assms(5) obtain s' i where
    s': "fnet_arp_add_entry b s ip mac = Some (s', i)" "arp_inv (mempool_owns a N) X s' L" "i < length (arp_table s')"
      "prot_index ip (arp_table s') = Some i" "hard_addr (arp_table s' ! i) = mac" "hold (arp_table s' ! i) = []" by auto
  obtain r k where rk: "oldest_loop b s (arp_table s) 0 0 0 = (s\<lparr>reads := r\<rparr>, k)" "reads s \<le> r"
      "k = 0 \<and> (\<forall>e\<in>set (arp_table s). elapsed now (cr_time_ms e) \<le> 0)
        \<or> (\<exists>p<length (arp_table s). k = 0 + p \<and> 0 < elapsed now (cr_time_ms (arp_table s ! p))
             \<and> (\<forall>e\<in>set (arp_table s). elapsed now (cr_time_ms e) \<le> elapsed now (cr_time_ms (arp_table s ! p))))"
    using oldest_loop_max [OF assms(6), of "arp_table s" 0 0 0] by blast
  have k: "k < length (arp_table s)"
    "\<forall>x\<in>set (arp_table s). elapsed now (cr_time_ms x) \<le> elapsed now (cr_time_ms (arp_table s ! k))"
    using rk(3) len by auto
  let ?s0 = "s\<lparr>reads := r\<rparr>"
  have "arp_inv (mempool_owns a N) X ?s0 L" using assms(1) by simp
  note i0 = arp_invD(2) [OF this]
  let ?c = "\<lambda>e. e\<lparr>hold := [], hold_time_ms := 0\<rparr>"
  have f: "hold (?c e) = [] \<and> prot_addr (?c e) = prot_addr e \<and> hard_addr (?c e) = hard_addr e" for e by simp
  have "k < length (arp_table ?s0)" using k(1) by simp
  from main.clear_hold_ok [where f = ?c, OF i0 this assms(2) f] obtain s1 e1 where
    s1: "(if hold (arp_table ?s0 ! k) \<noteq> []
       then do { s \<leftarrow> fnet_netbuf_free_chain (nt_alloc b) ?s0 (hold (arp_table ?s0 ! k));
                 Some (set_entry k ?c s) }
       else Some ?s0) = Some s1" "arp_table s1 = (arp_table ?s0)[k := e1]" "hold e1 = []" "reads s1 = reads ?s0"
    by (elim exE conjE) (rule that)
  have z: "prot_index 0 (arp_table s) = None" using assms(4) by (auto simp only: prot_index_None_iff set_map)
  have ms: "nt_ms b (reads s1) = now" using assms(6) s1(4) rk(2) by simp
  let ?e = "e1\<lparr>prot_addr := ip, hard_addr := mac, cr_time_ms := now\<rparr>"
  have "fnet_arp_add_entry b s ip mac
      = Some (set_entry k (\<lambda>e. e\<lparr>prot_addr := ip, hard_addr := mac, cr_time_ms := now\<rparr>) (s1\<lparr>reads := reads s1 + 1\<rparr>), k)"
    using assms(5) z rk(1) s1(1) ms by (simp add: fnet_arp_add_entry_def arp_get_ms_def)
  then have e: "i = k" "arp_table s' = (arp_table s)[k := ?e]" using s'(1) s1(2) k(1) by auto
  have ne: "ip \<noteq> prot_addr (arp_table s ! k)"
    using assms(5) [unfolded prot_index_None_iff] k(1) by auto
  have "prot_addr (arp_table s ! k) \<noteq> 0" using assms(4) k(1) by simp
  from replaced_gone [OF tbl k(1) this, of ?e] ne assms(4)
  have "fnet_arp_lookup s' (prot_addr (arp_table s ! i)) = None"
    using e by (simp add: fnet_arp_lookup_def)
  then show ?thesis
    using s'(1,2,4) e k len s1(3)
    by (rule_tac exI [of _ s'], rule_tac exI [of _ k], rule_tac exI [of _ ?e]) simp
qed

definition full_table :: "arp_entry list" where
  "full_table = map (\<lambda>k. zero_entry\<lparr>prot_addr := word_of_nat (k + 1), cr_time_ms := 1000 - k\<rparr>) [0..<10]"

definition full_net :: "mempool arp_net" where
  "full_net = sample_net\<lparr>arp_table := full_table\<rparr>"

lemma full_table: "full_table = [
   zero_entry\<lparr>prot_addr := 1, cr_time_ms := 1000\<rparr>, zero_entry\<lparr>prot_addr := 2, cr_time_ms := 999\<rparr>,
   zero_entry\<lparr>prot_addr := 3, cr_time_ms := 998\<rparr>, zero_entry\<lparr>prot_addr := 4, cr_time_ms := 997\<rparr>,
   zero_entry\<lparr>prot_addr := 5, cr_time_ms := 996\<rparr>, zero_entry\<lparr>prot_addr := 6, cr_time_ms := 995\<rparr>,
   zero_entry\<lparr>prot_addr := 7, cr_time_ms := 994\<rparr>, zero_entry\<lparr>prot_addr := 8, cr_time_ms := 993\<rparr>,
   zero_entry\<lparr>prot_addr := 9, cr_time_ms := 992\<rparr>, zero_entry\<lparr>prot_addr := 10, cr_time_ms := 991\<rparr>]"
  by (simp add: full_table_def upt_rec)

lemma full_net_inv: "arp_inv (mempool_owns 4104 127) {} full_net []"
proof -
  have "rep sample_heap 4104 [Free 127]" by (simp add: sample_heap_def rep_def ring_def)
  then have "pool_inv 8 4104 127 (sample_heap, Map.empty)"
    unfolding pool_inv_def by (intro exI [of _ "[Free 127]"]) (simp add: sample_heap_def)
  then have "mempool_owns 4104 127 sample_heap {}" by (auto simp: mempool_owns_def)
  then show ?thesis
    by (simp add: arp_inv_def net_inv_def nb_inv_def mem_ok_def full_net_def sample_net_def full_table arp_table_ok_def
        FNET_CFG_ARP_TABLE_SIZE_def zero_entry_def fnet_eth_null_addr_def total_ok_def)
qed

lemma arp_replaces_oldest_witness:
  "\<exists>s' i e. fnet_arp_add_entry quiet_board full_net 77 [1, 2, 3, 4, 5, 6] = Some (s', i)
     \<and> arp_table s' = (arp_table full_net)[i := e] \<and> prot_addr e = 77 \<and> hard_addr e = [1, 2, 3, 4, 5, 6]
     \<and> cr_time_ms e = 5000 \<and> prot_index 77 (arp_table s') = Some i"
proof -
  have "\<forall>e\<in>set (arp_table full_net). prot_addr e \<noteq> 0" "prot_index 77 (arp_table full_net) = None"
    by (simp_all add: full_net_def full_table)
  with arp_replaces_oldest [OF full_net_inv, of quiet_board "[1, 2, 3, 4, 5, 6]" 77 5000] show ?thesis
    by (auto simp: quiet_board_def)
qed

text \<open>
  C35. Aging is exact: one run of the timer at time \<open>now\<close> erases the entries that are more than
  1200 seconds old, frees the packets that waited in them and changes no other entry; the time since
  an entry's creation is right also across the wrap-around of the clock.
\<close>

theorem arp_aging_exact:
  assumes "arp_inv (mempool_owns a N) X s L" "nt_alloc b = main_pool" "\<forall>k\<ge>reads s. nt_ms b k = w32 now"
    and "\<forall>e\<in>set (arp_table s). \<exists>t. cr_time_ms e = w32 t \<and> t = created e \<and> t \<le> now \<and> now - t < 4294967296"
  shows "\<exists>s'. fnet_arp_timer b s = Some s' \<and> arp_inv (mempool_owns a N) X s' L \<and> sent s' = sent s
     \<and> arp_table s' = map (\<lambda>e. if prot_addr e \<noteq> 0 \<and> now - created e > 1200000 then zero_entry else e) (arp_table s)"
proof -
  obtain s' where s': "fnet_arp_timer b s = Some s'" "arp_inv (mempool_owns a N) X s' L"
      "nbs.more s' = nbs.more (s\<lparr>arp_table := arp_table s', reads := reads s'\<rparr>)"
      "arp_table s' = map (age (w32 now)) (arp_table s)"
    using main.arp_timer_ok [OF assms(1,2)] assms(3) by blast
  have "age (w32 now) e = (if prot_addr e \<noteq> 0 \<and> now - created e > 1200000 then zero_entry else e)"
    if "e \<in> set (arp_table s)" for e
  proof -
    have c: "cr_time_ms e = w32 (created e)" "created e \<le> now" "now - created e < 4294967296" using assms(4) that by auto
    then obtain d where d: "now = created e + d" "d < 4294967296" by (metis le_add_diff_inverse)
    show ?thesis using mod_elapsed [OF d(2), of "created e"] by (simp add: age_def elapsed_def c(1) d(1))
  qed
  then have "arp_table s' = map (\<lambda>e. if prot_addr e \<noteq> 0 \<and> now - created e > 1200000 then zero_entry else e) (arp_table s)"
    unfolding s'(4) by (rule map_cong [OF refl])
  moreover have "sent s' = sent s" using s'(3) by (cases s; cases s') simp
  ultimately show ?thesis using s'(1,2) by blast
qed

lemma arp_aging_exact_witness:
  "\<exists>s'. fnet_arp_timer (quiet_board\<lparr>nt_ms := \<lambda>k. w32 1200994\<rparr>) full_net = Some s' \<and> sent s' = []
     \<and> arp_table s' = map (\<lambda>e. if prot_addr e \<noteq> 0 \<and> 1200994 - cr_time_ms e > 1200000 then zero_entry else e) full_table"
proof -
  have "\<forall>e\<in>set (arp_table full_net). \<exists>t. cr_time_ms e = w32 t \<and> t = cr_time_ms e \<and> t \<le> 1200994 \<and> 1200994 - t < 4294967296"
    by (simp add: full_net_def full_table)
  from arp_aging_exact [OF full_net_inv _ _ this, of "quiet_board\<lparr>nt_ms := \<lambda>k. w32 1200994\<rparr>"] show ?thesis
    by (auto simp: quiet_board_def full_net_def sample_net_def)
qed

section \<open>A packet that is freed while it is sent\<close>

text \<open>
  \<^verbatim>\<open>_fnet_arp_input\<close> passes the packet that waits in an entry to \<^verbatim>\<open>_fnet_eth_output\<close>
  while the entry still points to it. When the header cannot be allocated at once, the drain frees the
  packet, and the output goes on with it.
\<close>

lemma drain_loop_idle: "arp_held es = [] \<Longrightarrow> drain_loop A s es = Some (s, es)"
  by (induction es) auto

lemma prot_drain_idle: "arp_held (arp_table s) = [] \<Longrightarrow> nt_drain b = Some \<Longrightarrow> fnet_prot_drain b s = Some s"
  by (simp add: fnet_prot_drain_def fnet_eth_drain_def fnet_arp_drain_def drain_loop_idle)

lemma malloc_bufs: "fnet_malloc_netbuf A s n = Some (s', a) \<Longrightarrow> bufs s' = bufs s \<and> nbs.more s' = nbs.more s"
  by (auto simp: fnet_malloc_netbuf_def bind_eq_Some_conv)

lemma malloc_idle:
  assumes "malloc_drain A (fnet_prot_drain b) s n True = Some (s', a)" "arp_held (arp_table s) = []" "nt_drain b = Some"
  shows "bufs s' = bufs s \<and> arp_table s' = arp_table s"
proof -
  obtain s1 a1 where s1: "fnet_malloc_netbuf A s n = Some (s1, a1)" "bufs s1 = bufs s" "arp_table s1 = arp_table s"
    using assms(1) malloc_bufs more_table by (fastforce simp: malloc_drain_def bind_eq_Some_conv)
  show ?thesis
  proof (cases "a1 = 0")
    case True
    have "fnet_prot_drain b s1 = Some s1" by (rule prot_drain_idle [OF _ assms(3)]) (simp add: s1(3) assms(2))
    then have "fnet_malloc_netbuf A s1 n = Some (s', a)" using assms(1) s1(1) True by (simp add: malloc_drain_def)
    then show ?thesis using malloc_bufs [of A s1 n s' a] more_table [of s' s1] s1(2,3) by simp
  next
    case False
    then show ?thesis using assms(1) s1 by (simp add: malloc_drain_def)
  qed
qed

text \<open>A header in memory from which the packet \<open>m\<close> has gone.\<close>

lemma output_of_freed:
  assumes "bufs s = B \<or> (\<exists>d x. bufs s = B(d \<mapsto> x) \<and> length (bytes x) = 14)" "B (nb_data m) = None"
    and "14 < nb_length m"
  shows "read_data s (nb_data m) (nb_off m) (nb_length m) = None"
  using assms by (auto simp: read_data_def)

lemma free_freed: "bufs s (nb_data m) = None \<Longrightarrow> fnet_netbuf_free_chain A s [m] = None"
  by (simp add: release_data_def)

context block_allocator
begin

lemma drained_buffer_gone:
  assumes "arp_inv owns X s L" "board_ok A owns b" "nt_drain b = Some" "i < length (arp_table s)"
    and "nb_data m \<notin> nb_data ` set (L @ other_nbs s)"
  shows "\<exists>s'. fnet_prot_drain b s = Some s' \<and> arp_held (arp_table s') = [] \<and> bufs s' (nb_data m) = None"
proof -
  let ?Y = "X \<union> set (other_blocks s)"
  have "mset (L @ held s) = mset ((L @ other_nbs s) @ arp_held (arp_table s))" by simp
  then have "nb_inv owns ?Y s ((L @ other_nbs s) @ arp_held (arp_table s))"
    using arp_invD(2) [OF assms(1)] nb_inv_perm [of "L @ held s" "(L @ other_nbs s) @ arp_held (arp_table s)" owns ?Y s] by blast
  from drain_loop_ok [OF this] obtain s1 es where
    s1: "drain_loop A s (arp_table s) = Some (s1, es)" "nb_inv owns ?Y s1 ((L @ other_nbs s) @ arp_held es)"
      "arp_held es = []" by blast
  have "set (map nb_data (L @ other_nbs s)) = dom (bufs s1)" using s1(2,3) by (auto simp: nb_inv_def mem_ok_def)
  then have "nb_data m \<notin> dom (bufs s1)" using assms(5) by auto
  then have "bufs s1 (nb_data m) = None" by blast
  moreover have "nt_alloc b = A" using assms(2) by (simp add: board_ok_def)
  ultimately show ?thesis
    using s1(1,3) assms(3)
    by (intro exI [of _ "s1\<lparr>arp_table := es\<rparr>"]) (simp add: fnet_prot_drain_def fnet_eth_drain_def fnet_arp_drain_def)
qed

lemma eth_output_freed:
  assumes "arp_inv owns X s L" "board_ok A owns b" "nt_drain b = Some" "i < length (arp_table s)"
    and "nb_data m \<notin> nb_data ` set (L @ other_nbs s)" "14 < nb_length m" "nb_total_length m = nb_length m" "nb_length m \<le> nt_mtu b"
    and "a_malloc A (pool s) sizeof_netbuf = Some (p, 0)"
  shows "fnet_eth_output b s ty dest [m] = None"
proof (rule ccontr)
  assume "fnet_eth_output b s ty dest [m] \<noteq> None"
  then obtain t where t: "fnet_eth_output b s ty dest [m] = Some t" by blast
  obtain mac where b: "nt_alloc b = A" "nt_hw b = Some mac" "nt_mtu b \<le> 65535"
    using assms(2) by (auto simp: board_ok_def)
  let ?s0 = "s\<lparr>pool := p\<rparr>"
  have m0: "fnet_malloc_netbuf A s sizeof_netbuf = Some (?s0, 0)" using assms(9) by (simp add: fnet_malloc_netbuf_def)
  have "sizeof_netbuf + 8 \<le> 4294967296" by (simp add: sizeof_netbuf_def)
  with arp_invD(2) [OF assms(1)] have "nb_inv owns (X \<union> set (other_blocks s)) ?s0 (L @ held s)"
    using malloc_fresh_ok m0 by (metis option.inject prod.inject)
  then have "arp_inv owns X ?s0 L" using assms(1) by (simp add: arp_inv_def net_inv_def)
  moreover have "nb_data m \<notin> nb_data ` set (L @ other_nbs ?s0)" using assms(5) by simp
  ultimately obtain s1 where
    s1: "fnet_prot_drain b ?s0 = Some s1" "arp_held (arp_table s1) = []" "bufs s1 (nb_data m) = None"
    using drained_buffer_gone [OF _ assms(2,3), of X ?s0 L i m] assms(4) by auto
  let ?dr = "fnet_prot_drain b"
  obtain s2 h where s2: "fnet_netbuf_new A ?dr s 14 True = Some (s2, h)"
    using t assms(7,8) b(1) by (auto simp: fnet_eth_output_def bind_eq_Some_conv)
  have h: "h = [] \<and> bufs s2 = bufs s1 \<or> (\<exists>n x. h = [n] \<and> nb_length n = 14 \<and> nb_total_length n = 14
      \<and> bufs s2 = (bufs s1)(nb_data n \<mapsto> x) \<and> length (bytes x) = 14)"
  proof -
    obtain s3 a where s3: "malloc_drain A ?dr s sizeof_netbuf True = Some (s3, a)"
      using s2 by (auto simp: fnet_netbuf_new_def bind_eq_Some_conv)
    then have "fnet_malloc_netbuf A s1 sizeof_netbuf = Some (s3, a)" using m0 s1(1) by (simp add: malloc_drain_def)
    note k3 = malloc_bufs [OF this]
    have held3: "arp_held (arp_table s3) = []" using k3 more_table [of s3 s1] s1(2) by simp
    show ?thesis
    proof (cases "a = 0")
      case True
      then show ?thesis using s2 s3 k3 by (simp add: fnet_netbuf_new_def)
    next
      case False
      obtain s4 d where s4: "malloc_drain A ?dr s3 18 True = Some (s4, d)"
        using s2 s3 False by (auto simp: fnet_netbuf_new_def bind_eq_Some_conv)
      note k4 = malloc_idle [OF s4 held3 assms(3)]
      show ?thesis
      proof (cases "d = 0")
        case True
        then show ?thesis
          using s2 s3 s4 False k3 k4 by (auto simp: fnet_netbuf_new_def fnet_free_netbuf_def bind_eq_Some_conv)
      next
        case d: False
        then have "s2 = new_data s4 d 14"
          "h = [\<lparr>nb_addr = a, nb_data = d, nb_off = 0, nb_length = 14, nb_total_length = 14, nb_flags = 0\<rparr>]"
          using s2 s3 s4 False by (simp_all add: fnet_netbuf_new_def)
        then show ?thesis using k3 k4 by (intro disjI2) (simp add: new_data_def raw_bytes_def, rule exI, rule conjI [OF refl], simp)
      qed
    qed
  qed
  from h show False
  proof (elim disjE exE conjE)
    assume "h = []" "bufs s2 = bufs s1"
    then show False
      using t s2 assms(7,8) b(1) free_freed [of s2 m A] s1(3) by (simp add: fnet_eth_output_def)
  next
    fix n x
    assume n: "h = [n]" "nb_length n = 14" "nb_total_length n = 14" "bufs s2 = (bufs s1)(nb_data n \<mapsto> x)"
      "length (bytes x) = 14"
    obtain s3 where s3: "write_data s2 (nb_data n) (nb_off n) (dest @ mac @ store16 (fnet_htons ty)) = Some s3"
      "fnet_fec_output b s3 (fnet_netbuf_concat [n] [m]) = Some t"
      using t s2 n(1) assms(7,8) b(1,2) by (auto simp: fnet_eth_output_def bind_eq_Some_conv)
    define w where "w = dest @ mac @ store16 (fnet_htons ty)"
    let ?x = "x\<lparr>bytes := take (nb_off n) (bytes x) @ w @ drop (nb_off n + length w) (bytes x)\<rparr>"
    have "bufs s3 = (bufs s1)(nb_data n \<mapsto> ?x)" "length (bytes ?x) = 14"
      using s3(1) [folded w_def] n(4,5) by (auto simp: write_data_def bind_eq_Some_conv split: if_splits)
    then have "bufs s3 = bufs s1 \<or> (\<exists>d x. bufs s3 = (bufs s1)(d \<mapsto> x) \<and> length (bytes x) = 14)" by blast
    from output_of_freed [OF this s1(3) assms(6)]
    have rd: "read_data s3 (nb_data m) (nb_off m) (nb_length m) = None" .
    have "fnet_netbuf_to_buf s3 (fnet_netbuf_concat [n] [m]) 0 FNET_NETBUF_COPYALL = None"
      using assms(6,8) b(3) n(2) rd
      by (simp add: fnet_netbuf_to_buf_def fnet_netbuf_concat_def FNET_NETBUF_COPYALL_def locate_def Let_def
          split: Option.bind_splits)
    then show False using s3(2) assms(7,8) b(3) n(3) by (simp add: fnet_fec_output_def fnet_netbuf_concat_def)
  qed
qed

end

text \<open>
  C36. The defect. An accepted packet from an address for which an IPv4 packet waits makes
  \<^verbatim>\<open>_fnet_arp_input\<close> read freed memory when the memory for the Ethernet header is not free at
  once: the drain that the allocation calls frees the waiting packet, which is then sent. The model has
  no value for such a run.
\<close>

theorem arp_flush_uses_freed:
  assumes "arp_inv (mempool_owns a N) X s (n # L)" "board_ok main_pool (mempool_owns a N) b" "nt_drain b = Some"
    and "nb_length n = nb_total_length n" "28 \<le> nb_length n" "h = arp_of (take 28 (nb_bytes s n))"
    and "arp_accepts b h" "sender_prot_addr h \<noteq> ip4_address s"
    and "waiting s (sender_prot_addr h) = [m]" "14 < nb_length m" "nb_length m \<le> nt_mtu b"
    and "nb_data m \<notin> nb_data ` set (n # L @ other_nbs s)" "fnet_mempool_malloc (pool s) sizeof_netbuf = Some (p, 0)"
  shows "fnet_arp_input b s [n] = None"
proof -
  have i: "nb_inv (mempool_owns a N) (X \<union> set (other_blocks s)) s (n # L @ held s)" using arp_invD(2) [OF assms(1)] by simp
  obtain c where acc: "fnet_arp_input b s [n] =
      do {
        s \<leftarrow> (if sender_prot_addr h \<noteq> ip4_address s then arp_learn b s h else Some (arp_check_conflict s h));
        arp_answer b s h (the (nt_hw b)) n c
      }" "length (sender_hard_addr h) = 6" by (rule main.arp_input_begins [OF i assms(4,5,2,6,7)])
  have alloc: "nt_alloc b = main_pool" using assms(2) by (simp add: board_ok_def)
  have w: "waiting s (sender_prot_addr h) \<noteq> []" using assms(9) by simp
  obtain s1 k where s1: "(if targer_prot_addr h = ip4_address s
          then do { (s, i) \<leftarrow> fnet_arp_add_entry b s (sender_prot_addr h) (sender_hard_addr h); Some (s, Some i) }
          else Some (fnet_arp_update_entry b s (sender_prot_addr h) (sender_hard_addr h))) = Some (s1, Some k)"
      "arp_inv (mempool_owns a N) X s1 (n # L)" "same_mem s s1" "k < length (arp_table s1)"
      "hold (arp_table s1 ! k) = [m]" "other_nbs s1 = other_nbs s"
    using main.learn_entry_ok [OF assms(1) acc(2) alloc] w assms(9) by (fastforce split: option.splits dest: only_tableD(7))
  have "arp_table_ok (arp_table s1)" using s1(2) by (simp add: arp_inv_def)
  then have t: "nb_total_length m = nb_length m"
    using s1(5) nth_mem [OF s1(4)] by (fastforce simp: arp_table_ok_def total_ok_def)
  have "a_malloc main_pool (pool s1) sizeof_netbuf = Some (p, 0)"
    using s1(3) assms(13) by (simp add: same_mem_def main_pool_def)
  moreover have "nb_data m \<notin> nb_data ` set ((n # L) @ other_nbs s1)" using assms(12) s1(6) by simp
  ultimately have "fnet_eth_output b s1 ty dest [m] = None" for ty dest
    using main.eth_output_freed [OF s1(2) assms(2,3) s1(4) _ assms(10) t assms(11)] by blast
  then have "arp_learn b s h = None" using s1(1,5) by (simp add: arp_learn_def)
  then show ?thesis using acc(1) assms(8) by simp
qed

lemma tight_malloc: "fnet_mempool_malloc tight_heap 28 = Some (tight_heap, 0)"
proof -
  have "best_find (heap tight_heap) 4104 5 4104 4104 4104 0 = Some (4104, 0)"
    by (subst best_find.simps) (simp add: tight_heap_def)
  then show ?thesis by (simp add: fnet_mempool_malloc_def nunits_of_def tight_heap_def Let_def)
qed

lemma arp_flush_uses_freed_witness: "fnet_arp_input quiet_board (tight_net [held_nb]) [request_nb] = None"
proof -
  have i: "arp_inv (mempool_owns 4104 23) {} (tight_net [held_nb]) [request_nb]"
    by (rule tight_inv) (simp_all add: total_ok_def held_nb_def)
  have h: "request_header = arp_of (take 28 (nb_bytes (tight_net [held_nb]) request_nb))"
    by (simp add: tight_bytes request_header)
  have m: "fnet_mempool_malloc (pool (tight_net [held_nb])) sizeof_netbuf = Some (tight_heap, 0)"
    using tight_malloc by (simp add: tight_net_def sizeof_netbuf_def)
  have w: "waiting (tight_net [held_nb]) (sender_prot_addr request_header) = [held_nb]"
    by (simp add: waiting_def tight_net_def request_header_def)
  have b: "board_ok main_pool (mempool_owns 4104 23) quiet_board"
    using quiet_board_ok [of 4104 23] by (simp add: eth_board_ok_def)
  show ?thesis
    by (rule arp_flush_uses_freed [OF i b _ _ _ h request_accepts _ w _ _ _ m])
      (simp_all add: quiet_board_def request_nb_def held_nb_def request_header_def tight_net_def sample_net_def)
qed

end
