(* ===== verification/Fnet_Serial.thy ===== *)
theory Fnet_Serial
  imports Fnet_String "HOL-Library.Signed_Division" "HOL-Library.Monad_Syntax"
begin

unbundle bit_operations_syntax

text \<open>
  Formatted output, \<^verbatim>\<open>FNET/src/service/serial/fnet_serial.c\<close>, with which the stack and its
  services make every text. \<open>fnet_serial_vprintf\<close> is the interpreter of format strings; what
  it passes to \<^verbatim>\<open>fnet_serial_putchar\<close> is collected in order, and \<open>send\<close> gives the
  collected characters to the \<^verbatim>\<open>putchar\<close> of a stream: the interpreter does not read what
  the stream does with them. A format is read byte by byte; a read behind its end, an argument that is
  missing or of another kind, and a digit stored outside \<^verbatim>\<open>vstr[33]\<close> are the value \<open>None\<close>.
\<close>

section \<open>State\<close>

text \<open>An argument: a 32-bit integer, a string, the null pointer, or the address of an integer.\<close>

datatype va = VInt u32 | VStr "u8 list" | VNull | VPtr nat

text \<open>The characters written, \<^verbatim>\<open>count\<close>, the integers stored by \<^verbatim>\<open>%n\<close>, and \<^verbatim>\<open>arg\<close>.\<close>

record pf =
  pf_out :: "u8 list"
  pf_count :: nat
  pf_cells :: "nat \<Rightarrow> u32 option"
  pf_args :: "va list"

definition emit :: "u8 \<Rightarrow> pf \<Rightarrow> pf" where
  "emit c st = st\<lparr>pf_out := pf_out st @ [c], pf_count := w32 (pf_count st + 1)\<rparr>"

definition next_arg :: "pf \<Rightarrow> (va \<times> pf) option" where
  "next_arg st = (case pf_args st of [] \<Rightarrow> None | a # as \<Rightarrow> Some (a, st\<lparr>pf_args := as\<rparr>))"

definition int_arg :: "pf \<Rightarrow> (u32 \<times> pf) option" where
  "int_arg st = do { (a, st) \<leftarrow> next_arg st; case a of VInt v \<Rightarrow> Some (v, st) | _ \<Rightarrow> None }"

definition ptr_arg :: "pf \<Rightarrow> (u32 \<times> pf) option" where
  "ptr_arg st =
     do { (a, st) \<leftarrow> next_arg st; case a of VPtr p \<Rightarrow> Some (of_nat p, st) | VNull \<Rightarrow> Some (0, st) | _ \<Rightarrow> None }"

section \<open>Digits\<close>

definition is_digit :: "u8 \<Rightarrow> bool" where
  "is_digit c = (c \<ge> 48 \<and> c \<le> 57)"

text \<open>
  \<^verbatim>\<open>_fnet_serial_printk_mknumstr\<close>: a NUL and behind it the digits, the lowest first. \<open>vstr\<close>
  is the part of the array that is written.
\<close>

definition push_digit :: "u8 list \<Rightarrow> u8 \<Rightarrow> u8 list option" where
  "push_digit vstr c = (if length vstr < 33 then Some (vstr @ [c]) else None)"

partial_function (option) signed_digits :: "nat \<Rightarrow> int \<Rightarrow> u8 list \<Rightarrow> nat \<Rightarrow> (u8 list \<times> nat) option" where
  "signed_digits radix a vstr nlen =
     (if a \<noteq> 0
      then let b = a sdiv int radix;
               c = a - b * int radix;
               c = (if c < 0 then sint (NOT (word_of_int c) + 1 + 48 :: u32) else c + 48)
           in do { vstr \<leftarrow> push_digit vstr (word_of_int c); signed_digits radix b vstr (nlen + 1) }
      else Some (vstr, nlen))"

partial_function (option) unsigned_digits :: "nat \<Rightarrow> u32 \<Rightarrow> u8 list \<Rightarrow> nat \<Rightarrow> (u8 list \<times> nat) option" where
  "unsigned_digits radix ua vstr nlen =
     (if ua \<noteq> 0
      then let ub = ua div of_nat radix;
               uc = ua - ub * of_nat radix;
               uc = (if uc < 10 then uc + 48 else uc - 10 + 97)
           in do { vstr \<leftarrow> push_digit vstr (ucast uc); unsigned_digits radix ub vstr (nlen + 1) }
      else Some (vstr, nlen))"

definition fnet_serial_printk_mknumstr :: "u32 \<Rightarrow> bool \<Rightarrow> nat \<Rightarrow> (u8 list \<times> nat) option" where
  "fnet_serial_printk_mknumstr num neg radix =
     do {
       vstr \<leftarrow> push_digit [] 0;
       if num = 0 then do { vstr \<leftarrow> push_digit vstr 48; Some (vstr, 1) }
       else if neg then signed_digits radix (sint num) vstr 0
       else unsigned_digits radix num vstr 0
     }"

section \<open>Output of one directive\<close>

function fnet_serial_printk_pad :: "u8 \<Rightarrow> nat \<Rightarrow> nat \<Rightarrow> pf \<Rightarrow> pf" where
  "fnet_serial_printk_pad c i field_width st =
     (if i < field_width then fnet_serial_printk_pad c (i + 1) field_width (emit c st) else st)"
  by pat_completeness auto

termination
  by (relation "measure (\<lambda>(c, i, field_width, st). field_width - i)") auto

declare fnet_serial_printk_pad.simps [simp del]

text \<open>\<open>while(*vstrp) putchar(*vstrp--)\<close>, from the index \<open>i\<close> of \<open>vstr\<close>.\<close>

fun print_back :: "u8 list \<Rightarrow> nat \<Rightarrow> pf \<Rightarrow> pf option" where
  "print_back vstr 0 st = (if vstr \<noteq> [] \<and> vstr ! 0 = 0 then Some st else None)"
| "print_back vstr (Suc i) st =
     (if Suc i < length vstr
      then if vstr ! Suc i \<noteq> 0 then print_back vstr i (emit (vstr ! Suc i) st) else Some st
      else None)"

text \<open>The first \<open>n\<close> characters of a string.\<close>

fun print_str :: "u8 list \<Rightarrow> nat \<Rightarrow> pf \<Rightarrow> pf option" where
  "print_str s 0 st = Some st"
| "print_str [] (Suc n) st = None"
| "print_str (c # s) (Suc n) st = print_str s n (emit c st)"

text \<open>The tests of \<^verbatim>\<open>flags_used\<close>.\<close>

definition FNET_SERIAL_IS_FLAG_MINUS :: "u32 \<Rightarrow> bool" where
  "FNET_SERIAL_IS_FLAG_MINUS a = (a AND 0x01 \<noteq> 0)"

definition FNET_SERIAL_IS_FLAG_PLUS :: "u32 \<Rightarrow> bool" where
  "FNET_SERIAL_IS_FLAG_PLUS a = (a AND 0x02 \<noteq> 0)"

definition FNET_SERIAL_IS_FLAG_SPACE :: "u32 \<Rightarrow> bool" where
  "FNET_SERIAL_IS_FLAG_SPACE a = (a AND 0x04 \<noteq> 0)"

definition FNET_SERIAL_IS_FLAG_ZERO :: "u32 \<Rightarrow> bool" where
  "FNET_SERIAL_IS_FLAG_ZERO a = (a AND 0x08 \<noteq> 0)"

definition FNET_SERIAL_IS_FLAG_POUND :: "u32 \<Rightarrow> bool" where
  "FNET_SERIAL_IS_FLAG_POUND a = (a AND 0x10 \<noteq> 0)"

text \<open>The ends of the conversions that the code shares: \<^verbatim>\<open>cont_u\<close> and \<^verbatim>\<open>cont_xd\<close>.\<close>

definition cont_u :: "u32 \<Rightarrow> nat \<Rightarrow> nat \<Rightarrow> pf \<Rightarrow> nat \<times> pf" where
  "cont_u flags_used field_width vlen st =
     (if FNET_SERIAL_IS_FLAG_ZERO flags_used
      then (field_width, fnet_serial_printk_pad 48 vlen field_width st)
      else (vlen, if \<not> FNET_SERIAL_IS_FLAG_MINUS flags_used then fnet_serial_printk_pad 32 vlen field_width st else st))"

definition cont_xd :: "u32 \<Rightarrow> nat \<Rightarrow> u8 list \<Rightarrow> nat \<Rightarrow> nat \<Rightarrow> pf \<Rightarrow> pf option" where
  "cont_xd flags_used field_width vstr vstrp vlen st =
     do {
       st \<leftarrow> print_back vstr vstrp st;
       Some (if FNET_SERIAL_IS_FLAG_MINUS flags_used then fnet_serial_printk_pad 32 vlen field_width st else st)
     }"

definition print_signed :: "u32 \<Rightarrow> nat \<Rightarrow> pf \<Rightarrow> pf option" where
  "print_signed flags_used field_width st =
     do {
       (ival, st) \<leftarrow> int_arg st;
       (vstr, vlen) \<leftarrow> fnet_serial_printk_mknumstr ival True 10;
       let vstrp = vlen;
       let (schar, vlen) =
         (if sint ival < 0 then (45, vlen + 1)
          else if FNET_SERIAL_IS_FLAG_PLUS flags_used then (43, vlen + 1)
          else if FNET_SERIAL_IS_FLAG_SPACE flags_used then (32, vlen + 1)
          else (0, vlen));
       let (vlen, dschar, st) =
         (if FNET_SERIAL_IS_FLAG_ZERO flags_used
          then (field_width, True,
                fnet_serial_printk_pad 48 vlen field_width (if schar \<noteq> 0 then emit schar st else st))
          else if \<not> FNET_SERIAL_IS_FLAG_MINUS flags_used
          then let st = fnet_serial_printk_pad 32 vlen field_width st
               in (vlen, True, if schar \<noteq> 0 then emit schar st else st)
          else (vlen, False, st));
       let st = (if \<not> dschar \<and> schar \<noteq> 0 then emit schar st else st);
       cont_xd flags_used field_width vstr vstrp vlen st
     }"

definition print_hex :: "u32 \<Rightarrow> nat \<Rightarrow> pf \<Rightarrow> pf option" where
  "print_hex flags_used field_width st =
     do {
       (uval, st) \<leftarrow> int_arg st;
       (vstr, vlen) \<leftarrow> fnet_serial_printk_mknumstr uval False 16;
       let vstrp = vlen;
       let pound = FNET_SERIAL_IS_FLAG_POUND flags_used;
       let (vlen, dschar, st) =
         (if FNET_SERIAL_IS_FLAG_ZERO flags_used
          then let st = (if pound then emit 120 (emit 48 st) else st)
               in (field_width, pound, fnet_serial_printk_pad 48 vlen field_width st)
          else if \<not> FNET_SERIAL_IS_FLAG_MINUS flags_used
          then let vlen = (if pound then vlen + 2 else vlen);
                   st = fnet_serial_printk_pad 32 vlen field_width st
               in (vlen, pound, if pound then emit 120 (emit 48 st) else st)
          else (vlen, False, st));
       let (vlen, st) = (if pound \<and> \<not> dschar then (vlen + 2, emit 120 (emit 48 st)) else (vlen, st));
       cont_xd flags_used field_width vstr vstrp vlen st
     }"

definition print_unsigned :: "u32 \<Rightarrow> nat \<Rightarrow> pf \<Rightarrow> pf option" where
  "print_unsigned flags_used field_width st =
     do {
       (uval, st) \<leftarrow> int_arg st;
       (vstr, vlen) \<leftarrow> fnet_serial_printk_mknumstr uval False 10;
       let vstrp = vlen;
       let (vlen, st) = cont_u flags_used field_width vlen st;
       cont_xd flags_used field_width vstr vstrp vlen st
     }"

text \<open>\<^verbatim>\<open>%o\<close>, \<^verbatim>\<open>%b\<close> and \<^verbatim>\<open>%p\<close> set \<^verbatim>\<open>cont_u\<close> only.\<close>

definition print_radix :: "(pf \<Rightarrow> (u32 \<times> pf) option) \<Rightarrow> nat \<Rightarrow> u32 \<Rightarrow> nat \<Rightarrow> pf \<Rightarrow> pf option" where
  "print_radix arg radix flags_used field_width st =
     do {
       (uval, st) \<leftarrow> arg st;
       (vstr, vlen) \<leftarrow> fnet_serial_printk_mknumstr uval False radix;
       Some (snd (cont_u flags_used field_width vlen st))
     }"

definition print_string :: "u32 \<Rightarrow> nat \<Rightarrow> nat option \<Rightarrow> pf \<Rightarrow> pf option" where
  "print_string flags_used field_width precision st =
     do {
       (a, st) \<leftarrow> next_arg st;
       case a of
         VNull \<Rightarrow> Some st
       | VStr sval \<Rightarrow>
           do {
             vlen \<leftarrow> (case precision of Some n \<Rightarrow> fnet_strnlen (Some sval) n | None \<Rightarrow> fnet_strlen (Some sval));
             let minus = FNET_SERIAL_IS_FLAG_MINUS flags_used;
             st \<leftarrow> print_str sval vlen (if \<not> minus then fnet_serial_printk_pad 32 vlen field_width st else st);
             Some (if minus then fnet_serial_printk_pad 32 vlen field_width st else st)
           }
       | _ \<Rightarrow> None
     }"

text \<open>The switch on the type character.\<close>

definition print_conversion :: "u8 \<Rightarrow> u32 \<Rightarrow> nat \<Rightarrow> nat option \<Rightarrow> pf \<Rightarrow> pf option" where
  "print_conversion c flags_used field_width precision st =
     (if c = 100 \<or> c = 105 then print_signed flags_used field_width st
      else if c = 120 \<or> c = 88 then print_hex flags_used field_width st
      else if c = 111 then print_radix int_arg 8 flags_used field_width st
      else if c = 98 then print_radix int_arg 2 flags_used field_width st
      else if c = 112 then print_radix ptr_arg 16 flags_used field_width st
      else if c = 117 then print_unsigned flags_used field_width st
      else if c = 99 then do { (cval, st) \<leftarrow> int_arg st; Some (emit (ucast cval) st) }
      else if c = 115 then print_string flags_used field_width precision st
      else if c = 110
      then do {
        (a, st) \<leftarrow> next_arg st;
        case a of VPtr p \<Rightarrow> Some (st\<lparr>pf_cells := (pf_cells st)(p \<mapsto> of_nat (pf_count st))\<rparr>) | _ \<Rightarrow> None
      }
      else Some (emit c st))"

section \<open>Reading the format\<close>

text \<open>In each of these the argument is the format from \<^verbatim>\<open>p + 1\<close> on.\<close>

fun flag_loop :: "u8 list \<Rightarrow> u32 \<Rightarrow> (u32 \<times> u8 list) option" where
  "flag_loop [] flags_used = None"
| "flag_loop (c # p) flags_used =
     (if c = 45 then flag_loop p (flags_used OR 0x01)
      else if c = 43 then flag_loop p (flags_used OR 0x02)
      else if c = 32 then flag_loop p (flags_used OR 0x04)
      else if c = 48 then flag_loop p (flags_used OR 0x08)
      else if c = 35 then flag_loop p (flags_used OR 0x10)
      else Some (flags_used, c # p))"

fun width_loop :: "u8 list \<Rightarrow> nat \<Rightarrow> (nat \<times> u8 list) option" where
  "width_loop [] w = None"
| "width_loop (c # p) w =
     (if is_digit c then width_loop p (w32 (w * 10 + unat (c - 48))) else Some (w, c # p))"

fun precision_loop :: "u8 list \<Rightarrow> nat \<Rightarrow> pf \<Rightarrow> (nat \<times> u8 list \<times> pf) option" where
  "precision_loop [] w st = None"
| "precision_loop (c # p) w st =
     (if is_digit c then precision_loop p (w32 (w * 10 + unat (c - 48))) st
      else if c = 42 then do { (v, st) \<leftarrow> int_arg st; Some (unat v, p, st) }
      else Some (w, c # p, st))"

text \<open>A directive, from behind its \<^verbatim>\<open>%\<close> to behind its type character.\<close>

definition printf_directive :: "u8 list \<Rightarrow> pf \<Rightarrow> (u8 list \<times> pf) option" where
  "printf_directive p st =
     do {
       (flags_used, p) \<leftarrow> flag_loop p 0;
       (field_width, p) \<leftarrow> width_loop p 0;
       (precision, p, st) \<leftarrow>
         (case p of
            [] \<Rightarrow> None
          | c # p' \<Rightarrow>
              if c = 46 then do { (w, p, st) \<leftarrow> precision_loop p' 0 st; Some (Some w, p, st) }
              else Some (None, p, st));
       p \<leftarrow> (case p of [] \<Rightarrow> None | c # p' \<Rightarrow> Some (if c \<in> {104, 108, 76, 122} then p' else p));
       case p of
         [] \<Rightarrow> None
       | c # p \<Rightarrow> do { st \<leftarrow> print_conversion c flags_used field_width precision st; Some (p, st) }
     }"

lemma flag_loop_shorter: "flag_loop p fl = Some (fl', p') \<Longrightarrow> length p' \<le> length p"
  by (induction p fl rule: flag_loop.induct) (auto split: if_splits)

lemma width_loop_shorter: "width_loop p w = Some (w', p') \<Longrightarrow> length p' \<le> length p"
  by (induction p w rule: width_loop.induct) (auto split: if_splits)

lemma precision_loop_shorter: "precision_loop p w st = Some (w', p', st') \<Longrightarrow> length p' \<le> length p"
  by (induction p w st rule: precision_loop.induct) (auto simp: bind_eq_Some_conv split: if_splits)

lemma printf_directive_shorter:
  assumes "printf_directive p st = Some (p', st')"
  shows "length p' < length p"
proof -
  obtain fl p1 where 1: "flag_loop p 0 = Some (fl, p1)"
    using assms by (auto simp: printf_directive_def bind_eq_Some_conv)
  obtain w p2 where 2: "width_loop p1 0 = Some (w, p2)"
    using assms 1 by (auto simp: printf_directive_def bind_eq_Some_conv)
  obtain pr p3 st3 where 3: "(case p2 of
            [] \<Rightarrow> None
          | c # p' \<Rightarrow>
              if c = 46 then do { (w, p, st) \<leftarrow> precision_loop p' 0 st; Some (Some w, p, st) }
              else Some (None, p2, st)) = Some (pr, p3, st3)"
    using assms 1 2 by (auto simp: printf_directive_def bind_eq_Some_conv)
  have "length p3 \<le> length p2"
    using 3 by (auto simp: bind_eq_Some_conv dest!: precision_loop_shorter split: list.splits if_splits)
  moreover have "length p' < length p3"
    using assms 1 2 3 by (auto simp: printf_directive_def bind_eq_Some_conv split: list.splits if_splits)
  ultimately show ?thesis using flag_loop_shorter [OF 1] width_loop_shorter [OF 2] by simp
qed

function vprintf_loop :: "u8 list \<Rightarrow> pf \<Rightarrow> pf option" where
  "vprintf_loop [] st = None"
| "vprintf_loop (c # p) st =
     (if c = 0 then Some st
      else if c \<noteq> 37 then vprintf_loop p (emit c (if c = 10 then emit 13 st else st))
      else case printf_directive p st of None \<Rightarrow> None | Some (p, st) \<Rightarrow> vprintf_loop p st)"
  by pat_completeness auto

termination
  by (relation "measure (\<lambda>(p, st). length p)") (auto dest: printf_directive_shorter)

section \<open>Entry points\<close>

type_synonym printed = "u8 list \<times> nat \<times> (nat \<Rightarrow> u32 option)"

definition fnet_serial_vprintf :: "u8 list \<Rightarrow> va list \<Rightarrow> printed option" where
  "fnet_serial_vprintf format arg =
     map_option (\<lambda>st. (pf_out st, pf_count st, pf_cells st))
       (vprintf_loop format \<lparr>pf_out = [], pf_count = 0, pf_cells = Map.empty, pf_args = arg\<rparr>)"

text \<open>The default stream; the second text of \<^verbatim>\<open>fnet_println\<close> is the line separator.\<close>

definition fnet_serial_printf :: "u8 list \<Rightarrow> va list \<Rightarrow> printed option" where
  "fnet_serial_printf format ap = fnet_serial_vprintf format ap"

definition fnet_vprintf :: "u8 list \<Rightarrow> va list \<Rightarrow> printed option" where
  "fnet_vprintf format arg = fnet_serial_vprintf format arg"

definition fnet_printf :: "u8 list \<Rightarrow> va list \<Rightarrow> printed option" where
  "fnet_printf format ap = fnet_vprintf format ap"

definition fnet_println :: "u8 list \<Rightarrow> va list \<Rightarrow> printed option" where
  "fnet_println format ap =
     do {
       (out, result, cells) \<leftarrow> fnet_vprintf format ap;
       (out', n, _) \<leftarrow> fnet_printf [10, 0] [];
       Some (out @ out', w32 (result + n), cells)
     }"

text \<open>The characters go one by one to the \<^verbatim>\<open>putchar\<close> of the stream.\<close>

fun send :: "(u8 \<Rightarrow> 's \<Rightarrow> 's option) \<Rightarrow> u8 list \<Rightarrow> 's \<Rightarrow> 's option" where
  "send putc [] s = Some s"
| "send putc (c # cs) s = do { s \<leftarrow> putc c s; send putc cs s }"

text \<open>The stream of a buffer: the object that \<^verbatim>\<open>str\<close> points into, and where in it \<^verbatim>\<open>dest\<close> is.\<close>

record buffer_id =
  bf_mem :: "u8 list"
  bf_dest :: nat
  dest_size :: nat

definition fnet_serial_buffer_putchar :: "u8 \<Rightarrow> buffer_id \<Rightarrow> buffer_id option" where
  "fnet_serial_buffer_putchar character b =
     (if dest_size b \<noteq> 0
      then if bf_dest b < length (bf_mem b)
           then Some (b\<lparr>bf_mem := (bf_mem b)[bf_dest b := character], bf_dest := bf_dest b + 1,
                  dest_size := dest_size b - 1\<rparr>)
           else None
      else Some b)"

definition trailing_nul :: "buffer_id \<Rightarrow> u8 list option" where
  "trailing_nul b = (if bf_dest b < length (bf_mem b) then Some ((bf_mem b)[bf_dest b := 0]) else None)"

definition fnet_sprintf :: "u8 list option \<Rightarrow> u8 list \<Rightarrow> va list \<Rightarrow> (u8 list option \<times> nat) option" where
  "fnet_sprintf str format ap =
     (case str of
        None \<Rightarrow> Some (None, 0)
      | Some s \<Rightarrow>
          do {
            (out, result, _) \<leftarrow> fnet_serial_vprintf format ap;
            b \<leftarrow> send fnet_serial_buffer_putchar out \<lparr>bf_mem = s, bf_dest = 0, dest_size = 4294967295\<rparr>;
            s \<leftarrow> trailing_nul b;
            Some (Some s, result)
          })"

definition fnet_snprintf ::
    "u8 list option \<Rightarrow> nat \<Rightarrow> u8 list \<Rightarrow> va list \<Rightarrow> (u8 list option \<times> nat) option" where
  "fnet_snprintf str sz format ap =
     (case str of
        None \<Rightarrow> Some (None, 0)
      | Some s \<Rightarrow>
          if sz = 0 then Some (str, 0)
          else do {
            let sz = sz - 1;
            (out, result, _) \<leftarrow> fnet_serial_vprintf format ap;
            b \<leftarrow> send fnet_serial_buffer_putchar out \<lparr>bf_mem = s, bf_dest = 0, dest_size = sz\<rparr>;
            s \<leftarrow> trailing_nul b;
            Some (Some s, if result > sz then sz else result)
          })"

section \<open>Streams of characters\<close>

text \<open>
  What a stream promises: it takes the characters for which it has room, in order, and ignores the
  rest; \<open>ok s n\<close> says that \<open>n\<close> characters may still be sent to it.
\<close>

locale char_sink =
  fixes putc :: "u8 \<Rightarrow> 's \<Rightarrow> 's option"
    and ok :: "'s \<Rightarrow> nat \<Rightarrow> bool"
    and content :: "'s \<Rightarrow> u8 list"
    and room :: "'s \<Rightarrow> nat"
  assumes put: "ok s (Suc n) \<Longrightarrow> \<exists>s'. putc c s = Some s' \<and> ok s' n \<and> room s' = room s - 1
      \<and> content s' = content s @ (if room s = 0 then [] else [c])"
begin

lemma send_ok:
  "ok s (length cs) \<Longrightarrow>
   \<exists>s'. send putc cs s = Some s' \<and> ok s' 0 \<and> content s' = content s @ take (room s) cs"
proof (induction cs arbitrary: s)
  case (Cons c cs)
  then obtain s1 where s1: "putc c s = Some s1" "ok s1 (length cs)" "room s1 = room s - 1"
      "content s1 = content s @ (if room s = 0 then [] else [c])" using put [of s "length cs" c] by auto
  from Cons.IH [OF s1(2)] obtain s' where
    "send putc cs s1 = Some s'" "ok s' 0" "content s' = content s1 @ take (room s1) cs" by blast
  then show ?case using s1 by (cases "room s") auto
qed simp

end

text \<open>A buffer takes characters as long as one byte is left for the NUL.\<close>

definition buffer_ok :: "u8 list \<Rightarrow> buffer_id \<Rightarrow> nat \<Rightarrow> bool" where
  "buffer_ok s b n = (length (bf_mem b) = length s \<and> bf_dest b + min n (dest_size b) < length s
     \<and> drop (bf_dest b) (bf_mem b) = drop (bf_dest b) s)"

definition buffer_content :: "buffer_id \<Rightarrow> u8 list" where
  "buffer_content b = take (bf_dest b) (bf_mem b)"

interpretation buffer: char_sink fnet_serial_buffer_putchar "buffer_ok s" buffer_content dest_size for s
proof unfold_locales
  fix b n c
  assume ok: "buffer_ok s b (Suc n)"
  show "\<exists>b'. fnet_serial_buffer_putchar c b = Some b' \<and> buffer_ok s b' n \<and> dest_size b' = dest_size b - 1
      \<and> buffer_content b' = buffer_content b @ (if dest_size b = 0 then [] else [c])"
  proof (cases "dest_size b = 0")
    case True
    then show ?thesis using ok by (auto simp: fnet_serial_buffer_putchar_def buffer_ok_def buffer_content_def)
  next
    case False
    then have l: "bf_dest b < length (bf_mem b)" using ok by (auto simp: buffer_ok_def)
    have "drop (bf_dest b + 1) (bf_mem b) = drop (bf_dest b + 1) s"
      using ok by (metis add.commute buffer_ok_def drop_drop)
    then show ?thesis
      using ok l False
      by (auto simp: fnet_serial_buffer_putchar_def buffer_ok_def buffer_content_def take_Suc_conv_app_nth)
  qed
qed

lemma buffer_send:
  assumes "min (length out) sz < length s"
  shows "do { b \<leftarrow> send fnet_serial_buffer_putchar out \<lparr>bf_mem = s, bf_dest = 0, dest_size = sz\<rparr>; trailing_nul b }
       = Some (take sz out @ 0 # drop (min (length out) sz + 1) s)"
proof -
  let ?b = "\<lparr>bf_mem = s, bf_dest = 0, dest_size = sz\<rparr>"
  have "buffer_ok s ?b (length out)" using assms by (simp add: buffer_ok_def)
  from buffer.send_ok [OF this] obtain b where b: "send fnet_serial_buffer_putchar out ?b = Some b" "buffer_ok s b 0"
      "buffer_content b = take sz out" by (auto simp: buffer_content_def)
  have l: "bf_dest b < length (bf_mem b)" using b(2) by (simp add: buffer_ok_def)
  then have d: "bf_dest b = min (length out) sz"
    using b(3) by (metis buffer_content_def length_take less_imp_le_nat min.absorb2 min.commute)
  have "drop (bf_dest b + 1) (bf_mem b) = drop (bf_dest b + 1) s"
    using b(2) by (metis add.commute buffer_ok_def drop_drop)
  moreover have "(bf_mem b)[bf_dest b := 0] = take (bf_dest b) (bf_mem b) @ 0 # drop (bf_dest b + 1) (bf_mem b)"
    using l by (simp add: upd_conv_take_nth_drop)
  ultimately show ?thesis using b(1,3) l d by (simp add: trailing_nul_def buffer_content_def)
qed

lemma fnet_sprintf_ok:
  assumes "fnet_serial_vprintf format ap = Some (out, n, cells)" "length out < length s" "length out < 4294967295"
  shows "fnet_sprintf (Some s) format ap = Some (Some (out @ 0 # drop (length out + 1) s), n)"
proof -
  have "min (length out) 4294967295 < length s" using assms(2) by simp
  from buffer_send [OF this] show ?thesis
    using assms(1,3) by (auto simp: fnet_sprintf_def bind_eq_Some_conv)
qed

lemma fnet_snprintf_ok:
  assumes "fnet_serial_vprintf format ap = Some (out, n, cells)" "sz \<noteq> 0" "sz \<le> length s"
  shows "fnet_snprintf (Some s) sz format ap
       = Some (Some (take (sz - 1) out @ 0 # drop (min (length out) (sz - 1) + 1) s), min n (sz - 1))"
proof -
  have "min (length out) (sz - 1) < length s" using assms(2,3) by auto
  from buffer_send [OF this] show ?thesis
    using assms(1,2) by (auto simp: fnet_snprintf_def bind_eq_Some_conv min_def Let_def)
qed

section \<open>Numbers in print\<close>

text \<open>The digits of a number in base \<open>b\<close>, the lowest first, and the numeral.\<close>

function low_digits :: "nat \<Rightarrow> nat \<Rightarrow> nat list" where
  "low_digits b n = (if n < b \<or> b < 2 then [n] else n mod b # low_digits b (n div b))"
  by pat_completeness auto

termination
  by (relation "measure snd") auto

declare low_digits.simps [simp del]

definition numeral_text :: "nat \<Rightarrow> nat \<Rightarrow> u8 list" where
  "numeral_text b n = map digit_char (rev (low_digits b n))"

lemma low_digits_facts:
  "low_digits b n \<noteq> [] \<and> number_of b (rev (low_digits b n)) = n
     \<and> (2 \<le> b \<longrightarrow> (\<forall>d\<in>set (low_digits b n). d < b) \<and> (n \<noteq> 0 \<longrightarrow> last (low_digits b n) \<noteq> 0))"
proof (induction b n rule: low_digits.induct)
  case (1 b n)
  show ?case
  proof (cases "n < b \<or> b < 2")
    case True
    then show ?thesis by (auto simp: low_digits.simps [of b n] number_of_def)
  next
    case False
    then have "n div b \<noteq> 0" by (simp add: div_eq_0_iff)
    then show ?thesis using 1 [OF False] False by (simp add: low_digits.simps [of b n] number_of_def)
  qed
qed

lemma low_digits_length: "2 \<le> b \<Longrightarrow> n < b ^ Suc k \<Longrightarrow> length (low_digits b n) \<le> Suc k"
proof (induction k arbitrary: n)
  case (Suc k)
  have "n div b < b ^ Suc k" using Suc.prems by (simp add: less_mult_imp_div_less mult.commute)
  from Suc.IH [OF Suc.prems(1) this] show ?case by (simp add: low_digits.simps [of b n])
qed (simp add: low_digits.simps)

lemma low_digits_length32:
  assumes "2 \<le> b" "n < 4294967296"
  shows "length (low_digits b n) \<le> 32"
proof -
  have "(2::nat) ^ Suc 31 \<le> b ^ Suc 31" using assms(1) by (rule power_mono) simp
  then have "n < b ^ Suc 31" using assms(2) by simp
  from low_digits_length [OF assms(1) this] show ?thesis by simp
qed

text \<open>A numeral is what \<^verbatim>\<open>fnet_strtoul\<close> reads.\<close>

lemma numeral_text_facts:
  assumes "2 \<le> b" "b \<le> 36"
  shows "numeral_text b n \<noteq> []" "0 \<notin> set (numeral_text b n)" "n \<noteq> 0 \<Longrightarrow> hd (numeral_text b n) \<noteq> 48"
proof -
  note f = low_digits_facts [of b n]
  have d: "\<forall>d\<in>set (low_digits b n). d < 36" using f assms by fastforce
  show "numeral_text b n \<noteq> []" using f by (simp add: numeral_text_def)
  show "0 \<notin> set (numeral_text b n)" using d digit_char_facts(3) by (fastforce simp: numeral_text_def)
  show "hd (numeral_text b n) \<noteq> 48" if "n \<noteq> 0"
  proof -
    have "last (low_digits b n) \<noteq> 0" "last (low_digits b n) < 36" using f assms(1) d that by simp_all
    then have "digit_char (last (low_digits b n)) \<noteq> 48"
      using digit_char_facts(2) [of "last (low_digits b n)"] by (auto simp: digit_val_def)
    then show ?thesis using f by (simp add: numeral_text_def hd_map hd_rev)
  qed
qed

lemma strtoul_numeral:
  assumes "2 \<le> b" "b \<le> 36"
  shows "fnet_strtoul (Some (numeral_text b n @ 0 # t)) b = Some (of_nat n, length (numeral_text b n))"
proof -
  have ds: "rev (low_digits b n) \<noteq> []" "\<forall>d\<in>set (rev (low_digits b n)). d < b"
    using low_digits_facts [of b n] assms(1) by simp_all
  have hd: "\<not> is_blank (hd (numeral_text b n @ 0 # t))" 
    using ds assms by (cases "rev (low_digits b n)") (auto simp: numeral_text_def digit_char_facts)
  have sk: "skip_blanks (numeral_text b n @ 0 # t) 0 = Some (numeral_text b n @ 0 # t, 0)"
    using skip_blanks_eq [of "[]" "numeral_text b n @ 0 # t" 0] hd by simp
  have nt: "strtoul_notation (numeral_text b n @ 0 # t) 0 b = Some (numeral_text b n @ 0 # t, 0, b, False)"
    unfolding numeral_text_def by (rule strtoul_notation_plain [OF ds assms(2)]) simp
  have lp: "strtoul_loop (numeral_text b n @ 0 # t) 0 b False 0 = Some (of_nat n, length (numeral_text b n), False)"
    using strtoul_loop_digits [OF ds(2) assms(2), of 0 t 0 0] of_nat_foldl_number [of b 0 "rev (low_digits b n)"]
      low_digits_facts [of b n] by (simp add: numeral_text_def number_of_def)
  show ?thesis using assms by (simp add: fnet_strtoul_def sk nt lp)
qed

lemma digit_byte: "d < 16 \<Longrightarrow> ucast (if (of_nat d :: u32) < 10 then of_nat d + 48 else of_nat d - 10 + 97 :: u32) = digit_char d"
proof -
  assume "d < 16"
  then have "d \<in> set [0..<16]" by simp
  then show ?thesis by (simp add: upt_rec numeral_eq_Suc [symmetric]) (elim disjE; simp add: digit_char_def)
qed

lemma unsigned_digits_ok:
  assumes "2 \<le> r" "r \<le> 16" "ua \<noteq> 0" "length vstr + length (low_digits r (unat ua)) \<le> 33"
  shows "unsigned_digits r ua vstr n
       = Some (vstr @ map digit_char (low_digits r (unat ua)), n + length (low_digits r (unat ua)))"
  using assms(3,4)
proof (induction "unat ua" arbitrary: ua vstr n rule: less_induct)
  case less
  have r: "unat (of_nat r :: u32) = r" using assms(2) by (simp add: unat_of_nat)
  have q: "unat (ua div of_nat r) = unat ua div r" using r by (simp add: unat_div_distrib)
  have m: "ua - ua div of_nat r * of_nat r = of_nat (unat ua mod r)"
  proof -
    have "unat ua mod r = unat (ua mod of_nat r)" using r by (simp add: unat_mod_distrib)
    then show ?thesis by (simp add: minus_div_mult_eq_mod)
  qed
  have dl: "unat ua mod r < 16" using mod_less_divisor [of r "unat ua"] assms(1,2) by linarith
  let ?v = "vstr @ [digit_char (unat ua mod r)]"
  have "length vstr < 33" using less.prems(2) low_digits_facts [of r "unat ua"] by (cases "low_digits r (unat ua)") auto
  then have step: "unsigned_digits r ua vstr n = unsigned_digits r (ua div of_nat r) ?v (n + 1)"
    using less.prems(1) digit_byte [OF dl]
    by (subst unsigned_digits.simps) (simp only: Let_def m push_digit_def if_True not_False_eq_True simp_thms
        Option.bind_lunit)
  show ?case
  proof (cases "unat ua < r")
    case True
    then have "ua div of_nat r = 0" using q by (simp add: unat_eq_0 [symmetric])
    then show ?thesis using step True by (subst (asm) (2) unsigned_digits.simps) (simp add: low_digits.simps)
  next
    case False
    have nz: "ua div of_nat r \<noteq> 0" using q False assms(1) by (auto simp: unat_eq_0 [symmetric] div_eq_0_iff)
    have ld: "low_digits r (unat ua) = unat ua mod r # low_digits r (unat (ua div of_nat r))"
      using False assms(1) q by (simp add: low_digits.simps [of r "unat ua"])
    have "unat (ua div of_nat r) < unat ua" using q False assms(1) less.prems(1) by (simp add: unat_gt_0)
    from less.hyps [OF this nz, of ?v "n + 1"] show ?thesis using less.prems(2) by (simp add: step ld)
  qed
qed

lemma signed_byte:
  assumes "\<bar>c\<bar> < 10"
  shows "word_of_int (if c < 0 then sint (NOT (word_of_int c) + 1 + 48 :: u32) else c + 48) = digit_char (nat \<bar>c\<bar>)"
proof -
  have "c \<in> set [-9..9]" using assms by auto
  then show ?thesis by (simp add: upto_rec1) (elim disjE; simp add: digit_char_def)
qed

lemma signed_digits_ok:
  assumes "a \<noteq> 0" "length vstr + length (low_digits 10 (nat \<bar>a\<bar>)) \<le> 33"
  shows "signed_digits 10 a vstr n
       = Some (vstr @ map digit_char (low_digits 10 (nat \<bar>a\<bar>)), n + length (low_digits 10 (nat \<bar>a\<bar>)))"
  using assms
proof (induction "nat \<bar>a\<bar>" arbitrary: a vstr n rule: less_induct)
  case less
  let ?b = "a sdiv 10" let ?c = "a - a sdiv 10 * 10"
  have b: "nat \<bar>?b\<bar> = nat \<bar>a\<bar> div 10" "nat \<bar>?c\<bar> = nat \<bar>a\<bar> mod 10"
  proof -
    obtain m where m: "a = int m \<or> a = - int m" by (cases a rule: int_cases2) auto
    then have q: "nat \<bar>a\<bar> = m" "?b = sgn a * int (m div 10)"
      by (auto simp: signed_divide_int_def zdiv_int)
    then have "?b = int (m div 10) \<and> a = int m \<or> ?b = - int (m div 10) \<and> a = - int m"
      using m by (auto simp: sgn_if)
    moreover have "int m - int (m div 10) * 10 = int (m mod 10)" by (simp add: minus_div_mult_eq_mod zdiv_int zmod_int)
    ultimately show "nat \<bar>?b\<bar> = nat \<bar>a\<bar> div 10" "nat \<bar>?c\<bar> = nat \<bar>a\<bar> mod 10"
      unfolding q(1) by linarith+
  qed
  then have c: "\<bar>?c\<bar> < 10" by linarith
  let ?v = "vstr @ [digit_char (nat \<bar>a\<bar> mod 10)]"
  have "length vstr < 33" using less.prems(2) low_digits_facts [of 10 "nat \<bar>a\<bar>"]
    by (cases "low_digits 10 (nat \<bar>a\<bar>)") auto
  then have step: "signed_digits 10 a vstr n = signed_digits 10 ?b ?v (n + 1)"
    using less.prems(1) signed_byte [OF c]
    by (subst signed_digits.simps) (simp only: Let_def push_digit_def if_True not_False_eq_True simp_thms
        Option.bind_lunit b(2) of_nat_numeral)
  show ?case
  proof (cases "nat \<bar>a\<bar> < 10")
    case True
    then have "?b = 0" using b(1) by linarith
    then show ?thesis using step True by (subst (asm) (2) signed_digits.simps) (simp add: low_digits.simps)
  next
    case False
    have nz: "?b \<noteq> 0" and lt: "nat \<bar>?b\<bar> < nat \<bar>a\<bar>" using b(1) False by linarith+
    have ld: "low_digits 10 (nat \<bar>a\<bar>) = nat \<bar>a\<bar> mod 10 # low_digits 10 (nat \<bar>?b\<bar>)"
      using False b(1) by (simp add: low_digits.simps [of 10 "nat \<bar>a\<bar>"])
    from less.hyps [OF lt nz, of ?v "n + 1"] show ?thesis using less.prems(2) by (simp add: step ld)
  qed
qed

text \<open>The number that is written, and the array behind its NUL.\<close>

definition magnitude :: "bool \<Rightarrow> u32 \<Rightarrow> nat" where
  "magnitude neg v = (if neg then nat \<bar>sint v\<bar> else unat v)"

lemma magnitude_less: "magnitude neg v < 4294967296"
proof -
  have "\<bar>sint v\<bar> \<le> 2147483648" using sint_ge [of v] sint_less [of v] by simp
  moreover have "unat v < 4294967296" using unsigned_less [of v] by simp
  ultimately show ?thesis by (cases neg) (simp_all add: magnitude_def)
qed

lemma mknumstr_ok:
  assumes "2 \<le> r" "r \<le> 16" "neg \<Longrightarrow> r = 10"
  shows "fnet_serial_printk_mknumstr v neg r
       = Some (0 # rev (numeral_text r (magnitude neg v)), length (numeral_text r (magnitude neg v)))"
proof -
  have l: "length [0 :: u8] + length (low_digits r (magnitude neg v)) \<le> 33"
    using low_digits_length32 [OF assms(1) magnitude_less] by simp
  show ?thesis
  proof (cases "v = 0")
    case True
    then have "low_digits r (magnitude neg v) = [0]" using assms(1) by (simp add: magnitude_def low_digits.simps)
    then show ?thesis using True
      by (simp add: fnet_serial_printk_mknumstr_def push_digit_def numeral_text_def digit_char_def)
  next
    case False
    then have "sint v \<noteq> 0" by (metis signed_word_eqI signed_0)
    with False show ?thesis
      using l assms unsigned_digits_ok [OF assms(1,2) False, of "[0]" 0] signed_digits_ok [of "sint v" "[0]" 0]
      by (cases neg) (simp_all add: fnet_serial_printk_mknumstr_def push_digit_def numeral_text_def magnitude_def rev_map)
  qed
qed

section \<open>What a directive writes\<close>

abbreviation emits :: "u8 list \<Rightarrow> pf \<Rightarrow> pf" where
  "emits xs st \<equiv> fold emit xs st"

lemma emits_fields [simp]:
  "pf_out (emits xs st) = pf_out st @ xs" "pf_cells (emits xs st) = pf_cells st" "pf_args (emits xs st) = pf_args st"
  by (induction xs arbitrary: st) (simp_all add: emit_def)

lemma emits_count: "pf_count st < 4294967296 \<Longrightarrow> pf_count (emits xs st) = w32 (pf_count st + length xs)"
  by (induction xs arbitrary: st) (simp_all add: emit_def mod_simps add.assoc [symmetric])

lemma emit_emits: "emit c st = emits [c] st"
  by simp

lemma emits_args: "emits xs (st\<lparr>pf_args := a\<rparr>) = (emits xs st)\<lparr>pf_args := a\<rparr>"
proof (induction xs arbitrary: st)
  case (Cons c xs)
  have "emit c (st\<lparr>pf_args := a\<rparr>) = (emit c st)\<lparr>pf_args := a\<rparr>" by (cases st) (simp add: emit_def)
  then show ?case using Cons by simp
qed simp

lemma emits_append: "emits ys (emits xs st) = emits (xs @ ys) st"
  by simp

lemma pad_emits: "fnet_serial_printk_pad c i w st = emits (replicate (w - i) c) st"
proof (induction c i w st rule: fnet_serial_printk_pad.induct)
  case (1 c i w st)
  then show ?case
    by (cases "i < w") (simp_all add: fnet_serial_printk_pad.simps [of c i w st] Suc_diff_Suc [symmetric])
qed

lemma print_back_ok: "0 \<notin> set ds \<Longrightarrow> i \<le> length ds \<Longrightarrow> print_back (0 # ds) i st = Some (emits (rev (take i ds)) st)"
proof (induction i arbitrary: st)
  case (Suc i)
  then have "ds ! i \<noteq> 0" by (metis Suc_le_eq nth_mem)
  then show ?case using Suc by (simp add: take_Suc_conv_app_nth)
qed simp

lemma print_str_ok: "n \<le> length s \<Longrightarrow> print_str s n st = Some (emits (take n s) st)"
proof (induction s arbitrary: n st)
  case (Cons c s)
  then show ?case by (cases n) simp_all
qed simp

lemma cont_xd_ok:
  assumes "2 \<le> r" "r \<le> 36"
  shows "cont_xd fl w (0 # rev (numeral_text r n)) (length (numeral_text r n)) vlen st
       = Some (emits (numeral_text r n @ (if FNET_SERIAL_IS_FLAG_MINUS fl then replicate (w - vlen) 32 else [])) st)"
  using print_back_ok [of "rev (numeral_text r n)" "length (numeral_text r n)" st] numeral_text_facts(2) [OF assms]
  by (simp add: cont_xd_def pad_emits)

text \<open>A field: a prefix and the digits, brought to the width \<open>w\<close>.\<close>

definition field_text :: "bool \<Rightarrow> bool \<Rightarrow> nat \<Rightarrow> u8 list \<Rightarrow> u8 list \<Rightarrow> u8 list" where
  "field_text left zeros w pre ds =
     (let gap = w - (length pre + length ds)
      in if zeros then pre @ replicate gap 48 @ ds
         else if left then pre @ ds @ replicate gap 32
         else replicate gap 32 @ pre @ ds)"

definition sign_text :: "bool \<Rightarrow> bool \<Rightarrow> u32 \<Rightarrow> u8 list" where
  "sign_text pls spc v = (if sint v < 0 then [45] else if pls then [43] else if spc then [32] else [])"

lemma print_signed_ok:
  assumes "pf_args st = VInt v # as"
  shows "print_signed fl w st = Some (emits (field_text (FNET_SERIAL_IS_FLAG_MINUS fl) (FNET_SERIAL_IS_FLAG_ZERO fl) w
       (sign_text (FNET_SERIAL_IS_FLAG_PLUS fl) (FNET_SERIAL_IS_FLAG_SPACE fl) v)
       (numeral_text 10 (nat \<bar>sint v\<bar>))) (st\<lparr>pf_args := as\<rparr>))"
proof -
  have m: "fnet_serial_printk_mknumstr v True 10
      = Some (0 # rev (numeral_text 10 (nat \<bar>sint v\<bar>)), length (numeral_text 10 (nat \<bar>sint v\<bar>)))"
    using mknumstr_ok [of 10 True v] by (simp add: magnitude_def)
  note x = cont_xd_ok [of 10, simplified]
  show ?thesis
    unfolding print_signed_def int_arg_def next_arg_def assms
    by (cases "FNET_SERIAL_IS_FLAG_ZERO fl"; cases "FNET_SERIAL_IS_FLAG_MINUS fl"; 
        simp add: m x Let_def sign_text_def field_text_def pad_emits)
qed

lemma print_unsigned_ok:
  assumes "pf_args st = VInt v # as"
  shows "print_unsigned fl w st = Some (emits (field_text (FNET_SERIAL_IS_FLAG_MINUS fl) (FNET_SERIAL_IS_FLAG_ZERO fl) w
       [] (numeral_text 10 (unat v))) (st\<lparr>pf_args := as\<rparr>))"
  using assms mknumstr_ok [of 10 False v] cont_xd_ok [of 10, simplified]
  by (simp add: print_unsigned_def int_arg_def next_arg_def magnitude_def cont_u_def field_text_def pad_emits Let_def)

text \<open>With \<^verbatim>\<open>#\<close> and \<^verbatim>\<open>0\<close> the prefix does not count for the width.\<close>

definition hex_text :: "bool \<Rightarrow> bool \<Rightarrow> bool \<Rightarrow> nat \<Rightarrow> u8 list \<Rightarrow> u8 list" where
  "hex_text left zeros pound w ds =
     (let pre = (if pound then [48, 120] else [])
      in if zeros then pre @ field_text left True w [] ds else field_text left False w pre ds)"

lemma print_hex_ok:
  assumes "pf_args st = VInt v # as"
  shows "print_hex fl w st = Some (emits (hex_text (FNET_SERIAL_IS_FLAG_MINUS fl) (FNET_SERIAL_IS_FLAG_ZERO fl)
       (FNET_SERIAL_IS_FLAG_POUND fl) w (numeral_text 16 (unat v))) (st\<lparr>pf_args := as\<rparr>))"
proof -
  have m: "fnet_serial_printk_mknumstr v False 16
      = Some (0 # rev (numeral_text 16 (unat v)), length (numeral_text 16 (unat v)))"
    using mknumstr_ok [of 16 False v] by (simp add: magnitude_def)
  note x = cont_xd_ok [of 16, simplified]
  show ?thesis
    unfolding print_hex_def int_arg_def next_arg_def assms
    by (cases "FNET_SERIAL_IS_FLAG_ZERO fl"; cases "FNET_SERIAL_IS_FLAG_MINUS fl"; cases "FNET_SERIAL_IS_FLAG_POUND fl";
        simp add: m x Let_def hex_text_def field_text_def pad_emits add.commute)
qed

lemma print_string_ok:
  assumes "pf_args st = VStr s # as" "terminated s \<or> (\<exists>n. precision = Some n \<and> n < length s)"
  shows "print_string fl w precision st = Some (emits (field_text (FNET_SERIAL_IS_FLAG_MINUS fl) False w []
       (case precision of None \<Rightarrow> cstr s | Some n \<Rightarrow> take n (cstr s))) (st\<lparr>pf_args := as\<rparr>))"
proof -
  let ?t = "case precision of None \<Rightarrow> cstr s | Some n \<Rightarrow> take n (cstr s)"
  have c: "take (length (cstr s)) s = cstr s"
    unfolding cstr_def by (rule takeWhile_eq_take [symmetric])
  have u: "cstr s = s" if "\<not> terminated s"
    using that by (auto simp: cstr_def terminated_def takeWhile_eq_all_conv)
  have l: "(case precision of Some n \<Rightarrow> fnet_strnlen (Some s) n | None \<Rightarrow> fnet_strlen (Some s)) = Some (length ?t)"
  proof (cases precision)
    case None
    then show ?thesis using assms(2) by (simp add: fnet_strlen_def strlen_loop_eq)
  next
    case (Some n)
    show ?thesis
    proof (cases "terminated s \<and> length (cstr s) \<le> n")
      case True
      then show ?thesis using Some by (simp add: fnet_strnlen_def strnlen_loop_eq)
    next
      case False
      have "n < length s"
        using False Some assms(2) cstr_length_less [of s] by auto
      moreover have "min (length (cstr s)) n = n" using False u calculation by (cases "terminated s") auto
      ultimately show ?thesis using Some False by (auto simp: fnet_strnlen_def strnlen_loop_eq)
    qed
  qed
  have ls: "length (cstr s) \<le> length s" by (simp add: cstr_def length_takeWhile_le)
  have t: "take (length ?t) s = ?t"
  proof (cases precision)
    case (Some n)
    have "take n (cstr s) = take (min n (length (cstr s))) s" using arg_cong [OF c, of "take n"] by simp
    then show ?thesis using ls by (simp add: Some min.commute min.absorb2 le_infI2)
  qed (simp add: c)
  have l': "length ?t \<le> length s" using ls by (cases precision) auto
  show ?thesis
    using print_str_ok [OF l'] assms(1) l
    by (simp add: print_string_def next_arg_def field_text_def pad_emits t Let_def)
qed

section \<open>Reading a format\<close>

definition flag_bit :: "u8 \<Rightarrow> u32" where
  "flag_bit c = (if c = 45 then 1 else if c = 43 then 2 else if c = 32 then 4 else if c = 48 then 8 else 16)"

definition is_flag :: "u8 \<Rightarrow> bool" where
  "is_flag c = (c = 45 \<or> c = 43 \<or> c = 32 \<or> c = 48 \<or> c = 35)"

definition flag_bits :: "u8 list \<Rightarrow> u32" where
  "flag_bits fs = fold (\<lambda>c fl. fl OR flag_bit c) fs 0"

lemma flag_loop_ok:
  "\<forall>c\<in>set fs. is_flag c \<Longrightarrow> \<not> is_flag c \<Longrightarrow>
   flag_loop (fs @ c # p) fl = Some (fold (\<lambda>c fl. fl OR flag_bit c) fs fl, c # p)"
proof (induction fs arbitrary: fl)
  case Nil
  then show ?case by (simp add: is_flag_def)
next
  case (Cons f fs)
  then have "f = 45 \<or> f = 43 \<or> f = 32 \<or> f = 48 \<or> f = 35" by (simp add: is_flag_def)
  then show ?case using Cons by (elim disjE) (simp_all add: flag_bit_def)
qed

lemma and_flags: "(a OR b) AND m = 0 \<longleftrightarrow> a AND m = 0 \<and> b AND m = (0 :: u32)"
  by (auto simp: bit_eq_iff bit_simps)

lemma fold_flags: "fold (\<lambda>c fl. fl OR flag_bit c) fs fl AND m = 0 \<longleftrightarrow> fl AND m = 0 \<and> (\<forall>c\<in>set fs. flag_bit c AND m = 0)"
  by (induction fs arbitrary: fl) (auto simp: and_flags)

lemma flag_bit_disjoint: "is_flag c \<Longrightarrow> is_flag d \<Longrightarrow> flag_bit d AND flag_bit c = 0 \<longleftrightarrow> d \<noteq> c"
  unfolding is_flag_def by (elim disjE; simp add: flag_bit_def)

lemma flag_bits_test: "\<forall>c\<in>set fs. is_flag c \<Longrightarrow> is_flag c \<Longrightarrow> flag_bits fs AND flag_bit c \<noteq> 0 \<longleftrightarrow> c \<in> set fs"
  by (auto simp: flag_bits_def fold_flags flag_bit_disjoint)

lemma flag_bits_tests:
  assumes "\<forall>c\<in>set fs. is_flag c"
  shows "FNET_SERIAL_IS_FLAG_MINUS (flag_bits fs) = (45 \<in> set fs)"
    "FNET_SERIAL_IS_FLAG_PLUS (flag_bits fs) = (43 \<in> set fs)"
    "FNET_SERIAL_IS_FLAG_SPACE (flag_bits fs) = (32 \<in> set fs)"
    "FNET_SERIAL_IS_FLAG_ZERO (flag_bits fs) = (48 \<in> set fs)"
    "FNET_SERIAL_IS_FLAG_POUND (flag_bits fs) = (35 \<in> set fs)"
  using flag_bits_test [OF assms, of 45] flag_bits_test [OF assms, of 43] flag_bits_test [OF assms, of 32]
    flag_bits_test [OF assms, of 48] flag_bits_test [OF assms, of 35]
  by (simp_all add: FNET_SERIAL_IS_FLAG_MINUS_def FNET_SERIAL_IS_FLAG_PLUS_def FNET_SERIAL_IS_FLAG_SPACE_def
      FNET_SERIAL_IS_FLAG_ZERO_def FNET_SERIAL_IS_FLAG_POUND_def is_flag_def flag_bit_def)

text \<open>A number in a format.\<close>

lemma digit_char_value: "d < 10 \<Longrightarrow> is_digit (digit_char d) \<and> unat (digit_char d - 48) = d"
proof -
  assume "d < 10"
  then have "d \<in> set [0..<10]" by simp
  then show ?thesis
    by (simp add: upt_rec numeral_eq_Suc [symmetric]) (elim disjE; simp add: digit_char_def is_digit_def)
qed

lemma foldl_number_ge: "b \<noteq> 0 \<Longrightarrow> a \<le> foldl (\<lambda>a d. a * b + d) a ds" for a :: nat
proof (induction ds arbitrary: a)
  case (Cons d ds)
  have "a \<le> a * b + d" using Cons.prems by (simp add: trans_le_add1)
  also have "\<dots> \<le> foldl (\<lambda>a d. a * b + d) (a * b + d) ds" by (rule Cons.IH [OF Cons.prems])
  finally show ?case by simp
qed simp

lemma width_loop_digits:
  assumes "\<forall>d\<in>set ds. d < 10" "\<not> is_digit c" "foldl (\<lambda>a d. a * 10 + d) a ds < 4294967296"
  shows "width_loop (map digit_char ds @ c # p) a = Some (foldl (\<lambda>a d. a * 10 + d) a ds, c # p)"
  using assms
proof (induction ds arbitrary: a)
  case (Cons d ds)
  have "a * 10 + d < 4294967296" using Cons.prems(3) foldl_number_ge [of 10 "a * 10 + d" ds] by simp
  then show ?case using Cons digit_char_value [of d] by simp
qed simp

lemma precision_loop_digits:
  assumes "\<forall>d\<in>set ds. d < 10" "\<not> is_digit c" "c \<noteq> 42" "foldl (\<lambda>a d. a * 10 + d) a ds < 4294967296"
  shows "precision_loop (map digit_char ds @ c # p) a st = Some (foldl (\<lambda>a d. a * 10 + d) a ds, c # p, st)"
  using assms
proof (induction ds arbitrary: a)
  case (Cons d ds)
  have "a * 10 + d < 4294967296" using Cons.prems(4) foldl_number_ge [of 10 "a * 10 + d" ds] by simp
  then show ?case using Cons digit_char_value [of d] by simp
qed simp

lemma numeral_digits: "\<forall>d\<in>set (rev (low_digits 10 n)). d < 10" "foldl (\<lambda>a d. a * 10 + d) 0 (rev (low_digits 10 n)) = n"
  using low_digits_facts [of 10 n] by (simp_all add: number_of_def)

text \<open>The width of a directive; no width is written as nothing.\<close>

definition width_text :: "nat \<Rightarrow> u8 list" where
  "width_text w = (if w = 0 then [] else numeral_text 10 w)"

lemma width_loop_text: "w < 4294967296 \<Longrightarrow> \<not> is_digit c \<Longrightarrow> width_loop (width_text w @ c # p) 0 = Some (w, c # p)"
  using width_loop_digits [of "rev (low_digits 10 w)" c 0 p] numeral_digits [of w]
  by (simp add: width_text_def numeral_text_def)

section \<open>What a format means\<close>

text \<open>
  A format as a list of pieces: characters that are copied, \<^verbatim>\<open>%%\<close>, and directives with
  flags, a width, a length modifier and a typed argument. \<open>piece_text\<close> says what each of them
  stands for, without reference to the interpreter.
\<close>

datatype conv = Signed u8 u32 | Unsigned u32 | Hex u8 u32 | Text "nat option" "u8 list"

datatype piece = Copy u8 | Percent | Single u32 | Directive "u8 list" nat "u8 list" conv

fun conv_format :: "conv \<Rightarrow> u8 list \<Rightarrow> u8 list" where
  "conv_format (Signed c v) md = md @ [c]"
| "conv_format (Unsigned v) md = md @ [117]"
| "conv_format (Hex c v) md = md @ [c]"
| "conv_format (Text None s) md = md @ [115]"
| "conv_format (Text (Some n) s) md = 46 # numeral_text 10 n @ md @ [115]"

fun conv_arg :: "conv \<Rightarrow> va" where
  "conv_arg (Signed c v) = VInt v"
| "conv_arg (Unsigned v) = VInt v"
| "conv_arg (Hex c v) = VInt v"
| "conv_arg (Text n s) = VStr s"

fun conv_text :: "(u8 \<Rightarrow> bool) \<Rightarrow> nat \<Rightarrow> conv \<Rightarrow> u8 list" where
  "conv_text f w (Signed c v) = field_text (f 45) (f 48) w (sign_text (f 43) (f 32) v) (numeral_text 10 (nat \<bar>sint v\<bar>))"
| "conv_text f w (Unsigned v) = field_text (f 45) (f 48) w [] (numeral_text 10 (unat v))"
| "conv_text f w (Hex c v) = hex_text (f 45) (f 48) (f 35) w (numeral_text 16 (unat v))"
| "conv_text f w (Text None s) = field_text (f 45) False w [] (cstr s)"
| "conv_text f w (Text (Some n) s) = field_text (f 45) False w [] (take n (cstr s))"

fun conv_ok :: "conv \<Rightarrow> bool" where
  "conv_ok (Text None s) = terminated s"
| "conv_ok (Text (Some n) s) = (n < 4294967296 \<and> (terminated s \<or> n < length s))"
| "conv_ok (Signed c v) = (c = 100 \<or> c = 105)"
| "conv_ok (Hex c v) = (c = 120 \<or> c = 88)"
| "conv_ok (Unsigned v) = True"

fun piece_format :: "piece \<Rightarrow> u8 list" where
  "piece_format (Copy c) = [c]"
| "piece_format Percent = [37, 37]"
| "piece_format (Single v) = [37, 99]"
| "piece_format (Directive fs w md c) = 37 # fs @ width_text w @ conv_format c md"

fun piece_args :: "piece \<Rightarrow> va list" where
  "piece_args (Single v) = [VInt v]"
| "piece_args (Directive fs w md c) = [conv_arg c]"
| "piece_args _ = []"

fun piece_text :: "piece \<Rightarrow> u8 list" where
  "piece_text (Copy c) = (if c = 10 then [13, 10] else [c])"
| "piece_text Percent = [37]"
| "piece_text (Single v) = [ucast v]"
| "piece_text (Directive fs w md c) = conv_text (\<lambda>f. f \<in> set fs) w c"

fun piece_ok :: "piece \<Rightarrow> bool" where
  "piece_ok (Copy c) = (c \<noteq> 0 \<and> c \<noteq> 37)"
| "piece_ok (Directive fs w md c) =
     ((\<forall>f\<in>set fs. is_flag f) \<and> w < 4294967296 \<and> md \<in> {[], [104], [108], [76], [122]} \<and> conv_ok c)"
| "piece_ok _ = True"

text \<open>The parts of a directive that are read before its type.\<close>

lemma numeral_hd: "\<exists>d ds. numeral_text 10 n = d # ds \<and> is_digit d \<and> (n \<noteq> 0 \<longrightarrow> d \<noteq> 48)"
proof -
  obtain d ds where d: "rev (low_digits 10 n) = d # ds" using low_digits_facts [of 10 n] by (cases "rev (low_digits 10 n)") auto
  then have "d < 10" using numeral_digits(1) [of n] by simp
  then show ?thesis using d digit_char_value [of d] numeral_text_facts(3) [of 10 n] by (auto simp: numeral_text_def)
qed

lemma digit_no_flag: "is_digit d \<Longrightarrow> d \<noteq> 48 \<Longrightarrow> \<not> is_flag d"
  by (auto simp: is_digit_def is_flag_def)

lemma flags_and_width:
  assumes "\<forall>f\<in>set fs. is_flag f" "w < 4294967296" "\<not> is_flag c" "\<not> is_digit c"
  shows "do { (fl, p) \<leftarrow> flag_loop (fs @ width_text w @ c # p) 0; (w, p) \<leftarrow> width_loop p 0; g fl w p }
       = g (flag_bits fs) w (c # p)"
proof -
  obtain d ds where d: "width_text w @ c # p = d # ds" "\<not> is_flag d"
  proof (cases "w = 0")
    case True
    then show ?thesis using that assms(3) by (simp add: width_text_def)
  next
    case False
    then obtain d ds where "numeral_text 10 w = d # ds" "is_digit d" "d \<noteq> 48" using numeral_hd by blast
    then show ?thesis using that False digit_no_flag by (simp add: width_text_def)
  qed
  have "flag_loop (fs @ width_text w @ c # p) 0 = Some (flag_bits fs, width_text w @ c # p)"
    unfolding d(1) flag_bits_def using flag_loop_ok [OF assms(1) d(2)] by simp
  then show ?thesis using width_loop_text [OF assms(2,4), of p] by simp
qed

lemma modifier_skipped:
  assumes "md \<in> {[], [104], [108], [76], [122]}" "c \<notin> {104, 108, 76, 122 :: u8}"
  shows "(case md @ c # p of [] \<Rightarrow> None | x # p' \<Rightarrow> Some (if x \<in> {104, 108, 76, 122} then p' else md @ c # p)) = Some (c # p)"
  using assms by auto

lemma md_first:
  assumes "md \<in> {[], [104], [108], [76], [122]}" "c \<in> {100, 105, 117, 120, 88, 115 :: u8}"
  shows "\<exists>x y. md @ c # p = x # y \<and> \<not> is_flag x \<and> \<not> is_digit x \<and> x \<noteq> 46 \<and> x \<noteq> 42"
  using assms by (auto simp: is_flag_def is_digit_def)

lemma directive_plain:
  assumes "\<forall>f\<in>set fs. is_flag f" "w < 4294967296" "md \<in> {[], [104], [108], [76], [122]}" "c \<in> {100, 105, 117, 120, 88, 115}"
  shows "printf_directive (fs @ width_text w @ md @ c # p) st
       = do { st \<leftarrow> print_conversion c (flag_bits fs) w None st; Some (p, st) }"
proof -
  obtain x y where x: "md @ c # p = x # y" "\<not> is_flag x" "\<not> is_digit x" "x \<noteq> 46" using md_first [OF assms(3,4)] by blast
  have "c \<notin> {104, 108, 76, 122}" using assms(4) by auto
  note m = modifier_skipped [OF assms(3) this, of p, unfolded x(1)]
  show ?thesis
    unfolding printf_directive_def x(1) flags_and_width [OF assms(1,2) x(2,3)]
    using x(4) m by simp
qed

lemma directive_precision:
  assumes "\<forall>f\<in>set fs. is_flag f" "w < 4294967296" "md \<in> {[], [104], [108], [76], [122]}" "n < 4294967296"
  shows "printf_directive (fs @ width_text w @ 46 # numeral_text 10 n @ md @ 115 # p) st
       = do { st \<leftarrow> print_conversion 115 (flag_bits fs) w (Some n) st; Some (p, st) }"
proof -
  obtain x y where x: "md @ 115 # p = x # y" "\<not> is_digit x" "x \<noteq> 42" using md_first [OF assms(3), of 115] by blast
  have f: "\<not> is_flag 46" "\<not> is_digit 46" by (simp_all add: is_flag_def is_digit_def)
  have pr: "precision_loop (numeral_text 10 n @ x # y) 0 st = Some (n, x # y, st)"
    using precision_loop_digits [OF numeral_digits(1) x(2,3), of 0 n y st] assms(4)
    by (simp add: numeral_text_def numeral_digits(2))
  have "(115 :: u8) \<notin> {104, 108, 76, 122}" by simp
  note m = modifier_skipped [OF assms(3) this, of p, unfolded x(1)]
  show ?thesis
    unfolding printf_directive_def x(1) flags_and_width [OF assms(1,2) f]
    using m by (simp add: pr)
qed

lemma piece_printed:
  assumes "piece_ok p" "pf_args st = piece_args p @ as"
  shows "vprintf_loop (piece_format p @ rest) st = vprintf_loop rest (emits (piece_text p) (st\<lparr>pf_args := as\<rparr>))"
proof (cases p)
  case (Copy c)
  then have "st\<lparr>pf_args := as\<rparr> = st" using assms(2) by simp
  then show ?thesis using Copy assms(1) by simp
next
  case Percent
  then have "st\<lparr>pf_args := as\<rparr> = st" using assms(2) by simp
  then show ?thesis
    using Percent by (simp add: printf_directive_def is_digit_def print_conversion_def)
next
  case (Single v)
  then show ?thesis using assms
    by (simp add: printf_directive_def is_digit_def print_conversion_def int_arg_def next_arg_def)
next
  case (Directive fs w md c)
  then have ok: "\<forall>f\<in>set fs. is_flag f" "w < 4294967296" "md \<in> {[], [104], [108], [76], [122]}" "conv_ok c"
    using assms(1) by auto
  note t = flag_bits_tests [OF ok(1)]
  have "printf_directive (fs @ width_text w @ conv_format c md @ rest) st
      = Some (rest, emits (conv_text (\<lambda>f. f \<in> set fs) w c) (st\<lparr>pf_args := as\<rparr>))"
  proof (cases c)
    case (Signed ty v)
    then have "ty = 100 \<or> ty = 105" using ok(4) by simp
    then show ?thesis using print_signed_ok [of st v as] assms(2) Directive Signed
      by (auto simp: directive_plain [OF ok(1-3)] print_conversion_def t)
  next
    case (Unsigned v)
    then show ?thesis using print_unsigned_ok [of st v as] assms(2) Directive
      by (simp add: directive_plain [OF ok(1-3)] print_conversion_def t)
  next
    case (Hex ty v)
    then have "ty = 120 \<or> ty = 88" using ok(4) by simp
    then show ?thesis using print_hex_ok [of st v as] assms(2) Directive Hex
      by (auto simp: directive_plain [OF ok(1-3)] print_conversion_def t)
  next
    case (Text pr s)
    have a: "pf_args st = VStr s # as" using assms(2) Directive Text by simp
    show ?thesis
    proof (cases pr)
      case None
      then show ?thesis using print_string_ok [OF a, of None] ok(4) Text
        by (simp add: directive_plain [OF ok(1-3)] print_conversion_def t)
    next
      case (Some n)
      then show ?thesis using print_string_ok [OF a, of "Some n"] ok(4) Text
        by (simp add: directive_precision [OF ok(1-3)] print_conversion_def t)
    qed
  qed
  then show ?thesis using Directive by simp
qed

lemma pieces_printed:
  assumes "\<forall>p\<in>set ps. piece_ok p" "pf_args st = concat (map piece_args ps) @ as"
  shows "vprintf_loop (concat (map piece_format ps) @ 0 # rest) st
       = Some (emits (concat (map piece_text ps)) (st\<lparr>pf_args := as\<rparr>))"
  using assms
proof (induction ps arbitrary: st)
  case (Cons p ps)
  let ?st = "emits (piece_text p) (st\<lparr>pf_args := concat (map piece_args ps) @ as\<rparr>)"
  have "vprintf_loop (concat (map piece_format (p # ps)) @ 0 # rest) st
      = vprintf_loop (concat (map piece_format ps) @ 0 # rest) ?st"
    using piece_printed [of p st "concat (map piece_args ps) @ as"] Cons.prems by simp
  also have "\<dots> = Some (emits (concat (map piece_text ps)) (?st\<lparr>pf_args := as\<rparr>))"
    using Cons.IH [of ?st] Cons.prems(1) by simp
  also have "\<dots> = Some (emits (concat (map piece_text (p # ps))) (st\<lparr>pf_args := as\<rparr>))"
    by (simp add: emits_args)
  finally show ?case .
qed simp

lemma vprintf_text:
  assumes "\<forall>p\<in>set ps. piece_ok p"
  shows "fnet_serial_vprintf (concat (map piece_format ps) @ 0 # rest) (concat (map piece_args ps) @ as)
       = Some (concat (map piece_text ps), w32 (length (concat (map piece_text ps))), Map.empty)"
  using pieces_printed [OF assms, of "\<lparr>pf_out = [], pf_count = 0, pf_cells = Map.empty,
      pf_args = concat (map piece_args ps) @ as\<rparr>" as rest]
  by (simp add: fnet_serial_vprintf_def emits_count)

text \<open>
  C37. The interpreter of formats implements the meaning of formats: any sequence of copied
  characters and of directives \<^verbatim>\<open>%d\<close>, \<^verbatim>\<open>%i\<close>, \<^verbatim>\<open>%u\<close>, \<^verbatim>\<open>%x\<close>, \<^verbatim>\<open>%X\<close>, \<^verbatim>\<open>%c\<close>,
  \<^verbatim>\<open>%s\<close> and \<^verbatim>\<open>%%\<close>, with any flags, width, precision and length modifier, writes the texts of its
  pieces one after the other, reads exactly their arguments and nothing behind the format, and returns
  the number of characters written.
\<close>

theorem vprintf_pieces:
  assumes "\<forall>p\<in>set ps. piece_ok p"
  shows "fnet_serial_vprintf (concat (map piece_format ps) @ 0 # rest) (concat (map piece_args ps) @ as)
       = Some (concat (map piece_text ps), w32 (length (concat (map piece_text ps))), Map.empty)"
  by (rule vprintf_text [OF assms])

lemma vprintf_pieces_witness:
  "fnet_serial_vprintf [37, 45, 48, 54, 100, 44, 37, 53, 46, 50, 115, 10, 37, 108, 120, 0] [VInt (- 42), VStr [97, 98, 99], VInt 48879]
   = Some ([45, 48, 48, 48, 52, 50, 44, 32, 32, 32, 97, 98, 13, 10, 98, 101, 101, 102], 18, Map.empty)"
proof -
  let ?ps = "[Directive [45, 48] 6 [] (Signed 100 (- 42)), Copy 44, Directive [] 5 [] (Text (Some 2) [97, 98, 99]), Copy 10,
      Directive [] 0 [108] (Hex 120 48879)]"
  have n: "numeral_text 10 6 = [54]" "numeral_text 10 42 = [52, 50]" "numeral_text 10 5 = [53]" "numeral_text 10 2 = [50]"
    "numeral_text 16 48879 = [98, 101, 101, 102]"
    by (simp_all add: numeral_text_def low_digits.simps digit_char_def)
  have rep: "replicate 3 x = [x, x, x]" for x :: u8 by (simp add: numeral_3_eq_3)
  have "\<forall>p\<in>set ?ps. piece_ok p" by (simp add: is_flag_def)
  from vprintf_pieces [OF this, of "[]" "[]"] show ?thesis
    by (simp add: width_text_def n field_text_def hex_text_def sign_text_def Let_def rep)
qed

text \<open>
  The directives \<^verbatim>\<open>%o\<close>, \<^verbatim>\<open>%b\<close> and \<^verbatim>\<open>%p\<close> write their padding and no digit, and a
  format that ends with \<^verbatim>\<open>%\<close> makes the interpreter read behind the format.
\<close>

lemma radix_prints_no_digit:
  assumes "pf_args st = VInt v # as" "c = 111 \<and> r = 8 \<or> c = 98 \<and> r = 2"
  shows "print_conversion c 0 w None st
       = Some (emits (replicate (w - length (numeral_text r (unat v))) 32) (st\<lparr>pf_args := as\<rparr>))"
proof -
  have "fnet_serial_printk_mknumstr v False r
      = Some (0 # rev (numeral_text r (unat v)), length (numeral_text r (unat v)))"
    using assms(2) mknumstr_ok [of r False v] by (auto simp: magnitude_def)
  then show ?thesis
    using assms by (auto simp: print_conversion_def print_radix_def int_arg_def next_arg_def cont_u_def pad_emits
        FNET_SERIAL_IS_FLAG_ZERO_def FNET_SERIAL_IS_FLAG_MINUS_def)
qed

lemma trailing_percent:
  assumes "\<forall>c\<in>set cs. c \<noteq> 0 \<and> c \<noteq> 37"
  shows "fnet_serial_vprintf (cs @ [37, 0]) as = None"
proof -
  have "vprintf_loop (cs @ [37, 0]) st = None" for st
    using assms
    by (induction cs arbitrary: st) (simp_all add: printf_directive_def is_digit_def print_conversion_def)
  then show ?thesis by (simp add: fnet_serial_vprintf_def)
qed

end
