(* ===== verification/Fnet_Inet.thy ===== *)
theory Fnet_Inet
  imports Fnet_Serial Fnet_Arp_Main
begin

text \<open>
  Addresses as text: \<^verbatim>\<open>fnet_inet.c\<close> (IPv4 in dotted notation; its IPv6 part is switched
  off) and the two conversions of hardware addresses of \<^verbatim>\<open>fnet_eth.c\<close>. Both print with
  the formatted output of \<^theory_text>\<open>Fnet_Serial\<close>. A failure that the code reports is the
  inner option; the outer one is a memory fault. \<open>junk\<close> is what the local array of the printing
  function holds before it is written.
\<close>

section \<open>IPv4 addresses\<close>

definition FNET_IP4_ADDR_STR_SIZE :: nat where
  "FNET_IP4_ADDR_STR_SIZE = 16"

text \<open>
  The loop of \<^verbatim>\<open>_fnet_inet_pton_ip4\<close>; \<open>tmp\<close> is the part of the array up to \<^verbatim>\<open>tp\<close>.
\<close>

fun pton_loop :: "u8 list \<Rightarrow> bool \<Rightarrow> nat \<Rightarrow> u8 list \<Rightarrow> (nat \<times> u8 list) option option" where
  "pton_loop [] digit octets tmp = None"
| "pton_loop (ch # str) digit octets tmp =
     (if ch = 0 then Some (Some (octets, tmp))
      else if is_digit ch
      then
        let val = unat (last tmp) * 10 + (unat ch - 48)
        in if digit \<and> last tmp = 0 then Some None
           else if val > 255 then Some None
           else
             let tmp = butlast tmp @ [of_nat val]
             in if \<not> digit
                then if octets + 1 > 4 then Some None else pton_loop str True (octets + 1) tmp
                else pton_loop str digit octets tmp
      else if ch = 46 \<and> digit
      then if octets = 4 then Some None
           else if length tmp < 4 then pton_loop str False octets (tmp @ [0]) else None
      else Some None)"

definition fnet_inet_pton_ip4 :: "u8 list \<Rightarrow> u32 option option" where
  "fnet_inet_pton_ip4 str =
     do {
       r \<leftarrow> pton_loop str False 0 [0];
       case r of
         None \<Rightarrow> Some None
       | Some (octets, tmp) \<Rightarrow>
           if octets < 4 then Some None else if length tmp = 4 then Some (Some (load32 tmp)) else None
     }"

text \<open>The format is \<^verbatim>\<open>"%d.%d.%d.%d"\<close>.\<close>

definition fnet_inet_ntop_ip4 :: "u8 list \<Rightarrow> u32 \<Rightarrow> u8 list option \<Rightarrow> nat \<Rightarrow> u8 list option option" where
  "fnet_inet_ntop_ip4 junk addr str str_len =
     do {
       (tmp, len) \<leftarrow> fnet_snprintf (Some junk) FNET_IP4_ADDR_STR_SIZE
         [37, 100, 46, 37, 100, 46, 37, 100, 46, 37, 100, 0] (map (\<lambda>b. VInt (ucast b)) (store32 addr));
       if len = 0 \<or> len \<ge> str_len then Some None
       else fnet_strlcpy str tmp str_len
     }"

definition fnet_inet_ntoa :: "u8 list \<Rightarrow> u32 \<Rightarrow> u8 list option \<Rightarrow> u8 list option option" where
  "fnet_inet_ntoa junk addr res_str = fnet_inet_ntop_ip4 junk addr res_str FNET_IP4_ADDR_STR_SIZE"

definition fnet_inet_aton :: "u8 list \<Rightarrow> u32 option option" where
  "fnet_inet_aton cp = fnet_inet_pton_ip4 cp"

definition AF_INET :: nat where
  "AF_INET = 1"

definition fnet_inet_ntop :: "u8 list \<Rightarrow> nat \<Rightarrow> u32 \<Rightarrow> u8 list option \<Rightarrow> nat \<Rightarrow> u8 list option option" where
  "fnet_inet_ntop junk family addr str str_len =
     (if family = AF_INET then fnet_inet_ntop_ip4 junk addr str str_len else Some None)"

definition fnet_inet_pton :: "nat \<Rightarrow> u8 list \<Rightarrow> nat \<Rightarrow> u32 option option" where
  "fnet_inet_pton family str addr_len =
     (if family = AF_INET
      then if addr_len < 4 then Some None else fnet_inet_pton_ip4 str
      else Some None)"

text \<open>The address and the scope of \<^verbatim>\<open>fnet_inet_ptos\<close>; the port becomes 0.\<close>

record sockaddr =
  sa_family :: nat
  sa_addr :: u32
  sa_scope_id :: u32
  sa_port :: u16

definition fnet_inet_ptos :: "u8 list \<Rightarrow> sockaddr option option" where
  "fnet_inet_ptos str =
     do {
       r \<leftarrow> fnet_inet_pton AF_INET str 4;
       case r of
         None \<Rightarrow> Some None
       | Some a \<Rightarrow>
           do {
             p \<leftarrow> fnet_strrchr str 37;
             (case p of
                None \<Rightarrow> Some (Some \<lparr>sa_family = AF_INET, sa_addr = a, sa_scope_id = 0, sa_port = 0\<rparr>)
              | Some i \<Rightarrow>
                  do {
                    (v, _) \<leftarrow> fnet_strtoul (Some (drop (i + 1) str)) 10;
                    Some (Some \<lparr>sa_family = AF_INET, sa_addr = a, sa_scope_id = v, sa_port = 0\<rparr>)
                  })
           }
     }"

section \<open>Hardware addresses\<close>

text \<open>The format is \<^verbatim>\<open>"%02X:%02X:%02X:%02X:%02X:%02X"\<close>.\<close>

definition fnet_mac_to_str :: "u8 list \<Rightarrow> u8 list option \<Rightarrow> u8 list option option" where
  "fnet_mac_to_str addr str_mac =
     (case str_mac of
        None \<Rightarrow> Some None
      | Some s \<Rightarrow>
          map_option fst (fnet_sprintf (Some s)
            [37, 48, 50, 88, 58, 37, 48, 50, 88, 58, 37, 48, 50, 88, 58, 37, 48, 50, 88, 58, 37, 48, 50, 88, 58,
             37, 48, 50, 88, 0]
            (map (\<lambda>b. VInt (ucast b)) addr)))"

text \<open>Both loops of \<^verbatim>\<open>fnet_str_to_mac\<close>: the number that is read, and the octets before it.\<close>

fun mac_loop :: "u8 list \<Rightarrow> u32 \<Rightarrow> u32 list \<Rightarrow> u8 list option option" where
  "mac_loop [] val octets = None"
| "mac_loop (c # str) val octets =
     (if c \<ge> 48 \<and> c \<le> 57 then mac_loop str (val * 16 + ucast c - 48) octets
      else if c \<ge> 97 \<and> c \<le> 102 \<or> c \<ge> 65 \<and> c \<le> 70
      then mac_loop str (push_bit 4 val + (ucast c + 10 - (if c \<ge> 97 \<and> c \<le> 102 then 97 else 65))) octets
      else if c = 58
      then
        let octets = octets @ [val]
        in if length octets \<ge> 6 then Some None else mac_loop str 0 octets
      else if c \<noteq> 0 \<and> c \<noteq> 32 then Some None
      else
        let octets = octets @ [val]
        in if length octets = 6 then Some (Some (map ucast octets)) else Some None)"

definition fnet_str_to_mac :: "u8 list \<Rightarrow> u8 list option option" where
  "fnet_str_to_mac str_mac = mac_loop str_mac 0 []"

section \<open>Dotted notation\<close>

fun dotted :: "u8 list \<Rightarrow> u8 list" where
  "dotted [] = []"
| "dotted [b] = numeral_text 10 (unat b)"
| "dotted (b # bs) = numeral_text 10 (unat b) @ 46 # dotted bs"

lemma numeral_text_step:
  "n < 10 \<Longrightarrow> numeral_text 10 n = [digit_char n]"
  "\<not> n < 10 \<Longrightarrow> numeral_text 10 n = numeral_text 10 (n div 10) @ [digit_char (n mod 10)]"
  by (simp_all add: numeral_text_def low_digits.simps [of 10 n])

lemma numeral_length3: "n < 256 \<Longrightarrow> length (numeral_text 10 n) \<le> 3"
  using low_digits_length [of 10 n 2] by (simp add: numeral_text_def eval_nat_numeral)

lemma digit_char_u8: "d < 10 \<Longrightarrow> unat (digit_char d) = 48 + d"
proof -
  assume "d < 10"
  then have "d \<in> set [0..<10]" by simp
  then show ?thesis by (simp add: upt_rec numeral_eq_Suc [symmetric]) (elim disjE; simp add: digit_char_def)
qed

lemma numeral_snoc:
  assumes "is_digit c"
  shows "n \<noteq> 0 \<Longrightarrow> numeral_text 10 n @ [c] = numeral_text 10 (n * 10 + (unat c - 48))"
    and "[c] = numeral_text 10 (unat c - 48)"
proof -
  have u: "48 \<le> unat c" "unat c \<le> 57" using assms by (simp_all add: is_digit_def word_le_nat_alt)
  define d where "d = unat c - 48"
  have d: "unat c = 48 + d" "d < 10" using u by (simp_all add: d_def)
  have c: "c = digit_char d" using d digit_char_u8 [of d] by (metis word_unat_eq_iff)
  show "[c] = numeral_text 10 (unat c - 48)" using d c by (simp add: numeral_text_step)
  show "numeral_text 10 n @ [c] = numeral_text 10 (n * 10 + (unat c - 48))" if "n \<noteq> 0"
    using d c that by (simp add: numeral_text_step(2) [of "10 * n + d"] mult.commute [of n])
qed

lemma unat_of_nat8: "n \<le> 255 \<Longrightarrow> unat (of_nat n :: u8) = n"
  by (simp add: unat_of_nat)

text \<open>What the loop has read when it is in a state: the octets with their dots.\<close>

fun octets_text :: "u8 list \<Rightarrow> u8 list" where
  "octets_text [] = []"
| "octets_text (b # bs) = numeral_text 10 (unat b) @ 46 # octets_text bs"

definition read_text :: "bool \<Rightarrow> u8 list \<Rightarrow> u8 list" where
  "read_text digit tmp = octets_text (butlast tmp) @ (if digit then numeral_text 10 (unat (last tmp)) else [])"

definition pton_state :: "bool \<Rightarrow> nat \<Rightarrow> u8 list \<Rightarrow> bool" where
  "pton_state digit octets tmp =
     (tmp \<noteq> [] \<and> octets = (if digit then length tmp else length tmp - 1) \<and> (\<not> digit \<longrightarrow> last tmp = 0))"

lemma octets_text_snoc: "octets_text (bs @ [b]) = octets_text bs @ numeral_text 10 (unat b) @ [46]"
  by (induction bs) auto

lemma dotted_octets: "bs \<noteq> [] \<Longrightarrow> dotted bs = octets_text (butlast bs) @ numeral_text 10 (unat (last bs))"
proof (induction bs rule: dotted.induct)
  case (3 b b' bs)
  then show ?case by simp
qed auto

lemma pton_loop_sound:
  assumes "pton_loop str digit octets tmp = Some (Some (octets', tmp'))" "pton_state digit octets tmp"
  shows "\<exists>digit'. terminated str \<and> pton_state digit' octets' tmp' \<and> read_text digit tmp @ cstr str = read_text digit' tmp'"
  using assms
proof (induction str digit octets tmp rule: pton_loop.induct)
  case (2 ch str digit octets tmp)
  show ?case
  proof (cases "ch = 0")
    case True
    then show ?thesis using 2 by auto
  next
    case nz: False
    let ?v = "unat (last tmp) * 10 + (unat ch - 48)"
    show ?thesis
    proof (cases "is_digit ch")
      case dig: True
      have g: "\<not> (digit \<and> last tmp = 0)" "\<not> ?v > 255" "digit \<or> \<not> 3 < octets" using 2(4) nz dig by (auto simp: Let_def split: if_splits)
      define w where "w = ?v"
      define tmp2 where "tmp2 = butlast tmp @ [of_nat w :: u8]"
      have v: "unat (of_nat w :: u8) = w" by (rule unat_of_nat8) (use g(2) w_def in linarith)
      have st: "pton_state True (if digit then octets else octets + 1) tmp2"
        using 2(5) by (auto simp: pton_state_def tmp2_def)
      have run: "pton_loop str True (if digit then octets else octets + 1) tmp2 = Some (Some (octets', tmp'))"
        using 2(4) nz dig g by (cases digit) (auto simp: tmp2_def w_def Let_def split: if_splits)
      have "read_text digit tmp @ [ch] = read_text True tmp2"
      proof (cases digit)
        case True
        then have "unat (last tmp) \<noteq> 0" using g(1) by (simp add: unat_eq_0)
        from numeral_snoc(1) [OF dig this] True show ?thesis by (simp add: read_text_def tmp2_def v w_def [symmetric])
      next
        case False
        then have "last tmp = 0" using 2(5) by (simp add: pton_state_def)
        with False numeral_snoc(2) [OF dig] show ?thesis by (simp add: read_text_def tmp2_def v) (simp add: w_def)
      qed
      moreover obtain digit' where "terminated str" "pton_state digit' octets' tmp'"
          "read_text True tmp2 @ cstr str = read_text digit' tmp'"
        using 2(1,2) [OF nz dig refl g(1,2) refl] run st g(3) unfolding w_def [symmetric] tmp2_def [symmetric] by (cases digit) (auto split: if_splits)
      ultimately show ?thesis using nz by (intro exI [of _ digit']) (metis append.assoc append_Cons append_Nil
            cstr_simps(2) terminated_simps(2))
    next
      case ndig: False
      then have d: "ch = 46" "digit" "octets \<noteq> 4" "length tmp < 4" using 2(4) nz by (auto split: if_splits)
      have st: "pton_state False octets (tmp @ [0])" using 2(5) d(2) by (simp add: pton_state_def)
      have "read_text digit tmp @ [ch] = read_text False (tmp @ [0])"
        using 2(5) d octets_text_snoc [of "butlast tmp" "last tmp"] by (simp add: read_text_def pton_state_def)
      moreover obtain digit' where "terminated str" "pton_state digit' octets' tmp'"
          "read_text False (tmp @ [0]) @ cstr str = read_text digit' tmp'"
        using 2(3) [OF nz ndig conjI [OF d(1,2)] d(3,4) _ st] 2(4) nz ndig d by auto
      ultimately show ?thesis using nz by (intro exI [of _ digit']) (metis append.assoc append_Cons append_Nil
            cstr_simps(2) terminated_simps(2))
    qed
  qed
qed simp

text \<open>An octet is read from its numeral.\<close>

lemma pton_loop_octet:
  assumes "n \<le> 255" "octets \<le> 3"
  shows "pton_loop (numeral_text 10 n @ rest) False octets (p @ [0]) = pton_loop rest True (octets + 1) (p @ [of_nat n])"
  using assms(1)
proof (induction n arbitrary: rest rule: less_induct)
  case (less n)
  have dig: "is_digit (digit_char d)" "digit_char d \<noteq> 0" "unat (digit_char d) = 48 + d" if "d < 10" for d
    using digit_char_value [OF that] digit_char_u8 [OF that] digit_char_facts(3) [of d] that by simp_all
  show ?case
  proof (cases "n < 10")
    case True
    then show ?thesis using dig [OF True] assms(2) less.prems by (simp add: numeral_text_step(1) Let_def)
  next
    case False
    let ?d = "n mod 10" let ?m = "n div 10"
    have m: "?m < n" "?m \<le> 255" "?m \<noteq> 0" "?d < 10" using False less.prems by auto
    have u: "unat (of_nat ?m :: u8) = ?m" by (rule unat_of_nat8 [OF m(2)])
    have n: "?m * 10 + ?d = n" by simp
    have z: "(of_nat ?m :: u8) \<noteq> 0" using u m(3) by (metis unat_0)
    have "pton_loop (numeral_text 10 n @ rest) False octets (p @ [0])
        = pton_loop (digit_char ?d # rest) True (octets + 1) (p @ [of_nat ?m])"
      using less.IH [OF m(1,2), of "digit_char ?d # rest"] numeral_text_step(2) [OF False] by simp
    also have "\<dots> = pton_loop rest True (octets + 1) (p @ [of_nat n])"
      using dig [OF m(4)] u z less.prems
      by (simp add: Let_def n del: of_nat_add of_nat_mult)
    finally show ?thesis .
  qed
qed

lemma pton_loop_dot:
  "octets \<le> 3 \<Longrightarrow> length tmp < 4 \<Longrightarrow> pton_loop (46 # rest) True octets tmp = pton_loop rest False octets (tmp @ [0])"
  by (simp add: is_digit_def)

lemma list4: "length xs = 4 \<Longrightarrow> \<exists>a b c d. xs = [a, b, c, d]"
  by (auto simp: length_Suc_conv eval_nat_numeral)

lemma pton_loop_dotted:
  assumes "length bs = 4"
  shows "pton_loop (dotted bs @ 0 # t) False 0 [0] = Some (Some (4, bs))"
proof -
  obtain a b c d where bs: "bs = [a, b, c, d]" using list4 [OF assms] by blast
  have le: "unat x \<le> 255" for x :: u8
  proof -
    have "unat x < 256" using unsigned_less [of x] by simp
    then show ?thesis by linarith
  qed
  have o: "pton_loop (numeral_text 10 (unat x) @ rest) False k (p @ [0]) = pton_loop rest True (k + 1) (p @ [x])"
    if "k \<le> 3" for x rest k p using pton_loop_octet [OF le that, of x] by simp
  show ?thesis
    using o [of 0 a _ "[]"] o [of 1 b _ "[a]"] o [of 2 c _ "[a, b]"] o [of 3 d _ "[a, b, c]"]
    by (simp add: bs pton_loop_dot eval_nat_numeral del: pton_loop.simps(2)) simp
qed

lemma pton_dotted:
  assumes "terminated s"
  shows "fnet_inet_pton_ip4 s = Some (Some a) \<longleftrightarrow> cstr s = dotted (store32 a)"
proof
  assume p: "fnet_inet_pton_ip4 s = Some (Some a)"
  obtain octets tmp where r: "pton_loop s False 0 [0] = Some (Some (octets, tmp))" "4 \<le> octets" "length tmp = 4"
      "a = load32 tmp"
  proof (cases "pton_loop s False 0 [0]")
    case (Some r)
    then show ?thesis using that p by (cases r) (auto simp: fnet_inet_pton_ip4_def split: if_splits)
  qed (use p in \<open>simp add: fnet_inet_pton_ip4_def\<close>)
  have "pton_state False 0 [0]" by (simp add: pton_state_def)
  from pton_loop_sound [OF r(1) this] obtain digit' where
    d: "pton_state digit' octets tmp" "cstr s = read_text digit' tmp" by (auto simp: read_text_def)
  then have "digit'" using r(2,3) by (cases digit') (auto simp: pton_state_def)
  then have "cstr s = dotted tmp" using d dotted_octets [of tmp] by (simp add: read_text_def pton_state_def)
  then show "cstr s = dotted (store32 a)" using r(3,4) by simp
next
  assume c: "cstr s = dotted (store32 a)"
  obtain t where t: "s = cstr s @ 0 # t" using terminated_split [OF assms] by blast
  have "pton_loop (dotted (store32 a) @ 0 # t) False 0 [0] = Some (Some (4, store32 a))"
    by (rule pton_loop_dotted) simp
  then show "fnet_inet_pton_ip4 s = Some (Some a)"
    by (subst t) (simp add: c fnet_inet_pton_ip4_def)
qed

section \<open>Printing\<close>

lemma sint_byte: "sint (ucast (b :: u8) :: u32) = int (unat b)"
proof -
  have "uint b < 256" using uint_lt2p [of b] by simp
  moreover have "- (2 ^ 31) \<le> uint b" by (rule order_trans [OF _ uint_ge_0]) simp
  ultimately have "signed_take_bit 31 (uint b) = uint b" by (intro signed_take_bit_int_eq_self) simp_all
  then show ?thesis by (simp add: sint_uint unsigned_ucast_eq signed_take_bit_take_bit)
qed

lemma printed_address:
  "fnet_serial_vprintf [37, 100, 46, 37, 100, 46, 37, 100, 46, 37, 100, 0] (map (\<lambda>b. VInt (ucast b)) [a, b, c, d])
   = Some (dotted [a, b, c, d], length (dotted [a, b, c, d]), Map.empty)"
proof -
  let ?p = "\<lambda>x :: u8. Directive [] 0 [] (Signed 100 (ucast x))"
  let ?ps = "[?p a, Copy 46, ?p b, Copy 46, ?p c, Copy 46, ?p d]"
  have l: "length (dotted [a, b, c, d]) \<le> 15"
    using numeral_length3 [of "unat a"] numeral_length3 [of "unat b"] numeral_length3 [of "unat c"]
      numeral_length3 [of "unat d"] unsigned_less [of a] unsigned_less [of b] unsigned_less [of c] unsigned_less [of d]
    by simp
  have "concat (map piece_text ?ps) = dotted [a, b, c, d]"
    by (simp add: field_text_def sign_text_def sint_byte)
  moreover have "\<forall>p\<in>set ?ps. piece_ok p" by simp
  ultimately show ?thesis
    using vprintf_text [of ?ps "[]" "[]"] l by (simp add: width_text_def)
qed

lemma dotted_length: "length (dotted [a, b, c, d]) \<le> 15" "dotted [a, b, c, d] \<noteq> []" "0 \<notin> set (dotted [a, b, c, d])"
proof -
  note n = numeral_text_facts [of 10]
  show "length (dotted [a, b, c, d]) \<le> 15"
    using numeral_length3 [of "unat a"] numeral_length3 [of "unat b"] numeral_length3 [of "unat c"]
      numeral_length3 [of "unat d"] unsigned_less [of a] unsigned_less [of b] unsigned_less [of c] unsigned_less [of d]
    by simp
  show "dotted [a, b, c, d] \<noteq> []" "0 \<notin> set (dotted [a, b, c, d])" using n(1,2) by simp_all
qed

lemma strlcpy_fits:
  "terminated s \<Longrightarrow> length (cstr s) < n \<Longrightarrow> length (cstr s) < length d \<Longrightarrow>
   fnet_strlcpy (Some d) (Some s) n = Some (Some (cstr s @ 0 # drop (length (cstr s) + 1) d))"
  by (auto simp: fnet_strlcpy_def strncpy_loop_eq store_at_def)

lemma ntop_ip4_ok:
  assumes "length junk = 16" "length (dotted (store32 a)) < n" "n \<le> length d"
  shows "fnet_inet_ntop_ip4 junk a (Some d) n
       = Some (Some (dotted (store32 a) @ 0 # drop (length (dotted (store32 a)) + 1) d))"
proof -
  obtain w x y z where s: "store32 a = [w, x, y, z]" using list4 [of "store32 a"] by auto
  let ?t = "dotted [w, x, y, z]"
  note l = dotted_length [of w x y z]
  have j: "16 \<le> length junk" using assms(1) by simp
  have p: "fnet_snprintf (Some junk) FNET_IP4_ADDR_STR_SIZE [37, 100, 46, 37, 100, 46, 37, 100, 46, 37, 100, 0]
      (map (\<lambda>b. VInt (ucast b)) (store32 a)) = Some (Some (?t @ 0 # drop (length ?t + 1) junk), length ?t)"
    using fnet_snprintf_ok [OF printed_address [of w x y z] _ j] l(1)
    by (simp add: s FNET_IP4_ADDR_STR_SIZE_def min.absorb1 del: dotted.simps list.map)
  have c: "cstr (?t @ 0 # drop (length ?t + 1) junk) = ?t" using l(3) by (simp add: cstr_append del: dotted.simps)
  have tm: "terminated (?t @ 0 # drop (length ?t + 1) junk)" by simp
  have len: "0 < length ?t" "length ?t < n" using l(2) assms(2) s by (simp_all del: dotted.simps)
  have "fnet_strlcpy (Some d) (Some (?t @ 0 # drop (length ?t + 1) junk)) n = Some (Some (?t @ 0 # drop (length ?t + 1) d))"
    using strlcpy_fits [OF tm, of n d] len assms(3) unfolding c by simp
  then show ?thesis unfolding fnet_inet_ntop_ip4_def p using len by (simp add: s del: dotted.simps)
qed

text \<open>Two hexadecimal digits.\<close>

definition hex2 :: "u8 \<Rightarrow> u8 list" where
  "hex2 b = [digit_char (unat b div 16), digit_char (unat b mod 16)]"

lemma hex2_printed: "field_text False True 2 [] (numeral_text 16 (unat (b :: u8))) = hex2 b"
proof -
  have "unat b < 256" using unsigned_less [of b] by simp
  then have q: "unat b div 16 < 16" by linarith
  show ?thesis
  proof (cases "unat b < 16")
    case True
    then show ?thesis by (simp add: field_text_def numeral_text_def low_digits.simps hex2_def digit_char_def)
  next
    case False
    then show ?thesis using q
      by (simp add: field_text_def numeral_text_def low_digits.simps [of 16 "unat b"] low_digits.simps [of 16 "unat b div 16"]
          hex2_def)
  qed
qed

lemma mac_loop_digit:
  assumes "d < 16"
  shows "mac_loop (digit_char d # str) val octets = mac_loop str (val * 16 + of_nat d) octets"
proof -
  have "d \<in> set [0..<16]" using assms by simp
  then show ?thesis
    by (simp add: upt_rec numeral_eq_Suc [symmetric] del: mac_loop.simps)
      (elim disjE; simp add: digit_char_def push_bit_eq_mult; simp only: add.commute)
qed

lemma mac_loop_hex2: "mac_loop (hex2 b @ str) 0 octets = mac_loop str (ucast b) octets"
proof -
  have "unat b < 256" using unsigned_less [of b] by simp
  then have q: "unat b div 16 < 16" by linarith
  have "(of_nat (unat b div 16) * 16 + of_nat (unat b mod 16) :: u32) = of_nat (unat b div 16 * 16 + unat b mod 16)"
    by (simp only: of_nat_add of_nat_mult of_nat_numeral)
  also have "\<dots> = ucast b" by (simp only: div_mult_mod_eq of_nat_unat)
  finally show ?thesis using q by (simp add: hex2_def mac_loop_digit del: mac_loop.simps)
qed

definition mac_text :: "u8 list \<Rightarrow> u8 list" where
  "mac_text addr = (case addr of [a, b, c, d, e, f] \<Rightarrow>
     hex2 a @ 58 # hex2 b @ 58 # hex2 c @ 58 # hex2 d @ 58 # hex2 e @ 58 # hex2 f | _ \<Rightarrow> [])"

lemma list6: "length xs = 6 \<Longrightarrow> \<exists>a b c d e f. xs = [a, b, c, d, e, f]"
  by (auto simp: length_Suc_conv eval_nat_numeral)

lemma mac_to_str_ok:
  assumes "length addr = 6" "18 \<le> length s"
  shows "fnet_mac_to_str addr (Some s) = Some (Some (mac_text addr @ 0 # drop 18 s))"
proof -
  obtain a b c d e f where addr: "addr = [a, b, c, d, e, f]" using list6 [OF assms(1)] by blast
  let ?p = "\<lambda>x :: u8. Directive [48] 2 [] (Hex 88 (ucast x))"
  let ?ps = "[?p a, Copy 58, ?p b, Copy 58, ?p c, Copy 58, ?p d, Copy 58, ?p e, Copy 58, ?p f]"
  have w: "width_text 2 = [50]" by (simp add: width_text_def numeral_text_def low_digits.simps digit_char_def)
  have u: "unat (ucast x :: u32) = unat x" for x :: u8 by (simp add: unsigned_ucast_eq take_bit_nat_eq_self)
  have "concat (map piece_text ?ps) = mac_text addr"
    by (simp add: addr mac_text_def hex_text_def hex2_printed u)
  moreover have l: "length (mac_text addr) = 17" by (simp add: addr mac_text_def hex2_def)
  moreover have "\<forall>p\<in>set ?ps. piece_ok p" by (simp add: is_flag_def)
  ultimately have "fnet_serial_vprintf [37, 48, 50, 88, 58, 37, 48, 50, 88, 58, 37, 48, 50, 88, 58, 37, 48, 50, 88, 58, 37, 48, 50, 88, 58,
             37, 48, 50, 88, 0] (map (\<lambda>b. VInt (ucast b)) addr) = Some (mac_text addr, 17, Map.empty)"
    using vprintf_text [of ?ps "[]" "[]"] by (simp add: w addr)
  from fnet_sprintf_ok [OF this, of s] assms(2) l show ?thesis by (simp add: fnet_mac_to_str_def)
qed

lemma str_to_mac_ok: "length addr = 6 \<Longrightarrow> fnet_str_to_mac (mac_text addr @ 0 # t) = Some (Some addr)"
proof -
  assume "length addr = 6"
  then obtain a b c d e f where addr: "addr = [a, b, c, d, e, f]" using list6 by blast
  have u: "ucast (ucast x :: u32) = x" for x :: u8 by (rule bit_word_eqI) (simp add: bit_simps)
  have colon: "mac_loop (58 # str) val octets = (if length octets \<ge> 5 then Some None else mac_loop str 0 (octets @ [val]))"
    for str val octets by (simp add: Let_def)
  have nul: "mac_loop (0 # str) val octets = (if length octets = 5 then Some (Some (map ucast (octets @ [val]))) else Some None)"
    for str val octets by (simp add: Let_def)
  show ?thesis
    by (simp add: addr mac_text_def fnet_str_to_mac_def mac_loop_hex2 colon nul u del: mac_loop.simps)
qed

section \<open>Properties\<close>

text \<open>
  C38. Hardware addresses are read back as they were written: the text of any address fits into the
  18 bytes that the header documents, and reading it returns the address.
\<close>

theorem mac_text_roundtrip:
  assumes "length addr = 6" "18 \<le> length s"
  shows "\<exists>t. fnet_mac_to_str addr (Some s) = Some (Some t) \<and> length (cstr t) = 17 \<and> fnet_str_to_mac t = Some (Some addr)"
proof -
  obtain a b c d e f where addr: "addr = [a, b, c, d, e, f]" using list6 [OF assms(1)] by blast
  have "0 \<notin> set (hex2 x)" for x
  proof -
    have "unat x < 256" using unsigned_less [of x] by simp
    then have "unat x div 16 < 16" "unat x mod 16 < 16" by linarith+
    then show ?thesis using digit_char_facts(3) by (fastforce simp: hex2_def)
  qed
  then have "0 \<notin> set (mac_text addr)" "length (mac_text addr) = 17" by (simp_all add: addr mac_text_def hex2_def)
  then show ?thesis using mac_to_str_ok [OF assms] str_to_mac_ok [OF assms(1)] by (simp add: cstr_append)
qed

lemma mac_text_roundtrip_witness:
  "\<exists>t. fnet_mac_to_str [2, 0, 94, 16, 255, 171] (Some (replicate 18 7)) = Some (Some t)
     \<and> fnet_str_to_mac t = Some (Some [2, 0, 94, 16, 255, 171])"
  using mac_text_roundtrip [of "[2, 0, 94, 16, 255, 171]" "replicate 18 7"] by auto

text \<open>Only the low byte of an octet counts: too large an octet is accepted.\<close>

lemma str_to_mac_truncates:
  "fnet_str_to_mac [49, 48, 48, 58, 48, 58, 48, 58, 48, 58, 48, 58, 49, 0] = Some (Some [0, 0, 0, 0, 0, 1])"
  by (simp add: fnet_str_to_mac_def)

text \<open>
  C39. The dotted notation has one text for each address: the parser accepts a string as the address
  \<open>a\<close> if and only if the string is what the printer writes for \<open>a\<close> into any buffer that is long
  enough. So it accepts exactly four decimal numbers up to 255 without leading zeros.
\<close>

theorem inet_text_canonical:
  assumes "terminated s" "length junk = FNET_IP4_ADDR_STR_SIZE" "FNET_IP4_ADDR_STR_SIZE \<le> length d"
  shows "fnet_inet_pton_ip4 s = Some (Some a)
     \<longleftrightarrow> fnet_inet_ntoa junk a (Some d) = Some (Some (cstr s @ 0 # drop (length (cstr s) + 1) d))"
proof -
  obtain w x y z where st: "store32 a = [w, x, y, z]" using list4 [of "store32 a"] by auto
  note l = dotted_length [of w x y z, folded st]
  have n: "fnet_inet_ntoa junk a (Some d) = Some (Some (dotted (store32 a) @ 0 # drop (length (dotted (store32 a)) + 1) d))"
    using ntop_ip4_ok [of junk a 16 d] assms(2,3) l(1) by (simp add: fnet_inet_ntoa_def FNET_IP4_ADDR_STR_SIZE_def)
  have "cstr s = dotted (store32 a)"
    if "dotted (store32 a) @ 0 # t = cstr s @ 0 # u" for t u
  proof -
    have "cstr (dotted (store32 a) @ 0 # t) = cstr (cstr s @ 0 # u)" by (simp only: that)
    then show ?thesis using l(3) by (simp add: cstr_append)
  qed
  then show ?thesis unfolding pton_dotted [OF assms(1)] n by (auto simp del: append_eq_append_conv)
qed

lemma inet_text_canonical_witness:
  "fnet_inet_pton_ip4 [49, 48, 46, 48, 46, 48, 46, 50, 0] = Some (Some 0x0200000A)
   \<and> fnet_inet_ntoa (replicate 16 9) 0x0200000A (Some (replicate 16 0))
     = Some (Some ([49, 48, 46, 48, 46, 48, 46, 50] @ 0 # replicate 7 0))"
proof -
  have p: "fnet_inet_pton_ip4 [49, 48, 46, 48, 46, 48, 46, 50, 0] = Some (Some 0x0200000A)"
    by code_simp
  have "terminated [49, 48, 46, 48, 46, 48, 46, 50, 0]" by simp
  from inet_text_canonical [OF this, of "replicate 16 9" "replicate 16 0" "0x0200000A"] p show ?thesis
    by (simp add: FNET_IP4_ADDR_STR_SIZE_def)
qed

end
