(* ===== verification/Fnet_Ip4.thy ===== *)
theory Fnet_Ip4
  imports Fnet_Eth Fnet_Inet Fnet_Checksum
begin

text \<open>
  \<^verbatim>\<open>fnet_ip4.c\<close> with the input queue of \<^verbatim>\<open>fnet_ip.c\<close>: routing, output with
  fragmentation, input, reassembly and the multicast list of IPv4.

  The operations work on the memory of the net buffers and on the file's static data, \<open>ip4_state\<close>.
  What an interface does with a packet, the transport protocols and ICMP are arguments.

  A fragment that waits is a struct laid over the IPv4 header of its packet. While the fragment is
  in a list that header is the record \<open>frag\<close>, with the place where it lies; the bytes are written
  back when the datagram is complete. To touch the header of a packet whose data buffer has been
  freed is the value \<open>None\<close>. The circular list of fragments is the list that starts at the head.
\<close>

unbundle bit_operations_syntax

section \<open>Headers and interfaces\<close>

abbreviation w16 :: "nat \<Rightarrow> nat" where
  "w16 n \<equiv> n mod 65536"

record ip4_header =
  ih_version__header_length :: u8
  ih_tos :: u8
  ih_total_length :: u16
  ih_id :: u16
  ih_flags_fragment_offset :: u16
  ih_ttl :: u8
  ih_protocol :: u8
  ih_checksum :: u16
  ih_source_addr :: u32
  ih_desination_addr :: u32

definition ip4_of :: "u8 list \<Rightarrow> ip4_header" where
  "ip4_of xs = \<lparr>ih_version__header_length = xs ! 0, ih_tos = xs ! 1, ih_total_length = load16l (drop 2 xs),
     ih_id = load16l (drop 4 xs), ih_flags_fragment_offset = load16l (drop 6 xs), ih_ttl = xs ! 8,
     ih_protocol = xs ! 9, ih_checksum = load16l (drop 10 xs), ih_source_addr = load32 (drop 12 xs),
     ih_desination_addr = load32 (drop 16 xs)\<rparr>"

definition ip4_bytes :: "ip4_header \<Rightarrow> u8 list" where
  "ip4_bytes h = [ih_version__header_length h, ih_tos h] @ store16 (ih_total_length h) @ store16 (ih_id h)
     @ store16 (ih_flags_fragment_offset h) @ [ih_ttl h, ih_protocol h] @ store16 (ih_checksum h)
     @ store32 (ih_source_addr h) @ store32 (ih_desination_addr h)"

definition sizeof_ip4_header :: nat where
  "sizeof_ip4_header = 20"

definition FNET_IP4_DF :: u16 where "FNET_IP4_DF = 0x4000"

definition FNET_IP4_MF :: u16 where "FNET_IP4_MF = 0x2000"

definition FNET_IP4_MAX_PACKET :: nat where "FNET_IP4_MAX_PACKET = 32 * 1024"

definition FNET_IP_QUEUE_COUNT_MAX :: nat where "FNET_IP_QUEUE_COUNT_MAX = FNET_IP4_MAX_PACKET div 2"

definition FNET_IP4_FRAG_TTL :: u8 where "FNET_IP4_FRAG_TTL = 10000 div 500"

definition FNET_NETBUF_FLAG_BROADCAST :: u32 where "FNET_NETBUF_FLAG_BROADCAST = 0x02"

definition FNET_NETBUF_FLAG_HW_IP_CHECKSUM :: u32 where "FNET_NETBUF_FLAG_HW_IP_CHECKSUM = 0x10"

text \<open>\<^verbatim>\<open>FNET_IP_HEADER_GET_HEADER_LENGTH(x) << 2\<close> and the two setters.\<close>

definition header_length_of :: "u8 \<Rightarrow> nat" where
  "header_length_of vhl = 4 * unat (vhl AND 0x0F)"

definition set_version :: "u8 \<Rightarrow> u8 \<Rightarrow> u8" where
  "set_version vhl version = (vhl AND 0x0F) OR push_bit 4 (version AND 0x0F)"

definition set_header_length :: "u8 \<Rightarrow> u8 \<Rightarrow> u8" where
  "set_header_length vhl len = (vhl AND 0xF0) OR (len AND 0x0F)"

record netif =
  if_address :: u32
  if_subnet :: u32
  if_subnetmask :: u32
  if_netbroadcast :: u32
  if_subnetbroadcast :: u32
  if_gateway :: u32
  if_mtu :: nat
  if_features :: u32
  if_loopback :: bool
  if_scope_id :: u32

definition FNET_NETIF_FEATURE_HW_TX_IP_CHECKSUM :: u32 where "FNET_NETIF_FEATURE_HW_TX_IP_CHECKSUM = 0x01"

definition FNET_NETIF_FEATURE_HW_RX_IP_CHECKSUM :: u32 where "FNET_NETIF_FEATURE_HW_RX_IP_CHECKSUM = 0x04"

definition FNET_NETIF_FEATURE_HW_RX_PROTOCOL_CHECKSUM :: u32 where "FNET_NETIF_FEATURE_HW_RX_PROTOCOL_CHECKSUM = 0x08"

definition has_feature :: "netif \<Rightarrow> u32 \<Rightarrow> bool" where
  "has_feature netif f = (if_features netif AND f \<noteq> 0)"

section \<open>Routing\<close>

definition same_subnet :: "u32 \<Rightarrow> netif \<Rightarrow> bool" where
  "same_subnet addr netif = (addr AND if_subnetmask netif = if_address netif AND if_subnetmask netif)"

definition fnet_ip4_route :: "netif list \<Rightarrow> netif option \<Rightarrow> u32 \<Rightarrow> netif option" where
  "fnet_ip4_route netifs netif_default dest_ip =
     (let res_netif = find (\<lambda>n. if_subnetmask n \<noteq> 0 \<and> same_subnet dest_ip n) netifs;
          res_netif =
            (if res_netif = None
             then if netif_default \<noteq> None \<and> if_gateway (the netif_default) \<noteq> 0 then netif_default
                  else find (\<lambda>n. if_gateway n \<noteq> 0) netifs
             else res_netif)
      in if res_netif = None then netif_default else res_netif)"

definition fnet_ip4_will_fragment :: "netif \<Rightarrow> nat \<Rightarrow> bool" where
  "fnet_ip4_will_fragment netif protocol_message_size =
     (w32 (protocol_message_size + sizeof_ip4_header) > if_mtu netif)"

text \<open>169.254.0.0 in network byte order.\<close>

definition FNET_IP4_ADDR_LINK_LOCAL_PREFIX :: u32 where "FNET_IP4_ADDR_LINK_LOCAL_PREFIX = 0x0000FEA9"

definition fnet_ip4_addr_is_onlink :: "netif \<Rightarrow> u32 \<Rightarrow> bool" where
  "fnet_ip4_addr_is_onlink netif addr =
     (same_subnet addr netif \<or> addr AND FNET_IP4_ADDR_LINK_LOCAL_PREFIX = FNET_IP4_ADDR_LINK_LOCAL_PREFIX)"

definition broadcast_of :: "u32 \<Rightarrow> netif \<Rightarrow> bool" where
  "broadcast_of addr netif = (addr = if_netbroadcast netif \<or> addr = if_subnetbroadcast netif \<or> addr = if_subnet netif)"

text \<open>\<^verbatim>\<open>_fnet_ip4_addr_is_broadcast\<close> with its loop over all interfaces for the null pointer.\<close>

definition fnet_ip4_addr_is_broadcast_on :: "netif list \<Rightarrow> u32 \<Rightarrow> netif option \<Rightarrow> bool" where
  "fnet_ip4_addr_is_broadcast_on netifs addr netif =
     (if addr = 0xFFFFFFFF \<or> addr = 0 \<or> addr = 0xFFFFFEA9 then True
      else case netif of
        None \<Rightarrow> list_ex (broadcast_of addr) netifs
      | Some netif \<Rightarrow> broadcast_of addr netif)"

definition fnet_ip4_maximum_packet :: "u32 \<Rightarrow> nat" where
  "fnet_ip4_maximum_packet dest_ip = (FNET_IP4_MAX_PACKET - (40 + sizeof_ip4_header)) div 4 * 4"

section \<open>Output\<close>

datatype fnet_error =
  FNET_ERR_OK | FNET_ERR_NETUNREACH | FNET_ERR_MSGSIZE | FNET_ERR_NOMEM | FNET_ERR_INVAL
  | FNET_ERR_NOPROTOOPT | FNET_ERR_ADDRINUSE

text \<open>\<^verbatim>\<open>netif_output_ip4\<close> of an interface.\<close>

type_synonym ('p, 'z) netif_output = "netif \<Rightarrow> ('p, 'z) nbs_scheme \<Rightarrow> u32 \<Rightarrow> netbuf list \<Rightarrow> ('p, 'z) nbs_scheme option"

fun chain_views :: "('p, 'z) nbs_scheme \<Rightarrow> netbuf list \<Rightarrow> u8 list list option" where
  "chain_views s [] = Some []"
| "chain_views s (n # nb) =
     do { xs \<leftarrow> read_data s (nb_data n) (nb_off n) (nb_length n); xss \<leftarrow> chain_views s nb; Some (xs # xss) }"

definition fnet_ip4_netif_output ::
    "u8 \<Rightarrow> ('p, 'z) netif_output \<Rightarrow> netif \<Rightarrow> u32 \<Rightarrow> ('p, 'z) nbs_scheme \<Rightarrow> netbuf list \<Rightarrow> bool \<Rightarrow> ('p, 'z) nbs_scheme option" where
  "fnet_ip4_netif_output pad out netif dest_ip_addr s nb do_not_route =
     (case nb of
        [] \<Rightarrow> None
      | n # r \<Rightarrow>
          do {
            s \<leftarrow> write_data s (nb_data n) (nb_off n + 10) [0, 0];
            (s, nb) \<leftarrow>
              (if has_feature netif FNET_NETIF_FEATURE_HW_TX_IP_CHECKSUM
               then Some (s, n\<lparr>nb_flags := nb_flags n OR FNET_NETBUF_FLAG_HW_IP_CHECKSUM\<rparr> # r)
               else do {
                 xss \<leftarrow> chain_views s nb;
                 vhl \<leftarrow> read_data s (nb_data n) (nb_off n) 1;
                 c \<leftarrow> fnet_checksum_netbuf pad xss (header_length_of (vhl ! 0));
                 s \<leftarrow> write_data s (nb_data n) (nb_off n + 10) (store16 c);
                 Some (s, nb)
               });
            let dest_ip_addr =
              (if fnet_ip4_addr_is_broadcast_on [] dest_ip_addr (Some netif) \<or> FNET_IP4_ADDR_IS_MULTICAST dest_ip_addr
               then dest_ip_addr
               else if \<not> (do_not_route \<or> fnet_ip4_addr_is_onlink netif dest_ip_addr) then if_gateway netif
               else dest_ip_addr);
            out netif s dest_ip_addr nb
          })"

text \<open>
  One round of the loop that makes the second fragment and those that follow: a header of its own and a
  copy of \<open>len\<close> bytes behind \<open>offset\<close>. Without memory there is no fragment.
\<close>

definition frag_one ::
    "'p allocator \<Rightarrow> ('p, 'z) drain \<Rightarrow> ('p, 'z) nbs_scheme \<Rightarrow> netbuf list \<Rightarrow> nat \<Rightarrow> nat \<Rightarrow> bool \<Rightarrow> nat
      \<Rightarrow> (('p, 'z) nbs_scheme \<times> netbuf list option) option" where
  "frag_one A dr s nb_prev header_length offset is_last len =
     do {
       (s, nb) \<leftarrow> fnet_netbuf_new A dr s header_length False;
       case nb of
         [] \<Rightarrow> Some (s, None)
       | n # _ \<Rightarrow>
           do {
             xs \<leftarrow> read_data s (nb_data (hd nb_prev)) (nb_off (hd nb_prev)) header_length;
             let flags = fnet_htons (of_nat ((offset - header_length) div 8))
                   OR (if is_last then 0 else fnet_htons FNET_IP4_MF);
             s \<leftarrow> write_data s (nb_data n) (nb_off n)
                   ([set_header_length (xs ! 0) 5] @ take 5 (drop 1 xs) @ store16 flags @ drop 8 xs);
             (s, nb_tmp) \<leftarrow> fnet_netbuf_copy A dr s nb_prev offset len False;
             if nb_tmp = []
             then do { s \<leftarrow> fnet_netbuf_free_chain A s nb; Some (s, None) }
             else do {
               let nb = fnet_netbuf_concat nb nb_tmp;
               s \<leftarrow> write_data s (nb_data n) (nb_off n + 2)
                     (store16 (fnet_htons (of_nat (nb_total_length (hd nb)))));
               Some (s, Some nb)
             }
           }
     }"

text \<open>
  \<open>made\<close> is the chain of fragments hung on \<^verbatim>\<open>next_chain\<close>; the result says whether memory
  sufficed. Offsets are natural numbers; they stay below \<open>2 ^ 32\<close> when the MTU is at least the length of the
  header. With \<open>frag_length = 0\<close>, which the caller excludes, the loop would not end.
\<close>

function frag_loop ::
    "'p allocator \<Rightarrow> ('p, 'z) drain \<Rightarrow> ('p, 'z) nbs_scheme \<Rightarrow> netbuf list \<Rightarrow> nat \<Rightarrow> nat \<Rightarrow> nat \<Rightarrow> nat \<Rightarrow> netbuf list list
      \<Rightarrow> (('p, 'z) nbs_scheme \<times> netbuf list list \<times> bool) option" where
  "frag_loop A dr s nb_prev header_length total_length frag_length offset made =
     (if offset \<ge> total_length then Some (s, made, True)
      else if frag_length = 0 then None
      else do {
        let is_last = (offset + frag_length \<ge> total_length);
        let len = (if is_last then total_length - offset else frag_length);
        (s, c) \<leftarrow> frag_one A dr s nb_prev header_length offset is_last len;
        case c of
          None \<Rightarrow> Some (s, made, False)
        | Some nb \<Rightarrow>
            if is_last then Some (s, made @ [nb], True)
            else frag_loop A dr s nb_prev header_length total_length frag_length (offset + frag_length) (made @ [nb])
      })"
  by pat_completeness auto
termination
  by (relation "measure (\<lambda>(A, dr, s, nb, h, t, f, off, made). t - off)") auto

fun send_all :: "(('p, 'z) nbs_scheme \<Rightarrow> netbuf list \<Rightarrow> ('p, 'z) nbs_scheme option) \<Rightarrow> ('p, 'z) nbs_scheme \<Rightarrow> netbuf list list \<Rightarrow> ('p, 'z) nbs_scheme option" where
  "send_all f s [] = Some s"
| "send_all f s (nb # nbs) = do { s \<leftarrow> f s nb; send_all f s nbs }"

text \<open>From \<^verbatim>\<open>if(total_length > netif->netif_mtu)\<close> to \<^verbatim>\<open>FRAG_END\<close>.\<close>

definition ip4_fragment ::
    "'p allocator \<Rightarrow> ('p, 'z) drain \<Rightarrow> u8 \<Rightarrow> ('p, 'z) netif_output \<Rightarrow> netif \<Rightarrow> u32 \<Rightarrow> ('p, 'z) nbs_scheme \<Rightarrow> netbuf list \<Rightarrow> nat \<Rightarrow> bool
      \<Rightarrow> (('p, 'z) nbs_scheme \<times> fnet_error) option" where
  "ip4_fragment A dr pad out netif dest_ip s nb total_length do_not_route =
     do {
       xs \<leftarrow> read_data s (nb_data (hd nb)) (nb_off (hd nb)) sizeof_ip4_header;
       let header_length = header_length_of (xs ! 0);
       let frag_length = w32 (if_mtu netif + 4294967296 - header_length) div 8 * 8;
       if ih_flags_fragment_offset (ip4_of xs) AND fnet_htons FNET_IP4_DF \<noteq> 0 \<or> frag_length < 8
       then do { s \<leftarrow> fnet_netbuf_free_chain A s nb; Some (s, FNET_ERR_MSGSIZE) }
       else do {
         (s, nb, ok) \<leftarrow> fnet_netbuf_pullup A s nb header_length;
         if \<not> ok then do { s \<leftarrow> fnet_netbuf_free_chain A s nb; Some (s, FNET_ERR_NOMEM) }
         else do {
           (s, made, ok) \<leftarrow>
             frag_loop A dr s nb header_length total_length frag_length (header_length + frag_length) [];
           if ok
           then do {
             let n = hd nb;
             xs \<leftarrow> read_data s (nb_data n) (nb_off n) sizeof_ip4_header;
             (s, nb) \<leftarrow> fnet_netbuf_trim A s nb
               (int (header_length + frag_length) - int (unat (fnet_htons (ih_total_length (ip4_of xs)))));
             s \<leftarrow> write_data s (nb_data n) (nb_off n + 2) (store16 (fnet_htons (of_nat (nb_total_length (hd nb)))));
             s \<leftarrow> write_data s (nb_data n) (nb_off n + 6)
               (store16 (ih_flags_fragment_offset (ip4_of xs) OR fnet_htons FNET_IP4_MF));
             s \<leftarrow> send_all (\<lambda>s nb. fnet_ip4_netif_output pad out netif dest_ip s nb do_not_route) s (nb # made);
             Some (s, FNET_ERR_OK)
           }
           else do {
             s \<leftarrow> send_all (fnet_netbuf_free_chain A) s (nb # made);
             Some (s, FNET_ERR_OK)
           }
         }
       }
     }"

text \<open>
  \<open>ip_id\<close> is the function's static counter; \<open>checksum\<close> the place of the checksum in the transport
  header, if any (data buffer and position).
\<close>

definition fnet_ip4_output ::
    "'p allocator \<Rightarrow> ('p, 'z) drain \<Rightarrow> u8 \<Rightarrow> ('p, 'z) netif_output \<Rightarrow> netif list \<Rightarrow> netif option \<Rightarrow> ('p, 'z) nbs_scheme \<Rightarrow> u16
      \<Rightarrow> netif option \<Rightarrow> u32 \<Rightarrow> u32 \<Rightarrow> u8 \<Rightarrow> u8 \<Rightarrow> u8 \<Rightarrow> netbuf list \<Rightarrow> bool \<Rightarrow> bool \<Rightarrow> (nat \<times> nat) option
      \<Rightarrow> (('p, 'z) nbs_scheme \<times> u16 \<times> fnet_error) option" where
  "fnet_ip4_output A dr pad out netifs netif_default s ip_id netif src_ip dest_ip protocol tos ttl nb DF do_not_route checksum =
     (case (case netif of None \<Rightarrow> fnet_ip4_route netifs netif_default dest_ip | Some n \<Rightarrow> Some n) of
        None \<Rightarrow> do { s \<leftarrow> fnet_netbuf_free_chain A s nb; Some (s, ip_id, FNET_ERR_NETUNREACH) }
      | Some netif \<Rightarrow>
          let src_ip = (if src_ip = 0 then if_address netif else src_ip)
          in if nb = [] then None
             else if w32 (nb_total_length (hd nb) + sizeof_ip4_header) > FNET_IP4_MAX_PACKET
             then do { s \<leftarrow> fnet_netbuf_free_chain A s nb; Some (s, ip_id, FNET_ERR_MSGSIZE) }
             else do {
               (s, nb_header) \<leftarrow> fnet_netbuf_new A dr s sizeof_ip4_header True;
               case nb_header of
                 [] \<Rightarrow> do { s \<leftarrow> fnet_netbuf_free_chain A s nb; Some (s, ip_id, FNET_ERR_NOMEM) }
               | n # _ \<Rightarrow>
                   do {
                     s \<leftarrow> (case checksum of
                            None \<Rightarrow> Some s
                          | Some (d, i) \<Rightarrow>
                              do {
                                c \<leftarrow> read_data s d i 2;
                                write_data s d i (store16 (fnet_checksum_pseudo_netbuf_end pad (load16l c)
                                  (store32 src_ip) (store32 dest_ip) 4))
                              });
                     old \<leftarrow> read_data s (nb_data n) (nb_off n) sizeof_ip4_header;
                     let total_length = w16 (nb_total_length (hd nb) + sizeof_ip4_header);
                     let ipheader = \<lparr>ih_version__header_length = set_header_length (set_version (old ! 0) 4) 5,
                           ih_tos = tos, ih_total_length = fnet_htons (of_nat total_length), ih_id = fnet_htons ip_id,
                           ih_flags_fragment_offset = (if DF then fnet_htons FNET_IP4_DF else 0), ih_ttl = ttl,
                           ih_protocol = protocol, ih_checksum = load16l (drop 10 old), ih_source_addr = src_ip,
                           ih_desination_addr = dest_ip\<rparr>;
                     s \<leftarrow> write_data s (nb_data n) (nb_off n) (ip4_bytes ipheader);
                     let nb = fnet_netbuf_concat nb_header nb;
                     if total_length > if_mtu netif
                     then do {
                       (s, e) \<leftarrow> ip4_fragment A dr pad out netif dest_ip s nb total_length do_not_route;
                       Some (s, ip_id + 1, e)
                     }
                     else do {
                       s \<leftarrow> fnet_ip4_netif_output pad out netif dest_ip s nb do_not_route;
                       Some (s, ip_id + 1, FNET_ERR_OK)
                     }
                   }
             })"

section \<open>The fragment lists\<close>

text \<open>
  \<^verbatim>\<open>fnet_ip4_frag_header_t\<close>: \<open>fr_data\<close> and \<open>fr_pos\<close> are the data buffer and the
  position of the struct, the other fields its fields. \<open>fr_mf\<close> overlays the type of service.
\<close>

record frag =
  fr_data :: nat
  fr_pos :: nat
  fr_version__header_length :: u8
  fr_mf :: u8
  fr_total_length :: nat
  fr_id :: u16
  fr_offset :: nat
  fr_nb :: "netbuf list"

record frag_list =
  fl_addr :: nat
  fl_ttl :: u8
  fl_protocol :: u8
  fl_id :: u16
  fl_source_addr :: u32
  fl_desination_addr :: u32
  fl_frags :: "frag list"

definition sizeof_frag_list :: nat where
  "sizeof_frag_list = 24"

definition fnet_ip4_frag_list_add :: "frag_list list \<Rightarrow> frag_list \<Rightarrow> frag_list list" where
  "fnet_ip4_frag_list_add head fl = fl # head"

text \<open>The list to delete is given by its address.\<close>

definition fnet_ip4_frag_list_del :: "frag_list list \<Rightarrow> nat \<Rightarrow> frag_list list" where
  "fnet_ip4_frag_list_del head a = filter (\<lambda>fl. fl_addr fl \<noteq> a) head"

text \<open>
  \<open>frag_prev\<close> is the index of the fragment to insert behind. Where the new fragment becomes the
  head, the circle is read from there.
\<close>

definition fnet_ip4_frag_add :: "frag list \<Rightarrow> frag \<Rightarrow> nat option \<Rightarrow> frag list" where
  "fnet_ip4_frag_add head frag frag_prev =
     (case frag_prev of
        None \<Rightarrow> [frag]
      | Some i \<Rightarrow>
          if head = [] then [frag]
          else if fr_offset (hd head) > fr_offset frag then frag # drop (Suc i) head @ take (Suc i) head
          else take (Suc i) head @ frag # drop (Suc i) head)"

definition fnet_ip4_frag_del :: "frag list \<Rightarrow> nat \<Rightarrow> frag list" where
  "fnet_ip4_frag_del head i = take i head @ drop (Suc i) head"

lemma frag_del_head [simp, termination_simp]: "fnet_ip4_frag_del (f # fs) 0 = fs"
  by (simp add: fnet_ip4_frag_del_def)

fun free_frags :: "'p allocator \<Rightarrow> ('p, 'z) nbs_scheme \<Rightarrow> frag list \<Rightarrow> ('p, 'z) nbs_scheme option" where
  "free_frags A s [] = Some s"
| "free_frags A s (f # fs) = do { s \<leftarrow> fnet_netbuf_free_chain A s (fr_nb f); free_frags A s (fnet_ip4_frag_del (f # fs) 0) }"

text \<open>The caller drops the list that is freed from the lists.\<close>

definition fnet_ip4_frag_list_free :: "'p allocator \<Rightarrow> ('p, 'z) nbs_scheme \<Rightarrow> frag_list \<Rightarrow> ('p, 'z) nbs_scheme option" where
  "fnet_ip4_frag_list_free A s fl =
     do { s \<leftarrow> free_frags A s (fl_frags fl); fnet_free_netbuf A s (fl_addr fl) }"

fun fnet_ip4_timer :: "'p allocator \<Rightarrow> ('p, 'z) nbs_scheme \<Rightarrow> frag_list list \<Rightarrow> (('p, 'z) nbs_scheme \<times> frag_list list) option" where
  "fnet_ip4_timer A s [] = Some (s, [])"
| "fnet_ip4_timer A s (fl # fls) =
     (let fl = fl\<lparr>fl_ttl := fl_ttl fl - 1\<rparr>
      in if fl_ttl fl = 0
         then do { s \<leftarrow> fnet_ip4_frag_list_free A s fl; fnet_ip4_timer A s fls }
         else do { (s, fls) \<leftarrow> fnet_ip4_timer A s fls; Some (s, fl # fls) })"

section \<open>Reassembly\<close>

definition same_datagram :: "ip4_header \<Rightarrow> frag_list \<Rightarrow> bool" where
  "same_datagram h fl =
     (fl_id fl = ih_id h \<and> fl_protocol fl = ih_protocol h \<and> fl_source_addr fl = ih_source_addr h
      \<and> fl_desination_addr fl = ih_desination_addr h)"

fun list_index :: "('a \<Rightarrow> bool) \<Rightarrow> 'a list \<Rightarrow> nat option" where
  "list_index P [] = None"
| "list_index P (x # xs) = (if P x then Some 0 else map_option Suc (list_index P xs))"

text \<open>The search loop: the index of the first fragment behind \<open>offset\<close>, or of the head (0).\<close>

fun frag_find :: "frag list \<Rightarrow> nat \<Rightarrow> nat \<Rightarrow> nat" where
  "frag_find [] i offset = 0"
| "frag_find (f # fs) i offset = (if fr_offset f > offset then i else frag_find fs (i + 1) offset)"

text \<open>
  The loop over the fragments behind the new one, which ends at \<open>e\<close>. A covered fragment's chain
  is freed before its header is unlinked.
\<close>

fun trim_existing :: "'p allocator \<Rightarrow> ('p, 'z) nbs_scheme \<Rightarrow> nat \<Rightarrow> frag list \<Rightarrow> (('p, 'z) nbs_scheme \<times> frag list) option" where
  "trim_existing A s e [] = Some (s, [])"
| "trim_existing A s e (f # fs) =
     (if e > fr_offset f
      then
        let i = e - fr_offset f
        in if i < fr_total_length f
           then do {
             (s, nb) \<leftarrow> fnet_netbuf_trim A s (fr_nb f) (int i);
             Some (s, f\<lparr>fr_total_length := w16 (fr_total_length f + 65536 - w16 i),
               fr_offset := w16 (fr_offset f + i), fr_nb := nb\<rparr> # fs)
           }
           else do {
             s \<leftarrow> fnet_netbuf_free_chain A s (fr_nb f);
             _ \<leftarrow> bufs s (fr_data f);
             trim_existing A s e (fnet_ip4_frag_del (f # fs) 0)
           }
      else Some (s, f # fs))"

text \<open>The check for completeness; \<open>offset\<close> has 16 bits.\<close>

fun contiguous :: "frag list \<Rightarrow> nat \<Rightarrow> bool" where
  "contiguous [] offset = True"
| "contiguous (f # fs) offset = (fr_offset f = offset \<and> contiguous fs (w16 (offset + fr_total_length f)))"

definition complete :: "frag list \<Rightarrow> bool" where
  "complete frags = (contiguous frags 0 \<and> fr_mf (last frags) AND 1 = 0)"

text \<open>
  The datagram of a complete list, and its header: the two bytes of the checksum and the time to live
  hold what is left of the pointer \<^verbatim>\<open>nb\<close>.
\<close>

definition ip4_reconstruct ::
    "'p allocator \<Rightarrow> ('p, 'z) nbs_scheme \<Rightarrow> frag_list \<Rightarrow> (('p, 'z) nbs_scheme \<times> netbuf list) option" where
  "ip4_reconstruct A s fl =
     (case fl_frags fl of
        [] \<Rightarrow> None
      | f # fs \<Rightarrow>
          (case fold (\<lambda>g nb. fnet_netbuf_concat nb (fr_nb g)) fs (fr_nb f) of
             [] \<Rightarrow> None
           | n # r \<Rightarrow>
               let hl = header_length_of (fr_version__header_length f);
                   n = n\<lparr>nb_total_length := w32 (nb_total_length n + hl), nb_length := w32 (nb_length n + hl),
                         nb_off := nb_off n - hl\<rparr>;
                   p = store32 (of_nat (chain_addr (fr_nb f)));
                   h = \<lparr>ih_version__header_length = fr_version__header_length f, ih_tos = fr_mf f AND NOT 1,
                         ih_total_length = fnet_htons (of_nat (nb_total_length n)), ih_id = fr_id f,
                         ih_flags_fragment_offset = of_nat (fr_offset f), ih_ttl = p ! 0,
                         ih_protocol = fl_protocol fl, ih_checksum = load16l (drop 2 p),
                         ih_source_addr = fl_source_addr fl, ih_desination_addr = fl_desination_addr fl\<rparr>
               in if nb_off (hd (fr_nb f)) < hl then None
                  else do {
                    s \<leftarrow> write_data s (fr_data f) (fr_pos f) (ip4_bytes h);
                    s \<leftarrow> fnet_free_netbuf A s (fl_addr fl);
                    Some (s, n # r)
                  }))"

text \<open>From the insertion into list number \<open>k\<close> to the end of the function.\<close>

definition ip4_finish ::
    "'p allocator \<Rightarrow> ('p, 'z) nbs_scheme \<Rightarrow> frag_list list \<Rightarrow> nat \<Rightarrow> (('p, 'z) nbs_scheme \<times> frag_list list \<times> netbuf list) option" where
  "ip4_finish A s fls k =
     (let fl = fls ! k
      in if complete (fl_frags fl)
         then do {
           (s, nb) \<leftarrow> ip4_reconstruct A s fl;
           Some (s, fnet_ip4_frag_list_del fls (fl_addr fl), nb)
         }
         else Some (s, fls, []))"

definition drop_frag ::
    "'p allocator \<Rightarrow> ('p, 'z) nbs_scheme \<Rightarrow> frag_list list \<Rightarrow> netbuf list \<Rightarrow> (('p, 'z) nbs_scheme \<times> frag_list list \<times> netbuf list) option" where
  "drop_frag A s fls nb = do { s \<leftarrow> fnet_netbuf_free_chain A s nb; Some (s, fls, []) }"

text \<open>
  \<open>cur\<close> into the list number \<open>k\<close>, which exists. The difference \<open>i\<close> of the end of the
  fragment before and the start of the new one is unsigned.
\<close>

definition ip4_insert ::
    "'p allocator \<Rightarrow> ('p, 'z) nbs_scheme \<Rightarrow> frag_list list \<Rightarrow> nat \<Rightarrow> frag
      \<Rightarrow> (('p, 'z) nbs_scheme \<times> frag_list list \<times> netbuf list) option" where
  "ip4_insert A s fls k cur =
     (let frags = fl_frags (fls ! k);
          p = frag_find frags 0 (fr_offset cur);
          prev = (if p = 0 then length frags else p) - 1;
          i = (if p = 0 then 0
               else nat ((int (fr_offset (frags ! prev)) + int (fr_total_length (frags ! prev)) - int (fr_offset cur))
                 mod 4294967296))
      in if i \<noteq> 0 \<and> i \<ge> fr_total_length cur then drop_frag A s fls (fr_nb cur)
         else do {
           (s, cur) \<leftarrow>
             (if i \<noteq> 0
              then do {
                (s, nb) \<leftarrow> fnet_netbuf_trim A s (fr_nb cur) (int i);
                if chain_addr nb = chain_addr (fr_nb cur)
                then Some (s, cur\<lparr>fr_total_length := w16 (fr_total_length cur + 65536 - w16 i),
                       fr_offset := w16 (fr_offset cur + i), fr_nb := nb\<rparr>)
                else None
              }
              else Some (s, cur));
           (s, after) \<leftarrow>
             (if p = 0 then Some (s, [])
              else trim_existing A s (fr_offset cur + fr_total_length cur) (drop p frags));
           let before = (if p = 0 then frags else take p frags);
           ip4_finish A s (fls[k := (fls ! k)\<lparr>fl_frags := fnet_ip4_frag_add (before @ after) cur (Some prev)\<rparr>]) k
         })"

definition fnet_ip4_reassembly ::
    "'p allocator \<Rightarrow> ('p, 'z) nbs_scheme \<Rightarrow> frag_list list \<Rightarrow> netbuf list
      \<Rightarrow> (('p, 'z) nbs_scheme \<times> frag_list list \<times> netbuf list) option" where
  "fnet_ip4_reassembly A s fls nb =
     (if nb = [] then None
      else do {
        (s, nb, ok) \<leftarrow> fnet_netbuf_pullup A s nb (nb_total_length (hd nb));
        if \<not> ok then drop_frag A s fls nb
        else do {
          let n = hd nb;
          xs \<leftarrow> read_data s (nb_data n) (nb_off n) sizeof_ip4_header;
          let iphdr = ip4_of xs;
          let hdr_length = header_length_of (ih_version__header_length iphdr);
          (s, nb) \<leftarrow> fnet_netbuf_trim A s nb (int hdr_length);
          _ \<leftarrow> bufs s (nb_data n);
          let mf = (if ih_flags_fragment_offset iphdr AND fnet_htons FNET_IP4_MF \<noteq> 0 then ih_tos iphdr OR 1
                    else ih_tos iphdr);
          let cur = \<lparr>fr_data = nb_data n, fr_pos = nb_off n,
                fr_version__header_length = ih_version__header_length iphdr, fr_mf = mf,
                fr_total_length = w16 (unat (fnet_htons (ih_total_length iphdr)) + 65536 - hdr_length),
                fr_id = ih_id iphdr, fr_offset = w16 (8 * unat (fnet_htons (ih_flags_fragment_offset iphdr))),
                fr_nb = nb\<rparr>;
          case list_index (same_datagram iphdr) fls of
            None \<Rightarrow>
              do {
                (s, a) \<leftarrow> fnet_malloc_netbuf A s sizeof_frag_list;
                if a = 0 then drop_frag A s fls nb
                else
                  ip4_finish A s
                    (fnet_ip4_frag_list_add fls
                      \<lparr>fl_addr = a, fl_ttl = FNET_IP4_FRAG_TTL, fl_protocol = ih_protocol iphdr, fl_id = ih_id iphdr,
                       fl_source_addr = ih_source_addr iphdr, fl_desination_addr = ih_desination_addr iphdr,
                       fl_frags = fnet_ip4_frag_add [] cur None\<rparr>) 0
              }
          | Some k \<Rightarrow> ip4_insert A s fls k cur
        }
      })"

section \<open>The input queue\<close>

text \<open>
  \<^verbatim>\<open>fnet_ip_queue_t\<close>. The first net buffer of a chain in the queue is only there for its
  \<^verbatim>\<open>data_ptr\<close>, which is overwritten with the pointer to the interface; that pointer is kept
  beside the chain, in \<open>q_netifs\<close>.
\<close>

record ip_queue =
  q_head :: "netbuf list list"
  q_netifs :: "netif list"
  q_count :: nat

definition fnet_ip_queue_append ::
    "'p allocator \<Rightarrow> ('p, 'z) drain \<Rightarrow> ('p, 'z) nbs_scheme \<Rightarrow> ip_queue \<Rightarrow> netif \<Rightarrow> netbuf list \<Rightarrow> (('p, 'z) nbs_scheme \<times> ip_queue \<times> bool) option" where
  "fnet_ip_queue_append A dr s queue netif nb =
     (if nb = [] then None
      else if w32 (nb_total_length (hd nb) + q_count queue) > FNET_IP_QUEUE_COUNT_MAX then Some (s, queue, False)
      else do {
        (s, nb_netif) \<leftarrow> fnet_netbuf_new A dr s 4 False;
        if nb_netif = [] then Some (s, queue, False)
        else Some (s, queue\<lparr>q_head := fnet_netbuf_queue_add (q_head queue) (fnet_netbuf_concat nb_netif nb),
                        q_netifs := q_netifs queue @ [netif],
                        q_count := w32 (q_count queue + nb_total_length (hd nb))\<rparr>, True)
      })"

definition fnet_ip_queue_read ::
    "'p allocator \<Rightarrow> ('p, 'z) nbs_scheme \<Rightarrow> ip_queue \<Rightarrow> (('p, 'z) nbs_scheme \<times> ip_queue \<times> netbuf list \<times> netif option) option" where
  "fnet_ip_queue_read A s queue =
     (case q_head queue of
        [] \<Rightarrow> Some (s, queue, [], None)
      | [] # _ \<Rightarrow> None
      | (nb_netif # nb) # q \<Rightarrow>
          do {
            let count = (if nb \<noteq> [] then w32 (q_count queue + 4294967296 - nb_total_length (hd nb)) else q_count queue);
            (s, q) \<leftarrow> fnet_netbuf_queue_del A s ([nb_netif] # q) (nb_addr nb_netif);
            Some (s, queue\<lparr>q_head := q, q_netifs := tl (q_netifs queue), q_count := count\<rparr>, nb,
              Some (hd (q_netifs queue)))
          })"

section \<open>State and multicast groups\<close>

text \<open>Interfaces are given by number here: the code compares pointers.\<close>

record multicast_entry =
  mc_netif :: nat
  mc_group_addr :: u32
  mc_user_counter :: nat

definition FNET_CFG_MULTICAST_MAX :: nat where
  "FNET_CFG_MULTICAST_MAX = 10"

text \<open>\<open>ip_ident\<close> is the static counter \<^verbatim>\<open>ip_id\<close> of \<^verbatim>\<open>_fnet_ip4_output\<close>.\<close>

record ip4_state =
  ip_frag_lists :: "frag_list list"
  ip_in :: ip_queue
  ip_events :: nat
  ip_ident :: u16

text \<open>
  The index of the entry, and whether the interface has to be told. The loop stops at the entry of
  the group; otherwise the last free entry counts.
\<close>

fun join_find :: "multicast_entry list \<Rightarrow> nat \<Rightarrow> nat \<Rightarrow> u32 \<Rightarrow> nat option \<Rightarrow> nat option" where
  "join_find [] i netif group_addr result = result"
| "join_find (e # es) i netif group_addr result =
     (if mc_user_counter e > 0
      then if mc_netif e = netif \<and> mc_group_addr e = group_addr then Some i
           else join_find es (i + 1) netif group_addr result
      else join_find es (i + 1) netif group_addr (Some i))"

definition fnet_ip4_multicast_join ::
    "multicast_entry list \<Rightarrow> nat \<Rightarrow> u32 \<Rightarrow> multicast_entry list \<times> nat option \<times> bool" where
  "fnet_ip4_multicast_join es netif group_addr =
     (case join_find es 0 netif group_addr None of
        None \<Rightarrow> (es, None, False)
      | Some i \<Rightarrow>
          let e = es ! i;
              e = e\<lparr>mc_user_counter := w32 (mc_user_counter e + 1)\<rparr>
          in if mc_user_counter e = 1
             then (es[i := e\<lparr>mc_group_addr := group_addr, mc_netif := netif\<rparr>], Some i, True)
             else (es[i := e], Some i, False))"

definition fnet_ip4_multicast_leave_entry ::
    "multicast_entry list \<Rightarrow> nat option \<Rightarrow> multicast_entry list \<times> bool" where
  "fnet_ip4_multicast_leave_entry es multicastentry =
     (case multicastentry of
        None \<Rightarrow> (es, False)
      | Some i \<Rightarrow>
          let e = (es ! i)\<lparr>mc_user_counter := w32 (mc_user_counter (es ! i) + 4294967295)\<rparr>
          in (es[i := e], mc_user_counter e = 0))"

section \<open>Input\<close>

definition fnet_ip4_set_socket_addr :: "netif \<Rightarrow> ip4_header \<Rightarrow> sockaddr \<times> sockaddr" where
  "fnet_ip4_set_socket_addr netif ip_hdr =
     (\<lparr>sa_family = AF_INET, sa_addr = ih_source_addr ip_hdr, sa_scope_id = if_scope_id netif, sa_port = 0\<rparr>,
      \<lparr>sa_family = AF_INET, sa_addr = ih_desination_addr ip_hdr, sa_scope_id = if_scope_id netif, sa_port = 0\<rparr>)"

type_synonym ('p, 'z) ip4_net = "('p, 'z) nbs_scheme \<times> ip4_state"

type_synonym ('p, 'z) ip4_handler =
  "('p, 'z) ip4_net \<Rightarrow> netif \<Rightarrow> sockaddr \<times> sockaddr \<Rightarrow> netbuf list \<Rightarrow> netbuf list \<Rightarrow> ('p, 'z) ip4_net option"

text \<open>
  What lies above: raw sockets, which leave the packet alone, the transport protocols by number
  (\<^verbatim>\<open>_fnet_prot_find\<close>), and the ICMP error for an unknown protocol, which frees the copy.
\<close>

record ('p, 'z) ip4_upper =
  up_raw_input :: "('p, 'z) ip4_handler"
  up_prot_find :: "u8 \<Rightarrow> ('p, 'z) ip4_handler option"
  up_icmp_unreachable :: "('p, 'z) ip4_net \<Rightarrow> netif \<Rightarrow> netbuf list \<Rightarrow> ('p, 'z) ip4_net option"

definition fnet_ip4_input ::
    "'p allocator \<Rightarrow> ('p, 'z) drain \<Rightarrow> ('p, 'z) ip4_net \<Rightarrow> netif option \<Rightarrow> netbuf list \<Rightarrow> ('p, 'z) ip4_net option" where
  "fnet_ip4_input A dr st netif nb =
     (case netif of
        None \<Rightarrow> Some st
      | Some netif \<Rightarrow>
          if nb = [] then Some st
          else do {
            (s, q, ok) \<leftarrow> fnet_ip_queue_append A dr (fst st) (ip_in (snd st)) netif nb;
            if ok then Some (s, (snd st)\<lparr>ip_in := q, ip_events := ip_events (snd st) + 1\<rparr>)
            else do { s \<leftarrow> fnet_netbuf_free_chain A s nb; Some (s, (snd st)\<lparr>ip_in := q\<rparr>) }
          })"

text \<open>The condition under which a datagram is taken.\<close>

definition ip4_accepts :: "u8 \<Rightarrow> ('p, 'z) nbs_scheme \<Rightarrow> netif \<Rightarrow> netbuf list \<Rightarrow> ip4_header \<Rightarrow> bool option" where
  "ip4_accepts pad s netif nb hdr =
     (let n = hd nb;
          total_length = unat (fnet_htons (ih_total_length hdr));
          header_length = header_length_of (ih_version__header_length hdr);
          dest = ih_desination_addr hdr
      in if nb_total_length n \<ge> total_length \<and> nb_total_length n \<ge> sizeof_ip4_header
            \<and> drop_bit 4 (ih_version__header_length hdr AND 0xF0) = 4
            \<and> header_length \<ge> sizeof_ip4_header \<and> total_length \<ge> header_length
         then do {
           sum_ok \<leftarrow>
             (if has_feature netif FNET_NETIF_FEATURE_HW_RX_IP_CHECKSUM
                 \<or> nb_flags n OR FNET_NETBUF_FLAG_HW_IP_CHECKSUM \<noteq> 0
              then Some True
              else do { xss \<leftarrow> chain_views s nb; c \<leftarrow> fnet_checksum_netbuf pad xss header_length; Some (c = 0) });
           Some (sum_ok
             \<and> (dest = if_address netif \<or> fnet_ip4_addr_is_broadcast_on [] dest (Some netif)
                \<or> (if_address netif = 0
                   \<and> nb_flags n AND FNET_NETBUF_FLAG_BROADCAST = FNET_NETBUF_FLAG_BROADCAST)
                \<or> FNET_IP4_ADDR_IS_MULTICAST dest \<or> if_loopback netif))
         }
         else Some False)"

text \<open>What follows the check of the flags, for a datagram that is whole.\<close>

definition ip4_deliver ::
    "'p allocator \<Rightarrow> ('p, 'z) drain \<Rightarrow> ('p, 'z) ip4_upper \<Rightarrow> ('p, 'z) ip4_net \<Rightarrow> netif \<Rightarrow> netbuf list \<Rightarrow> ('p, 'z) ip4_net option" where
  "ip4_deliver A dr up st netif nb =
     (if nb_total_length (hd nb) > FNET_IP4_MAX_PACKET
      then do { s \<leftarrow> fnet_netbuf_free_chain A (fst st) nb; Some (s, snd st) }
      else do {
        let n = hd nb;
        xs \<leftarrow> read_data (fst st) (nb_data n) (nb_off n) sizeof_ip4_header;
        let header_length = header_length_of (ih_version__header_length (ip4_of xs));
        (s, ip4_nb) \<leftarrow> fnet_netbuf_copy A dr (fst st) nb 0 (header_length + 8) False;
        (s, nb) \<leftarrow> fnet_netbuf_trim A s nb (int header_length);
        xs \<leftarrow> read_data s (nb_data n) (nb_off n) sizeof_ip4_header;
        let hdr = ip4_of xs;
        let addrs = fnet_ip4_set_socket_addr netif hdr;
        st \<leftarrow> up_raw_input up (s, snd st) netif addrs nb ip4_nb;
        xs \<leftarrow> read_data (fst st) (nb_data n) (nb_off n) sizeof_ip4_header;
        case up_prot_find up (ih_protocol (ip4_of xs)) of
          Some prot_input \<Rightarrow> prot_input st netif addrs nb ip4_nb
        | None \<Rightarrow>
            do {
              s \<leftarrow> fnet_netbuf_free_chain A (fst st) nb;
              up_icmp_unreachable up (s, snd st) netif ip4_nb
            }
      })"

text \<open>One round of the loop of \<^verbatim>\<open>_fnet_ip4_input_low\<close>, for a packet read from the queue.\<close>

definition ip4_input_one ::
    "'p allocator \<Rightarrow> ('p, 'z) drain \<Rightarrow> u8 \<Rightarrow> ('p, 'z) ip4_upper \<Rightarrow> ('p, 'z) ip4_net \<Rightarrow> netif \<Rightarrow> netbuf list \<Rightarrow> ('p, 'z) ip4_net option" where
  "ip4_input_one A dr pad up st netif nb =
     do {
       (s, nb, ok) \<leftarrow> fnet_netbuf_pullup A (fst st) nb sizeof_ip4_header;
       if \<not> ok then do { s \<leftarrow> fnet_netbuf_free_chain A s nb; Some (s, snd st) }
       else do {
         let n = hd nb;
         xs \<leftarrow> read_data s (nb_data n) (nb_off n) sizeof_ip4_header;
         let hdr = ip4_of xs;
         let total_length = unat (fnet_htons (ih_total_length hdr));
         accepted \<leftarrow> ip4_accepts pad s netif nb hdr;
         if \<not> accepted then do { s \<leftarrow> fnet_netbuf_free_chain A s nb; Some (s, snd st) }
         else do {
           (s, nb) \<leftarrow>
             (if nb_total_length n > total_length
              then fnet_netbuf_trim A s nb (int total_length - int (nb_total_length n))
              else Some (s, nb));
           if ih_flags_fragment_offset hdr AND NOT (fnet_htons FNET_IP4_DF) \<noteq> 0
           then do {
             (s, fls, nb) \<leftarrow> fnet_ip4_reassembly A s (ip_frag_lists (snd st)) nb;
             let st = (s, (snd st)\<lparr>ip_frag_lists := fls\<rparr>);
             if nb = [] then Some st else ip4_deliver A dr up st netif nb
           }
           else do {
             let m = hd nb;
             let nb =
               (if has_feature netif FNET_NETIF_FEATURE_HW_RX_PROTOCOL_CHECKSUM \<and> ih_protocol hdr \<in> {1, 17, 6}
                then m\<lparr>nb_flags := nb_flags m OR FNET_NETBUF_FLAG_HW_PROTOCOL_CHECKSUM\<rparr> # tl nb
                else nb);
             ip4_deliver A dr up (s, snd st) netif nb
           }
         }
       }
     }"

text \<open>The loop runs until the queue is empty; what lies above may append to it.\<close>

partial_function (option) fnet_ip4_input_low ::
    "'p allocator \<Rightarrow> ('p, 'z) drain \<Rightarrow> u8 \<Rightarrow> ('p, 'z) ip4_upper \<Rightarrow> ('p, 'z) ip4_net \<Rightarrow> ('p, 'z) ip4_net option" where
  "fnet_ip4_input_low A dr pad up st =
     do {
       (s, q, nb, netif) \<leftarrow> fnet_ip_queue_read A (fst st) (ip_in (snd st));
       let st = (s, (snd st)\<lparr>ip_in := q\<rparr>);
       if nb = [] then Some st
       else do {
         st \<leftarrow> ip4_input_one A dr pad up st (the netif) nb;
         fnet_ip4_input_low A dr pad up st
       }
     }"

fun drain_frags :: "'p allocator \<Rightarrow> ('p, 'z) nbs_scheme \<Rightarrow> frag_list list \<Rightarrow> ('p, 'z) nbs_scheme option" where
  "drain_frags A s [] = Some s"
| "drain_frags A s (fl # fls) = do { s \<leftarrow> fnet_ip4_frag_list_free A s fl; drain_frags A s fls }"

fun drain_queue :: "'p allocator \<Rightarrow> ('p, 'z) nbs_scheme \<Rightarrow> netbuf list list \<Rightarrow> ('p, 'z) nbs_scheme option" where
  "drain_queue A s [] = Some s"
| "drain_queue A s (c # q) = do { (s, _) \<leftarrow> fnet_netbuf_queue_del A s (c # q) (chain_addr c); drain_queue A s q }"

definition fnet_ip4_drain :: "'p allocator \<Rightarrow> ('p, 'z) ip4_net \<Rightarrow> ('p, 'z) ip4_net option" where
  "fnet_ip4_drain A st =
     do {
       s \<leftarrow> drain_frags A (fst st) (ip_frag_lists (snd st));
       s \<leftarrow> drain_queue A s (q_head (ip_in (snd st)));
       Some (s, (snd st)\<lparr>ip_frag_lists := [], ip_in := \<lparr>q_head = [], q_netifs = [], q_count = 0\<rparr>\<rparr>)
     }"

end
