(* ===== verification/Fnet_Ip4_Frag.thy ===== *)
theory Fnet_Ip4_Frag
  imports Fnet_Ip4
begin

text \<open>
  Reassembly: the memory and the lists it keeps, what a reassembled datagram consists of, and which
  orders of arrival lead to one.
\<close>

unbundle bit_operations_syntax

section \<open>Fragments in memory\<close>

text \<open>A net buffer without its first \<open>k\<close> bytes.\<close>

definition advance :: "nat \<Rightarrow> netbuf \<Rightarrow> netbuf" where
  "advance k n = n\<lparr>nb_off := nb_off n + k, nb_length := nb_length n - k, nb_total_length := nb_total_length n - k\<rparr>"

lemma advance_simps [simp]:
  "nb_addr (advance k n) = nb_addr n" "nb_data (advance k n) = nb_data n"
  "nb_off (advance k n) = nb_off n + k" "nb_length (advance k n) = nb_length n - k"
  "nb_total_length (advance k n) = nb_total_length n - k" "nb_flags (advance k n) = nb_flags n"
  by (simp_all add: advance_def)

lemma advance_0: "advance 0 n = n"
  by (cases n) (simp add: advance_def)

lemma nb_bytes_advance: "k \<le> nb_length n \<Longrightarrow> nb_bytes s (advance k n) = drop k (nb_bytes s n)"
  by (rule nb_bytes_shrink) simp_all

lemma in_buf_advance: "in_buf s n \<Longrightarrow> k \<le> nb_length n \<Longrightarrow> in_buf s (advance k n)"
  by (simp add: in_buf_def)

lemma trim_advance:
  assumes "k < nb_length n" "nb_total_length n = nb_length n" "nb_length n < 2147483648"
  shows "fnet_netbuf_trim A s [n] (int k) = Some (s, [advance k n])"
proof -
  have "i32 (int k) = int k" "i32 (int (nb_length n)) = int (nb_length n)"
    using assms(1,3) by (simp_all add: i32_id)
  then show ?thesis using assms(1,2) by (cases n) (auto simp: fnet_netbuf_trim_def Let_def advance_def)
qed

text \<open>
  \<open>C k b\<close>: the byte \<open>b\<close> was received at the position \<open>k\<close> of the datagram; positions have 16
  bits in the code.
\<close>

definition content_ok :: "(nat \<Rightarrow> u8 \<Rightarrow> bool) \<Rightarrow> nat \<Rightarrow> u8 list \<Rightarrow> bool" where
  "content_ok C offset xs = (\<forall>k<length xs. C (w16 (offset + k)) (xs ! k))"

lemma content_ok_drop: "content_ok C offset xs \<Longrightarrow> content_ok C (w16 (offset + k)) (drop k xs)"
  by (auto simp: content_ok_def mod_simps less_diff_conv add.assoc)

lemma content_ok_append:
  "content_ok C offset xs \<Longrightarrow> content_ok C (w16 (offset + length xs)) ys \<Longrightarrow> content_ok C offset (xs @ ys)"
  unfolding content_ok_def
proof (intro allI impI)
  fix k
  assume x: "\<forall>k<length xs. C (w16 (offset + k)) (xs ! k)"
    and y: "\<forall>k<length ys. C (w16 (w16 (offset + length xs) + k)) (ys ! k)" and k: "k < length (xs @ ys)"
  show "C (w16 (offset + k)) ((xs @ ys) ! k)"
  proof (cases "k < length xs")
    case True
    then show ?thesis using x by (simp add: nth_append)
  next
    case False
    then have "k - length xs < length ys" using k by simp
    from y [rule_format, OF this] have "C (w16 (offset + length xs + (k - length xs))) (ys ! (k - length xs))"
      by (simp add: mod_simps)
    then show ?thesis using False by (simp add: nth_append)
  qed
qed

text \<open>
  A fragment in a list: one net buffer, with the header in front of it in the same data buffer. With
  \<open>P\<close>, no fragment reaches behind the largest datagram, and one at position 0 lies right behind
  its header.
\<close>

definition frag_ok :: "bool \<Rightarrow> (nat \<Rightarrow> u8 \<Rightarrow> bool) \<Rightarrow> ('p, 'z) nbs_scheme \<Rightarrow> frag \<Rightarrow> bool" where
  "frag_ok P C s f =
     (\<exists>n. fr_nb f = [n] \<and> nb_data n = fr_data f \<and> nb_length n = fr_total_length f
        \<and> nb_total_length n = fr_total_length f \<and> 0 < fr_total_length f \<and> fr_total_length f < 65536
        \<and> fr_offset f < 65536 \<and> 20 \<le> header_length_of (fr_version__header_length f)
        \<and> fr_pos f + header_length_of (fr_version__header_length f) \<le> nb_off n
        \<and> content_ok C (fr_offset f) (nb_bytes s n)
        \<and> (P \<longrightarrow> fr_offset f + fr_total_length f \<le> 65535
             \<and> (fr_offset f = 0 \<longrightarrow> nb_off n = fr_pos f + header_length_of (fr_version__header_length f))))"

lemma frag_ok_same:
  assumes "frag_ok P C s f" "bytes_at s' (fr_data f) = bytes_at s (fr_data f)"
  shows "frag_ok P C s' f"
  using assms by (auto simp: frag_ok_def nb_bytes_def)

lemma frag_ok_mono: "frag_ok P C s f \<Longrightarrow> (\<And>k b. C k b \<Longrightarrow> C' k b) \<Longrightarrow> frag_ok P C' s f"
  by (fastforce simp: frag_ok_def content_ok_def)

text \<open>A fragment without its first \<open>k\<close> bytes, as both trimming steps of the code leave it.\<close>

definition frag_advance :: "nat \<Rightarrow> frag \<Rightarrow> frag" where
  "frag_advance k f =
     f\<lparr>fr_total_length := fr_total_length f - k, fr_offset := w16 (fr_offset f + k),
       fr_nb := map (advance k) (fr_nb f)\<rparr>"

lemma frag_advance_simps [simp]:
  "fr_total_length (frag_advance k f) = fr_total_length f - k" "fr_data (frag_advance k f) = fr_data f"
  "fr_id (frag_advance k f) = fr_id f"
  "fr_offset (frag_advance k f) = w16 (fr_offset f + k)" "fr_nb (frag_advance k f) = map (advance k) (fr_nb f)"
  by (simp_all add: frag_advance_def)

lemma frag_trim:
  assumes "frag_ok P C s f" "in_buf s (hd (fr_nb f))" "k < fr_total_length f"
  shows "fnet_netbuf_trim A s (fr_nb f) (int k) = Some (s, map (advance k) (fr_nb f))"
    "frag_ok P C s (frag_advance k f)" "w16 (fr_total_length f + 65536 - w16 k) = fr_total_length f - k"
proof -
  obtain n where n: "fr_nb f = [n]" "nb_data n = fr_data f" "nb_length n = fr_total_length f"
    "nb_total_length n = fr_total_length f" "fr_total_length f < 65536"
    "20 \<le> header_length_of (fr_version__header_length f)"
    "fr_pos f + header_length_of (fr_version__header_length f) \<le> nb_off n"
    "content_ok C (fr_offset f) (nb_bytes s n)"
    and p: "P \<Longrightarrow> fr_offset f + fr_total_length f \<le> 65535"
      "P \<Longrightarrow> fr_offset f = 0 \<Longrightarrow> nb_off n = fr_pos f + header_length_of (fr_version__header_length f)"
    using assms(1) by (auto simp: frag_ok_def)
  have w: "w16 (fr_offset f + k) = fr_offset f + k" if P using p(1) [OF that] assms(3) by simp
  show "fnet_netbuf_trim A s (fr_nb f) (int k) = Some (s, map (advance k) (fr_nb f))"
    using n assms(3) by (simp add: trim_advance)
  show "frag_ok P C s (frag_advance k f)"
    using n assms(3) p w by (auto simp: frag_ok_def frag_advance_def nb_bytes_advance intro: content_ok_drop)
  have "k < 65536" using assms(3) n(5) by linarith
  then show "w16 (fr_total_length f + 65536 - w16 k) = fr_total_length f - k"
    using assms(3) n(5) by (simp add: mod_if)
qed

section \<open>Inserting a fragment, without the memory\<close>

lemma frag_find_cases:
  "(\<exists>j<length fs. frag_find fs i offset = i + j \<and> offset < fr_offset (fs ! j) \<and> (\<forall>m<j. fr_offset (fs ! m) \<le> offset))
     \<or> (frag_find fs i offset = 0 \<and> (\<forall>f\<in>set fs. fr_offset f \<le> offset))"
proof (induction fs arbitrary: i)
  case Nil
  then show ?case by simp
next
  case (Cons f fs)
  show ?case
  proof (cases "fr_offset f > offset")
    case True
    then show ?thesis by (intro disjI1 exI [of _ 0]) simp
  next
    case False
    consider j where "j < length fs" "frag_find fs (i + 1) offset = i + 1 + j" "offset < fr_offset (fs ! j)"
        "\<forall>m<j. fr_offset (fs ! m) \<le> offset"
      | "frag_find fs (i + 1) offset = 0" "\<forall>f\<in>set fs. fr_offset f \<le> offset"
      using Cons.IH [of "i + 1"] by (elim disjE exE conjE) (assumption | (rule that; assumption))+
    then show ?thesis
    proof cases
      case 1
      then show ?thesis using False
        by (intro disjI1 exI [of _ "Suc j"]) (auto simp: nth_Cons less_Suc_eq_0_disj split: nat.splits)
    next
      case 2
      then show ?thesis using False by simp
    qed
  qed
qed

lemma frag_find_pos:
  assumes "frag_find fs 0 offset = p" "0 < p"
  shows "p < length fs" "offset < fr_offset (fs ! p)" "\<And>m. m < p \<Longrightarrow> fr_offset (fs ! m) \<le> offset"
  using frag_find_cases [of fs 0 offset] assms by auto

definition gap :: "frag list \<Rightarrow> nat \<Rightarrow> frag \<Rightarrow> nat" where
  "gap frags p cur =
     (if p = 0 then 0
      else nat ((int (fr_offset (frags ! (p - 1))) + int (fr_total_length (frags ! (p - 1))) - int (fr_offset cur))
        mod 4294967296))"

definition clip :: "nat \<Rightarrow> frag list \<Rightarrow> frag list" where
  "clip e fs =
     (case fs of [] \<Rightarrow> []
      | f # r \<Rightarrow> if e > fr_offset f then frag_advance (e - fr_offset f) f # r else f # r)"

text \<open>
  What becomes of a new fragment. \<open>Uses_freed\<close>: it covers the fragment behind it, whose header the
  code uses after freeing it.
\<close>

datatype put_result = Dropped | Uses_freed | Inserted "frag list"

definition put_frag :: "frag list \<Rightarrow> frag \<Rightarrow> put_result" where
  "put_frag frags cur =
     (let p = frag_find frags 0 (fr_offset cur);
          prev = (if p = 0 then length frags else p) - 1;
          i = gap frags p cur;
          cur' = (if i \<noteq> 0 then frag_advance i cur else cur);
          after = (if p = 0 then [] else clip (fr_offset cur' + fr_total_length cur') (drop p frags));
          before = (if p = 0 then frags else take p frags)
      in if i \<noteq> 0 \<and> i \<ge> fr_total_length cur then Dropped
         else if p \<noteq> 0 \<and> fr_offset cur' + fr_total_length cur' \<ge> fr_offset (frags ! p) + fr_total_length (frags ! p)
         then Uses_freed
         else Inserted (fnet_ip4_frag_add (before @ after) cur' (Some prev)))"

text \<open>No fragment that is already there lies inside the new one.\<close>

definition uncovered :: "frag list \<Rightarrow> frag \<Rightarrow> bool" where
  "uncovered frags cur =
     (\<forall>f\<in>set frags. \<not> (fr_offset cur < fr_offset f
        \<and> fr_offset f + fr_total_length f \<le> fr_offset cur + fr_total_length cur))"

lemma shift_le:
  assumes "\<not> (i \<noteq> 0 \<and> i \<ge> fr_total_length cur)" "c = (if i \<noteq> 0 then frag_advance i cur else cur)"
  shows "fr_offset c + fr_total_length c \<le> fr_offset cur + fr_total_length cur"
  using assms mod_less_eq_dividend [of "fr_offset cur + i" 65536] by auto

lemma uncovered_put:
  assumes "uncovered frags cur"
  shows "put_frag frags cur \<noteq> Uses_freed"
proof -
  define p where "p = frag_find frags 0 (fr_offset cur)"
  define i where "i = gap frags p cur"
  define c where "c = (if i \<noteq> 0 then frag_advance i cur else cur)"
  have "\<not> (p \<noteq> 0 \<and> fr_offset c + fr_total_length c \<ge> fr_offset (frags ! p) + fr_total_length (frags ! p))"
    if n: "\<not> (i \<noteq> 0 \<and> i \<ge> fr_total_length cur)"
  proof
    assume a: "p \<noteq> 0 \<and> fr_offset c + fr_total_length c \<ge> fr_offset (frags ! p) + fr_total_length (frags ! p)"
    then have p: "frags ! p \<in> set frags" "fr_offset cur < fr_offset (frags ! p)"
      using frag_find_pos [OF p_def [symmetric]] by auto
    then show False using assms shift_le [OF n c_def] a by (auto simp: uncovered_def)
  qed
  then show ?thesis
    unfolding put_frag_def Let_def p_def [symmetric] i_def [symmetric] c_def [symmetric]
    by (cases "i \<noteq> 0 \<and> i \<ge> fr_total_length cur") auto
qed

lemma trim_existing_clip:
  assumes "\<forall>f\<in>set fs. frag_ok P C s f \<and> in_buf s (hd (fr_nb f))"
    and "fs \<noteq> [] \<Longrightarrow> e < fr_offset (hd fs) + fr_total_length (hd fs)"
  shows "trim_existing A s e fs = Some (s, clip e fs)"
proof (cases fs)
  case (Cons f r)
  have f: "frag_ok P C s f" "in_buf s (hd (fr_nb f))" using assms(1) Cons by auto
  show ?thesis
  proof (cases "e > fr_offset f")
    case True
    then have k: "e - fr_offset f < fr_total_length f" using assms(2) Cons by simp
    have "f\<lparr>fr_total_length := w16 (fr_total_length f + 65536 - w16 (e - fr_offset f)),
        fr_offset := w16 (fr_offset f + (e - fr_offset f)), fr_nb := map (advance (e - fr_offset f)) (fr_nb f)\<rparr>
      = frag_advance (e - fr_offset f) f"
      using frag_trim(3) [OF f k] by (simp add: frag_advance_def)
    then show ?thesis
      using True k frag_trim(1) [OF f k] Cons by (simp add: clip_def Let_def)
  next
    case False
    then show ?thesis using Cons by (simp add: clip_def)
  qed
qed (simp add: clip_def)

lemma trim_existing_freed:
  assumes "fs \<noteq> []" "fr_offset (hd fs) + fr_total_length (hd fs) \<le> e" "0 < fr_total_length (hd fs)"
    and "do { s' \<leftarrow> fnet_netbuf_free_chain A s (fr_nb (hd fs)); bufs s' (fr_data (hd fs)) } = None"
  shows "trim_existing A s e fs = None"
  using assms by (cases fs) (auto simp: Let_def bind_eq_None_conv)

text \<open>The code's insertion is \<open>put_frag\<close>, where freeing a fragment frees its header.\<close>

lemma ip4_insert_put:
  assumes frags: "\<forall>f\<in>set (fl_frags (fls ! k)). frag_ok P C s f \<and> in_buf s (hd (fr_nb f))"
    and cur: "frag_ok P C s cur" "in_buf s (hd (fr_nb cur))"
    and freed: "\<And>f. f \<in> set (fl_frags (fls ! k)) \<Longrightarrow>
        do { s' \<leftarrow> fnet_netbuf_free_chain A s (fr_nb f); bufs s' (fr_data f) } = None"
  shows "ip4_insert A s fls k cur =
     (case put_frag (fl_frags (fls ! k)) cur of
        Dropped \<Rightarrow> drop_frag A s fls (fr_nb cur)
      | Uses_freed \<Rightarrow> None
      | Inserted fs \<Rightarrow> ip4_finish A s (fls[k := (fls ! k)\<lparr>fl_frags := fs\<rparr>]) k)"
proof -
  let ?fs = "fl_frags (fls ! k)"
  define p where "p = frag_find ?fs 0 (fr_offset cur)"
  define i where "i = gap ?fs p cur"
  define c where "c = (if i \<noteq> 0 then frag_advance i cur else cur)"
  define e where "e = fr_offset c + fr_total_length c"
  have i_alt: "(if p = 0 then 0
      else nat ((int (fr_offset (?fs ! ((if p = 0 then length ?fs else p) - 1)))
        + int (fr_total_length (?fs ! ((if p = 0 then length ?fs else p) - 1))) - int (fr_offset cur)) mod 4294967296)) = i"
    by (simp add: i_def gap_def)
  show ?thesis
  proof (cases "i \<noteq> 0 \<and> i \<ge> fr_total_length cur")
    case True
    then have "put_frag ?fs cur = Dropped" by (simp add: put_frag_def Let_def p_def [symmetric] i_def [symmetric])
    moreover have "ip4_insert A s fls k cur = drop_frag A s fls (fr_nb cur)"
      unfolding ip4_insert_def Let_def p_def [symmetric] i_alt using True by simp
    ultimately show ?thesis by simp
  next
    case False
    obtain n where n: "fr_nb cur = [n]" using cur(1) by (auto simp: frag_ok_def)
    have first: "(if i \<noteq> 0
        then do {
          (s, nb) \<leftarrow> fnet_netbuf_trim A s (fr_nb cur) (int i);
          if chain_addr nb = chain_addr (fr_nb cur)
          then Some (s, cur\<lparr>fr_total_length := w16 (fr_total_length cur + 65536 - w16 i),
                 fr_offset := w16 (fr_offset cur + i), fr_nb := nb\<rparr>)
          else None
        }
        else Some (s, cur)) = Some (s, c)"
    proof (cases "i = 0")
      case True
      then show ?thesis by (simp add: c_def)
    next
      case pos: False
      then have "i < fr_total_length cur" using False by simp
      then show ?thesis
        using frag_trim(1,3) [OF cur] pos n by (simp add: c_def frag_advance_def chain_addr_def)
    qed
    have code: "ip4_insert A s fls k cur =
       do {
         (s, after) \<leftarrow> (if p = 0 then Some (s, []) else trim_existing A s e (drop p ?fs));
         ip4_finish A s (fls[k := (fls ! k)\<lparr>fl_frags :=
           fnet_ip4_frag_add ((if p = 0 then ?fs else take p ?fs) @ after) c
             (Some ((if p = 0 then length ?fs else p) - 1))\<rparr>]) k
       }"
      unfolding ip4_insert_def Let_def p_def [symmetric] i_alt using False
      by (simp only: if_False first bind.bind_lunit case_prod_conv e_def)
    have model: "put_frag ?fs cur =
       (if p \<noteq> 0 \<and> e \<ge> fr_offset (?fs ! p) + fr_total_length (?fs ! p) then Uses_freed
        else Inserted (fnet_ip4_frag_add ((if p = 0 then ?fs else take p ?fs)
          @ (if p = 0 then [] else clip e (drop p ?fs))) c (Some ((if p = 0 then length ?fs else p) - 1))))"
      using False
      by (simp only: put_frag_def Let_def p_def [symmetric] i_def [symmetric] c_def [symmetric] e_def [symmetric] if_False)
    show ?thesis
    proof (cases "p = 0")
      case True
      then show ?thesis unfolding code model by simp
    next
      case p0: False
      then have p: "p < length ?fs" "drop p ?fs \<noteq> []" "hd (drop p ?fs) = ?fs ! p" "?fs ! p \<in> set ?fs"
        using frag_find_pos [OF p_def [symmetric]] by (auto simp: hd_drop_conv_nth)
      show ?thesis
      proof (cases "e \<ge> fr_offset (?fs ! p) + fr_total_length (?fs ! p)")
        case True
        have "0 < fr_total_length (?fs ! p)" using frags p(4) by (auto simp: frag_ok_def)
        then have "trim_existing A s e (drop p ?fs) = None"
          using p True freed [OF p(4)] by (intro trim_existing_freed) simp_all
        then show ?thesis unfolding code model using p0 True by simp
      next
        case e: False
        have "trim_existing A s e (drop p ?fs) = Some (s, clip e (drop p ?fs))"
          using frags e p by (intro trim_existing_clip [where P = P and C = C]) (auto dest: in_set_dropD)
        then show ?thesis unfolding code model using p0 e by simp
      qed
    qed
  qed
qed

text \<open>What insertion keeps: the net buffers, and that each fragment is sound.\<close>

definition frag_id :: "frag \<Rightarrow> nat \<times> nat \<times> u16" where
  "frag_id f = (nb_addr (hd (fr_nb f)), fr_data f, fr_id f)"

definition frag_good :: "bool \<Rightarrow> (nat \<Rightarrow> u8 \<Rightarrow> bool) \<Rightarrow> ('p, 'z) nbs_scheme \<Rightarrow> frag \<Rightarrow> bool" where
  "frag_good P C s f = (frag_ok P C s f \<and> in_buf s (hd (fr_nb f)))"

lemma frag_good_nb:
  assumes "frag_good P C s f"
  obtains n where "fr_nb f = [n]" "nb_data n = fr_data f" "frag_id f = (nb_addr n, nb_data n, fr_id f)" "in_buf s n"
  using assms by (auto simp: frag_good_def frag_ok_def frag_id_def)

lemma frag_good_advance:
  assumes "frag_good P C s f" "k < fr_total_length f"
  shows "frag_good P C s (frag_advance k f)" "frag_id (frag_advance k f) = frag_id f"
proof -
  obtain n where n: "fr_nb f = [n]" "nb_length n = fr_total_length f"
    using assms(1) by (auto simp: frag_good_def frag_ok_def)
  then show "frag_good P C s (frag_advance k f)" "frag_id (frag_advance k f) = frag_id f"
    using assms frag_trim(2) [of P C s f k] in_buf_advance [of s n k]
    by (simp_all add: frag_good_def frag_id_def)
qed

lemma clip_good:
  assumes "\<forall>f\<in>set fs. frag_good P C s f" "fs \<noteq> [] \<Longrightarrow> e < fr_offset (hd fs) + fr_total_length (hd fs)"
  shows "\<forall>f\<in>set (clip e fs). frag_good P C s f" "map frag_id (clip e fs) = map frag_id fs"
proof -
  have "fs \<noteq> [] \<Longrightarrow> e > fr_offset (hd fs) \<Longrightarrow> e - fr_offset (hd fs) < fr_total_length (hd fs)"
    using assms(2) by auto
  then show "\<forall>f\<in>set (clip e fs). frag_good P C s f" "map frag_id (clip e fs) = map frag_id fs"
    using assms(1) frag_good_advance [of P C s "hd fs" "e - fr_offset (hd fs)"]
    by (auto simp: clip_def split: list.splits)
qed

lemma frag_add_set:
  "i < length head \<Longrightarrow> set (fnet_ip4_frag_add head f (Some i)) = insert f (set head)"
  "mset (map g (fnet_ip4_frag_add head f (Some i))) = add_mset (g f) (mset (map g head))"
proof -
  have "set (take (Suc i) head) \<union> set (drop (Suc i) head) = set head"
    by (metis append_take_drop_id set_append)
  then show "set (fnet_ip4_frag_add head f (Some i)) = insert f (set head)"
    by (auto simp: fnet_ip4_frag_add_def)
  have "mset (map g (take (Suc i) head)) + mset (map g (drop (Suc i) head)) = mset (map g head)"
    by (metis append_take_drop_id map_append mset_append)
  then show "mset (map g (fnet_ip4_frag_add head f (Some i))) = add_mset (g f) (mset (map g head))"
    by (auto simp: fnet_ip4_frag_add_def add.commute)
qed

lemma put_good:
  assumes fs: "\<forall>f\<in>set fs. frag_good P C s f" and cur: "frag_good P C s cur" and ne: "fs \<noteq> []"
    and some: "put_frag fs cur = Inserted fs'"
  shows "\<forall>f\<in>set fs'. frag_good P C s f" "mset (map frag_id fs') = mset (map frag_id (cur # fs))" "fs' \<noteq> []"
proof -
  define p where "p = frag_find fs 0 (fr_offset cur)"
  define i where "i = gap fs p cur"
  define c where "c = (if i \<noteq> 0 then frag_advance i cur else cur)"
  define fs1 where "fs1 = (if p = 0 then fs else take p fs)
    @ (if p = 0 then [] else clip (fr_offset c + fr_total_length c) (drop p fs))"
  define prev where "prev = (if p = 0 then length fs else p) - 1"
  have "put_frag fs cur = (if i \<noteq> 0 \<and> i \<ge> fr_total_length cur then Dropped
      else if p \<noteq> 0 \<and> fr_offset c + fr_total_length c \<ge> fr_offset (fs ! p) + fr_total_length (fs ! p) then Uses_freed
      else Inserted (fnet_ip4_frag_add fs1 c (Some prev)))"
    by (simp only: put_frag_def Let_def p_def [symmetric] i_def [symmetric] c_def fs1_def prev_def)
  then have eq: "\<not> (i \<noteq> 0 \<and> i \<ge> fr_total_length cur)" "fs' = fnet_ip4_frag_add fs1 c (Some prev)"
      "p \<noteq> 0 \<Longrightarrow> fr_offset c + fr_total_length c < fr_offset (fs ! p) + fr_total_length (fs ! p)"
    using some by (simp_all split: if_splits)
  have c: "frag_good P C s c" "frag_id c = frag_id cur"
    using eq(1) frag_good_advance [OF cur, of i] cur by (auto simp: c_def)
  have fs1: "(\<forall>f\<in>set fs1. frag_good P C s f) \<and> map frag_id fs1 = map frag_id fs"
  proof (cases "p = 0")
    case False
    then have p: "p < length fs" using frag_find_pos [OF p_def [symmetric]] by auto
    then have "fr_offset c + fr_total_length c < fr_offset (hd (drop p fs)) + fr_total_length (hd (drop p fs))"
      using eq(3) False by (simp add: hd_drop_conv_nth)
    from clip_good [of "drop p fs" P C s, OF _ this] fs
    have "(\<forall>f\<in>set (clip (fr_offset c + fr_total_length c) (drop p fs)). frag_good P C s f)
        \<and> map frag_id (clip (fr_offset c + fr_total_length c) (drop p fs)) = map frag_id (drop p fs)"
      by (auto dest: in_set_dropD)
    moreover have "map frag_id (take p fs) @ map frag_id (drop p fs) = map frag_id fs"
      by (simp flip: map_append)
    ultimately show ?thesis using False fs by (auto simp: fs1_def dest: in_set_takeD)
  qed (use fs in \<open>simp add: fs1_def\<close>)
  then have "length fs1 = length fs" by (metis length_map)
  moreover have "prev < length fs"
    using ne frag_find_pos(1) [OF p_def [symmetric]] by (auto simp: prev_def)
  ultimately have "prev < length fs1" by simp
  have add: "set fs' = insert c (set fs1)" "mset (map frag_id fs') = add_mset (frag_id c) (mset (map frag_id fs1))"
    using frag_add_set(1) [OF \<open>prev < length fs1\<close>] frag_add_set(2) by (simp_all add: eq(2))
  show "\<forall>f\<in>set fs'. frag_good P C s f" using add(1) fs1 c(1) by auto
  show "mset (map frag_id fs') = mset (map frag_id (cur # fs))"
    using add(2) fs1 c(2) by simp
  show "fs' \<noteq> []" using add(1) by auto
qed

section \<open>The datagram put_frag together\<close>

definition frag_nbs :: "frag list \<Rightarrow> netbuf list" where
  "frag_nbs fs = concat (map fr_nb fs)"

lemma frag_nbs_simps [simp]:
  "frag_nbs [] = []" "frag_nbs (f # fs) = fr_nb f @ frag_nbs fs" "frag_nbs (fs @ gs) = frag_nbs fs @ frag_nbs gs"
  by (simp_all add: frag_nbs_def)

definition payload_length :: "frag list \<Rightarrow> nat" where
  "payload_length fs = sum_list (map fr_total_length fs)"

lemma fold_concat:
  assumes "\<forall>f\<in>set fs. \<exists>m. fr_nb f = [m] \<and> nb_total_length m = fr_total_length f" "nb_total_length n < 4294967296"
  shows "\<exists>fl. fold (\<lambda>g nb. fnet_netbuf_concat nb (fr_nb g)) fs (n # r)
    = n\<lparr>nb_flags := fl, nb_total_length := w32 (nb_total_length n + payload_length fs)\<rparr> # r @ frag_nbs fs"
  using assms
proof (induction fs arbitrary: n r)
  case Nil
  have "n\<lparr>nb_flags := nb_flags n, nb_total_length := nb_total_length n\<rparr> = n" by simp
  then show ?case using Nil.prems(2) by (intro exI [of _ "nb_flags n"]) (simp add: payload_length_def)
next
  case (Cons f fs)
  then obtain m where m: "fr_nb f = [m]" "nb_total_length m = fr_total_length f" by auto
  let ?n = "n\<lparr>nb_flags := nb_flags n OR nb_flags m, nb_total_length := w32 (nb_total_length n + nb_total_length m)\<rparr>"
  obtain fl where "fold (\<lambda>g nb. fnet_netbuf_concat nb (fr_nb g)) fs (?n # r @ [m])
    = ?n\<lparr>nb_flags := fl, nb_total_length := w32 (nb_total_length ?n + payload_length fs)\<rparr> # (r @ [m]) @ frag_nbs fs"
    using Cons.IH [of ?n "r @ [m]"] Cons.prems by auto
  then show ?case
    using m by (intro exI [of _ fl]) (simp add: fnet_netbuf_concat_def payload_length_def mod_simps add.assoc)
qed

lemma length_ip4_bytes [simp]: "length (ip4_bytes h) = 20"
  by (simp add: ip4_bytes_def)

lemma nb_bytes_behind_header:
  assumes "bytes_at s' d = take p b @ xs @ drop (p + length xs) b" "p + length xs \<le> off" "p + length xs \<le> length b"
  shows "drop off (bytes_at s' d) = drop off b"
proof -
  obtain j where j: "off = p + length xs + j" using assms(2) le_Suc_ex by blast
  then show ?thesis using assms(1,3) by (simp add: add.commute)
qed

lemma take_split: "take (h + l) xs = take h xs @ take l (drop h xs)"
  by (simp add: take_add)

text \<open>
  The bytes of the pointer to the net buffers of a fragment, which lie where the time to live, the protocol
  and the checksum of its header were (''fnet_ip4_frag_header_t'' is laid over the header).
\<close>

definition ptr_bytes :: "nat \<Rightarrow> u8 list" where
  "ptr_bytes a = store32 (of_nat a)"

context block_allocator
begin

text \<open>The invariant of the net buffers depends on addresses, data buffers and ranges only.\<close>

lemma nb_inv_ids:
  assumes "nb_inv owns X s L" "mset (map (\<lambda>n. (nb_addr n, nb_data n)) L') = mset (map (\<lambda>n. (nb_addr n, nb_data n)) L)"
    and "\<forall>n\<in>set L'. in_buf s n"
  shows "nb_inv owns X s L'"
proof -
  have a: "mset (map nb_addr L') = mset (map nb_addr L)"
    using arg_cong [OF assms(2), of "image_mset fst"] by (simp add: multiset.map_comp comp_def)
  have d: "mset (map nb_data L') = mset (map nb_data L)"
    using arg_cong [OF assms(2), of "image_mset snd"] by (simp add: multiset.map_comp comp_def)
  have "set (map nb_addr L') = set (map nb_addr L)" by (rule mset_eq_setD [OF a])
  moreover have "distinct (map nb_addr L') = distinct (map nb_addr L)" by (rule mset_eq_imp_distinct_iff [OF a])
  ultimately show ?thesis using assms(1,3) d by (simp add: nb_inv_def)
qed

lemma reconstruct_ok:
  assumes inv: "nb_inv owns (insert (fl_addr fl) X) s (frag_nbs (fl_frags fl) @ L)" and a: "fl_addr fl \<notin> X"
    and frags: "fl_frags fl = f # fs" "\<forall>g\<in>set (fl_frags fl). frag_ok P C s g"
    and own: "fr_data f \<notin> nb_data ` set (frag_nbs fs @ L)"
  shows "\<exists>s' n' hdr. ip4_reconstruct A s fl = Some (s', n' # frag_nbs fs)
     \<and> nb_inv owns X s' ((n' # frag_nbs fs) @ L) \<and> same_bytes s s' (frag_nbs fs @ L)
     \<and> nbs.more s' = nbs.more s
     \<and> chain_bytes s' (n' # frag_nbs fs) = hdr @ chain_bytes s (frag_nbs (f # fs))
     \<and> length hdr = header_length_of (fr_version__header_length f)
     \<and> (chain_length (frag_nbs (f # fs)) + 60 < 4294967296 \<longrightarrow> total_ok (n' # frag_nbs fs)) \<and> nb_data n' = fr_data f
     \<and> (chain_length (frag_nbs (f # fs)) + 60 < 4294967296 \<and> nb_off (hd (fr_nb f)) = fr_pos f + length hdr
        \<longrightarrow> (hdr = ip4_bytes \<lparr>ih_version__header_length = fr_version__header_length f, ih_tos = fr_mf f AND NOT 1,
              ih_total_length = fnet_htons (of_nat (length hdr + chain_length (frag_nbs (f # fs)))), ih_id = fr_id f,
              ih_flags_fragment_offset = of_nat (fr_offset f), ih_ttl = ptr_bytes (chain_addr (fr_nb f)) ! 0,
              ih_protocol = fl_protocol fl, ih_checksum = load16l (drop 2 (ptr_bytes (chain_addr (fr_nb f)))),
              ih_source_addr = fl_source_addr fl, ih_desination_addr = fl_desination_addr fl\<rparr>
           @ take (length hdr - 20) (drop (fr_pos f + 20) (bytes_at s (fr_data f)))))"
proof -
  define hl where "hl = header_length_of (fr_version__header_length f)"
  obtain n where n: "fr_nb f = [n]" "nb_data n = fr_data f" "nb_length n = fr_total_length f"
    "nb_total_length n = fr_total_length f" "fr_total_length f < 65536" "20 \<le> hl" "fr_pos f + hl \<le> nb_off n"
    using frags by (auto simp: frag_ok_def hl_def)
  have hl: "hl \<le> 60"
  proof -
    have "unat (fr_version__header_length f AND 0x0F) \<le> unat (0x0F :: u8)"
      using word_and_le1 [of "fr_version__header_length f" "0x0F"] by (simp only: word_le_nat_alt)
    then show ?thesis by (simp add: hl_def header_length_of_def)
  qed
  have each: "\<forall>g\<in>set fs. \<exists>m. fr_nb g = [m] \<and> nb_total_length m = fr_total_length g"
    using frags by (auto simp: frag_ok_def)
  have pl: "payload_length fs = chain_length (frag_nbs fs)"
    using frags(2) unfolding frags(1) by (induction fs) (auto simp: payload_length_def frag_ok_def)
  have cl: "chain_length (frag_nbs (f # fs)) = nb_length n + chain_length (frag_nbs fs)" using n(1) by simp
  obtain flg where fold: "fold (\<lambda>g nb. fnet_netbuf_concat nb (fr_nb g)) fs (fr_nb f)
      = n\<lparr>nb_flags := flg, nb_total_length := w32 (nb_total_length n + payload_length fs)\<rparr> # frag_nbs fs"
    using fold_concat [OF each, of n "[]"] n by auto
  define T where "T = w32 (w32 (nb_total_length n + payload_length fs) + hl)"
  have T': "hl + chain_length (frag_nbs (f # fs)) = T" if "chain_length (frag_nbs (f # fs)) + 60 < 4294967296"
    using n(3,4) pl that cl hl by (simp add: T_def)
  define n' where "n' = n\<lparr>nb_flags := flg, nb_total_length := T, nb_length := nb_length n + hl, nb_off := nb_off n - hl\<rparr>"
  define p where "p = ptr_bytes (chain_addr (fr_nb f))"
  define h where "h = \<lparr>ih_version__header_length = fr_version__header_length f, ih_tos = fr_mf f AND NOT 1,
              ih_total_length = fnet_htons (of_nat T), ih_id = fr_id f,
              ih_flags_fragment_offset = of_nat (fr_offset f), ih_ttl = p ! 0,
              ih_protocol = fl_protocol fl, ih_checksum = load16l (drop 2 p),
              ih_source_addr = fl_source_addr fl, ih_desination_addr = fl_desination_addr fl\<rparr>"
  let ?B = "bytes_at s (fr_data f)"
  have inb: "nb_off n + nb_length n \<le> length ?B"
    using nb_inv_in_buf [OF inv, of n] frags(1) n by (simp add: in_buf_def)
  have i0: "nb_inv owns (insert (fl_addr fl) X) s (n # frag_nbs fs @ L)" using inv frags(1) n(1) by simp
  obtain s1 where s1: "write_data s (fr_data f) (fr_pos f) (ip4_bytes h) = Some s1"
      "nb_inv owns (insert (fl_addr fl) X) s1 (n # frag_nbs fs @ L)" "same_bytes s s1 (frag_nbs fs @ L)"
      "bytes_at s1 (fr_data f) = take (fr_pos f) ?B @ ip4_bytes h @ drop (fr_pos f + length (ip4_bytes h)) ?B"
      "nbs.more s1 = nbs.more s"
    using write_own_ok [OF i0, of "fr_pos f" "ip4_bytes h"] own n inb by auto
  obtain s2 where s2: "fnet_free_netbuf A s1 (fl_addr fl) = Some s2" "nbs.more s2 = nbs.more s1"
      "nb_inv owns X s2 (n # frag_nbs fs @ L)" "same_bytes s1 s2 (n # frag_nbs fs @ L)"
    by (rule free_fresh_ok [OF s1(2) a])
  have B2: "bytes_at s2 (fr_data f) = take (fr_pos f) ?B @ ip4_bytes h @ drop (fr_pos f + length (ip4_bytes h)) ?B"
    using s2(4) s1(4) n(2) by (simp add: same_bytes_def)
  have len2: "length (bytes_at s2 (fr_data f)) = length ?B" using B2 n(6,7) inb by simp
  have same: "same_bytes s s2 (frag_nbs fs @ L)"
    by (rule same_bytes_trans [OF s1(3) same_bytes_mono [OF s2(4)]]) auto
  define hdr where "hdr = take hl (drop (nb_off n - hl) (bytes_at s2 (fr_data f)))"
  have rec: "ip4_reconstruct A s fl = Some (s2, n' # frag_nbs fs)"
    using n s1(1) s2(1) hl
    by (simp add: ip4_reconstruct_def frags(1) fold [unfolded n(1)] Let_def hl_def [symmetric] n'_def chain_addr_def h_def p_def ptr_bytes_def n(1)
        T_def)
  have "in_buf s2 n'" using inb len2 n by (simp add: in_buf_def n'_def)
  then have inv2: "nb_inv owns X s2 ((n' # frag_nbs fs) @ L)"
    using nb_inv_view [OF s2(3), of n'] by (simp add: n'_def)
  have "nb_bytes s2 n' = take (hl + nb_length n) (drop (nb_off n - hl) (bytes_at s2 (fr_data f)))"
    using n by (simp add: nb_bytes_def n'_def add.commute)
  also have "\<dots> = hdr @ take (nb_length n) (drop (nb_off n) (bytes_at s2 (fr_data f)))"
    using n(7) by (simp add: take_split hdr_def)
  also have "drop (nb_off n) (bytes_at s2 (fr_data f)) = drop (nb_off n) ?B"
    by (rule nb_bytes_behind_header [OF B2]) (use n(6,7) inb in simp_all)
  finally have b1: "nb_bytes s2 n' = hdr @ nb_bytes s n" using n(2) by (simp add: nb_bytes_def)
  have b2: "chain_bytes s2 (frag_nbs fs) = chain_bytes s (frag_nbs fs)"
    by (rule same_bytes_chain [OF same]) auto
  have hdr: "length hdr = hl" using inb len2 n(7) by (simp add: hdr_def)
  have tot: "total_ok (n' # frag_nbs fs)" if "chain_length (frag_nbs (f # fs)) + 60 < 4294967296"
    using T' [OF that] cl by (simp add: total_ok_def n'_def)
  have front: "hdr = ip4_bytes h @ take (hl - 20) (drop (fr_pos f + 20) ?B)" if "nb_off n = fr_pos f + hl"
    using that n(6) inb by (simp add: hdr_def B2)
  show ?thesis
  proof (rule exI [of _ s2], rule exI [of _ n'], rule exI [of _ hdr], intro conjI impI)
    show "nbs.more s2 = nbs.more s" using s1(5) s2(2) by simp
    show "chain_bytes s2 (n' # frag_nbs fs) = hdr @ chain_bytes s (frag_nbs (f # fs))"
      using b1 b2 n(1) by simp
    show "nb_data n' = fr_data f" by (simp add: n'_def n(2))
    show "length hdr = header_length_of (fr_version__header_length f)" by (simp add: hdr hl_def)
    assume t: "chain_length (frag_nbs (f # fs)) + 60 < 4294967296 \<and> nb_off (hd (fr_nb f)) = fr_pos f + length hdr"
    then have "hdr = ip4_bytes h @ take (hl - 20) (drop (fr_pos f + 20) ?B)"
      using front hdr n(1) by simp
    then show "hdr = ip4_bytes \<lparr>ih_version__header_length = fr_version__header_length f, ih_tos = fr_mf f AND NOT 1,
              ih_total_length = fnet_htons (of_nat (length hdr + chain_length (frag_nbs (f # fs)))), ih_id = fr_id f,
              ih_flags_fragment_offset = of_nat (fr_offset f), ih_ttl = ptr_bytes (chain_addr (fr_nb f)) ! 0,
              ih_protocol = fl_protocol fl, ih_checksum = load16l (drop 2 (ptr_bytes (chain_addr (fr_nb f)))),
              ih_source_addr = fl_source_addr fl, ih_desination_addr = fl_desination_addr fl\<rparr>
           @ take (length hdr - 20) (drop (fr_pos f + 20) (bytes_at s (fr_data f)))"
      unfolding hdr T' [OF conjunct1 [OF t]] h_def p_def .
  qed (fact rec inv2 same tot | simp only: tot)+
qed

end

section \<open>The invariant of the lists\<close>

type_synonym datagram_key = "u16 \<times> u8 \<times> u32 \<times> u32"

definition fl_key :: "frag_list \<Rightarrow> datagram_key" where
  "fl_key fl = (fl_id fl, fl_protocol fl, fl_source_addr fl, fl_desination_addr fl)"

definition hdr_key :: "ip4_header \<Rightarrow> datagram_key" where
  "hdr_key h = (ih_id h, ih_protocol h, ih_source_addr h, ih_desination_addr h)"

lemma same_datagram_key: "same_datagram h fl \<longleftrightarrow> fl_key fl = hdr_key h"
  by (auto simp: same_datagram_def fl_key_def hdr_key_def)

definition all_frags :: "frag_list list \<Rightarrow> frag list" where
  "all_frags fls = concat (map fl_frags fls)"

lemma all_frags_simps [simp]:
  "all_frags [] = []" "all_frags (fl # fls) = fl_frags fl @ all_frags fls"
  "all_frags (fls @ gls) = all_frags fls @ all_frags gls"
  by (simp_all add: all_frags_def)

text \<open>
  \<open>K key k b\<close>: the byte \<open>b\<close> was received at the position \<open>k\<close> of a datagram \<open>key\<close>. \<open>L\<close>
  are the net buffers of everybody else; no fragment shares its data with them or another fragment.
\<close>

definition ip4_inv ::
    "('p \<Rightarrow> nat set \<Rightarrow> bool) \<Rightarrow> nat set \<Rightarrow> bool \<Rightarrow> (datagram_key \<Rightarrow> nat \<Rightarrow> u8 \<Rightarrow> bool) \<Rightarrow> ('p, 'z) nbs_scheme
      \<Rightarrow> frag_list list \<Rightarrow> netbuf list \<Rightarrow> bool" where
  "ip4_inv owns X P K s fls L =
     (nb_inv owns (fl_addr ` set fls \<union> X) s (frag_nbs (all_frags fls) @ L)
      \<and> distinct (map fl_addr fls) \<and> fl_addr ` set fls \<inter> X = {}
      \<and> distinct (map fr_data (all_frags fls)) \<and> fr_data ` set (all_frags fls) \<inter> nb_data ` set L = {}
      \<and> (\<forall>fl\<in>set fls. fl_frags fl \<noteq> [] \<and> (\<forall>f\<in>set (fl_frags fl). fr_id f = fl_id fl))
     \<and> (\<forall>fl\<in>set fls. \<forall>f\<in>set (fl_frags fl). frag_ok P (K (fl_key fl)) s f))"

lemma frag_nbs_data: "\<forall>f\<in>set fs. frag_ok P C s f \<Longrightarrow> map nb_data (frag_nbs fs) = map fr_data fs"
  by (induction fs) (auto simp: frag_ok_def)

lemma all_frags_data:
  "\<forall>fl\<in>set fls. \<forall>f\<in>set (fl_frags fl). frag_ok P (K (fl_key fl)) s f
    \<Longrightarrow> map nb_data (frag_nbs (all_frags fls)) = map fr_data (all_frags fls)"
proof (induction fls)
  case (Cons fl fls)
  then show ?case using frag_nbs_data [of "fl_frags fl" P "K (fl_key fl)" s] by simp
qed simp

lemma frag_list_del_split:
  assumes "distinct (map fl_addr (pre @ fl # post))"
  shows "fnet_ip4_frag_list_del (pre @ fl # post) (fl_addr fl) = pre @ post"
proof -
  have "fl_addr g \<noteq> fl_addr fl" if "g \<in> set pre \<union> set post" for g
  proof -
    have "fl_addr g \<in> fl_addr ` (set pre \<union> set post)" using that by (rule imageI)
    moreover have "fl_addr fl \<notin> fl_addr ` (set pre \<union> set post)" using assms by auto
    ultimately show ?thesis by metis
  qed
  then have "filter (\<lambda>g. fl_addr g \<noteq> fl_addr fl) pre = pre" "filter (\<lambda>g. fl_addr g \<noteq> fl_addr fl) post = post"
    by (simp_all add: filter_id_conv)
  then show ?thesis by (simp add: fnet_ip4_frag_list_del_def)
qed

lemma contiguous_content:
  assumes "contiguous fs offset" "\<forall>f\<in>set fs. frag_good P C s f"
  shows "content_ok C offset (chain_bytes s (frag_nbs fs))"
  using assms
proof (induction fs offset rule: contiguous.induct)
  case (1 offset)
  then show ?case by (simp add: content_ok_def)
next
  case (2 f fs offset)
  obtain n where n: "fr_nb f = [n]" "nb_length n = fr_total_length f" "in_buf s n"
      "content_ok C (fr_offset f) (nb_bytes s n)"
    using 2(3) by (auto simp: frag_good_def frag_ok_def)
  have "content_ok C (w16 (offset + fr_total_length f)) (chain_bytes s (frag_nbs fs))"
    using 2 by simp
  then show ?case
    using n 2(2) content_ok_append [of C offset "nb_bytes s n"] length_nb_bytes [OF n(3)] by simp
qed

text \<open>A datagram as the upper layers see it.\<close>

definition datagram_ok :: "bool \<Rightarrow> (datagram_key \<Rightarrow> nat \<Rightarrow> u8 \<Rightarrow> bool) \<Rightarrow> datagram_key \<Rightarrow> u8 list \<Rightarrow> bool" where
  "datagram_ok P K key xs =
     (\<exists>hdr payload. xs = hdr @ payload \<and> 20 \<le> length hdr \<and> content_ok (K key) 0 payload
        \<and> (P \<longrightarrow> length hdr = header_length_of (xs ! 0) \<and> hdr_key (ip4_of xs) = key \<and> length payload \<le> 65535))"

text \<open>
  The header of a rebuilt datagram: that of the first fragment, whole length, no fragment. Time to live
  and checksum are what is left of the pointer.
\<close>

definition rebuilt :: "('p, 'z) nbs_scheme \<Rightarrow> frag_list \<Rightarrow> u8 list \<Rightarrow> bool" where
  "rebuilt s fl hdr =
     (let f = hd (fl_frags fl); hl = header_length_of (fr_version__header_length f)
      in hdr = ip4_bytes \<lparr>ih_version__header_length = fr_version__header_length f, ih_tos = fr_mf f AND NOT 1,
           ih_total_length = fnet_htons (of_nat (hl + chain_length (frag_nbs (fl_frags fl)))), ih_id = fr_id f,
           ih_flags_fragment_offset = 0, ih_ttl = ptr_bytes (chain_addr (fr_nb f)) ! 0, ih_protocol = fl_protocol fl,
           ih_checksum = load16l (drop 2 (ptr_bytes (chain_addr (fr_nb f)))),
           ih_source_addr = fl_source_addr fl, ih_desination_addr = fl_desination_addr fl\<rparr>
         @ take (hl - 20) (drop (fr_pos f + 20) (bytes_at s (fr_data f))))"

lemma load_store_append [simp]: "load16l (store16 v @ xs) = v" "load32 (store32 w @ xs) = w"
proof -
  have "load16l (store16 v @ xs) = load16l (store16 v)" by (simp add: load16l_def store16_def)
  then show "load16l (store16 v @ xs) = v" by simp
  have "load32 (store32 w @ xs) = load32 (store32 w)" by (simp add: load32_def store32_def)
  then show "load32 (store32 w @ xs) = w" by simp
qed

lemma drop_store [simp]:
  "drop (Suc (Suc n)) (store16 v @ xs) = drop n xs"
  "drop (Suc (Suc (Suc (Suc n)))) (store32 w @ xs) = drop n xs"
  "(store16 v @ xs) ! Suc (Suc n) = xs ! n" "(store32 w @ xs) ! Suc (Suc (Suc (Suc n))) = xs ! n"
  by (simp_all add: store16_def store32_def)

lemma ip4_of_bytes: "ip4_of (ip4_bytes h @ xs) = h"
  by (cases h) (simp add: ip4_of_def ip4_bytes_def numeral_eq_Suc)

lemma ip4_inv_frag_good:
  assumes "ip4_inv owns X P K s fls L" "fl \<in> set fls" "f \<in> set (fl_frags fl)"
  shows "frag_good P (K (fl_key fl)) s f"
proof -
  have ok: "frag_ok P (K (fl_key fl)) s f" using assms by (auto simp: ip4_inv_def)
  then obtain n where n: "fr_nb f = [n]" by (auto simp: frag_ok_def)
  have "f \<in> set (all_frags fls)" using assms(2,3) by (auto simp: all_frags_def)
  then have "n \<in> set (frag_nbs (all_frags fls))" using n by (force simp: frag_nbs_def)
  then have "in_buf s n" using assms(1) by (auto simp: ip4_inv_def nb_inv_def)
  then show ?thesis using ok n by (simp add: frag_good_def)
qed

lemma same_bytes_frag_ok:
  assumes "same_bytes s s' M" "frag_ok P C s f" "set (fr_nb f) \<subseteq> set M"
  shows "frag_ok P C s' f"
proof (rule frag_ok_same [OF assms(2)])
  obtain n where "fr_nb f = [n]" "nb_data n = fr_data f" using assms(2) by (auto simp: frag_ok_def)
  then show "bytes_at s' (fr_data f) = bytes_at s (fr_data f)"
    using assms(1,3) by (auto simp: same_bytes_def)
qed

lemma frag_nbs_subset: "fl \<in> set fls \<Longrightarrow> f \<in> set (fl_frags fl) \<Longrightarrow> set (fr_nb f) \<subseteq> set (frag_nbs (all_frags fls))"
  by (auto simp: frag_nbs_def all_frags_def)

lemma contiguous_length:
  assumes "contiguous fs offset" "\<forall>f\<in>set fs. frag_ok True C s f" "offset \<le> 65535"
  shows "offset + chain_length (frag_nbs fs) \<le> 65535"
  using assms
proof (induction fs offset rule: contiguous.induct)
  case (2 f fs offset)
  obtain n where n: "fr_nb f = [n]" "nb_length n = fr_total_length f" "offset + fr_total_length f \<le> 65535"
    using 2(2,3) by (auto simp: frag_ok_def)
  then have "w16 (offset + fr_total_length f) = offset + fr_total_length f" by simp
  then show ?case using 2 n by simp
qed simp

context block_allocator
begin

text \<open>The invariant after a step that leaves the lists and their data alone.\<close>

lemma ip4_inv_frame:
  assumes "ip4_inv owns X P K s fls L" "nb_inv owns (fl_addr ` set fls \<union> X) s' (frag_nbs (all_frags fls) @ L')"
    and "same_bytes s s' (frag_nbs (all_frags fls))"
    and "fr_data ` set (all_frags fls) \<inter> nb_data ` set L' = {}"
  shows "ip4_inv owns X P K s' fls L'"
  using assms same_bytes_frag_ok [OF assms(3)] frag_nbs_subset [of _ fls]
  by (simp add: ip4_inv_def)

lemma finish_complete_ok:
  assumes inv: "ip4_inv owns X P K s (pre @ fl # post) L" and cpl: "complete (fl_frags fl)"
  shows "\<exists>s' c. ip4_finish A s (pre @ fl # post) (length pre) = Some (s', pre @ post, c) \<and> c \<noteq> []
     \<and> ip4_inv owns X P K s' (pre @ post) (c @ L) \<and> same_bytes s s' L \<and> nbs.more s' = nbs.more s
     \<and> datagram_ok P K (fl_key fl) (chain_bytes s' c)
     \<and> (\<exists>hdr. chain_bytes s' c = hdr @ chain_bytes s (frag_nbs (fl_frags fl)) \<and> (P \<longrightarrow> rebuilt s fl hdr))"
proof -
  let ?fls = "pre @ fl # post" and ?R = "frag_nbs (all_frags (pre @ post))"
  let ?X = "fl_addr ` set (pre @ post) \<union> X"
  have fl: "fl \<in> set ?fls" by simp
  have i: "nb_inv owns (fl_addr ` set ?fls \<union> X) s (frag_nbs (all_frags ?fls) @ L)"
    and da: "distinct (map fl_addr ?fls)" "fl_addr ` set ?fls \<inter> X = {}"
    and dd: "distinct (map fr_data (all_frags ?fls))" "fr_data ` set (all_frags ?fls) \<inter> nb_data ` set L = {}"
    and ok: "\<forall>fl\<in>set ?fls. \<forall>f\<in>set (fl_frags fl). frag_ok P (K (fl_key fl)) s f"
    and ne: "\<forall>fl\<in>set ?fls. fl_frags fl \<noteq> [] \<and> (\<forall>f\<in>set (fl_frags fl). fr_id f = fl_id fl)"
    using inv by (auto simp: ip4_inv_def)
  obtain f fs where fs: "fl_frags fl = f # fs" using ne fl by (cases "fl_frags fl") auto
  have okf: "\<forall>g\<in>set (fl_frags fl). frag_ok P (K (fl_key fl)) s g" using ok by simp
  have good: "\<forall>g\<in>set (f # fs). frag_good P (K (fl_key fl)) s g"
    using ip4_inv_frag_good [OF inv fl] fs by simp
  have addr: "fl_addr fl \<notin> ?X" using da by auto
  have "insert (fl_addr fl) ?X = fl_addr ` set ?fls \<union> X" by auto
  moreover have "mset (frag_nbs (all_frags ?fls) @ L) = mset (frag_nbs (fl_frags fl) @ ?R @ L)" by simp
  ultimately have i': "nb_inv owns (insert (fl_addr fl) ?X) s (frag_nbs (fl_frags fl) @ ?R @ L)"
    using i nb_inv_perm by metis
  have data: "nb_data ` set (frag_nbs fs @ ?R) = fr_data ` set (fs @ all_frags (pre @ post))"
  proof -
    have "set (map nb_data (frag_nbs fs)) = set (map fr_data fs)"
      using frag_nbs_data [of fs P "K (fl_key fl)" s] okf fs by simp
    moreover have "set (map nb_data ?R) = set (map fr_data (all_frags (pre @ post)))"
      using all_frags_data [of "pre @ post" P K s] ok by simp
    ultimately show ?thesis by (simp add: image_Un)
  qed
  have "fr_data f \<notin> fr_data ` set (fs @ all_frags (pre @ post))" using dd(1) fs by auto
  moreover have "fr_data f \<notin> nb_data ` set L" using dd(2) fs by auto
  ultimately have own: "fr_data f \<notin> nb_data ` set (frag_nbs fs @ ?R @ L)" using data by auto
  from reconstruct_ok [OF i' addr fs okf own] obtain s' n' hdr where r:
    "ip4_reconstruct A s fl = Some (s', n' # frag_nbs fs)"
    "nb_inv owns ?X s' ((n' # frag_nbs fs) @ ?R @ L)" "same_bytes s s' (frag_nbs fs @ ?R @ L)"
    "nbs.more s' = nbs.more s"
    "chain_bytes s' (n' # frag_nbs fs) = hdr @ chain_bytes s (frag_nbs (f # fs))"
    "length hdr = header_length_of (fr_version__header_length f)" "nb_data n' = fr_data f"
    and front: "chain_length (frag_nbs (f # fs)) + 60 < 4294967296 \<and> nb_off (hd (fr_nb f)) = fr_pos f + length hdr
        \<longrightarrow> (hdr = ip4_bytes \<lparr>ih_version__header_length = fr_version__header_length f, ih_tos = fr_mf f AND NOT 1,
              ih_total_length = fnet_htons (of_nat (length hdr + chain_length (frag_nbs (f # fs)))), ih_id = fr_id f,
              ih_flags_fragment_offset = of_nat (fr_offset f), ih_ttl = ptr_bytes (chain_addr (fr_nb f)) ! 0,
              ih_protocol = fl_protocol fl, ih_checksum = load16l (drop 2 (ptr_bytes (chain_addr (fr_nb f)))),
              ih_source_addr = fl_source_addr fl, ih_desination_addr = fl_desination_addr fl\<rparr>
           @ take (length hdr - 20) (drop (fr_pos f + 20) (bytes_at s (fr_data f))))"
    by blast
  have "mset ((n' # frag_nbs fs) @ ?R @ L) = mset (?R @ (n' # frag_nbs fs) @ L)" by simp
  then have i2: "nb_inv owns ?X s' (?R @ (n' # frag_nbs fs) @ L)" using r(2) nb_inv_perm by metis
  have "nb_data ` set ((n' # frag_nbs fs) @ L) = insert (fr_data f) (nb_data ` set (frag_nbs fs)) \<union> nb_data ` set L"
    using r(7) by auto
  moreover have "nb_data ` set (frag_nbs fs) = fr_data ` set fs"
    using arg_cong [OF frag_nbs_data [of fs P "K (fl_key fl)" s], of set] okf fs by simp
  ultimately have "fr_data ` set (all_frags (pre @ post)) \<inter> nb_data ` set ((n' # frag_nbs fs) @ L) = {}"
    using dd fs by auto
  moreover have "same_bytes s s' ?R" using r(3) by (rule same_bytes_mono) auto
  moreover have "\<forall>fl\<in>set (pre @ post). \<forall>f\<in>set (fl_frags fl). frag_ok P (K (fl_key fl)) s' f"
  proof (intro ballI)
    fix g x
    assume g: "g \<in> set (pre @ post)" "x \<in> set (fl_frags g)"
    show "frag_ok P (K (fl_key g)) s' x"
      by (rule same_bytes_frag_ok [OF \<open>same_bytes s s' ?R\<close> _ frag_nbs_subset [OF g]]) (use ok g in auto)
  qed
  moreover have "distinct (map fl_addr (pre @ post))" "fl_addr ` set (pre @ post) \<inter> X = {}"
      "distinct (map fr_data (all_frags (pre @ post)))" "\<forall>fl\<in>set (pre @ post). fl_frags fl \<noteq> [] \<and> (\<forall>f\<in>set (fl_frags fl). fr_id f = fl_id fl)"
    using da dd ne by auto
  ultimately have inv': "ip4_inv owns X P K s' (pre @ post) ((n' # frag_nbs fs) @ L)"
    using i2 unfolding ip4_inv_def by blast
  have fin: "ip4_finish A s ?fls (length pre) = Some (s', pre @ post, n' # frag_nbs fs)"
    using cpl r(1) frag_list_del_split [OF da(1)] by (simp add: ip4_finish_def)
  have pay: "content_ok (K (fl_key fl)) 0 (chain_bytes s (frag_nbs (f # fs)))"
    using contiguous_content [of "f # fs" 0] cpl good fs by (simp add: complete_def)
  have f: "frag_ok P (K (fl_key fl)) s f" "20 \<le> length hdr" "fr_offset f = 0"
    using okf fs cpl r(6) by (auto simp: complete_def frag_ok_def)
  have short: "chain_length (frag_nbs (f # fs)) \<le> 65535" if P
    using contiguous_length [of "f # fs" 0 "K (fl_key fl)" s] that okf fs cpl by (simp add: complete_def)
  have "\<forall>m\<in>set (frag_nbs (f # fs)). in_buf s m"
    using good by (fastforce simp: frag_nbs_def frag_good_def frag_ok_def)
  then have paylen: "length (chain_bytes s (frag_nbs (f # fs))) = chain_length (frag_nbs (f # fs))"
    by (rule length_chain_bytes)
  have plain: "length hdr = header_length_of ((hdr @ xs) ! 0) \<and> hdr_key (ip4_of (hdr @ xs)) = fl_key fl"
    if P for xs
  proof -
    have "nb_off (hd (fr_nb f)) = fr_pos f + length hdr" using f that r(6) by (auto simp: frag_ok_def)
    moreover have "chain_length (frag_nbs (f # fs)) + 60 < 4294967296" using short [OF that] by linarith
    ultimately have "hdr = ip4_bytes \<lparr>ih_version__header_length = fr_version__header_length f,
              ih_tos = fr_mf f AND NOT 1,
              ih_total_length = fnet_htons (of_nat (length hdr + chain_length (frag_nbs (f # fs)))), ih_id = fr_id f,
              ih_flags_fragment_offset = of_nat (fr_offset f), ih_ttl = ptr_bytes (chain_addr (fr_nb f)) ! 0,
              ih_protocol = fl_protocol fl, ih_checksum = load16l (drop 2 (ptr_bytes (chain_addr (fr_nb f)))),
              ih_source_addr = fl_source_addr fl, ih_desination_addr = fl_desination_addr fl\<rparr>
           @ take (length hdr - 20) (drop (fr_pos f + 20) (bytes_at s (fr_data f)))"
      using front by blast
    then have "hdr @ xs = ip4_bytes \<lparr>ih_version__header_length = fr_version__header_length f,
              ih_tos = fr_mf f AND NOT 1,
              ih_total_length = fnet_htons (of_nat (length hdr + chain_length (frag_nbs (f # fs)))), ih_id = fr_id f,
              ih_flags_fragment_offset = of_nat (fr_offset f), ih_ttl = ptr_bytes (chain_addr (fr_nb f)) ! 0,
              ih_protocol = fl_protocol fl, ih_checksum = load16l (drop 2 (ptr_bytes (chain_addr (fr_nb f)))),
              ih_source_addr = fl_source_addr fl, ih_desination_addr = fl_desination_addr fl\<rparr>
           @ (take (length hdr - 20) (drop (fr_pos f + 20) (bytes_at s (fr_data f))) @ xs)" (is "_ = ip4_bytes ?h @ ?r")
      by simp
    note eq = this
    have "(hdr @ xs) ! 0 = fr_version__header_length f" unfolding eq by (simp add: ip4_bytes_def)
    moreover have "ip4_of (hdr @ xs) = ?h" unfolding eq by (rule ip4_of_bytes)
    moreover have "fr_id f = fl_id fl" using ne fs by simp
    ultimately show ?thesis using r(6) by (simp add: hdr_key_def fl_key_def)
  qed
  have "datagram_ok P K (fl_key fl) (chain_bytes s' (n' # frag_nbs fs))"
    unfolding datagram_ok_def r(5)
    by (rule exI [of _ hdr], rule exI [of _ "chain_bytes s (frag_nbs (f # fs))"], intro conjI impI refl pay f(2))
      (simp_all only: plain short paylen)
  moreover have "rebuilt s fl hdr" if P
  proof -
    have "nb_off (hd (fr_nb f)) = fr_pos f + length hdr" using f that r(6) by (auto simp: frag_ok_def)
    moreover have "chain_length (frag_nbs (f # fs)) + 60 < 4294967296" using short [OF that] by linarith
    ultimately show ?thesis
      using front by (auto simp: rebuilt_def Let_def fs r(6) f(3))
  qed
  ultimately show ?thesis using fin inv' r(3,4,5) same_bytes_mono [OF r(3), of L] fs
    by (intro exI [of _ s'] exI [of _ "n' # frag_nbs fs"]) (auto intro: exI [of _ hdr])
qed

end

section \<open>A packet that arrives\<close>

text \<open>The position of a packet's payload in its datagram, and the length of its header.\<close>

definition frag_start :: "u8 list \<Rightarrow> nat" where
  "frag_start xs = w16 (8 * unat (fnet_htons (ih_flags_fragment_offset (ip4_of xs))))"

definition frag_hdr :: "u8 list \<Rightarrow> nat" where
  "frag_hdr xs = header_length_of (xs ! 0)"

text \<open>What \<^verbatim>\<open>_fnet_ip4_input_low\<close> has checked and trimmed, with a payload that is not empty.\<close>

definition packet_ok :: "('p, 'z) nbs_scheme \<Rightarrow> netbuf \<Rightarrow> bool" where
  "packet_ok s n =
     (let xs = nb_bytes s n
      in nb_total_length n = nb_length n \<and> 20 \<le> frag_hdr xs \<and> frag_hdr xs < nb_length n
         \<and> unat (fnet_htons (ih_total_length (ip4_of xs))) = nb_length n)"

text \<open>The fragment that the packet becomes.\<close>

definition frag_of :: "('p, 'z) nbs_scheme \<Rightarrow> netbuf \<Rightarrow> frag" where
  "frag_of s n =
     (let xs = nb_bytes s n; h = ip4_of xs
      in \<lparr>fr_data = nb_data n, fr_pos = nb_off n, fr_version__header_length = xs ! 0,
          fr_mf = (if ih_flags_fragment_offset h AND fnet_htons FNET_IP4_MF \<noteq> 0 then ih_tos h OR 1 else ih_tos h),
          fr_total_length = nb_length n - frag_hdr xs, fr_id = ih_id h, fr_offset = frag_start xs,
          fr_nb = [advance (frag_hdr xs) n]\<rparr>)"

lemma frag_of_simps [simp]:
  "fr_data (frag_of s n) = nb_data n" "fr_nb (frag_of s n) = [advance (frag_hdr (nb_bytes s n)) n]"
  "fr_offset (frag_of s n) = frag_start (nb_bytes s n)"
  "fr_total_length (frag_of s n) = nb_length n - frag_hdr (nb_bytes s n)"
  "fr_id (frag_of s n) = ih_id (ip4_of (nb_bytes s n))"
  by (simp_all add: frag_of_def Let_def)

lemma ip4_of_take: "20 \<le> length xs \<Longrightarrow> ip4_of (take 20 xs) = ip4_of xs"
  by (simp add: ip4_of_def load16l_def load32_def)

lemma ip4_of_vhl [simp]: "ih_version__header_length (ip4_of xs) = xs ! 0"
  by (simp add: ip4_of_def)

lemma header_length_bound: "header_length_of v \<le> 60"
proof -
  have "unat (v AND 0x0F) \<le> unat (0x0F :: u8)"
    using word_and_le1 [of v "0x0F"] by (simp only: word_le_nat_alt)
  then show ?thesis by (simp add: header_length_of_def)
qed

lemma frag_of_good:
  assumes "packet_ok s n" "in_buf s n" "content_ok C (frag_start (nb_bytes s n)) (drop (frag_hdr (nb_bytes s n)) (nb_bytes s n))"
    and "P \<Longrightarrow> frag_start (nb_bytes s n) + (nb_length n - frag_hdr (nb_bytes s n)) \<le> 65535"
  shows "frag_good P C s (frag_of s n)"
proof -
  have "nb_length n < 65536" using assms(1) word16_lt_65536 by (metis packet_ok_def)
  moreover have "frag_start (nb_bytes s n) < 65536" by (simp add: frag_start_def)
  ultimately show ?thesis
    using assms in_buf_advance [OF assms(2), of "frag_hdr (nb_bytes s n)"] nb_bytes_advance [of "frag_hdr (nb_bytes s n)" n s]
    by (auto simp: frag_good_def frag_ok_def packet_ok_def Let_def frag_of_def frag_hdr_def)
qed

definition key_of :: "u8 list \<Rightarrow> datagram_key" where
  "key_of xs = hdr_key (ip4_of xs)"

lemma list_index_Some:
  "list_index Q xs = Some k \<Longrightarrow> k < length xs \<and> Q (xs ! k)"
  by (induction xs arbitrary: k) (auto split: if_splits)

lemma list_index_None: "list_index Q xs = None \<longleftrightarrow> (\<forall>x\<in>set xs. \<not> Q x)"
  by (induction xs) auto

definition new_list :: "nat \<Rightarrow> ('p, 'z) nbs_scheme \<Rightarrow> netbuf \<Rightarrow> frag_list" where
  "new_list a s n =
     (let h = ip4_of (nb_bytes s n)
      in \<lparr>fl_addr = a, fl_ttl = FNET_IP4_FRAG_TTL, fl_protocol = ih_protocol h, fl_id = ih_id h,
          fl_source_addr = ih_source_addr h, fl_desination_addr = ih_desination_addr h, fl_frags = [frag_of s n]\<rparr>)"

context block_allocator
begin

lemma reassembly_unfold:
  assumes inv: "nb_inv owns X s (n # L)" and pk: "packet_ok s n"
  shows "fnet_ip4_reassembly A s fls [n] =
    (case list_index (\<lambda>fl. fl_key fl = key_of (nb_bytes s n)) fls of
       None \<Rightarrow>
         do {
           (s', a) \<leftarrow> fnet_malloc_netbuf A s 24;
           if a = 0 then drop_frag A s' fls [advance (frag_hdr (nb_bytes s n)) n]
           else ip4_finish A s' (new_list a s n # fls) 0
         }
     | Some k \<Rightarrow> ip4_insert A s fls k (frag_of s n))"
proof -
  let ?xs = "nb_bytes s n"
  have len: "length ?xs = nb_length n" using nb_inv_in_buf [OF inv] by (simp add: length_nb_bytes)
  have p: "nb_total_length n = nb_length n" "20 \<le> frag_hdr ?xs" "frag_hdr ?xs < nb_length n"
      "unat (fnet_htons (ih_total_length (ip4_of ?xs))) = nb_length n"
    using pk by (simp_all add: packet_ok_def Let_def)
  have "nb_length n < 65536" using p(4) word16_lt_65536 by metis
  then have w: "w16 (nb_length n + 65536 - frag_hdr ?xs) = nb_length n - frag_hdr ?xs"
    using p(3) by (simp add: mod_if)
  have pull: "fnet_netbuf_pullup A s [n] (nb_total_length n) = Some (s, [n], True)"
    using p by (simp add: fnet_netbuf_pullup_def)
  have "read_data s (nb_data n) (nb_off n + 0) 20 = Some (take 20 (drop 0 ?xs))"
    by (rule read_nb_ok [OF inv]) (use p in auto)
  then have rd: "read_data s (nb_data n) (nb_off n) 20 = Some (take 20 ?xs)" by simp
  have of: "ip4_of (take 20 ?xs) = ip4_of ?xs" using ip4_of_take len p by simp
  have "nb_data n \<in># mset (map nb_data (n # L))" by simp
  then obtain b where b: "bufs s (nb_data n) = Some b" by (rule mem_ok_some [OF nb_inv_mem(1) [OF inv]])
  have key: "(\<lambda>fl. fl_key fl = key_of ?xs) = same_datagram (ip4_of ?xs)"
    by (simp add: fun_eq_iff same_datagram_key key_of_def)
  have trim: "fnet_netbuf_trim A s [n] (int (frag_hdr ?xs)) = Some (s, [advance (frag_hdr ?xs) n])"
    by (rule trim_advance) (use p \<open>nb_length n < 65536\<close> in simp_all)
  have h: "header_length_of (?xs ! 0) = frag_hdr ?xs" by (simp add: frag_hdr_def)
  show ?thesis
  proof (cases "list_index (same_datagram (ip4_of ?xs)) fls")
    case None
    show ?thesis
    proof (cases "fnet_malloc_netbuf A s 24")
      case fail: None
      then show ?thesis using None
        by (simp add: fnet_ip4_reassembly_def pull rd of trim b key Let_def sizeof_ip4_header_def sizeof_frag_list_def h)
    next
      case (Some r)
      then obtain s' a where r: "fnet_malloc_netbuf A s 24 = Some (s', a)" by (cases r) auto
      then show ?thesis using None
      by (cases "a = 0") (simp_all add: fnet_ip4_reassembly_def pull rd of trim b key Let_def sizeof_ip4_header_def sizeof_frag_list_def h p(4) w
          fnet_ip4_frag_list_add_def fnet_ip4_frag_add_def new_list_def frag_of_def frag_start_def)
    qed
  next
    case (Some k)
    then show ?thesis
      by (simp add: fnet_ip4_reassembly_def pull rd of trim b key Let_def sizeof_ip4_header_def h p(4) w
          frag_of_def frag_start_def)
  qed
qed

end

lemma nb_inv_permute: "nb_inv owns X s L \<Longrightarrow> mset L = mset L' \<Longrightarrow> nb_inv owns X s L'"
  by (rule iffD1 [OF nb_inv_perm])

definition uses_freed :: "('p, 'z) nbs_scheme \<Rightarrow> frag_list list \<Rightarrow> netbuf \<Rightarrow> bool" where
  "uses_freed s fls n =
     (case list_index (\<lambda>fl. fl_key fl = key_of (nb_bytes s n)) fls of
        None \<Rightarrow> False
      | Some k \<Rightarrow> put_frag (fl_frags (fls ! k)) (frag_of s n) = Uses_freed)"

context block_allocator
begin

lemma finish_ok:
  assumes "ip4_inv owns X P K s fls L" "k < length fls"
  shows "\<exists>s' fls' c. ip4_finish A s fls k = Some (s', fls', c) \<and> ip4_inv owns X P K s' fls' (c @ L)
     \<and> same_bytes s s' L \<and> nbs.more s' = nbs.more s
     \<and> (c \<noteq> [] \<longrightarrow> datagram_ok P K (fl_key (fls ! k)) (chain_bytes s' c))"
proof (cases "complete (fl_frags (fls ! k))")
  case True
  have eq: "fls = take k fls @ fls ! k # drop (Suc k) fls" "length (take k fls) = k"
    using assms(2) by (simp_all add: id_take_nth_drop)
  have "ip4_inv owns X P K s (take k fls @ fls ! k # drop (Suc k) fls) L" using assms(1) eq(1) by simp
  from finish_complete_ok [OF this True] obtain s' c where
    "ip4_finish A s fls k = Some (s', take k fls @ drop (Suc k) fls, c)"
    "ip4_inv owns X P K s' (take k fls @ drop (Suc k) fls) (c @ L)" "same_bytes s s' L" "nbs.more s' = nbs.more s"
    "datagram_ok P K (fl_key (fls ! k)) (chain_bytes s' c)"
    using eq by auto
  then show ?thesis by blast
next
  case False
  then show ?thesis using assms(1) by (simp add: ip4_finish_def)
qed

lemma drop_frag_ok:
  assumes "ip4_inv owns X P K s fls (n # L)" "nb_addr n' = nb_addr n" "nb_data n' = nb_data n" "in_buf s n'"
  shows "\<exists>s'. drop_frag A s fls [n'] = Some (s', fls, []) \<and> ip4_inv owns X P K s' fls L
     \<and> same_bytes s s' L \<and> nbs.more s' = nbs.more s"
proof -
  let ?X = "fl_addr ` set fls \<union> X"
  have "nb_inv owns ?X s (frag_nbs (all_frags fls) @ n # L)" using assms(1) by (simp add: ip4_inv_def)
  then have "nb_inv owns ?X s (n # frag_nbs (all_frags fls) @ L)"
    by (rule nb_inv_permute) simp
  then have "nb_inv owns ?X s ([n'] @ frag_nbs (all_frags fls) @ L)"
    using nb_inv_view assms(2-4) by simp
  from free_chain_ok [OF this] obtain s' where s': "fnet_netbuf_free_chain A s [n'] = Some s'"
      "nb_inv owns ?X s' (frag_nbs (all_frags fls) @ L)" "same_bytes s s' (frag_nbs (all_frags fls) @ L)"
    by blast
  have "same_bytes s s' (frag_nbs (all_frags fls))" "same_bytes s s' L"
    using s'(3) by (auto intro: same_bytes_mono)
  moreover have "fr_data ` set (all_frags fls) \<inter> nb_data ` set L = {}" using assms(1) by (auto simp: ip4_inv_def)
  ultimately have "ip4_inv owns X P K s' fls L" using ip4_inv_frame [OF assms(1) s'(2)] by blast
  then show ?thesis
    using s'(1) free_chain_more [OF s'(1)] \<open>same_bytes s s' L\<close> by (simp add: drop_frag_def)
qed

lemma frag_ids_nbs:
  "\<forall>f\<in>set fs. frag_good P C s f \<Longrightarrow>
     map (\<lambda>n. (nb_addr n, nb_data n)) (frag_nbs fs) = map (\<lambda>(a, d, i). (a, d)) (map frag_id fs)"
  by (induction fs) (auto simp: frag_good_def frag_ok_def frag_id_def)

lemma put_inv:
  assumes inv: "ip4_inv owns X P K s (pre @ fl # post) (n # L)" and some: "put_frag (fl_frags fl) cur = Inserted fs"
    and cur: "frag_good P (K (fl_key fl)) s cur" "frag_id cur = (nb_addr n, nb_data n, fl_id fl)"
    and priv: "nb_data n \<notin> nb_data ` set L"
  shows "ip4_inv owns X P K s (pre @ fl\<lparr>fl_frags := fs\<rparr> # post) L"
proof -
  let ?fls = "pre @ fl # post" and ?fls' = "pre @ fl\<lparr>fl_frags := fs\<rparr> # post"
  have i: "nb_inv owns (fl_addr ` set ?fls \<union> X) s (frag_nbs (all_frags ?fls) @ n # L)"
    and da: "distinct (map fl_addr ?fls)" "fl_addr ` set ?fls \<inter> X = {}"
    and dd: "distinct (map fr_data (all_frags ?fls))" "fr_data ` set (all_frags ?fls) \<inter> nb_data ` set (n # L) = {}"
    and ne: "\<forall>fl\<in>set ?fls. fl_frags fl \<noteq> [] \<and> (\<forall>f\<in>set (fl_frags fl). fr_id f = fl_id fl)"
    and ok: "\<forall>fl\<in>set ?fls. \<forall>f\<in>set (fl_frags fl). frag_ok P (K (fl_key fl)) s f"
    using inv by (auto simp: ip4_inv_def)
  have good: "\<forall>f\<in>set (fl_frags fl). frag_good P (K (fl_key fl)) s f"
    using ip4_inv_frag_good [OF inv, of fl] by simp
  note pg = put_good [OF good cur(1) _ some]
  have ne': "fl_frags fl \<noteq> []" using ne by simp
  have ids: "mset (map frag_id fs) = add_mset (frag_id cur) (mset (map frag_id (fl_frags fl)))"
    using pg(2) [OF ne'] by simp
  have goods: "\<forall>f\<in>set fs. frag_good P (K (fl_key fl)) s f" using pg(1) [OF ne'] .
  have "mset (map (\<lambda>(a, d, i). (a, d)) (map frag_id fs))
      = add_mset (nb_addr n, nb_data n) (mset (map (\<lambda>(a, d, i). (a, d)) (map frag_id (fl_frags fl))))"
    using arg_cong [OF ids, of "image_mset (\<lambda>(a, d, i). (a, d))"] cur(2) by (simp add: multiset.map_comp)
  then have nbs: "mset (map (\<lambda>n. (nb_addr n, nb_data n)) (frag_nbs fs))
      = add_mset (nb_addr n, nb_data n) (mset (map (\<lambda>n. (nb_addr n, nb_data n)) (frag_nbs (fl_frags fl))))"
    by (simp only: frag_ids_nbs [OF good] frag_ids_nbs [OF goods])
  have X: "fl_addr ` set ?fls' = fl_addr ` set ?fls" by simp
  have inb: "\<forall>m\<in>set (frag_nbs fs). in_buf s m"
    using goods by (auto simp: frag_nbs_def frag_good_def frag_ok_def)
  have i': "nb_inv owns (fl_addr ` set ?fls' \<union> X) s (frag_nbs (all_frags ?fls') @ L)"
    unfolding X by (rule nb_inv_ids [OF i]) (use nbs inb nb_inv_in_buf [OF i] in auto)
  have frds: "mset (map fr_data fs) = add_mset (nb_data n) (mset (map fr_data (fl_frags fl)))"
  proof -
    have "mset (map (\<lambda>(a, d, i). d) (map frag_id fs)) = add_mset (nb_data n) (mset (map (\<lambda>(a, d, i). d) (map frag_id (fl_frags fl))))"
      using arg_cong [OF ids, of "image_mset (\<lambda>(a, d, i). d)"] cur(2) by (simp add: multiset.map_comp)
    then show ?thesis by (simp add: frag_id_def comp_def)
  qed
  have "mset (map fr_data (all_frags ?fls')) = mset (nb_data n # map fr_data (all_frags ?fls))"
    using frds by simp
  then have "distinct (map fr_data (all_frags ?fls')) = distinct (nb_data n # map fr_data (all_frags ?fls))"
    and dset: "set (map fr_data (all_frags ?fls')) = set (nb_data n # map fr_data (all_frags ?fls))"
    by (rule mset_eq_imp_distinct_iff, rule mset_eq_setD)
  then have dd': "distinct (map fr_data (all_frags ?fls'))" using dd by auto
  have "fr_data ` set (all_frags ?fls') = insert (nb_data n) (fr_data ` set (all_frags ?fls))"
    using dset by (simp only: set_map list.simps)
  then have dd2: "fr_data ` set (all_frags ?fls') \<inter> nb_data ` set L = {}" using dd(2) priv by auto
  have fid: "\<forall>f\<in>set fs. fr_id f = fl_id fl"
  proof
    fix f assume "f \<in> set fs"
    then have "frag_id f \<in># mset (map frag_id fs)" by simp
    then have "frag_id f = frag_id cur \<or> frag_id f \<in> frag_id ` set (fl_frags fl)" unfolding ids by auto
    then show "fr_id f = fl_id fl" using cur(2) ne by (auto simp: frag_id_def)
  qed
  have key: "fl_key (fl\<lparr>fl_frags := fs\<rparr>) = fl_key fl" by (simp add: fl_key_def)
  have ok': "\<forall>fl\<in>set ?fls'. \<forall>f\<in>set (fl_frags fl). frag_ok P (K (fl_key fl)) s f"
    using ok goods key by (auto simp: frag_good_def)
  have ne2: "\<forall>fl\<in>set ?fls'. fl_frags fl \<noteq> [] \<and> (\<forall>f\<in>set (fl_frags fl). fr_id f = fl_id fl)"
    using ne fid pg(3) [OF ne'] by auto
  show ?thesis
    using i' da dd' dd2 ok' ne2 unfolding ip4_inv_def X by simp
qed

text \<open>The data buffer of a fragment goes when its net buffer is freed.\<close>

lemma free_frag_gone:
  assumes inv: "ip4_inv owns X P K s fls L" and f: "f \<in> set (all_frags fls)"
  shows "do { s' \<leftarrow> fnet_netbuf_free_chain A s (fr_nb f); bufs s' (fr_data f) } = None"
proof -
  let ?X = "fl_addr ` set fls \<union> X"
  obtain as bs where split: "all_frags fls = as @ f # bs" using f by (auto simp: in_set_conv_decomp)
  have ok: "\<forall>fl\<in>set fls. \<forall>f\<in>set (fl_frags fl). frag_ok P (K (fl_key fl)) s f" using inv by (simp add: ip4_inv_def)
  obtain m where m: "fr_nb f = [m]" "nb_data m = fr_data f"
    using ok f by (auto simp: all_frags_def frag_ok_def)
  let ?S = "frag_nbs as @ frag_nbs bs @ L"
  have "nb_inv owns ?X s (frag_nbs (all_frags fls) @ L)" using inv by (simp add: ip4_inv_def)
  then have i: "nb_inv owns ?X s ([m] @ ?S)" by (rule nb_inv_permute) (simp add: split m(1))
  have "map nb_data (frag_nbs (all_frags fls)) = map fr_data (all_frags fls)" by (rule all_frags_data [OF ok])
  then have "map nb_data (frag_nbs as) @ fr_data f # map nb_data (frag_nbs bs) = map fr_data (as @ f # bs)"
    using split m by simp
  then have "distinct (map nb_data (frag_nbs as) @ fr_data f # map nb_data (frag_nbs bs))"
    using inv split by (simp add: ip4_inv_def)
  moreover have "fr_data f \<notin> nb_data ` set L" using inv f by (auto simp: ip4_inv_def)
  ultimately have "fr_data f \<notin># mset (map nb_data ?S)" by auto
  moreover obtain s' where s': "fnet_netbuf_free_chain A s [m] = Some s'" "nb_inv owns ?X s' ?S"
    using free_chain_ok [OF i] by blast
  moreover have "dom (bufs s') = set_mset (mset (map nb_data ?S))"
    using nb_inv_mem(1) [OF s'(2)] by (simp add: mem_ok_def)
  ultimately have "bufs s' (fr_data f) = None" by (metis domIff)
  then show ?thesis using m(1) s'(1) by simp
qed

text \<open>A packet whose datagram has a list already.\<close>

lemma reassembly_into:
  assumes inv: "ip4_inv owns X P K s fls (n # L)" and pk: "packet_ok s n"
    and good: "frag_good P (K (key_of (nb_bytes s n))) s (frag_of s n)"
    and k: "list_index (\<lambda>fl. fl_key fl = key_of (nb_bytes s n)) fls = Some k"
  shows "fnet_ip4_reassembly A s fls [n] =
    (case put_frag (fl_frags (fls ! k)) (frag_of s n) of
       Dropped \<Rightarrow> drop_frag A s fls (fr_nb (frag_of s n))
     | Uses_freed \<Rightarrow> None
     | Inserted fs \<Rightarrow> ip4_finish A s (fls[k := (fls ! k)\<lparr>fl_frags := fs\<rparr>]) k)"
proof -
  let ?xs = "nb_bytes s n"
  have "nb_inv owns (fl_addr ` set fls \<union> X) s (frag_nbs (all_frags fls) @ n # L)" using inv by (simp add: ip4_inv_def)
  then have i: "nb_inv owns (fl_addr ` set fls \<union> X) s (n # frag_nbs (all_frags fls) @ L)"
    by (rule nb_inv_permute) simp
  from k have k': "fls ! k \<in> set fls" "fl_key (fls ! k) = key_of ?xs" by (auto dest: list_index_Some)
  have frags: "\<forall>f\<in>set (fl_frags (fls ! k)). frag_ok P (K (key_of ?xs)) s f \<and> in_buf s (hd (fr_nb f))"
    using ip4_inv_frag_good [OF inv k'(1)] k'(2) by (auto simp: frag_good_def)
  have gone: "do { s' \<leftarrow> fnet_netbuf_free_chain A s (fr_nb f); bufs s' (fr_data f) } = None"
    if "f \<in> set (fl_frags (fls ! k))" for f
    using free_frag_gone [OF inv, of f] that k'(1) by (auto simp: all_frags_def)
  show ?thesis
    using ip4_insert_put [OF frags _ _ gone] good reassembly_unfold [OF i pk, of fls] k by (simp add: frag_good_def)
qed

text \<open>
  A fragment arrives: unless it makes the code use a freed header, the function returns, memory and lists stay consistent, nobody else's packets
  change, and a datagram it hands over consists of bytes received for it.
\<close>

lemma reassembly_ok:
  assumes inv: "ip4_inv owns X P K s fls (n # L)" and pk: "packet_ok s n" and priv: "nb_data n \<notin> nb_data ` set L"
    and cont: "content_ok (K (key_of (nb_bytes s n))) (frag_start (nb_bytes s n)) (drop (frag_hdr (nb_bytes s n)) (nb_bytes s n))"
    and small: "P \<Longrightarrow> frag_start (nb_bytes s n) + (nb_length n - frag_hdr (nb_bytes s n)) \<le> 65535"
  shows "uses_freed s fls n \<Longrightarrow> fnet_ip4_reassembly A s fls [n] = None"
    "\<not> uses_freed s fls n \<Longrightarrow> \<exists>s' fls' c. fnet_ip4_reassembly A s fls [n] = Some (s', fls', c) \<and> ip4_inv owns X P K s' fls' (c @ L)
     \<and> same_bytes s s' L \<and> nbs.more s' = nbs.more s
     \<and> (c \<noteq> [] \<longrightarrow> datagram_ok P K (key_of (nb_bytes s n)) (chain_bytes s' c))"
proof -
  let ?xs = "nb_bytes s n" and ?X = "fl_addr ` set fls \<union> X"
  let ?n = "advance (frag_hdr (nb_bytes s n)) n"
  have i0: "nb_inv owns ?X s (frag_nbs (all_frags fls) @ n # L)" using inv by (simp add: ip4_inv_def)
  then have i: "nb_inv owns ?X s (n # frag_nbs (all_frags fls) @ L)" by (rule nb_inv_permute) simp
  have inb: "in_buf s n" using nb_inv_in_buf [OF i] by simp
  have hl: "frag_hdr ?xs \<le> nb_length n" using pk by (simp add: packet_ok_def Let_def)
  have inb': "in_buf s ?n" by (rule in_buf_advance [OF inb hl])
  have good: "frag_good P (K (key_of ?xs)) s (frag_of s n)"
    by (rule frag_of_good [OF pk inb cont small])
  note unfold = reassembly_unfold [OF i pk, of fls]
  note ins = reassembly_into [OF inv pk good]
  show "fnet_ip4_reassembly A s fls [n] = None" if "uses_freed s fls n"
    using that ins by (auto simp: uses_freed_def split: option.splits)
  assume nf: "\<not> uses_freed s fls n"
  show "\<exists>s' fls' c. fnet_ip4_reassembly A s fls [n] = Some (s', fls', c) \<and> ip4_inv owns X P K s' fls' (c @ L)
     \<and> same_bytes s s' L \<and> nbs.more s' = nbs.more s
     \<and> (c \<noteq> [] \<longrightarrow> datagram_ok P K (key_of (nb_bytes s n)) (chain_bytes s' c))"
  proof (cases "list_index (\<lambda>fl. fl_key fl = key_of ?xs) fls")
    case (Some k)
    then have k: "k < length fls" "fl_key (fls ! k) = key_of ?xs" by (auto dest: list_index_Some)
    note ins = ins [OF Some]
    show ?thesis
    proof (cases "put_frag (fl_frags (fls ! k)) (frag_of s n)")
      case Dropped
      then show ?thesis using drop_frag_ok [OF inv, of ?n] inb' ins by auto
    next
      case Uses_freed
      then show ?thesis using nf Some by (simp add: uses_freed_def)
    next
      case put_frag: (Inserted fs)
      let ?fl = "fls ! k"
      have eq: "fls = take k fls @ ?fl # drop (Suc k) fls" using k(1) by (simp add: id_take_nth_drop)
      have upd: "fls[k := ?fl\<lparr>fl_frags := fs\<rparr>] = take k fls @ ?fl\<lparr>fl_frags := fs\<rparr> # drop (Suc k) fls"
        using k(1) by (simp add: upd_conv_take_nth_drop)
      have "frag_id (frag_of s n) = (nb_addr n, nb_data n, fl_id ?fl)"
        using k(2) by (simp add: frag_id_def fl_key_def key_of_def hdr_key_def)
      with inv eq good k(2) priv put_frag have "ip4_inv owns X P K s (take k fls @ ?fl\<lparr>fl_frags := fs\<rparr> # drop (Suc k) fls) L"
        by (intro put_inv [of X P K s "take k fls" ?fl "drop (Suc k) fls" n L "frag_of s n" fs]) simp_all
      then have "ip4_inv owns X P K s (fls[k := ?fl\<lparr>fl_frags := fs\<rparr>]) L" by (simp add: upd)
      from finish_ok [OF this, of k] k put_frag ins show ?thesis by (simp add: fl_key_def)
    qed
  next
    case None
    obtain s1 a where m: "fnet_malloc_netbuf A s 24 = Some (s1, a)" "nbs.more s1 = nbs.more s"
      "same_bytes s s1 (frag_nbs (all_frags fls) @ n # L)"
      "a = 0 \<Longrightarrow> nb_inv owns ?X s1 (frag_nbs (all_frags fls) @ n # L)"
      "a \<noteq> 0 \<Longrightarrow> nb_inv owns (insert a ?X) s1 (frag_nbs (all_frags fls) @ n # L) \<and> a \<notin> ?X"
      by (rule malloc_fresh_ok [OF i0, of 24]) (simp, rule that)
    have sb: "same_bytes s s1 (frag_nbs (all_frags fls))" "same_bytes s s1 L" "same_bytes s s1 [n]"
      using m(3) by (auto intro: same_bytes_mono)
    show ?thesis
    proof (cases "a = 0")
      case True
      have dj: "fr_data ` set (all_frags fls) \<inter> nb_data ` set (n # L) = {}" using inv by (simp add: ip4_inv_def)
      have "ip4_inv owns X P K s1 fls (n # L)" by (rule ip4_inv_frame [OF inv m(4) [OF True] sb(1) dj])
      moreover have "in_buf s1 ?n" using inb' sb(3) by (simp add: in_buf_def same_bytes_def)
      ultimately show ?thesis
        using drop_frag_ok [of X P K s1 fls n L ?n] unfold None m(1,2) True same_bytes_trans [OF sb(2)] by auto
    next
      case False
      let ?fl = "new_list a s n"
      have fl: "fl_frags ?fl = [frag_of s n]" "fl_key ?fl = key_of ?xs" "fl_addr ?fl = a"
          "fl_id ?fl = ih_id (ip4_of ?xs)"
        by (simp_all add: new_list_def Let_def fl_key_def key_of_def hdr_key_def)
      have m5: "nb_inv owns (insert a ?X) s1 (frag_nbs (all_frags fls) @ n # L)" "a \<notin> ?X"
        using m(5) [OF False] by auto
      have "frag_ok P (K (key_of ?xs)) s1 (frag_of s n)"
        using frag_ok_same [of P "K (key_of ?xs)" s "frag_of s n" s1] good sb(3)
        by (simp add: frag_good_def same_bytes_def)
      moreover have "frag_ok P (K (fl_key g)) s1 f" if g: "g \<in> set fls" "f \<in> set (fl_frags g)" for g f
        by (rule same_bytes_frag_ok [OF sb(1) _ frag_nbs_subset [OF g]]) (use inv g in \<open>auto simp: ip4_inv_def\<close>)
      ultimately have oks: "\<forall>g\<in>set (?fl # fls). \<forall>f\<in>set (fl_frags g). frag_ok P (K (fl_key g)) s1 f"
        using fl by simp
      have inb1: "in_buf s1 ?n" using inb' sb(3) by (simp add: in_buf_def same_bytes_def)
      have X: "fl_addr ` set (?fl # fls) \<union> X = insert a ?X" using fl(3) by simp
      have n1: "nb_inv owns (fl_addr ` set (?fl # fls) \<union> X) s1 (frag_nbs (all_frags (?fl # fls)) @ L)"
        unfolding X by (rule nb_inv_ids [OF m5(1)]) (use fl(1) inb1 nb_inv_in_buf [OF m5(1)] in auto)
      have "ip4_inv owns X P K s1 (?fl # fls) L"
        using inv oks n1 m5(2) fl priv unfolding ip4_inv_def by auto
      from finish_ok [OF this, of 0] obtain s2 fls2 c where f:
        "ip4_finish A s1 (?fl # fls) 0 = Some (s2, fls2, c)" "ip4_inv owns X P K s2 fls2 (c @ L)" "same_bytes s1 s2 L"
        "nbs.more s2 = nbs.more s1" "c \<noteq> [] \<longrightarrow> datagram_ok P K (key_of ?xs) (chain_bytes s2 c)"
        using fl(2) by auto
      have "same_bytes s s2 L" by (rule same_bytes_trans [OF sb(2) f(3)]) simp
      then show ?thesis using unfold None m(1,2) False f by auto
    qed
  qed
qed

end

section \<open>Time and draining\<close>

text \<open>One list taken from the invariant, and put back.\<close>

definition list_ok :: "bool \<Rightarrow> (datagram_key \<Rightarrow> nat \<Rightarrow> u8 \<Rightarrow> bool) \<Rightarrow> ('p, 'z) nbs_scheme \<Rightarrow> frag_list \<Rightarrow> bool" where
  "list_ok P K s fl =
     (fl_frags fl \<noteq> [] \<and> distinct (map fr_data (fl_frags fl))
      \<and> (\<forall>f\<in>set (fl_frags fl). fr_id f = fl_id fl \<and> frag_ok P (K (fl_key fl)) s f))"

lemma list_ok_data: "list_ok P K s fl \<Longrightarrow> nb_data ` set (frag_nbs (fl_frags fl)) = fr_data ` set (fl_frags fl)"
  using frag_nbs_data [of "fl_frags fl" P "K (fl_key fl)" s] by (metis list_ok_def set_map)

lemma ip4_inv_Cons:
  "ip4_inv owns X P K s (fl # fls) L \<longleftrightarrow>
     fl_addr fl \<notin> X \<and> list_ok P K s fl \<and> fr_data ` set (fl_frags fl) \<inter> nb_data ` set L = {}
     \<and> ip4_inv owns (insert (fl_addr fl) X) P K s fls (frag_nbs (fl_frags fl) @ L)" (is "?l = ?r")
proof
  have e: "insert (fl_addr fl) (fl_addr ` set fls \<union> X) = fl_addr ` set fls \<union> insert (fl_addr fl) X" by auto
  have m: "mset (frag_nbs (all_frags (fl # fls)) @ L) = mset (frag_nbs (all_frags fls) @ frag_nbs (fl_frags fl) @ L)"
    by simp
  note perm = nb_inv_perm [OF m, of owns]
  {
    assume l: ?l
    then have lo: "list_ok P K s fl" by (auto simp: ip4_inv_def list_ok_def)
    have "nb_inv owns (insert (fl_addr fl) (fl_addr ` set fls \<union> X)) s (frag_nbs (all_frags (fl # fls)) @ L)"
      using l by (simp add: ip4_inv_def)
    then have "nb_inv owns (fl_addr ` set fls \<union> insert (fl_addr fl) X) s
        (frag_nbs (all_frags fls) @ frag_nbs (fl_frags fl) @ L)"
      unfolding e by (rule nb_inv_permute) (rule m)
    then show ?r using l lo list_ok_data [OF lo] by (auto simp: ip4_inv_def image_Un)
  }
  assume r: ?r
  then have lo: "list_ok P K s fl" by simp
  have "nb_inv owns (fl_addr ` set fls \<union> insert (fl_addr fl) X) s
      (frag_nbs (all_frags fls) @ frag_nbs (fl_frags fl) @ L)"
    using r by (simp add: ip4_inv_def)
  then have "nb_inv owns (insert (fl_addr fl) (fl_addr ` set fls \<union> X)) s (frag_nbs (all_frags (fl # fls)) @ L)"
    unfolding e by (rule nb_inv_permute) (rule m [symmetric])
  then show ?l using r lo list_ok_data [OF lo] by (auto simp: ip4_inv_def list_ok_def image_Un)
qed

lemma list_ok_same: "list_ok P K s fl \<Longrightarrow> same_bytes s s' (frag_nbs (fl_frags fl)) \<Longrightarrow> list_ok P K s' fl"
  using same_bytes_frag_ok by (fastforce simp: list_ok_def frag_nbs_def)

lemma list_ok_ttl: "list_ok P K s (fl\<lparr>fl_ttl := t\<rparr>) = list_ok P K s fl"
  by (simp add: list_ok_def fl_key_def)

lemma ip4_inv_Nil: "ip4_inv owns X P K s [] L = nb_inv owns X s L"
  by (simp add: ip4_inv_def)

context block_allocator
begin

lemma free_frags_ok:
  "nb_inv owns X s (frag_nbs fs @ L) \<Longrightarrow>
     \<exists>s'. free_frags A s fs = Some s' \<and> nb_inv owns X s' L \<and> same_bytes s s' L \<and> nbs.more s' = nbs.more s"
proof (induction fs arbitrary: s)
  case (Cons f fs)
  have "nb_inv owns X s (fr_nb f @ frag_nbs fs @ L)" using Cons.prems by simp
  from free_chain_ok [OF this] obtain s1 where s1: "fnet_netbuf_free_chain A s (fr_nb f) = Some s1"
      "nb_inv owns X s1 (frag_nbs fs @ L)" "same_bytes s s1 (frag_nbs fs @ L)" by blast
  from Cons.IH [OF s1(2)] obtain s2 where s2: "free_frags A s1 fs = Some s2" "nb_inv owns X s2 L"
      "same_bytes s1 s2 L" "nbs.more s2 = nbs.more s1" by blast
  have "same_bytes s s2 L" by (rule same_bytes_trans [OF s1(3) s2(3)]) auto
  then show ?case using s1(1) s2 free_chain_more [OF s1(1)] by simp
qed simp

lemma frag_list_free_ok:
  assumes "nb_inv owns (insert (fl_addr fl) X) s (frag_nbs (fl_frags fl) @ L)" "fl_addr fl \<notin> X"
  shows "\<exists>s'. fnet_ip4_frag_list_free A s fl = Some s' \<and> nb_inv owns X s' L \<and> same_bytes s s' L
     \<and> nbs.more s' = nbs.more s"
proof -
  from free_frags_ok [OF assms(1)] obtain s1 where s1: "free_frags A s (fl_frags fl) = Some s1"
      "nb_inv owns (insert (fl_addr fl) X) s1 L" "same_bytes s s1 L" "nbs.more s1 = nbs.more s" by blast
  obtain s2 where s2: "fnet_free_netbuf A s1 (fl_addr fl) = Some s2" "nbs.more s2 = nbs.more s1"
      "nb_inv owns X s2 L" "same_bytes s1 s2 L"
    by (rule free_fresh_ok [OF s1(2) assms(2)])
  have "same_bytes s s2 L" by (rule same_bytes_trans [OF s1(3) s2(4)]) simp
  then show ?thesis using s1 s2 by (simp add: fnet_ip4_frag_list_free_def)
qed

lemma inv_free_list:
  assumes "ip4_inv owns X P K s (fl # fls) L"
  shows "\<exists>s'. fnet_ip4_frag_list_free A s fl = Some s' \<and> ip4_inv owns X P K s' fls L \<and> same_bytes s s' L
     \<and> nbs.more s' = nbs.more s"
proof -
  have i: "ip4_inv owns (insert (fl_addr fl) X) P K s fls (frag_nbs (fl_frags fl) @ L)"
    using assms by (simp add: ip4_inv_Cons)
  have "nb_inv owns (insert (fl_addr fl) (fl_addr ` set fls \<union> X)) s (frag_nbs (all_frags (fl # fls)) @ L)"
    and a: "fl_addr fl \<notin> fl_addr ` set fls \<union> X"
    using assms by (auto simp: ip4_inv_def)
  then have "nb_inv owns (insert (fl_addr fl) (fl_addr ` set fls \<union> X)) s (frag_nbs (fl_frags fl) @ frag_nbs (all_frags fls) @ L)"
    by simp
  from frag_list_free_ok [OF this a] obtain s' where s': "fnet_ip4_frag_list_free A s fl = Some s'"
      "nb_inv owns (fl_addr ` set fls \<union> X) s' (frag_nbs (all_frags fls) @ L)"
      "same_bytes s s' (frag_nbs (all_frags fls) @ L)" "nbs.more s' = nbs.more s" by blast
  have sb: "same_bytes s s' (frag_nbs (all_frags fls))" "same_bytes s s' L"
    using s'(3) by (auto intro: same_bytes_mono)
  have "frag_ok P (K (fl_key g)) s' f" if g: "g \<in> set fls" "f \<in> set (fl_frags g)" for g f
    by (rule same_bytes_frag_ok [OF sb(1) _ frag_nbs_subset [OF g]]) (use assms g in \<open>auto simp: ip4_inv_def\<close>)
  then have "ip4_inv owns X P K s' fls L" using assms s'(2) unfolding ip4_inv_def by auto
  then show ?thesis using s' sb by blast
qed

lemma ip4_timer_ok:
  "ip4_inv owns X P K s fls L \<Longrightarrow>
     \<exists>s' fls'. fnet_ip4_timer A s fls = Some (s', fls') \<and> ip4_inv owns X P K s' fls' L \<and> same_bytes s s' L
       \<and> nbs.more s' = nbs.more s"
proof (induction fls arbitrary: s X L)
  case Nil
  then show ?case by simp
next
  case (Cons fl fls)
  let ?fl = "fl\<lparr>fl_ttl := fl_ttl fl - 1\<rparr>"
  have inv: "ip4_inv owns X P K s (?fl # fls) L" using Cons.prems by (simp add: ip4_inv_Cons list_ok_ttl)
  show ?case
  proof (cases "fl_ttl ?fl = 0")
    case True
    from inv_free_list [OF inv] obtain s1 where s1: "fnet_ip4_frag_list_free A s ?fl = Some s1"
        "ip4_inv owns X P K s1 fls L" "same_bytes s s1 L" "nbs.more s1 = nbs.more s" by blast
    from Cons.IH [OF s1(2)] obtain s2 fls' where s2: "fnet_ip4_timer A s1 fls = Some (s2, fls')"
        "ip4_inv owns X P K s2 fls' L" "same_bytes s1 s2 L" "nbs.more s2 = nbs.more s1" by blast
    have "same_bytes s s2 L" by (rule same_bytes_trans [OF s1(3) s2(3)]) simp
    then show ?thesis using True s1 s2 by simp
  next
    case False
    from inv have c: "fl_addr ?fl \<notin> X" "list_ok P K s ?fl" "fr_data ` set (fl_frags ?fl) \<inter> nb_data ` set L = {}"
      "ip4_inv owns (insert (fl_addr ?fl) X) P K s fls (frag_nbs (fl_frags ?fl) @ L)" unfolding ip4_inv_Cons by auto
    from Cons.IH [OF c(4)] obtain s2 fls' where s2: "fnet_ip4_timer A s fls = Some (s2, fls')"
        "ip4_inv owns (insert (fl_addr ?fl) X) P K s2 fls' (frag_nbs (fl_frags ?fl) @ L)"
        "same_bytes s s2 (frag_nbs (fl_frags ?fl) @ L)" "nbs.more s2 = nbs.more s" by blast
    have "same_bytes s s2 (frag_nbs (fl_frags ?fl))" "same_bytes s s2 L"
      using s2(3) by (auto intro: same_bytes_mono)
    moreover have "list_ok P K s2 ?fl" by (rule list_ok_same [OF c(2)]) (fact calculation(1))
    then have "ip4_inv owns X P K s2 (?fl # fls') L" using c s2(2) unfolding ip4_inv_Cons by blast
    ultimately show ?thesis using False s2 by simp
  qed
qed

lemma drain_frags_ok:
  "ip4_inv owns X P K s fls L \<Longrightarrow>
     \<exists>s'. drain_frags A s fls = Some s' \<and> nb_inv owns X s' L \<and> same_bytes s s' L \<and> nbs.more s' = nbs.more s"
proof (induction fls arbitrary: s)
  case Nil
  then show ?case by (simp add: ip4_inv_Nil)
next
  case (Cons fl fls)
  from inv_free_list [OF Cons.prems] obtain s1 where s1: "fnet_ip4_frag_list_free A s fl = Some s1"
      "ip4_inv owns X P K s1 fls L" "same_bytes s s1 L" "nbs.more s1 = nbs.more s" by blast
  from Cons.IH [OF s1(2)] obtain s2 where s2: "drain_frags A s1 fls = Some s2" "nb_inv owns X s2 L"
      "same_bytes s1 s2 L" "nbs.more s2 = nbs.more s1" by blast
  have "same_bytes s s2 L" by (rule same_bytes_trans [OF s1(3) s2(3)]) simp
  then show ?case using s1 s2 by simp
qed

end

end
