(* ===== verification/Fnet_Ip4_Order.thy ===== *)
theory Fnet_Ip4_Order
  imports Fnet_Ip4_Frag
begin

text \<open>
  The order in which the fragments of one datagram arrive. What the lists of the code hold is
  described by a list of numbers of fragments; which orders complete the datagram is read off from it.
\<close>

unbundle bit_operations_syntax

section \<open>Numbers of fragments\<close>

text \<open>
  The fragment number \<open>j\<close> is kept if it comes before or behind all those that are there, or if its
  predecessor is there. A fragment that fills a gap not touching the one before it is dropped.
\<close>

definition accepted :: "nat list \<Rightarrow> nat \<Rightarrow> bool" where
  "accepted is j = (is = [] \<or> j < hd is \<or> last is < j \<or> (0 < j \<and> j - 1 \<in> set is))"

definition arrive :: "nat \<Rightarrow> nat list \<Rightarrow> nat list" where
  "arrive j is = (if accepted is j then insort j is else is)"

text \<open>A datagram cut into \<open>m\<close> pieces that are not empty.\<close>

definition pieces :: "nat \<Rightarrow> (nat \<Rightarrow> frag) \<Rightarrow> bool" where
  "pieces m F =
     (0 < m \<and> fr_offset (F 0) = 0
      \<and> (\<forall>i<m. 0 < fr_total_length (F i) \<and> fr_offset (F i) + fr_total_length (F i) \<le> 65535)
      \<and> (\<forall>i. Suc i < m \<longrightarrow> fr_offset (F (Suc i)) = fr_offset (F i) + fr_total_length (F i))
      \<and> (\<forall>i<m. (fr_mf (F i) AND 1 = 0) = (Suc i = m)))"

lemma pieces_less:
  assumes "pieces m F" "i < j" "j < m"
  shows "fr_offset (F i) + fr_total_length (F i) \<le> fr_offset (F j)"
  using assms(2,3)
proof (induction j)
  case (Suc j)
  have "fr_offset (F (Suc j)) = fr_offset (F j) + fr_total_length (F j)" using assms(1) Suc.prems by (simp add: pieces_def)
  then show ?case using Suc by (cases "i = j") auto
qed simp

lemma pieces_offset_mono:
  assumes "pieces m F" "i < m" "j < m"
  shows "fr_offset (F i) < fr_offset (F j) \<longleftrightarrow> i < j" "fr_offset (F i) \<le> fr_offset (F j) \<longleftrightarrow> i \<le> j"
proof -
  have p: "0 < fr_total_length (F i)" "0 < fr_total_length (F j)" using assms by (simp_all add: pieces_def)
  have "i < j \<Longrightarrow> fr_offset (F i) < fr_offset (F j)" "j < i \<Longrightarrow> fr_offset (F j) < fr_offset (F i)"
    using pieces_less [OF assms(1), of i j] pieces_less [OF assms(1), of j i] assms p by auto
  then show "fr_offset (F i) < fr_offset (F j) \<longleftrightarrow> i < j" "fr_offset (F i) \<le> fr_offset (F j) \<longleftrightarrow> i \<le> j"
    by (cases i j rule: linorder_cases; simp)+
qed

text \<open>The search finds the number of smaller ones, or 0 when nothing larger is there.\<close>

lemma sorted_split:
  assumes "sorted is" "j \<notin> set is"
  obtains as bs where "is = as @ bs" "\<forall>i\<in>set as. i < j" "\<forall>i\<in>set bs. j < (i::nat)"
proof (rule that)
  show "is = takeWhile (\<lambda>i. i < j) is @ dropWhile (\<lambda>i. i < j) is" by simp
  show "\<forall>i\<in>set (takeWhile (\<lambda>i. i < j) is). i < j" by (auto dest: set_takeWhileD)
  show "\<forall>i\<in>set (dropWhile (\<lambda>i. i < j) is). j < i"
    using assms
  proof (induction "is")
    case (Cons a "is")
    then show ?case by (cases "a < j") auto
  qed simp
qed

lemma insort_split:
  "\<forall>i\<in>set as. i < j \<Longrightarrow> \<forall>i\<in>set bs. j < (i::nat) \<Longrightarrow> insort j (as @ bs) = as @ j # bs"
proof (induction as)
  case Nil
  then show ?case by (cases bs) auto
next
  case (Cons a as)
  then show ?case by auto
qed

lemma frag_find_split:
  assumes "pieces m F" "\<forall>i\<in>set as. i < j" "\<forall>i\<in>set bs. j < i \<and> i < m" "j < m"
  shows "frag_find (map F (as @ bs)) k (fr_offset (F j)) = (if bs = [] then 0 else k + length as)"
  using assms(2)
proof (induction as arbitrary: k)
  case Nil
  then show ?case using assms pieces_offset_mono(1) [OF assms(1), of j "hd bs"] by (cases bs) auto
next
  case (Cons a as)
  then have "\<not> fr_offset (F j) < fr_offset (F a)"
    using pieces_offset_mono(1) [OF assms(1), of j a] assms(4) by simp
  then show ?case using Cons by simp
qed

lemma gap_split:
  assumes "pieces m F" "i < j" "j < m"
  shows "nat ((int (fr_offset (F i)) + int (fr_total_length (F i)) - int (fr_offset (F j))) mod 4294967296)
    = (if Suc i = j then 0 else 4294967296 - (fr_offset (F j) - (fr_offset (F i) + fr_total_length (F i))))"
proof (cases "Suc i = j")
  case True
  then show ?thesis using assms by (auto simp: pieces_def)
next
  case False
  have e: "fr_offset (F (Suc i)) = fr_offset (F i) + fr_total_length (F i)" using assms by (simp add: pieces_def)
  have lt: "fr_offset (F (Suc i)) < fr_offset (F j)"
    using pieces_offset_mono(1) [OF assms(1), of "Suc i" j] assms False by simp
  have b: "fr_offset (F j) \<le> 65535" using assms by (auto simp: pieces_def)
  define d where "d = fr_offset (F j) - (fr_offset (F i) + fr_total_length (F i))"
  have d: "0 < d" "d \<le> 65535" using lt e b by (simp_all add: d_def)
  have "int (fr_offset (F i)) + int (fr_total_length (F i)) - int (fr_offset (F j)) = - int d"
    using lt e by (simp add: d_def)
  moreover have "(- int d) mod 4294967296 = 4294967296 - int d"
  proof -
    have "(- int d) mod 4294967296 = (4294967296 - int d) mod 4294967296" by (simp add: mod_diff_eq)
    also have "\<dots> = 4294967296 - int d" using d by (intro mod_pos_pos_trivial) linarith+
    finally show ?thesis .
  qed
  moreover have "nat (4294967296 - int d) = 4294967296 - d" using d by linarith
  ultimately show ?thesis using False by (simp only: if_False d_def [symmetric])
qed

lemma accepted_split:
  assumes "\<forall>i\<in>set as. i < j" "\<forall>i\<in>set bs. j < (i::nat)" "sorted as"
  shows "accepted (as @ bs) j \<longleftrightarrow> as = [] \<or> bs = [] \<or> Suc (last as) = j"
proof -
  have 1: "as \<noteq> [] \<Longrightarrow> \<not> j < hd (as @ bs)" using assms(1) by (cases as) auto
  have 2: "bs \<noteq> [] \<Longrightarrow> \<not> last (as @ bs) < j" using assms(2) last_in_set [of bs] by fastforce
  have 3: "as = [] \<Longrightarrow> accepted (as @ bs) j" using assms(2) by (cases bs) (auto simp: accepted_def)
  have 4: "bs = [] \<Longrightarrow> accepted (as @ bs) j" using assms(1) last_in_set [of as] by (auto simp: accepted_def)
  have 5: "0 < j \<and> j - 1 \<in> set (as @ bs) \<longleftrightarrow> Suc (last as) = j" if "as \<noteq> []"
  proof
    assume "0 < j \<and> j - 1 \<in> set (as @ bs)"
    then have in_as: "j - 1 \<in> set as" "0 < j" using assms(2) by auto
    have "sorted (butlast as @ [last as])" using assms(3) that by simp
    then have "\<forall>i\<in>set (butlast as @ [last as]). i \<le> last as" by (auto simp: sorted_append)
    then have "\<forall>i\<in>set as. i \<le> last as" using that by simp
    then have "j - 1 \<le> last as" using in_as by blast
    moreover have "last as < j" using assms(1) that by simp
    ultimately show "Suc (last as) = j" by linarith
  next
    assume "Suc (last as) = j"
    then show "0 < j \<and> j - 1 \<in> set (as @ bs)" using that last_in_set [of as] by auto
  qed
  show ?thesis
  proof (cases "as = [] \<or> bs = []")
    case False
    then show ?thesis using 1 2 5 by (auto simp: accepted_def)
  qed (use 3 4 in auto)
qed

text \<open>The code's insertion on a list of numbers.\<close>

lemma put_pieces:
  assumes pc: "pieces m F" and s: "sorted is" "\<forall>i\<in>set is. i < m" "is \<noteq> []" and j: "j < m" "j \<notin> set is"
  shows "put_frag (map F is) (F j) = (if accepted is j then Inserted (map F (insort j is)) else Dropped)"
proof -
  obtain as bs where sp: "is = as @ bs" "\<forall>i\<in>set as. i < j" "\<forall>i\<in>set bs. j < i" by (rule sorted_split [OF s(1) j(2)])
  have bm: "\<forall>i\<in>set bs. j < i \<and> i < m" using sp s(2) by auto
  have acc: "accepted is j \<longleftrightarrow> as = [] \<or> bs = [] \<or> Suc (last as) = j"
    using accepted_split [OF sp(2,3)] s(1) sp(1) by (simp add: sorted_append)
  have ins: "insort j is = as @ j # bs" using insort_split [OF sp(2,3)] sp(1) by simp
  define p where "p = frag_find (map F is) 0 (fr_offset (F j))"
  have p: "p = (if bs = [] then 0 else length as)"
    using frag_find_split [OF pc sp(2) bm j(1), of 0] by (simp add: p_def sp(1))
  show ?thesis
  proof (cases "as = [] \<or> bs = []")
    case True
    then have "p = 0" using p by auto
    then have "put_frag (map F is) (F j) = Inserted (fnet_ip4_frag_add (map F is) (F j) (Some (length is - 1)))"
      by (simp add: put_frag_def Let_def p_def [symmetric] gap_def)
    moreover have "fnet_ip4_frag_add (map F is) (F j) (Some (length is - 1)) = map F (insort j is)"
    proof (cases "as = []")
      case as: True
      then have "j < hd is" "hd is < m" using sp s(3) bm by (auto simp: hd_conv_nth)
      then have "fr_offset (F j) < fr_offset (F (hd is))" using pieces_offset_mono(1) [OF pc j(1)] by simp
      then show ?thesis using s(3) as sp ins by (auto simp: fnet_ip4_frag_add_def hd_map)
    next
      case False
      then have bs: "bs = []" using True by simp
      have "hd is < j" "hd is < m" using False sp s by (auto simp: bs)
      then have "\<not> fr_offset (F j) < fr_offset (F (hd is))" using pieces_offset_mono(1) [OF pc j(1)] by simp
      then show ?thesis using s(3) bs sp ins by (auto simp: fnet_ip4_frag_add_def hd_map)
    qed
    moreover have "accepted is j" using acc True by blast
    ultimately show ?thesis by simp
  next
    case False
    then have p': "p = length as" "p \<noteq> 0" using p by auto
    define i where "i = last as"
    have i: "i < j" using False sp(2) by (simp add: i_def)
    have prev: "map F is ! (p - 1) = F i" using p' False by (simp add: sp(1) nth_append last_conv_nth i_def)
    have nxt: "map F is ! p = F (hd bs)" using p' False by (simp add: sp(1) nth_append hd_conv_nth)
    have hb: "j < hd bs" "hd bs < m" using bm False by (auto simp: hd_conv_nth)
    have g: "gap (map F is) p (F j) = (if Suc i = j then 0
        else 4294967296 - (fr_offset (F j) - (fr_offset (F i) + fr_total_length (F i))))"
      unfolding gap_def prev using gap_split [OF pc i j(1)] p'(2) by simp
    have tj: "0 < fr_total_length (F j)" "fr_offset (F j) + fr_total_length (F j) \<le> 65535"
      using pc j(1) by (simp_all add: pieces_def)
    show ?thesis
    proof (cases "Suc i = j")
      case True
      have nf: "fr_offset (F j) + fr_total_length (F j) \<le> fr_offset (F (hd bs))" by (rule pieces_less [OF pc hb])
      have th: "0 < fr_total_length (F (hd bs))" using pc hb(2) by (simp add: pieces_def)
      have clip: "clip (fr_offset (F j) + fr_total_length (F j)) (drop p (map F is)) = drop p (map F is)"
        using nf nxt p' False by (cases bs) (auto simp: clip_def sp(1))
      have "hd is = hd as" "hd as \<in> set as" using False sp(1) by simp_all
      then have "hd is < j" "hd is < m" using sp s(2) by auto
      then have "\<not> fr_offset (F j) < fr_offset (F (hd is))" using pieces_offset_mono(1) [OF pc j(1)] by simp
      then have "fnet_ip4_frag_add (take p (map F is) @ drop p (map F is)) (F j) (Some (p - 1)) = map F (insort j is)"
        using s(3) p' ins by (simp add: fnet_ip4_frag_add_def hd_map sp(1))
      then show ?thesis
        using acc True p'(2) g clip nf th nxt
        by (simp add: put_frag_def Let_def p_def [symmetric] i_def [symmetric])
    next
      case gap: False
      have "fr_total_length (F j) \<le> 4294967296 - (fr_offset (F j) - (fr_offset (F i) + fr_total_length (F i)))"
        using tj(2) by linarith
      moreover have "fr_offset (F j) - (fr_offset (F i) + fr_total_length (F i)) < 4294967296"
        by (rule le_less_trans [OF diff_le_self]) (use tj in linarith)
      ultimately have "put_frag (map F is) (F j) = Dropped"
        using gap g tj by (simp add: put_frag_def Let_def p_def [symmetric])
      then show ?thesis using acc gap False by (simp add: i_def)
    qed
  qed
qed

text \<open>Complete means: all numbers are there.\<close>

definition piece_end :: "(nat \<Rightarrow> frag) \<Rightarrow> nat \<Rightarrow> nat" where
  "piece_end F k = (case k of 0 \<Rightarrow> 0 | Suc i \<Rightarrow> fr_offset (F i) + fr_total_length (F i))"

lemma offset_piece_end:
  assumes "pieces m F" "i < m" "k \<le> m"
  shows "fr_offset (F i) = piece_end F k \<longleftrightarrow> i = k"
proof (cases k)
  case 0
  then show ?thesis
    using pieces_offset_mono(1) [OF assms(1), of 0 i] assms by (cases "i = 0") (auto simp: piece_end_def pieces_def)
next
  case (Suc l)
  show ?thesis
  proof (cases "k < m")
    case True
    then have e: "piece_end F k = fr_offset (F k)" using assms(1) Suc by (auto simp: piece_end_def pieces_def)
    show ?thesis
      unfolding e using pieces_offset_mono(1) [OF assms(1) assms(2) True] pieces_offset_mono(1) [OF assms(1) True assms(2)]
      by (metis linorder_neqE_nat order_less_irrefl)
  next
    case False
    have "0 < fr_total_length (F i)" using assms by (simp add: pieces_def)
    then have "fr_offset (F i) < piece_end F k"
      using pieces_less [OF assms(1), of i l] Suc assms False by (cases "i = l") (auto simp: piece_end_def)
    then show ?thesis using False assms(2) by simp
  qed
qed

lemma contiguous_pieces:
  assumes "pieces m F" "\<forall>i\<in>set is. i < m" "k \<le> m"
  shows "contiguous (map F is) (piece_end F k) \<longleftrightarrow> is = [k..<k + length is]"
  using assms(2,3)
proof (induction "is" arbitrary: k)
  case (Cons i "is")
  show ?case
  proof (cases "i = k")
    case True
    then have "i < m" "fr_offset (F i) + fr_total_length (F i) \<le> 65535" using Cons.prems assms(1) by (auto simp: pieces_def)
    moreover have "fr_offset (F i) = piece_end F k"
      using offset_piece_end [OF assms(1), of i k] Cons.prems True by simp
    ultimately have "w16 (piece_end F k + fr_total_length (F i)) = piece_end F (Suc k)" "Suc k \<le> m"
      using True by (simp_all add: piece_end_def)
    moreover have "[k..<k + length (i # is)] = k # [Suc k..<Suc k + length is]"
      by (simp add: upt_conv_Cons del: upt_Suc)
    ultimately show ?thesis
      using Cons.IH [of "Suc k"] Cons.prems True \<open>fr_offset (F i) = piece_end F k\<close> by (simp del: upt_Suc)
  next
    case False
    then show ?thesis
      using offset_piece_end [OF assms(1), of i k] Cons.prems by (auto simp: upt_conv_Cons simp del: upt_Suc)
  qed
qed simp

lemma complete_pieces:
  assumes "pieces m F" "\<forall>i\<in>set is. i < m" "is \<noteq> []"
  shows "complete (map F is) \<longleftrightarrow> is = [0..<m]"
proof -
  have "last is < m" using assms(2,3) by simp
  then have mf: "fr_mf (F (last is)) AND 1 = 0 \<longleftrightarrow> Suc (last is) = m" using assms(1) by (simp add: pieces_def)
  have c: "contiguous (map F is) 0 \<longleftrightarrow> is = [0..<length is]"
    using contiguous_pieces [OF assms(1,2), of 0] by (simp add: piece_end_def)
  have l: "is = [0..<length is] \<Longrightarrow> last is = length is - 1"
    using assms(3) by (metis last_upt length_greater_0_conv)
  have "is = [0..<length is] \<and> Suc (last is) = m \<longleftrightarrow> is = [0..<m]"
  proof
    assume a: "is = [0..<length is] \<and> Suc (last is) = m"
    then have "length is = m" using l assms(3) by simp
    then show "is = [0..<m]" using a by metis
  next
    assume a: "is = [0..<m]"
    then have "length is = m" by simp
    then show "is = [0..<length is] \<and> Suc (last is) = m" using a l assms(3) by simp
  qed
  then show ?thesis using c mf assms(3) by (simp add: complete_def last_map)
qed

section \<open>In memory\<close>

text \<open>The payload of a packet, and what of its datagram it is.\<close>

definition packet_payload :: "('p, 'z) nbs_scheme \<Rightarrow> netbuf \<Rightarrow> u8 list" where
  "packet_payload s n = drop (frag_hdr (nb_bytes s n)) (nb_bytes s n)"

definition part_of :: "datagram_key \<Rightarrow> u8 list \<Rightarrow> datagram_key \<Rightarrow> nat \<Rightarrow> u8 \<Rightarrow> bool" where
  "part_of key D key' k b = (key' = key \<longrightarrow> k < length D \<and> D ! k = b)"

lemma part_of_all:
  assumes "content_ok (part_of key D key) 0 xs" "length xs = length D" "length D \<le> 65536"
  shows "xs = D"
proof (rule nth_equalityI [OF assms(2)])
  fix i assume i: "i < length xs"
  then have "w16 i = i" using assms(2,3) by simp
  then show "xs ! i = D ! i" using assms(1) i by (auto simp: content_ok_def part_of_def)
qed

lemma part_of_piece:
  assumes "D = as @ xs @ bs" "length D \<le> 65536"
  shows "content_ok (part_of key D key) (length as) xs"
  using assms by (auto simp: content_ok_def part_of_def nth_append)

lemma chain_length_frags:
  "\<forall>f\<in>set fs. frag_ok P C s f \<Longrightarrow> chain_length (frag_nbs fs) = sum_list (map fr_total_length fs)"
  by (induction fs) (auto simp: frag_ok_def)

context block_allocator
begin

text \<open>One more fragment for a datagram whose fragments \<open>is\<close> are there.\<close>

lemma arrive_step:
  assumes inv: "ip4_inv owns X True K s (fl # fls) (n # L)" and pk: "packet_ok s n"
    and priv: "nb_data n \<notin> nb_data ` set L" and key: "fl_key fl = key_of (nb_bytes s n)"
    and cont: "content_ok (K (fl_key fl)) (frag_start (nb_bytes s n)) (packet_payload s n)"
    and pc: "pieces m F" and fl: "fl_frags fl = map F is" and s: "sorted is" "\<forall>i\<in>set is. i < m" "is \<noteq> []"
    and j: "frag_of s n = F j" "j < m" "j \<notin> set is"
  shows "\<not> accepted is j \<Longrightarrow> \<exists>s'. fnet_ip4_reassembly A s (fl # fls) [n] = Some (s', fl # fls, [])
      \<and> ip4_inv owns X True K s' (fl # fls) L \<and> same_bytes s s' L"
    and "\<lbrakk>accepted is j; insort j is \<noteq> [0..<m]\<rbrakk> \<Longrightarrow>
      fnet_ip4_reassembly A s (fl # fls) [n] = Some (s, fl\<lparr>fl_frags := map F (insort j is)\<rparr> # fls, [])
      \<and> ip4_inv owns X True K s (fl\<lparr>fl_frags := map F (insort j is)\<rparr> # fls) L"
    and "\<lbrakk>accepted is j; insort j is = [0..<m]\<rbrakk> \<Longrightarrow>
      \<exists>s' c hdr. fnet_ip4_reassembly A s (fl # fls) [n] = Some (s', fls, c)
        \<and> ip4_inv owns X True K s' fls (c @ L) \<and> same_bytes s s' L \<and> c \<noteq> []
        \<and> chain_bytes s' c = hdr @ chain_bytes s (frag_nbs (map F [0..<m]))
        \<and> rebuilt s (fl\<lparr>fl_frags := map F [0..<m]\<rparr>) hdr
        \<and> content_ok (K (fl_key fl)) 0 (chain_bytes s (frag_nbs (map F [0..<m])))
        \<and> length (chain_bytes s (frag_nbs (map F [0..<m]))) = sum_list (map (\<lambda>i. fr_total_length (F i)) [0..<m])
        \<and> length hdr = header_length_of (fr_version__header_length (F 0)) \<and> fr_id (F 0) = fl_id fl
        \<and> chain_length (frag_nbs (map F [0..<m])) = sum_list (map (\<lambda>i. fr_total_length (F i)) [0..<m])"
proof -
  have "nb_inv owns (fl_addr ` set (fl # fls) \<union> X) s (frag_nbs (all_frags (fl # fls)) @ n # L)"
    using inv by (simp only: ip4_inv_def)
  then have inb: "in_buf s n" by (rule nb_inv_in_buf) simp
  have small: "fr_offset (F j) + fr_total_length (F j) \<le> 65535" using pc j(2) by (simp add: pieces_def)
  have good: "frag_good True (K (key_of (nb_bytes s n))) s (frag_of s n)"
    by (rule frag_of_good [OF pk inb])
      (use cont key small [folded j(1)] in \<open>simp_all add: packet_payload_def\<close>)
  have "list_index (\<lambda>fl. fl_key fl = key_of (nb_bytes s n)) (fl # fls) = Some 0" using key by simp
  from reassembly_into [OF inv pk good this] have into:
    "fnet_ip4_reassembly A s (fl # fls) [n] =
      (case put_frag (map F is) (F j) of
         Dropped \<Rightarrow> drop_frag A s (fl # fls) (fr_nb (frag_of s n))
       | Uses_freed \<Rightarrow> None
       | Inserted fs \<Rightarrow> ip4_finish A s (fl\<lparr>fl_frags := fs\<rparr> # fls) 0)"
    by (cases "put_frag (map F is) (F j)") (simp_all add: fl j(1))
  note put_frag = put_pieces [OF pc s j(2,3)]
  have hl: "frag_hdr (nb_bytes s n) \<le> nb_length n" using pk by (simp add: packet_ok_def Let_def)
  have m: "\<forall>i\<in>set (insort j is). i < m" "insort j is \<noteq> []" using s(2) j(2) by (auto simp: set_insort_key)
  note cpl = complete_pieces [OF pc m]
  show "\<exists>s'. fnet_ip4_reassembly A s (fl # fls) [n] = Some (s', fl # fls, [])
      \<and> ip4_inv owns X True K s' (fl # fls) L \<and> same_bytes s s' L" if "\<not> accepted is j"
    using drop_frag_ok [OF inv, of "advance (frag_hdr (nb_bytes s n)) n"] in_buf_advance [OF inb hl] into put_frag that
    by auto
  have new: "ip4_inv owns X True K s (fl\<lparr>fl_frags := map F (insort j is)\<rparr> # fls) L" if "accepted is j"
  proof -
    have "frag_id (F j) = (nb_addr n, nb_data n, fl_id fl)"
      using key j(1) [symmetric] by (simp add: frag_id_def fl_key_def key_of_def hdr_key_def)
    moreover have "frag_good True (K (fl_key fl)) s (F j)" using good j(1) key by simp
    moreover have "put_frag (fl_frags fl) (F j) = Inserted (map F (insort j is))" using put_frag that fl by simp
    ultimately show ?thesis
      using put_inv [of X True K s "[]" fl fls n L "F j"] inv priv by simp
  qed
  show "fnet_ip4_reassembly A s (fl # fls) [n] = Some (s, fl\<lparr>fl_frags := map F (insort j is)\<rparr> # fls, [])
      \<and> ip4_inv owns X True K s (fl\<lparr>fl_frags := map F (insort j is)\<rparr> # fls) L"
    if "accepted is j" "insort j is \<noteq> [0..<m]"
    using into put_frag new cpl that by (simp add: ip4_finish_def)
  show "\<exists>s' c hdr. fnet_ip4_reassembly A s (fl # fls) [n] = Some (s', fls, c)
        \<and> ip4_inv owns X True K s' fls (c @ L) \<and> same_bytes s s' L \<and> c \<noteq> []
        \<and> chain_bytes s' c = hdr @ chain_bytes s (frag_nbs (map F [0..<m]))
        \<and> rebuilt s (fl\<lparr>fl_frags := map F [0..<m]\<rparr>) hdr
        \<and> content_ok (K (fl_key fl)) 0 (chain_bytes s (frag_nbs (map F [0..<m])))
        \<and> length (chain_bytes s (frag_nbs (map F [0..<m]))) = sum_list (map (\<lambda>i. fr_total_length (F i)) [0..<m])
        \<and> length hdr = header_length_of (fr_version__header_length (F 0)) \<and> fr_id (F 0) = fl_id fl
        \<and> chain_length (frag_nbs (map F [0..<m])) = sum_list (map (\<lambda>i. fr_total_length (F i)) [0..<m])"
    if a: "accepted is j" "insort j is = [0..<m]"
  proof -
    let ?fl = "fl\<lparr>fl_frags := map F [0..<m]\<rparr>"
    have c: "complete (fl_frags ?fl)" using cpl a(2) by simp
    have i1: "ip4_inv owns X True K s ([] @ ?fl # fls) L" using new a by simp
    have goods: "\<forall>f\<in>set (map F [0..<m]). frag_good True (K (fl_key fl)) s f"
      using ip4_inv_frag_good [OF i1, of ?fl] by (simp add: fl_key_def)
    have cont': "content_ok (K (fl_key fl)) 0 (chain_bytes s (frag_nbs (map F [0..<m])))"
      using contiguous_content [OF _ goods, of 0] c by (simp add: complete_def)
    have len: "length (chain_bytes s (frag_nbs fs)) = sum_list (map fr_total_length fs)"
      if "\<forall>f\<in>set fs. frag_good True (K (fl_key fl)) s f" for fs
      using that by (induction fs) (auto simp: frag_good_def frag_ok_def length_nb_bytes)
    from c i1 obtain s' c hdr where
      "ip4_finish A s (?fl # fls) 0 = Some (s', fls, c)" "c \<noteq> []" "ip4_inv owns X True K s' fls (c @ L)"
      "same_bytes s s' L" "chain_bytes s' c = hdr @ chain_bytes s (frag_nbs (map F [0..<m]))" "rebuilt s ?fl hdr"
      using finish_complete_ok [of X True K s "[]" ?fl fls L] by auto
    moreover from this(6) have "length hdr = header_length_of (fr_version__header_length (F 0))"
    proof -
      have m0: "0 < m" using pc by (simp add: pieces_def)
      then have "F 0 \<in> set (map F [0..<m])" by simp
      then have "frag_good True (K (fl_key fl)) s (F 0)" using goods by blast
      moreover have "hd (map F [0..<m]) = F 0" using m0 by (simp add: hd_map)
      ultimately show ?thesis
        using \<open>rebuilt s ?fl hdr\<close> by (auto simp: rebuilt_def Let_def frag_good_def frag_ok_def in_buf_def)
    qed
    moreover have "chain_length (frag_nbs (map F [0..<m])) = sum_list (map (\<lambda>i. fr_total_length (F i)) [0..<m])"
      using chain_length_frags [of "map F [0..<m]" True "K (fl_key fl)" s] goods by (simp add: frag_good_def comp_def)
    moreover have "fr_id (F 0) = fl_id fl"
      using i1 pc by (simp add: ip4_inv_def pieces_def)
    ultimately show ?thesis using into put_frag a cont' len [OF goods] by (auto simp: comp_def)
  qed
qed

text \<open>The first fragment of a datagram, when there is memory for a list.\<close>

lemma arrive_first:
  assumes inv: "ip4_inv owns X True K s fls (n # L)" and pk: "packet_ok s n"
    and priv: "nb_data n \<notin> nb_data ` set L" and new: "\<forall>fl\<in>set fls. fl_key fl \<noteq> key_of (nb_bytes s n)"
    and mem: "fnet_malloc_netbuf A s 24 = Some (s1, a)" "a \<noteq> 0"
    and small: "fr_offset (frag_of s n) + fr_total_length (frag_of s n) \<le> 65535" "\<not> complete [frag_of s n]"
    and cont: "content_ok (K (key_of (nb_bytes s n))) (frag_start (nb_bytes s n)) (packet_payload s n)"
  shows "fnet_ip4_reassembly A s fls [n] = Some (s1, new_list a s n # fls, [])"
    and "ip4_inv owns X True K s1 (new_list a s n # fls) L" and "same_bytes s s1 L"
proof -
  have "nb_inv owns (fl_addr ` set fls \<union> X) s (frag_nbs (all_frags fls) @ n # L)" using inv by (simp add: ip4_inv_def)
  then have i: "nb_inv owns (fl_addr ` set fls \<union> X) s (n # frag_nbs (all_frags fls) @ L)"
    by (rule nb_inv_permute) simp
  have none: "list_index (\<lambda>fl. fl_key fl = key_of (nb_bytes s n)) fls = None" using new by (simp add: list_index_None)
  have fl: "fl_frags (new_list a s n) = [frag_of s n]" by (simp add: new_list_def Let_def)
  show re: "fnet_ip4_reassembly A s fls [n] = Some (s1, new_list a s n # fls, [])"
    using reassembly_unfold [OF i pk, of fls] none mem fl small(2) by (simp add: ip4_finish_def)
  have nf: "\<not> uses_freed s fls n" using none by (simp add: uses_freed_def)
  have "\<exists>s' fls' c. fnet_ip4_reassembly A s fls [n] = Some (s', fls', c) \<and> ip4_inv owns X True K s' fls' (c @ L)
     \<and> same_bytes s s' L \<and> nbs.more s' = nbs.more s
     \<and> (c \<noteq> [] \<longrightarrow> datagram_ok True K (key_of (nb_bytes s n)) (chain_bytes s' c))"
    by (rule reassembly_ok(2) [OF inv pk priv _ _ nf]) (use small(1) cont in \<open>simp_all add: packet_payload_def\<close>)
  then show "ip4_inv owns X True K s1 (new_list a s n # fls) L" "same_bytes s s1 L" using re by auto
qed

end

section \<open>All the fragments\<close>

text \<open>Packets handed to the function one after the other, with what it returns each time.\<close>

fun reassemble_all ::
    "'p allocator \<Rightarrow> ('p, 'z) nbs_scheme \<Rightarrow> frag_list list \<Rightarrow> netbuf list list
      \<Rightarrow> (('p, 'z) nbs_scheme \<times> frag_list list \<times> netbuf list list) option" where
  "reassemble_all A s fls [] = Some (s, fls, [])"
| "reassemble_all A s fls (nb # nbs) =
     do {
       (s, fls, c) \<leftarrow> fnet_ip4_reassembly A s fls nb;
       (s, fls, cs) \<leftarrow> reassemble_all A s fls nbs;
       Some (s, fls, c # cs)
     }"

text \<open>A packet cut into \<open>m\<close> fragments, which lie in the net buffers \<open>ns 0\<close>, \<open>ns 1\<close> and so on.\<close>

definition cut_payload :: "('p, 'z) nbs_scheme \<Rightarrow> (nat \<Rightarrow> netbuf) \<Rightarrow> nat \<Rightarrow> u8 list" where
  "cut_payload s ns k = concat (map (\<lambda>j. packet_payload s (ns j)) [0..<k])"

definition datagram_cut :: "('p, 'z) nbs_scheme \<Rightarrow> datagram_key \<Rightarrow> nat \<Rightarrow> (nat \<Rightarrow> netbuf) \<Rightarrow> bool" where
  "datagram_cut s key m ns =
     (0 < m \<and> length (cut_payload s ns m) \<le> 65535
      \<and> (\<forall>j<m. let xs = nb_bytes s (ns j) in
           packet_ok s (ns j) \<and> key_of xs = key \<and> frag_start xs = length (cut_payload s ns j)
           \<and> (ih_flags_fragment_offset (ip4_of xs) AND fnet_htons FNET_IP4_MF \<noteq> 0) = (Suc j < m)
           \<and> (Suc j = m \<longrightarrow> ih_tos (ip4_of xs) AND 1 = 0)))"

lemma cut_payload_Suc: "cut_payload s ns (Suc k) = cut_payload s ns k @ packet_payload s (ns k)"
  by (simp add: cut_payload_def)

lemma cut_payload_split:
  "j < m \<Longrightarrow> \<exists>bs. cut_payload s ns m = cut_payload s ns j @ packet_payload s (ns j) @ bs"
proof (induction m)
  case (Suc m)
  then show ?case by (cases "j = m") (auto simp: cut_payload_Suc)
qed simp

lemma or_one_odd: "(x OR 1) AND 1 \<noteq> (0 :: u8)" "(x OR 1) AND NOT 1 = x AND NOT (1 :: u8)"
proof -
  have b: "bit ((x OR 1) AND 1) 0" by (simp add: bit_simps)
  show "(x OR 1) AND 1 \<noteq> 0"
  proof
    assume e: "(x OR 1) AND 1 = 0"
    show False using b unfolding e by simp
  qed
  show "(x OR 1) AND NOT 1 = x AND NOT 1" by (rule bit_word_eqI) (auto simp: bit_simps)
qed

lemma cut_pieces:
  assumes "datagram_cut s key m ns" "\<forall>j<m. in_buf s (ns j)"
  shows "pieces m (\<lambda>j. frag_of s (ns j))"
    "sum_list (map (\<lambda>j. fr_total_length (frag_of s (ns j))) [0..<m]) = length (cut_payload s ns m)"
    "\<And>j. j < m \<Longrightarrow> content_ok (part_of key (cut_payload s ns m) key) (frag_start (nb_bytes s (ns j))) (packet_payload s (ns j))"
proof -
  have len: "length (packet_payload s (ns j)) = fr_total_length (frag_of s (ns j))" if "j < m" for j
    using assms(2) that by (simp add: packet_payload_def length_nb_bytes)
  have total: "length (cut_payload s ns k) = sum_list (map (\<lambda>j. fr_total_length (frag_of s (ns j))) [0..<k])" if "k \<le> m" for k
    using that by (induction k) (simp_all add: cut_payload_Suc len, simp add: cut_payload_def)
  then show "sum_list (map (\<lambda>j. fr_total_length (frag_of s (ns j))) [0..<m]) = length (cut_payload s ns m)" by simp
  have st: "fr_offset (frag_of s (ns j)) = length (cut_payload s ns j)" if "j < m" for j
    using assms(1) that by (simp add: datagram_cut_def Let_def)
  have "fr_offset (frag_of s (ns j)) + fr_total_length (frag_of s (ns j)) \<le> 65535" if j: "j < m" for j
  proof -
    obtain bs where "cut_payload s ns m = cut_payload s ns j @ packet_payload s (ns j) @ bs"
      using cut_payload_split [OF j] by blast
    then have "length (cut_payload s ns j) + length (packet_payload s (ns j)) \<le> length (cut_payload s ns m)" by simp
    also have "\<dots> \<le> 65535" using assms(1) by (simp add: datagram_cut_def)
    finally show ?thesis using st [OF j] len [OF j] by linarith
  qed
  moreover have "0 < fr_total_length (frag_of s (ns j))" if "j < m" for j
    using assms(1) that by (auto simp: datagram_cut_def packet_ok_def Let_def)
  moreover have "(fr_mf (frag_of s (ns j)) AND 1 = 0) = (Suc j = m)" if "j < m" for j
    using assms(1) that or_one_odd(1) by (auto simp: datagram_cut_def frag_of_def Let_def)
  moreover have "fr_offset (frag_of s (ns (Suc j))) = fr_offset (frag_of s (ns j)) + fr_total_length (frag_of s (ns j))"
    if "Suc j < m" for j
    using st [of j] st [of "Suc j"] len [of j] that by (simp add: cut_payload_Suc)
  moreover have "0 < m" using assms(1) by (simp add: datagram_cut_def)
  moreover from this have "fr_offset (frag_of s (ns 0)) = 0" using st [of 0] by (simp add: cut_payload_def)
  ultimately show "pieces m (\<lambda>j. frag_of s (ns j))" by (simp only: pieces_def) blast
  fix j assume j: "j < m"
  obtain bs where "cut_payload s ns m = cut_payload s ns j @ packet_payload s (ns j) @ bs"
    using cut_payload_split [OF j] by blast
  moreover have "length (cut_payload s ns m) \<le> 65536" using assms(1) by (simp add: datagram_cut_def)
  ultimately have "content_ok (part_of key (cut_payload s ns m) key) (length (cut_payload s ns j)) (packet_payload s (ns j))"
    by (rule part_of_piece)
  then show "content_ok (part_of key (cut_payload s ns m) key) (frag_start (nb_bytes s (ns j))) (packet_payload s (ns j))"
    using st [OF j] by simp
qed

lemma fold_arrive:
  assumes "sorted is" "\<forall>i\<in>set is. i < m" "j < m"
  shows "sorted (arrive j is)" "\<forall>i\<in>set (arrive j is). i < m" "set (arrive j is) \<subseteq> insert j (set is)"
  using assms by (auto simp: arrive_def set_insort_key sorted_insort split: if_splits)

text \<open>The header in front of the datagram: that of the packet with number 0, as a whole packet.\<close>

definition whole_header :: "frag \<Rightarrow> datagram_key \<Rightarrow> nat \<Rightarrow> u8 list \<Rightarrow> bool" where
  "whole_header f key len hdr =
     (length hdr = header_length_of (fr_version__header_length f)
      \<and> (\<exists>opts. hdr = ip4_bytes \<lparr>ih_version__header_length = fr_version__header_length f, ih_tos = fr_mf f AND NOT 1,
           ih_total_length = fnet_htons (of_nat (length hdr + len)), ih_id = fst key,
           ih_flags_fragment_offset = 0, ih_ttl = ptr_bytes (chain_addr (fr_nb f)) ! 0, ih_protocol = fst (snd key),
           ih_checksum = load16l (drop 2 (ptr_bytes (chain_addr (fr_nb f)))),
           ih_source_addr = fst (snd (snd key)), ih_desination_addr = snd (snd (snd key))\<rparr> @ opts))"

context block_allocator
begin

lemma reassemble_rest:
  assumes pc: "pieces m F" and tot: "sum_list (map (\<lambda>i. fr_total_length (F i)) [0..<m]) = length D" "length D \<le> 65535"
  shows "\<lbrakk>ip4_inv owns X True (part_of key D) s (fl # fls) (map ns js @ L); fl_key fl = key; fl_frags fl = map F is;
      sorted is; \<forall>i\<in>set is. i < m; is \<noteq> []; is \<noteq> [0..<m];
      distinct js; set js \<inter> set is = {}; \<forall>j\<in>set js. j < m;
      distinct (map (\<lambda>j. nb_data (ns j)) js); \<forall>j\<in>set js. nb_data (ns j) \<notin> nb_data ` set L;
      \<forall>j\<in>set js. F j = frag_of s (ns j) \<and> packet_ok s (ns j) \<and> key_of (nb_bytes s (ns j)) = key
        \<and> content_ok (part_of key D key) (frag_start (nb_bytes s (ns j))) (packet_payload s (ns j))\<rbrakk> \<Longrightarrow>
    \<exists>s' fls' cs. reassemble_all A s (fl # fls) (map (\<lambda>j. [ns j]) js) = Some (s', fls', cs)
      \<and> ip4_inv owns X True (part_of key D) s' fls' (concat cs @ L) \<and> same_bytes s s' L
      \<and> (if fold arrive js is = [0..<m]
         then fls' = fls \<and> (\<exists>c hdr. cs = replicate (length js - 1) [] @ [c] \<and> chain_bytes s' c = hdr @ D
                \<and> whole_header (F 0) key (length D) hdr)
         else fls' = fl\<lparr>fl_frags := map F (fold arrive js is)\<rparr> # fls \<and> cs = replicate (length js) [])"
proof (induction js arbitrary: s fl "is")
  case Nil
  then have "fl\<lparr>fl_frags := map F is\<rparr> = fl" by simp
  then show ?case using Nil by simp
next
  case (Cons j js)
  let ?n = "ns j" and ?L = "map ns js @ L"
  have inv: "ip4_inv owns X True (part_of key D) s (fl # fls) (?n # ?L)" using Cons.prems(1) by simp
  have j: "frag_of s ?n = F j" "packet_ok s ?n" "fl_key fl = key_of (nb_bytes s ?n)" "j < m" "j \<notin> set is"
      "content_ok (part_of key D (fl_key fl)) (frag_start (nb_bytes s ?n)) (packet_payload s ?n)"
    using Cons.prems by auto
  have priv: "nb_data ?n \<notin> nb_data ` set ?L"
  proof -
    have "nb_data ?n \<notin> (\<lambda>j. nb_data (ns j)) ` set js" using Cons.prems(11) by simp
    then show ?thesis using Cons.prems(12) by (auto simp: image_image)
  qed
  note step = arrive_step [OF inv j(2) priv j(3) j(6) pc Cons.prems(3-6) j(1,4,5)]
  have rest: "\<forall>i\<in>set js. F i = frag_of s1 (ns i) \<and> packet_ok s1 (ns i) \<and> key_of (nb_bytes s1 (ns i)) = key
        \<and> content_ok (part_of key D key) (frag_start (nb_bytes s1 (ns i))) (packet_payload s1 (ns i))"
    if "same_bytes s s1 ?L" for s1
  proof
    fix i assume i: "i \<in> set js"
    then have "nb_bytes s1 (ns i) = nb_bytes s (ns i)" by (intro same_bytes_nb [OF that]) simp
    then show "F i = frag_of s1 (ns i) \<and> packet_ok s1 (ns i) \<and> key_of (nb_bytes s1 (ns i)) = key
        \<and> content_ok (part_of key D key) (frag_start (nb_bytes s1 (ns i))) (packet_payload s1 (ns i))"
      using Cons.prems(13) i by (simp add: frag_of_def packet_ok_def packet_payload_def)
  qed
  note arr = fold_arrive [OF Cons.prems(4,5) j(4)]
  have dist: "distinct js" "set js \<inter> set (arrive j is) = {}" "\<forall>i\<in>set js. i < m"
      "distinct (map (\<lambda>j. nb_data (ns j)) js)" "\<forall>j\<in>set js. nb_data (ns j) \<notin> nb_data ` set L"
    using Cons.prems arr(3) by auto
  show ?case
  proof (cases "accepted is j \<and> insort j is = [0..<m]")
    case True
    have "js = []"
    proof (rule ccontr)
      assume "js \<noteq> []"
      then obtain i where "i \<in> set js" "i < m" using dist(3) by (cases js) auto
      moreover from this have "i \<in> set (insort j is)" using True by simp
      ultimately show False using Cons.prems(8,9) by (auto simp: set_insort_key)
    qed
    from step(3) True obtain s1 c hdr where s1:
      "fnet_ip4_reassembly A s (fl # fls) [?n] = Some (s1, fls, c)"
      "ip4_inv owns X True (part_of key D) s1 fls (c @ ?L)" "same_bytes s s1 ?L"
      "chain_bytes s1 c = hdr @ chain_bytes s (frag_nbs (map F [0..<m]))"
      "rebuilt s (fl\<lparr>fl_frags := map F [0..<m]\<rparr>) hdr"
      "content_ok (part_of key D (fl_key fl)) 0 (chain_bytes s (frag_nbs (map F [0..<m])))"
      "length (chain_bytes s (frag_nbs (map F [0..<m]))) = sum_list (map (\<lambda>i. fr_total_length (F i)) [0..<m])"
      "length hdr = header_length_of (fr_version__header_length (F 0))" "fr_id (F 0) = fl_id fl"
      "chain_length (frag_nbs (map F [0..<m])) = sum_list (map (\<lambda>i. fr_total_length (F i)) [0..<m])" by blast
    have D: "chain_bytes s (frag_nbs (map F [0..<m])) = D"
      by (rule part_of_all [OF s1(6) [unfolded Cons.prems(2)]]) (use s1(7) tot in simp_all)
    have F0: "hd (map F [0..<m]) = F 0" using pc by (simp add: pieces_def hd_map)
    have "whole_header (F 0) key (length D) hdr"
      using s1(5,8-10) F0 tot Cons.prems(2) [symmetric] by (auto simp: rebuilt_def whole_header_def Let_def fl_key_def)
    then have "\<exists>c' hdr. [c] = replicate (length [j] - 1) [] @ [c'] \<and> chain_bytes s1 c' = hdr @ D
        \<and> whole_header (F 0) key (length D) hdr"
      using s1(4) D by auto
    then show ?thesis using True s1(1-3) \<open>js = []\<close> by (simp add: arrive_def)
  next
    case False
    let ?fl = "fl\<lparr>fl_frags := map F (arrive j is)\<rparr>"
    obtain s1 where s1: "fnet_ip4_reassembly A s (fl # fls) [?n] = Some (s1, ?fl # fls, [])"
        "ip4_inv owns X True (part_of key D) s1 (?fl # fls) ?L" "same_bytes s s1 ?L"
    proof (cases "accepted is j")
      case True
      then show ?thesis using step(2) False that [of s] by (simp add: arrive_def)
    next
      case na: False
      then have "?fl = fl" using Cons.prems(3) by (simp add: arrive_def)
      then show ?thesis using step(1) [OF na] that by auto
    qed
    have ne: "arrive j is \<noteq> []" "arrive j is \<noteq> [0..<m]"
      using False Cons.prems(6,7) by (auto simp: arrive_def)
    have "fl_key ?fl = key" "fl_frags ?fl = map F (arrive j is)" using Cons.prems(2) by (simp_all add: fl_key_def)
    from Cons.IH [OF s1(2) this arr(1,2) ne dist rest [OF s1(3)]] obtain s2 fls' cs where s2:
      "reassemble_all A s1 (?fl # fls) (map (\<lambda>j. [ns j]) js) = Some (s2, fls', cs)"
      "ip4_inv owns X True (part_of key D) s2 fls' (concat cs @ L)" "same_bytes s1 s2 L"
      "if fold arrive js (arrive j is) = [0..<m]
         then fls' = fls \<and> (\<exists>c hdr. cs = replicate (length js - 1) [] @ [c] \<and> chain_bytes s2 c = hdr @ D
                \<and> whole_header (F 0) key (length D) hdr)
         else fls' = ?fl\<lparr>fl_frags := map F (fold arrive js (arrive j is))\<rparr> # fls \<and> cs = replicate (length js) []"
      by blast
    have sb: "same_bytes s s2 L" by (rule same_bytes_trans [OF s1(3) s2(3)]) auto
    have all: "reassemble_all A s (fl # fls) (map (\<lambda>j. [ns j]) (j # js)) = Some (s2, fls', [] # cs)"
      using s1(1) s2(1) by simp
    have "js \<noteq> []" if "fold arrive js (arrive j is) = [0..<m]" using that ne(2) by auto
    then have "if fold arrive (j # js) is = [0..<m]
         then fls' = fls \<and> (\<exists>c hdr. [] # cs = replicate (length (j # js) - 1) [] @ [c] \<and> chain_bytes s2 c = hdr @ D
                \<and> whole_header (F 0) key (length D) hdr)
         else fls' = fl\<lparr>fl_frags := map F (fold arrive (j # js) is)\<rparr> # fls \<and> [] # cs = replicate (length (j # js)) []"
      using s2(4) by (cases js) (auto split: if_splits)
    then show ?thesis using all s2(2) sb by (intro exI [of _ s2] exI [of _ fls'] exI [of _ "[] # cs"]) simp
  qed
qed

end

lemma ip4_inv_permute:
  assumes "ip4_inv owns X P K s fls L" "mset L = mset L'"
  shows "ip4_inv owns X P K s fls L'"
proof -
  have "mset (frag_nbs (all_frags fls) @ L) = mset (frag_nbs (all_frags fls) @ L')" using assms(2) by simp
  then have "nb_inv owns (fl_addr ` set fls \<union> X) s (frag_nbs (all_frags fls) @ L')"
    by (rule nb_inv_permute [rotated]) (use assms(1) in \<open>simp only: ip4_inv_def\<close>)
  moreover have "set L = set L'" by (rule mset_eq_setD [OF assms(2)])
  ultimately show ?thesis using assms(1) by (simp add: ip4_inv_def)
qed

lemma ip4_inv_content:
  assumes "ip4_inv owns X P K s fls L" "\<And>fl k b. fl \<in> set fls \<Longrightarrow> K (fl_key fl) k b \<Longrightarrow> K' (fl_key fl) k b"
  shows "ip4_inv owns X P K' s fls L"
proof -
  have "frag_ok P (K' (fl_key fl)) s f" if "fl \<in> set fls" "f \<in> set (fl_frags fl)" for fl f
    by (rule frag_ok_mono [of P "K (fl_key fl)"]) (use assms that in \<open>auto simp: ip4_inv_def\<close>)
  then show ?thesis using assms(1) by (simp add: ip4_inv_def)
qed

context block_allocator
begin

text \<open>
  All fragments of a datagram arrive once, in any order. The datagram is handed over with the last one
  exactly when none was dropped on the way.
\<close>

lemma reassemble_order:
  assumes inv: "ip4_inv owns X True K s fls (map ns js @ L)" and cut: "datagram_cut s key m ns" and m: "2 \<le> m"
    and js: "distinct js" "set js = {..<m}"
    and priv: "distinct (map (\<lambda>j. nb_data (ns j)) js)" "\<forall>j<m. nb_data (ns j) \<notin> nb_data ` set L"
    and new: "\<forall>fl\<in>set fls. fl_key fl \<noteq> key" and mem: "fnet_malloc_netbuf A s 24 = Some (s1, a)" "a \<noteq> 0"
  shows "\<exists>s' fls' cs. reassemble_all A s fls (map (\<lambda>j. [ns j]) js) = Some (s', fls', cs)
      \<and> nb_inv owns (fl_addr ` set fls' \<union> X) s' (frag_nbs (all_frags fls') @ concat cs @ L) \<and> same_bytes s s' L
      \<and> (if fold arrive js [] = [0..<m]
         then fls' = fls \<and> (\<exists>c hdr. cs = replicate (m - 1) [] @ [c] \<and> chain_bytes s' c = hdr @ cut_payload s ns m
                \<and> whole_header (frag_of s (ns 0)) key (length (cut_payload s ns m)) hdr)
         else map fr_offset (fl_frags (hd fls')) = map (\<lambda>i. frag_start (nb_bytes s (ns i))) (fold arrive js [])
              \<and> cs = replicate m [])"
proof -
  define D where "D = cut_payload s ns m"
  define F where "F = (\<lambda>j. frag_of s (ns j))"
  have inb: "\<forall>j<m. in_buf s (ns j)"
  proof (intro allI impI)
    fix j assume "j < m"
    then have "ns j \<in> set (frag_nbs (all_frags fls) @ map ns js @ L)" using js(2) by auto
    moreover have "nb_inv owns (fl_addr ` set fls \<union> X) s (frag_nbs (all_frags fls) @ map ns js @ L)"
      using inv by (simp only: ip4_inv_def)
    ultimately show "in_buf s (ns j)" by (rule nb_inv_in_buf [rotated])
  qed
  note cp = cut_pieces [OF cut inb, folded D_def F_def]
  have "0 \<in> set js" using js(2) m by simp
  then obtain j0 js' where j0: "js = j0 # js'" by (cases js) auto
  have j0m: "j0 < m" "\<forall>j\<in>set js'. j < m" using js j0 by auto
  have lenjs: "length js = m" using distinct_card [OF js(1)] js(2) by simp
  obtain k where k: "m = Suc (Suc k)" using m by (cases m; cases "m - 1") auto
  have facts: "packet_ok s (ns j)" "key_of (nb_bytes s (ns j)) = key" if "j < m" for j
    using cut that by (simp_all add: datagram_cut_def Let_def)
  have "ip4_inv owns X True (part_of key D) s fls (map ns js @ L)"
    by (rule ip4_inv_content [OF inv]) (use new in \<open>auto simp: part_of_def\<close>)
  then have inv0: "ip4_inv owns X True (part_of key D) s fls (ns j0 # map ns js' @ L)" by (simp add: j0)
  have p0: "nb_data (ns j0) \<notin> nb_data ` set (map ns js' @ L)"
    using priv j0 j0m(1) by (auto simp: image_image)
  have small: "fr_offset (F j0) + fr_total_length (F j0) \<le> 65535" using cp(1) j0m by (simp add: pieces_def)
  have "complete (map F [j0]) \<longleftrightarrow> [j0] = [0..<m]" using complete_pieces [OF cp(1), of "[j0]"] j0m(1) by simp
  moreover have ne0: "[j0] \<noteq> [0..<m]"
  proof
    assume "[j0] = [0..<m]"
    then have "length [j0] = length [0..<m]" by (rule arg_cong)
    then show False using m by simp
  qed
  ultimately have inc: "\<not> complete [F j0]" by simp
  note first = arrive_first [OF inv0 facts(1) [OF j0m(1)] p0 _ mem small [unfolded F_def] inc [unfolded F_def]]
  have new': "\<forall>fl\<in>set fls. fl_key fl \<noteq> key_of (nb_bytes s (ns j0))" using new facts(2) [OF j0m(1)] by simp
  have c0: "content_ok (part_of key D (key_of (nb_bytes s (ns j0)))) (frag_start (nb_bytes s (ns j0))) (packet_payload s (ns j0))"
    using cp(3) [OF j0m(1)] facts(2) [OF j0m(1)] by simp
  note first = first [OF new' c0]
  let ?fl = "new_list a s (ns j0)"
  have fl: "fl_key ?fl = key" "fl_frags ?fl = map F [j0]"
    using facts(2) [OF j0m(1)] by (simp_all add: new_list_def Let_def fl_key_def key_of_def hdr_key_def F_def)
  have rest: "\<forall>j\<in>set js'. F j = frag_of s1 (ns j) \<and> packet_ok s1 (ns j) \<and> key_of (nb_bytes s1 (ns j)) = key
        \<and> content_ok (part_of key D key) (frag_start (nb_bytes s1 (ns j))) (packet_payload s1 (ns j))"
  proof
    fix j assume j: "j \<in> set js'"
    then have "nb_bytes s1 (ns j) = nb_bytes s (ns j)" by (intro same_bytes_nb [OF first(3)]) simp
    then show "F j = frag_of s1 (ns j) \<and> packet_ok s1 (ns j) \<and> key_of (nb_bytes s1 (ns j)) = key
        \<and> content_ok (part_of key D key) (frag_start (nb_bytes s1 (ns j))) (packet_payload s1 (ns j))"
      using facts [of j] cp(3) [of j] j j0m(2) by (simp add: frag_of_def packet_ok_def packet_payload_def F_def)
  qed
  have D: "length D \<le> 65535" using cut by (simp add: datagram_cut_def D_def)
  have pv: "distinct (map (\<lambda>j. nb_data (ns j)) js')" "\<forall>j\<in>set js'. nb_data (ns j) \<notin> nb_data ` set L"
    using priv j0 j0m(2) by auto
  have dj: "distinct js'" "set js' \<inter> set [j0] = {}" using js(1) j0 by auto
  have tot: "sum_list (map (\<lambda>i. fr_total_length (F i)) [0..<m]) = length D" using cp(2) by (simp add: F_def)
  have one: "sorted [j0]" "\<forall>i\<in>set [j0]. i < m" "[j0] \<noteq> []" using j0m(1) by simp_all
  from reassemble_rest [OF cp(1) tot D first(2) fl one ne0 dj j0m(2) pv rest] obtain s' fls' cs where r:
    "reassemble_all A s1 (?fl # fls) (map (\<lambda>j. [ns j]) js') = Some (s', fls', cs)"
    "ip4_inv owns X True (part_of key D) s' fls' (concat cs @ L)" "same_bytes s1 s' L"
    "if fold arrive js' [j0] = [0..<m]
         then fls' = fls \<and> (\<exists>c hdr. cs = replicate (length js' - 1) [] @ [c] \<and> chain_bytes s' c = hdr @ D
                \<and> whole_header (F 0) key (length D) hdr)
         else fls' = ?fl\<lparr>fl_frags := map F (fold arrive js' [j0])\<rparr> # fls \<and> cs = replicate (length js') []"
    by blast
  have sb: "same_bytes s s' L" by (rule same_bytes_trans [OF first(3) r(3)]) auto
  have a0: "arrive j0 [] = [j0]" by (simp add: arrive_def accepted_def)
  have l': "length js' = m - 1" "js' \<noteq> []" using lenjs j0 m by auto
  have all: "reassemble_all A s fls (map (\<lambda>j. [ns j]) js) = Some (s', fls', [] # cs)"
    using first(1) r(1) by (simp add: j0)
  have nb: "nb_inv owns (fl_addr ` set fls' \<union> X) s' (frag_nbs (all_frags fls') @ concat ([] # cs) @ L)"
    using r(2) by (simp add: ip4_inv_def)
  have "if fold arrive js [] = [0..<m]
         then fls' = fls \<and> (\<exists>c hdr. [] # cs = replicate (m - 1) [] @ [c] \<and> chain_bytes s' c = hdr @ D
                \<and> whole_header (F 0) key (length D) hdr)
         else map fr_offset (fl_frags (hd fls')) = map (\<lambda>i. frag_start (nb_bytes s (ns i))) (fold arrive js [])
              \<and> [] # cs = replicate m []"
  proof (cases "fold arrive js [] = [0..<m]")
    case True
    then obtain c hdr where c: "fls' = fls" "cs = replicate (m - 2) [] @ [c]" "chain_bytes s' c = hdr @ D"
        "whole_header (F 0) key (length D) hdr"
      using r(4) l'(1) by (auto simp: j0 a0)
    then have "[] # cs = replicate (m - 1) [] @ [c]" by (simp add: k)
    with c True show ?thesis by auto
  next
    case False
    then have c: "fls' = ?fl\<lparr>fl_frags := map F (fold arrive js' [j0])\<rparr> # fls" "cs = replicate (m - 1) []"
      using r(4) l'(1) by (simp_all add: j0 a0)
    then have "[] # cs = replicate m []" by (simp add: k)
    with c show ?thesis using False by (simp add: j0 a0 F_def comp_def)
  qed
  then show ?thesis
    using all nb sb unfolding D_def F_def by blast
qed

end

text \<open>Orders that complete a datagram, and one that does not.\<close>

lemma arrive_ascending: "fold arrive [0..<m] [] = [0..<m]"
proof (induction m)
  case (Suc m)
  have "arrive m [0..<m] = [0..<m] @ [m]"
    using insort_split [of "[0..<m]" m "[]"] by (cases m) (auto simp: arrive_def accepted_def)
  then show ?case using Suc by simp
qed simp

lemma arrive_descending: "fold arrive (rev [k..<m]) [] = [k..<m]"
proof (induction "m - k" arbitrary: k)
  case (Suc n)
  then have k: "k < m" "n = m - Suc k" by auto
  have "arrive k [Suc k..<m] = k # [Suc k..<m]"
    using insort_split [of "[]" k "[Suc k..<m]"] by (cases "Suc k < m") (auto simp: arrive_def accepted_def)
  then show ?case using Suc(1) [OF k(2)] k(1) by (simp add: upt_conv_Cons)
qed simp

lemma arrive_gap: "fold arrive [0, 3, 2, 1] [] = [0, 1, 3]"
  by (simp add: arrive_def accepted_def)

end
