(* ===== verification/Fnet_Ip4_Main.thy ===== *)
theory Fnet_Ip4_Main
  imports Fnet_Ip4_Order
begin

text \<open>
  Reassembly on the heap of the stack: the runs of the driver, IPv4, its timer and the readers of its
  datagrams, and the properties of reassembly.
\<close>

unbundle bit_operations_syntax

section \<open>Packets from the driver\<close>

context block_allocator
begin

lemma from_buf_fresh:
  assumes "nb_inv owns X s L" "length data + 12 \<le> 4294967296"
  shows "\<exists>s' c. fnet_netbuf_from_buf A dr s data False = Some (s', c) \<and> same_bytes s s' L
     \<and> (c = [] \<and> nb_inv owns X s' L
        \<or> (\<exists>n. c = [n] \<and> nb_inv owns X s' (n # L) \<and> nb_length n = length data \<and> nb_total_length n = length data
             \<and> nb_data n \<notin> nb_data ` set L \<and> nb_bytes s' n = data))"
proof -
  obtain s1 c where s1: "fnet_netbuf_new A dr s (length data) False = Some (s1, c)" "same_bytes s s1 L"
    and c: "c = [] \<and> nb_inv owns X s1 L
        \<or> (\<exists>n. c = [n] \<and> nb_inv owns X s1 (n # L) \<and> nb_length n = length data \<and> nb_total_length n = length data
             \<and> nb_off n = 0 \<and> nb_data n \<notin> nb_data ` set L \<and> length (bytes_at s1 (nb_data n)) = length data)"
    using netbuf_new_ok [OF assms, of dr] by (elim exE conjE) (rule that)
  show ?thesis
  proof (cases c)
    case Nil
    with s1 c show ?thesis by (simp add: fnet_netbuf_from_buf_def)
  next
    case (Cons n r)
    with c have n: "c = [n]" "nb_inv owns X s1 (n # L)" "nb_length n = length data" "nb_total_length n = length data"
      "nb_off n = 0" "nb_data n \<notin> nb_data ` set L" "length (bytes_at s1 (nb_data n)) = length data" by auto
    from write_own_ok [OF n(2,6), of 0 data] n(7) obtain s2 where s2: "write_data s1 (nb_data n) 0 data = Some s2"
      "nb_inv owns X s2 (n # L)" "same_bytes s1 s2 L" "bytes_at s2 (nb_data n) = data" by auto
    have "same_bytes s s2 L" by (rule same_bytes_trans [OF s1(2) s2(3)]) simp
    moreover have "nb_bytes s2 n = data" using s2(4) n by (simp add: nb_bytes_def)
    ultimately show ?thesis using s1(1) s2(1,2) n by (simp add: fnet_netbuf_from_buf_def)
  qed
qed

end

section \<open>Runs\<close>

text \<open>
  A fragment as \<^verbatim>\<open>_fnet_ip4_input_low\<close> lets it through, with a payload that is not empty and ends
  inside the largest datagram; the bytes of its payload with their positions.
\<close>

definition fragment_data :: "u8 list \<Rightarrow> bool" where
  "fragment_data xs =
     (20 \<le> frag_hdr xs \<and> frag_hdr xs < length xs \<and> unat (fnet_htons (ih_total_length (ip4_of xs))) = length xs
      \<and> frag_start xs + (length xs - frag_hdr xs) \<le> 65535)"

definition positions :: "u8 list \<Rightarrow> (datagram_key \<times> nat \<times> u8) set" where
  "positions xs = {(key_of xs, frag_start xs + k, xs ! (frag_hdr xs + k)) | k. k < length xs - frag_hdr xs}"

text \<open>
  State: memory, lists, the datagrams that were handed over and not yet freed, and all bytes received so
  far. A step is a packet from the driver, with or without memory for it, the timer, the drain of the
  lists, or a reader that frees a datagram.
\<close>

type_synonym ip4_run = "mempool nbs \<times> frag_list list \<times> netbuf list list \<times> (datagram_key \<times> nat \<times> u8) set"

inductive ip4_step :: "(mempool, unit) drain \<Rightarrow> ip4_run \<Rightarrow> ip4_run \<Rightarrow> bool" for dr where
  ip4_receive: "\<lbrakk>fragment_data data; fnet_netbuf_from_buf main_pool dr s data False = Some (s1, [n]);
      fnet_ip4_reassembly main_pool s1 fls [n] = Some (s2, fls', c)\<rbrakk>
    \<Longrightarrow> ip4_step dr (s, fls, cs, R) (s2, fls', if c = [] then cs else c # cs, R \<union> positions data)"
| ip4_no_memory: "\<lbrakk>fragment_data data; fnet_netbuf_from_buf main_pool dr s data False = Some (s1, [])\<rbrakk>
    \<Longrightarrow> ip4_step dr (s, fls, cs, R) (s1, fls, cs, R)"
| ip4_tick: "fnet_ip4_timer main_pool s fls = Some (s1, fls') \<Longrightarrow> ip4_step dr (s, fls, cs, R) (s1, fls', cs, R)"
| ip4_drain_step: "drain_frags main_pool s fls = Some s1 \<Longrightarrow> ip4_step dr (s, fls, cs, R) (s1, [], cs, R)"
| ip4_consume: "fnet_netbuf_free_chain main_pool s c = Some s1 \<Longrightarrow> ip4_step dr (s, fls, cs @ c # cs', R) (s1, fls, cs @ cs', R)"

inductive ip4_reachable :: "(mempool, unit) drain \<Rightarrow> ip4_run \<Rightarrow> ip4_run \<Rightarrow> bool" for dr st\<^sub>0 where
  ip4_start: "ip4_reachable dr st\<^sub>0 st\<^sub>0"
| ip4_next: "\<lbrakk>ip4_reachable dr st\<^sub>0 st; ip4_step dr st st'\<rbrakk> \<Longrightarrow> ip4_reachable dr st\<^sub>0 st'"

abbreviation received :: "(datagram_key \<times> nat \<times> u8) set \<Rightarrow> datagram_key \<Rightarrow> nat \<Rightarrow> u8 \<Rightarrow> bool" where
  "received R \<equiv> \<lambda>key k x. (key, k, x) \<in> R"

definition ip4_world :: "nat \<Rightarrow> nat \<Rightarrow> ip4_run \<Rightarrow> bool" where
  "ip4_world b N st =
     (case st of (s, fls, cs, R) \<Rightarrow>
        ip4_inv (mempool_owns b N) {} True (received R) s fls (concat cs)
        \<and> (\<forall>c\<in>set cs. \<exists>key. datagram_ok True (received R) key (chain_bytes s c)))"

lemma datagram_ok_mono: "datagram_ok P K key xs \<Longrightarrow> (\<And>k b. K key k b \<Longrightarrow> K' key k b) \<Longrightarrow> datagram_ok P K' key xs"
  unfolding datagram_ok_def content_ok_def by blast

lemma same_bytes_delivered:
  assumes "\<forall>c\<in>set cs. \<exists>key. datagram_ok True K key (chain_bytes s c)" "same_bytes s s' (concat cs)"
    and "\<And>key k b. K key k b \<Longrightarrow> K' key k b"
  shows "\<forall>c\<in>set cs. \<exists>key. datagram_ok True K' key (chain_bytes s' c)"
proof
  fix c assume c: "c \<in> set cs"
  then have "chain_bytes s' c = chain_bytes s c" by (intro same_bytes_chain [OF assms(2)]) auto
  then show "\<exists>key. datagram_ok True K' key (chain_bytes s' c)"
    using assms(1,3) c datagram_ok_mono by metis
qed

text \<open>A packet that the driver has filled in.\<close>

lemma packet_received:
  assumes "fragment_data data" "nb_bytes s n = data" "nb_length n = length data" "nb_total_length n = length data"
    "positions data \<subseteq> R"
  shows "packet_ok s n"
    "content_ok (received R (key_of (nb_bytes s n))) (frag_start (nb_bytes s n)) (drop (frag_hdr (nb_bytes s n)) (nb_bytes s n))"
    "frag_start (nb_bytes s n) + (nb_length n - frag_hdr (nb_bytes s n)) \<le> 65535"
proof -
  show "packet_ok s n" using assms by (simp add: packet_ok_def fragment_data_def Let_def)
  show "frag_start (nb_bytes s n) + (nb_length n - frag_hdr (nb_bytes s n)) \<le> 65535"
    using assms(1) unfolding assms(2,3) fragment_data_def by blast
  show "content_ok (received R (key_of (nb_bytes s n))) (frag_start (nb_bytes s n)) (drop (frag_hdr (nb_bytes s n)) (nb_bytes s n))"
    unfolding content_ok_def
  proof (intro allI impI)
    fix k assume k: "k < length (drop (frag_hdr (nb_bytes s n)) (nb_bytes s n))"
    then have k2: "k < length data - frag_hdr data" using assms(2) by simp
    then have "frag_start data + k \<le> 65535" using assms(1) unfolding fragment_data_def by linarith
    then have "w16 (frag_start data + k) = frag_start data + k" by (intro mod_less) linarith
    moreover have "(key_of data, frag_start data + k, data ! (frag_hdr data + k)) \<in> positions data"
      using k2 unfolding positions_def by blast
    moreover have "drop (frag_hdr data) data ! k = data ! (frag_hdr data + k)"
      using assms(1) by (intro nth_drop) (simp add: fragment_data_def)
    ultimately show "(key_of (nb_bytes s n), w16 (frag_start (nb_bytes s n) + k),
        drop (frag_hdr (nb_bytes s n)) (nb_bytes s n) ! k) \<in> R"
      using assms(5) unfolding assms(2) by auto
  qed
qed

lemma fragment_data_length: "fragment_data data \<Longrightarrow> length data + 12 \<le> 4294967296"
  using word16_lt_65536 [of "fnet_htons (ih_total_length (ip4_of data))"] by (simp add: fragment_data_def)

lemma ip4_inv_mem: "ip4_inv owns X P K s fls L \<Longrightarrow> nb_inv owns (fl_addr ` set fls \<union> X) s (frag_nbs (all_frags fls) @ L)"
  by (simp add: ip4_inv_def)

text \<open>The driver's packet in a consistent world: it is there, intact, and its bytes count as received.\<close>

lemma packet_in_world:
  assumes w: "ip4_world b N (s, fls, cs, R)" and d: "fragment_data data"
    and fb: "fnet_netbuf_from_buf main_pool dr s data False = Some (s1, [n])"
  shows "ip4_inv (mempool_owns b N) {} True (received (R \<union> positions data)) s1 fls (n # concat cs)"
    "nb_bytes s1 n = data" "nb_length n = length data" "packet_ok s1 n" "nb_data n \<notin> nb_data ` set (concat cs)"
    "content_ok (received (R \<union> positions data) (key_of data)) (frag_start data) (drop (frag_hdr data) data)"
    "frag_start data + (length data - frag_hdr data) \<le> 65535"
    "same_bytes s s1 (frag_nbs (all_frags fls) @ concat cs)"
proof -
  let ?F = "frag_nbs (all_frags fls)" and ?L = "concat cs" and ?R = "R \<union> positions data"
  have inv: "ip4_inv (mempool_owns b N) {} True (received R) s fls ?L"
    using w by (simp add: ip4_world_def)
  have dj: "fr_data ` set (all_frags fls) \<inter> nb_data ` set ?L = {}" using inv by (simp add: ip4_inv_def)
  have n: "nb_inv (mempool_owns b N) (fl_addr ` set fls \<union> {}) s1 (n # ?F @ ?L)"
      "nb_length n = length data" "nb_total_length n = length data" "nb_data n \<notin> nb_data ` set (?F @ ?L)"
      "nb_bytes s1 n = data" "same_bytes s s1 (?F @ ?L)"
    using main.from_buf_fresh [OF ip4_inv_mem [OF inv] fragment_data_length [OF d], of dr] fb by auto
  show "nb_bytes s1 n = data" "nb_length n = length data" "same_bytes s s1 (?F @ ?L)" "nb_data n \<notin> nb_data ` set ?L"
    using n by auto
  have "nb_inv (mempool_owns b N) (fl_addr ` set fls \<union> {}) s1 (?F @ n # ?L)"
    using n(1) by (rule nb_inv_permute) simp
  moreover have "fr_data ` set (all_frags fls) \<inter> nb_data ` set (n # ?L) = {}"
  proof -
    have "nb_data ` set ?F = fr_data ` set (all_frags fls)"
      using arg_cong [OF all_frags_data [of fls True "received R" s], of set] inv by (simp add: ip4_inv_def)
    then show ?thesis using dj n(4) by auto
  qed
  moreover have "same_bytes s s1 ?F" using n(6) by (rule same_bytes_mono) simp
  ultimately have "ip4_inv (mempool_owns b N) {} True (received R) s1 fls (n # ?L)"
    using main.ip4_inv_frame [OF inv] by blast
  then show "ip4_inv (mempool_owns b N) {} True (received ?R) s1 fls (n # ?L)"
    by (rule ip4_inv_content) auto
  have sub: "positions data \<subseteq> ?R" by (rule Un_upper2)
  note pr = packet_received [OF d n(5,2,3) sub]
  show "packet_ok s1 n" by (rule pr(1))
  show "content_ok (received ?R (key_of data)) (frag_start data) (drop (frag_hdr data) data)"
    "frag_start data + (length data - frag_hdr data) \<le> 65535"
    using pr(2,3) unfolding n(2,5) .
qed

lemma no_packet_in_world:
  assumes w: "ip4_world b N (s, fls, cs, R)" and d: "fragment_data data"
    and fb: "fnet_netbuf_from_buf main_pool dr s data False = Some (s1, [])"
  shows "ip4_world b N (s1, fls, cs, R)"
proof -
  let ?F = "frag_nbs (all_frags fls)" and ?L = "concat cs"
  have inv: "ip4_inv (mempool_owns b N) {} True (received R) s fls ?L"
    and del: "\<forall>c\<in>set cs. \<exists>key. datagram_ok True (received R) key (chain_bytes s c)"
    using w by (simp_all add: ip4_world_def)
  have s1: "nb_inv (mempool_owns b N) (fl_addr ` set fls \<union> {}) s1 (?F @ ?L)" "same_bytes s s1 (?F @ ?L)"
    using main.from_buf_fresh [OF ip4_inv_mem [OF inv] fragment_data_length [OF d], of dr] fb by auto
  have "ip4_inv (mempool_owns b N) {} True (received R) s1 fls ?L"
    by (rule main.ip4_inv_frame [OF inv s1(1) same_bytes_mono [OF s1(2)]]) (use inv in \<open>auto simp: ip4_inv_def\<close>)
  then show ?thesis
    using same_bytes_delivered [OF del same_bytes_mono [OF s1(2)]] by (simp add: ip4_world_def)
qed

text \<open>What the reassembly does with the packet.\<close>

lemma ip4_receive_ok:
  assumes w: "ip4_world b N (s, fls, cs, R)" and d: "fragment_data data"
    and fb: "fnet_netbuf_from_buf main_pool dr s data False = Some (s1, [n])"
  shows "uses_freed s1 fls n \<Longrightarrow> fnet_ip4_reassembly main_pool s1 fls [n] = None"
    "\<not> uses_freed s1 fls n \<Longrightarrow> \<exists>s2 fls' c. fnet_ip4_reassembly main_pool s1 fls [n] = Some (s2, fls', c)
       \<and> ip4_world b N (s2, fls', if c = [] then cs else c # cs, R \<union> positions data)"
proof -
  let ?L = "concat cs" and ?R = "R \<union> positions data"
  have del: "\<forall>c\<in>set cs. \<exists>key. datagram_ok True (received R) key (chain_bytes s c)"
    using w by (simp add: ip4_world_def)
  note pw = packet_in_world [OF w d fb]
  note re = main.reassembly_ok [OF pw(1,4,5), unfolded pw(2,3), OF pw(6,7)]
  have del1: "\<forall>c\<in>set cs. \<exists>key. datagram_ok True (received ?R) key (chain_bytes s1 c)"
    by (rule same_bytes_delivered [OF del same_bytes_mono [OF pw(8)]]) auto
  show "fnet_ip4_reassembly main_pool s1 fls [n] = None" if "uses_freed s1 fls n" using re(1) that by simp
  assume nf: "\<not> uses_freed s1 fls n"
  obtain s2 fls' c where r: "fnet_ip4_reassembly main_pool s1 fls [n] = Some (s2, fls', c)"
    "ip4_inv (mempool_owns b N) {} True (received ?R) s2 fls' (c @ ?L)" "same_bytes s1 s2 ?L"
    "c \<noteq> [] \<longrightarrow> datagram_ok True (received ?R) (key_of data) (chain_bytes s2 c)"
    using re(2) [OF nf] by blast
  have old: "\<forall>c\<in>set cs. \<exists>key. datagram_ok True (received ?R) key (chain_bytes s2 c)"
    by (rule same_bytes_delivered [OF del1 r(3)])
  let ?cs = "if c = [] then cs else c # cs"
  have "\<exists>key. datagram_ok True (received ?R) key (chain_bytes s2 d)" if "d \<in> set ?cs" for d
  proof (cases "d \<in> set cs")
    case True
    then show ?thesis using old by blast
  next
    case False
    then have "c \<noteq> []" "d = c" using that by (auto split: if_splits)
    then show ?thesis using r(4) by blast
  qed
  then have "ip4_world b N (s2, fls', ?cs, ?R)"
    using r(2) unfolding ip4_world_def prod.case by (cases "c = []") simp_all
  then show "\<exists>s2 fls' c. fnet_ip4_reassembly main_pool s1 fls [n] = Some (s2, fls', c)
      \<and> ip4_world b N (s2, fls', if c = [] then cs else c # cs, ?R)" using r(1) by blast
qed

text \<open>Every step keeps the world consistent.\<close>

lemma world_delivered:
  "ip4_world b N (s, fls, cs, R) \<Longrightarrow> \<forall>c\<in>set cs. \<exists>key. datagram_ok True (received R) key (chain_bytes s c)"
  by (simp add: ip4_world_def)

lemma world_inv: "ip4_world b N (s, fls, cs, R) \<Longrightarrow> ip4_inv (mempool_owns b N) {} True (received R) s fls (concat cs)"
  by (simp add: ip4_world_def)

lemma worldI:
  "ip4_inv (mempool_owns b N) {} True (received R) s fls (concat cs) \<Longrightarrow>
     \<forall>c\<in>set cs. \<exists>key. datagram_ok True (received R) key (chain_bytes s c) \<Longrightarrow> ip4_world b N (s, fls, cs, R)"
  by (simp add: ip4_world_def)

lemma ip4_world_step:
  assumes "ip4_world b N st" "ip4_step dr st st'"
  shows "ip4_world b N st'"
  using assms(2,1)
proof cases
  case (ip4_receive data s s1 n fls s2 fls' c cs R)
  note re = ip4_receive_ok [OF assms(1) [unfolded ip4_receive(1)] ip4_receive(3,4)]
  have "\<not> uses_freed s1 fls n" using re(1) ip4_receive(5) by auto
  then show ?thesis using re(2) ip4_receive(2,5) by auto
next
  case (ip4_no_memory data s s1 fls cs R)
  then show ?thesis using no_packet_in_world [OF assms(1) [unfolded ip4_no_memory(1)]] by simp
next
  case (ip4_tick s fls s1 fls' cs R)
  note w = assms(1) [unfolded ip4_tick(1)]
  from main.ip4_timer_ok [OF world_inv [OF w]] ip4_tick(3)
  have "ip4_inv (mempool_owns b N) {} True (received R) s1 fls' (concat cs)" "same_bytes s s1 (concat cs)" by auto
  then show ?thesis unfolding ip4_tick(2) by (intro worldI same_bytes_delivered [OF world_delivered [OF w]])
next
  case (ip4_drain_step s fls s1 cs R)
  note w = assms(1) [unfolded ip4_drain_step(1)]
  from main.drain_frags_ok [OF world_inv [OF w]] ip4_drain_step(3)
  have "ip4_inv (mempool_owns b N) {} True (received R) s1 [] (concat cs)" "same_bytes s s1 (concat cs)"
    by (auto simp: ip4_inv_Nil)
  then show ?thesis unfolding ip4_drain_step(2) by (intro worldI same_bytes_delivered [OF world_delivered [OF w]])
next
  case (ip4_consume s c s1 fls cs cs' R)
  note w = assms(1) [unfolded ip4_consume(1)]
  let ?F = "frag_nbs (all_frags fls)" and ?L = "concat (cs @ cs')"
  note inv = world_inv [OF w]
  have "nb_inv (mempool_owns b N) (fl_addr ` set fls \<union> {}) s (c @ ?F @ ?L)"
    by (rule nb_inv_permute [OF ip4_inv_mem [OF inv]]) simp
  from main.free_chain_ok [OF this] ip4_consume(3)
  have s1: "nb_inv (mempool_owns b N) (fl_addr ` set fls \<union> {}) s1 (?F @ ?L)" "same_bytes s s1 (?F @ ?L)" by auto
  have "fr_data ` set (all_frags fls) \<inter> nb_data ` set ?L = {}" using inv by (auto simp: ip4_inv_def)
  then have "ip4_inv (mempool_owns b N) {} True (received R) s1 fls ?L"
    using main.ip4_inv_frame [OF inv s1(1) same_bytes_mono [OF s1(2)]] by auto
  moreover have "\<forall>c\<in>set (cs @ cs'). \<exists>key. datagram_ok True (received R) key (chain_bytes s1 c)"
    by (rule same_bytes_delivered [OF _ same_bytes_mono [OF s1(2)]]) (use world_delivered [OF w] in auto)
  ultimately show ?thesis unfolding ip4_consume(2) by (rule worldI)
qed

lemma ip4_world_reachable: "ip4_reachable dr st\<^sub>0 st \<Longrightarrow> ip4_world b N st\<^sub>0 \<Longrightarrow> ip4_world b N st"
  by (induction rule: ip4_reachable.induct) (blast intro: ip4_world_step)+

lemma ip4_world_init:
  assumes "fnet_heap_init mem heap_ptr heap_size = Some mp" "27 \<le> heap_size" "heap_ptr + heap_size < 4294967296"
  obtains b N where "ip4_world b N (\<lparr>pool = mp, bufs = Map.empty, raw = r\<rparr>, [], [], {})"
proof -
  obtain b N where "nb_clients b N (\<lparr>pool = mp, bufs = Map.empty, raw = r\<rparr>, [])"
    using nb_clients_init [OF assms] by metis
  then have "ip4_world b N (\<lparr>pool = mp, bufs = Map.empty, raw = r\<rparr>, [], [], {})"
    by (simp add: ip4_world_def ip4_inv_Nil nb_clients_def)
  then show ?thesis by (rule that)
qed

section \<open>A run\<close>

text \<open>A pool that is one free block of \<open>k\<close> units and blocks in use behind it.\<close>

definition one_free :: "mempool \<Rightarrow> nat \<Rightarrow> bool" where
  "one_free p k = (free_ptr p = 4104 \<and> unit_size p = 8 \<and> heap p 4104 = \<lparr>u_size = k, u_ptr = 4104\<rparr>)"

lemma malloc_one:
  assumes "one_free p k" "nunits_of 8 n < k" "k \<le> 127" "0 < nunits_of 8 n"
  shows "\<exists>p'. fnet_mempool_malloc p n = Some (p', 4112 + 8 * (k - nunits_of 8 n)) \<and> one_free p' (k - nunits_of 8 n)"
proof -
  have "best_find (heap p) 4104 (nunits_of 8 n) 4104 4104 4104 0 = Some (4104, 4104)"
    using assms(1,2) by (subst best_find.simps) (simp add: one_free_def)
  then show ?thesis
    using assms by (auto simp: fnet_mempool_malloc_def one_free_def Let_def)
qed

lemma from_buf_one:
  assumes "one_free (pool s) k" "nunits_of 8 (length data + 4) + 5 < k" "k \<le> 127" "0 < nunits_of 8 (length data + 4)"
    "length data + 4 < 4294967296"
  defines "u \<equiv> nunits_of 8 (length data + 4)"
  shows "\<exists>s' n. fnet_netbuf_from_buf main_pool dr s data False = Some (s', [n]) \<and> one_free (pool s') (k - 5 - u)"
proof -
  have five: "nunits_of 8 28 = 5" by (simp add: nunits_of_def)
  obtain p where p: "fnet_mempool_malloc (pool s) 28 = Some (p, 4112 + 8 * (k - 5))" "one_free p (k - 5)"
    using malloc_one [of "pool s" k 28] assms(1-3) by (auto simp: five)
  obtain q where q: "fnet_mempool_malloc p (length data + 4) = Some (q, 4112 + 8 * (k - 5 - u))" "one_free q (k - 5 - u)"
  proof -
    have "u < k - 5" "k - 5 \<le> 127" "0 < u" using assms by (simp_all add: u_def)
    then show thesis using malloc_one [OF p(2), of "length data + 4"] that unfolding u_def by blast
  qed
  show ?thesis
    using p q assms(5)
    by (simp add: fnet_netbuf_from_buf_def fnet_netbuf_new_def malloc_drain_def fnet_malloc_netbuf_def
        sizeof_netbuf_def new_data_def write_data_def raw_bytes_def)
qed

definition sample_part :: "nat \<Rightarrow> bool \<Rightarrow> u8 list \<Rightarrow> u8 list" where
  "sample_part offset mf payload =
     ip4_bytes \<lparr>ih_version__header_length = 0x45, ih_tos = 0, ih_total_length = fnet_htons (of_nat (20 + length payload)),
       ih_id = 7, ih_flags_fragment_offset = fnet_htons (of_nat (offset div 8)) OR (if mf then fnet_htons FNET_IP4_MF else 0),
       ih_ttl = 64, ih_protocol = 17, ih_checksum = 0, ih_source_addr = 0x0100000A, ih_desination_addr = 0x0200000A\<rparr>
     @ payload"

definition sample_key :: datagram_key where
  "sample_key = (7, 17, 0x0100000A, 0x0200000A)"

lemma sample_part_parse:
  "frag_hdr (sample_part i m xs) = 20" "key_of (sample_part i m xs) = sample_key" "ih_tos (ip4_of (sample_part i m xs)) = 0"
  "ih_total_length (ip4_of (sample_part i m xs)) = fnet_htons (of_nat (20 + length xs))"
  "ih_flags_fragment_offset (ip4_of (sample_part i m xs)) =
     (fnet_htons (of_nat (i div 8)) OR (if m then fnet_htons FNET_IP4_MF else 0))"
  "length (sample_part i m xs) = 20 + length xs" "drop 20 (sample_part i m xs) = xs"
  by (simp_all add: frag_hdr_def key_of_def hdr_key_def sample_key_def sample_part_def ip4_of_bytes nth_append
      header_length_of_def) (simp_all add: ip4_bytes_def)

definition sample_part0 :: "u8 list" where "sample_part0 = sample_part 0 True [1, 2, 3, 4, 5, 6, 7, 8]"

definition sample_part1 :: "u8 list" where "sample_part1 = sample_part 8 False [9, 10, 11, 12]"

lemma sample_start: "frag_start sample_part0 = 0" "frag_start sample_part1 = 8"
  by (simp_all add: frag_start_def sample_part0_def sample_part1_def sample_part_parse fnet_htons_def FNET_IP4_MF_def)

lemma sample_mf:
  "ih_flags_fragment_offset (ip4_of sample_part0) AND fnet_htons FNET_IP4_MF \<noteq> 0"
  "ih_flags_fragment_offset (ip4_of sample_part1) AND fnet_htons FNET_IP4_MF = 0"
  by (simp_all add: sample_part0_def sample_part1_def sample_part_parse fnet_htons_def FNET_IP4_MF_def)

lemma sample_fragment_data: "fragment_data sample_part0" "fragment_data sample_part1"
  using sample_start
  by (simp_all add: fragment_data_def sample_part0_def sample_part1_def sample_part_parse fnet_htons_def)

section \<open>The packet that covers the next one\<close>

text \<open>
  The bytes from \<open>offset\<close> to \<open>offset + len\<close> go on where the fragment before them ends, or
  overlap it, and reach to the end of the fragment behind them.
\<close>

definition frag_end :: "frag \<Rightarrow> nat" where
  "frag_end f = fr_offset f + fr_total_length f"

definition covers_next :: "frag list \<Rightarrow> nat \<Rightarrow> nat \<Rightarrow> bool" where
  "covers_next fs offset len =
     (\<exists>p<length fs. 0 < p \<and> (\<forall>i<p. fr_offset (fs ! i) \<le> offset) \<and> offset < fr_offset (fs ! p)
        \<and> offset \<le> frag_end (fs ! (p - 1)) \<and> frag_end (fs ! (p - 1)) < offset + len
        \<and> frag_end (fs ! p) \<le> offset + len)"

lemma frag_find_unique:
  assumes "0 < p" "p < length fs" "\<forall>i<p. fr_offset (fs ! i) \<le> offset" "offset < fr_offset (fs ! p)"
  shows "frag_find fs 0 offset = p"
proof -
  consider j where "j < length fs" "frag_find fs 0 offset = j" "offset < fr_offset (fs ! j)" "\<forall>m<j. fr_offset (fs ! m) \<le> offset"
    | "\<forall>f\<in>set fs. fr_offset f \<le> offset"
    using frag_find_cases [of fs 0 offset] by auto
  then show ?thesis
  proof cases
    case 1
    have "\<not> j < p" "\<not> p < j" using 1(3,4) assms(3,4) by (meson not_le)+
    then show ?thesis using 1(2) by simp
  next
    case 2
    then show ?thesis using assms(2,4) nth_mem by (meson not_le)
  qed
qed

lemma put_covers:
  assumes fs: "\<forall>f\<in>set fs. frag_end f \<le> 65535" and cur: "0 < fr_total_length cur" "frag_end cur \<le> 65535"
  shows "put_frag fs cur = Uses_freed \<longleftrightarrow> covers_next fs (fr_offset cur) (fr_total_length cur)"
proof -
  define p where "p = frag_find fs 0 (fr_offset cur)"
  show ?thesis
  proof (cases "p = 0")
    case True
    then have "\<not> covers_next fs (fr_offset cur) (fr_total_length cur)"
      using frag_find_unique [of _ fs "fr_offset cur"] unfolding covers_next_def p_def by force
    then show ?thesis using True by (simp add: put_frag_def Let_def p_def)
  next
    case False
    then have p: "0 < p" "p < length fs" "fr_offset cur < fr_offset (fs ! p)" "\<forall>i<p. fr_offset (fs ! i) \<le> fr_offset cur"
      using frag_find_pos [of fs "fr_offset cur" p] by (simp_all add: p_def)
    let ?f = "fs ! (p - 1)" and ?g = "fs ! p"
    have b: "frag_end ?f \<le> 65535" using fs p(1,2) by simp
    have cov: "covers_next fs (fr_offset cur) (fr_total_length cur) \<longleftrightarrow>
        fr_offset cur \<le> frag_end ?f \<and> frag_end ?f < frag_end cur \<and> frag_end ?g \<le> frag_end cur"
      unfolding covers_next_def frag_end_def [of cur, symmetric]
      using p frag_find_unique [of _ fs "fr_offset cur"] unfolding p_def by blast
    show ?thesis
    proof (cases "fr_offset cur \<le> frag_end ?f")
      case True
      define i where "i = frag_end ?f - fr_offset cur"
      have "(int (fr_offset ?f) + int (fr_total_length ?f) - int (fr_offset cur)) mod 4294967296 = int i"
        using True b unfolding i_def frag_end_def by (subst mod_pos_pos_trivial) linarith+
      then have g: "gap fs p cur = i" using p(1) by (simp add: gap_def)
      have lt: "i < fr_total_length cur \<longleftrightarrow> frag_end ?f < frag_end cur"
        using True unfolding i_def frag_end_def [of cur] by linarith
      show ?thesis
      proof (cases "i < fr_total_length cur")
        case l: True
        let ?c = "if i \<noteq> 0 then frag_advance i cur else cur"
        have "fr_offset cur + i < 65536" using l cur(2) unfolding frag_end_def by linarith
        then have "fr_offset ?c + fr_total_length ?c = frag_end cur"
          using l by (simp add: frag_end_def)
        then have "put_frag fs cur = Uses_freed \<longleftrightarrow> frag_end ?g \<le> frag_end cur"
          using l p(1) unfolding put_frag_def Let_def p_def [symmetric] g
          by (simp add: frag_end_def [of ?g] del: frag_advance_simps)
        then show ?thesis using True l lt cov by simp
      next
        case l: False
        then have "i \<noteq> 0" using cur(1) by linarith
        then have "put_frag fs cur = Dropped"
          using l p(1) unfolding put_frag_def Let_def p_def [symmetric] g by simp
        then show ?thesis using l lt cov by simp
      qed
    next
      case far: False
      have "(int (fr_offset ?f) + int (fr_total_length ?f) - int (fr_offset cur)) mod 4294967296
          = int (frag_end ?f) - int (fr_offset cur) + 4294967296"
      proof -
        let ?x = "int (fr_offset ?f) + int (fr_total_length ?f) - int (fr_offset cur)"
        have "?x mod 4294967296 = (?x + 4294967296) mod 4294967296" by simp
        also have "\<dots> = ?x + 4294967296"
          using far cur unfolding frag_end_def by (intro mod_pos_pos_trivial) linarith+
        finally show ?thesis by (simp add: frag_end_def)
      qed
      then have eq: "gap fs p cur = nat (int (frag_end ?f) - int (fr_offset cur) + 4294967296)"
        using p(1) by (simp add: gap_def)
      have "4294901761 \<le> int (frag_end ?f) - int (fr_offset cur) + 4294967296"
        using cur(2) unfolding frag_end_def [of cur] by linarith
      then have "gap fs p cur \<ge> 4294901761" unfolding eq by linarith
      then show ?thesis using far cur unfolding cov by (simp add: put_frag_def Let_def frag_end_def flip: p_def)
    qed
  qed
qed

lemma list_index_find: "find Q xs = map_option (nth xs) (list_index Q xs)"
  by (induction xs) (auto simp: option.map_comp comp_def)

lemma uses_freed_covers:
  assumes "ip4_inv owns X True K s fls L" "0 < nb_length n - frag_hdr (nb_bytes s n)"
    "frag_start (nb_bytes s n) + (nb_length n - frag_hdr (nb_bytes s n)) \<le> 65535"
  shows "uses_freed s fls n \<longleftrightarrow>
    (case find (\<lambda>fl. fl_key fl = key_of (nb_bytes s n)) fls of
       None \<Rightarrow> False
     | Some fl \<Rightarrow> covers_next (fl_frags fl) (frag_start (nb_bytes s n)) (nb_length n - frag_hdr (nb_bytes s n)))"
proof (cases "list_index (\<lambda>fl. fl_key fl = key_of (nb_bytes s n)) fls")
  case None
  then show ?thesis by (simp add: uses_freed_def list_index_find)
next
  case (Some k)
  then have "fls ! k \<in> set fls" using list_index_Some by fastforce
  then have "\<forall>f\<in>set (fl_frags (fls ! k)). frag_ok True (K (fl_key (fls ! k))) s f"
    using assms(1) by (simp add: ip4_inv_def)
  then have "\<forall>f\<in>set (fl_frags (fls ! k)). frag_end f \<le> 65535"
    by (auto simp: frag_ok_def frag_end_def)
  moreover have "frag_end (frag_of s n) \<le> 65535" using assms(3) by (simp add: frag_end_def)
  ultimately show ?thesis
    using put_covers [of "fl_frags (fls ! k)" "frag_of s n"] assms(2) Some
    by (simp add: uses_freed_def list_index_find)
qed

section \<open>Two packets\<close>

lemma sample_ip4_world: "ip4_world 4104 127 (sample_mem, [], [], {})"
proof -
  have "rep sample_heap 4104 [Free 127]" by (simp add: sample_heap_def rep_def ring_def)
  then have "pool_inv 8 4104 127 (sample_heap, Map.empty)"
    unfolding pool_inv_def by (intro exI [of _ "[Free 127]"]) (simp add: sample_heap_def)
  then show ?thesis
    by (auto simp: ip4_world_def ip4_inv_Nil nb_inv_def mem_ok_def mempool_owns_def sample_mem_def)
qed

lemma sample_first:
  "\<exists>s1 n0 s2 a. fnet_netbuf_from_buf main_pool Some sample_mem sample_part0 False = Some (s1, [n0])
     \<and> nb_bytes s1 n0 = sample_part0 \<and> nb_length n0 = 28 \<and> one_free (pool s2) 113
     \<and> fnet_ip4_reassembly main_pool s1 [] [n0] = Some (s2, [new_list a s1 n0], [])
     \<and> ip4_step Some (sample_mem, [], [], {}) (s2, [new_list a s1 n0], [], positions sample_part0)
     \<and> ip4_world 4104 127 (s2, [new_list a s1 n0], [], positions sample_part0)"
proof -
  have free: "one_free (pool sample_mem) 127" by (simp add: one_free_def sample_mem_def sample_heap_def)
  have u: "nunits_of 8 (length sample_part0 + 4) = 5" "nunits_of 8 24 = 4" "length sample_part0 = 28"
    by (simp_all add: nunits_of_def sample_part0_def sample_part_parse)
  obtain s1 n0 where fb: "fnet_netbuf_from_buf main_pool Some sample_mem sample_part0 False = Some (s1, [n0])"
      "one_free (pool s1) 117"
    using from_buf_one [OF free, of sample_part0 Some] u by auto
  note pw = packet_in_world [OF sample_ip4_world sample_fragment_data(1) fb(1)]
  obtain p where p: "fnet_mempool_malloc (pool s1) 24 = Some (p, 5016)" "one_free p 113"
    using malloc_one [OF fb(2), of 24] u by auto
  then have mem: "fnet_malloc_netbuf main_pool s1 24 = Some (s1\<lparr>pool := p\<rparr>, 5016)" by (simp add: fnet_malloc_netbuf_def)
  have nc: "\<not> complete [frag_of s1 n0]"
    using sample_mf(1) pw(2) by (simp add: complete_def frag_of_def Let_def or_one_odd)
  have new: "\<forall>fl\<in>set []. fl_key fl \<noteq> key_of (nb_bytes s1 n0)" and a: "(5016 :: nat) \<noteq> 0" by simp_all
  have small: "fr_offset (frag_of s1 n0) + fr_total_length (frag_of s1 n0) \<le> 65535" using pw(2,3,7) by simp
  have inv: "ip4_inv (mempool_owns 4104 127) {} True (received (positions sample_part0)) s1 [] (n0 # [])"
    using pw(1) by simp
  have cont: "content_ok (received (positions sample_part0) (key_of (nb_bytes s1 n0))) (frag_start (nb_bytes s1 n0))
      (packet_payload s1 n0)"
    using pw(6) by (simp add: packet_payload_def pw(2))
  have priv: "nb_data n0 \<notin> nb_data ` set []" by simp
  have r: "fnet_ip4_reassembly main_pool s1 [] [n0] = Some (s1\<lparr>pool := p\<rparr>, [new_list 5016 s1 n0], [])"
    by (rule main.arrive_first(1) [OF inv pw(4) priv new mem a small nc cont])
  have st: "ip4_step Some (sample_mem, [], [], {}) (s1\<lparr>pool := p\<rparr>, [new_list 5016 s1 n0], [], positions sample_part0)"
    using ip4_receive [OF sample_fragment_data(1) fb(1) r, of "[]" "{}"] by simp
  show ?thesis
    using fb(1) pw(2,3) u(3) p(2) r st ip4_world_step [OF sample_ip4_world st]
    by (intro exI [of _ s1] exI [of _ n0] exI [of _ "s1\<lparr>pool := p\<rparr>"] exI [of _ 5016]) simp
qed

lemma sample_first_frag:
  assumes "nb_bytes s n = sample_part0" "nb_length n = 28"
  shows "fr_offset (frag_of s n) = 0" "fr_total_length (frag_of s n) = 8" "fr_mf (frag_of s n) AND 1 \<noteq> 0"
    "fl_key (new_list a s n) = sample_key" "fl_frags (new_list a s n) = [frag_of s n]"
  using assms sample_start sample_mf
  by (simp_all add: frag_of_def Let_def or_one_odd new_list_def fl_key_def)
    (simp_all add: sample_part0_def sample_part_parse sample_key_def flip: key_of_def hdr_key_def)

definition sample_pieces :: "frag \<Rightarrow> frag \<Rightarrow> nat \<Rightarrow> frag" where
  "sample_pieces f g j = (if j = 0 then f else if j = 1 then g else g\<lparr>fr_offset := 16, fr_total_length := 4, fr_mf := 0\<rparr>)"

lemma sample_pieces_ok:
  assumes "fr_offset f = 0" "fr_total_length f = 8" "fr_mf f AND 1 \<noteq> 0" "fr_offset g = 8"
  shows "fr_total_length g = 4 \<Longrightarrow> fr_mf g AND 1 = 0 \<Longrightarrow> pieces 2 (sample_pieces f g)"
    "fr_total_length g = 8 \<Longrightarrow> fr_mf g AND 1 \<noteq> 0 \<Longrightarrow> pieces 3 (sample_pieces f g)"
  using assms by (auto simp: pieces_def sample_pieces_def less_Suc_eq numeral_2_eq_2 numeral_3_eq_3)

text \<open>The second packet of the same datagram, up to the call of the reassembly.\<close>

lemma sample_second:
  assumes "ip4_world 4104 127 (s2, [new_list a s1 n0], [], R)" "nb_bytes s1 n0 = sample_part0" "nb_length n0 = 28"
    and "one_free (pool s2) 113" "d \<in> {sample_part1, sample_part 8 True [21, 22, 23, 24, 25, 26, 27, 28]}"
  shows "\<exists>s3 n1. fnet_netbuf_from_buf main_pool Some s2 d False = Some (s3, [n1]) \<and> fragment_data d
     \<and> one_free (pool s3) 103 \<and> nb_bytes s3 n1 = d \<and> nb_length n1 = length d"
proof -
  have d: "length d = 24 \<or> length d = 28" "fragment_data d"
    using assms(5) sample_fragment_data(2)
    by (auto simp: sample_part1_def sample_part_parse fragment_data_def fnet_htons_def frag_start_def FNET_IP4_MF_def)
  then have u: "nunits_of 8 (length d + 4) = (if length d = 24 then 5 else 5)" by (auto simp: nunits_of_def)
  obtain s3 n1 where fb: "fnet_netbuf_from_buf main_pool Some s2 d False = Some (s3, [n1])" "one_free (pool s3) 103"
    using from_buf_one [OF assms(4), of d Some] u d(1) by auto
  show ?thesis using fb packet_in_world [OF assms(1) d(2) fb(1)] d(2) by auto
qed

lemma sample_mf_more: "ih_flags_fragment_offset (ip4_of (sample_part 8 True xs)) AND fnet_htons FNET_IP4_MF \<noteq> 0"
  by (simp add: sample_part_parse fnet_htons_def FNET_IP4_MF_def)

lemma sample_start_8: "frag_start (sample_part 8 m xs) = 8"
  by (simp add: frag_start_def sample_part_parse fnet_htons_def FNET_IP4_MF_def)

text \<open>A complete datagram out of two packets.\<close>

lemma sample_datagram:
  "\<exists>s c. ip4_reachable Some (sample_mem, [], [], {}) (s, [], [c], positions sample_part0 \<union> positions sample_part1)"
proof -
  obtain s1 :: "mempool nbs" and n0 s2 a where 1: "nb_bytes s1 n0 = sample_part0" "nb_length n0 = 28" "one_free (pool s2) 113"
    "ip4_step Some (sample_mem, [], [], {}) (s2, [new_list a s1 n0], [], positions sample_part0)"
    "ip4_world 4104 127 (s2, [new_list a s1 n0], [], positions sample_part0)"
    using sample_first by blast
  obtain s3 n1 where 2: "fnet_netbuf_from_buf main_pool Some s2 sample_part1 False = Some (s3, [n1])"
    "nb_bytes s3 n1 = sample_part1" "nb_length n1 = length sample_part1"
    using sample_second [OF 1(5,1,2,3), of sample_part1] by blast
  let ?R = "positions sample_part0 \<union> positions sample_part1"
  let ?F = "sample_pieces (frag_of s1 n0) (frag_of s3 n1)" and ?fl = "new_list a s1 n0"
  note pw = packet_in_world [OF 1(5) sample_fragment_data(2) 2(1)]
  note f = sample_first_frag [OF 1(1,2)]
  have inv: "ip4_inv (mempool_owns 4104 127) {} True (received ?R) s3 [?fl] (n1 # [])"
    using pw(1) by simp
  have key: "fl_key ?fl = key_of (nb_bytes s3 n1)" by (simp add: f(4) 2(2) sample_part1_def sample_part_parse)
  have cont: "content_ok (received ?R (fl_key ?fl)) (frag_start (nb_bytes s3 n1)) (packet_payload s3 n1)"
    using pw(6) unfolding key packet_payload_def 2(2) .
  have g: "fr_offset (frag_of s3 n1) = 8" "fr_total_length (frag_of s3 n1) = 4" "fr_mf (frag_of s3 n1) AND 1 = 0"
    using sample_start(2) sample_mf(2)
    by (simp_all add: 2(2,3) frag_of_def Let_def) (simp_all add: sample_part1_def sample_part_parse)
  note pc = sample_pieces_ok(1) [OF f(1,2,3) g(1,2,3)]
  have fl: "fl_frags ?fl = map ?F [0]" by (simp add: f(5) sample_pieces_def)
  have priv: "nb_data n1 \<notin> nb_data ` set []" by simp
  obtain s4 c where r: "fnet_ip4_reassembly main_pool s3 [?fl] [n1] = Some (s4, [], c)" "c \<noteq> []"
    using main.arrive_step(3) [OF inv pw(4) priv key cont pc fl, of 1]
    by (auto simp: sample_pieces_def accepted_def numeral_2_eq_2)
  have "ip4_step Some (s2, [?fl], [], positions sample_part0) (s4, [], [c], ?R)"
    using ip4_receive [OF sample_fragment_data(2) 2(1) r(1), of "[]"] r(2) by simp
  then show ?thesis using ip4_next [OF ip4_next [OF ip4_start 1(4)]] by blast
qed

lemma datagram_okE:
  assumes "datagram_ok True K key xs"
  obtains hdr payload where "xs = hdr @ payload" "20 \<le> length hdr" "length payload \<le> 65535"
    "length hdr = header_length_of (xs ! 0)" "hdr_key (ip4_of xs) = key" "content_ok (K key) 0 payload"
proof -
  obtain hdr payload where h: "xs = hdr @ payload \<and> 20 \<le> length hdr \<and> content_ok (K key) 0 payload
      \<and> (True \<longrightarrow> length hdr = header_length_of (xs ! 0) \<and> hdr_key (ip4_of xs) = key \<and> length payload \<le> 65535)"
    using assms unfolding datagram_ok_def by (elim exE) (rule that)
  then have "length hdr = header_length_of (xs ! 0) \<and> hdr_key (ip4_of xs) = key \<and> length payload \<le> 65535"
    by (elim conjE) (erule mp, rule TrueI)
  with h show thesis by (elim conjE) (rule that)
qed

section \<open>Properties\<close>

text \<open>
  C40. Reassembly never makes up data. Whatever packets arrive, in whatever order and with whatever
  overlaps, and however the timer, the drain and the readers come between them: a datagram that is handed
  over is a header of the length that its first byte gives, followed by at most 65535 bytes, each of which
  some packet of this datagram (by identification, protocol and addresses) carried at just this position.
\<close>

theorem reassembly_integrity:
  assumes "fnet_heap_init mem heap_ptr heap_size = Some mp" "27 \<le> heap_size" "heap_ptr + heap_size < 4294967296"
    and "ip4_reachable dr (\<lparr>pool = mp, bufs = Map.empty, raw = r\<rparr>, [], [], {}) (s, fls, cs, R)" "c \<in> set cs"
  shows "\<exists>hdr payload. chain_bytes s c = hdr @ payload \<and> length hdr = header_length_of (hdr ! 0) \<and> 20 \<le> length hdr
     \<and> length payload \<le> 65535 \<and> (\<forall>k<length payload. (key_of hdr, k, payload ! k) \<in> R)"
proof -
  obtain b N where "ip4_world b N (s, fls, cs, R)"
    using ip4_world_init [OF assms(1-3)] ip4_world_reachable [OF assms(4)] by metis
  then obtain key where "datagram_ok True (received R) key (chain_bytes s c)"
    using world_delivered assms(5) by blast
  then obtain hdr payload where d: "chain_bytes s c = hdr @ payload" "20 \<le> length hdr" "length payload \<le> 65535"
    "length hdr = header_length_of (chain_bytes s c ! 0)" "hdr_key (ip4_of (chain_bytes s c)) = key"
    "content_ok (received R key) 0 payload"
    by (rule datagram_okE)
  have "ip4_of (hdr @ payload) = ip4_of hdr"
    using ip4_of_take [of "hdr @ payload"] ip4_of_take [of hdr] d(2) by simp
  then have "key_of hdr = key" using d(5) unfolding d(1) key_of_def by simp
  moreover have "length hdr = header_length_of (hdr ! 0)"
  proof -
    have "0 < length hdr" using d(2) by linarith
    then have "(hdr @ payload) ! 0 = hdr ! 0" by (rule nth_append_left)
    then show ?thesis using d(4) unfolding d(1) by (rule subst)
  qed
  moreover have "(key, k, payload ! k) \<in> R" if "k < length payload" for k
    using d(6) that d(3) by (simp add: content_ok_def)
  ultimately show ?thesis using d(1-3) by blast
qed

lemma reassembly_integrity_witness:
  "\<exists>s c. ip4_reachable Some (sample_mem, [], [], {}) (s, [], [c], positions sample_part0 \<union> positions sample_part1)
     \<and> (\<exists>hdr payload. chain_bytes s c = hdr @ payload \<and> length hdr = header_length_of (hdr ! 0) \<and> 20 \<le> length hdr
        \<and> length payload \<le> 65535
        \<and> (\<forall>k<length payload. (key_of hdr, k, payload ! k) \<in> positions sample_part0 \<union> positions sample_part1))"
proof -
  obtain s c where r: "ip4_reachable Some (sample_mem, [], [], {}) (s, [], [c], positions sample_part0 \<union> positions sample_part1)"
    using sample_datagram by blast
  show ?thesis
    using r reassembly_integrity [OF sample_heap_init _ _ r [unfolded sample_mem_def], of c] by auto
qed




lemma sample_two_packets:
  "\<exists>(s :: mempool nbs) n0 n1. nb_inv (mempool_owns 4104 127) {} s [n1, n0] \<and> nb_data n1 \<noteq> nb_data n0 \<and> one_free (pool s) 107
     \<and> nb_bytes s n0 = sample_part0 \<and> nb_length n0 = 28 \<and> nb_total_length n0 = 28
     \<and> nb_bytes s n1 = sample_part1 \<and> nb_length n1 = 24 \<and> nb_total_length n1 = 24"
proof -
  have len: "length sample_part0 = 28" "length sample_part1 = 24"
    by (simp_all add: sample_part0_def sample_part1_def sample_part_parse)
  have u: "nunits_of 8 32 = 5" "nunits_of 8 28 = 5" by (simp_all add: nunits_of_def)
  have i0: "nb_inv (mempool_owns 4104 127) {} sample_mem []"
    using sample_ip4_world by (simp add: ip4_world_def ip4_inv_Nil)
  have free: "one_free (pool sample_mem) 127" by (simp add: one_free_def sample_mem_def sample_heap_def)
  obtain s1 n0 where 1: "fnet_netbuf_from_buf main_pool Some sample_mem sample_part0 False = Some (s1, [n0])"
      "one_free (pool s1) 117"
    using from_buf_one [OF free, of sample_part0 Some] u len by auto
  have f0: "nb_inv (mempool_owns 4104 127) {} s1 [n0]" "nb_length n0 = 28" "nb_total_length n0 = 28" "nb_bytes s1 n0 = sample_part0"
    using main.from_buf_fresh [OF i0, of sample_part0 Some] 1(1) len by auto
  obtain s n1 where 2: "fnet_netbuf_from_buf main_pool Some s1 sample_part1 False = Some (s, [n1])" "one_free (pool s) 107"
    using from_buf_one [OF 1(2), of sample_part1 Some] u len by auto
  have f1: "nb_inv (mempool_owns 4104 127) {} s [n1, n0]" "nb_length n1 = 24" "nb_total_length n1 = 24"
      "nb_bytes s n1 = sample_part1" "nb_data n1 \<noteq> nb_data n0" "same_bytes s1 s [n0]"
    using main.from_buf_fresh [OF f0(1), of sample_part1 Some] 2(1) len by auto
  have "nb_bytes s n0 = sample_part0" using same_bytes_chain [OF f1(6), of "[n0]"] f0(4) by simp
  with f0 f1 2(2) show ?thesis by blast
qed


end
