(* ===== verification/Fnet_Ip4_Output.thy ===== *)
theory Fnet_Ip4_Output
  imports Fnet_Ip4_Main Fnet_Netbuf_Room
begin

text \<open>
  IPv4 output with fragmentation: what the interface gets to send, against a list of fragments that is
  defined on the bytes of the datagram alone, and the way back through the reassembly.
\<close>

unbundle bit_operations_syntax

section \<open>Copies from the last net buffer\<close>

lemma ref_data_more [more_frames]: "ref_data s d = Some s' \<Longrightarrow> nbs.more s' = nbs.more s"
  by (auto simp: ref_data_def bind_eq_Some_conv)

lemma netbuf_new_more:
  "fnet_netbuf_new A dr s len False = Some (s', c) \<Longrightarrow> nbs.more s' = nbs.more s"
  by (auto simp: fnet_netbuf_new_def malloc_drain_def bind_eq_Some_conv split: if_splits
      dest!: malloc_netbuf_more free_netbuf_more)

context roomy_allocator
begin

lemma copy_last_ok:
  assumes inv: "nb_inv owns X s S" and sub: "set (pre @ [d]) \<subseteq> set S" and len: "0 < len"
    and off: "chain_length pre \<le> offset" "offset + len \<le> chain_length (pre @ [d])"
    and small: "chain_length (pre @ [d]) < 2147483648"
  shows "\<exists>s' c. fnet_netbuf_copy A dr s (pre @ [d]) offset len False = Some (s', c)
     \<and> nb_inv owns X s' (c @ S) \<and> same_bytes s s' S \<and> nbs.more s' = nbs.more s
     \<and> (c = [] \<or> (\<exists>n. c = [n] \<and> nb_bytes s' n = take len (drop offset (chain_bytes s (pre @ [d])))
          \<and> nb_length n = len \<and> nb_total_length n = len \<and> nb_data n = nb_data d))
     \<and> (\<forall>k. 0 < k \<and> room (pool s) (k + 5) \<longrightarrow> c \<noteq> [] \<and> room (pool s') k)"
proof -
  let ?D = "set (map nb_addr S) \<union> X" and ?nb = "pre @ [d]"
  obtain s1 a where s1: "fnet_malloc_netbuf A s sizeof_netbuf = Some (s1, a)" "bufs s1 = bufs s"
      "a = 0 \<Longrightarrow> mem_ok owns s1 (mset (map nb_data S)) ?D"
      "a \<noteq> 0 \<Longrightarrow> a \<notin> ?D \<and> a \<notin> dom (bufs s) \<and> mem_ok owns s1 (mset (map nb_data S)) (insert a ?D)"
    by (rule malloc_netbuf_ok [OF nb_inv_mem(1) [OF inv], of sizeof_netbuf])
      (simp add: sizeof_netbuf_def, rule that)
  have more1: "nbs.more s1 = nbs.more s" by (rule malloc_netbuf_more [OF s1(1)])
  have room1: "a \<noteq> 0 \<and> room (pool s1) k" if "0 < k \<and> room (pool s) (k + 5)" for k
    using malloc_room [OF nb_inv_mem(1) [OF inv] _ _ _ s1(1), of k] that by (simp add: sizeof_netbuf_def)
  have same1: "same_bytes s s1 S" using s1(2) by (simp add: same_bytes_def bytes_at_def)
  obtain head rest where head: "?nb = head # rest" by (cases ?nb) auto
  have all: "len \<noteq> FNET_NETBUF_COPYALL" "w32 (len + offset) = len + offset"
    using len off small by (simp_all add: FNET_NETBUF_COPYALL_def)
  have offl: "offset < chain_length ?nb" using len off by linarith
  have tl: "w32 (chain_length ?nb) = chain_length ?nb" using small by simp
  have cond: "\<not> (len \<noteq> FNET_NETBUF_COPYALL \<and> (w32 (chain_length ?nb) < w32 (len + offset) \<or> w32 (chain_length ?nb) < offset))"
    unfolding tl using all offl off(2) by simp
  show ?thesis
  proof (cases "a = 0")
    case True
    have "fnet_netbuf_copy A dr s ?nb offset len False = Some (s1, [])"
      using s1(1) all True cond [unfolded head] unfolding fnet_netbuf_copy_def head
      by (simp add: malloc_drain_def Let_def)
    moreover have "nb_inv owns X s1 S" using inv s1(2,3) True by (auto simp: nb_inv_def in_buf_def bytes_at_def)
    ultimately show ?thesis using same1 more1 room1 True by (intro exI [of _ s1] exI [of _ "[]"]) auto
  next
    case False
    with s1(4) have a: "a \<notin> ?D" "mem_ok owns s1 (mset (map nb_data S)) (insert a ?D)" by auto
    obtain pre' n r k where loc: "?nb = pre' @ n # r" "locate ?nb offset = Some (n # r, k)"
        "offset = chain_length pre' + k" "k < nb_length n" by (rule locate_ok [OF offl])
    have last: "r = []" "n = d" "pre' = pre"
    proof -
      show r: "r = []"
      proof (rule ccontr)
        assume "r \<noteq> []"
        then obtain r' where "r = r' @ [d]" "pre = pre' @ n # r'"
          using loc(1) by (cases r rule: rev_cases) auto
        then show False using off(1) loc(3,4) by simp
      qed
      show "n = d" "pre' = pre" using loc(1) r by auto
    qed
    have inn: "in_buf s d" using inv sub by (auto intro: nb_inv_in_buf)
    have lk: "len \<le> nb_length d - k" "k < nb_length d" using off(2) loc(3,4) by (auto simp: last)
    have dS: "d \<in> set S" using sub by simp
    obtain s2 where s2: "ref_data s1 (nb_data d) = Some s2" "\<And>e. bytes_at s2 e = bytes_at s e"
        "\<And>n'. nb_addr n' = a \<Longrightarrow> nb_data n' = nb_data d \<Longrightarrow> in_buf s n' \<Longrightarrow> nb_inv owns X s2 (n' # S)"
      by (rule share_ok [OF inv dS s1(2) a]) (rule that)
    define n' where "n' = \<lparr>nb_addr = a, nb_data = nb_data d, nb_off = nb_off d + k, nb_length = len,
      nb_total_length = len, nb_flags = nb_flags head\<rparr>"
    have "in_buf s n'" using inn lk by (auto simp: in_buf_def n'_def)
    then have inv2: "nb_inv owns X s2 ([n'] @ S)" using s2(3) [of n'] by (simp add: n'_def)
    have "in_buf s x" if "x \<in> set ?nb" for x using that sub inv by (blast intro: nb_inv_in_buf)
    then have "drop offset (chain_bytes s ?nb) = drop k (nb_bytes s d)"
      using drop_chain_bytes [of pre d "[]" s k] lk(2) loc(3) last by simp
    moreover have "nb_bytes s2 n' = take len (drop k (nb_bytes s d))"
      using s2(2) lk by (simp add: nb_bytes_def n'_def drop_take add.commute min_absorb1)
    ultimately have bytes: "nb_bytes s2 n' = take len (drop offset (chain_bytes s ?nb))" by simp
    have "nb_length d - k < 2147483648" "len < 2147483648" using lk off(2) small by simp_all
    then have "\<not> 0 < i32 (int len - int (nb_length d - k))" using lk by (simp add: i32_diff del: of_nat_diff)
    then have "fnet_netbuf_copy A dr s ?nb offset len False = Some (s2, [n'])"
      using s1(1) False s2(1) all(1) cond [unfolded head] loc(2) [unfolded head] unfolding fnet_netbuf_copy_def head
      by (simp add: malloc_drain_def Let_def n'_def last del: of_nat_diff copy_loop.simps)
    moreover have "same_bytes s s2 S" using s2(2) by (simp add: same_bytes_def)
    moreover have "nbs.more s2 = nbs.more s" using ref_data_more [OF s2(1)] more1 by simp
    moreover have "room (pool s2) k" if "0 < k \<and> room (pool s) (k + 5)" for k
      using room1 [OF that] ref_data_pool [OF s2(1)] by simp
    ultimately show ?thesis using inv2 bytes by (intro exI [of _ s2] exI [of _ "[n']"]) (simp add: n'_def)
  qed
qed

end

section \<open>The fragments of a datagram\<close>

text \<open>
  The header of a fragment, and the list of all fragments behind \<open>offset\<close>: the header \<open>h\<close> with
  the length, position and mark of the fragment, and \<open>F\<close> bytes each.
\<close>

definition frag_header :: "ip4_header \<Rightarrow> nat \<Rightarrow> bool \<Rightarrow> nat \<Rightarrow> ip4_header" where
  "frag_header h offset mf len =
     h\<lparr>ih_flags_fragment_offset := fnet_htons (of_nat (offset div 8)) OR (if mf then fnet_htons FNET_IP4_MF else 0),
       ih_total_length := fnet_htons (of_nat (20 + len))\<rparr>"

function frags_from :: "ip4_header \<Rightarrow> nat \<Rightarrow> nat \<Rightarrow> u8 list \<Rightarrow> u8 list list" where
  "frags_from h F offset D =
     (if F = 0 \<or> length D \<le> F then [ip4_bytes (frag_header h offset False (length D)) @ D]
      else (ip4_bytes (frag_header h offset True F) @ take F D) # frags_from h F (offset + F) (drop F D))"
  by pat_completeness auto
termination
  by (relation "measure (\<lambda>(h, F, offset, D). length D)") auto

declare frags_from.simps [simp del]

lemma set_ip4_fields:
  "take 2 (ip4_bytes h) @ store16 v @ drop 4 (ip4_bytes h) = ip4_bytes (h\<lparr>ih_total_length := v\<rparr>)"
  "take 6 (ip4_bytes h) @ store16 v @ drop 8 (ip4_bytes h) = ip4_bytes (h\<lparr>ih_flags_fragment_offset := v\<rparr>)"
  "take 10 (ip4_bytes h) @ store16 v @ drop 12 (ip4_bytes h) = ip4_bytes (h\<lparr>ih_checksum := v\<rparr>)"
  by (simp_all add: ip4_bytes_def store16_def store32_def)

lemma new_header_bytes:
  assumes "ih_version__header_length h = 0x45"
  shows "[set_header_length (ip4_bytes h ! 0) 5] @ take 5 (drop 1 (ip4_bytes h)) @ store16 v @ drop 8 (ip4_bytes h)
    = ip4_bytes (h\<lparr>ih_flags_fragment_offset := v\<rparr>)"
  using assms by (simp add: ip4_bytes_def store16_def store32_def set_header_length_def)

text \<open>Chains with a header of their own in front.\<close>

definition headed :: "netbuf list \<Rightarrow> bool" where
  "headed c = (c \<noteq> [] \<and> nb_length (hd c) = 20 \<and> total_ok c \<and> (\<forall>n\<in>set (tl c). 0 < nb_length n))"

definition own_headers :: "netbuf list list \<Rightarrow> netbuf list \<Rightarrow> bool" where
  "own_headers cs L =
     (distinct (map (nb_data \<circ> hd) cs) \<and> (nb_data \<circ> hd) ` set cs \<inter> nb_data ` set (concat (map tl cs) @ L) = {})"

lemma own_headers_snoc:
  assumes "own_headers cs L" "nb_data (hd c) \<notin> nb_data ` set (concat cs @ L)" "\<forall>c\<in>set cs. c \<noteq> []"
    and "nb_data ` set (tl c) \<subseteq> nb_data ` set (concat (map tl cs))"
    and "nb_data (hd c) \<notin> nb_data ` set (tl c)"
  shows "own_headers (cs @ [c]) L"
proof -
  have sub: "(nb_data \<circ> hd) ` set cs \<subseteq> nb_data ` set (concat cs)"
    using assms(3) by (auto intro!: imageI bexI [of _ _ "set cs"])
  have sub2: "nb_data ` set (concat (map tl cs)) \<subseteq> nb_data ` set (concat cs)"
  proof -
    have "set (tl c) \<subseteq> set c" for c :: "netbuf list" by (cases c) auto
    then show ?thesis by fastforce
  qed
  have new: "nb_data (hd c) \<notin> (nb_data \<circ> hd) ` set cs" using assms(2) subsetD [OF sub] by (metis UnI1 image_Un set_append)
  then have "distinct (map (nb_data \<circ> hd) (cs @ [c]))" using assms(1) by (simp add: own_headers_def)
  moreover have "(nb_data \<circ> hd) ` set (cs @ [c]) \<inter> nb_data ` set (concat (map tl (cs @ [c])) @ L) = {}"
  proof -
    define H T where "H = (nb_data \<circ> hd) ` set cs" and "T = nb_data ` set (concat (map tl cs))"
    have "H \<inter> (T \<union> nb_data ` set L) = {}" using assms(1) by (simp add: own_headers_def H_def T_def image_Un)
    moreover have "nb_data (hd c) \<notin> nb_data ` set (concat cs) \<union> nb_data ` set L" using assms(2) by (simp add: image_Un)
    ultimately have "insert (nb_data (hd c)) H \<inter> (T \<union> nb_data ` set (tl c) \<union> nb_data ` set L) = {}"
      using sub2 assms(4,5) unfolding T_def [symmetric] by blast
    then show ?thesis by (simp add: H_def T_def image_Un Un_assoc)
  qed
  ultimately show ?thesis by (simp add: own_headers_def)
qed

context roomy_allocator
begin

lemma frag_one_ok:
  assumes h: "ih_version__header_length h = 0x45" and len: "20 + length D \<le> 65535"
    and pre: "pre = n0 # pre'" "nb_length n0 = 20" "cs = (pre @ [d]) # made"
    and inv: "nb_inv owns X s (concat cs @ L)" and hd: "nb_bytes s n0 = ip4_bytes h"
    and bytes: "chain_bytes s (pre @ [d]) = ip4_bytes h @ D" and off: "chain_length pre \<le> 20 + offset"
    and l: "0 < l" "offset + l \<le> length D" and own: "own_headers cs L" "\<forall>c\<in>set cs. headed c"
  shows "\<exists>s' c. frag_one A dr s (pre @ [d]) 20 (20 + offset) fin l = Some (s', c)
     \<and> nb_inv owns X s' (concat cs @ (case c of None \<Rightarrow> [] | Some c \<Rightarrow> c) @ L)
     \<and> same_bytes s s' (concat cs @ L) \<and> nbs.more s' = nbs.more s
     \<and> (\<forall>c'. c = Some c' \<longrightarrow> headed c' \<and> own_headers (cs @ [c']) L
          \<and> chain_bytes s' c' = ip4_bytes (frag_header h offset (\<not> fin) l) @ take l (drop offset D))
     \<and> (\<forall>k. 0 < k \<and> room (pool s) (k + 14) \<longrightarrow> c \<noteq> None \<and> room (pool s') k)"
proof -
  let ?S = "concat cs @ L" and ?nb = "pre @ [d]"
  have twenty: "20 + 12 \<le> (4294967296 :: nat)" by simp
  obtain s1 nb where s1: "fnet_netbuf_new A dr s 20 False = Some (s1, nb)" "same_bytes s s1 ?S"
    and nb: "nb = [] \<and> nb_inv owns X s1 ?S
        \<or> (\<exists>n. nb = [n] \<and> nb_inv owns X s1 (n # ?S) \<and> nb_length n = 20 \<and> nb_total_length n = 20
             \<and> nb_off n = 0 \<and> nb_data n \<notin> nb_data ` set ?S \<and> length (bytes_at s1 (nb_data n)) = 20)"
    using netbuf_new_ok [OF inv twenty, of dr] by (elim exE conjE) (rule that)
  note more1 = netbuf_new_more [OF s1(1)]
  have room1: "nb \<noteq> [] \<and> room (pool s1) (k + 5)" if "0 < k \<and> room (pool s) (k + 14)" for k
    using netbuf_new_room(1,2) [OF inv twenty _ _ s1(1), of "k + 5"] that by (simp add: add.commute)
  show ?thesis
  proof (cases nb)
    case Nil
    then have "frag_one A dr s ?nb 20 (20 + offset) fin l = Some (s1, None)" using s1(1) by (simp add: frag_one_def)
    then show ?thesis using Nil nb s1(2) more1 room1 by (intro exI [of _ s1] exI [of _ None]) auto
  next
    case (Cons n r)
    then have n: "nb = [n]" "nb_inv owns X s1 (n # ?S)" "nb_length n = 20" "nb_total_length n = 20"
      "nb_off n = 0" "nb_data n \<notin> nb_data ` set ?S" "length (bytes_at s1 (nb_data n)) = 20"
      using nb by auto
    have inS: "set ?nb \<subseteq> set ?S" using pre(3) by auto
    have n0: "n0 \<in> set ?S" "hd ?nb = n0" using pre by auto
    have b1: "nb_bytes s1 n0 = ip4_bytes h" "chain_bytes s1 ?nb = ip4_bytes h @ D"
      using same_bytes_nb [OF s1(2) n0(1)] same_bytes_chain [OF s1(2) inS] hd bytes by simp_all
    have rd: "read_data s1 (nb_data n0) (nb_off n0) 20 = Some (ip4_bytes h)"
      using read_nb_ok [OF n(2), of n0 0 20] n0(1) pre(2) b1(1) by simp
    let ?fl = "fnet_htons (of_nat (offset div 8)) OR (if fin then 0 else fnet_htons FNET_IP4_MF)"
    let ?h1 = "h\<lparr>ih_flags_fragment_offset := ?fl\<rparr>"
    obtain s2 where s2: "write_data s1 (nb_data n) 0 (ip4_bytes ?h1) = Some s2" "nb_inv owns X s2 (n # ?S)"
        "same_bytes s1 s2 ?S" "bytes_at s2 (nb_data n) = ip4_bytes ?h1" "nbs.more s2 = nbs.more s1"
      using write_own_ok [OF n(2,6), of 0 "ip4_bytes ?h1"] n(7) by auto
    have b2: "chain_bytes s2 ?nb = ip4_bytes h @ D" using same_bytes_chain [OF s2(3) inS] b1(2) by simp
    have "in_buf s2 m" if "m \<in> set ?nb" for m using that inS s2(2) by (intro nb_inv_in_buf [OF s2(2)]) auto
    then have "length (chain_bytes s2 ?nb) = chain_length ?nb" using length_chain_bytes [of ?nb s2] by blast
    moreover have "length (chain_bytes s2 ?nb) = 20 + length D" unfolding b2 by simp
    ultimately have cl: "chain_length ?nb = 20 + length D" by simp
    have sub: "set ?nb \<subseteq> set (n # ?S)" using inS by auto
    have cp: "20 + offset + l \<le> chain_length ?nb" "chain_length ?nb < 2147483648" using cl l(2) len by simp_all
    obtain s3 c where s3: "fnet_netbuf_copy A dr s2 ?nb (20 + offset) l False = Some (s3, c)"
        "nb_inv owns X s3 (c @ n # ?S)" "same_bytes s2 s3 (n # ?S)" "nbs.more s3 = nbs.more s2"
      and c: "c = [] \<or> (\<exists>m. c = [m] \<and> nb_bytes s3 m = take l (drop (20 + offset) (chain_bytes s2 ?nb))
          \<and> nb_length m = l \<and> nb_total_length m = l \<and> nb_data m = nb_data d)"
      and room3: "\<forall>k. 0 < k \<and> room (pool s2) (k + 5) \<longrightarrow> c \<noteq> [] \<and> room (pool s3) k"
      using copy_last_ok [OF s2(2) sub l(1) off cp, of dr] by (elim exE conjE) (rule that)
    have room: "c \<noteq> [] \<and> room (pool s3) k" if "0 < k \<and> room (pool s) (k + 14)" for k
      using room1 [OF that] room3 [rule_format, of k] that write_data_pool [OF s2(1)] by simp
    show ?thesis
    proof (cases c)
      case Nil
      have "nb_inv owns X s3 ([n] @ ?S)" using s3(2) Nil by simp
      from free_chain_ok [OF this] obtain s4 where s4: "fnet_netbuf_free_chain A s3 [n] = Some s4"
        "nb_inv owns X s4 ?S" "same_bytes s3 s4 ?S" by blast
      have "frag_one A dr s ?nb 20 (20 + offset) fin l = Some (s4, None)"
        using s1(1) n(1,5) n0(2) rd s2(1) s3(1) Nil s4(1) new_header_bytes [OF h, of ?fl]
        by (simp add: frag_one_def Let_def)
      moreover have "same_bytes s s4 ?S"
        by (rule same_bytes_trans [OF s1(2) same_bytes_trans [OF s2(3) same_bytes_trans [OF s3(3) s4(3)]]]) auto
      moreover have "nbs.more s4 = nbs.more s" using free_chain_more [OF s4(1)] s3(4) s2(5) more1 by simp
      ultimately show ?thesis using s4(2) room Nil by (intro exI [of _ s4] exI [of _ None]) auto
    next
      case (Cons m r')
      then have m: "c = [m]" "nb_bytes s3 m = take l (drop (20 + offset) (ip4_bytes h @ D))" "nb_length m = l"
        "nb_total_length m = l" "nb_data m = nb_data d" using c [unfolded b2] by auto
      define n' where "n' = n\<lparr>nb_flags := nb_flags n OR nb_flags m, nb_total_length := 20 + l\<rparr>"
      have cc: "fnet_netbuf_concat [n] [m] = [n', m]"
        using n(4) m(4) l len by (simp add: fnet_netbuf_concat_def n'_def)
      have dS: "d \<in> set ?S" using inS by auto
      have nm: "nb_data n' \<notin> nb_data ` set (m # ?S)"
        using n(6) m(5) dS by (auto simp: n'_def)
      have inv3: "nb_inv owns X s3 (n # m # ?S)" using s3(2) m(1) by (intro nb_inv_permute [OF s3(2)]) simp
      then have inn: "in_buf s3 n" by (rule nb_inv_in_buf) simp
      have inv3': "nb_inv owns X s3 (n' # m # ?S)"
        by (rule nb_inv_view [OF inv3]) (use inn in \<open>auto simp: n'_def in_buf_def\<close>)
      have hb: "bytes_at s3 (nb_data n') = ip4_bytes ?h1"
        using s3(3) s2(4) by (simp add: n'_def same_bytes_def)
      let ?tl = "fnet_htons (of_nat (20 + l))"
      obtain s4 where s4: "write_data s3 (nb_data n') 2 (store16 ?tl) = Some s4" "nb_inv owns X s4 (n' # m # ?S)"
          "same_bytes s3 s4 (m # ?S)" "nbs.more s4 = nbs.more s3"
          "bytes_at s4 (nb_data n') = take 2 (ip4_bytes ?h1) @ store16 ?tl @ drop 4 (ip4_bytes ?h1)"
        using write_own_ok [OF inv3' nm, of 2 "store16 ?tl"] hb by auto
      have "frag_one A dr s ?nb 20 (20 + offset) fin l = Some (s4, Some [n', m])"
        using s1(1) n(1,5) n0(2) rd s2(1) s3(1) m(1) s4(1) new_header_bytes [OF h, of ?fl]
        by (simp add: frag_one_def Let_def cc) (simp add: n'_def numeral_2_eq_2)
      moreover have "same_bytes s s4 ?S"
      proof -
        have "same_bytes s3 s4 ?S" by (rule same_bytes_mono [OF s4(3)]) auto
        then show ?thesis by (intro same_bytes_trans [OF s1(2) same_bytes_trans [OF s2(3) same_bytes_trans [OF s3(3)]]]) auto
      qed
      moreover have "nbs.more s4 = nbs.more s" using s4(4) s3(4) s2(5) more1 by simp
      moreover have "nb_inv owns X s4 (concat cs @ [n', m] @ L)" using s4(2) by (rule nb_inv_permute) simp
      moreover have "headed [n', m]" using n(3) m(3) l(1) by (simp add: headed_def total_ok_def n'_def)
      moreover have "own_headers (cs @ [[n', m]]) L"
      proof (rule own_headers_snoc [OF own(1)])
        show "nb_data (hd [n', m]) \<notin> nb_data ` set ?S" "nb_data (hd [n', m]) \<notin> nb_data ` set (tl [n', m])"
          using nm by auto
        show "\<forall>c\<in>set cs. c \<noteq> []" using own(2) by (auto simp: headed_def)
        show "nb_data ` set (tl [n', m]) \<subseteq> nb_data ` set (concat (map tl cs))"
          using m(5) pre(1,3) by auto
      qed
      moreover have "chain_bytes s4 [n', m] = ip4_bytes (frag_header h offset (\<not> fin) l) @ take l (drop offset D)"
      proof -
        have "nb_bytes s4 n' = ip4_bytes (frag_header h offset (\<not> fin) l)"
          using s4(5) n(3,5) unfolding set_ip4_fields by (simp add: nb_bytes_def n'_def frag_header_def)
        moreover have "nb_bytes s4 m = take l (drop offset D)"
          using same_bytes_nb [OF s4(3), of m] m(2) by simp
        ultimately show ?thesis by simp
      qed
      moreover have "room (pool s4) k" if "0 < k \<and> room (pool s) (k + 14)" for k
        using room [OF that] write_data_pool [OF s4(1)] by simp
      ultimately show ?thesis by (intro exI [of _ s4] exI [of _ "Some [n', m]"]) simp
    qed
  qed
qed


lemma frag_loop_ok:
  assumes h: "ih_version__header_length h = 0x45" and F: "0 < F" and len: "20 + length D \<le> 65535"
    and pre: "pre = n0 # pre'" "nb_length n0 = 20"
  shows "\<lbrakk>nb_inv owns X s (concat ((pre @ [d]) # made) @ L); nb_bytes s n0 = ip4_bytes h;
      chain_bytes s (pre @ [d]) = ip4_bytes h @ D; chain_length pre \<le> 20 + offset;
      own_headers ((pre @ [d]) # made) L; \<forall>c\<in>set ((pre @ [d]) # made). headed c\<rbrakk> \<Longrightarrow>
    \<exists>s' new ok. frag_loop A dr s (pre @ [d]) 20 (20 + length D) F (20 + offset) made = Some (s', made @ new, ok)
      \<and> nb_inv owns X s' (concat ((pre @ [d]) # made @ new) @ L) \<and> nbs.more s' = nbs.more s
      \<and> same_bytes s s' (concat ((pre @ [d]) # made) @ L)
      \<and> own_headers ((pre @ [d]) # made @ new) L \<and> (\<forall>c\<in>set new. headed c)
      \<and> (ok \<longrightarrow> map (chain_bytes s') new = (if offset < length D then frags_from h F offset (drop offset D) else []))
      \<and> (\<forall>k. 0 < k \<and> room (pool s) (k + 14 * (if offset < length D then length (frags_from h F offset (drop offset D)) else 0))
            \<longrightarrow> ok \<and> room (pool s') k)"
proof (induction "length D - offset" arbitrary: s made offset rule: less_induct)
  case less
  let ?nb = "pre @ [d]" and ?cs = "(pre @ [d]) # made"
  show ?case
  proof (cases "offset < length D")
    case False
    then have "frag_loop A dr s ?nb 20 (20 + length D) F (20 + offset) made = Some (s, made, True)"
      by (simp add: frag_loop.simps)
    with less.prems False show ?thesis by (intro exI [of _ s] exI [of _ "[]"] exI [of _ True]) simp
  next
    case True
    define fin where "fin = (20 + offset + F \<ge> 20 + length D)"
    define l where "l = (if fin then 20 + length D - (20 + offset) else F)"
    have l: "0 < l" "offset + l \<le> length D" using True F by (auto simp: l_def fin_def)
    obtain s1 c where s1: "frag_one A dr s ?nb 20 (20 + offset) fin l = Some (s1, c)"
        "nb_inv owns X s1 (concat ?cs @ (case c of None \<Rightarrow> [] | Some c \<Rightarrow> c) @ L)"
        "same_bytes s s1 (concat ?cs @ L)" "nbs.more s1 = nbs.more s"
      and c: "\<forall>c'. c = Some c' \<longrightarrow> headed c' \<and> own_headers (?cs @ [c']) L
          \<and> chain_bytes s1 c' = ip4_bytes (frag_header h offset (\<not> fin) l) @ take l (drop offset D)"
      and rm: "\<forall>k. 0 < k \<and> room (pool s) (k + 14) \<longrightarrow> c \<noteq> None \<and> room (pool s1) k"
      using frag_one_ok [OF h len pre refl less.prems(1,2,3,4) l less.prems(5,6), of dr fin]
      by (elim exE conjE) (rule that)
    have loop: "frag_loop A dr s ?nb 20 (20 + length D) F (20 + offset) made =
        (case c of None \<Rightarrow> Some (s1, made, False)
         | Some nb \<Rightarrow> if fin then Some (s1, made @ [nb], True)
             else frag_loop A dr s1 ?nb 20 (20 + length D) F (20 + offset + F) (made @ [nb]))"
      using True F by (subst frag_loop.simps) (simp add: Let_def s1(1) flip: fin_def l_def del: frag_loop.simps)
    show ?thesis
    proof (cases c)
      case None
      have "\<not> room (pool s) (k + 14 * length (frags_from h F offset (drop offset D)))" if "0 < k" for k
      proof -
        have "frags_from h F offset (drop offset D) \<noteq> []" by (subst frags_from.simps) simp
        then obtain m where "length (frags_from h F offset (drop offset D)) = Suc m" by (cases "frags_from h F offset (drop offset D)") auto
        then show ?thesis using rm [rule_format, of "k + 14 * m"] None that by (auto simp: algebra_simps)
      qed
      then have "\<forall>k. \<not> (0 < k \<and> room (pool s) (k + 14 * length (frags_from h F offset (drop offset D))))" by blast
      with loop s1 less.prems None True show ?thesis
        by (intro exI [of _ s1] exI [of _ "[]"] exI [of _ False]) simp
    next
      case (Some c')
      with c have c': "headed c'" "own_headers (?cs @ [c']) L"
        "chain_bytes s1 c' = ip4_bytes (frag_header h offset (\<not> fin) l) @ take l (drop offset D)" by auto
      have inv1: "nb_inv owns X s1 (concat (?nb # made @ [c']) @ L)" using s1(2) Some by simp
      show ?thesis
      proof (cases fin)
        case fin: True
        have "frags_from h F offset (drop offset D) = [chain_bytes s1 c']"
          using True fin c'(3) by (subst frags_from.simps) (auto simp: fin_def l_def)
        then show ?thesis using loop Some fin inv1 s1(3,4) c'(1,2) True rm
          by (intro exI [of _ s1] exI [of _ "[c']"] exI [of _ True]) simp
      next
        case fin: False
        then have lF: "l = F" "offset + F < length D" by (simp_all add: l_def fin_def)
        have dec: "length D - (offset + F) < length D - offset" using F lF(2) by linarith
        have n0: "n0 \<in> set (concat ?cs @ L)" "set ?nb \<subseteq> set (concat ?cs @ L)" using pre(1) by auto
        have b1: "nb_bytes s1 n0 = ip4_bytes h" "chain_bytes s1 ?nb = ip4_bytes h @ D"
          using same_bytes_nb [OF s1(3) n0(1)] same_bytes_chain [OF s1(3) n0(2)] less.prems(2,3) by simp_all
        have off: "chain_length pre \<le> 20 + (offset + F)" using less.prems(4) by simp
        have own: "own_headers (?nb # made @ [c']) L" "\<forall>c\<in>set (?nb # made @ [c']). headed c"
          using c'(1,2) less.prems(6) by simp_all
        obtain s' new ok where s': "frag_loop A dr s1 ?nb 20 (20 + length D) F (20 + (offset + F)) (made @ [c'])
              = Some (s', (made @ [c']) @ new, ok)"
            "nb_inv owns X s' (concat (?nb # (made @ [c']) @ new) @ L)" "nbs.more s' = nbs.more s1"
            "same_bytes s1 s' (concat (?nb # made @ [c']) @ L)"
            "own_headers (?nb # (made @ [c']) @ new) L" "\<forall>c\<in>set new. headed c"
            "ok \<longrightarrow> map (chain_bytes s') new
               = (if offset + F < length D then frags_from h F (offset + F) (drop (offset + F) D) else [])"
          and rm': "\<forall>k. 0 < k \<and> room (pool s1) (k + 14 * (if offset + F < length D
              then length (frags_from h F (offset + F) (drop (offset + F) D)) else 0)) \<longrightarrow> ok \<and> room (pool s') k"
          using less.hyps [OF dec inv1 b1 off own] by (elim exE conjE) (rule that)
        have "chain_bytes s' c' = chain_bytes s1 c'" by (rule same_bytes_chain [OF s'(4)]) auto
        moreover have fr: "frags_from h F offset (drop offset D) = (ip4_bytes (frag_header h offset True F) @ take F (drop offset D))
            # frags_from h F (offset + F) (drop (offset + F) D)"
        proof -
          have "\<not> length D - offset \<le> F" using lF(2) by linarith
          then show ?thesis using F by (subst frags_from.simps) (simp add: add.commute)
        qed
        ultimately have "ok \<longrightarrow> map (chain_bytes s') (c' # new) = frags_from h F offset (drop offset D)"
          using s'(7) c'(3) lF fin by simp
        moreover have "\<forall>k. 0 < k \<and> room (pool s) (k + 14 * length (frags_from h F offset (drop offset D))) \<longrightarrow> ok \<and> room (pool s') k"
        proof (intro allI impI)
          fix k
          assume "0 < k \<and> room (pool s) (k + 14 * length (frags_from h F offset (drop offset D)))"
          then show "ok \<and> room (pool s') k"
            using rm [rule_format, of "k + 14 * length (frags_from h F (offset + F) (drop (offset + F) D))"]
            rm' [rule_format, of k] lF(2) by (simp add: fr algebra_simps)
        qed
        moreover have "same_bytes s s' (concat ?cs @ L)" by (rule same_bytes_trans [OF s1(3) same_bytes_mono [OF s'(4)]]) auto
        ultimately show ?thesis using loop Some fin s'(1,2,3,5,6) s1(4) c'(1) True
          by (intro exI [of _ s'] exI [of _ "c' # new"] exI [of _ ok]) (simp add: add.assoc)
      qed
    qed
  qed
qed

end

section \<open>Fragmentation\<close>

text \<open>Cut at the end, a chain keeps its first net buffer when more than that is kept.\<close>

lemma trim_tail_shape:
  assumes "total_ok c" "0 < len" "nb_length (hd c) < chain_length c - len" "chain_length c < 2147483648"
    and trim: "fnet_netbuf_trim A s c (- int len) = Some (s', c')"
  shows "c' = [] \<or> (\<exists>before n r l. c = before @ n # r \<and> before \<noteq> [] \<and> 0 < l
    \<and> free_rest A s r = Some s' \<and> c' = set_total (\<lambda>_. chain_length c - len) (before @ [n\<lparr>nb_length := l\<rparr>]))"
proof -
  let ?keep = "chain_length c - len"
  obtain n0 r0 where c: "c = n0 # r0" using assms(3) by (cases c) auto
  have tot: "nb_total_length n0 = chain_length c" using assms(1) by (simp add: total_ok_def c)
  have small: "i32 (- int len) = - int len" "i32 (int (chain_length c)) = int (chain_length c)"
    "i32 (int (chain_length c) - int len) = int (chain_length c) - int len" using assms(3,4) by (simp_all add: i32_diff)
  have goal: "i32 (i32 (int (chain_length c)) + - int len) = int ?keep" using assms(3) small by simp
  have "?keep \<le> 0 + chain_length c" "c \<noteq> []" "nb_length n0 = 0 + nb_length (hd c)" "0 < ?keep \<or> (0::nat) = 0"
      "0 + chain_length c < 2147483648"
    using c assms(4) by simp_all
  from trim_find_ok [OF this] obtain before n r t' where f:
    "trim_find c (nb_length n0) (int ?keep) = (before, n # r, t')"
    "c = before @ n # r" "t' = 0 + chain_length before + nb_length n" "?keep \<le> t'"
    by (elim exE conjE) (rule that)
  have before: "before \<noteq> []" using f(2-4) assms(3) by auto
  define l where "l = nat ((int (nb_length n) + (- int len + int (chain_length c) - int t')) mod 4294967296)"
  have nl: "(int (nb_length n) + (- int len + int (chain_length c) - int t')) mod 4294967296 = int l"
    by (simp add: l_def)
  have big: "nat (\<bar>- int len\<bar>) = len" "\<not> nb_total_length n0 < nat \<bar>- int len\<bar>" using tot assms(3) by simp_all
  have "fnet_netbuf_trim A s c (- int len) =
      do {
        s \<leftarrow> free_rest A s r;
        if l = 0 then do { (s, head) \<leftarrow> fnet_netbuf_free A s [n\<lparr>nb_length := l\<rparr>]; Some (s, head) }
        else Some (s, set_total (\<lambda>_. ?keep) (before @ [n\<lparr>nb_length := l\<rparr>]))
      }"
    using big assms(2) f(1) [unfolded c] tot [unfolded c] goal [unfolded c] nl [unfolded c] small(1)
    unfolding fnet_netbuf_trim_def c
    by (cases "l = 0") (simp_all add: Let_def del: trim_find.simps)
  then show ?thesis using trim f(2) before
    by (auto simp: bind_eq_Some_conv fnet_netbuf_free_def split: if_splits)
qed

lemma own_headers_hd:
  assumes "own_headers (c # cs) L" "nb_data (hd c') = nb_data (hd c)" "nb_data ` set (tl c') \<subseteq> nb_data ` set (tl c)"
  shows "own_headers (c' # cs) L"
proof -
  define H T where "H = (nb_data \<circ> hd) ` set cs" and "T = nb_data ` set (concat (map tl cs) @ L)"
  have T: "nb_data ` set (concat (map tl (d # cs)) @ L) = nb_data ` set (tl d) \<union> T" for d :: "netbuf list"
    by (simp add: T_def image_Un)
  have "distinct (map (nb_data \<circ> hd) (c # cs))" "insert (nb_data (hd c)) H \<inter> (nb_data ` set (tl c) \<union> T) = {}"
    using assms(1) unfolding own_headers_def T by (simp_all add: H_def)
  then have "distinct (map (nb_data \<circ> hd) (c' # cs))" "insert (nb_data (hd c')) H \<inter> (nb_data ` set (tl c') \<union> T) = {}"
    using assms(2,3) by (simp, blast)
  then show ?thesis unfolding own_headers_def T by (simp add: H_def)
qed

lemma htons_htons [simp]: "fnet_htons (fnet_htons v) = v"
proof -
  have "(0x00FF :: int) = mask 8" "(0xFF00 :: int) = push_bit 8 (mask 8)" by (simp_all add: mask_eq_exp_minus_1)
  then have b: "bit (0x00FF :: int) n = (n < 8)" "bit (0xFF00 :: int) n = (8 \<le> n \<and> n < 16)" for n
    by (auto simp only: bit_push_bit_iff bit_mask_iff possible_bit_int)
  show ?thesis by (rule bit_word_eqI) (auto simp: fnet_htons_def bit_simps b)
qed

lemma unat_htons_htons: "n \<le> 65535 \<Longrightarrow> unat (fnet_htons (fnet_htons (of_nat n))) = n"
  by (simp add: unat_of_nat)

lemma load_ip4_fields [simp]: "ip4_of (ip4_bytes h) = h"
  by (simp add: ip4_of_def ip4_bytes_def nth_append)

lemma set_frag_header:
  assumes "ih_flags_fragment_offset h = 0" "len \<le> 65515"
  shows "take 6 (ip4_bytes (h\<lparr>ih_total_length := fnet_htons (of_nat (20 + len))\<rparr>))
      @ store16 (ih_flags_fragment_offset h OR fnet_htons FNET_IP4_MF)
      @ drop 8 (ip4_bytes (h\<lparr>ih_total_length := fnet_htons (of_nat (20 + len))\<rparr>))
    = ip4_bytes (frag_header h 0 True len)"
  using assms unfolding set_ip4_fields by (simp add: frag_header_def ip4_bytes_def fnet_htons_def)

context roomy_allocator
begin

lemma write_view_ok:
  assumes "nb_inv owns X s (n # L)" "nb_data n \<notin> nb_data ` set L" "i + length xs \<le> nb_length n"
  shows "\<exists>s'. write_data s (nb_data n) (nb_off n + i) xs = Some s' \<and> nb_inv owns X s' (n # L) \<and> same_bytes s s' L
     \<and> nb_bytes s' n = take i (nb_bytes s n) @ xs @ drop (i + length xs) (nb_bytes s n) \<and> nbs.more s' = nbs.more s"
proof -
  have inn: "nb_off n + nb_length n \<le> length (bytes_at s (nb_data n))"
    using nb_inv_in_buf [OF assms(1), of n] by (simp add: in_buf_def)
  then have "nb_off n + i + length xs \<le> length (bytes_at s (nb_data n))" using assms(3) by linarith
  from write_own_ok [OF assms(1,2) this] obtain s' where s': "write_data s (nb_data n) (nb_off n + i) xs = Some s'"
    "nb_inv owns X s' (n # L)" "same_bytes s s' L" "nbs.more s' = nbs.more s"
    "bytes_at s' (nb_data n) = take (nb_off n + i) (bytes_at s (nb_data n)) @ xs
       @ drop (nb_off n + i + length xs) (bytes_at s (nb_data n))" by blast
  have "nb_bytes s' n = take i (nb_bytes s n) @ xs @ drop (i + length xs) (nb_bytes s n)"
  proof -
    define A B C where "A = take (nb_off n) (bytes_at s (nb_data n))" and "B = nb_bytes s n"
      and "C = drop (nb_off n + nb_length n) (bytes_at s (nb_data n))"
    have b: "bytes_at s (nb_data n) = A @ B @ C"
      unfolding A_def B_def C_def nb_bytes_def by (metis append_take_drop_id drop_drop add.commute)
    have l: "length A = nb_off n" "length B = nb_length n" using inn by (simp_all add: A_def B_def nb_bytes_def)
    have t: "take (nb_off n + i) (A @ B @ C) = A @ take i B" using l assms(3) by simp
    have d: "drop (nb_off n + i + length xs) (A @ B @ C) = drop (i + length xs) B @ C" using l assms(3) by simp
    have "bytes_at s' (nb_data n) = A @ (take i B @ xs @ drop (i + length xs) B) @ C" using s'(5) unfolding b t d by simp
    moreover have "length (take i B @ xs @ drop (i + length xs) B) = nb_length n" using l assms(3) by simp
    ultimately have "nb_bytes s' n = take i B @ xs @ drop (i + length xs) B"
      using l(1) unfolding nb_bytes_def by (metis append_eq_conv_conj)
    then show ?thesis by (simp only: B_def)
  qed
  then show ?thesis using s' by blast
qed

end

lemma headed_hd:
  assumes "headed c" "in_buf s (hd c)"
  shows "c = hd c # tl c" "nb_bytes s (hd c) = take 20 (chain_bytes s c)" "chain_bytes s (tl c) = drop 20 (chain_bytes s c)"
proof -
  show c: "c = hd c # tl c" using assms(1) by (simp add: headed_def)
  have "length (nb_bytes s (hd c)) = 20" using length_nb_bytes [OF assms(2)] assms(1) by (simp add: headed_def)
  then show "nb_bytes s (hd c) = take 20 (chain_bytes s c)" "chain_bytes s (tl c) = drop 20 (chain_bytes s c)"
    by (subst (2) c, simp)+
qed

lemma own_headers_fresh:
  assumes "own_headers (c # cs) L" "\<forall>c\<in>set cs. c \<noteq> []"
  shows "nb_data (hd c) \<notin> nb_data ` set (tl c @ concat cs @ L)"
proof -
  define H T where "H = (nb_data \<circ> hd) ` set cs" and "T = nb_data ` set (concat (map tl cs))"
  have "nb_data ` set (concat cs) \<subseteq> H \<union> T"
  proof
    fix x assume "x \<in> nb_data ` set (concat cs)"
    then obtain d m where m: "d \<in> set cs" "m \<in> set d" "x = nb_data m" by auto
    then have "m = hd d \<or> m \<in> set (tl d)" by (cases d rule: list.exhaust) auto
    then show "x \<in> H \<union> T" using m(1,3) by (auto simp: H_def T_def)
  qed
  moreover have "nb_data (hd c) \<notin> H" "nb_data (hd c) \<notin> T \<union> nb_data ` set (tl c) \<union> nb_data ` set L"
    using assms(1) by (auto simp: own_headers_def H_def T_def)
  ultimately have "nb_data (hd c) \<notin> nb_data ` set (tl c) \<union> nb_data ` set (concat cs) \<union> nb_data ` set L" by blast
  then show ?thesis by (simp add: image_Un)
qed

context roomy_allocator
begin

lemma first_frag_ok:
  assumes inv: "nb_inv owns X s (concat (c # made) @ L)" and c: "headed c" "\<forall>c\<in>set made. headed c" "own_headers (c # made) L"
    and bytes: "chain_bytes s c = ip4_bytes h @ D" and F: "0 < F" "F < length D" "20 + length D \<le> 65535"
    and h: "ih_flags_fragment_offset h = 0" "ih_total_length h = fnet_htons (of_nat (20 + length D))"
  shows "\<exists>s1 s2 s' c'. read_data s (nb_data (hd c)) (nb_off (hd c)) 20 = Some (ip4_bytes h)
     \<and> fnet_netbuf_trim A s c (int (20 + F) - int (unat (fnet_htons (ih_total_length h)))) = Some (s1, c')
     \<and> write_data s1 (nb_data (hd c)) (nb_off (hd c) + 2) (store16 (fnet_htons (of_nat (nb_total_length (hd c'))))) = Some s2
     \<and> write_data s2 (nb_data (hd c)) (nb_off (hd c) + 6) (store16 (ih_flags_fragment_offset h OR fnet_htons FNET_IP4_MF)) = Some s'
     \<and> nb_inv owns X s' (concat (c' # made) @ L) \<and> same_bytes s s' (concat made @ L) \<and> nbs.more s' = nbs.more s
     \<and> headed c' \<and> own_headers (c' # made) L \<and> chain_bytes s' c' = ip4_bytes (frag_header h 0 True F) @ take F D
     \<and> (\<forall>k. room (pool s) k \<longrightarrow> room (pool s') k)"
proof -
  let ?R = "concat made @ L"
  have inv': "nb_inv owns X s (c @ ?R)" using inv by simp
  have inn: "in_buf s m" if "m \<in> set c" for m using that by (intro nb_inv_in_buf [OF inv']) simp
  have ne: "c \<noteq> []" using c(1) by (simp add: headed_def)
  note hd = headed_hd [OF c(1) inn [OF hd_in_set [OF ne]]]
  have b: "nb_bytes s (hd c) = ip4_bytes h" "nb_length (hd c) = 20" "hd c \<in> set (c @ ?R)" "total_ok c"
    using hd(2) bytes c(1) ne by (simp_all add: headed_def)
  have cl: "chain_length c = 20 + length D" using length_chain_bytes [of c s] inn bytes by simp
  have rd: "read_data s (nb_data (hd c)) (nb_off (hd c)) 20 = Some (ip4_bytes h)"
    using read_nb_ok [OF inv' b(3), of 0 20] b(1,2) by simp
  let ?len = "length D - F"
  have arg: "int (20 + F) - int (unat (fnet_htons (ih_total_length h))) = - int ?len"
    using F h(2) unat_htons_htons [OF F(3)] by simp
  have len: "0 < ?len" "?len \<le> chain_length c" "nb_length (hd c) < chain_length c - ?len" "chain_length c - ?len = 20 + F"
    "chain_length c < 2147483648" using F cl b(2) by simp_all
  obtain s1 c' where s1: "fnet_netbuf_trim A s c (- int ?len) = Some (s1, c')" "nb_inv owns X s1 (c' @ ?R)"
      "same_bytes s s1 ?R" "chain_bytes s1 c' = take (20 + F) (ip4_bytes h @ D)" "total_ok c'"
    using trim_tail_ok [OF inv' b(4) len(1,2,5)] len(4) bytes by auto
  note more1 = trim_more [OF s1(1)]
  have c'0: "c' \<noteq> []"
  proof
    assume "c' = []"
    then have "ip4_bytes h = []" using s1(4) by simp
    then show False by (simp add: ip4_bytes_def)
  qed
  with trim_tail_shape [OF b(4) len(1,3,5) s1(1)] obtain before n r l where
    t: "c = before @ n # r" "before \<noteq> []" "0 < l" "c' = set_total (\<lambda>_. 20 + F) (before @ [n\<lparr>nb_length := l\<rparr>])"
      "free_rest A s r = Some s1"
    using len(4) by auto
  obtain n0 bf where bf: "before = n0 # bf" using t(2) by (cases before) auto
  define n' where "n' = n0\<lparr>nb_total_length := 20 + F\<rparr>"
  have c': "c' = n' # bf @ [n\<lparr>nb_length := l\<rparr>]" "hd c = n0" using t(1,4) bf by (simp_all add: set_total_def n'_def)
  have nz: "headed c'" using c(1) s1(5) t(1,3) by (simp add: headed_def c'(1) bf n'_def)
  have "nb_data ` set (tl c') \<subseteq> nb_data ` set (tl c)" using t(1) by (auto simp: c'(1) bf)
  then have own: "own_headers (c' # made) L" by (intro own_headers_hd [OF c(3)]) (simp_all add: c' n'_def)
  have fresh: "nb_data n' \<notin> nb_data ` set (tl c' @ ?R)"
    using own_headers_fresh [OF own] c(2) by (auto simp: headed_def c'(1))
  have inv1: "nb_inv owns X s1 (n' # tl c' @ ?R)" using s1(2) by (simp add: c'(1))
  have n': "nb_length n' = 20" "nb_data n' = nb_data n0" "nb_off n' = nb_off n0" "nb_total_length n' = 20 + F"
    using b(2) c'(2) by (simp_all add: n'_def)
  have in1: "in_buf s1 (hd c')" by (rule nb_inv_in_buf [OF s1(2)]) (simp add: c'(1))
  note hd1 = headed_hd [OF nz in1]
  have b1: "nb_bytes s1 n' = ip4_bytes h" "chain_bytes s1 (tl c') = take F D"
  proof -
    have "nb_bytes s1 (hd c') = ip4_bytes h" using hd1(2) unfolding s1(4) by simp
    then show "nb_bytes s1 n' = ip4_bytes h" by (simp add: c'(1))
    show "chain_bytes s1 (tl c') = take F D" using hd1(3) unfolding s1(4) by simp
  qed
  let ?tl = "fnet_htons (of_nat (20 + F))" and ?fl = "ih_flags_fragment_offset h OR fnet_htons FNET_IP4_MF"
  obtain s2 where s2: "write_data s1 (nb_data n') (nb_off n' + 2) (store16 ?tl) = Some s2"
      "nb_inv owns X s2 (n' # tl c' @ ?R)" "same_bytes s1 s2 (tl c' @ ?R)" "nbs.more s2 = nbs.more s1"
      "nb_bytes s2 n' = ip4_bytes (h\<lparr>ih_total_length := ?tl\<rparr>)"
    using write_view_ok [OF inv1 fresh, of 2 "store16 ?tl"] n'(1) b1(1) set_ip4_fields(1) [of h ?tl] by auto
  obtain s3 where s3: "write_data s2 (nb_data n') (nb_off n' + 6) (store16 ?fl) = Some s3"
      "nb_inv owns X s3 (n' # tl c' @ ?R)" "same_bytes s2 s3 (tl c' @ ?R)" "nbs.more s3 = nbs.more s2"
      "nb_bytes s3 n' = ip4_bytes (frag_header h 0 True F)"
    using write_view_ok [OF s2(2) fresh, of 6 "store16 ?fl"] n'(1) s2(5) set_frag_header [OF h(1), of F] F by auto
  have same: "same_bytes s1 s3 (tl c' @ ?R)" by (rule same_bytes_trans [OF s2(3) s3(3)]) simp
  then have "chain_bytes s3 (tl c') = take F D" using same_bytes_chain [OF same, of "tl c'"] b1(2) by simp
  then have "chain_bytes s3 c' = ip4_bytes (frag_header h 0 True F) @ take F D" using s3(5) by (simp add: c'(1))
  moreover have "same_bytes s s3 ?R" by (rule same_bytes_trans [OF s1(3) same_bytes_mono [OF same]]) auto
  moreover have "nb_inv owns X s3 (concat (c' # made) @ L)" using s3(2) by (simp add: c'(1))
  moreover have "nbs.more s3 = nbs.more s" using s3(4) s2(4) more1 by simp
  moreover have "nb_total_length (hd c') = 20 + F" using n'(4) by (simp add: c'(1))
  moreover have "\<forall>k. room (pool s) k \<longrightarrow> room (pool s3) k"
  proof -
    have "nb_inv owns X s (r @ before @ n # ?R)" by (rule nb_inv_permute [OF inv']) (simp add: t(1))
    from free_rest_room [OF this t(5)] show ?thesis using write_data_pool [OF s2(1)] write_data_pool [OF s3(1)] by simp
  qed
  ultimately show ?thesis using rd arg s1(1) s2(1) s3(1) nz own n'(2,3) c'(2)
    by (intro exI [of _ s1] exI [of _ s2] exI [of _ s3] exI [of _ c']) simp
qed

end

text \<open>The data that a fragment carries at an MTU.\<close>

definition frag_size :: "nat \<Rightarrow> nat" where
  "frag_size mtu = (mtu - 20) div 8 * 8"

lemma frag_size_bounds: "28 \<le> mtu \<Longrightarrow> 8 \<le> frag_size mtu" "frag_size mtu \<le> mtu - 20"
  by (simp_all add: frag_size_def)

lemma frag_size_word:
  "20 \<le> mtu \<Longrightarrow> mtu < 4294967296 \<Longrightarrow> w32 (mtu + 4294967296 - 20) div 8 * 8 = frag_size mtu"
proof -
  assume a: "20 \<le> mtu" "mtu < 4294967296"
  then have "w32 (mtu + 4294967296 - 20) = w32 (4294967296 + (mtu - 20))" by simp
  also have "\<dots> = w32 (mtu - 20)" by (rule mod_add_self1)
  also have "\<dots> = mtu - 20" by (rule mod_less) (use a in linarith)
  finally show ?thesis by (simp add: frag_size_def)
qed

context roomy_allocator
begin

lemma free_all_ok:
  "nb_inv owns X s (concat cs @ L) \<Longrightarrow>
    \<exists>s'. send_all (fnet_netbuf_free_chain A) s cs = Some s' \<and> nb_inv owns X s' L \<and> same_bytes s s' L \<and> nbs.more s' = nbs.more s"
proof (induction cs arbitrary: s)
  case (Cons c cs)
  then have "nb_inv owns X s (c @ concat cs @ L)" by simp
  from free_chain_ok [OF this] obtain s1 where s1: "fnet_netbuf_free_chain A s c = Some s1"
    "nb_inv owns X s1 (concat cs @ L)" "same_bytes s s1 (concat cs @ L)" by blast
  from Cons.IH [OF s1(2)] obtain s2 where "send_all (fnet_netbuf_free_chain A) s1 cs = Some s2"
    "nb_inv owns X s2 L" "same_bytes s1 s2 L" "nbs.more s2 = nbs.more s1" by blast
  then show ?case using s1 free_chain_more [OF s1(1)] by (intro exI [of _ s2]) (auto simp: same_bytes_def)
qed simp

lemma ip4_fragment_ok:
  assumes inv: "nb_inv owns X s (c @ L)" and c: "headed c" "own_headers [c] L" "c = pre @ [d]"
    and bytes: "chain_bytes s c = ip4_bytes h @ D"
    and h: "ih_version__header_length h = 0x45" "ih_flags_fragment_offset h = 0"
      "ih_total_length h = fnet_htons (of_nat (20 + length D))"
    and mtu: "28 \<le> if_mtu netif" "if_mtu netif < 20 + length D" "20 + length D \<le> 65535"
    and pre: "pre \<noteq> []" "chain_length pre \<le> 20 + frag_size (if_mtu netif)"
  shows "\<exists>s' cs. nb_inv owns X s' (concat cs @ L) \<and> same_bytes s s' L \<and> nbs.more s' = nbs.more s
     \<and> (\<forall>c\<in>set cs. headed c) \<and> own_headers cs L
     \<and> ip4_fragment A dr pad out netif dest s c (20 + length D) do_not_route
       = do { s \<leftarrow> send_all (\<lambda>s nb. fnet_ip4_netif_output pad out netif dest s nb do_not_route) s' cs; Some (s, FNET_ERR_OK) }
     \<and> (cs = [] \<or> map (chain_bytes s') cs = frags_from h (frag_size (if_mtu netif)) 0 D)
     \<and> (\<forall>k. 0 < k \<and> room (pool s) (k + 14 * length (frags_from h (frag_size (if_mtu netif)) 0 D))
           \<longrightarrow> cs \<noteq> [] \<and> room (pool s') k)"
proof -
  let ?F = "frag_size (if_mtu netif)" and ?send = "\<lambda>s nb. fnet_ip4_netif_output pad out netif dest s nb do_not_route"
  have F: "8 \<le> ?F" "?F < length D" using frag_size_bounds [of "if_mtu netif"] mtu by linarith+
  obtain n0 pre' where p: "pre = n0 # pre'" using pre(1) by (cases pre) auto
  have n0: "hd c = n0" "nb_length n0 = 20" using c(1,3) p by (simp_all add: headed_def)
  have "in_buf s n0" by (rule nb_inv_in_buf [OF inv]) (simp add: c(3) p)
  then have "in_buf s (hd c)" using n0(1) by simp
  from headed_hd(2) [OF c(1) this] have hb: "nb_bytes s n0 = ip4_bytes h" unfolding bytes n0(1) by simp
  have rd: "read_data s (nb_data n0) (nb_off n0) 20 = Some (ip4_bytes h)"
    using read_nb_ok [OF inv, of n0 0 20] n0(2) hb by (simp add: c(3) p)
  have v: "header_length_of (ip4_bytes h ! 0) = 20" using h(1) by (simp add: ip4_bytes_def header_length_of_def)
  have fl: "w32 (if_mtu netif + 4294967296 - 20) div 8 * 8 = ?F" by (rule frag_size_word) (use mtu in linarith)+
  have pull: "fnet_netbuf_pullup A s c 20 = Some (s, c, True)"
    using n0(2) by (simp add: fnet_netbuf_pullup_def c(3) p)
  have i: "nb_inv owns X s (concat ((pre @ [d]) # []) @ L)" using inv c(3) by simp
  have own: "own_headers [pre @ [d]] L" "\<forall>c\<in>set [pre @ [d]]. headed c" using c by simp_all
  have b: "chain_bytes s (pre @ [d]) = ip4_bytes h @ D" using bytes c(3) by simp
  have F0: "0 < ?F" using F by linarith
  obtain s1 new ok where s1: "frag_loop A dr s (pre @ [d]) 20 (20 + length D) ?F (20 + ?F) [] = Some (s1, [] @ new, ok)"
      "nb_inv owns X s1 (concat ((pre @ [d]) # [] @ new) @ L)" "nbs.more s1 = nbs.more s"
      "same_bytes s s1 (concat [pre @ [d]] @ L)" "own_headers ((pre @ [d]) # [] @ new) L" "\<forall>c\<in>set new. headed c"
      "ok \<longrightarrow> map (chain_bytes s1) new = (if ?F < length D then frags_from h ?F ?F (drop ?F D) else [])"
    and rm: "\<forall>k. 0 < k \<and> room (pool s) (k + 14 * (if ?F < length D then length (frags_from h ?F ?F (drop ?F D)) else 0))
        \<longrightarrow> ok \<and> room (pool s1) k"
    using frag_loop_ok [OF h(1) F0 mtu(3) p n0(2) i hb b pre(2) own, of dr] by (elim exE conjE) (rule that)
  have fr: "frags_from h ?F 0 D = (ip4_bytes (frag_header h 0 True ?F) @ take ?F D) # frags_from h ?F ?F (drop ?F D)"
    using F by (subst frags_from.simps) simp
  have rm1: "ok \<and> room (pool s1) k" if "0 < k" "room (pool s) (k + 14 * length (frags_from h ?F 0 D))" for k
  proof -
    have "room (pool s) ((k + 14) + 14 * length (frags_from h ?F ?F (drop ?F D)))" using that(2) by (simp add: fr add.assoc)
    with rm [rule_format, of "k + 14"] F(2) have "ok \<and> room (pool s1) (k + 14)" by simp
    then show ?thesis using room_less [of "pool s1" "k + 14" k] by simp
  qed
  have loop: "frag_loop A dr s c 20 (20 + length D) ?F (20 + ?F) [] = Some (s1, new, ok)" using s1(1) c(3) by simp
  have same1: "same_bytes s s1 (c @ L)" using s1(4) c(3) by simp
  have frag: "ip4_fragment A dr pad out netif dest s c (20 + length D) do_not_route =
      (if ok then do {
         xs \<leftarrow> read_data s1 (nb_data n0) (nb_off n0) 20;
         (s, nb) \<leftarrow> fnet_netbuf_trim A s1 c (int (20 + ?F) - int (unat (fnet_htons (ih_total_length (ip4_of xs)))));
         s \<leftarrow> write_data s (nb_data n0) (nb_off n0 + 2) (store16 (fnet_htons (of_nat (nb_total_length (hd nb)))));
         s \<leftarrow> write_data s (nb_data n0) (nb_off n0 + 6)
           (store16 (ih_flags_fragment_offset (ip4_of xs) OR fnet_htons FNET_IP4_MF));
         s \<leftarrow> send_all ?send s (nb # new);
         Some (s, FNET_ERR_OK)
       }
       else do { s \<leftarrow> send_all (fnet_netbuf_free_chain A) s1 (c # new); Some (s, FNET_ERR_OK) })"
    using rd n0(1) F(1) h(2) pull loop fl
    by (simp add: ip4_fragment_def Let_def sizeof_ip4_header_def v del: send_all.simps)
  show ?thesis
  proof (cases ok)
    case False
    have "nb_inv owns X s1 (concat (c # new) @ L)" using s1(2) c(3) by simp
    from free_all_ok [OF this] obtain s2 where s2: "send_all (fnet_netbuf_free_chain A) s1 (c # new) = Some s2"
      "nb_inv owns X s2 L" "same_bytes s1 s2 L" "nbs.more s2 = nbs.more s1" by blast
    have "same_bytes s s2 L" using same1 s2(3) by (simp add: same_bytes_def)
    moreover have "\<forall>k. \<not> (0 < k \<and> room (pool s) (k + 14 * length (frags_from h ?F 0 D)))" using rm1 False by blast
    ultimately show ?thesis using s2 frag False s1(3)
      by (intro exI [of _ s2] exI [of _ "[]"]) (simp add: own_headers_def)
  next
    case True
    have i1: "nb_inv owns X s1 (concat (c # new) @ L)" using s1(2) c(3) by simp
    have own1: "own_headers (c # new) L" using s1(5) c(3) by simp
    have b1: "chain_bytes s1 c = ip4_bytes h @ D" using same_bytes_chain [OF same1, of c] bytes by simp
    obtain s2 s3 s4 c' where s4: "read_data s1 (nb_data (hd c)) (nb_off (hd c)) 20 = Some (ip4_bytes h)"
      "fnet_netbuf_trim A s1 c (int (20 + ?F) - int (unat (fnet_htons (ih_total_length h)))) = Some (s2, c')"
      "write_data s2 (nb_data (hd c)) (nb_off (hd c) + 2) (store16 (fnet_htons (of_nat (nb_total_length (hd c'))))) = Some s3"
      "write_data s3 (nb_data (hd c)) (nb_off (hd c) + 6) (store16 (ih_flags_fragment_offset h OR fnet_htons FNET_IP4_MF)) = Some s4"
      "nb_inv owns X s4 (concat (c' # new) @ L)" "same_bytes s1 s4 (concat new @ L)" "nbs.more s4 = nbs.more s1"
      "headed c'" "own_headers (c' # new) L" "chain_bytes s4 c' = ip4_bytes (frag_header h 0 True ?F) @ take ?F D"
      and rm4: "\<forall>k. room (pool s1) k \<longrightarrow> room (pool s4) k"
      using first_frag_ok [OF i1 c(1) s1(6) own1 b1 F0 F(2) mtu(3) h(2,3)] by (elim exE conjE) (rule that)
    have "same_bytes s s4 L" using same1 s4(6) by (simp add: same_bytes_def)
    moreover have "ip4_fragment A dr pad out netif dest s c (20 + length D) do_not_route
        = do { s \<leftarrow> send_all ?send s4 (c' # new); Some (s, FNET_ERR_OK) }"
      using frag True s4(1-4) n0(1) by (simp del: send_all.simps)
    moreover have "map (chain_bytes s4) (c' # new) = frags_from h ?F 0 D"
    proof -
      have "map (chain_bytes s4) new = map (chain_bytes s1) new"
        by (rule map_cong [OF refl], rule same_bytes_chain [OF s4(6)]) auto
      then show ?thesis using s4(10) s1(7) True F by (simp add: fr)
    qed
    moreover have "\<forall>c\<in>set (c' # new). headed c" using s4(8) s1(6) by simp
    ultimately show ?thesis using s4(5,7,9) s1(3) rm1 rm4 by (intro exI [of _ s4] exI [of _ "c' # new"]) (simp del: send_all.simps)
  qed
qed

end

section \<open>What the interface gets\<close>

text \<open>
  The header checksum as the internet standard defines it: the complement of the one's complement sum
  of the header with its checksum field zero. A network controller that computes it gets zero there.
\<close>

definition header_checksum :: "u8 list \<Rightarrow> u16" where
  "header_checksum p = of_nat (65535 - ones_sum (word_sum (take 10 p @ [0, 0] @ take 8 (drop 12 p))))"

definition outgoing :: "netif \<Rightarrow> u8 list \<Rightarrow> u8 list" where
  "outgoing netif p = take 10 p
     @ (if has_feature netif FNET_NETIF_FEATURE_HW_TX_IP_CHECKSUM then [0, 0] else store16 (header_checksum p))
     @ drop 12 p"

definition next_hop :: "netif \<Rightarrow> u32 \<Rightarrow> bool \<Rightarrow> u32" where
  "next_hop netif dest do_not_route =
     (if fnet_ip4_addr_is_broadcast_on [] dest (Some netif) \<or> FNET_IP4_ADDR_IS_MULTICAST dest then dest
      else if do_not_route \<or> fnet_ip4_addr_is_onlink netif dest then dest
      else if_gateway netif)"

text \<open>
  The contract of an interface's output for one address, on chains of at most \<open>mtu\<close> bytes. \<open>H\<close> are
  the net buffers and \<open>B\<close> the other blocks that the protocols hold, which the output may let go, \<open>I\<close>
  is a condition on the rest of the state that a send keeps, and \<open>R z p z'\<close> says what sending the packet
  that is \<open>p\<close> on the wire may do to that rest. \<open>E z p z'\<close> says what it does when there is memory for a
  link header: a net buffer of 14 bytes takes nine units.
\<close>

definition interface_ok ::
    "('p \<Rightarrow> nat set \<Rightarrow> bool) \<Rightarrow> ('p \<Rightarrow> nat \<Rightarrow> bool) \<Rightarrow> nat \<Rightarrow> ('z \<Rightarrow> netbuf list) \<Rightarrow> ('z \<Rightarrow> nat set) \<Rightarrow> ('z \<Rightarrow> bool)
      \<Rightarrow> ('z \<Rightarrow> u8 list \<Rightarrow> 'z \<Rightarrow> bool) \<Rightarrow> ('z \<Rightarrow> u8 list \<Rightarrow> 'z \<Rightarrow> bool) \<Rightarrow> (('p, 'z) nbs_scheme \<Rightarrow> netbuf list \<Rightarrow> ('p, 'z) nbs_scheme option) \<Rightarrow> bool" where
  "interface_ok owns room mtu H B I R E out =
     (\<forall>X s c L. nb_inv owns (X \<union> B (nbs.more s)) s (c @ L @ H (nbs.more s)) \<and> X \<inter> B (nbs.more s) = {}
        \<and> headed c \<and> chain_length c \<le> mtu \<and> I (nbs.more s) \<longrightarrow>
        (\<exists>s'. out s c = Some s' \<and> nb_inv owns (X \<union> B (nbs.more s')) s' (L @ H (nbs.more s')) \<and> same_bytes s s' L
           \<and> I (nbs.more s') \<and> B (nbs.more s') \<subseteq> B (nbs.more s)
           \<and> nb_data ` set (H (nbs.more s')) \<subseteq> nb_data ` set (c @ H (nbs.more s))
           \<and> R (nbs.more s) (on_wire (nb_flags (hd c)) (chain_bytes s c)) (nbs.more s')
           \<and> (\<forall>k. 0 < k \<and> room (pool s) (k + 9)
                \<longrightarrow> room (pool s') k \<and> E (nbs.more s) (on_wire (nb_flags (hd c)) (chain_bytes s c)) (nbs.more s'))))"

lemma on_wire_ip_checksum: "on_wire (f OR FNET_NETBUF_FLAG_HW_IP_CHECKSUM) p = on_wire f p"
proof -
  have "(f OR 0x10) AND 0x20 = f AND 0x20" for f :: u32 by (simp add: bit.conj_disj_distrib2)
  then show ?thesis
    by (simp add: on_wire_def FNET_NETBUF_FLAG_HW_IP_CHECKSUM_def FNET_NETBUF_FLAG_HW_PROTOCOL_CHECKSUM_def)
qed

text \<open>A packet that is a fragment is the same on the wire, whatever the flags are.\<close>

definition as_fragment :: "u8 list \<Rightarrow> bool" where
  "as_fragment p = (load16l (take 2 (drop 6 p)) AND NOT (fnet_htons 0x4000) \<noteq> 0)"

lemma on_wire_fragment: "as_fragment p \<Longrightarrow> on_wire f p = p"
  by (simp add: as_fragment_def on_wire_def clear_protocol_checksum_def Let_def)

inductive delivers :: "('z \<Rightarrow> 'a \<Rightarrow> 'z \<Rightarrow> bool) \<Rightarrow> 'z \<Rightarrow> 'a list \<Rightarrow> 'z \<Rightarrow> bool" for R where
  delivers_none [simp, intro]: "delivers R z [] z"
| delivers_one [intro]: "R z p z' \<Longrightarrow> delivers R z' ps z'' \<Longrightarrow> delivers R z (p # ps) z''"

lemma word16_of_unat: "unat (c :: u16) = n \<Longrightarrow> c = of_nat n"
  by auto

lemma headed_flags: "headed (n\<lparr>nb_flags := f\<rparr> # r) = headed (n # r)"
  by (simp add: headed_def total_ok_def)

context roomy_allocator
begin

lemma chain_views_ok:
  assumes "nb_inv owns X s S"
  shows "set c \<subseteq> set S \<Longrightarrow> chain_views s c = Some (map (nb_bytes s) c)"
proof (induction c)
  case (Cons n c)
  then have n: "n \<in> set S" by simp
  then have "in_buf s n" by (rule nb_inv_in_buf [OF assms])
  then have "take (nb_length n) (nb_bytes s n) = nb_bytes s n" by (simp add: length_nb_bytes)
  then have "read_data s (nb_data n) (nb_off n) (nb_length n) = Some (nb_bytes s n)"
    using read_nb_ok [OF assms n, of 0 "nb_length n"] by simp
  with Cons show ?case by simp
qed simp

lemma netif_output_ok:
  assumes inv: "nb_inv owns (X \<union> B (nbs.more s)) s (c @ L @ H (nbs.more s))" "X \<inter> B (nbs.more s) = {}" and c: "headed c"
    and fresh: "nb_data (hd c) \<notin> nb_data ` set (tl c @ L @ H (nbs.more s))"
    and v: "chain_bytes s c ! 0 = 0x45" "chain_length c \<le> if_mtu netif" and I: "I (nbs.more s)"
    and out: "interface_ok owns room (if_mtu netif) H B I R E (\<lambda>s nb. out netif s (next_hop netif dest do_not_route) nb)"
  shows "\<exists>s'. fnet_ip4_netif_output pad out netif dest s c do_not_route = Some s'
     \<and> nb_inv owns (X \<union> B (nbs.more s')) s' (L @ H (nbs.more s')) \<and> same_bytes s s' L
     \<and> I (nbs.more s') \<and> B (nbs.more s') \<subseteq> B (nbs.more s)
     \<and> nb_data ` set (H (nbs.more s')) \<subseteq> nb_data ` set (c @ H (nbs.more s))
     \<and> R (nbs.more s) (on_wire (nb_flags (hd c)) (outgoing netif (chain_bytes s c))) (nbs.more s')
     \<and> (\<forall>k. 0 < k \<and> room (pool s) (k + 9)
           \<longrightarrow> room (pool s') k \<and> E (nbs.more s) (on_wire (nb_flags (hd c)) (outgoing netif (chain_bytes s c))) (nbs.more s'))"
proof -
  let ?R = "L @ H (nbs.more s)" and ?Y = "X \<union> B (nbs.more s)" and ?hw = "has_feature netif FNET_NETIF_FEATURE_HW_TX_IP_CHECKSUM"
  let ?out = "\<lambda>s nb. out netif s (next_hop netif dest do_not_route) nb"
  obtain n r where nr: "c = n # r" using c by (cases c) (auto simp: headed_def)
  have n20: "nb_length n = 20" "\<forall>m\<in>set r. 0 < nb_length m" using c by (simp_all add: headed_def nr)
  have inv0: "nb_inv owns ?Y s (n # r @ ?R)" and fr: "nb_data n \<notin> nb_data ` set (r @ ?R)"
    using inv(1) fresh by (simp_all add: nr)
  have "in_buf s n" by (rule nb_inv_in_buf [OF inv0]) simp
  then have l20: "length (nb_bytes s n) = 20" using length_nb_bytes n20(1) by metis
  define N T where "N = nb_bytes s n" and "T = chain_bytes s r"
  have NT: "chain_bytes s c = N @ T" "length N = 20" using l20 by (simp_all add: nr N_def T_def)
  have N0: "N ! 0 = 0x45" using v(1) NT by (simp add: nth_append)
  define Z where "Z = take 10 N @ [0, 0] @ drop 12 N"
  have Z: "length Z = 20" "Z ! 0 = 0x45" using NT(2) N0 by (simp_all add: Z_def nth_append)
  obtain s1 where s1: "write_data s (nb_data n) (nb_off n + 10) [0, 0] = Some s1" "nb_inv owns ?Y s1 (n # r @ ?R)"
      "same_bytes s s1 (r @ ?R)" "nbs.more s1 = nbs.more s" "nb_bytes s1 n = Z"
    using write_view_ok [OF inv0 fr, of 10 "[0, 0]"] n20(1) by (auto simp: Z_def N_def)
  have T1: "chain_bytes s1 r = T" using same_bytes_chain [OF s1(3), of r] by (simp add: T_def)
  have deliver: "\<exists>s'. ?out t c' = Some s' \<and> nb_inv owns (X \<union> B (nbs.more s')) s' (L @ H (nbs.more s')) \<and> same_bytes s s' L
      \<and> I (nbs.more s') \<and> B (nbs.more s') \<subseteq> B (nbs.more s)
      \<and> nb_data ` set (H (nbs.more s')) \<subseteq> nb_data ` set (c @ H (nbs.more s)) \<and> R (nbs.more s) (on_wire f (Y @ T)) (nbs.more s')
      \<and> (\<forall>k. 0 < k \<and> room (pool s) (k + 9) \<longrightarrow> room (pool s') k \<and> E (nbs.more s) (on_wire f (Y @ T)) (nbs.more s'))"
    if t: "nb_inv owns ?Y t (c' @ ?R)" "headed c' \<and> chain_length c' \<le> if_mtu netif" "nbs.more t = nbs.more s" "same_bytes s t (r @ ?R)"
      "chain_bytes t c' = Y @ T" "nb_data ` set c' = nb_data ` set c" "pool t = pool s" "\<And>p. on_wire (nb_flags (hd c')) p = on_wire f p"
      for t c' Y f
  proof -
    have "nb_inv owns (X \<union> B (nbs.more t)) t (c' @ L @ H (nbs.more t)) \<and> X \<inter> B (nbs.more t) = {}
        \<and> headed c' \<and> chain_length c' \<le> if_mtu netif \<and> I (nbs.more t)"
      using t(1-3) I inv(2) by simp
    from out [unfolded interface_ok_def, rule_format, OF this] obtain s' where s': "?out t c' = Some s'" "nb_inv owns (X \<union> B (nbs.more s')) s' (L @ H (nbs.more s'))"
      "same_bytes t s' L" "I (nbs.more s')" "B (nbs.more s') \<subseteq> B (nbs.more t)"
      "nb_data ` set (H (nbs.more s')) \<subseteq> nb_data ` set (c' @ H (nbs.more t))"
      "R (nbs.more t) (on_wire (nb_flags (hd c')) (chain_bytes t c')) (nbs.more s')"
      "\<forall>k. 0 < k \<and> room (pool t) (k + 9)
         \<longrightarrow> room (pool s') k \<and> E (nbs.more t) (on_wire (nb_flags (hd c')) (chain_bytes t c')) (nbs.more s')"
      by (elim exE conjE) (rule that)
    have "same_bytes s s' L" using t(4) s'(3) by (simp add: same_bytes_def)
    moreover have "nb_data ` set (c' @ H (nbs.more t)) = nb_data ` set (c @ H (nbs.more s))"
      using t(3,6) by (simp add: image_Un)
    ultimately show ?thesis using s' t(3,5,7,8) by (intro exI [of _ s']) simp
  qed
  have dst: "(if fnet_ip4_addr_is_broadcast_on [] dest (Some netif) \<or> FNET_IP4_ADDR_IS_MULTICAST dest then dest
      else if \<not> (do_not_route \<or> fnet_ip4_addr_is_onlink netif dest) then if_gateway netif else dest)
      = next_hop netif dest do_not_route" by (simp add: next_hop_def)
  show ?thesis
  proof (cases ?hw)
    case True
    let ?c = "n\<lparr>nb_flags := nb_flags n OR FNET_NETBUF_FLAG_HW_IP_CHECKSUM\<rparr> # r"
    have i1: "nb_inv owns ?Y s1 (?c @ ?R)"
      using nb_inv_view [OF s1(2), of "hd ?c"] nb_inv_in_buf [OF s1(2), of n] by (simp add: in_buf_def)
    have c1: "chain_bytes s1 ?c = Z @ T" "headed ?c \<and> chain_length ?c \<le> if_mtu netif" "nb_data ` set ?c = nb_data ` set c"
      using s1(5) T1 c v(2) by (simp_all add: nb_bytes_def nr headed_flags)
    have w1: "on_wire (nb_flags (hd ?c)) p = on_wire (nb_flags n) p" for p by (simp add: on_wire_ip_checksum)
    obtain s' where "?out s1 ?c = Some s'" "nb_inv owns (X \<union> B (nbs.more s')) s' (L @ H (nbs.more s'))"
      "same_bytes s s' L" "I (nbs.more s')" "B (nbs.more s') \<subseteq> B (nbs.more s)"
      "nb_data ` set (H (nbs.more s')) \<subseteq> nb_data ` set (c @ H (nbs.more s))"
      "R (nbs.more s) (on_wire (nb_flags n) (Z @ T)) (nbs.more s')"
      "\<forall>k. 0 < k \<and> room (pool s) (k + 9) \<longrightarrow> room (pool s') k \<and> E (nbs.more s) (on_wire (nb_flags n) (Z @ T)) (nbs.more s')"
      using deliver [OF i1 c1(2) s1(4,3) c1(1,3) write_data_pool [OF s1(1)] w1] by (elim exE conjE) (rule that)
    moreover have "outgoing netif (chain_bytes s c) = Z @ T" using True NT by (simp add: outgoing_def Z_def)
    ultimately show ?thesis using s1(1) True dst by (intro exI [of _ s']) (simp add: fnet_ip4_netif_output_def nr)
  next
    case False
    have views: "chain_views s1 c = Some (Z # map (nb_bytes s1) r)"
      using chain_views_ok [OF s1(2), of "n # r"] s1(5) by (auto simp: nr)
    have rest: "[] \<notin> set (map (nb_bytes s1) r)"
    proof
      assume "[] \<in> set (map (nb_bytes s1) r)"
      then obtain m where m: "m \<in> set r" "nb_bytes s1 m = []" by auto
      then have "in_buf s1 m" by (intro nb_inv_in_buf [OF s1(2)]) simp
      then show False using length_nb_bytes m n20(2) by fastforce
    qed
    obtain ck where ck: "fnet_checksum_netbuf pad (Z # map (nb_bytes s1) r) 20 = Some ck"
        "unat ck = 65535 - ones_sum (word_sum (take 20 (concat (Z # map (nb_bytes s1) r))))"
      using checksum_netbuf_some [OF rest, of 20 Z pad] Z(1) by auto
    have "take 10 (N @ T) @ [0, 0] @ take 8 (drop 12 (N @ T)) = Z" using NT(2) by (simp add: Z_def)
    then have ck': "ck = header_checksum (chain_bytes s c)"
      using ck(2) Z(1) by (simp add: header_checksum_def NT(1) word16_of_unat)
    have vhl: "read_data s1 (nb_data n) (nb_off n) 1 = Some (take 1 Z)"
      using read_nb_ok [OF s1(2), of n 0 1] n20(1) s1(5) by simp
    have hl: "header_length_of (take 1 Z ! 0) = 20" using Z by (simp add: header_length_of_def)
    obtain s2 where s2: "write_data s1 (nb_data n) (nb_off n + 10) (store16 ck) = Some s2" "nb_inv owns ?Y s2 (n # r @ ?R)"
        "same_bytes s1 s2 (r @ ?R)" "nbs.more s2 = nbs.more s1"
        "nb_bytes s2 n = take 10 Z @ store16 ck @ drop 12 Z"
      using write_view_ok [OF s1(2) fr, of 10 "store16 ck"] n20(1) s1(5) by auto
    have T2: "chain_bytes s2 r = T" using same_bytes_chain [OF s2(3), of r] T1 by simp
    have same2: "same_bytes s s2 (r @ ?R)" by (rule same_bytes_trans [OF s1(3) s2(3)]) simp
    have i2: "nb_inv owns ?Y s2 (c @ ?R)" "headed c \<and> chain_length c \<le> if_mtu netif" "nbs.more s2 = nbs.more s"
      "chain_bytes s2 c = (take 10 Z @ store16 ck @ drop 12 Z) @ T" "pool s2 = pool s"
      using s2 c v(2) s1(4) T2 write_data_pool [OF s1(1)] write_data_pool [OF s2(1)] by (simp_all add: nr)
    have w2: "on_wire (nb_flags (hd c)) p = on_wire (nb_flags n) p" for p by (simp add: nr)
    obtain s' where "?out s2 c = Some s'" "nb_inv owns (X \<union> B (nbs.more s')) s' (L @ H (nbs.more s'))"
      "same_bytes s s' L" "I (nbs.more s')" "B (nbs.more s') \<subseteq> B (nbs.more s)"
      "nb_data ` set (H (nbs.more s')) \<subseteq> nb_data ` set (c @ H (nbs.more s))"
      "R (nbs.more s) (on_wire (nb_flags n) ((take 10 Z @ store16 ck @ drop 12 Z) @ T)) (nbs.more s')"
      "\<forall>k. 0 < k \<and> room (pool s) (k + 9)
         \<longrightarrow> room (pool s') k \<and> E (nbs.more s) (on_wire (nb_flags n) ((take 10 Z @ store16 ck @ drop 12 Z) @ T)) (nbs.more s')"
      using deliver [OF i2(1-3) same2 i2(4) refl i2(5) w2] by (elim exE conjE) (rule that)
    moreover have "outgoing netif (chain_bytes s c) = (take 10 Z @ store16 ck @ drop 12 Z) @ T"
      using False NT ck' by (simp add: outgoing_def Z_def)
    ultimately show ?thesis using s1(1) views [unfolded nr] vhl hl ck(1) s2(1) False dst
      by (intro exI [of _ s']) (simp add: fnet_ip4_netif_output_def nr del: chain_views.simps)
  qed
qed

end

lemma own_headers_tl:
  assumes "own_headers (c # cs) L" "c \<noteq> []" "nb_data ` set L' \<subseteq> nb_data ` set (c @ L)"
  shows "own_headers cs L'"
proof -
  define h H T where "h = nb_data (hd c)" and "H = (nb_data \<circ> hd) ` set cs" and "T = nb_data ` set (concat (map tl cs))"
  have a: "distinct (map (nb_data \<circ> hd) cs)" "h \<notin> H" "H \<inter> (nb_data ` set (tl c) \<union> T \<union> nb_data ` set L) = {}"
  proof -
    have "distinct (h # map (nb_data \<circ> hd) cs)" "insert h H \<inter> (nb_data ` set (tl c) \<union> T \<union> nb_data ` set L) = {}"
      using assms(1) by (simp_all add: own_headers_def h_def H_def T_def image_Un Un_assoc)
    then show "distinct (map (nb_data \<circ> hd) cs)" "h \<notin> H" "H \<inter> (nb_data ` set (tl c) \<union> T \<union> nb_data ` set L) = {}"
      by (auto simp: H_def)
  qed
  have "set (c @ L) = insert (hd c) (set (tl c) \<union> set L)" using assms(2) by (cases c) auto
  then have "nb_data ` set L' \<subseteq> insert h (nb_data ` set (tl c) \<union> nb_data ` set L)" using assms(3) by (simp add: h_def image_Un)
  then have "H \<inter> (T \<union> nb_data ` set L') = {}" using a(2,3) by blast
  then show ?thesis using a(1) by (simp add: own_headers_def H_def T_def image_Un)
qed

context roomy_allocator
begin

lemma send_all_ok:
  assumes out: "interface_ok owns room (if_mtu netif) H B I R E (\<lambda>s nb. out netif s (next_hop netif dest do_not_route) nb)"
  defines "wire f s c \<equiv> on_wire f (outgoing netif (chain_bytes s c))"
  shows "\<lbrakk>nb_inv owns (X \<union> B (nbs.more s)) s (concat cs @ L @ H (nbs.more s)); X \<inter> B (nbs.more s) = {};
      \<forall>c\<in>set cs. headed c; own_headers cs (L @ H (nbs.more s));
      \<forall>c\<in>set cs. chain_bytes s c ! 0 = 0x45 \<and> chain_length c \<le> if_mtu netif \<and> wire (nb_flags (hd c)) s c = wire f s c;
      I (nbs.more s)\<rbrakk> \<Longrightarrow>
    \<exists>s'. send_all (\<lambda>s nb. fnet_ip4_netif_output pad out netif dest s nb do_not_route) s cs = Some s'
      \<and> nb_inv owns (X \<union> B (nbs.more s')) s' (L @ H (nbs.more s')) \<and> same_bytes s s' L
      \<and> I (nbs.more s') \<and> B (nbs.more s') \<subseteq> B (nbs.more s)
      \<and> delivers R (nbs.more s) (map (wire f s) cs) (nbs.more s')
      \<and> (\<forall>k. 0 < k \<and> room (pool s) (k + 9 * length cs) \<longrightarrow> room (pool s') k
            \<and> delivers E (nbs.more s) (map (wire f s) cs) (nbs.more s'))"
proof (induction cs arbitrary: s)
  case Nil
  then show ?case by auto
next
  case (Cons c cs)
  have c: "headed c" "c \<noteq> []" "chain_bytes s c ! 0 = 0x45" "chain_length c \<le> if_mtu netif"
    "wire (nb_flags (hd c)) s c = wire f s c" using Cons.prems(3,5) by (auto simp: headed_def)
  have inv: "nb_inv owns (X \<union> B (nbs.more s)) s (c @ (concat cs @ L) @ H (nbs.more s))" using Cons.prems(1) by simp
  have fresh: "nb_data (hd c) \<notin> nb_data ` set (tl c @ (concat cs @ L) @ H (nbs.more s))"
    using own_headers_fresh [OF Cons.prems(4)] Cons.prems(3) by (auto simp: headed_def)
  obtain s1 where s1: "fnet_ip4_netif_output pad out netif dest s c do_not_route = Some s1"
      "nb_inv owns (X \<union> B (nbs.more s1)) s1 ((concat cs @ L) @ H (nbs.more s1))" "same_bytes s s1 (concat cs @ L)"
      "I (nbs.more s1)" "B (nbs.more s1) \<subseteq> B (nbs.more s)"
      "nb_data ` set (H (nbs.more s1)) \<subseteq> nb_data ` set (c @ H (nbs.more s))"
      "R (nbs.more s) (wire f s c) (nbs.more s1)"
    and e1: "\<forall>k. 0 < k \<and> room (pool s) (k + 9) \<longrightarrow> room (pool s1) k \<and> E (nbs.more s) (wire f s c) (nbs.more s1)"
    using netif_output_ok [where out = out, OF inv Cons.prems(2) c(1) fresh c(3,4) Cons.prems(6) out, of pad, folded wire_def,
        unfolded c(5)] by (elim exE conjE) (rule that)
  have "nb_data ` set (L @ H (nbs.more s1)) \<subseteq> nb_data ` set (c @ L @ H (nbs.more s))"
    using s1(6) by (auto simp: image_Un)
  from own_headers_tl [OF Cons.prems(4) c(2) this] have own: "own_headers cs (L @ H (nbs.more s1))" .
  have same: "chain_bytes s1 d = chain_bytes s d" if "d \<in> set cs" for d
    by (rule same_bytes_chain [OF s1(3)]) (use that in auto)
  have "nb_inv owns (X \<union> B (nbs.more s1)) s1 (concat cs @ L @ H (nbs.more s1))" "X \<inter> B (nbs.more s1) = {}"
    using s1(2,5) Cons.prems(2) by auto
  moreover have "\<forall>c\<in>set cs. headed c"
    "\<forall>c\<in>set cs. chain_bytes s1 c ! 0 = 0x45 \<and> chain_length c \<le> if_mtu netif \<and> wire (nb_flags (hd c)) s1 c = wire f s1 c"
    using Cons.prems(3,5) same by (simp_all add: wire_def)
  ultimately obtain s2 where
    s2: "send_all (\<lambda>s nb. fnet_ip4_netif_output pad out netif dest s nb do_not_route) s1 cs = Some s2"
      "nb_inv owns (X \<union> B (nbs.more s2)) s2 (L @ H (nbs.more s2))" "same_bytes s1 s2 L" "I (nbs.more s2)"
      "B (nbs.more s2) \<subseteq> B (nbs.more s1)" "delivers R (nbs.more s1) (map (wire f s1) cs) (nbs.more s2)"
    and e2: "\<forall>k. 0 < k \<and> room (pool s1) (k + 9 * length cs) \<longrightarrow> room (pool s2) k
            \<and> delivers E (nbs.more s1) (map (wire f s1) cs) (nbs.more s2)"
    using Cons.IH [OF _ _ _ own _ s1(4)] by blast
  have maps: "map (wire f s1) cs = map (wire f s) cs" using same by (simp add: wire_def)
  then have "delivers R (nbs.more s) (map (wire f s) (c # cs)) (nbs.more s2)"
    using delivers_one [of R, OF s1(7) s2(6)] by (simp only: list.map)
  moreover have "\<forall>k. 0 < k \<and> room (pool s) (k + 9 * length (c # cs)) \<longrightarrow> room (pool s2) k
      \<and> delivers E (nbs.more s) (map (wire f s) (c # cs)) (nbs.more s2)"
  proof (intro allI impI)
    fix k
    assume "0 < k \<and> room (pool s) (k + 9 * length (c # cs))"
    then have k: "0 < k" "room (pool s) ((k + 9 * length cs) + 9)" by (simp_all add: algebra_simps)
    with e1 [rule_format, of "k + 9 * length cs"] have
      1: "room (pool s1) (k + 9 * length cs)" "E (nbs.more s) (wire f s c) (nbs.more s1)" by simp_all
    with e2 [rule_format, of k] k(1) have
      2: "room (pool s2) k" "delivers E (nbs.more s1) (map (wire f s1) cs) (nbs.more s2)" by simp_all
    from 2 delivers_one [of E, OF 1(2) 2(2)] maps
    show "room (pool s2) k \<and> delivers E (nbs.more s) (map (wire f s) (c # cs)) (nbs.more s2)"
      by (simp only: list.map)
  qed
  moreover have "same_bytes s s2 L" using s1(3) s2(3) by (simp add: same_bytes_def)
  moreover have "B (nbs.more s2) \<subseteq> B (nbs.more s)" using s1(5) s2(5) by blast
  ultimately show ?case using s1(1) s2(1,2,4) by (intro exI [of _ s2]) simp
qed

end

section \<open>The packets of a datagram\<close>

text \<open>
  The header that \<^verbatim>\<open>_fnet_ip4_output\<close> makes; \<open>ck\<close> is what lies in the checksum field of the fresh
  buffer, and is never sent. Then the reference: the error code and the packets of a datagram, as a
  function of its contents alone.
\<close>

definition datagram_header ::
    "u16 \<Rightarrow> u8 \<Rightarrow> u8 \<Rightarrow> u8 \<Rightarrow> u32 \<Rightarrow> u32 \<Rightarrow> bool \<Rightarrow> u16 \<Rightarrow> nat \<Rightarrow> ip4_header" where
  "datagram_header ip_id tos ttl protocol src dst DF ck len =
     \<lparr>ih_version__header_length = 0x45, ih_tos = tos, ih_total_length = fnet_htons (of_nat (20 + len)),
      ih_id = fnet_htons ip_id, ih_flags_fragment_offset = (if DF then fnet_htons FNET_IP4_DF else 0), ih_ttl = ttl,
      ih_protocol = protocol, ih_checksum = ck, ih_source_addr = src, ih_desination_addr = dst\<rparr>"

definition ip4_packets :: "nat \<Rightarrow> ip4_header \<Rightarrow> u8 list \<Rightarrow> fnet_error \<times> u8 list list" where
  "ip4_packets mtu h D =
     (if 20 + length D > FNET_IP4_MAX_PACKET then (FNET_ERR_MSGSIZE, [])
      else if 20 + length D \<le> mtu then (FNET_ERR_OK, [ip4_bytes h @ D])
      else if ih_flags_fragment_offset h \<noteq> 0 \<or> mtu < 28 then (FNET_ERR_MSGSIZE, [])
      else (FNET_ERR_OK, frags_from h (frag_size mtu) 0 D))"

lemma outgoing_checksum:
  "outgoing netif (ip4_bytes (h\<lparr>ih_checksum := a\<rparr>) @ D) = outgoing netif (ip4_bytes h @ D)"
  unfolding set_ip4_fields(3) [symmetric] by (simp add: outgoing_def header_checksum_def)

lemma frags_checksum:
  "map (outgoing netif) (frags_from (h\<lparr>ih_checksum := a\<rparr>) F offset D) = map (outgoing netif) (frags_from h F offset D)"
proof (induction h F offset D rule: frags_from.induct)
  case (1 h F offset D)
  have h: "frag_header (h\<lparr>ih_checksum := a\<rparr>) offset mf len = (frag_header h offset mf len)\<lparr>ih_checksum := a\<rparr>" for mf len
    by (simp add: frag_header_def)
  show ?case
    using 1 by (subst (1 2) frags_from.simps) (simp add: h outgoing_checksum)
qed

lemma frags_header_bytes: "h' \<in> set (frags_from h F offset D) \<Longrightarrow> h' ! 0 = ih_version__header_length h"
  by (induction h F offset D rule: frags_from.induct)
    (subst (asm) (2) frags_from.simps, auto simp: frag_header_def ip4_bytes_def split: if_splits)

lemma frags_length: "0 < F \<Longrightarrow> h' \<in> set (frags_from h F offset D) \<Longrightarrow> length h' \<le> 20 + F"
  by (induction h F offset D rule: frags_from.induct)
    (subst (asm) (2) frags_from.simps, auto split: if_splits)

text \<open>Every packet of a datagram that is cut has its mark or a position that is not zero.\<close>

lemma and_one_bit: "x AND 0x40 = (0 :: u16) \<or> x AND 0x40 = 0x40"
proof -
  have "(0x40 :: u16) = push_bit 6 1" by simp
  then have b: "bit (0x40 :: u16) n = (n = 6)" for n by (simp only: bit_push_bit_iff bit_1_iff) auto
  have c: "bit (if c then (0x40 :: u16) else 0) n = (c \<and> n = 6)" for c n
    by (cases c) (simp_all only: b if_True if_False bit_0_eq bot_apply bot_bool_def simp_thms)
  have "x AND 0x40 = (if bit x 6 then 0x40 else 0)"
  proof (rule bit_word_eqI)
    fix n
    show "bit (x AND 0x40) n = bit (if bit x 6 then 0x40 else 0 :: u16) n" unfolding bit_and_iff c b by blast
  qed
  then show ?thesis by simp
qed

lemma position_bits:
  assumes "0 < k" "k < 8192"
  shows "fnet_htons (of_nat k) AND NOT (fnet_htons 0x4000) \<noteq> 0"
proof
  let ?x = "fnet_htons (of_nat k)"
  assume "?x AND NOT (fnet_htons 0x4000) = 0"
  moreover have "fnet_htons 0x4000 = 0x40" by code_simp
  moreover have "?x = (?x AND 0x40) OR (?x AND NOT 0x40)" by (simp flip: bit.conj_disj_distrib)
  ultimately have "?x = ?x AND 0x40" by simp
  with and_one_bit [of ?x] have "?x = 0 \<or> ?x = 0x40" by metis
  then have "fnet_htons ?x = fnet_htons 0 \<or> fnet_htons ?x = fnet_htons 0x40" by metis
  moreover have "fnet_htons 0 = 0" "fnet_htons 0x40 = 0x4000" by code_simp+
  ultimately have "of_nat k = (0 :: u16) \<or> of_nat k = (0x4000 :: u16)" by simp
  then have "unat (of_nat k :: u16) = 0 \<or> unat (of_nat k :: u16) = 0x4000" by auto
  then show False using assms by (simp add: unat_of_nat)
qed

lemma outgoing_as_fragment:
  "as_fragment (outgoing netif (ip4_bytes g @ xs)) \<longleftrightarrow> ih_flags_fragment_offset g AND NOT (fnet_htons 0x4000) \<noteq> 0"
proof -
  have "take 2 (drop 6 (outgoing netif (ip4_bytes g @ xs))) = store16 (ih_flags_fragment_offset g)"
    by (simp add: outgoing_def ip4_bytes_def store16_def store32_def eval_nat_numeral)
  then show ?thesis by (simp add: as_fragment_def)
qed

lemma frag_header_mark:
  assumes "mf \<or> 8 \<le> offset" "offset \<le> 65535"
  shows "ih_flags_fragment_offset (frag_header h offset mf len) AND NOT (fnet_htons 0x4000) \<noteq> 0"
proof -
  let ?m = "NOT (fnet_htons 0x4000)" and ?p = "fnet_htons (of_nat (offset div 8))"
  have x: "(?p OR y) AND ?m = (?p AND ?m) OR (y AND ?m)" for y by (rule bit.conj_disj_distrib2)
  show ?thesis
  proof (cases mf)
    case True
    have "fnet_htons FNET_IP4_MF AND ?m = 0x20" by code_simp
    moreover have "(a OR 0x20) \<noteq> 0" for a :: u16 by (simp add: or_eq_0_iff)
    ultimately show ?thesis using True by (simp add: frag_header_def x)
  next
    case False
    then have "0 < offset div 8" "offset div 8 < 8192" using assms by (simp_all add: div_greater_zero_iff)
    from position_bits [OF this] False show ?thesis by (simp add: frag_header_def)
  qed
qed

lemma frags_as_fragment:
  "q \<in> set (frags_from h F offset D) \<Longrightarrow> 8 \<le> F \<Longrightarrow> offset + length D \<le> 65535 \<Longrightarrow> 8 \<le> offset \<or> F < length D
     \<Longrightarrow> as_fragment (outgoing netif q)"
proof (induction h F offset D rule: frags_from.induct)
  case (1 h F offset D)
  show ?case
  proof (cases "length D \<le> F")
    case True
    then have "q = ip4_bytes (frag_header h offset False (length D)) @ D" "8 \<le> offset" "offset \<le> 65535"
      using 1(2-5) by (subst (asm) frags_from.simps, auto)+
    then show ?thesis by (simp add: outgoing_as_fragment frag_header_mark)
  next
    case False
    then have "q = ip4_bytes (frag_header h offset True F) @ take F D \<or> q \<in> set (frags_from h F (offset + F) (drop F D))"
      using 1(2,3) by (subst (asm) frags_from.simps) auto
    then show ?thesis
    proof
      assume "q \<in> set (frags_from h F (offset + F) (drop F D))"
      from 1(1) [OF _ this] False 1(3-5) show ?thesis by auto
    qed (use 1(4) in \<open>simp add: outgoing_as_fragment frag_header_mark\<close>)
  qed
qed

context roomy_allocator
begin

lemma ip4_refuse_ok:
  assumes inv: "nb_inv owns X s (c @ L)" and c: "headed c" "chain_bytes s c = ip4_bytes h @ D"
    and h: "ih_version__header_length h = 0x45"
    and no: "ih_flags_fragment_offset h AND fnet_htons FNET_IP4_DF \<noteq> 0 \<or> if_mtu netif < 28"
    and mtu: "20 \<le> if_mtu netif" "if_mtu netif < 4294967296"
  shows "\<exists>s'. ip4_fragment A dr pad out netif dest s c t do_not_route = Some (s', FNET_ERR_MSGSIZE)
     \<and> nb_inv owns X s' L \<and> same_bytes s s' L \<and> nbs.more s' = nbs.more s"
proof -
  have ne: "c \<noteq> []" "nb_length (hd c) = 20" using c(1) by (simp_all add: headed_def)
  have "in_buf s (hd c)" by (rule nb_inv_in_buf [OF inv]) (simp add: ne)
  from headed_hd(2) [OF c(1) this] have hb: "nb_bytes s (hd c) = ip4_bytes h" unfolding c(2) by simp
  have rd: "read_data s (nb_data (hd c)) (nb_off (hd c)) 20 = Some (ip4_bytes h)"
    using read_nb_ok [OF inv, of "hd c" 0 20] ne hb by simp
  have v: "header_length_of (ip4_bytes h ! 0) = 20" using h by (simp add: ip4_bytes_def header_length_of_def)
  have "if_mtu netif < 28 \<Longrightarrow> frag_size (if_mtu netif) < 8" by (simp add: frag_size_def)
  then have cond: "ih_flags_fragment_offset h AND fnet_htons FNET_IP4_DF \<noteq> 0 \<or> frag_size (if_mtu netif) < 8" using no by blast
  define w where "w = w32 (4294967276 + if_mtu netif) div 8"
  have "w * 8 = frag_size (if_mtu netif)" using frag_size_word [OF mtu] by (simp add: w_def)
  then have "frag_size (if_mtu netif) < 8 \<Longrightarrow> w = 0" by linarith
  then have cond': "\<not> (ih_flags_fragment_offset h AND fnet_htons FNET_IP4_DF = 0 \<and> 0 < w32 (4294967276 + if_mtu netif) div 8)"
    using cond by (auto simp flip: w_def)
  from free_chain_ok [OF inv] obtain s' where s': "fnet_netbuf_free_chain A s c = Some s'" "nb_inv owns X s' L"
    "same_bytes s s' L" by blast
  have "ip4_fragment A dr pad out netif dest s c t do_not_route = Some (s', FNET_ERR_MSGSIZE)"
    using rd cond' s'(1)
    by (simp add: ip4_fragment_def Let_def sizeof_ip4_header_def v)
  then show ?thesis using s' free_chain_more [OF s'(1)] by blast
qed

lemma ip4_dispatch_ok:
  assumes inv: "nb_inv owns (X \<union> B (nbs.more s)) s (c @ L @ H (nbs.more s))" "X \<inter> B (nbs.more s) = {}" and c: "headed c" "own_headers [c] (L @ H (nbs.more s))"
    and bytes: "chain_bytes s c = ip4_bytes h @ D"
    and h: "ih_version__header_length h = 0x45" "ih_flags_fragment_offset h = (if DF then fnet_htons FNET_IP4_DF else 0)"
      "ih_total_length h = fnet_htons (of_nat (20 + length D))"
    and mtu: "20 \<le> if_mtu netif" "if_mtu netif < 4294967296" "20 + length D \<le> FNET_IP4_MAX_PACKET"
    and pre: "c = pre @ [d]" "pre \<noteq> []" "if_mtu netif < 20 + length D \<longrightarrow> chain_length pre \<le> 20 + frag_size (if_mtu netif)"
    and I: "I (nbs.more s)" and out: "interface_ok owns room (if_mtu netif) H B I R E (\<lambda>s nb. out netif s (next_hop netif dest do_not_route) nb)"
  defines "wire \<equiv> \<lambda>p. on_wire (nb_flags (hd c)) (outgoing netif p)"
  shows "\<exists>s' e ps. (if 20 + length D > if_mtu netif
       then ip4_fragment A dr pad out netif dest s c (20 + length D) do_not_route
       else do { s \<leftarrow> fnet_ip4_netif_output pad out netif dest s c do_not_route; Some (s, FNET_ERR_OK) }) = Some (s', e)
     \<and> nb_inv owns (X \<union> B (nbs.more s')) s' (L @ H (nbs.more s')) \<and> same_bytes s s' L
     \<and> I (nbs.more s') \<and> B (nbs.more s') \<subseteq> B (nbs.more s)
     \<and> delivers R (nbs.more s) (map wire ps) (nbs.more s')
     \<and> ((e, ps) = ip4_packets (if_mtu netif) h D \<or> (e, ps) = (FNET_ERR_OK, []))
     \<and> (room (pool s) (23 * length (snd (ip4_packets (if_mtu netif) h D)) + 1)
          \<longrightarrow> (e, ps) = ip4_packets (if_mtu netif) h D
             \<and> delivers E (nbs.more s) (map wire ps) (nbs.more s'))"
proof -
  let ?Y = "X \<union> B (nbs.more s)" and ?f = "nb_flags (hd c)"
  have v: "(ip4_bytes h @ D) ! 0 = 0x45" using h(1) by (simp add: ip4_bytes_def)
  have send: "\<exists>s'. send_all (\<lambda>s nb. fnet_ip4_netif_output pad out netif dest s nb do_not_route) s1 cs = Some s'
      \<and> nb_inv owns (X \<union> B (nbs.more s')) s' (L @ H (nbs.more s')) \<and> same_bytes s s' L
      \<and> I (nbs.more s') \<and> B (nbs.more s') \<subseteq> B (nbs.more s)
      \<and> delivers R (nbs.more s) (map (wire \<circ> chain_bytes s1) cs) (nbs.more s')
      \<and> (room (pool s1) (1 + 9 * length cs) \<longrightarrow> delivers E (nbs.more s) (map (wire \<circ> chain_bytes s1) cs) (nbs.more s'))"
    if s1: "nb_inv owns ?Y s1 (concat cs @ L @ H (nbs.more s))" "\<forall>c\<in>set cs. headed c" "own_headers cs (L @ H (nbs.more s))"
      "\<forall>d\<in>set cs. chain_bytes s1 d ! 0 = 0x45 \<and> length (chain_bytes s1 d) \<le> if_mtu netif
         \<and> on_wire (nb_flags (hd d)) (outgoing netif (chain_bytes s1 d)) = wire (chain_bytes s1 d)"
      "nbs.more s1 = nbs.more s" "same_bytes s s1 L" for s1 cs
  proof -
    have "nb_inv owns (X \<union> B (nbs.more s1)) s1 (concat cs @ L @ H (nbs.more s1))" "own_headers cs (L @ H (nbs.more s1))"
      "I (nbs.more s1)" "X \<inter> B (nbs.more s1) = {}" using s1(1,3,5) I inv(2) by simp_all
    note t = this
    have "chain_length c = length (chain_bytes s1 c)" if "c \<in> set cs" for c
    proof -
      have "\<forall>m\<in>set c. in_buf s1 m" using that by (auto intro!: nb_inv_in_buf [OF s1(1)])
      then show ?thesis using length_chain_bytes [of c s1] by simp
    qed
    with s1(4) have "\<forall>d\<in>set cs. chain_bytes s1 d ! 0 = 0x45 \<and> chain_length d \<le> if_mtu netif
        \<and> on_wire (nb_flags (hd d)) (outgoing netif (chain_bytes s1 d)) = on_wire ?f (outgoing netif (chain_bytes s1 d))"
      by (simp add: wire_def)
    from send_all_ok [where out = out, OF out t(1,4) s1(2) t(2) this t(3), of pad] obtain s' where
      s': "send_all (\<lambda>s nb. fnet_ip4_netif_output pad out netif dest s nb do_not_route) s1 cs = Some s'"
        "nb_inv owns (X \<union> B (nbs.more s')) s' (L @ H (nbs.more s'))" "same_bytes s1 s' L" "I (nbs.more s')"
        "B (nbs.more s') \<subseteq> B (nbs.more s1)"
        "delivers R (nbs.more s1) (map (\<lambda>d. on_wire ?f (outgoing netif (chain_bytes s1 d))) cs) (nbs.more s')"
      and e: "\<forall>k. 0 < k \<and> room (pool s1) (k + 9 * length cs) \<longrightarrow> room (pool s') k
          \<and> delivers E (nbs.more s1) (map (\<lambda>d. on_wire ?f (outgoing netif (chain_bytes s1 d))) cs) (nbs.more s')"
      by (elim exE conjE) (rule that)
    have "same_bytes s s' L" using s'(3) s1(6) by (simp add: same_bytes_def)
    then show ?thesis using s' s1(5) e [rule_format, of 1] by (intro exI [of _ s']) (simp add: wire_def comp_def)
  qed
  show ?thesis
  proof (cases "20 + length D > if_mtu netif")
    case big: True
    show ?thesis
    proof (cases "DF \<or> if_mtu netif < 28")
      case True
      then have no: "ih_flags_fragment_offset h AND fnet_htons FNET_IP4_DF \<noteq> 0 \<or> if_mtu netif < 28"
        using h(2) by (auto simp: fnet_htons_def FNET_IP4_DF_def)
      have "ip4_packets (if_mtu netif) h D = (FNET_ERR_MSGSIZE, [])"
        using True big h(2) mtu(3) by (auto simp: ip4_packets_def fnet_htons_def FNET_IP4_DF_def)
      with ip4_refuse_ok [OF inv(1) c(1) bytes h(1) no mtu(1,2), of dr pad out dest "20 + length D" do_not_route] big I
      show ?thesis by (elim exE conjE) (intro exI [of _ "[]"] exI, auto simp: same_bytes_def)
    next
      case False
      then have small: "28 \<le> if_mtu netif" "20 + length D \<le> 65535" "ih_flags_fragment_offset h = 0" "\<not> DF"
        using mtu(3) h(2) by (simp_all add: FNET_IP4_MAX_PACKET_def)
      have pre': "chain_length pre \<le> 20 + frag_size (if_mtu netif)" using pre(3) big by simp
      obtain s1 cs where s1: "nb_inv owns ?Y s1 (concat cs @ L @ H (nbs.more s))" "same_bytes s s1 (L @ H (nbs.more s))"
          "nbs.more s1 = nbs.more s" "\<forall>c\<in>set cs. headed c" "own_headers cs (L @ H (nbs.more s))"
          "ip4_fragment A dr pad out netif dest s c (20 + length D) do_not_route
           = do { s \<leftarrow> send_all (\<lambda>s nb. fnet_ip4_netif_output pad out netif dest s nb do_not_route) s1 cs;
                  Some (s, FNET_ERR_OK) }"
          "cs = [] \<or> map (chain_bytes s1) cs = frags_from h (frag_size (if_mtu netif)) 0 D"
        and rm: "\<forall>k. 0 < k \<and> room (pool s) (k + 14 * length (frags_from h (frag_size (if_mtu netif)) 0 D))
           \<longrightarrow> cs \<noteq> [] \<and> room (pool s1) k"
        using ip4_fragment_ok [OF inv(1) c pre(1) bytes h(1) small(3) h(3) small(1) big small(2) pre(2) pre',
            of dr pad out dest do_not_route] by (elim exE conjE) (rule that)
      let ?ps = "map (chain_bytes s1) cs"
      have "chain_bytes s1 d ! 0 = 0x45 \<and> length (chain_bytes s1 d) \<le> if_mtu netif
          \<and> on_wire (nb_flags (hd d)) (outgoing netif (chain_bytes s1 d)) = wire (chain_bytes s1 d)" if "d \<in> set cs" for d
      proof -
        have "cs \<noteq> []" using that by auto
        then have fr: "map (chain_bytes s1) cs = frags_from h (frag_size (if_mtu netif)) 0 D" using s1(7) by blast
        have d: "chain_bytes s1 d \<in> set (frags_from h (frag_size (if_mtu netif)) 0 D)"
          using that unfolding fr [symmetric] by simp
        have F: "0 < frag_size (if_mtu netif)" "20 + frag_size (if_mtu netif) \<le> if_mtu netif"
          using frag_size_bounds [of "if_mtu netif"] small(1) by linarith+
        have "8 \<le> frag_size (if_mtu netif)" "frag_size (if_mtu netif) < length D"
          using frag_size_bounds [of "if_mtu netif"] small(1) big by linarith+
        with frags_as_fragment [OF d, of netif] small(2) have "as_fragment (outgoing netif (chain_bytes s1 d))" by simp
        with frags_header_bytes [OF d] frags_length [OF F(1) d] F(2) h(1) show ?thesis by (simp add: wire_def on_wire_fragment)
      qed
      moreover have "same_bytes s s1 L" using s1(2) by (simp add: same_bytes_def)
      ultimately obtain s2 where s2:
        "send_all (\<lambda>s nb. fnet_ip4_netif_output pad out netif dest s nb do_not_route) s1 cs = Some s2"
        "nb_inv owns (X \<union> B (nbs.more s2)) s2 (L @ H (nbs.more s2))" "same_bytes s s2 L" "I (nbs.more s2)"
        "B (nbs.more s2) \<subseteq> B (nbs.more s)"
        "delivers R (nbs.more s) (map wire ?ps) (nbs.more s2)"
        "room (pool s1) (1 + 9 * length cs) \<longrightarrow> delivers E (nbs.more s) (map wire ?ps) (nbs.more s2)"
        using send [OF s1(1,4,5) _ s1(3)] by (auto simp: comp_def)
      have pk: "ip4_packets (if_mtu netif) h D = (FNET_ERR_OK, frags_from h (frag_size (if_mtu netif)) 0 D)"
        using big small mtu(3) by (simp add: ip4_packets_def)
      have "(FNET_ERR_OK, ?ps) = ip4_packets (if_mtu netif) h D
          \<and> delivers E (nbs.more s) (map wire ?ps) (nbs.more s2)"
        if r: "room (pool s) (23 * length (snd (ip4_packets (if_mtu netif) h D)) + 1)"
      proof -
        let ?m = "length (frags_from h (frag_size (if_mtu netif)) 0 D)"
        have "room (pool s) ((1 + 9 * ?m) + 14 * ?m)" using r by (simp add: pk)
        with rm [rule_format, of "1 + 9 * ?m"] have cs: "cs \<noteq> []" "room (pool s1) (1 + 9 * ?m)" by simp_all
        then have ps: "?ps = frags_from h (frag_size (if_mtu netif)) 0 D" using s1(7) by blast
        then have "length cs = ?m" by (metis length_map)
        then show ?thesis using s2(7) cs(2) ps by (simp add: pk)
      qed
      moreover have "(FNET_ERR_OK, ?ps) = ip4_packets (if_mtu netif) h D \<or> (FNET_ERR_OK, ?ps) = (FNET_ERR_OK, [])"
        using s1(7) by (auto simp: pk)
      ultimately show ?thesis using s2 s1(6) big by (intro exI [of _ s2] exI [of _ FNET_ERR_OK] exI [of _ ?ps]) simp
    qed
  next
    case False
    have i: "nb_inv owns ?Y s (concat [c] @ L @ H (nbs.more s))" using inv(1) by simp
    have "\<forall>c\<in>set [c]. headed c" "\<forall>d\<in>set [c]. chain_bytes s d ! 0 = 0x45 \<and> length (chain_bytes s d) \<le> if_mtu netif
        \<and> on_wire (nb_flags (hd d)) (outgoing netif (chain_bytes s d)) = wire (chain_bytes s d)"
      using c(1) bytes v False by (simp_all add: wire_def)
    with send [OF i _ c(2)] obtain s2 where s2: "fnet_ip4_netif_output pad out netif dest s c do_not_route = Some s2"
        "nb_inv owns (X \<union> B (nbs.more s2)) s2 (L @ H (nbs.more s2))" "same_bytes s s2 L" "I (nbs.more s2)"
        "B (nbs.more s2) \<subseteq> B (nbs.more s)"
        "delivers R (nbs.more s) [wire (ip4_bytes h @ D)] (nbs.more s2)"
        "room (pool s) 10 \<longrightarrow> delivers E (nbs.more s) [wire (ip4_bytes h @ D)] (nbs.more s2)"
      using bytes by (auto simp: bind_eq_Some_conv)
    have "ip4_packets (if_mtu netif) h D = (FNET_ERR_OK, [ip4_bytes h @ D])" using False mtu(3) by (simp add: ip4_packets_def)
    then show ?thesis using s2 False room_less [of "pool s" 24 10]
      by (intro exI [of _ s2] exI [of _ FNET_ERR_OK] exI [of _ "[ip4_bytes h @ D]"]) simp
  qed
qed

end

definition ip4_wire :: "netif \<Rightarrow> ip4_header \<Rightarrow> u8 list \<Rightarrow> fnet_error \<times> u8 list list" where
  "ip4_wire netif h D = (case ip4_packets (if_mtu netif) h D of (e, ps) \<Rightarrow> (e, map (outgoing netif) ps))"

lemma ip4_wire_checksum: "ip4_wire netif (h\<lparr>ih_checksum := a\<rparr>) D = ip4_wire netif h D"
  by (simp add: ip4_wire_def ip4_packets_def outgoing_checksum frags_checksum)

text \<open>The data with the transport checksum completed at \<open>k\<close>.\<close>

definition with_checksum :: "u8 \<Rightarrow> u32 \<Rightarrow> u32 \<Rightarrow> nat option \<Rightarrow> u8 list \<Rightarrow> u8 list" where
  "with_checksum pad src dst ck D =
     (case ck of
        None \<Rightarrow> D
      | Some k \<Rightarrow> take k D
          @ store16 (fnet_checksum_pseudo_netbuf_end pad (load16l (take 2 (drop k D))) (store32 src) (store32 dst) 4)
          @ drop (k + 2) D)"

lemma length_with_checksum: "(\<forall>k. ck = Some k \<longrightarrow> k + 2 \<le> length D) \<Longrightarrow> length (with_checksum pad src dst ck D) = length D"
  by (auto simp: with_checksum_def split: option.splits)

lemma set_vhl: "set_header_length (set_version x 4) 5 = 0x45"
proof -
  have "(x AND 0x0F) AND 0xF0 = x AND (0x0F AND 0xF0)" by (rule and.assoc)
  then show ?thesis by (simp add: set_header_length_def set_version_def bit.conj_disj_distrib2)
qed

context roomy_allocator
begin

lemma transport_checksum_ok:
  assumes inv: "nb_inv owns X s (m # r @ L)" and fresh: "nb_data m \<notin> nb_data ` set (r @ L)"
    and k: "k + 2 \<le> nb_length m" and bytes: "chain_bytes s (m # r) = D"
  shows "\<exists>s'. do { c \<leftarrow> read_data s (nb_data m) (nb_off m + k) 2;
        write_data s (nb_data m) (nb_off m + k) (store16 (fnet_checksum_pseudo_netbuf_end pad (load16l c)
          (store32 src) (store32 dst) 4)) } = Some s'
     \<and> nb_inv owns X s' (m # r @ L) \<and> same_bytes s s' (r @ L) \<and> nbs.more s' = nbs.more s
     \<and> chain_bytes s' (m # r) = with_checksum pad src dst (Some k) D"
proof -
  have "in_buf s m" by (rule nb_inv_in_buf [OF inv]) simp
  then have lm: "length (nb_bytes s m) = nb_length m" by (rule length_nb_bytes)
  have D: "D = nb_bytes s m @ chain_bytes s r" using bytes by simp
  have rd: "read_data s (nb_data m) (nb_off m + k) 2 = Some (take 2 (drop k D))"
    using read_nb_ok [OF inv, of m k 2] k lm by (simp add: D)
  let ?v = "store16 (fnet_checksum_pseudo_netbuf_end pad (load16l (take 2 (drop k D))) (store32 src) (store32 dst) 4)"
  obtain s' where s': "write_data s (nb_data m) (nb_off m + k) ?v = Some s'" "nb_inv owns X s' (m # r @ L)"
      "same_bytes s s' (r @ L)" "nbs.more s' = nbs.more s" "nb_bytes s' m = take k (nb_bytes s m) @ ?v @ drop (k + 2) (nb_bytes s m)"
    using write_view_ok [OF inv fresh, of k ?v] k by auto
  have "chain_bytes s' r = chain_bytes s r" by (rule same_bytes_chain [OF s'(3)]) auto
  then have "chain_bytes s' (m # r) = with_checksum pad src dst (Some k) D"
    using s'(5) k lm by (simp add: with_checksum_def D)
  then show ?thesis using s'(1-4) rd by (intro exI [of _ s']) simp
qed

lemma ip4_output_ok:
  assumes inv: "nb_inv owns (X \<union> B (nbs.more s)) s (nb @ L @ H (nbs.more s))" "X \<inter> B (nbs.more s) = {}" and nb: "nb = pre @ [d]" "\<forall>m\<in>set nb. 0 < nb_length m" "total_ok nb"
    and D: "chain_bytes s nb = D" "20 + length D < 4294967296"
    and route: "(case netif of None \<Rightarrow> fnet_ip4_route netifs dflt dest | Some n \<Rightarrow> Some n) = Some net"
    and mtu: "20 \<le> if_mtu net" "if_mtu net < 4294967296"
    and pre: "if_mtu net < 20 + length D \<longrightarrow> chain_length pre \<le> frag_size (if_mtu net)"
    and dr: "drain_ok owns H B Q (nb @ L) dr" "reflp Q" "transp Q" "\<forall>z z'. Q z z' \<and> I z \<longrightarrow> I z'"
      "\<forall>z z'. Q z z' \<longrightarrow> nb_data ` set (H z') \<subseteq> nb_data ` set (H z)"
    and I: "I (nbs.more s)" and out: "interface_ok owns room (if_mtu net) H B I R E (\<lambda>s nb. out net s (next_hop net dest do_not_route) nb)"
    and ck: "checksum = map_option (\<lambda>k. (nb_data (hd nb), nb_off (hd nb) + k)) ck"
      "\<forall>k. ck = Some k \<longrightarrow> k + 2 \<le> nb_length (hd nb) \<and> nb_data (hd nb) \<notin> nb_data ` set (tl nb @ L @ H (nbs.more s))"
    and src: "src = (if src_ip = 0 then if_address net else src_ip)"
  shows "\<exists>s' id e z ws. fnet_ip4_output A dr pad out netifs dflt s ip_id netif src_ip dest protocol tos ttl nb DF do_not_route
       checksum = Some (s', id, e)
     \<and> nb_inv owns (X \<union> B (nbs.more s')) s' (L @ H (nbs.more s')) \<and> same_bytes s s' L
     \<and> I (nbs.more s') \<and> B (nbs.more s') \<subseteq> B (nbs.more s)
     \<and> Q (nbs.more s) z \<and> delivers R z (map (on_wire (nb_flags (hd nb))) ws) (nbs.more s')
     \<and> ((e, ws) = ip4_wire net (datagram_header ip_id tos ttl protocol src dest DF 0 (length D)) (with_checksum pad src dest ck D)
          \<and> id = (if 20 + length D > FNET_IP4_MAX_PACKET then ip_id else ip_id + 1)
        \<or> ws = [] \<and> (e = FNET_ERR_NOMEM \<and> id = ip_id \<or> e = FNET_ERR_OK \<and> id = ip_id + 1))
     \<and> (room (pool s) (23 * length (snd (ip4_wire net (datagram_header ip_id tos ttl protocol src dest DF 0 (length D))
              (with_checksum pad src dest ck D))) + 10)
          \<longrightarrow> (e, ws) = ip4_wire net (datagram_header ip_id tos ttl protocol src dest DF 0 (length D)) (with_checksum pad src dest ck D)
             \<and> id = (if 20 + length D > FNET_IP4_MAX_PACKET then ip_id else ip_id + 1)
             \<and> delivers E (nbs.more s) (map (on_wire (nb_flags (hd nb))) ws) (nbs.more s'))"
    (is "\<exists>s' id e z ws. ?run = _ \<and> _")
proof -
  let ?h = "datagram_header ip_id tos ttl protocol src dest DF 0 (length D)" and ?D = "with_checksum pad src dest ck D"
  let ?Y = "X \<union> B (nbs.more s)"
  obtain m r where mr: "nb = m # r" using nb(1) by (cases pre) auto
  have "\<forall>x\<in>set nb. in_buf s x" using inv(1) by (auto intro: nb_inv_in_buf)
  then have cl: "chain_length nb = length D" "length (nb_bytes s m) = nb_length m"
    using length_chain_bytes [of nb s] D(1) length_nb_bytes [of s m] by (auto simp: mr)
  have tot: "nb_total_length m = length D" using nb(3) cl by (simp add: total_ok_def mr)
  have ckD: "\<forall>k. ck = Some k \<longrightarrow> k + 2 \<le> length D" using ck(2) D(1) cl(2) by (auto simp: mr)
  note lD = length_with_checksum [OF ckD, of pad src dest]
  show ?thesis
  proof (cases "20 + length D > FNET_IP4_MAX_PACKET")
    case True
    from free_chain_ok [OF inv(1)] obtain s1 where s1: "fnet_netbuf_free_chain A s nb = Some s1"
      "nb_inv owns ?Y s1 (L @ H (nbs.more s))" "same_bytes s s1 (L @ H (nbs.more s))" by blast
    note more1 = free_chain_more [OF s1(1)]
    have "?run = Some (s1, ip_id, FNET_ERR_MSGSIZE)"
      using True D(2) route s1(1) tot
      by (simp add: fnet_ip4_output_def Let_def sizeof_ip4_header_def add.commute mr)
    moreover have "ip4_wire net ?h ?D = (FNET_ERR_MSGSIZE, [])" using True lD by (simp add: ip4_wire_def ip4_packets_def)
    moreover have "Q (nbs.more s) (nbs.more s)" by (rule reflpD [OF dr(2)])
    ultimately show ?thesis using s1(2,3) more1 I True
      by (intro exI [of _ s1] exI [of _ ip_id] exI [of _ FNET_ERR_MSGSIZE] exI [of _ "nbs.more s"] exI [of _ "[]"])
        (simp add: same_bytes_def)
  next
    case False
    then have fit: "20 + length D \<le> 32768" by (simp add: FNET_IP4_MAX_PACKET_def)
    have i: "nb_inv owns ?Y s ((nb @ L) @ H (nbs.more s))" using inv(1) by simp
    have twenty: "20 + 12 \<le> (4294967296 :: nat)" by simp
    obtain s1 hb where s1: "fnet_netbuf_new A dr s 20 True = Some (s1, hb)" "same_bytes s s1 (nb @ L)" "Q (nbs.more s) (nbs.more s1)"
        "B (nbs.more s1) \<subseteq> B (nbs.more s)"
      and hb: "hb = [] \<and> nb_inv owns (X \<union> B (nbs.more s1)) s1 ((nb @ L) @ H (nbs.more s1))
        \<or> (\<exists>n. hb = [n] \<and> nb_inv owns (X \<union> B (nbs.more s1)) s1 (n # (nb @ L) @ H (nbs.more s1)) \<and> nb_length n = 20 \<and> nb_total_length n = 20
             \<and> nb_off n = 0 \<and> nb_data n \<notin> nb_data ` set ((nb @ L) @ H (nbs.more s1)) \<and> length (bytes_at s1 (nb_data n)) = 20)"
      using netbuf_new_drain_ok [OF i inv(2) twenty dr(1-3), of True] by (elim exE conjE) (rule that)
    have rm1: "hb \<noteq> [] \<and> room (pool s1) k \<and> nbs.more s1 = nbs.more s" if "0 < k" "room (pool s) (k + 9)" for k
      using netbuf_new_room(1-3) [OF i twenty that(1) _ s1(1)] that(2) by (simp add: add.commute)
    have X1: "X \<inter> B (nbs.more s1) = {}" using inv(2) s1(4) by blast
    have I1: "I (nbs.more s1)" using dr(4) s1(3) I by blast
    have H1: "nb_data ` set (H (nbs.more s1)) \<subseteq> nb_data ` set (H (nbs.more s))" using dr(5) s1(3) by blast
    have le: "\<not> FNET_IP4_MAX_PACKET < w32 (length D + 20)" using fit by (simp add: FNET_IP4_MAX_PACKET_def)
    show ?thesis
    proof (cases hb)
      case Nil
      with hb have "nb_inv owns (X \<union> B (nbs.more s1)) s1 (nb @ L @ H (nbs.more s1))" by simp
      from free_chain_ok [OF this] obtain s2 where s2: "fnet_netbuf_free_chain A s1 nb = Some s2"
        "nb_inv owns (X \<union> B (nbs.more s1)) s2 (L @ H (nbs.more s1))" "same_bytes s1 s2 (L @ H (nbs.more s1))" by blast
      note more2 = free_chain_more [OF s2(1)]
      have "?run = Some (s2, ip_id, FNET_ERR_NOMEM)"
        using le route s1(1) s2(1) tot Nil by (simp add: fnet_ip4_output_def Let_def sizeof_ip4_header_def mr)
      moreover have "same_bytes s s2 L" using s1(2) s2(3) by (simp add: same_bytes_def)
      moreover have "\<not> room (pool s) (k + 10)" for k using rm1 [of "k + 1"] Nil by (auto simp: add.commute)
      ultimately show ?thesis using s2(2) more2 I1 s1(3,4)
        by (intro exI [of _ s2] exI [of _ ip_id] exI [of _ FNET_ERR_NOMEM] exI [of _ "nbs.more s1"] exI [of _ "[]"]) simp
    next
      case (Cons n x)
      let ?R = "L @ H (nbs.more s1)" and ?Y1 = "X \<union> B (nbs.more s1)"
      have n: "hb = [n]" "nb_inv owns ?Y1 s1 (n # nb @ ?R)" "nb_length n = 20" "nb_total_length n = 20" "nb_off n = 0"
        "nb_data n \<notin> nb_data ` set (nb @ ?R)" "length (bytes_at s1 (nb_data n)) = 20"
        using hb Cons by auto
      have nf: "nb_flags n = 0" using netbuf_new_flags s1(1) n(1) by blast
      have D1: "chain_bytes s1 nb = D" using same_bytes_chain [OF s1(2), of nb] D(1) by simp
      define put_ck where "put_ck s = (case checksum of None \<Rightarrow> Some s
        | Some (d, i) \<Rightarrow> do { c \<leftarrow> read_data s d i 2; write_data s d i (store16 (fnet_checksum_pseudo_netbuf_end pad (load16l c)
                                  (store32 src) (store32 dest) 4)) })" for s :: "('p, 'a) nbs_scheme"
      have inv1: "nb_inv owns ?Y1 s1 (m # r @ n # ?R)" using nb_inv_permute [OF n(2), of "m # r @ n # ?R"] by (simp add: mr)
      obtain s2 where s2: "put_ck s1 = Some s2" "nb_inv owns ?Y1 s2 (m # r @ n # ?R)" "same_bytes s1 s2 (n # ?R)"
          "nbs.more s2 = nbs.more s1" "chain_bytes s2 nb = ?D" "pool s2 = pool s1"
      proof (cases ck)
        case None
        with that [of s1] inv1 D1 ck(1) show ?thesis by (simp add: put_ck_def with_checksum_def)
      next
        case (Some k)
        have "nb_data m \<notin> nb_data ` set (r @ L @ H (nbs.more s))" "nb_data m \<noteq> nb_data n" "k + 2 \<le> nb_length m"
          using ck(2) Some n(6) by (auto simp: mr)
        then have "nb_data m \<notin> nb_data ` set (r @ n # ?R)" using H1 by (auto simp: image_Un)
        from transport_checksum_ok [OF inv1 this, of k D pad src dest] \<open>k + 2 \<le> nb_length m\<close> D1 obtain s2 where
          "put_ck s1 = Some s2" "nb_inv owns ?Y1 s2 (m # r @ n # ?R)" "same_bytes s1 s2 (r @ n # ?R)"
          "nbs.more s2 = nbs.more s1" "chain_bytes s2 nb = ?D" using Some ck(1) by (auto simp: put_ck_def mr)
        moreover from this(1) have "pool s2 = pool s1"
          by (auto simp: put_ck_def bind_eq_Some_conv write_data_pool split: option.splits)
        ultimately show ?thesis by (intro that [of s2]) (auto simp: same_bytes_def)
      qed
      have inv2: "nb_inv owns ?Y1 s2 (n # nb @ ?R)" using nb_inv_permute [OF s2(2), of "n # nb @ ?R"] by (simp add: mr)
      have inn: "in_buf s2 n" by (rule nb_inv_in_buf [OF inv2]) simp
      define old where "old = nb_bytes s2 n"
      have old: "read_data s2 (nb_data n) (nb_off n) 20 = Some old" "length old = 20"
        using read_nb_ok [OF inv2, of n 0 20] n(3) length_nb_bytes [OF inn] by (simp_all add: old_def)
      define h where "h = datagram_header ip_id tos ttl protocol src dest DF (load16l (drop 10 old)) (length D)"
      have "0 + length (ip4_bytes h) \<le> nb_length n" using n(3) by simp
      from write_view_ok [OF inv2 n(6) this] n(3) length_nb_bytes [OF inn] obtain s3 where
        s3: "write_data s2 (nb_data n) (nb_off n) (ip4_bytes h) = Some s3" "nb_inv owns ?Y1 s3 (n # nb @ ?R)"
          "same_bytes s2 s3 (nb @ ?R)" "nbs.more s3 = nbs.more s2" "nb_bytes s3 n = ip4_bytes h" by auto
      have D3: "chain_bytes s3 nb = ?D" using same_bytes_chain [OF s3(3), of nb] s2(5) by simp
      define n' where "n' = n\<lparr>nb_flags := nb_flags n OR nb_flags m, nb_total_length := 20 + length D\<rparr>"
      have cc: "fnet_netbuf_concat [n] nb = n' # nb"
        using n(4) tot fit by (simp add: fnet_netbuf_concat_def n'_def mr)
      have hc: "headed (n' # nb)" using nb(2) n(3) cl(1) by (simp add: headed_def total_ok_def n'_def)
      have own: "own_headers [n' # nb] (L @ H (nbs.more s3))" using n(6) s3(4) s2(4) by (auto simp: own_headers_def n'_def)
      have inv3: "nb_inv owns (X \<union> B (nbs.more s3)) s3 ((n' # nb) @ L @ H (nbs.more s3))"
        using nb_inv_view [OF s3(2), of n'] nb_inv_in_buf [OF s3(2), of n] s3(4) s2(4) by (simp add: n'_def in_buf_def)
      have b3: "chain_bytes s3 (n' # nb) = ip4_bytes h @ ?D" using s3(5) D3 by (simp add: n'_def nb_bytes_def)
      have hh: "ih_version__header_length h = 0x45" "ih_flags_fragment_offset h = (if DF then fnet_htons FNET_IP4_DF else 0)"
        "ih_total_length h = fnet_htons (of_nat (20 + length ?D))" by (simp_all add: h_def datagram_header_def lD)
      have sh: "n' # nb = (n' # pre) @ [d]" "n' # pre \<noteq> []" using nb(1) by simp_all
      have pl: "if_mtu net < 20 + length ?D \<longrightarrow> chain_length (n' # pre) \<le> 20 + frag_size (if_mtu net)"
        using pre n(3) by (simp add: lD n'_def)
      have fit': "20 + length ?D \<le> FNET_IP4_MAX_PACKET" using False lD by simp
      have I3: "I (nbs.more s3)" "X \<inter> B (nbs.more s3) = {}" using I1 X1 s3(4) s2(4) by simp_all
      have fl: "nb_flags (hd (n' # nb)) = nb_flags (hd nb)" using nf by (simp add: n'_def mr)
      let ?w = "\<lambda>p. on_wire (nb_flags (hd nb)) (outgoing net p)"
      obtain s4 e ps where s4: "(if 20 + length ?D > if_mtu net
           then ip4_fragment A dr pad out net dest s3 (n' # nb) (20 + length ?D) do_not_route
           else do { s \<leftarrow> fnet_ip4_netif_output pad out net dest s3 (n' # nb) do_not_route; Some (s, FNET_ERR_OK) }) = Some (s4, e)"
          "nb_inv owns (X \<union> B (nbs.more s4)) s4 (L @ H (nbs.more s4))" "same_bytes s3 s4 L" "I (nbs.more s4)"
          "B (nbs.more s4) \<subseteq> B (nbs.more s3)" "delivers R (nbs.more s3) (map ?w ps) (nbs.more s4)"
          "(e, ps) = ip4_packets (if_mtu net) h ?D \<or> (e, ps) = (FNET_ERR_OK, [])"
        and e4: "room (pool s3) (23 * length (snd (ip4_packets (if_mtu net) h ?D)) + 1)
          \<longrightarrow> (e, ps) = ip4_packets (if_mtu net) h ?D \<and> delivers E (nbs.more s3) (map ?w ps) (nbs.more s4)"
        using ip4_dispatch_ok [where out = out, OF inv3 I3(2) hc own b3 hh mtu fit' sh pl I3(1) out, of dr pad, unfolded fl]
        by (elim exE conjE) (rule that)
      have "?run = Some (s4, ip_id + 1, e)"
      proof -
        have w: "w16 (length D + 20) = 20 + length D" using fit by simp
        have hd: "\<lparr>ih_version__header_length = set_header_length (set_version (old ! 0) 4) 5,
           ih_tos = tos, ih_total_length = fnet_htons (of_nat (20 + length D)), ih_id = fnet_htons ip_id,
           ih_flags_fragment_offset = (if DF then fnet_htons FNET_IP4_DF else 0), ih_ttl = ttl,
           ih_protocol = protocol, ih_checksum = load16l (drop 10 old), ih_source_addr = src,
           ih_desination_addr = dest\<rparr> = h" by (simp only: set_vhl h_def datagram_header_def)
        have put: "(case checksum of None \<Rightarrow> Some s1 | Some (d, i) \<Rightarrow> do { c \<leftarrow> read_data s1 d i 2;
              write_data s1 d i (store16 (fnet_checksum_pseudo_netbuf_end pad (load16l c) (store32 src) (store32 dest) 4)) })
            = Some s2" using s2(1) by (simp only: put_ck_def)
        note steps = fnet_ip4_output_def Let_def route mr src [symmetric] s1(1) n(1) put old(1) s3(1) hd w sizeof_ip4_header_def
          cc [unfolded mr] tot
        show ?thesis
        proof (cases "if_mtu net < 20 + length D")
          case True
          then have "ip4_fragment A dr pad out net dest s3 (n' # m # r) (20 + length D) do_not_route = Some (s4, e)"
            using s4(1) by (simp add: lD mr)
          with True le show ?thesis by (simp add: steps del: of_nat_add of_nat_numeral)
        next
          case False
          then have "fnet_ip4_netif_output pad out net dest s3 (n' # m # r) do_not_route = Some s4" "e = FNET_ERR_OK"
            using s4(1) by (simp_all add: lD mr bind_eq_Some_conv)
          with False le show ?thesis by (simp add: steps del: of_nat_add of_nat_numeral)
        qed
      qed
      moreover have "same_bytes s s4 L" using s1(2) s2(3) s3(3) s4(3) by (simp add: same_bytes_def)
      moreover have maps: "map (on_wire (nb_flags (hd nb))) (map (outgoing net) ps) = map ?w ps" by simp
      have "delivers R (nbs.more s1) (map (on_wire (nb_flags (hd nb))) (map (outgoing net) ps)) (nbs.more s4)"
        unfolding maps using s4(6) s3(4) s2(4) by simp
      moreover have "B (nbs.more s4) \<subseteq> B (nbs.more s)" using s4(5) s3(4) s2(4) s1(4) by simp
      moreover have wire: "ip4_wire net ?h ?D = (case ip4_packets (if_mtu net) h ?D of (e, ps) \<Rightarrow> (e, map (outgoing net) ps))"
        using ip4_wire_checksum [of net "load16l (drop 10 old)" ?h ?D]
        by (simp add: h_def datagram_header_def flip: ip4_wire_def)
      have "(e, map (outgoing net) ps) = ip4_wire net ?h ?D \<or> (e, map (outgoing net) ps) = (FNET_ERR_OK, [])"
        using s4(7) unfolding wire by (auto split: prod.splits)
      moreover have "(e, map (outgoing net) ps) = ip4_wire net ?h ?D
          \<and> delivers E (nbs.more s) (map (on_wire (nb_flags (hd nb))) (map (outgoing net) ps)) (nbs.more s4)"
        if "room (pool s) (23 * length (snd (ip4_wire net ?h ?D)) + 10)"
      proof -
        let ?m = "23 * length (snd (ip4_packets (if_mtu net) h ?D))"
        have "room (pool s) ((?m + 1) + 9)" using that unfolding wire by (simp add: add.commute split: prod.splits)
        from rm1 [OF _ this] have "room (pool s3) (?m + 1)" "nbs.more s3 = nbs.more s"
          using s2(4,6) write_data_pool [OF s3(1)] s3(4) by simp_all
        with e4 show ?thesis unfolding wire maps by (auto split: prod.splits)
      qed
      ultimately show ?thesis using s4(2,4) s1(3) False
        by (intro exI [of _ s4] exI [of _ "ip_id + 1"] exI [of _ e] exI [of _ "nbs.more s1"] exI [of _ "map (outgoing net) ps"]) auto
    qed
  qed
qed

end

end
