(* ===== verification/Fnet_Ip4_Trip.thy ===== *)
theory Fnet_Ip4_Trip
  imports Fnet_Ip4_Output
begin

text \<open>
  The way back: the fragments that \<^verbatim>\<open>_fnet_ip4_output\<close> makes of a datagram are a datagram cut
  into pieces as \<^verbatim>\<open>_fnet_ip4_reassembly\<close> understands it, so a receiver that runs the same
  code gets the datagram back.
\<close>

unbundle bit_operations_syntax

section \<open>Flags and position\<close>

lemma bits_htons: "bit (fnet_htons v) n = (if n < 8 then bit v (n + 8) else n < 16 \<and> bit v (n - 8))"
proof -
  have "(0x00FF :: int) = mask 8" "(0xFF00 :: int) = push_bit 8 (mask 8)" by (simp_all add: mask_eq_exp_minus_1)
  then have b: "bit (0x00FF :: int) n = (n < 8)" "bit (0xFF00 :: int) n = (8 \<le> n \<and> n < 16)" for n
    by (auto simp only: bit_push_bit_iff bit_mask_iff possible_bit_int)
  show ?thesis by (auto simp: fnet_htons_def bit_simps b add.commute dest: bit_imp_le_length)
qed

lemma htons_or: "fnet_htons (a OR b) = fnet_htons a OR fnet_htons b"
  by (rule bit_word_eqI) (simp add: bits_htons bit_or_iff)

lemma htons_and: "fnet_htons (a AND b) = fnet_htons a AND fnet_htons b"
  by (rule bit_word_eqI) (simp add: bits_htons bit_and_iff)

lemma position_no_flag:
  assumes "k < 8192"
  shows "(of_nat k :: u16) AND FNET_IP4_MF = 0"
proof -
  have m: "FNET_IP4_MF = push_bit 13 1" by (simp add: FNET_IP4_MF_def)
  have f: "bit FNET_IP4_MF n = (n = 13)" for n unfolding m bit_push_bit_iff bit_1_iff possible_bit_word by auto
  have "\<not> bit k 13" using assms by (simp add: bit_iff_odd)
  then have "\<not> bit (of_nat k :: u16) 13" by (simp add: bit_of_nat_iff)
  then show ?thesis by (intro bit_word_eqI) (auto simp: bit_and_iff f)
qed

lemma position_value:
  assumes k: "k < 8192"
  shows "w16 (8 * unat ((of_nat k :: u16) OR (if mf then FNET_IP4_MF else 0))) = 8 * k"
proof (cases mf)
  case True
  have "(of_nat k AND FNET_IP4_MF) + (of_nat k OR FNET_IP4_MF) = of_nat k + FNET_IP4_MF" by (rule word_plus_and_or)
  then have "of_nat k OR FNET_IP4_MF = of_nat k + FNET_IP4_MF" unfolding position_no_flag [OF k] by simp
  also have "\<dots> = of_nat (k + 8192)" by (simp add: FNET_IP4_MF_def)
  finally have "unat (of_nat k OR FNET_IP4_MF :: u16) = unat (of_nat (k + 8192) :: u16)" by (rule arg_cong)
  also have "\<dots> = k + 8192" using k by (simp add: unat_of_nat del: of_nat_add)
  finally show ?thesis using True k by simp
qed (use k in \<open>simp add: unat_of_nat\<close>)

lemma flags_parse:
  assumes "k < 8192"
  shows "w16 (8 * unat (fnet_htons (fnet_htons (of_nat k) OR (if mf then fnet_htons FNET_IP4_MF else 0)))) = 8 * k"
    "(fnet_htons (of_nat k) OR (if mf then fnet_htons FNET_IP4_MF else 0)) AND fnet_htons FNET_IP4_MF \<noteq> 0 \<longleftrightarrow> mf"
proof -
  have z: "fnet_htons 0 = 0" "fnet_htons FNET_IP4_MF \<noteq> 0" by (simp_all add: fnet_htons_def FNET_IP4_MF_def)
  have "fnet_htons (fnet_htons (of_nat k) OR (if mf then fnet_htons FNET_IP4_MF else 0))
      = of_nat k OR (if mf then FNET_IP4_MF else 0)" by (simp add: htons_or z)
  then show "w16 (8 * unat (fnet_htons (fnet_htons (of_nat k) OR (if mf then fnet_htons FNET_IP4_MF else 0)))) = 8 * k"
    using position_value [OF assms, of mf] by simp
  have "fnet_htons (of_nat k) AND fnet_htons FNET_IP4_MF = 0"
    unfolding htons_and [symmetric] position_no_flag [OF assms] by (rule z)
  then show "(fnet_htons (of_nat k) OR (if mf then fnet_htons FNET_IP4_MF else 0)) AND fnet_htons FNET_IP4_MF \<noteq> 0 \<longleftrightarrow> mf"
    using z(2) by (simp add: bit.conj_disj_distrib2)
qed

section \<open>The list of fragments, one by one\<close>

lemma frags_from_short: "length D \<le> F \<Longrightarrow> frags_from h F offset D = [ip4_bytes (frag_header h offset False (length D)) @ D]"
  by (subst frags_from.simps) simp

lemma frags_from_long: "0 < F \<Longrightarrow> F < length D \<Longrightarrow>
    frags_from h F offset D = (ip4_bytes (frag_header h offset True F) @ take F D) # frags_from h F (offset + F) (drop F D)"
  by (subst frags_from.simps) simp

lemma frags_from_nth:
  assumes "0 < F"
  shows "j < length (frags_from h F offset D) \<Longrightarrow>
    frags_from h F offset D ! j
      = ip4_bytes (frag_header h (offset + j * F) (Suc j < length (frags_from h F offset D)) (length (take F (drop (j * F) D))))
        @ take F (drop (j * F) D)"
proof (induction "length D" arbitrary: offset D j rule: less_induct)
  case less
  show ?case
  proof (cases "F < length D")
    case False
    then show ?thesis using less.prems by (simp add: frags_from_short)
  next
    case True
    note e = frags_from_long [OF assms True, of h offset]
    show ?thesis
    proof (cases j)
      case 0
      have "frags_from h F (offset + F) (drop F D) \<noteq> []" by (subst frags_from.simps) simp
      then show ?thesis using 0 True by (simp add: e)
    next
      case (Suc i)
      have "length (drop F D) < length D" using assms True by simp
      from less.hyps [OF this, of i "offset + F"] less.prems Suc show ?thesis
        by (simp add: e algebra_simps)
    qed
  qed
qed

lemma frags_from_payload:
  assumes "0 < F"
  shows "concat (map (\<lambda>j. take F (drop (j * F) D)) [0..<k]) = take (k * F) D"
    "take (length (frags_from h F offset D) * F) D = D"
    "D \<noteq> [] \<Longrightarrow> j < length (frags_from h F offset D) \<Longrightarrow> j * F < length D"
proof -
  show "concat (map (\<lambda>j. take F (drop (j * F) D)) [0..<k]) = take (k * F) D"
  proof (induction k)
    case (Suc k)
    have "take (Suc k * F) D = take (k * F + F) D" by (simp add: add.commute)
    also have "\<dots> = take (k * F) D @ take F (drop (k * F) D)" by (rule take_add)
    finally show ?case using Suc by simp
  qed simp
  show "take (length (frags_from h F offset D) * F) D = D"
  proof (induction "length D" arbitrary: offset D rule: less_induct)
    case less
    show ?case
    proof (cases "F < length D")
      case True
      have "length (drop F D) < length D" using assms True by simp
      from less.hyps [OF this, of "offset + F"] have "take (length (frags_from h F (offset + F) (drop F D)) * F) (drop F D) = drop F D" .
      then show ?thesis by (simp add: frags_from_long [OF assms True] take_add)
    qed (simp add: frags_from_short)
  qed
  show "D \<noteq> [] \<Longrightarrow> j < length (frags_from h F offset D) \<Longrightarrow> j * F < length D"
  proof (induction "length D" arbitrary: offset D j rule: less_induct)
    case less
    show ?case
    proof (cases "F < length D")
      case True
      then have "length (drop F D) < length D" "drop F D \<noteq> []" using assms by auto
      from less.hyps [OF this, of "j - 1" "offset + F"] less.prems True show ?thesis
        by (cases j) (auto simp: frags_from_long [OF assms True])
    qed (use less.prems in \<open>simp add: frags_from_short\<close>)
  qed
qed

lemma outgoing_header: "\<exists>ck. outgoing net (ip4_bytes h @ D) = ip4_bytes (h\<lparr>ih_checksum := ck\<rparr>) @ D"
proof -
  define ck where "ck = (if has_feature net FNET_NETIF_FEATURE_HW_TX_IP_CHECKSUM then 0 else header_checksum (ip4_bytes h @ D))"
  have "[0, 0] = store16 0" by (simp add: store16_def)
  then have "outgoing net (ip4_bytes h @ D) = (take 10 (ip4_bytes h) @ store16 ck @ drop 12 (ip4_bytes h)) @ D"
    by (auto simp: outgoing_def ck_def)
  then show ?thesis unfolding set_ip4_fields(3) by blast
qed

text \<open>The fragments in net buffers are a datagram cut into pieces.\<close>

lemma frags_datagram_cut:
  assumes h: "ih_version__header_length h = 0x45" "ih_tos h AND 1 = 0" and F: "0 < F" "8 dvd F"
    and D: "D \<noteq> []" "20 + length D \<le> 65535"
    and m: "m = length (frags_from h F 0 D)"
    and ns: "\<forall>j<m. nb_bytes s (ns j) = outgoing net (frags_from h F 0 D ! j)" "\<forall>j<m. in_buf s (ns j)"
      "\<forall>j<m. nb_total_length (ns j) = nb_length (ns j)"
  shows "datagram_cut s (hdr_key h) m ns" "cut_payload s ns m = D"
proof -
  let ?p = "\<lambda>j. take F (drop (j * F) D)"
  have part: "\<exists>ck. nb_bytes s (ns j) = ip4_bytes ((frag_header h (j * F) (Suc j < m) (length (?p j)))\<lparr>ih_checksum := ck\<rparr>) @ ?p j"
    if "j < m" for j
    using ns(1) that outgoing_header [of net _ "?p j"] frags_from_nth [OF F(1), of j h 0 D] by (simp add: m)
  have hl: "frag_hdr (nb_bytes s (ns j)) = 20" if "j < m" for j
  proof -
    obtain ck where b: "nb_bytes s (ns j) = ip4_bytes ((frag_header h (j * F) (Suc j < m) (length (?p j)))\<lparr>ih_checksum := ck\<rparr>) @ ?p j"
      using part [OF \<open>j < m\<close>] by blast
    show ?thesis unfolding b frag_hdr_def using h(1) by (simp add: ip4_bytes_def frag_header_def header_length_of_def)
  qed
  have pay: "packet_payload s (ns j) = ?p j" if "j < m" for j
  proof -
    obtain ck where b: "nb_bytes s (ns j) = ip4_bytes ((frag_header h (j * F) (Suc j < m) (length (?p j)))\<lparr>ih_checksum := ck\<rparr>) @ ?p j"
      using part [OF \<open>j < m\<close>] by blast
    show ?thesis using hl [OF that] by (simp add: packet_payload_def b)
  qed
  have cut: "cut_payload s ns k = take (k * F) D" if "k \<le> m" for k
  proof -
    have e: "map (\<lambda>j. packet_payload s (ns j)) [0..<k] = map ?p [0..<k]" using pay that by simp
    show ?thesis unfolding cut_payload_def e by (rule frags_from_payload(1) [OF F(1)])
  qed
  show all: "cut_payload s ns m = D" using cut [of m] frags_from_payload(2) [OF F(1), of h 0 D] by (simp add: m)
  have m0: "0 < m" unfolding m by (subst frags_from.simps) simp
  show "datagram_cut s (hdr_key h) m ns"
    unfolding datagram_cut_def Let_def
  proof (intro conjI allI impI)
    show "0 < m" by (rule m0)
    show "length (cut_payload s ns m) \<le> 65535" using all D(2) by simp
  next
    fix j assume j: "j < m"
    let ?h = "frag_header h (j * F) (Suc j < m) (length (?p j))"
    obtain ck where b: "nb_bytes s (ns j) = ip4_bytes (?h\<lparr>ih_checksum := ck\<rparr>) @ ?p j" using part [OF j] by blast
    have jF: "j * F < length D" using frags_from_payload(3) [OF F(1) D(1), of j h 0] j by (simp add: m)
    have lp: "0 < length (?p j)" "20 + length (?p j) \<le> 65535" using jF F(1) D(2) by simp_all
    have lb: "nb_length (ns j) = 20 + length (?p j)" using length_nb_bytes [of s "ns j"] ns(2) j b by simp
    have i: "ip4_of (nb_bytes s (ns j)) = ?h\<lparr>ih_checksum := ck\<rparr>" by (simp add: b ip4_of_bytes)
    have fl: "ih_flags_fragment_offset (?h\<lparr>ih_checksum := ck\<rparr>)
        = fnet_htons (of_nat (j * F div 8)) OR (if Suc j < m then fnet_htons FNET_IP4_MF else 0)" by (simp add: frag_header_def)
    have k: "j * F div 8 < 8192" using jF D(2) by linarith
    have "8 * (j * F div 8) = j * F" using F(2) by simp
    then show "frag_start (nb_bytes s (ns j)) = length (cut_payload s ns j)"
      using cut [of j] j jF flags_parse(1) [OF k, of "Suc j < m"] unfolding frag_start_def i fl by simp
    show "(ih_flags_fragment_offset (ip4_of (nb_bytes s (ns j))) AND fnet_htons FNET_IP4_MF \<noteq> 0) = (Suc j < m)"
      unfolding i fl by (rule flags_parse(2) [OF k])
    show "key_of (nb_bytes s (ns j)) = hdr_key h" unfolding key_of_def i by (simp add: hdr_key_def frag_header_def)
    show "ih_tos (ip4_of (nb_bytes s (ns j))) AND 1 = 0" unfolding i using h(2) by (simp add: frag_header_def)
    have "unat (fnet_htons (ih_total_length (ip4_of (nb_bytes s (ns j))))) = nb_length (ns j)"
      using unat_htons_htons [OF lp(2)] lb by (simp add: i frag_header_def)
    then show "packet_ok s (ns j)"
      using ns(3) j hl [OF j] lb lp(1) by (simp add: packet_ok_def Let_def)
  qed
qed

lemma even_and_not_one: "x AND 1 = 0 \<Longrightarrow> x AND NOT 1 = (x :: u8)"
proof -
  assume "x AND 1 = 0"
  moreover have "x = (x AND 1) OR (x AND NOT 1)" by (rule bit_word_eqI) (auto simp: bit_simps)
  ultimately show ?thesis by simp
qed

lemma first_parse:
  assumes "0 < F" "b = outgoing net (frags_from h F 0 D ! 0)"
  shows "\<exists>mf l ck xs. b = ip4_bytes ((frag_header h 0 mf l)\<lparr>ih_checksum := ck\<rparr>) @ xs"
proof -
  have "0 < length (frags_from h F 0 D)" by (subst frags_from.simps) simp
  from frags_from_nth [OF assms(1) this] obtain mf l where "frags_from h F 0 D ! 0 = ip4_bytes (frag_header h 0 mf l) @ take F D"
    by simp
  then show ?thesis using assms(2) outgoing_header [of net "frag_header h 0 mf l" "take F D"] by metis
qed

text \<open>The header that is rebuilt from the first fragment is the one of the packet.\<close>

lemma whole_header_sent:
  assumes w: "whole_header (frag_of s n) (hdr_key h) len hdr" and h: "ih_version__header_length h = 0x45" "ih_tos h AND 1 = 0"
    and b: "0 < F" "nb_bytes s n = outgoing net (frags_from h F 0 D ! 0)"
  shows "\<exists>t ck. hdr = ip4_bytes (h\<lparr>ih_total_length := fnet_htons (of_nat (20 + len)), ih_flags_fragment_offset := 0,
     ih_ttl := t, ih_checksum := ck\<rparr>)"
proof -
  obtain mf l ck0 xs where e: "nb_bytes s n = ip4_bytes ((frag_header h 0 mf l)\<lparr>ih_checksum := ck0\<rparr>) @ xs"
    using first_parse [OF b] by blast
  have i: "ip4_of (nb_bytes s n) = (frag_header h 0 mf l)\<lparr>ih_checksum := ck0\<rparr>" by (simp add: e ip4_of_bytes)
  have v: "nb_bytes s n ! 0 = 0x45" unfolding e using h(1) by (simp add: ip4_bytes_def frag_header_def)
  have t: "fr_mf (frag_of s n) AND NOT 1 = ih_tos h"
  proof -
    have "fr_mf (frag_of s n) = ih_tos h \<or> fr_mf (frag_of s n) = ih_tos h OR 1" by (simp add: frag_of_def Let_def i frag_header_def)
    moreover have "(ih_tos h OR 1) AND NOT 1 = ih_tos h" using or_one_odd(2) even_and_not_one [OF h(2)] by metis
    ultimately show ?thesis using even_and_not_one [OF h(2)] by metis
  qed
  have f: "fr_version__header_length (frag_of s n) = 0x45" using v by (simp add: frag_of_def Let_def)
  obtain t' ck opts where o: "length hdr = 20" "hdr = ip4_bytes \<lparr>ih_version__header_length = 0x45, ih_tos = ih_tos h,
       ih_total_length = fnet_htons (of_nat (20 + len)), ih_id = ih_id h, ih_flags_fragment_offset = 0, ih_ttl = t',
       ih_protocol = ih_protocol h, ih_checksum = ck, ih_source_addr = ih_source_addr h,
       ih_desination_addr = ih_desination_addr h\<rparr> @ opts"
    using w unfolding whole_header_def t f by (auto simp: header_length_of_def hdr_key_def)
  then have "opts = []" by simp
  moreover have "\<lparr>ih_version__header_length = 0x45, ih_tos = ih_tos h,
       ih_total_length = fnet_htons (of_nat (20 + len)), ih_id = ih_id h, ih_flags_fragment_offset = 0, ih_ttl = t',
       ih_protocol = ih_protocol h, ih_checksum = ck, ih_source_addr = ih_source_addr h,
       ih_desination_addr = ih_desination_addr h\<rparr> = h\<lparr>ih_total_length := fnet_htons (of_nat (20 + len)),
         ih_flags_fragment_offset := 0, ih_ttl := t', ih_checksum := ck\<rparr>" using h(1) by (cases h) simp
  ultimately show ?thesis using o(2) by (intro exI [of _ t'] exI [of _ ck]) simp
qed

end
