(* ===== verification/Fnet_Ip4_Wire.thy ===== *)
theory Fnet_Ip4_Wire
  imports Fnet_Ip4_Trip "HOL-Library.Sublist"
begin

text \<open>
  IPv4 over Ethernet: what \<^verbatim>\<open>_fnet_ip4_output\<close> puts on the wire, as frames. The Ethernet output
  keeps the contract of an interface, so the lemmas about the output hold for it on the heap of the stack.
\<close>

unbundle bit_operations_syntax

section \<open>Ethernet as an interface\<close>

text \<open>The address of the frames for a destination: broadcast, multicast, or what ARP knows.\<close>

definition link_address :: "'p arp_net \<Rightarrow> u32 \<Rightarrow> u8 list option" where
  "link_address s dest =
     (if fnet_ip4_addr_is_broadcast dest s then Some fnet_eth_broadcast
      else if FNET_IP4_ADDR_IS_MULTICAST dest then Some (multicast_mac dest)
      else fnet_arp_get_mac s dest)"

definition net_of where
  "net_of z = nbs.extend \<lparr>pool = (), bufs = Map.empty, raw = (\<lambda>_. 0)\<rparr> z"

lemma net_of_simps [simp]:
  "arp_table (net_of (nbs.more (s :: 'p arp_net))) = arp_table s"
  "sent (net_of (nbs.more s)) = sent s"
  "ip4_netbroadcast (net_of (nbs.more s)) = ip4_netbroadcast s"
  "ip4_subnetbroadcast (net_of (nbs.more s)) = ip4_subnetbroadcast s" "ip4_subnet (net_of (nbs.more s)) = ip4_subnet s"
  by (cases s, simp add: net_of_def nbs.defs)+

lemma net_of_link [simp]: "link_address (net_of (nbs.more (s :: 'p arp_net))) dest = link_address s dest"
  by (simp add: link_address_def fnet_ip4_addr_is_broadcast_def fnet_arp_get_mac_def fnet_arp_lookup_def split: option.split)

lemma link_address_sent [simp]: "link_address (s\<lparr>sent := x\<rparr>) dest = link_address s dest"
  by (simp add: link_address_def fnet_ip4_addr_is_broadcast_def fnet_arp_get_mac_def fnet_arp_lookup_def split: option.split)

definition resolved where
  "resolved dest mac z = (arp_table_ok (arp_table (net_of z)) \<and> link_address (net_of z) dest = Some mac)"

definition frame_out where
  "frame_out b mac z p z' = (sent (net_of z') = sent (net_of z) @ [eth_frame b FNET_ETH_TYPE_IP4 mac p])"

definition frame_or_none where
  "frame_or_none b mac z p z' = (sent (net_of z') = sent (net_of z) \<or> frame_out b mac z p z')"

lemma delivers_frames:
  "delivers (frame_out b mac) z ps z' \<Longrightarrow>
     sent (net_of z') = sent (net_of z) @ map (eth_frame b FNET_ETH_TYPE_IP4 mac) ps"
  by (induction rule: delivers.induct) (simp_all add: frame_out_def)

lemma delivers_subseq:
  "delivers (frame_or_none b mac) z ps z' \<Longrightarrow>
     \<exists>fs. sent (net_of z') = sent (net_of z) @ fs \<and> subseq fs (map (eth_frame b FNET_ETH_TYPE_IP4 mac) ps)"
proof (induction rule: delivers.induct)
  case (delivers_one z p z' ps z'')
  then obtain fs where "sent (net_of z'') = sent (net_of z') @ fs" "subseq fs (map (eth_frame b FNET_ETH_TYPE_IP4 mac) ps)"
    by blast
  note fs = this
  show ?case
  proof (cases "sent (net_of z') = sent (net_of z)")
    case True
    then show ?thesis using fs by (intro exI [of _ fs]) auto
  next
    case False
    then have "sent (net_of z') = sent (net_of z) @ [eth_frame b FNET_ETH_TYPE_IP4 mac p]"
      using delivers_one(1) by (simp add: frame_or_none_def frame_out_def)
    then show ?thesis using fs by (intro exI [of _ "eth_frame b FNET_ETH_TYPE_IP4 mac p # fs"]) auto
  qed
qed simp

lemma drained_prot_index: "list_all2 drained es es' \<Longrightarrow> prot_index ip es' = prot_index ip es"
  by (induction rule: list_all2_induct) (auto simp: drained_def)

lemma drained_link_address:
  assumes "drained_from s s'"
  shows "link_address s' dest = link_address s dest"
proof -
  have l: "list_all2 drained (arp_table s) (arp_table s')" using drained_fromD(1) [OF assms] .
  have i: "prot_index ip (arp_table s) = Some i \<Longrightarrow> i < length (arp_table s)" for ip i
    using prot_index_SomeD by blast
  have "hard_addr (arp_table s' ! i) = hard_addr (arp_table s ! i)" if "i < length (arp_table s)" for i
    using list_all2_nthD [OF l that] by (auto simp: drained_def)
  moreover have "ip4_netbroadcast s' = ip4_netbroadcast s" "ip4_subnetbroadcast s' = ip4_subnetbroadcast s"
    "ip4_subnet s' = ip4_subnet s" using assms by (cases s; cases s'; simp add: drained_from_def)+
  ultimately show ?thesis
    using i drained_prot_index [OF l, of dest]
    by (auto simp: link_address_def fnet_ip4_addr_is_broadcast_def fnet_arp_get_mac_def fnet_arp_lookup_def Let_def
        split: option.splits)
qed

lemma drained_more_held: "drained_more z z' \<Longrightarrow> set (held_more z') \<subseteq> set (held_more z)"
proof -
  assume "drained_more z z'"
  note d = this [unfolded drained_more_def]
  show ?thesis unfolding held_more_def set_append
    by (rule Un_mono [OF main.drained_held [OF drained_fromD(1) [OF d]] drained_fromD(8) [OF d]])
qed

context roomy_allocator
begin

lemma eth_interface_ok:
  assumes b: "board_ok A owns b" and mtu: "mtu \<le> nt_mtu b"
  shows "interface_ok owns room mtu held_more blocks_more (resolved dest mac) (frame_or_none b mac) (frame_out b mac)
     (\<lambda>s nb. fnet_eth_output_ip4 b s dest nb)"
  unfolding interface_ok_def
proof (intro allI impI)
  fix X c L and s :: "'p arp_net"
  assume a: "nb_inv owns (X \<union> blocks_more (nbs.more s)) s (c @ L @ held_more (nbs.more s)) \<and> X \<inter> blocks_more (nbs.more s) = {}
    \<and> headed c \<and> chain_length c \<le> mtu \<and> resolved dest mac (nbs.more s)"
  then have inv: "net_inv owns X s (c @ L)" and c: "total_ok c" "c \<noteq> []" "chain_length c \<le> nt_mtu b"
    and r: "arp_table_ok (arp_table s)" "link_address s dest = Some mac"
    using mtu by (simp_all add: headed_def resolved_def net_inv_def)
  have i: "nb_inv owns (X \<union> set (other_blocks s)) s (c @ L @ held s)" using net_invD(1) [OF inv] by simp
  let ?p = "on_wire (nb_flags (hd c)) (chain_bytes s c)"
  have run: "fnet_eth_output_ip4 b s dest c = fnet_eth_output b s FNET_ETH_TYPE_IP4 mac c"
    using r(2) by (auto simp: link_address_def fnet_eth_output_ip4_def split: if_splits)
  have mac: "length mac = 6"
    using r(2) lookup_length [OF r(1)]
    by (auto simp: link_address_def fnet_arp_get_mac_def fnet_eth_broadcast_def multicast_mac_def split: if_splits)
  have tx: "eth_tx b s FNET_ETH_TYPE_IP4 mac c = eth_frame b FNET_ETH_TYPE_IP4 mac ?p"
  proof -
    obtain hw where hw: "nt_hw b = Some hw" "length hw = 6" using b by (auto simp: board_ok_def)
    have "\<forall>m\<in>set c. in_buf s m" by (auto intro: nb_inv_in_buf [OF i])
    then have "length (chain_bytes s c) = chain_length c" by (rule length_chain_bytes)
    moreover have "20 \<le> chain_length c" using a by (cases c) (auto simp: headed_def)
    ultimately have "10 \<le> length (chain_bytes s c)" by simp
    from tx_frame_ip4 [OF mac hw this] show ?thesis using c(2) by (simp add: eth_tx_def chain_flags_def split: list.splits)
  qed
  obtain s' fr where s': "fnet_eth_output b s FNET_ETH_TYPE_IP4 mac c = Some s'"
      "net_inv owns X s' L" "same_bytes s s' L" "drained_from (s\<lparr>sent := sent s @ fr\<rparr>) s'"
      "fr = [] \<or> fr = [eth_frame b FNET_ETH_TYPE_IP4 mac ?p]"
    using eth_output_ok [OF inv c(1) b mac, of FNET_ETH_TYPE_IP4] unfolding tx by blast
  note d = drained_fromD(1,2) [OF s'(4)]
  have tab: "list_all2 drained (arp_table s) (arp_table s')" "sent s' = sent s @ fr" using d by simp_all
  have "link_address s' dest = link_address s dest"
    using drained_link_address [OF s'(4), of dest] by simp
  then have res: "resolved dest mac (nbs.more s')"
    using drained_table_ok [OF tab(1) r(1)] r(2) by (simp add: resolved_def)
  have hld: "nb_data ` set (held_more (nbs.more s')) \<subseteq> nb_data ` set (c @ held_more (nbs.more s))"
    using drained_held [OF tab(1)] drained_fromD(8) [OF s'(4)] by auto
  have blk: "blocks_more (nbs.more s') \<subseteq> blocks_more (nbs.more s)" using drained_fromD(9) [OF s'(4)] by simp
  have frm: "frame_or_none b mac (nbs.more s) ?p (nbs.more s')"
    using tab(2) s'(5) by (auto simp: frame_or_none_def frame_out_def)
  have rm: "\<forall>k. 0 < k \<and> room (pool s) (k + 9) \<longrightarrow> room (pool s') k \<and> frame_out b mac (nbs.more s) ?p (nbs.more s')"
  proof (intro allI impI)
    fix k
    assume "0 < k \<and> room (pool s) (k + 9)"
    then have k: "0 < k" "room (pool s) (k + 9)" by simp_all
    obtain s'' where s'': "fnet_eth_output b s FNET_ETH_TYPE_IP4 mac c = Some s''" "nbs.more s'' = nbs.more (s\<lparr>sent := sent s @
          (if c \<noteq> [] \<and> nb_total_length (hd c) > nt_mtu b then [] else [eth_frame b FNET_ETH_TYPE_IP4 mac ?p])\<rparr>)"
      using eth_output_now [OF i c(1) b mac room_has_memory [OF i k], of FNET_ETH_TYPE_IP4] unfolding tx by blast
    have "\<not> nb_total_length (hd c) > nt_mtu b" using c by (simp add: total_ok_def)
    with s'' s'(1) have "nbs.more s' = nbs.more (s\<lparr>sent := sent s @ [eth_frame b FNET_ETH_TYPE_IP4 mac ?p]\<rparr>)"
      by simp
    from more_sent [OF this] have "sent s' = sent s @ [eth_frame b FNET_ETH_TYPE_IP4 mac ?p]" by simp
    then show "room (pool s') k \<and> frame_out b mac (nbs.more s) ?p (nbs.more s')"
      using eth_output_room [OF i c(1,2) b mac k s'(1)] by (simp add: frame_out_def)
  qed
  have i': "nb_inv owns (X \<union> blocks_more (nbs.more s')) s' (L @ held_more (nbs.more s'))" using net_invD(1) [OF s'(2)] by simp
  have e: "fnet_eth_output_ip4 b s dest c = Some s'" using run s'(1) by simp
  show "\<exists>s'. fnet_eth_output_ip4 b s dest c = Some s'
      \<and> nb_inv owns (X \<union> blocks_more (nbs.more s')) s' (L @ held_more (nbs.more s')) \<and> same_bytes s s' L
      \<and> resolved dest mac (nbs.more s') \<and> blocks_more (nbs.more s') \<subseteq> blocks_more (nbs.more s)
      \<and> nb_data ` set (held_more (nbs.more s')) \<subseteq> nb_data ` set (c @ held_more (nbs.more s))
      \<and> frame_or_none b mac (nbs.more s) ?p (nbs.more s')
      \<and> (\<forall>k. 0 < k \<and> room (pool s) (k + 9) \<longrightarrow> room (pool s') k \<and> frame_out b mac (nbs.more s) ?p (nbs.more s'))"
    by (rule exI [of _ s'], intro conjI) (fact e i' s'(3) res blk hld frm rm)+
qed

lemma ip4_over_eth:
  assumes inv: "arp_inv owns X s (nb @ L)" and b: "board_ok A owns b" "if_mtu net \<le> nt_mtu b"
    and nb: "nb = pre @ [d]" "\<forall>m\<in>set nb. 0 < nb_length m" "total_ok nb"
    and D: "chain_bytes s nb = D" "20 + length D < 4294967296"
    and route: "(case netif of None \<Rightarrow> fnet_ip4_route netifs dflt dest | Some n \<Rightarrow> Some n) = Some net"
    and mtu: "20 \<le> if_mtu net" and pre: "if_mtu net < 20 + length D \<longrightarrow> chain_length pre \<le> frag_size (if_mtu net)"
    and mac: "link_address s (next_hop net dest do_not_route) = Some mac"
    and ck: "checksum = map_option (\<lambda>k. (nb_data (hd nb), nb_off (hd nb) + k)) ck"
      "\<forall>k. ck = Some k \<longrightarrow> k + 2 \<le> nb_length (hd nb)
         \<and> nb_data (hd nb) \<notin> nb_data ` set (tl nb @ L @ held s)"
    and src: "src = (if src_ip = 0 then if_address net else src_ip)"
    and wire: "ip4_wire net (datagram_header ip_id tos ttl protocol src dest DF 0 (length D)) (with_checksum pad src dest ck D)
       = (e\<^sub>0, ps)"
  shows "\<exists>s' id e fs. fnet_ip4_output A (fnet_prot_drain b) pad (\<lambda>_. fnet_eth_output_ip4 b) netifs dflt s ip_id netif src_ip dest
       protocol tos ttl nb DF do_not_route checksum = Some (s', id, e)
     \<and> arp_inv owns X s' L \<and> same_bytes s s' L \<and> sent s' = sent s @ fs
     \<and> subseq fs (map (eth_frame b FNET_ETH_TYPE_IP4 mac \<circ> on_wire (nb_flags (hd nb))) ps)
     \<and> (e = e\<^sub>0 \<or> fs = [] \<and> (e = FNET_ERR_NOMEM \<or> e = FNET_ERR_OK))
     \<and> (room (pool s) (23 * length ps + 10) \<longrightarrow> e = e\<^sub>0 \<and> fs = map (eth_frame b FNET_ETH_TYPE_IP4 mac \<circ> on_wire (nb_flags (hd nb))) ps
          \<and> id = (if 20 + length D > FNET_IP4_MAX_PACKET then ip_id else ip_id + 1))"
proof -
  have i: "nb_inv owns (X \<union> blocks_more (nbs.more s)) s (nb @ L @ held_more (nbs.more s))" "arp_table_ok (arp_table s)"
    "X \<inter> blocks_more (nbs.more s) = {}" using arp_invD [OF inv] by simp_all
  have r: "resolved (next_hop net dest do_not_route) mac (nbs.more s)" using i(2) mac by (simp add: resolved_def)
  have mtu2: "if_mtu net < 4294967296" using b by (auto simp: board_ok_def)
  have keep: "\<forall>z z'. drained_more z z' \<and> resolved (next_hop net dest do_not_route) mac z
      \<longrightarrow> resolved (next_hop net dest do_not_route) mac z'"
    by (auto simp: resolved_def drained_more_def net_of_def drained_link_address intro: drained_table_ok dest: drained_fromD(1))
  have held: "\<forall>z z'. drained_more z z' \<longrightarrow> nb_data ` set (held_more z') \<subseteq> nb_data ` set (held_more z)"
    by (intro allI impI image_mono drained_more_held)
  have ck2: "\<forall>k. ck = Some k \<longrightarrow> k + 2 \<le> nb_length (hd nb)
      \<and> nb_data (hd nb) \<notin> nb_data ` set (tl nb @ L @ held_more (nbs.more s))" using ck(2) by simp
  obtain s' id e z ws where run: "fnet_ip4_output A (fnet_prot_drain b) pad (\<lambda>_. fnet_eth_output_ip4 b) netifs dflt s ip_id netif
        src_ip dest protocol tos ttl nb DF do_not_route checksum = Some (s', id, e)"
      "nb_inv owns (X \<union> blocks_more (nbs.more s')) s' (L @ held_more (nbs.more s'))" "same_bytes s s' L"
      "resolved (next_hop net dest do_not_route) mac (nbs.more s')" "blocks_more (nbs.more s') \<subseteq> blocks_more (nbs.more s)"
      "drained_more (nbs.more s) z" "delivers (frame_or_none b mac) z (map (on_wire (nb_flags (hd nb))) ws) (nbs.more s')"
      "(e, ws) = (e\<^sub>0, ps) \<and> id = (if 20 + length D > FNET_IP4_MAX_PACKET then ip_id else ip_id + 1)
        \<or> ws = [] \<and> (e = FNET_ERR_NOMEM \<and> id = ip_id \<or> e = FNET_ERR_OK \<and> id = ip_id + 1)"
    and exact: "room (pool s) (23 * length ps + 10) \<longrightarrow> (e, ws) = (e\<^sub>0, ps)
        \<and> id = (if 20 + length D > FNET_IP4_MAX_PACKET then ip_id else ip_id + 1)
        \<and> delivers (frame_out b mac) (nbs.more s) (map (on_wire (nb_flags (hd nb))) ws) (nbs.more s')"
    using ip4_output_ok [where H = held_more and B = blocks_more and I = "resolved (next_hop net dest do_not_route) mac"
        and out = "\<lambda>_. fnet_eth_output_ip4 b", OF i(1,3) nb D route mtu mtu2 pre prot_drain_ok [OF b(1)] drained_more_reflp drained_more_transp
        keep held r eth_interface_ok [OF b] ck(1) ck2 src, of pad ip_id protocol tos ttl DF] unfolding wire snd_conv
    by (elim exE conjE) (rule that)
  obtain fs where fs: "sent s' = sent (net_of z) @ fs" "subseq fs (map (eth_frame b FNET_ETH_TYPE_IP4 mac \<circ> on_wire (nb_flags (hd nb))) ws)"
    using delivers_subseq [OF run(7)] by (auto simp: comp_assoc)
  have none: "ws = [] \<Longrightarrow> fs = []" using fs(2) by (cases fs) auto
  have "sent (net_of z) = sent s"
    using run(6) drained_fromD(2) by (metis drained_more_def net_of_def net_of_simps(2))
  then have "sent s' = sent s @ fs" using fs(1) by simp
  moreover have "subseq fs (map (eth_frame b FNET_ETH_TYPE_IP4 mac \<circ> on_wire (nb_flags (hd nb))) ps)" using run(8) fs(2) none by auto
  moreover have "e = e\<^sub>0 \<or> fs = [] \<and> (e = FNET_ERR_NOMEM \<or> e = FNET_ERR_OK)" using run(8) none by auto
  moreover have "e = e\<^sub>0 \<and> fs = map (eth_frame b FNET_ETH_TYPE_IP4 mac \<circ> on_wire (nb_flags (hd nb))) ps
      \<and> id = (if 20 + length D > FNET_IP4_MAX_PACKET then ip_id else ip_id + 1)"
    if "room (pool s) (23 * length ps + 10)"
  proof -
    from exact that have x: "(e, ws) = (e\<^sub>0, ps)" "id = (if 20 + length D > FNET_IP4_MAX_PACKET then ip_id else ip_id + 1)"
      "delivers (frame_out b mac) (nbs.more s) (map (on_wire (nb_flags (hd nb))) ws) (nbs.more s')" by blast+
    from delivers_frames [OF x(3)] have "sent s' = sent s @ map (eth_frame b FNET_ETH_TYPE_IP4 mac \<circ> on_wire (nb_flags (hd nb))) ws" by simp
    then show ?thesis using x(1,2) \<open>sent s' = sent s @ fs\<close> by simp
  qed
  moreover have "arp_inv owns X s' L" using run(2,4,5) i(3) by (auto simp: arp_inv_def net_inv_def resolved_def)
  ultimately show ?thesis using run(1,3) by (intro exI [of _ s'] exI [of _ id] exI [of _ e] exI [of _ fs]) simp
qed

end

section \<open>Output to any destination\<close>

text \<open>
  When nothing is asked of the frames or of the memory, Ethernet keeps the contract of an interface for
  every destination: an unknown one makes the packet wait in the cache of ARP.
\<close>

context block_allocator
begin

lemma no_room: "roomy_allocator A owns (\<lambda>_ _. False)"
  by unfold_locales auto

lemma eth_interface_any:
  assumes "board_ok A owns b"
  shows "interface_ok owns (\<lambda>_ _. False) mtu held_more blocks_more (\<lambda>z. arp_table_ok (arp_table (net_of z))) (\<lambda>_ _ _. True) (\<lambda>_ _ _. True)
     (\<lambda>s nb. fnet_eth_output_ip4 b s dest nb)"
  unfolding interface_ok_def
proof (intro allI impI)
  fix X c L and s :: "'p arp_net"
  assume a: "nb_inv owns (X \<union> blocks_more (nbs.more s)) s (c @ L @ held_more (nbs.more s)) \<and> X \<inter> blocks_more (nbs.more s) = {}
    \<and> headed c \<and> chain_length c \<le> mtu \<and> arp_table_ok (arp_table (net_of (nbs.more s)))"
  then have "arp_inv owns X s (c @ L)" "total_ok c" by (simp_all add: arp_inv_def net_inv_def headed_def)
  from output_ip4_ok [OF this assms, of dest] obtain s' where s': "fnet_eth_output_ip4 b s dest c = Some s'"
    "arp_inv owns X s' L" "same_bytes s s' L" "set (held s') \<subseteq> set (c @ held s)" "set (other_blocks s') \<subseteq> set (other_blocks s)"
    by blast
  have "nb_data ` set (held s') \<subseteq> nb_data ` set (c @ held s)" using s'(4) by (rule image_mono)
  with s' show "\<exists>s'. fnet_eth_output_ip4 b s dest c = Some s'
      \<and> nb_inv owns (X \<union> blocks_more (nbs.more s')) s' (L @ held_more (nbs.more s')) \<and> same_bytes s s' L
      \<and> arp_table_ok (arp_table (net_of (nbs.more s'))) \<and> blocks_more (nbs.more s') \<subseteq> blocks_more (nbs.more s)
      \<and> nb_data ` set (held_more (nbs.more s')) \<subseteq> nb_data ` set (c @ held_more (nbs.more s))
      \<and> True \<and> (\<forall>k. 0 < k \<and> False \<longrightarrow> False \<and> True)"
    using arp_invD [OF s'(2)] by (intro exI [of _ s']) simp
qed

lemma ip4_output_any:
  assumes inv: "arp_inv owns X s (nb @ L)" and b: "board_ok A owns b"
    and nb: "nb = pre @ [d]" "\<forall>m\<in>set nb. 0 < nb_length m" "total_ok nb"
    and D: "chain_bytes s nb = D" "20 + length D < 4294967296"
    and route: "(case netif of None \<Rightarrow> fnet_ip4_route netifs dflt dest | Some n \<Rightarrow> Some n) = Some net"
    and mtu: "20 \<le> if_mtu net" "if_mtu net < 4294967296"
    and pre: "if_mtu net < 20 + length D \<longrightarrow> chain_length pre \<le> frag_size (if_mtu net)"
    and ck: "checksum = map_option (\<lambda>k. (nb_data (hd nb), nb_off (hd nb) + k)) ck"
      "\<forall>k. ck = Some k \<longrightarrow> k + 2 \<le> nb_length (hd nb)
         \<and> nb_data (hd nb) \<notin> nb_data ` set (tl nb @ L @ held s)"
  obtains s' id e where "fnet_ip4_output A (fnet_prot_drain b) pad (\<lambda>_. fnet_eth_output_ip4 b) netifs dflt s ip_id netif src_ip dest
       protocol tos ttl nb DF do_not_route checksum = Some (s', id, e)" "arp_inv owns X s' L" "same_bytes s s' L"
proof -
  have i: "nb_inv owns (X \<union> blocks_more (nbs.more s)) s (nb @ L @ held_more (nbs.more s))"
    "arp_table_ok (arp_table (net_of (nbs.more s)))" "X \<inter> blocks_more (nbs.more s) = {}" using arp_invD [OF inv] by simp_all
  have keep: "\<forall>z z'. drained_more z z' \<and> arp_table_ok (arp_table (net_of z)) \<longrightarrow> arp_table_ok (arp_table (net_of z'))"
    by (auto simp: drained_more_def net_of_def intro: drained_table_ok dest: drained_fromD(1))
  have held: "\<forall>z z'. drained_more z z' \<longrightarrow> nb_data ` set (held_more z') \<subseteq> nb_data ` set (held_more z)"
    by (intro allI impI image_mono drained_more_held)
  have ck2: "\<forall>k. ck = Some k \<longrightarrow> k + 2 \<le> nb_length (hd nb)
      \<and> nb_data (hd nb) \<notin> nb_data ` set (tl nb @ L @ held_more (nbs.more s))" using ck(2) by simp
  obtain s' id e where run: "fnet_ip4_output A (fnet_prot_drain b) pad (\<lambda>_. fnet_eth_output_ip4 b) netifs dflt s ip_id netif
        src_ip dest protocol tos ttl nb DF do_not_route checksum = Some (s', id, e)"
      "nb_inv owns (X \<union> blocks_more (nbs.more s')) s' (L @ held_more (nbs.more s'))" "same_bytes s s' L"
      "arp_table_ok (arp_table (net_of (nbs.more s')))" "blocks_more (nbs.more s') \<subseteq> blocks_more (nbs.more s)"
    using roomy_allocator.ip4_output_ok [where H = held_more and B = blocks_more and I = "\<lambda>z. arp_table_ok (arp_table (net_of z))"
        and out = "\<lambda>_. fnet_eth_output_ip4 b", OF no_room i(1,3) nb D route mtu pre prot_drain_ok [OF b] drained_more_reflp drained_more_transp
        keep held i(2) eth_interface_any [OF b] ck(1) ck2 refl, of pad ip_id src_ip protocol tos ttl DF do_not_route]
    by (elim exE conjE) (rule that)
  then have "arp_inv owns X s' L" using i(3) by (auto simp: arp_inv_def net_inv_def)
  with run(1,3) show thesis by (intro that)
qed

end

text \<open>A small network: an MTU of 28 bytes, twelve bytes of data in one net buffer, sent to the broadcast address.\<close>

definition wire_netif :: netif where
  "wire_netif = \<lparr>if_address = 0x0100000A, if_subnet = 0x0000000A, if_subnetmask = 0x000000FF, if_netbroadcast = 0xFFFFFF0A,
     if_subnetbroadcast = 0xFFFFFF0A, if_gateway = 0, if_mtu = 28, if_features = 1, if_loopback = False, if_scope_id = 0\<rparr>"

definition wire_data :: "u8 list" where
  "wire_data = [1, 2, 3, 4, 5, 6, 7, 8, 9, 10, 11, 12]"

lemma wire_frags: "frags_from h (frag_size 28) 0 wire_data =
    [ip4_bytes (frag_header h 0 True 8) @ [1, 2, 3, 4, 5, 6, 7, 8], ip4_bytes (frag_header h 8 False 4) @ [9, 10, 11, 12]]"
proof -
  have "frag_size 28 = 8" by (simp add: frag_size_def)
  moreover have "length wire_data = 12" by (simp add: wire_data_def)
  ultimately show ?thesis by (simp add: frags_from_long frags_from_short) (simp add: wire_data_def)
qed

lemma wire_packets:
  assumes "ih_flags_fragment_offset h = 0"
  shows "ip4_wire wire_netif h wire_data = (FNET_ERR_OK,
    map (outgoing wire_netif) [ip4_bytes (frag_header h 0 True 8) @ [1, 2, 3, 4, 5, 6, 7, 8],
      ip4_bytes (frag_header h 8 False 4) @ [9, 10, 11, 12]])"
proof -
  have "length wire_data = 12" "if_mtu wire_netif = 28" by (simp_all add: wire_data_def wire_netif_def)
  then show ?thesis using assms by (simp add: ip4_wire_def ip4_packets_def FNET_IP4_MAX_PACKET_def wire_frags)
qed

lemma malloc_max_one:
  assumes "one_free p k" "2 \<le> k" "k \<le> 127"
  shows "fnet_mempool_malloc_max p = Some ((k - 2) * 8)"
proof -
  have "k + 4294967295 = (k - 1) + 4294967296" using assms(2) by simp
  then have "w32 (k + 4294967295) = k - 1" using assms(3) by (simp only: mod_add_self2) simp
  moreover have "k - Suc 0 - Suc 0 = k - 2" by simp
  ultimately show ?thesis using assms
    by (subst fnet_mempool_malloc_max_def, subst max_loop.simps) (simp add: one_free_def Let_def)
qed

lemma from_buf_more:
  assumes "fnet_netbuf_from_buf A dr s data False = Some (s', c)"
  shows "nbs.more s' = nbs.more s"
proof -
  from assms obtain s1 c1 where 1: "fnet_netbuf_new A dr s (length data) False = Some (s1, c1)"
    "(case c1 of [] \<Rightarrow> Some (s1, [])
      | n # _ \<Rightarrow> do { t \<leftarrow> write_data s1 (nb_data n) (nb_off n) data; Some (t, c1) }) = Some (s', c)"
    by (auto simp: fnet_netbuf_from_buf_def bind_eq_Some_conv)
  have "nbs.more s1 = nbs.more s"
    using 1(1) by (auto simp: fnet_netbuf_new_def malloc_drain_def bind_eq_Some_conv split: if_splits dest!: malloc_netbuf_more free_netbuf_more)
  then show ?thesis using 1(2) by (cases c1) (auto simp: bind_eq_Some_conv dest!: write_data_more)
qed

lemma wire_state:
  "\<exists>(s :: mempool arp_net) n. arp_inv (mempool_owns 4104 127) {} s ([n] @ []) \<and> nb_length n = 12 \<and> total_ok [n]
     \<and> chain_bytes s [n] = wire_data \<and> one_free (pool s) 119 \<and> sent s = [] \<and> link_address s 0xFFFFFFFF = Some fnet_eth_broadcast"
proof -
  have free: "one_free (pool full_net) 127" by (simp add: one_free_def full_net_def sample_net_def sample_heap_def)
  have len: "length wire_data = 12" by (simp add: wire_data_def)
  have u: "nunits_of 8 16 = 3" by (simp add: nunits_of_def)
  obtain s n where 1: "fnet_netbuf_from_buf main_pool Some full_net wire_data False = Some (s, [n])" "one_free (pool s) 119"
    using from_buf_one [OF free, of wire_data Some] u len by auto
  have held: "arp_held (arp_table full_net) = []" by (simp add: full_net_def full_table zero_entry_def)
  have oth: "other_nbs full_net = []" "other_blocks full_net = []" by (simp_all add: full_net_def sample_net_def)
  have i0: "nb_inv (mempool_owns 4104 127) {} full_net []" using arp_invD(2) [OF full_net_inv] held oth by simp
  have n: "nb_inv (mempool_owns 4104 127) {} s [n]" "nb_length n = 12" "nb_total_length n = 12" "nb_bytes s n = wire_data"
    using main.from_buf_fresh [OF i0, of wire_data Some] 1(1) len by auto
  note more = from_buf_more [OF 1(1)]
  have "arp_inv (mempool_owns 4104 127) {} s ([n] @ [])"
    using n(1) full_net_inv held oth more_table [OF more] by (simp add: arp_inv_def net_inv_def)
  moreover have "sent s = []" using more_sent [OF more] by (simp add: full_net_def sample_net_def)
  moreover have "link_address s 0xFFFFFFFF = Some fnet_eth_broadcast"
    by (simp add: link_address_def fnet_ip4_addr_is_broadcast_def)
  ultimately show ?thesis using n 1(2) by (intro exI [of _ s] exI [of _ n]) (simp add: total_ok_def)
qed

lemma wire_hop: "next_hop wire_netif 0xFFFFFFFF True = 0xFFFFFFFF"
  by (simp add: next_hop_def fnet_ip4_addr_is_broadcast_on_def)

text \<open>The call that both witnesses make, and the premises of the theorems for it.\<close>

lemma wire_call:
  obtains s :: "mempool arp_net" and n ps where
    "arp_inv (mempool_owns 4104 127) {} s ([n] @ [])" "\<forall>m\<in>set [n]. 0 < nb_length m" "total_ok [n]"
    "chain_bytes s [n] = wire_data" "sent s = []" "fnet_mempool_malloc_max (pool s) = Some 936" "length ps = 2"
    "link_address s (next_hop wire_netif 0xFFFFFFFF True) = Some fnet_eth_broadcast"
    "ip4_wire wire_netif (datagram_header 7 0 64 17 0x0100000A 0xFFFFFFFF False 0 (length wire_data))
       (with_checksum 0 0x0100000A 0xFFFFFFFF None wire_data) = (FNET_ERR_OK, ps)"
proof -
  obtain s :: "mempool arp_net" and n where s: "arp_inv (mempool_owns 4104 127) {} s ([n] @ [])" "nb_length n = 12" "total_ok [n]"
      "chain_bytes s [n] = wire_data" "one_free (pool s) 119" "sent s = []"
      "link_address s 0xFFFFFFFF = Some fnet_eth_broadcast" using wire_state by (elim exE conjE) (rule that)
  let ?h = "datagram_header 7 0 64 17 0x0100000A 0xFFFFFFFF False 0 (length wire_data)"
  have h: "ih_flags_fragment_offset ?h = 0" by (simp add: datagram_header_def)
  have ck: "with_checksum 0 0x0100000A 0xFFFFFFFF None wire_data = wire_data" by (simp add: with_checksum_def)
  obtain ps where ps: "ip4_wire wire_netif ?h wire_data = (FNET_ERR_OK, ps)" "length ps = 2"
    by (rule that, rule wire_packets, rule h) (simp only: length_map list.size)
  have mem: "fnet_mempool_malloc_max (pool s) = Some 936" using malloc_max_one [OF s(5)] by simp
  have pos: "\<forall>m\<in>set [n]. 0 < nb_length m" using s(2) by simp
  have hop: "link_address s (next_hop wire_netif 0xFFFFFFFF True) = Some fnet_eth_broadcast" unfolding wire_hop by (rule s(7))
  show ?thesis by (rule that [OF s(1) pos s(3,4,6) mem ps(2) hop]) (unfold ck, rule ps(1))
qed

lemma wire_call_simple:
  "20 \<le> if_mtu wire_netif" "if_mtu wire_netif \<le> nt_mtu quiet_board" "20 + length wire_data < 4294967296"
  "(case Some wire_netif of None \<Rightarrow> fnet_ip4_route [] None 0xFFFFFFFF | Some n \<Rightarrow> Some n) = Some wire_netif"
  "if_mtu wire_netif < 20 + length wire_data \<longrightarrow> chain_length [] \<le> frag_size (if_mtu wire_netif)"
  "0x0100000A = (if (0 :: u32) = 0 then if_address wire_netif else 0)"
  by (simp_all add: wire_netif_def wire_data_def quiet_board_def)

lemma wire_no_checksum:
  "None = map_option (\<lambda>k. (nb_data (hd [n]), nb_off (hd [n]) + k)) None"
  "\<forall>k. None = Some k \<longrightarrow> k + 2 \<le> nb_length (hd [n]) \<and> nb_data (hd [n]) \<notin> S"
  by simp_all
section \<open>Properties\<close>

text \<open>
  C5. IPv4 over Ethernet sends what its specification says. The output of the payload \<open>D\<close>, in a chain
  of net buffers that are not empty, to a destination whose link address is known, is compared with
  \<open>ip4_wire\<close>, a function of the contents alone: the whole packet when it fits into the MTU; an error and
  nothing else when it is longer than 32768 bytes, or may not be cut (DF), or the MTU leaves no room for
  eight bytes of data; and otherwise its fragments of \<open>(mtu - 20) div 8 * 8\<close> bytes, each with the identification
  of the packet, its position, the mark of all but the last, its length and a header checksum. With a free block of 184
  bytes for each packet and 80 more, as the memory manager reports it, the interface gets exactly these packets in
  this order as frames, the error code is the one of the specification, and no memory but the payload's
  is given back or changed. \<open>ck\<close> is the place of a transport checksum to complete, if any. When the packet is cut,
  all but the last net buffer of the payload have to be part of the first fragment.
\<close>

theorem ip4_output_frames:
  assumes "arp_inv (mempool_owns a N) X s (nb @ L)" "board_ok main_pool (mempool_owns a N) b"
    and "20 \<le> if_mtu net" "if_mtu net \<le> nt_mtu b"
    and "nb = pre @ [d]" "\<forall>m\<in>set nb. 0 < nb_length m" "total_ok nb"
    and "chain_bytes s nb = D" "20 + length D < 4294967296"
    and "(case netif of None \<Rightarrow> fnet_ip4_route netifs dflt dest | Some n \<Rightarrow> Some n) = Some net"
    and "if_mtu net < 20 + length D \<longrightarrow> chain_length pre \<le> frag_size (if_mtu net)"
    and "link_address s (next_hop net dest do_not_route) = Some mac"
    and "checksum = map_option (\<lambda>k. (nb_data (hd nb), nb_off (hd nb) + k)) ck"
    and "\<forall>k. ck = Some k \<longrightarrow> k + 2 \<le> nb_length (hd nb)
         \<and> nb_data (hd nb) \<notin> nb_data ` set (tl nb @ L @ held s)"
    and "src = (if src_ip = 0 then if_address net else src_ip)"
    and "ip4_wire net (datagram_header ip_id tos ttl protocol src dest DF 0 (length D)) (with_checksum pad src dest ck D) = (e, ps)"
    and "fnet_mempool_malloc_max (pool s) = Some free" "8 * (23 * length ps + 10) \<le> free"
  shows "\<exists>s'. fnet_ip4_output main_pool (fnet_prot_drain b) pad (\<lambda>_. fnet_eth_output_ip4 b) netifs dflt s ip_id netif src_ip dest
         protocol tos ttl nb DF do_not_route checksum
       = Some (s', if 20 + length D > FNET_IP4_MAX_PACKET then ip_id else ip_id + 1, e)
     \<and> sent s' = sent s @ map (eth_frame b FNET_ETH_TYPE_IP4 mac \<circ> on_wire (nb_flags (hd nb))) ps
     \<and> arp_inv (mempool_owns a N) X s' L \<and> same_bytes s s' L"
proof -
  have "mempool_owns a N (pool s) (dom (bufs s) \<union> (set (map nb_addr ((nb @ L) @ held s)) \<union> (X \<union> set (other_blocks s))))"
    using main.nb_inv_mem(1) [OF arp_invD(2) [OF assms(1)]] by (simp add: mem_ok_def)
  from malloc_max_room [OF this assms(17,18)] have "mempool_room (pool s) (23 * length ps + 10)" .
  with heap.ip4_over_eth [OF assms(1,2,4,5-10,3,11-16)] show ?thesis by (elim exE conjE) simp
qed

lemma ip4_output_frames_witness:
  "\<exists>(s :: mempool arp_net) n s' ps. arp_inv (mempool_owns 4104 127) {} s [n] \<and> chain_bytes s [n] = wire_data \<and> length ps = 2
     \<and> fnet_ip4_output main_pool (fnet_prot_drain quiet_board) 0 (\<lambda>_. fnet_eth_output_ip4 quiet_board) [] None s 7
         (Some wire_netif) 0 0xFFFFFFFF 17 0 64 [n] False True None = Some (s', 8, FNET_ERR_OK)
     \<and> sent s' = map (eth_frame quiet_board FNET_ETH_TYPE_IP4 fnet_eth_broadcast \<circ> on_wire (nb_flags n)) ps"
proof (rule wire_call)
  fix s :: "mempool arp_net" and n ps
  assume s: "arp_inv (mempool_owns 4104 127) {} s ([n] @ [])" "\<forall>m\<in>set [n]. 0 < nb_length m" "total_ok [n]"
    "chain_bytes s [n] = wire_data" "sent s = []" "fnet_mempool_malloc_max (pool s) = Some 936" "length ps = 2"
    "link_address s (next_hop wire_netif 0xFFFFFFFF True) = Some fnet_eth_broadcast"
    "ip4_wire wire_netif (datagram_header 7 0 64 17 0x0100000A 0xFFFFFFFF False 0 (length wire_data))
       (with_checksum 0 0x0100000A 0xFFFFFFFF None wire_data) = (FNET_ERR_OK, ps)"
  have b: "board_ok main_pool (mempool_owns 4104 127) quiet_board" using quiet_board_ok by (simp add: eth_board_ok_def)
  have nb: "[n] = [] @ [n]" by simp
  have free: "8 * (23 * length ps + 10) \<le> 936" by (simp add: s(7))
  have id: "(if 20 + length wire_data > FNET_IP4_MAX_PACKET then 7 else 7 + 1) = (8 :: u16)"
    by (simp add: wire_data_def FNET_IP4_MAX_PACKET_def)
  obtain s' where s': "fnet_ip4_output main_pool (fnet_prot_drain quiet_board) 0 (\<lambda>_. fnet_eth_output_ip4 quiet_board) [] None s 7
         (Some wire_netif) 0 0xFFFFFFFF 17 0 64 [n] False True None = Some (s', 8, FNET_ERR_OK)"
      "sent s' = sent s @ map (eth_frame quiet_board FNET_ETH_TYPE_IP4 fnet_eth_broadcast \<circ> on_wire (nb_flags n)) ps"
    using ip4_output_frames [OF s(1) b wire_call_simple(1,2) nb s(2-4) wire_call_simple(3,4,5) s(8) wire_no_checksum
        wire_call_simple(6) s(9,6) free] unfolding id list.sel(1)
    by (elim exE conjE) (rule that)
  have inv: "arp_inv (mempool_owns 4104 127) {} s [n]" using s(1) by (simp only: append_Nil2)
  have "sent s' = map (eth_frame quiet_board FNET_ETH_TYPE_IP4 fnet_eth_broadcast \<circ> on_wire (nb_flags n)) ps" unfolding s'(2) s(5) by (rule append_Nil)
  with inv s(4,7) s'(1) show ?thesis by (intro exI conjI)
qed





end
