(* ===== verification/Teensy_Eeprom.thy ===== *)
theory Teensy_Eeprom
  imports Prelude
begin

text \<open>
  The EEPROM emulation of the Teensy core, \<^verbatim>\<open>src/pjrc/teensy4/eeprom.c\<close>, for the board
  \<^verbatim>\<open>ARDUINO_TEENSY41\<close>: bytes are kept in logs of 16-bit entries, one log in each of 63 sectors of the flash
  chip. A write appends an entry; when the sector is full it is erased and written again without what is stale.

  The chip is a parameter: reading, writing and erasing it are the fields of \<open>flash_chip\<close>, and
  \<open>flash_ok\<close> says what the data sheet promises of them. The register accesses that do it are not modelled.
  A reset loses the variables of the code and keeps the chip.
\<close>

unbundle bit_operations_syntax

section \<open>The chip and the state\<close>

record 'm flash_chip =
  fl_read :: "'m \<Rightarrow> nat \<Rightarrow> u16"          \<comment> \<open>the 16 bits at an address\<close>
  fl_write :: "'m \<Rightarrow> nat \<Rightarrow> u16 \<Rightarrow> 'm"     \<comment> \<open>\<^verbatim>\<open>eepromemu_flash_write\<close> of two bytes\<close>
  fl_erase :: "'m \<Rightarrow> nat \<Rightarrow> 'm"          \<comment> \<open>\<^verbatim>\<open>eepromemu_flash_erase_sector\<close>\<close>

definition FLASH_BASEADDR :: nat where "FLASH_BASEADDR = 0x607C0000"
definition FLASH_SECTORS :: nat where "FLASH_SECTORS = 63"
definition E2END :: nat where "E2END = 0x10BB"

text \<open>
  The static variables, with the content of the chip. Indices are at most 2048, so natural numbers for
  \<^verbatim>\<open>uint16_t\<close>.
\<close>

record 'm eeprom =
  flash :: 'm
  initialized :: bool
  sector_index :: "nat list"

definition sector_addr :: "nat \<Rightarrow> nat" where
  "sector_addr s = FLASH_BASEADDR + s * 4096"

section \<open>The code\<close>

function scan_loop :: "(nat \<Rightarrow> u16) \<Rightarrow> nat \<Rightarrow> nat \<Rightarrow> nat \<Rightarrow> nat" where
  "scan_loop rd p e index =
     (if rd p = 0xFFFF then index
      else if p + 2 < e then scan_loop rd (p + 2) e (index + 1) else index + 1)"
  by pat_completeness auto
termination by (relation "measure (\<lambda>(rd, p, e, index). e - p)") auto

definition eeprom_initialize :: "'m flash_chip \<Rightarrow> 'm eeprom \<Rightarrow> 'm eeprom" where
  "eeprom_initialize chip st =
     st\<lparr>initialized := True,
        sector_index := map (\<lambda>sector. scan_loop (fl_read chip (flash st)) (sector_addr sector) (sector_addr (sector + 1)) 0)
          [0..<FLASH_SECTORS]\<rparr>"

definition ready :: "'m flash_chip \<Rightarrow> 'm eeprom \<Rightarrow> 'm eeprom" where
  "ready chip st = (if \<not> initialized st then eeprom_initialize chip st else st)"

definition ee_sector :: "u32 \<Rightarrow> nat" where
  "ee_sector addr = unat (drop_bit 2 addr) mod FLASH_SECTORS"

definition ee_offset :: "u32 \<Rightarrow> u32" where
  "ee_offset addr = (addr AND 3) OR push_bit 2 (drop_bit 2 addr div of_nat FLASH_SECTORS)"

function find_last :: "(nat \<Rightarrow> u16) \<Rightarrow> nat \<Rightarrow> nat \<Rightarrow> u32 \<Rightarrow> u8 \<Rightarrow> u8" where
  "find_last rd p e offset data =
     (if p < e
      then find_last rd (p + 2) e offset
             (if ucast (rd p AND 255) = offset then ucast (drop_bit 8 (rd p)) else data)
      else data)"
  by pat_completeness auto
termination by (relation "measure (\<lambda>(rd, p, e, offset, data). e - p)") auto

declare scan_loop.simps [simp del] find_last.simps [simp del]

definition eeprom_read_byte :: "'m flash_chip \<Rightarrow> 'm eeprom \<Rightarrow> u32 \<Rightarrow> 'm eeprom \<times> u8" where
  "eeprom_read_byte chip st addr =
     (if unat addr > E2END then (st, 0xFF)
      else
        let st = ready chip st;
            sector = ee_sector addr;
            p = sector_addr sector
        in (st, find_last (fl_read chip (flash st)) p (p + 2 * sector_index st ! sector) (ee_offset addr) 0xFF))"

text \<open>The entry of the log for a byte.\<close>

definition entry :: "u32 \<Rightarrow> u8 \<Rightarrow> u16" where
  "entry offset data = ucast offset OR push_bit 8 (ucast data)"

text \<open>Collecting the bytes of a full sector, and writing back those that are not \<open>0xFF\<close>.\<close>

fun collect :: "(nat \<Rightarrow> u16) \<Rightarrow> nat \<Rightarrow> nat \<Rightarrow> u8 list \<Rightarrow> u8 list" where
  "collect rd p 0 buf = buf"
| "collect rd p (Suc n) buf = collect rd (p + 2) n (buf[unat (rd p AND 255) := ucast (drop_bit 8 (rd p))])"

fun rewrite_loop :: "'m flash_chip \<Rightarrow> nat \<Rightarrow> u8 list \<Rightarrow> 'm \<Rightarrow> nat \<Rightarrow> nat \<Rightarrow> 'm \<times> nat" where
  "rewrite_loop chip p [] m i index = (m, index)"
| "rewrite_loop chip p (b # buf) m i index =
     (if b \<noteq> 0xFF
      then rewrite_loop chip p buf (fl_write chip m (p + 2 * index) (entry (of_nat i) b)) (i + 1) (index + 1)
      else rewrite_loop chip p buf m (i + 1) index)"

definition eeprom_write_byte :: "'m flash_chip \<Rightarrow> 'm eeprom \<Rightarrow> u32 \<Rightarrow> u8 \<Rightarrow> 'm eeprom" where
  "eeprom_write_byte chip st addr data =
     (if unat addr > E2END then st
      else
        let st = ready chip st;
            sector = ee_sector addr;
            offset = ee_offset addr;
            p = sector_addr sector;
            index = sector_index st ! sector;
            olddata = find_last (fl_read chip (flash st)) p (p + 2 * index) offset 0xFF
        in if data = olddata then st
           else if index < 2048
           then st\<lparr>flash := fl_write chip (flash st) (p + 2 * index) (entry offset data),
                   sector_index := (sector_index st)[sector := index + 1]\<rparr>
           else
             let buf = (collect (fl_read chip (flash st)) p 2048 (replicate 256 0xFF))[unat offset := data];
                 (m, index) = rewrite_loop chip p buf (fl_erase chip (flash st) p) 0 0
             in st\<lparr>flash := m, sector_index := (sector_index st)[sector := index]\<rparr>)"

definition eeprom_read_word :: "'m flash_chip \<Rightarrow> 'm eeprom \<Rightarrow> u32 \<Rightarrow> 'm eeprom \<times> u16" where
  "eeprom_read_word chip st p =
     (let (st, b0) = eeprom_read_byte chip st p;
          (st, b1) = eeprom_read_byte chip st (p + 1)
      in (st, ucast b0 OR push_bit 8 (ucast b1)))"

definition eeprom_read_dword :: "'m flash_chip \<Rightarrow> 'm eeprom \<Rightarrow> u32 \<Rightarrow> 'm eeprom \<times> u32" where
  "eeprom_read_dword chip st p =
     (let (st, b0) = eeprom_read_byte chip st p;
          (st, b1) = eeprom_read_byte chip st (p + 1);
          (st, b2) = eeprom_read_byte chip st (p + 2);
          (st, b3) = eeprom_read_byte chip st (p + 3)
      in (st, ucast b0 OR push_bit 8 (ucast b1) OR push_bit 16 (ucast b2) OR push_bit 24 (ucast b3)))"

text \<open>The loops over a block, for any way to read and write a byte.\<close>

fun read_bytes :: "('s \<Rightarrow> u32 \<Rightarrow> 's \<times> u8) \<Rightarrow> 's \<Rightarrow> u32 \<Rightarrow> nat \<Rightarrow> 's \<times> u8 list" where
  "read_bytes rd s p 0 = (s, [])"
| "read_bytes rd s p (Suc len) =
     (let (s, b) = rd s p;
          (s, bs) = read_bytes rd s (p + 1) len
      in (s, b # bs))"

fun write_bytes :: "('s \<Rightarrow> u32 \<Rightarrow> u8 \<Rightarrow> 's) \<Rightarrow> 's \<Rightarrow> u8 list \<Rightarrow> u32 \<Rightarrow> 's" where
  "write_bytes wr s [] p = s"
| "write_bytes wr s (b # bs) p = write_bytes wr (wr s p b) bs (p + 1)"

definition eeprom_read_block :: "'m flash_chip \<Rightarrow> 'm eeprom \<Rightarrow> u32 \<Rightarrow> nat \<Rightarrow> 'm eeprom \<times> u8 list" where
  "eeprom_read_block chip = read_bytes (eeprom_read_byte chip)"

definition eeprom_write_word :: "'m flash_chip \<Rightarrow> 'm eeprom \<Rightarrow> u32 \<Rightarrow> u16 \<Rightarrow> 'm eeprom" where
  "eeprom_write_word chip st p v =
     (let st = eeprom_write_byte chip st p (ucast v)
      in eeprom_write_byte chip st (p + 1) (ucast (drop_bit 8 v)))"

definition eeprom_write_dword :: "'m flash_chip \<Rightarrow> 'm eeprom \<Rightarrow> u32 \<Rightarrow> u32 \<Rightarrow> 'm eeprom" where
  "eeprom_write_dword chip st p v =
     (let st = eeprom_write_byte chip st p (ucast v);
          st = eeprom_write_byte chip st (p + 1) (ucast (drop_bit 8 v));
          st = eeprom_write_byte chip st (p + 2) (ucast (drop_bit 16 v))
      in eeprom_write_byte chip st (p + 3) (ucast (drop_bit 24 v)))"

definition eeprom_write_block :: "'m flash_chip \<Rightarrow> 'm eeprom \<Rightarrow> u8 list \<Rightarrow> u32 \<Rightarrow> 'm eeprom" where
  "eeprom_write_block chip = write_bytes (eeprom_write_byte chip)"

section \<open>What the chip promises\<close>

text \<open>
  To write an erased entry stores it and changes no other; to erase a sector sets its entries to \<open>0xFFFF\<close>
  and changes no other sector. Nothing is said about writing an entry that is not erased.
\<close>

definition flash_ok :: "'m flash_chip \<Rightarrow> bool" where
  "flash_ok chip \<longleftrightarrow>
     (\<forall>m a x. even a \<longrightarrow> fl_read chip m a = 0xFFFF \<longrightarrow> fl_read chip (fl_write chip m a x) a = x)
   \<and> (\<forall>m a b x. even a \<longrightarrow> even b \<longrightarrow> a \<noteq> b \<longrightarrow> fl_read chip (fl_write chip m a x) b = fl_read chip m b)
   \<and> (\<forall>m a b. even b \<longrightarrow> fl_read chip (fl_erase chip m a) b =
        (if b div 4096 = a div 4096 then 0xFFFF else fl_read chip m b))"

text \<open>A NOR flash, where writing can only clear bits, keeps this promise.\<close>

definition nor_chip :: "(nat \<Rightarrow> u16) flash_chip" where
  "nor_chip = \<lparr>fl_read = (\<lambda>m. m), fl_write = (\<lambda>m a x. m(a := m a AND x)),
     fl_erase = (\<lambda>m a b. if b div 4096 = a div 4096 then 0xFFFF else m b)\<rparr>"

lemma nor_chip_ok: "flash_ok nor_chip"
proof -
  have "(0xFFFF :: u16) = - 1" by simp
  then have "(0xFFFF :: u16) AND x = x" for x by (simp only: and.left_neutral)
  then show ?thesis by (simp add: flash_ok_def nor_chip_def)
qed

section \<open>Logs\<close>

text \<open>The entries of a sector, its log, and the value that a log gives to an offset.\<close>

definition cells :: "'m flash_chip \<Rightarrow> 'm \<Rightarrow> nat \<Rightarrow> u16 list" where
  "cells chip m s = map (\<lambda>i. fl_read chip m (sector_addr s + 2 * i)) [0..<2048]"

definition log_of :: "'m flash_chip \<Rightarrow> 'm \<Rightarrow> nat \<Rightarrow> u16 list" where
  "log_of chip m s = takeWhile (\<lambda>w. w \<noteq> 0xFFFF) (cells chip m s)"

definition log_val :: "u16 list \<Rightarrow> u32 \<Rightarrow> u8 \<Rightarrow> u8" where
  "log_val ws off d = fold (\<lambda>w d. if ucast (w AND 255) = off then ucast (drop_bit 8 w) else d) ws d"

definition clean :: "'m flash_chip \<Rightarrow> 'm \<Rightarrow> nat \<Rightarrow> bool" where
  "clean chip m s \<longleftrightarrow> cells chip m s = log_of chip m s @ replicate (2048 - length (log_of chip m s)) 0xFFFF"

definition ee_inv :: "'m flash_chip \<Rightarrow> 'm eeprom \<Rightarrow> bool" where
  "ee_inv chip st \<longleftrightarrow> (\<forall>s<FLASH_SECTORS. clean chip (flash st) s)
     \<and> (initialized st \<longrightarrow> sector_index st = map (\<lambda>s. length (log_of chip (flash st) s)) [0..<FLASH_SECTORS])"

text \<open>What the memory holds at an address.\<close>

definition ee_val :: "'m flash_chip \<Rightarrow> 'm eeprom \<Rightarrow> u32 \<Rightarrow> u8" where
  "ee_val chip st a = (if unat a > E2END then 0xFF else log_val (log_of chip (flash st) (ee_sector a)) (ee_offset a) 0xFF)"

lemma log_val_simps [simp]:
  "log_val [] off d = d"
  "log_val (ws @ [w]) off d = (if ucast (w AND 255) = off then ucast (drop_bit 8 w) else log_val ws off d)"
  by (simp_all add: log_val_def)

lemma length_cells [simp]: "length (cells chip m s) = 2048"
  by (simp add: cells_def)

lemma length_log: "length (log_of chip m s) \<le> 2048"
  unfolding log_of_def by (metis length_cells length_takeWhile_le)

subsection \<open>Reading a log\<close>

lemma upt_front: "[0..<Suc n] = 0 # map Suc [0..<n]"
  by (simp only: upt_conv_Cons [OF zero_less_Suc] map_Suc_upt)

lemma scan_loop_log:
  assumes "0 < n"
  shows "scan_loop rd p (p + 2 * n) index
    = index + length (takeWhile (\<lambda>w. w \<noteq> 0xFFFF) (map (\<lambda>i. rd (p + 2 * i)) [0..<n]))"
  using assms
proof (induction n arbitrary: p index)
  case (Suc n)
  note up = upt_front [of n]
  show ?case
  proof (cases "rd p = 0xFFFF \<or> n = 0")
    case True
    then show ?thesis by (subst scan_loop.simps) (auto simp: up comp_def simp del: upt_Suc)
  next
    case False
    then have "scan_loop rd (p + 2) (p + 2 + 2 * n) (index + 1)
      = index + 1 + length (takeWhile (\<lambda>w. w \<noteq> 0xFFFF) (map (\<lambda>i. rd (p + 2 + 2 * i)) [0..<n]))"
      by (intro Suc.IH) simp
    moreover have "p + 2 * Suc n = p + 2 + 2 * n" by simp
    ultimately show ?thesis using False by (subst scan_loop.simps) (simp add: up comp_def del: upt_Suc)
  qed
qed simp

lemma find_last_log: "find_last rd p (p + 2 * n) off d = log_val (map (\<lambda>i. rd (p + 2 * i)) [0..<n]) off d"
proof (induction n arbitrary: p d)
  case (Suc n)
  note up = upt_front [of n]
  have "find_last rd (p + 2) (p + 2 + 2 * n) off d' = log_val (map (\<lambda>i. rd (p + 2 + 2 * i)) [0..<n]) off d'" for d'
    by (rule Suc.IH)
  moreover have "p + 2 * Suc n = p + 2 + 2 * n" by simp
  ultimately show ?case by (subst find_last.simps) (simp add: up comp_def log_val_def del: upt_Suc)
next
  case 0
  show ?case by (subst find_last.simps) simp
qed

lemma log_prefix: "map (\<lambda>i. fl_read chip m (sector_addr s + 2 * i)) [0..<length (log_of chip m s)] = log_of chip m s"
proof -
  have "log_of chip m s = take (length (log_of chip m s)) (cells chip m s)"
    unfolding log_of_def by (metis takeWhile_eq_take)
  also have "\<dots> = map (\<lambda>i. fl_read chip m (sector_addr s + 2 * i)) [0..<length (log_of chip m s)]"
    using length_log [of chip m s] by (simp add: cells_def take_map)
  finally show ?thesis by simp
qed

lemma sector_addr_Suc: "sector_addr (s + 1) = sector_addr s + 2 * 2048"
  by (simp add: sector_addr_def)

lemma ready_ok:
  assumes "ee_inv chip st"
  shows "ee_inv chip (ready chip st)" "flash (ready chip st) = flash st" "initialized (ready chip st)"
    "ee_val chip (ready chip st) = ee_val chip st"
proof -
  show 1: "flash (ready chip st) = flash st" by (simp add: ready_def eeprom_initialize_def)
  show "initialized (ready chip st)" by (simp add: ready_def eeprom_initialize_def)
  show "ee_val chip (ready chip st) = ee_val chip st" by (rule ext) (simp add: ee_val_def 1)
  have "scan_loop (fl_read chip m) (sector_addr s) (sector_addr (s + 1)) 0 = length (log_of chip m s)" for m s
    unfolding sector_addr_Suc by (subst scan_loop_log) (simp_all add: log_of_def cells_def)
  then show "ee_inv chip (ready chip st)"
    using assms by (simp add: ee_inv_def ready_def eeprom_initialize_def)
qed

lemma ee_sector_less [simp]: "ee_sector a < FLASH_SECTORS"
  by (simp add: ee_sector_def FLASH_SECTORS_def)

lemma index_log:
  assumes "ee_inv chip st"
  shows "sector_index (ready chip st) ! ee_sector a = length (log_of chip (flash st) (ee_sector a))"
    "length (sector_index (ready chip st)) = FLASH_SECTORS"
  using ready_ok [OF assms] ee_sector_less [of a] by (simp_all add: ee_inv_def)

lemma eeprom_read_byte_val:
  assumes "ee_inv chip st"
  shows "snd (eeprom_read_byte chip st a) = ee_val chip st a" "ee_inv chip (fst (eeprom_read_byte chip st a))"
    "ee_val chip (fst (eeprom_read_byte chip st a)) = ee_val chip st" "flash (fst (eeprom_read_byte chip st a)) = flash st"
  using ready_ok [OF assms] index_log(1) [OF assms] assms
  by (auto simp: eeprom_read_byte_def Let_def find_last_log log_prefix ee_val_def)

section \<open>Writing\<close>

subsection \<open>Entries and addresses\<close>

lemma byte_mask: "(255 :: u16) = mask 8"
  by (simp add: mask_eq_exp_minus_1)

lemma entry_byte:
  "(ucast (entry (ucast (b :: u8)) d AND 255) :: u32) = ucast b" "(ucast (drop_bit 8 (entry (ucast (b :: u8)) d)) :: u8) = d"
proof -
  show "(ucast (entry (ucast b) d AND 255) :: u32) = ucast b" unfolding byte_mask
    by (rule bit_word_eqI) (auto simp: entry_def bit_simps dest: bit_imp_le_length)
  show "(ucast (drop_bit 8 (entry (ucast b) d)) :: u8) = d"
    by (rule bit_word_eqI) (auto simp: entry_def bit_simps dest: bit_imp_le_length)
qed

lemma small_offset:
  assumes "unat (off :: u32) < 256"
  shows "off = ucast (ucast off :: u8)"
proof (rule unsigned_word_eqI)
  have two: "ucast (ucast off :: u8) = take_bit 8 off" by (rule bit_word_eqI) (auto simp: bit_simps)
  have "take_bit 8 (unat off) = unat off" using assms by (simp add: take_bit_nat_eq_self_iff)
  then show "unat off = unat (ucast (ucast off :: u8) :: u32)"
    unfolding two by (simp only: unsigned_take_bit_eq)
qed

lemma entry_simps [simp]:
  assumes "unat off < 256"
  shows "ucast (entry off d AND 255) = off" "ucast (drop_bit 8 (entry off d)) = d"
  using entry_byte [of "ucast off" d] small_offset [OF assms] by metis+

lemma entry_not_erased:
  assumes "unat off < 256" "unat off \<noteq> 255 \<or> d \<noteq> 0xFF"
  shows "entry off d \<noteq> 0xFFFF"
proof
  assume e: "entry off d = 0xFFFF"
  have "ucast (0xFFFF AND 255 :: u16) = (255 :: u32)" "ucast (drop_bit 8 (0xFFFF :: u16)) = (0xFF :: u8)" by simp_all
  then have "off = 255" "d = 0xFF" using entry_simps [OF assms(1), of d] unfolding e by simp_all
  then show False using assms(2) by simp
qed

lemma unat_ee_offset: "unat (ee_offset a) = unat a mod 4 + 4 * (unat a div 4 div 63)"
proof -
  let ?q = "drop_bit 2 a div of_nat FLASH_SECTORS"
  have q: "unat ?q = unat a div 4 div 63" by (simp add: FLASH_SECTORS_def unat_div_distrib unat_drop_bit_div)
  have m: "(3 :: u32) = mask 2" by (simp add: mask_eq_exp_minus_1)
  then have low: "unat (a AND 3) = unat a mod 4" 
    by (simp only: take_bit_eq_mask [symmetric] unsigned_take_bit_eq) (simp add: take_bit_eq_mod)
  have disj: "(a AND 3) AND push_bit 2 ?q = 0" unfolding m by (rule bit_word_eqI) (auto simp: bit_simps)
  have split: "unat a mod 4 + 4 * (unat a div 4) = unat a" by (rule mod_mult_div_eq)
  have le: "unat a div 4 div 63 \<le> unat a div 4" by (rule div_le_dividend)
  then have sum: "unat a mod 4 + 4 * (unat a div 4 div 63) < 4294967296" using split word32_lt [of a] by linarith
  then have "4 * unat ?q < 4294967296" unfolding q by linarith
  then have high: "unat (push_bit 2 ?q) = 4 * unat ?q" by (simp add: push_bit_eq_mult unat_word_ariths mult.commute)
  have "ee_offset a = (a AND 3) + push_bit 2 ?q"
    unfolding ee_offset_def by (rule disjunctive_add_eq_or [OF disj, symmetric])
  moreover have "unat (a AND 3) + unat (push_bit 2 ?q) < 4294967296"
    unfolding low high q by (rule sum)
  ultimately show ?thesis by (simp only: unat_add_u32 low high q mod_less)
qed

lemma offset_small: "unat a \<le> E2END \<Longrightarrow> unat (ee_offset a) < 68"
proof -
  assume "unat a \<le> E2END"
  then have "unat a div 4 \<le> 1070" unfolding E2END_def by linarith
  then have "unat a div 4 div 63 \<le> 16" using div_le_mono [of _ 1070 63] by simp
  moreover have "unat a mod 4 < 4" by simp
  ultimately show ?thesis unfolding unat_ee_offset by linarith
qed

lemma unat_ee_sector: "ee_sector a = unat a div 4 mod 63"
  by (simp add: ee_sector_def FLASH_SECTORS_def unat_drop_bit_div)

lemma digit_inj:
  fixes r r' :: nat
  assumes "r + 4 * x = r' + 4 * y" "r < 4" "r' < 4"
  shows "r = r'" "x = y"
  using assms by presburger+

lemma address_inj:
  assumes "ee_sector a = ee_sector b" "ee_offset a = ee_offset b"
  shows "a = b"
proof (rule unsigned_word_eqI)
  have "unat a div 4 mod 63 = unat b div 4 mod 63"
    "unat a mod 4 + 4 * (unat a div 4 div 63) = unat b mod 4 + 4 * (unat b div 4 div 63)"
    using assms by (metis unat_ee_sector unat_ee_offset)+
  then have "unat a mod 4 = unat b mod 4" "unat a div 4 div 63 = unat b div 4 div 63" "unat a div 4 mod 63 = unat b div 4 mod 63"
    by (meson digit_inj mod_less_divisor zero_less_numeral)+
  then have "unat a div 4 = unat b div 4" "unat a mod 4 = unat b mod 4" by (metis div_mult_mod_eq)+
  then show "unat a = unat b" by (metis div_mult_mod_eq)
qed

subsection \<open>The chip by sectors\<close>

lemma even_sector_addr [simp]: "even (sector_addr s)"
  by (simp add: sector_addr_def FLASH_BASEADDR_def)

lemma sector_div: "i < 2048 \<Longrightarrow> (sector_addr s + 2 * i) div 4096 = 0x607C0 + s"
  unfolding sector_addr_def FLASH_BASEADDR_def by presburger

lemma cells_write:
  assumes "flash_ok chip" "i < 2048" "cells chip m s ! i = 0xFFFF"
  shows "cells chip (fl_write chip m (sector_addr s + 2 * i) x) s = (cells chip m s)[i := x]"
proof (rule nth_equalityI)
  fix j assume "j < length (cells chip (fl_write chip m (sector_addr s + 2 * i) x) s)"
  then show "cells chip (fl_write chip m (sector_addr s + 2 * i) x) s ! j = (cells chip m s)[i := x] ! j"
    using assms by (cases "i = j") (simp_all add: cells_def flash_ok_def)
qed simp

lemma cells_write_other:
  assumes "flash_ok chip" "i < 2048" "s' \<noteq> s"
  shows "cells chip (fl_write chip m (sector_addr s + 2 * i) x) s' = cells chip m s'"
proof (rule nth_equalityI)
  fix j assume "j < length (cells chip (fl_write chip m (sector_addr s + 2 * i) x) s')"
  then have j: "j < 2048" by simp
  then have "sector_addr s + 2 * i \<noteq> sector_addr s' + 2 * j"
    using sector_div [OF assms(2), of s] sector_div [OF j, of s'] assms(3) by auto
  then show "cells chip (fl_write chip m (sector_addr s + 2 * i) x) s' ! j = cells chip m s' ! j"
    using assms(1) j by (simp add: cells_def flash_ok_def)
qed simp

lemma cells_erase:
  assumes "flash_ok chip"
  shows "cells chip (fl_erase chip m (sector_addr s)) s' = (if s' = s then replicate 2048 0xFFFF else cells chip m s')"
proof (rule nth_equalityI)
  fix j assume "j < length (cells chip (fl_erase chip m (sector_addr s)) s')"
  then have j: "j < 2048" by simp
  show "cells chip (fl_erase chip m (sector_addr s)) s' ! j
      = (if s' = s then replicate 2048 0xFFFF else cells chip m s') ! j"
    using assms j sector_div [OF j, of s'] sector_div [of 0 s] by (simp add: cells_def flash_ok_def)
qed simp

lemma clean_log:
  assumes "cells chip m s = ws @ replicate k 0xFFFF" "0xFFFF \<notin> set ws"
  shows "log_of chip m s = ws" "clean chip m s"
proof -
  show log: "log_of chip m s = ws"
  proof (cases k)
    case (Suc n)
    have "takeWhile (\<lambda>w. w \<noteq> 0xFFFF) (ws @ 0xFFFF # replicate n 0xFFFF) = ws"
      by (rule takeWhile_append_stop) (use assms(2) in auto)
    then show ?thesis using assms(1) Suc by (simp add: log_of_def)
  next
    case 0
    have "takeWhile (\<lambda>w. w \<noteq> 0xFFFF) ws = ws" unfolding takeWhile_eq_all_conv using assms(2) by auto
    then show ?thesis using assms(1) 0 by (simp add: log_of_def)
  qed
  have "length (ws @ replicate k 0xFFFF) = 2048" by (metis assms(1) length_cells)
  then show "clean chip m s" by (simp add: clean_def log assms(1))
qed

lemma log_no_erased: "0xFFFF \<notin> set (log_of chip m s)"
  unfolding log_of_def by (auto dest: set_takeWhileD)

lemma same_cells: "cells chip' m' s = cells chip m s \<Longrightarrow> log_of chip' m' s = log_of chip m s \<and> clean chip' m' s = clean chip m s"
  by (simp add: log_of_def clean_def)

text \<open>One entry more in a sector that is not full.\<close>

lemma append_entry:
  assumes "flash_ok chip" "clean chip m s" "length (log_of chip m s) < 2048" "x \<noteq> 0xFFFF"
  defines "m' \<equiv> fl_write chip m (sector_addr s + 2 * length (log_of chip m s)) x"
  shows "log_of chip m' s = log_of chip m s @ [x]" "clean chip m' s" "s' \<noteq> s \<Longrightarrow> cells chip m' s' = cells chip m s'"
proof -
  let ?ws = "log_of chip m s"
  obtain n where n: "2048 - length ?ws = Suc n" using assms(3) by (cases "2048 - length ?ws") auto
  have c: "cells chip m s = ?ws @ 0xFFFF # replicate n 0xFFFF" using assms(2) by (simp add: clean_def n)
  then have "cells chip m s ! length ?ws = 0xFFFF" by simp
  from cells_write [OF assms(1,3) this, of x] have "cells chip m' s = (?ws @ [x]) @ replicate n 0xFFFF" by (simp add: c m'_def)
  from clean_log [OF this] show "log_of chip m' s = ?ws @ [x]" "clean chip m' s"
    using log_no_erased [of chip m s] assms(4) by auto
  show "cells chip m' s' = cells chip m s'" if "s' \<noteq> s"
    unfolding m'_def by (rule cells_write_other [OF assms(1,3) that])
qed

subsection \<open>A full sector\<close>

lemma length_collect [simp]: "length (collect rd p n buf) = length buf"
  by (induction rd p n buf rule: collect.induct) simp_all

text \<open>The table that is collected has the values of the log.\<close>

lemma unat_small_nat: "i < 256 \<Longrightarrow> unat (of_nat i :: u32) = i"
  by (simp add: unsigned_of_nat take_bit_nat_eq_self_iff)

lemma word8_ucast_eq: "ucast (w AND 255 :: u16) = (of_nat j :: u32) \<longleftrightarrow> unat (w AND 255) = j" if "j < 256"
proof -
  have "unat (ucast (w AND 255) :: u32) = unat (w AND 255)" by simp
  moreover have "unat (of_nat j :: u32) = j" by (rule unat_small_nat [OF that])
  ultimately show ?thesis by (metis unsigned_word_eqI)
qed

lemma unat_low_byte: "unat (w AND 255 :: u16) < 256"
proof -
  have "w AND 255 = take_bit 8 w" unfolding byte_mask by (simp only: take_bit_eq_mask)
  then have "unat (w AND 255) = take_bit 8 (unat w)" by (simp only: unsigned_take_bit_eq)
  then show ?thesis by (simp add: take_bit_eq_mod)
qed

lemma collect_val:
  assumes "length buf = 256" "j < 256"
  shows "collect rd p n buf ! j = log_val (map (\<lambda>i. rd (p + 2 * i)) [0..<n]) (of_nat j) (buf ! j)"
  using assms
proof (induction rd p n buf rule: collect.induct)
  case (2 rd p n buf)
  let ?b = "buf[unat (rd p AND 255) := ucast (drop_bit 8 (rd p))]"
  have "?b ! j = (if ucast (rd p AND 255) = (of_nat j :: u32) then ucast (drop_bit 8 (rd p)) else buf ! j)"
    using 2(2,3) unat_low_byte [of "rd p"] by (simp add: word8_ucast_eq nth_list_update)
  then show ?case using 2 by (simp add: upt_front comp_def log_val_def del: upt_Suc)
qed simp

text \<open>What is written back.\<close>

fun survivors :: "nat \<Rightarrow> u8 list \<Rightarrow> u16 list" where
  "survivors i [] = []"
| "survivors i (b # buf) = (if b \<noteq> 0xFF then entry (of_nat i) b # survivors (i + 1) buf else survivors (i + 1) buf)"

lemma length_survivors: "length (survivors i buf) \<le> length buf"
  by (induction buf arbitrary: i) (auto intro: le_SucI)

lemma survivors_no_erased: "i + length buf \<le> 256 \<Longrightarrow> 0xFFFF \<notin> set (survivors i buf)"
proof (induction buf arbitrary: i)
  case (Cons b buf)
  have "b \<noteq> 0xFF \<Longrightarrow> entry (of_nat i) b \<noteq> 0xFFFF"
    using Cons.prems by (intro entry_not_erased) (simp_all add: unat_small_nat)
  then show ?case using Cons by auto
qed simp

lemma survivors_val:
  assumes "i + length buf \<le> 256" "unat off < 256"
  shows "log_val (survivors i buf) off d
    = (if i \<le> unat off \<and> unat off < i + length buf \<and> buf ! (unat off - i) \<noteq> 0xFF then buf ! (unat off - i) else d)"
  using assms
proof (induction buf arbitrary: i d)
  case (Cons b buf)
  have i: "unat (of_nat i :: u32) = i" using Cons.prems by (simp add: unat_small_nat)
  have e: "(of_nat i = off) \<longleftrightarrow> unat off = i" using i by (metis unsigned_word_eqI)
  have head: "log_val (survivors i (b # buf)) off d
      = log_val (survivors (i + 1) buf) off (if b \<noteq> 0xFF \<and> of_nat i = off then b else d)"
    using Cons.prems i by (simp add: log_val_def)
  have "unat off - i = Suc (unat off - (i + 1))" if "i + 1 \<le> unat off" using that by simp
  then show ?case unfolding head using Cons.prems by (subst Cons.IH) (auto simp: e nth_Cons')
qed (auto simp: log_val_def)

lemma rewrite_loop_log:
  assumes "flash_ok chip" "clean chip m s" "i + length buf \<le> 256"
    and "length (log_of chip m s) + length (survivors i buf) \<le> 2048"
  obtains m' where "rewrite_loop chip (sector_addr s) buf m i (length (log_of chip m s))
      = (m', length (log_of chip m s) + length (survivors i buf))"
    "log_of chip m' s = log_of chip m s @ survivors i buf" "clean chip m' s"
    "\<And>s'. s' \<noteq> s \<Longrightarrow> cells chip m' s' = cells chip m s'"
proof -
  have "\<exists>m'. rewrite_loop chip (sector_addr s) buf m i (length (log_of chip m s))
      = (m', length (log_of chip m s) + length (survivors i buf))
     \<and> log_of chip m' s = log_of chip m s @ survivors i buf \<and> clean chip m' s
     \<and> (\<forall>s'. s' \<noteq> s \<longrightarrow> cells chip m' s' = cells chip m s')"
    using assms(2-4)
  proof (induction buf arbitrary: m i)
    case (Cons b buf)
    show ?case
    proof (cases "b = 0xFF")
      case True
      then show ?thesis using Cons.prems Cons.IH [of m "i + 1"] by simp
    next
      case False
      let ?x = "entry (of_nat i) b"
      let ?m = "fl_write chip m (sector_addr s + 2 * length (log_of chip m s)) ?x"
      have x: "?x \<noteq> 0xFFFF" using Cons.prems(2) False by (intro entry_not_erased) (simp_all add: unat_small_nat)
      have len: "length (log_of chip m s) < 2048" using Cons.prems(3) False by simp
      note a = append_entry [OF assms(1) Cons.prems(1) len x]
      have "i + 1 + length buf \<le> 256" "length (log_of chip ?m s) + length (survivors (i + 1) buf) \<le> 2048"
        using Cons.prems(2,3) False by (simp_all add: a(1))
      from Cons.IH [OF a(2) this] obtain m' where m': "rewrite_loop chip (sector_addr s) buf ?m (i + 1) (length (log_of chip ?m s))
          = (m', length (log_of chip ?m s) + length (survivors (i + 1) buf))"
        "log_of chip m' s = log_of chip ?m s @ survivors (i + 1) buf" "clean chip m' s"
        "\<forall>s'. s' \<noteq> s \<longrightarrow> cells chip m' s' = cells chip ?m s'" by blast
      then show ?thesis using False a(3) by (intro exI [of _ m']) (simp add: a(1))
    qed
  qed simp
  then show thesis using that by blast
qed

section \<open>A write as a function of the values\<close>

lemma ee_invI:
  assumes "ee_inv chip st" "initialized st" "s < FLASH_SECTORS" "clean chip m s"
    and "\<And>s'. s' \<noteq> s \<Longrightarrow> cells chip m s' = cells chip (flash st) s'" "k = length (log_of chip m s)"
  shows "ee_inv chip (st\<lparr>flash := m, sector_index := (sector_index st)[s := k]\<rparr>)"
proof -
  have o: "log_of chip m s' = log_of chip (flash st) s'" "clean chip m s' = clean chip (flash st) s'" if "s' \<noteq> s" for s'
    using same_cells [OF assms(5) [OF that]] by simp_all
  have "(sector_index st)[s := k] = map (\<lambda>s. length (log_of chip m s)) [0..<FLASH_SECTORS]"
  proof (rule nth_equalityI)
    show "length ((sector_index st)[s := k]) = length (map (\<lambda>s. length (log_of chip m s)) [0..<FLASH_SECTORS])"
      using assms(1,2) by (simp add: ee_inv_def)
    fix j assume "j < length ((sector_index st)[s := k])"
    then show "(sector_index st)[s := k] ! j = map (\<lambda>s. length (log_of chip m s)) [0..<FLASH_SECTORS] ! j"
      using assms(1,2,3,6) o [of j] by (cases "j = s") (simp_all add: ee_inv_def)
  qed
  moreover have "clean chip m j" if "j < FLASH_SECTORS" for j
    using assms(1,4) o [of j] that by (cases "j = s") (simp_all add: ee_inv_def)
  ultimately show ?thesis by (simp add: ee_inv_def)
qed

lemma ee_val_sector:
  assumes "unat a \<le> E2END"
    and "\<And>s'. s' \<noteq> ee_sector a \<Longrightarrow> cells chip m s' = cells chip (flash st) s'"
    and "\<And>off. unat off < 256 \<Longrightarrow> log_val (log_of chip m (ee_sector a)) off 0xFF
        = (if off = ee_offset a then x else log_val (log_of chip (flash st) (ee_sector a)) off 0xFF)"
    and "flash st' = m"
  shows "ee_val chip st' = (ee_val chip st)(a := x)"
proof
  fix b
  show "ee_val chip st' b = ((ee_val chip st)(a := x)) b"
  proof (cases "unat b \<le> E2END \<and> ee_sector b = ee_sector a")
    case True
    then have "unat (ee_offset b) < 256" using offset_small [of b] by simp
    from assms(3) [OF this] show ?thesis using True assms(1,4) address_inj [of b a] by (auto simp: ee_val_def)
  next
    case False
    then have "b \<noteq> a" using assms(1) by auto
    then show ?thesis using False assms(4) same_cells [OF assms(2) [of "ee_sector b"]] by (auto simp: ee_val_def)
  qed
qed

lemma old_data:
  assumes "ee_inv chip st" "unat a \<le> E2END"
  shows "find_last (fl_read chip (flash st)) (sector_addr (ee_sector a))
     (sector_addr (ee_sector a) + 2 * sector_index (ready chip st) ! ee_sector a) (ee_offset a) 0xFF = ee_val chip st a"
  using assms by (simp add: index_log(1) find_last_log log_prefix ee_val_def)

lemma eeprom_write_byte_val:
  assumes "flash_ok chip" "ee_inv chip st"
  shows "ee_inv chip (eeprom_write_byte chip st a x)"
    "ee_val chip (eeprom_write_byte chip st a x) = (if unat a > E2END then ee_val chip st else (ee_val chip st)(a := x))"
proof -
  let ?s = "ee_sector a" and ?off = "ee_offset a" and ?r = "ready chip st"
  let ?ws = "log_of chip (flash st) ?s"
  note r = ready_ok [OF assms(2)] and idx = index_log(1) [OF assms(2)]
  have cl: "clean chip (flash st) ?s" using assms(2) by (simp add: ee_inv_def)
  have "ee_inv chip (eeprom_write_byte chip st a x)
    \<and> ee_val chip (eeprom_write_byte chip st a x) = (if unat a > E2END then ee_val chip st else (ee_val chip st)(a := x))"
  proof (cases "unat a \<le> E2END")
    case False
    then show ?thesis using assms(2) by (simp add: eeprom_write_byte_def)
  next
    case True
    note old = old_data [OF assms(2) True, unfolded idx]
    have off: "unat ?off < 256" using offset_small [OF True] by simp
    consider (same) "x = ee_val chip st a" | (app) "x \<noteq> ee_val chip st a" "length ?ws < 2048"
      | (full) "x \<noteq> ee_val chip st a" "length ?ws = 2048" using length_log [of chip "flash st" ?s] by linarith
    then show ?thesis
    proof cases
      case same
      then have "eeprom_write_byte chip st a x = ?r"
        using True by (simp add: eeprom_write_byte_def Let_def r(2) idx old)
      then show ?thesis using r(1,4) True same by simp
    next
      case app
      let ?m = "fl_write chip (flash st) (sector_addr ?s + 2 * length ?ws) (entry ?off x)"
      have w: "eeprom_write_byte chip st a x = ?r\<lparr>flash := ?m, sector_index := (sector_index ?r)[?s := length ?ws + 1]\<rparr>"
        using True app by (simp add: eeprom_write_byte_def Let_def r(2) old idx)
      have ne: "entry ?off x \<noteq> 0xFFFF" using off offset_small [OF True] by (intro entry_not_erased) auto
      note a = append_entry [OF assms(1) cl app(2) ne]
      have "ee_inv chip (eeprom_write_byte chip st a x)"
        unfolding w by (rule ee_invI [OF r(1,3) ee_sector_less a(2)]) (simp_all add: a(1,3) r(2))
      moreover have "ee_val chip (eeprom_write_byte chip st a x) = (ee_val chip st)(a := x)"
        by (rule ee_val_sector [OF True a(3)]) (auto simp: a(1) off w)
      ultimately show ?thesis using True by simp
    next
      case full
      let ?buf = "(collect (fl_read chip (flash st)) (sector_addr ?s) 2048 (replicate 256 0xFF))[unat ?off := x]"
      let ?e = "fl_erase chip (flash st) (sector_addr ?s)"
      have "cells chip ?e ?s = [] @ replicate 2048 0xFFFF" using cells_erase [OF assms(1)] by simp
      from clean_log [OF this] have e: "log_of chip ?e ?s = []" "clean chip ?e ?s" by simp_all
      have len: "length ?buf = 256" by simp
      have "length (survivors 0 ?buf) \<le> 256" using length_survivors [of 0 ?buf] by simp
      then have l: "0 + length ?buf \<le> 256" "length (log_of chip ?e ?s) + length (survivors 0 ?buf) \<le> 2048" by (simp_all add: e(1))
      obtain m where m: "rewrite_loop chip (sector_addr ?s) ?buf ?e 0 0 = (m, length (survivors 0 ?buf))"
        "log_of chip m ?s = survivors 0 ?buf" "clean chip m ?s" "\<And>s'. s' \<noteq> ?s \<Longrightarrow> cells chip m s' = cells chip ?e s'"
        using rewrite_loop_log [OF assms(1) e(2) l] unfolding e(1) by auto
      have w: "eeprom_write_byte chip st a x = ?r\<lparr>flash := m, sector_index := (sector_index ?r)[?s := length (survivors 0 ?buf)]\<rparr>"
        using True full(1) old [unfolded full(2)] m(1) by (simp add: eeprom_write_byte_def Let_def r(2) idx full(2))
      have o: "cells chip m s' = cells chip (flash st) s'" if "s' \<noteq> ?s" for s'
        using m(4) [OF that] cells_erase [OF assms(1), of "flash st" ?s s'] that by simp
      have "ee_inv chip (eeprom_write_byte chip st a x)"
        unfolding w by (rule ee_invI [OF r(1,3) ee_sector_less m(3)]) (simp_all add: o r(2) m(2))
      moreover have "log_val (log_of chip m ?s) off 0xFF = (if off = ?off then x else log_val ?ws off 0xFF)"
        if "unat off < 256" for off
      proof -
        have ws: "map (\<lambda>i. fl_read chip (flash st) (sector_addr ?s + 2 * i)) [0..<2048] = ?ws"
          using log_prefix [of chip "flash st" ?s] full(2) by simp
        have "log_val (log_of chip m ?s) off 0xFF = ?buf ! unat off"
          unfolding m(2) using that by (subst survivors_val) simp_all
        also have "\<dots> = (if unat off = unat ?off then x else log_val ?ws off 0xFF)"
          using that collect_val [of "replicate 256 0xFF" "unat off" "fl_read chip (flash st)" "sector_addr ?s" 2048]
          by (simp add: nth_list_update ws)
        finally show ?thesis by (simp add: word_unat_eq_iff)
      qed
      then have "ee_val chip (eeprom_write_byte chip st a x) = (ee_val chip st)(a := x)"
        by (intro ee_val_sector [OF True o]) (auto simp: w)
      ultimately show ?thesis using True by simp
    qed
  qed
  then show "ee_inv chip (eeprom_write_byte chip st a x)"
    "ee_val chip (eeprom_write_byte chip st a x) = (if unat a > E2END then ee_val chip st else (ee_val chip st)(a := x))"
    by simp_all
qed

section \<open>Memory of bytes as an interface\<close>

text \<open>
  What the routines for words and blocks need of the bytes below them: reading gives the value and
  changes none, writing changes the value at its address, if there is memory.
\<close>

locale byte_store =
  fixes rd :: "'s \<Rightarrow> u32 \<Rightarrow> 's \<times> u8" and wr :: "'s \<Rightarrow> u32 \<Rightarrow> u8 \<Rightarrow> 's"
    and ok :: "'s \<Rightarrow> bool" and val :: "'s \<Rightarrow> u32 \<Rightarrow> u8" and top :: nat
  assumes rd_val: "ok s \<Longrightarrow> snd (rd s a) = val s a"
    and rd_ok: "ok s \<Longrightarrow> ok (fst (rd s a))"
    and rd_same: "ok s \<Longrightarrow> val (fst (rd s a)) = val s"
    and wr_ok: "ok s \<Longrightarrow> ok (wr s a x)"
    and wr_val: "ok s \<Longrightarrow> val (wr s a x) = (if unat a > top then val s else (val s)(a := x))"
begin

lemma read_bytes_val:
  assumes "ok s"
  shows "snd (read_bytes rd s p n) = map (\<lambda>i. val s (p + of_nat i)) [0..<n]"
    "ok (fst (read_bytes rd s p n))" "val (fst (read_bytes rd s p n)) = val s"
proof -
  have "snd (read_bytes rd s p n) = map (\<lambda>i. val s (p + of_nat i)) [0..<n] \<and> ok (fst (read_bytes rd s p n))
    \<and> val (fst (read_bytes rd s p n)) = val s"
    using assms
  proof (induction n arbitrary: s p)
  case (Suc n)
  obtain s1 b where r: "rd s p = (s1, b)" by (cases "rd s p")
  then have s1: "ok s1" "val s1 = val s" "b = val s p" using Suc.prems rd_val [of s p] rd_ok [of s p] rd_same [of s p] by simp_all
  obtain s2 bs where r2: "read_bytes rd s1 (p + 1) n = (s2, bs)" by (cases "read_bytes rd s1 (p + 1) n")
  have "map (\<lambda>i. val s (p + of_nat i)) [0..<Suc n] = val s p # map (\<lambda>i. val s (p + 1 + of_nat i)) [0..<n]"
    by (simp add: upt_front comp_def add.assoc del: upt_Suc)
  then show ?case using Suc.IH [OF s1(1), of "p + 1"] s1 r r2 by (simp del: upt_Suc)
  qed simp
  then show "snd (read_bytes rd s p n) = map (\<lambda>i. val s (p + of_nat i)) [0..<n]"
    "ok (fst (read_bytes rd s p n))" "val (fst (read_bytes rd s p n)) = val s" by simp_all
qed

lemma write_bytes_val:
  assumes "ok s" "length bs \<le> 4294967296"
  shows "ok (write_bytes wr s bs p)"
    "val (write_bytes wr s bs p) a = (if unat (a - p) < length bs \<and> unat a \<le> top then bs ! unat (a - p) else val s a)"
proof -
  have "ok (write_bytes wr s bs p) \<and> val (write_bytes wr s bs p) a
      = (if unat (a - p) < length bs \<and> unat a \<le> top then bs ! unat (a - p) else val s a)"
    using assms
  proof (induction bs arbitrary: s p)
    case (Cons b bs)
    have len: "length bs < 4294967296" using Cons.prems by simp
    have step: "unat (a - p) = Suc (unat (a - (p + 1)))" if "a \<noteq> p"
    proof -
      have e: "a - p = 1 + (a - (p + 1))" by simp
      then have "1 + (a - (p + 1)) \<noteq> 0" using that by simp
      then show ?thesis unfolding e by (rule unatSuc)
    qed
    have "p - (p + 1) = - 1" by simp
    then have last: "unat (p - (p + 1)) = 4294967295"
      by (simp add: unsigned_minus_1_eq_mask mask_eq_exp_minus_1)
    have IH: "ok (write_bytes wr (wr s p b) bs (p + 1)) \<and> val (write_bytes wr (wr s p b) bs (p + 1)) a
      = (if unat (a - (p + 1)) < length bs \<and> unat a \<le> top then bs ! unat (a - (p + 1)) else val (wr s p b) a)"
      using Cons by (intro Cons.IH) (simp_all add: wr_ok)
    show ?case
    proof (cases "a = p")
      case True
      then show ?thesis using IH Cons.prems(1) last len by (simp add: wr_val)
    next
      case False
      then show ?thesis using IH Cons.prems(1) step by (simp add: wr_val)
    qed
  qed simp
  then show "ok (write_bytes wr s bs p)"
    "val (write_bytes wr s bs p) a = (if unat (a - p) < length bs \<and> unat a \<le> top then bs ! unat (a - p) else val s a)"
    by simp_all
qed

lemma read_written:
  assumes "ok s" "unat p + length bs \<le> top + 1" "top < 4294967295"
  shows "snd (read_bytes rd (write_bytes wr s bs p) p (length bs)) = bs"
proof -
  have len: "length bs \<le> 4294967296" using assms(2,3) by simp
  have "val (write_bytes wr s bs p) (p + of_nat i) = bs ! i" if "i < length bs" for i
  proof -
    have i: "unat (of_nat i :: u32) = i" using that assms(2,3) by (simp add: unsigned_of_nat take_bit_nat_eq_self_iff)
    then have "unat (p + of_nat i) = unat p + i" using that assms(2,3) by (simp add: unat_add_u32 del: unsigned_of_nat)
    note i = i this
    then show ?thesis using write_bytes_val(2) [OF assms(1) len, of p "p + of_nat i"] that assms(2) i by simp
  qed
  then have "map (\<lambda>i. val (write_bytes wr s bs p) (p + of_nat i)) [0..<length bs] = map (\<lambda>i. bs ! i) [0..<length bs]" by simp
  then show ?thesis using read_bytes_val(1) [OF write_bytes_val(1) [OF assms(1) len]] by (simp add: map_nth)
qed

end

text \<open>The EEPROM is such a memory, on any chip that keeps its promise.\<close>

interpretation eeprom: byte_store "eeprom_read_byte chip" "eeprom_write_byte chip"
  "\<lambda>st. flash_ok chip \<and> ee_inv chip st" "ee_val chip" E2END
  by unfold_locales (simp_all add: eeprom_read_byte_val eeprom_write_byte_val)

text \<open>Words and double words are blocks in little-endian order, so what was written is read back.\<close>

lemma eeprom_block_written:
  assumes "flash_ok chip" "ee_inv chip st" "unat p + length bs \<le> E2END + 1"
  shows "snd (eeprom_read_block chip (eeprom_write_block chip st bs p) p (length bs)) = bs"
    "ee_val chip (eeprom_write_block chip st bs p) a = (if unat (a - p) < length bs then bs ! unat (a - p) else ee_val chip st a)"
proof -
  have ok: "flash_ok chip \<and> ee_inv chip st" using assms by simp
  have len: "length bs \<le> 4284" using assms(3) by (simp add: E2END_def)
  show "snd (eeprom_read_block chip (eeprom_write_block chip st bs p) p (length bs)) = bs"
    unfolding eeprom_read_block_def eeprom_write_block_def
    by (rule eeprom.read_written [OF ok assms(3)]) (simp add: E2END_def)
  have "unat a \<le> E2END" if "unat (a - p) < length bs"
  proof -
    have "unat p + unat (a - p) < 4294967296" using that assms(3) by (simp add: E2END_def)
    then have "unat (p + (a - p)) = unat p + unat (a - p)" by (simp only: unat_add_u32 mod_less)
    then show ?thesis using that assms(3) by simp
  qed
  then show "ee_val chip (eeprom_write_block chip st bs p) a = (if unat (a - p) < length bs then bs ! unat (a - p) else ee_val chip st a)"
    unfolding eeprom_write_block_def using eeprom.write_bytes_val(2) [OF ok, of bs p a] len by auto
qed

lemma eeprom_word_block:
  "eeprom_write_word chip st p v = eeprom_write_block chip st [ucast v, ucast (drop_bit 8 v)] p"
  "eeprom_read_word chip st p = (let (st, bs) = eeprom_read_block chip st p 2 in (st, ucast (bs ! 0) OR push_bit 8 (ucast (bs ! 1))))"
  by (simp_all add: eeprom_write_word_def eeprom_read_word_def eeprom_write_block_def eeprom_read_block_def
      numeral_2_eq_2 case_prod_beta Let_def)

lemma eeprom_dword_block:
  "eeprom_write_dword chip st p v
     = eeprom_write_block chip st [ucast v, ucast (drop_bit 8 v), ucast (drop_bit 16 v), ucast (drop_bit 24 v)] p"
  "eeprom_read_dword chip st p = (let (st, bs) = eeprom_read_block chip st p 4 in
     (st, ucast (bs ! 0) OR push_bit 8 (ucast (bs ! 1)) OR push_bit 16 (ucast (bs ! 2)) OR push_bit 24 (ucast (bs ! 3))))"
  by (simp_all add: eeprom_write_dword_def eeprom_read_dword_def eeprom_write_block_def eeprom_read_block_def
      numeral_eq_Suc case_prod_beta Let_def add.assoc)

lemma eeprom_words_written:
  assumes "flash_ok chip" "ee_inv chip st"
  shows "unat p + 2 \<le> E2END + 1 \<Longrightarrow> snd (eeprom_read_word chip (eeprom_write_word chip st p w) p) = w"
    "unat p + 4 \<le> E2END + 1 \<Longrightarrow> snd (eeprom_read_dword chip (eeprom_write_dword chip st p d) p) = d"
proof -
  show "snd (eeprom_read_word chip (eeprom_write_word chip st p w) p) = w" if "unat p + 2 \<le> E2END + 1"
  proof -
    let ?bs = "[ucast w, ucast (drop_bit 8 w)] :: u8 list"
    have "snd (eeprom_read_block chip (eeprom_write_block chip st ?bs p) p 2) = ?bs"
      using eeprom_block_written(1) [OF assms, of p ?bs] that by (simp add: numeral_2_eq_2)
    then have "snd (eeprom_read_word chip (eeprom_write_word chip st p w) p) = ucast (?bs ! 0) OR push_bit 8 (ucast (?bs ! 1))"
      by (simp add: eeprom_word_block case_prod_beta)
    also have "\<dots> = w" by (simp, rule bit_word_eqI) (auto simp: bit_simps)
    finally show ?thesis .
  qed
  show "snd (eeprom_read_dword chip (eeprom_write_dword chip st p d) p) = d" if "unat p + 4 \<le> E2END + 1"
  proof -
    let ?bs = "[ucast d, ucast (drop_bit 8 d), ucast (drop_bit 16 d), ucast (drop_bit 24 d)] :: u8 list"
    have "snd (eeprom_read_block chip (eeprom_write_block chip st ?bs p) p 4) = ?bs"
      using eeprom_block_written(1) [OF assms, of p ?bs] that by (simp add: numeral_eq_Suc)
    then have "snd (eeprom_read_dword chip (eeprom_write_dword chip st p d) p)
        = ucast (?bs ! 0) OR push_bit 8 (ucast (?bs ! 1)) OR push_bit 16 (ucast (?bs ! 2)) OR push_bit 24 (ucast (?bs ! 3))"
      by (simp add: eeprom_dword_block case_prod_beta)
    also have "\<dots> = d"
    proof (rule bit_word_eqI)
      fix n assume "n < LENGTH(32)"
      then show "bit (ucast (?bs ! 0) OR push_bit 8 (ucast (?bs ! 1)) OR push_bit 16 (ucast (?bs ! 2)) OR push_bit 24 (ucast (?bs ! 3)) :: u32) n
          \<longleftrightarrow> bit d n" by (cases "24 \<le> n"; cases "16 \<le> n"; cases "8 \<le> n") (auto simp: bit_simps)
    qed
    finally show ?thesis .
  qed
qed

section \<open>Runs, resets and loss of power\<close>

text \<open>What a program does with the memory; a reset loses all variables.\<close>

datatype ee_op = EeRead u32 | EeWrite u32 u8 | EeReset

definition ee_reset :: "'m \<Rightarrow> 'm eeprom" where
  "ee_reset m = \<lparr>flash = m, initialized = False, sector_index = replicate FLASH_SECTORS 0\<rparr>"

fun ee_step :: "'m flash_chip \<Rightarrow> 'm eeprom \<Rightarrow> ee_op \<Rightarrow> 'm eeprom \<times> u8 list" where
  "ee_step chip st (EeRead a) = (let (st, b) = eeprom_read_byte chip st a in (st, [b]))"
| "ee_step chip st (EeWrite a x) = (eeprom_write_byte chip st a x, [])"
| "ee_step chip st EeReset = (ee_reset (flash st), [])"

fun ee_run :: "'m flash_chip \<Rightarrow> 'm eeprom \<Rightarrow> ee_op list \<Rightarrow> 'm eeprom \<times> u8 list" where
  "ee_run chip st [] = (st, [])"
| "ee_run chip st (op # ops) =
     (let (st, bs) = ee_step chip st op; (st, bs') = ee_run chip st ops in (st, bs @ bs'))"

text \<open>The specification: an array of bytes, where the addresses behind the end read as \<open>0xFF\<close>.\<close>

fun mem_run :: "(u32 \<Rightarrow> u8) \<Rightarrow> ee_op list \<Rightarrow> (u32 \<Rightarrow> u8) \<times> u8 list" where
  "mem_run v [] = (v, [])"
| "mem_run v (EeRead a # ops) = (let (v', bs) = mem_run v ops in (v', v a # bs))"
| "mem_run v (EeWrite a x # ops) = mem_run (if unat a > E2END then v else v(a := x)) ops"
| "mem_run v (EeReset # ops) = mem_run v ops"

lemma ee_reset_ok:
  assumes "ee_inv chip st"
  shows "ee_inv chip (ee_reset (flash st))" "ee_val chip (ee_reset (flash st)) = ee_val chip st"
  using assms by (auto simp: ee_inv_def ee_reset_def ee_val_def fun_eq_iff)

lemma ee_step_ok:
  assumes "flash_ok chip" "ee_inv chip st"
  shows "ee_inv chip (fst (ee_step chip st op))"
    "snd (ee_step chip st op) = (case op of EeRead a \<Rightarrow> [ee_val chip st a] | _ \<Rightarrow> [])"
    "ee_val chip (fst (ee_step chip st op)) = (case op of EeWrite a x \<Rightarrow>
       if unat a > E2END then ee_val chip st else (ee_val chip st)(a := x) | _ \<Rightarrow> ee_val chip st)"
  using eeprom_read_byte_val [OF assms(2)] eeprom_write_byte_val [OF assms] ee_reset_ok [OF assms(2)]
  by (cases op; simp add: case_prod_beta)+

lemma ee_run_ok:
  assumes "flash_ok chip" "ee_inv chip st"
  shows "ee_inv chip (fst (ee_run chip st ops)) \<and> snd (ee_run chip st ops) = snd (mem_run (ee_val chip st) ops)
    \<and> ee_val chip (fst (ee_run chip st ops)) = fst (mem_run (ee_val chip st) ops)"
  using assms(2)
proof (induction ops arbitrary: st)
  case (Cons op ops)
  note s = ee_step_ok [OF assms(1) Cons.prems, of op]
  have IH: "ee_inv chip (fst (ee_run chip (fst (ee_step chip st op)) ops))
    \<and> snd (ee_run chip (fst (ee_step chip st op)) ops) = snd (mem_run (ee_val chip (fst (ee_step chip st op))) ops)
    \<and> ee_val chip (fst (ee_run chip (fst (ee_step chip st op)) ops)) = fst (mem_run (ee_val chip (fst (ee_step chip st op))) ops)"
    by (rule Cons.IH [OF s(1)])
  have run: "ee_run chip st (op # ops) = (fst (ee_run chip (fst (ee_step chip st op)) ops),
      snd (ee_step chip st op) @ snd (ee_run chip (fst (ee_step chip st op)) ops))" by (simp add: case_prod_beta)
  show ?case using IH unfolding run s(2,3) by (cases op) (simp_all add: case_prod_beta del: ee_step.simps)
qed simp

subsection \<open>What a write does to the chip\<close>

definition compacted :: "'m flash_chip \<Rightarrow> 'm \<Rightarrow> u32 \<Rightarrow> u8 \<Rightarrow> u8 list" where
  "compacted chip m a x =
     (collect (fl_read chip m) (sector_addr (ee_sector a)) 2048 (replicate 256 0xFF))[unat (ee_offset a) := x]"

lemma write_flash:
  assumes "ee_inv chip st" "unat a \<le> E2END"
  defines "m \<equiv> flash st" and "n \<equiv> length (log_of chip (flash st) (ee_sector a))"
  shows "flash (eeprom_write_byte chip st a x) =
     (if x = ee_val chip st a then m
      else if n < 2048 then fl_write chip m (sector_addr (ee_sector a) + 2 * n) (entry (ee_offset a) x)
      else fst (rewrite_loop chip (sector_addr (ee_sector a)) (compacted chip m a x) (fl_erase chip m (sector_addr (ee_sector a))) 0 0))"
  using assms(2) old_data [OF assms(1,2), unfolded index_log(1) [OF assms(1)]]
  by (simp add: eeprom_write_byte_def Let_def ready_ok(2) [OF assms(1)] index_log(1) [OF assms(1)] m_def n_def compacted_def case_prod_beta)

lemma compacted_val:
  assumes "clean chip m (ee_sector a)" "length (log_of chip m (ee_sector a)) = 2048" "j < 256"
  shows "length (compacted chip m a x) = 256"
    "compacted chip m a x ! j = (if j = unat (ee_offset a) then x else log_val (log_of chip m (ee_sector a)) (of_nat j) 0xFF)"
proof -
  show "length (compacted chip m a x) = 256" by (simp add: compacted_def)
  have ws: "map (\<lambda>i. fl_read chip m (sector_addr (ee_sector a) + 2 * i)) [0..<2048] = log_of chip m (ee_sector a)"
    using log_prefix [of chip m "ee_sector a"] assms(2) by simp
  show "compacted chip m a x ! j = (if j = unat (ee_offset a) then x else log_val (log_of chip m (ee_sector a)) (of_nat j) 0xFF)"
    using assms(3) collect_val [of "replicate 256 0xFF" j "fl_read chip m" "sector_addr (ee_sector a)" 2048]
    by (simp add: compacted_def nth_list_update ws)
qed

text \<open>A chip that loses power: after \<open>k\<close> writes or erasures nothing reaches it any more.\<close>

definition dying :: "'m flash_chip \<Rightarrow> ('m \<times> nat) flash_chip" where
  "dying chip = \<lparr>fl_read = (\<lambda>(m, k). fl_read chip m),
     fl_write = (\<lambda>(m, k) a x. if k = 0 then (m, 0) else (fl_write chip m a x, k - 1)),
     fl_erase = (\<lambda>(m, k) a. if k = 0 then (m, 0) else (fl_erase chip m a, k - 1))\<rparr>"

definition with_power :: "nat \<Rightarrow> 'm eeprom \<Rightarrow> ('m \<times> nat) eeprom" where
  "with_power k st = \<lparr>flash = (flash st, k), initialized = initialized st, sector_index = sector_index st\<rparr>"

lemma dying_simps [simp]:
  "fl_read (dying chip) (m, k) = fl_read chip m"
  "fl_write (dying chip) (m, k) a x = (if k = 0 then (m, 0) else (fl_write chip m a x, k - 1))"
  "fl_erase (dying chip) (m, k) a = (if k = 0 then (m, 0) else (fl_erase chip m a, k - 1))"
  "cells (dying chip) (m, k) s = cells chip m s" "log_of (dying chip) (m, k) s = log_of chip m s"
  "clean (dying chip) (m, k) s = clean chip m s" "compacted (dying chip) (m, k) b y = compacted chip m b y"
  by (simp_all add: dying_def cells_def log_of_def clean_def compacted_def)

lemma with_power_ok:
  "ee_inv (dying chip) (with_power k st) = ee_inv chip st" "ee_val (dying chip) (with_power k st) = ee_val chip st"
  by (simp_all add: ee_inv_def with_power_def ee_val_def fun_eq_iff)

lemma rewrite_dying:
  "\<exists>n \<le> length buf. fst (fst (rewrite_loop (dying chip) p buf (m, k) i j)) = fst (rewrite_loop chip p (take n buf) m i j)"
proof (induction buf arbitrary: m k i j)
  case (Cons b buf)
  show ?case
  proof (cases "b \<noteq> 0xFF \<and> k = 0")
    case True
    have "fst (fst (rewrite_loop (dying chip) p bs (m, 0) i j)) = m" for bs i j
      by (induction bs arbitrary: i j) auto
    then show ?thesis using True by (intro exI [of _ 0]) simp
  next
    case False
    let ?m = "if b \<noteq> 0xFF then fl_write chip m (p + 2 * j) (entry (of_nat i) b) else m"
    obtain n where n: "n \<le> length buf" "fst (fst (rewrite_loop (dying chip) p buf (?m, if b \<noteq> 0xFF then k - 1 else k) (i + 1)
        (if b \<noteq> 0xFF then j + 1 else j))) = fst (rewrite_loop chip p (take n buf) ?m (i + 1) (if b \<noteq> 0xFF then j + 1 else j))"
      using Cons.IH by blast
    then show ?thesis using False by (intro exI [of _ "Suc n"]) (auto split: if_splits)
  qed
qed simp

lemma truncated_rewrite:
  fixes m :: 'm and s s' :: nat
  assumes "flash_ok chip" "length buf = 256" "n \<le> 256"
  defines "m' \<equiv> fst (rewrite_loop chip (sector_addr s) (take n buf) (fl_erase chip m (sector_addr s)) 0 0)"
  shows "clean chip m' s" "s' \<noteq> s \<Longrightarrow> cells chip m' s' = cells chip m s'" "log_of chip m' s = survivors 0 (take n buf)"
    "unat off < 256 \<Longrightarrow> log_val (log_of chip m' s) off 0xFF = (if unat off < n then buf ! unat off else 0xFF)"
proof -
  let ?e = "fl_erase chip m (sector_addr s)"
  have "cells chip ?e s = [] @ replicate 2048 0xFFFF" using cells_erase [OF assms(1)] by simp
  from clean_log [OF this] have e: "log_of chip ?e s = []" "clean chip ?e s" by simp_all
  have len: "length (take n buf) = n" using assms(2,3) by simp
  then have l: "0 + length (take n buf) \<le> 256" "length (log_of chip ?e s) + length (survivors 0 (take n buf)) \<le> 2048"
    using assms(3) length_survivors [of 0 "take n buf"] by (simp_all add: e(1))
  obtain m2 where m2: "rewrite_loop chip (sector_addr s) (take n buf) ?e 0 0 = (m2, length (survivors 0 (take n buf)))"
      "log_of chip m2 s = survivors 0 (take n buf)" "clean chip m2 s" "\<And>s'. s' \<noteq> s \<Longrightarrow> cells chip m2 s' = cells chip ?e s'"
    using rewrite_loop_log [OF assms(1) e(2) l] unfolding e(1) by auto
  have m: "m' = m2" by (simp add: m'_def m2(1))
  show "clean chip m' s" "log_of chip m' s = survivors 0 (take n buf)" by (simp_all add: m m2)
  show "cells chip m' s' = cells chip m s'" if "s' \<noteq> s"
    using m2(4) [OF that] cells_erase [OF assms(1), of m s s'] that by (simp add: m)
  show "log_val (log_of chip m' s) off 0xFF = (if unat off < n then buf ! unat off else 0xFF)" if "unat off < 256"
    unfolding m m2(2) using that l(1) assms(2,3) by (subst survivors_val) (auto simp: len)
qed

text \<open>A chip that counts its erasures.\<close>

definition counting :: "'m flash_chip \<Rightarrow> ('m \<times> (nat \<Rightarrow> nat)) flash_chip" where
  "counting chip = \<lparr>fl_read = (\<lambda>(m, c). fl_read chip m),
     fl_write = (\<lambda>(m, c) a x. (fl_write chip m a x, c)),
     fl_erase = (\<lambda>(m, c) a. (fl_erase chip m a, c(a := c a + 1)))\<rparr>"

lemma counting_simps [simp]:
  "fl_read (counting chip) (m, c) = fl_read chip m"
  "fl_write (counting chip) (m, c) a x = (fl_write chip m a x, c)"
  "fl_erase (counting chip) (m, c) a = (fl_erase chip m a, c(a := c a + 1))"
  "cells (counting chip) (m, c) s = cells chip m s" "log_of (counting chip) (m, c) s = log_of chip m s"
  "clean (counting chip) (m, c) s = clean chip m s"
  by (simp_all add: counting_def cells_def log_of_def clean_def)

lemma counting_ok: "flash_ok chip \<Longrightarrow> flash_ok (counting chip)"
  by (simp add: flash_ok_def counting_def)

lemma rewrite_counting: "snd (fst (rewrite_loop (counting chip) p buf (m, c) i j)) = c"
  by (induction buf arbitrary: m i j) simp_all

text \<open>The offsets in use are below 68, so a sector that was compacted has at most 68 entries.\<close>

definition small_log :: "u16 list \<Rightarrow> bool" where
  "small_log ws \<longleftrightarrow> (\<forall>w\<in>set ws. unat (w AND 255) < 68)"

lemma small_log_val:
  assumes "small_log ws" "68 \<le> j" "j < 256"
  shows "log_val ws (of_nat j) d = d"
  using assms(1)
proof (induction ws arbitrary: d)
  case (Cons w ws)
  then have "ucast (w AND 255) \<noteq> (of_nat j :: u32)" using assms(2) by (auto simp: small_log_def word8_ucast_eq [OF assms(3)])
  then show ?case using Cons by (simp add: log_val_def small_log_def)
qed simp

lemma survivors_take:
  assumes "\<forall>j<length buf. n \<le> j \<longrightarrow> buf ! j = 0xFF"
  shows "survivors i buf = survivors i (take n buf)"
  using assms
proof (induction buf arbitrary: i n)
  case (Cons b buf)
  show ?case
  proof (cases n)
    case 0
    have "survivors i bs = []" if "\<forall>b\<in>set bs. b = 0xFF" for bs i using that by (induction bs arbitrary: i) auto
    moreover have "\<forall>x\<in>set (b # buf). x = 0xFF" using Cons.prems 0 by (metis in_set_conv_nth le0)
    ultimately show ?thesis using 0 by simp
  next
    case (Suc k)
    have "\<forall>j<length buf. k \<le> j \<longrightarrow> buf ! j = 0xFF" using Cons.prems Suc by (metis Suc_le_mono length_Cons nth_Cons_Suc not_less_eq)
    then show ?thesis using Cons.IH [of k] Suc by simp
  qed
qed simp

lemma survivors_small: "i + length buf \<le> 68 \<Longrightarrow> small_log (survivors i buf)"
proof (induction buf arbitrary: i)
  case (Cons b buf)
  have i: "unat (of_nat i :: u32) < 256" "unat (of_nat i :: u32) = i" using Cons.prems by (simp_all add: unat_small_nat)
  have "unat (entry (of_nat i) b AND 255) = i"
    using entry_simps(1) [OF i(1), of b] word8_ucast_eq [of i "entry (of_nat i) b"] Cons.prems by simp
  then show ?case using Cons.IH [of "i + 1"] Cons.prems by (auto simp: small_log_def)
qed (simp add: small_log_def)

lemma entry_small: "unat a \<le> E2END \<Longrightarrow> unat (entry (ee_offset a) x AND 255) < 68"
proof -
  assume a: "unat a \<le> E2END"
  have i: "unat (ee_offset a) < 256" "ee_offset a = of_nat (unat (ee_offset a))" using offset_small [OF a] by simp_all
  show ?thesis using entry_simps(1) [OF i(1), of x] offset_small [OF a] i
    by (metis word8_ucast_eq)
qed

section \<open>Wear\<close>

definition writes_to :: "nat \<Rightarrow> ee_op list \<Rightarrow> nat" where
  "writes_to s ops = length (filter (\<lambda>op. case op of EeWrite a x \<Rightarrow> unat a \<le> E2END \<and> ee_sector a = s | _ \<Rightarrow> False) ops)"

text \<open>\<open>N\<close> writes have gone to the sector: its entries and its erasures, weighted, are not more.\<close>

definition worn :: "'m flash_chip \<Rightarrow> nat \<Rightarrow> nat \<Rightarrow> 'm \<times> (nat \<Rightarrow> nat) \<Rightarrow> bool" where
  "worn chip s N mc \<longleftrightarrow> small_log (log_of chip (fst mc) s)
     \<and> length (log_of chip (fst mc) s) + 1980 * snd mc (sector_addr s) \<le> N"

lemma sector_addr_inj: "sector_addr s = sector_addr s' \<longleftrightarrow> s = s'"
  by (simp add: sector_addr_def)

lemma worn_other:
  assumes "worn chip s N mc" "cells chip m' s = cells chip (fst mc) s" "c' (sector_addr s) = snd mc (sector_addr s)"
  shows "worn chip s N (m', c')"
  using assms same_cells [OF assms(2)] by (simp add: worn_def)

lemma compacted_worn:
  fixes m :: 'm and x :: u8 and s :: nat
  assumes "flash_ok chip" "clean chip m (ee_sector a)" "length (log_of chip m (ee_sector a)) = 2048" "unat a \<le> E2END"
    and "small_log (log_of chip m (ee_sector a))"
  defines "m' \<equiv> fst (rewrite_loop chip (sector_addr (ee_sector a)) (compacted chip m a x) (fl_erase chip m (sector_addr (ee_sector a))) 0 0)"
  shows "small_log (log_of chip m' (ee_sector a))" "length (log_of chip m' (ee_sector a)) \<le> 68"
    "s \<noteq> ee_sector a \<Longrightarrow> cells chip m' s = cells chip m s"
proof -
  let ?buf = "compacted chip m a x"
  have len: "length ?buf = 256" using compacted_val(1) [OF assms(2,3), of 0] by simp
  have "?buf ! j = 0xFF" if "j < length ?buf" "68 \<le> j" for j
    using compacted_val(2) [OF assms(2,3), of j x] that offset_small [OF assms(4)] small_log_val [OF assms(5) that(2)] len by auto
  then have t: "survivors 0 ?buf = survivors 0 (take 68 ?buf)" by (intro survivors_take) auto
  note tr = truncated_rewrite [OF assms(1) len order.refl]
  have all: "take 256 ?buf = ?buf" using len by simp
  have log: "log_of chip m' (ee_sector a) = survivors 0 (take 68 ?buf)"
    using tr(3) [of "ee_sector a" m] unfolding all t m'_def .
  show "small_log (log_of chip m' (ee_sector a))" unfolding log by (rule survivors_small) (simp add: len)
  show "length (log_of chip m' (ee_sector a)) \<le> 68" unfolding log using length_survivors [of 0 "take 68 ?buf"] len by simp
  show "cells chip m' s = cells chip m s" if "s \<noteq> ee_sector a" using tr(2) [OF that, of m] unfolding all m'_def .
qed

lemma rewrite_counting_fst: "fst (fst (rewrite_loop (counting chip) p buf (m, c) i j)) = fst (rewrite_loop chip p buf m i j)"
  by (induction buf arbitrary: m i j) simp_all

lemma write_worn:
  assumes "flash_ok chip" "ee_inv (counting chip) st" "unat a \<le> E2END" "worn chip s N (flash st)"
  shows "worn chip s (if ee_sector a = s then N + 1 else N) (flash (eeprom_write_byte (counting chip) st a x))"
proof -
  obtain m c where f: "flash st = (m, c)" by (cases "flash st")
  let ?s = "ee_sector a"
  let ?ws = "log_of chip m ?s"
  have cl: "clean chip m ?s" using assms(2) by (simp add: ee_inv_def f)
  have cmp: "compacted (counting chip) (m, c) a x = compacted chip m a x" by (simp add: compacted_def)
  note w = write_flash [OF assms(2,3), of x, unfolded f counting_simps cmp]
  consider (same) "x = ee_val (counting chip) st a" | (app) "x \<noteq> ee_val (counting chip) st a" "length ?ws < 2048"
    | (full) "x \<noteq> ee_val (counting chip) st a" "length ?ws = 2048" using length_log [of chip m ?s] by linarith
  then show ?thesis
  proof cases
    case same
    then show ?thesis using w assms(4) by (auto simp: worn_def f)
  next
    case app
    let ?m = "fl_write chip m (sector_addr ?s + 2 * length ?ws) (entry (ee_offset a) x)"
    have ne: "entry (ee_offset a) x \<noteq> 0xFFFF" using offset_small [OF assms(3)] by (intro entry_not_erased) auto
    note ap = append_entry [OF assms(1) cl app(2) ne]
    have w': "flash (eeprom_write_byte (counting chip) st a x) = (?m, c)" using w app by simp
    show ?thesis
    proof (cases "?s = s")
      case True
      then show ?thesis using assms(4) ap(1) entry_small [OF assms(3), of x] unfolding w' by (auto simp: worn_def f small_log_def)
    next
      case False
      then have "cells chip ?m s = cells chip m s" by (intro ap(3)) simp
      then show ?thesis unfolding w' using worn_other [OF assms(4), of ?m c] False by (simp add: f)
    qed
  next
    case full
    let ?p = "sector_addr ?s"
    let ?r = "rewrite_loop (counting chip) ?p (compacted chip m a x) (fl_erase chip m ?p, c(?p := c ?p + 1)) 0 0"
    let ?m = "fst (rewrite_loop chip ?p (compacted chip m a x) (fl_erase chip m ?p) 0 0)"
    have w': "flash (eeprom_write_byte (counting chip) st a x) = (?m, c(?p := c ?p + 1))"
      using w full rewrite_counting_fst [of chip ?p "compacted chip m a x" "fl_erase chip m ?p" "c(?p := c ?p + 1)" 0 0]
        rewrite_counting [of chip ?p "compacted chip m a x" "fl_erase chip m ?p" "c(?p := c ?p + 1)" 0 0]
      by (simp add: prod_eq_iff)
    show ?thesis
    proof (cases "?s = s")
      case True
      then have sm: "small_log ?ws" using assms(4) by (simp add: worn_def f)
      note cw = compacted_worn [OF assms(1) cl full(2) assms(3) sm, where x = x]
      have "2048 + 1980 * c ?p \<le> N" using assms(4) True full(2) by (auto simp: worn_def f)
      then show ?thesis unfolding w' using cw(1,2) True by (simp add: worn_def)
    next
      case False
      let ?buf = "compacted chip m a x"
      have len: "length ?buf = 256" using compacted_val(1) [OF cl full(2), of 0] by simp
      then have all: "take 256 ?buf = ?buf" by simp
      have "cells chip ?m s = cells chip m s"
        using truncated_rewrite(2) [OF assms(1) len order.refl, of s ?s m] False unfolding all by simp
      then show ?thesis unfolding w' using worn_other [OF assms(4), of ?m "c(?p := c ?p + 1)"] False by (simp add: f sector_addr_inj)
    qed
  qed
qed

lemma run_worn:
  assumes "flash_ok chip" "ee_inv (counting chip) st" "worn chip s N (flash st)"
  shows "worn chip s (N + writes_to s ops) (flash (fst (ee_run (counting chip) st ops)))"
  using assms(2,3)
proof (induction ops arbitrary: st N)
  case (Cons op ops)
  let ?st = "fst (ee_step (counting chip) st op)"
  have i: "ee_inv (counting chip) ?st" by (rule ee_step_ok(1) [OF counting_ok [OF assms(1)] Cons.prems(1)])
  have "worn chip s (N + writes_to s [op]) (flash ?st)"
  proof (cases op)
    case (EeRead a)
    then show ?thesis using Cons.prems(2) eeprom_read_byte_val(4) [OF Cons.prems(1), of a] by (simp add: writes_to_def case_prod_beta)
  next
    case (EeWrite a x)
    show ?thesis
    proof (cases "unat a \<le> E2END")
      case True
      then show ?thesis using write_worn [OF assms(1) Cons.prems(1) True Cons.prems(2), of x] EeWrite
        by (simp add: writes_to_def split: if_splits)
    next
      case False
      then show ?thesis using Cons.prems(2) EeWrite by (simp add: writes_to_def eeprom_write_byte_def)
    qed
  next
    case EeReset
    then show ?thesis using Cons.prems(2) by (simp add: writes_to_def ee_reset_def)
  qed
  from Cons.IH [OF i this] have "worn chip s (N + writes_to s [op] + writes_to s ops) (flash (fst (ee_run (counting chip) ?st ops)))" .
  moreover have "N + writes_to s (op # ops) = N + writes_to s [op] + writes_to s ops" by (simp add: writes_to_def)
  moreover have "fst (ee_run (counting chip) st (op # ops)) = fst (ee_run (counting chip) ?st ops)" by (simp add: case_prod_beta)
  ultimately show ?case by (simp only: add.assoc)
qed (simp add: writes_to_def)

section \<open>An erased chip\<close>

definition erased :: "'m flash_chip \<Rightarrow> 'm \<Rightarrow> bool" where
  "erased chip m \<longleftrightarrow> (\<forall>s<FLASH_SECTORS. cells chip m s = replicate 2048 0xFFFF)"

lemma erased_ok:
  assumes "erased chip m"
  shows "ee_inv chip (ee_reset m)" "ee_val chip (ee_reset m) = (\<lambda>_. 0xFF)"
    "s < FLASH_SECTORS \<Longrightarrow> log_of chip m s = []"
proof -
  have c: "log_of chip m s = []" "clean chip m s" if "s < FLASH_SECTORS" for s
    using clean_log [of chip m s "[]" 2048] assms that by (simp_all add: erased_def)
  then show "s < FLASH_SECTORS \<Longrightarrow> log_of chip m s = []" by blast
  show "ee_inv chip (ee_reset m)" "ee_val chip (ee_reset m) = (\<lambda>_. 0xFF)"
    using c by (simp_all add: ee_inv_def ee_reset_def ee_val_def fun_eq_iff)
qed

lemma erased_nor: "erased nor_chip (\<lambda>_. 0xFFFF)"
  by (simp add: erased_def cells_def nor_chip_def map_replicate_const)

section \<open>Properties\<close>

text \<open>
  C6. The emulation is a memory of bytes. Whatever bytes are read and written, and however often the
  board is reset in between, every read gives what an array would give that starts with \<open>0xFF\<close>
  everywhere: the last byte written to the address, for the addresses up to \<open>0x10BB\<close>, also after its
  sector was full and has been erased. The chip is any that keeps its promise.
\<close>

theorem eeprom_refines_memory:
  assumes "flash_ok chip" "erased chip m"
  shows "snd (ee_run chip (ee_reset m) ops) = snd (mem_run (\<lambda>_. 0xFF) ops)"
  using ee_run_ok [OF assms(1) erased_ok(1) [OF assms(2)], of ops] by (simp add: erased_ok(2) [OF assms(2)])

lemma eeprom_refines_memory_witness:
  "snd (ee_run nor_chip (ee_reset (\<lambda>_. 0xFFFF))
      [EeWrite 5 7, EeWrite 300 9, EeWrite 5 8, EeReset, EeRead 5, EeRead 300, EeRead 6, EeWrite 5000 1, EeRead 5000])
    = [8, 9, 0xFF, 0xFF]"
  by (subst eeprom_refines_memory [OF nor_chip_ok erased_nor]) (simp add: E2END_def)



text \<open>
  C3. Wear. On a chip that is erased at first, in any run and over any resets, a sector is erased at most once for
  1980 writes of its bytes.
\<close>

theorem eeprom_wear:
  assumes "flash_ok chip" "erased chip m" "s < FLASH_SECTORS"
  shows "snd (flash (fst (ee_run (counting chip) (ee_reset (m, \<lambda>_. 0)) ops))) (sector_addr s) \<le> writes_to s ops div 1980"
proof -
  have e: "erased (counting chip) (m, \<lambda>_. 0)" using assms(2) by (simp add: erased_def)
  have "worn chip s 0 (flash (ee_reset (m, \<lambda>_. 0)))"
    using erased_ok(3) [OF assms(2,3)] by (simp add: worn_def ee_reset_def small_log_def)
  from run_worn [OF assms(1) erased_ok(1) [OF e] this, of ops] show ?thesis by (simp add: worn_def less_eq_div_iff_mult_less_eq)
qed

lemma eeprom_wear_witness:
  "snd (flash (fst (ee_run (counting nor_chip) (ee_reset (\<lambda>_. 0xFFFF, \<lambda>_. 0)) (replicate 5000 (EeWrite 5 7))))) (sector_addr 1) \<le> 2"
proof -
  have "writes_to 1 (replicate 5000 (EeWrite 5 7)) = 5000"
    by (simp add: writes_to_def E2END_def unat_ee_sector filter_replicate)
  then show ?thesis
    using eeprom_wear [OF nor_chip_ok erased_nor, of 1 "replicate 5000 (EeWrite 5 7)"]
    by (simp add: FLASH_SECTORS_def)
qed

end
