(* ===== verification/Spec2Isabelle.thy ===== *)
theory Spec2Isabelle
  imports Fnet_Memcpy Fnet_String Fnet_Checksum Fnet_Mempool Fnet_Netbuf_Main Fnet_Isr Fnet_Timer Fnet_Eth Fnet_Inet
    Fnet_Ip4_Main Fnet_Ip4_Wire Teensy_Eeprom
begin

text \<open>
  A verification of the C core under the firmware of a two-wheeled robot on a Teensy 4.1 board: the
  FNET TCP/IP stack in \<^verbatim>\<open>src/pjrc/libraries/FNET/src\<close> and the C parts of the
  Teensy core in \<^verbatim>\<open>src/pjrc/teensy4\<close>. The robot's own C++ code talks to its host
  through this stack.

  \<^bold>\<open>Parts and theories.\<close> Most theories model one file of \<^verbatim>\<open>FNET/src/stack\<close>, in the
  order in which the files depend on each other.

  \<^item> \<^theory_text>\<open>Prelude\<close>: widths of the C types, byte order, rule collections, facts on words and lists.
  \<^item> \<^theory_text>\<open>Fnet_Memcpy\<close>, \<^theory_text>\<open>Fnet_String\<close>: \<^verbatim>\<open>fnet_stdlib.c\<close>. The copy
    that aligns its source and moves words is shown equal to a block copy over a flat memory;
    strings are byte lists with a NUL in them and a read behind the list is the value \<open>None\<close>.
  \<^item> \<^theory_text>\<open>Fnet_Checksum\<close>: \<^verbatim>\<open>fnet_checksum.c\<close>. The unrolled sums over chains of
    buffers of any length, odd ones included, are the one's complement sum of the bytes.
  \<^item> \<^theory_text>\<open>Fnet_Mempool\<close>: \<^verbatim>\<open>fnet_mempool.c\<close>. The circular free list in memory
    refines a list of tiles; clients hold disjoint blocks; nothing is lost.
  \<^item> \<^theory_text>\<open>Fnet_Netbuf\<close>, \<^theory_text>\<open>Fnet_Netbuf_Ops\<close>, \<^theory_text>\<open>Fnet_Netbuf_Cut\<close>,
    \<^theory_text>\<open>Fnet_Netbuf_Pullup\<close>: \<^verbatim>\<open>fnet_netbuf.c\<close>, the net buffers: chains of
    descriptors over reference-counted data. The operations are proved in the locale
    \<open>block_allocator\<close>, which states what they need of the allocator.
  \<^item> \<^theory_text>\<open>Fnet_Netbuf_Main\<close>: the interpretation of that locale on the memory pool, the step
    relation of the clients of the net buffers, and the properties of the two parts together.
  \<^item> \<^theory_text>\<open>Fnet_Isr\<close>: \<^verbatim>\<open>fnet_isr.c\<close>, the table of interrupt and event handlers, the
    software lock and the delivery of what was raised under it.
  \<^item> \<^theory_text>\<open>Fnet_Timer\<close>: \<^verbatim>\<open>fnet_timer.c\<close>, the queue of software timers in the heap.
  \<^item> \<^theory_text>\<open>Fnet_Netbuf_Drain\<close>: the allocation of net buffers when it may call the drain of the
    protocols, for any drain that keeps the memory consistent.
  \<^item> \<^theory_text>\<open>Fnet_Arp\<close>, \<^theory_text>\<open>Fnet_Arp_Main\<close>: \<^verbatim>\<open>fnet_arp.c\<close> with the output of
    \<^verbatim>\<open>fnet_eth.c\<close>, which it calls and which calls it back through the drain: the cache, the
    packets that wait in it, and the invariant \<open>arp_inv\<close> of both.
  \<^item> \<^theory_text>\<open>Fnet_Eth\<close>: the rest of \<^verbatim>\<open>fnet_eth.c\<close>, a step relation of an interface from
    its start on, and the properties of ARP and Ethernet together.
  \<^item> \<^theory_text>\<open>Fnet_Serial\<close>: the formatted output of \<^verbatim>\<open>fnet_serial.c\<close> (under
    \<^verbatim>\<open>FNET/src/service\<close>), an interpreter of format strings, against the texts that the pieces of
    a format stand for.
  \<^item> \<^theory_text>\<open>Fnet_Inet\<close>: addresses as text, \<^verbatim>\<open>fnet_inet.c\<close> and the conversions of
    hardware addresses of \<^verbatim>\<open>fnet_eth.c\<close>, printed with \<^theory_text>\<open>Fnet_Serial\<close>.
  \<^item> \<^theory_text>\<open>Fnet_Ip4\<close>: \<^verbatim>\<open>fnet_ip4.c\<close> with the input queue of \<^verbatim>\<open>fnet_ip.c\<close>.
    \<^theory_text>\<open>Fnet_Ip4_Frag\<close> has the invariant \<open>ip4_inv\<close> of the fragment lists and the operations
    on one packet, in the locale \<open>block_allocator\<close>; \<^theory_text>\<open>Fnet_Ip4_Order\<close> the abstract
    specification of what becomes of fragments in any order of arrival; \<^theory_text>\<open>Fnet_Ip4_Main\<close> the
    runs on the heap and the properties of the reassembly.
  \<^item> \<^theory_text>\<open>Fnet_Netbuf_Room\<close>, \<^theory_text>\<open>Fnet_Ip4_Output\<close>, \<^theory_text>\<open>Fnet_Ip4_Trip\<close>,
    \<^theory_text>\<open>Fnet_Ip4_Wire\<close>: the output of IPv4. The locale \<open>roomy_allocator\<close> extends
    \<open>block_allocator\<close> by a measure of free memory that a request diminishes by what it takes; in it,
    the output is compared with \<open>ip4_wire\<close>, the packets as a function of the payload, over any
    interface that keeps the contract \<open>interface_ok\<close>. \<^theory_text>\<open>Fnet_Ip4_Trip\<close> shows that these
    packets are what the reassembly expects, \<^theory_text>\<open>Fnet_Ip4_Wire\<close> that Ethernet keeps the contract.
    The bound on memory, 23 units of 8 bytes for each packet and 10 more, is sufficient, not sharp. When
    a packet is cut, all but the last net buffer of its payload have to be part of the first
    fragment: a fragment copied from several buffers loses references when memory runs out (C25).
  \<^item> \<^theory_text>\<open>Teensy_Eeprom\<close>: \<^verbatim>\<open>src/pjrc/teensy4/eeprom.c\<close>, the emulation of an EEPROM in
    63 sectors of the flash chip. The chip is a parameter with the promise \<open>flash_ok\<close>; words and blocks are
    proved in the locale \<open>byte_store\<close>, which the bytes interpret. Chips that lose power (\<open>dying\<close>) and that count
    their erasures (\<open>counting\<close>) run the same code.

  \<^bold>\<open>How the code is represented.\<close> A C struct is a record, a linked list of structs with exclusive
  owners is a list, and memory that the code addresses by number (the pool's unit headers, the data
  buffers) is a function or map from addresses. An undefined access (a null pointer, a read or
  write outside a buffer) is the value \<open>None\<close>. Addresses and sizes are natural numbers; each
  operation that can wrap around has its reduction modulo \<open>2 ^ 32\<close> written out (\<open>w32\<close>).
  Loops over the list structure are structural recursions; loops that follow pointers through memory
  are partial functions, and that they end is part of the theorems; there is no fuel.

  \<^bold>\<open>Parameters.\<close> The bytes that lie behind a buffer (\<open>pad\<close> of the checksum), the content of
  memory before it is written (\<open>raw\<close>), and the callback that asks the protocols to give memory
  back (\<open>dr\<close> of the net buffers: C17 to C25 are about calls with \<^verbatim>\<open>drain\<close> false; from
  \<^theory_text>\<open>Fnet_Arp\<close> on it is \<open>fnet_prot_drain\<close>, with the drains of the transport protocols and
  of IPv4 as the parameter \<open>nt_drain\<close>), and what a local array holds before it is written
  (\<open>junk\<close> of the printing functions). The handlers of interrupts and timers, the clock
  (\<open>nt_ms\<close>: the value of each read), the hardware address, the MTU and the input of IPv4 are
  fields of the board, for which the properties say what they assume. Above and below IPv4 the raw
  sockets, the transport protocols, ICMP and the output of an interface are arguments.

  \<^bold>\<open>What the properties show.\<close> C1 and C4 the standard library replacements; C2, C3 and C6 the
  emulation of the EEPROM (C2 what is left when power is lost during a write); C8 to C10 the checksum;
  C11 to C15 the memory pool; C17 to C25 the net buffers
  (C24 and C25 state two faults of the code: the pull-up of a range that does not end at a buffer's
  end, and the references lost when a copy runs out of memory); C26 the delivery of events; C28, C30
  and C31 the timers; C32 to C36 ARP and Ethernet (C36 the packet that is sent after the drain has
  freed it); C37 the formatted output; C38 and C39 the text of addresses; C27, C29 and C40 the
  reassembly of IPv4 (C27 the one kind of packet that makes it use freed memory; C29 what it does with
  fragments in any order, those that it loses included; C40 that it never makes up data); C5, C7 and C16 the output of IPv4 (C5 what it sends when memory suffices, C16
  in any state of the memory, C7 that reassembly undoes the fragmentation).

  \<^bold>\<open>Not modelled.\<close> Debug-only code and options that \<^verbatim>\<open>fnet_user_config.h\<close> switches off (IPv6,
  time stamps, the assembler version of the checksum), register-level drivers and the ring of
  descriptors of the Ethernet driver (its output is the list \<open>sent\<close> of frames), the pairs of
  \<^verbatim>\<open>fnet_isr_lock\<close> and \<^verbatim>\<open>fnet_isr_unlock\<close> around the operations of ARP and IPv4 (each runs to
  its end), the start, stop and socket options of IPv4, the third-party \<^verbatim>\<open>mbedtls\<close>, and the C++ code. The remaining protocols of the
  stack are later steps of this development.
\<close>

end
